(* ===== verification/Lwip_Prelude.thy ===== *)
theory Lwip_Prelude
  imports Main "HOL-Library.Word"
begin

text \<open>
  The prelude of the development.
  \<^item> The machine types of the stack: \<open>u8_t\<close>, \<open>u16_t\<close> and \<open>u32_t\<close> of \<open>lwip/arch.h\<close> as words.
  \<^item> The outcomes of C code. A function that returns on every input it can be given is an
    ordinary HOL function. One that may stop abnormally (an \<open>LWIP_ASSERT\<close> or \<open>LWIP_ERROR\<close> that
    fails calls \<open>abort()\<close> in this build, see \<open>lwip_config/arch/cc.h\<close>; or a pointer is dereferenced
    that points nowhere) has a result of type \<open>'a res\<close>. One that also contains a loop over linked
    structures, which need not end on a damaged structure, has a result of type \<open>'a run\<close>:
    \<open>None\<close> is \<open>does not return\<close>.
  \<^item> The generic lemmas on words, lists and results that the components share, and the locale of
    components whose operations keep an invariant.
\<close>

unbundle bit_operations_syntax

type_synonym u8 = "8 word"
type_synonym u16 = "16 word"
type_synonym u32 = "32 word"

text \<open>Why a C function stops without returning.\<close>

datatype fault =
    Abort string \<comment> \<open>\<open>LWIP_ASSERT\<close>/\<open>LWIP_ERROR\<close> with this message failed\<close>
  | Null_deref \<comment> \<open>the null pointer is dereferenced\<close>
  | Wild_pointer \<comment> \<open>a pointer outside the object, or to no object, is dereferenced\<close>
  | Int_overflow \<comment> \<open>a signed computation leaves the range of \<open>int\<close>\<close>

type_synonym 'a res = "fault + 'a"
type_synonym 'a run = "'a res option"

subsection \<open>Results and runs\<close>

definition bind_res :: "'a res \<Rightarrow> ('a \<Rightarrow> 'b res) \<Rightarrow> 'b res" where
  "bind_res m f = (case m of Inl e \<Rightarrow> Inl e | Inr v \<Rightarrow> f v)"

definition bind_run :: "'a run \<Rightarrow> ('a \<Rightarrow> 'b run) \<Rightarrow> 'b run" where
  "bind_run m f = Option.bind m (\<lambda>r. case r of Inl e \<Rightarrow> Some (Inl e) | Inr v \<Rightarrow> f v)"

definition ret :: "'a \<Rightarrow> 'a run" where
  "ret v = Some (Inr v)"

definition stop :: "fault \<Rightarrow> 'a run" where
  "stop e = Some (Inl e)"

text \<open>\<open>LWIP_ASSERT(msg, cond)\<close> followed by the rest of the function.\<close>

definition lwip_assert :: "string \<Rightarrow> bool \<Rightarrow> 'a run \<Rightarrow> 'a run" where
  "lwip_assert msg cond k = (if cond then k else stop (Abort msg))"

named_theorems run_simps \<open>evaluation of results and runs\<close>

lemma bind_res_simps [simp, run_simps]:
  "bind_res (Inl e) f = Inl e"
  "bind_res (Inr v) f = f v"
  by (simp_all add: bind_res_def)

lemma bind_run_ret [simp, run_simps]: "bind_run (ret v) f = f v"
  by (simp add: bind_run_def ret_def)

lemma bind_run_stop [simp, run_simps]: "bind_run (stop e) f = stop e"
  by (simp add: bind_run_def stop_def)

lemma bind_run_None [simp, run_simps]: "bind_run None f = None"
  by (simp add: bind_run_def)

lemma lwip_assert_simps [simp, run_simps]:
  "lwip_assert msg True k = k"
  "lwip_assert msg False k = stop (Abort msg)"
  by (simp_all add: lwip_assert_def)

lemma ret_inject [simp]: "ret v = ret w \<longleftrightarrow> v = w"
  by (simp add: ret_def)

lemma ret_stop_distinct [simp]: "ret v \<noteq> stop e" "stop e \<noteq> ret v"
  by (simp_all add: ret_def stop_def)

lemma ret_stop_None [simp]: "ret v \<noteq> None" "stop e \<noteq> None" "None \<noteq> ret v" "None \<noteq> stop e"
  by (simp_all add: ret_def stop_def)

lemma run_cases [case_names loops stops returns]:
  obtains "r = None" | e where "r = stop e" | v where "r = ret v"
proof (cases r)
  case None
  then show ?thesis by (rule that(1))
next
  case (Some x)
  then show ?thesis by (cases x) (auto simp: ret_def stop_def intro: that(2,3))
qed

lemma bind_run_assoc: "bind_run (bind_run m f) g = bind_run m (\<lambda>v. bind_run (f v) g)"
  by (cases m rule: run_cases) auto

lemma bind_run_retE:
  assumes "bind_run m f = ret w"
  obtains v where "m = ret v" and "f v = ret w"
  using assms by (cases m rule: run_cases) auto

lemma lwip_assert_retE:
  assumes "lwip_assert msg c k = ret w"
  obtains "c" and "k = ret w"
  using assms by (auto simp: lwip_assert_def split: if_splits)

text \<open>The monotonicity facts that let \<^theory_text>\<open>partial_function\<close> see through the combinators.\<close>

lemma bind_run_mono [partial_function_mono]:
  assumes "mono_option B" and "\<And>y. mono_option (\<lambda>f. C y f)"
  shows "mono_option (\<lambda>f. bind_run (B f) (\<lambda>y. C y f))"
proof -
  have "mono_option (\<lambda>f. case r of Inl e \<Rightarrow> Some (Inl e) | Inr v \<Rightarrow> C v f)" for r
    using assms(2) by (cases r) (auto intro: option.const_mono)
  with assms(1) show ?thesis
    unfolding bind_run_def by (rule bind_mono)
qed

lemma lwip_assert_mono [partial_function_mono]:
  assumes "mono_option k"
  shows "mono_option (\<lambda>f. lwip_assert msg c (k f))"
  using assms by (cases c) (simp_all add: option.const_mono)

subsection \<open>Words\<close>

named_theorems word_unat \<open>reading machine arithmetic as arithmetic on natural numbers\<close>

lemma unat_bound_u8 [simp]: "unat (w :: u8) < 256"
  using unsigned_less [of w, where ?'a = nat] by simp

lemma unat_bound_u16 [simp]: "unat (w :: u16) < 65536"
  using unsigned_less [of w, where ?'a = nat] by simp

lemma unat_bound_u32 [simp]: "unat (w :: u32) < 4294967296"
  using unsigned_less [of w, where ?'a = nat] by simp

lemma unat_add_u16 [word_unat]: "unat (a + b :: u16) = (unat a + unat b) mod 65536"
  by (simp add: unat_word_ariths)

lemma unat_add_u32 [word_unat]: "unat (a + b :: u32) = (unat a + unat b) mod 4294967296"
  by (simp add: unat_word_ariths)

lemma unat_sub_u16 [word_unat]: "b \<le> a \<Longrightarrow> unat (a - b :: u16) = unat a - unat b"
  by (simp add: unat_sub)

lemma unat_eq_iff_word: "unat a = unat b \<longleftrightarrow> a = b"
  by (simp add: word_unat_eq_iff)

lemma word_nat_compare [word_unat]:
  "(a :: 'a::len word) \<le> b \<longleftrightarrow> unat a \<le> unat b"
  "(a :: 'a::len word) < b \<longleftrightarrow> unat a < unat b"
  by (simp_all add: word_le_nat_alt word_less_nat_alt)

lemma drop_bit_1_less: "m \<noteq> 0 \<Longrightarrow> unat (drop_bit (Suc 0) m :: u32) < unat m"
  by (simp add: drop_bit_eq_div unat_div unat_gt_0)

lemma u8_div_10_less: "ap div 10 \<noteq> 0 \<Longrightarrow> unat (ap div 10 :: u8) < unat ap"
  by (simp add: unat_div unat_eq_0 [symmetric] del: unat_eq_0)

lemma unat_ucast_u32: "unat (ucast (b :: u8) :: u32) = unat b"
  using unat_bound_u8 [of b] by (simp add: unsigned_ucast_eq take_bit_nat_eq_self del: unat_bound_u8)

subsection \<open>Lists as arrays\<close>

text \<open>\<open>memmove\<close> within one buffer: \<open>k\<close> bytes from index \<open>src\<close> to index \<open>dst\<close>.\<close>

definition memmove_within :: "'a list \<Rightarrow> nat \<Rightarrow> nat \<Rightarrow> nat \<Rightarrow> 'a list" where
  "memmove_within buf dst src k = take dst buf @ take k (drop src buf) @ drop (dst + k) buf"

lemma length_memmove_within:
  "src + k \<le> length buf \<Longrightarrow> dst + k \<le> length buf \<Longrightarrow>
   length (memmove_within buf dst src k) = length buf"
  by (simp add: memmove_within_def)

lemma takeWhile_neq_append_stop [simp]:
  "x \<notin> set xs \<Longrightarrow> takeWhile (\<lambda>y. y \<noteq> x) (xs @ x # ys) = xs"
  by (induction xs) auto

lemma find_append:
  "find P (xs @ ys) = (case find P xs of None \<Rightarrow> find P ys | Some x \<Rightarrow> Some x)"
  by (induction xs) auto

subsection \<open>Sequences of operations\<close>

text \<open>
  A component whose operations are events on a state. The locale states what is shown of one
  operation: in a state with the invariant, an operation that may be called there returns, and the
  invariant holds again. Then every sequence of operations, each allowed when its turn comes,
  returns in a state with the invariant.
\<close>

fun run_all :: "('e \<Rightarrow> 's \<Rightarrow> 's run) \<Rightarrow> 'e list \<Rightarrow> 's \<Rightarrow> 's run" where
  "run_all step [] s = ret s"
| "run_all step (e # es) s = bind_run (step e s) (run_all step es)"

fun all_allowed :: "('e \<Rightarrow> 's \<Rightarrow> 's run) \<Rightarrow> ('e \<Rightarrow> 's \<Rightarrow> bool) \<Rightarrow> 'e list \<Rightarrow> 's \<Rightarrow> bool" where
  "all_allowed step allowed [] s \<longleftrightarrow> True"
| "all_allowed step allowed (e # es) s \<longleftrightarrow> allowed e s
     \<and> (case step e s of Some (Inr s') \<Rightarrow> all_allowed step allowed es s' | _ \<Rightarrow> True)"

locale run_machine =
  fixes step :: "'e \<Rightarrow> 's \<Rightarrow> 's run"
    and invar :: "'s \<Rightarrow> bool"
    and allowed :: "'e \<Rightarrow> 's \<Rightarrow> bool"
  assumes step_law: "invar s \<Longrightarrow> allowed e s \<Longrightarrow> \<exists>s'. step e s = ret s' \<and> invar s'"
begin

lemma run_all_law:
  assumes "invar s" and "all_allowed step allowed es s"
  shows "\<exists>s'. run_all step es s = ret s' \<and> invar s'"
  using assms
proof (induction es arbitrary: s)
  case Nil
  then show ?case by simp
next
  case (Cons e es)
  then obtain s1 where s1: "step e s = ret s1" "invar s1" using step_law [of s e] by auto
  then have "all_allowed step allowed es s1" using Cons.prems(2) by (simp add: ret_def)
  then show ?case using Cons.IH [OF s1(2)] s1(1) by simp
qed

end

end
