(* ===== verification/Allocator.thy ===== *)
theory Allocator
  imports Lwip_Prelude
begin

text \<open>
  What the stack relies on when it takes memory from the heap (\<open>core/mem.c\<close>) or from a pool
  (\<open>core/memp.c\<close>): a request is answered with a block nobody holds or with nothing, and a block
  that is given back is no longer held. The locale states this contract for an \<open>alloc\<close> and a
  \<open>free\<close> that may stop abnormally, and shows what follows for whole sequences of calls. Both
  allocators of the code are interpretations of it.
\<close>

fun alloc_all :: "('n \<Rightarrow> 's \<Rightarrow> ('b option \<times> 's) run) \<Rightarrow> 'n list \<Rightarrow> 's \<Rightarrow> ('b option list \<times> 's) run" where
  "alloc_all alloc [] s = ret ([], s)"
| "alloc_all alloc (n # ns) s =
     bind_run (alloc n s) (\<lambda>(r, s). bind_run (alloc_all alloc ns s) (\<lambda>(rs, s). ret (r # rs, s)))"

fun free_all :: "('b \<Rightarrow> 's \<Rightarrow> 's run) \<Rightarrow> 'b list \<Rightarrow> 's \<Rightarrow> 's run" where
  "free_all free [] s = ret s"
| "free_all free (b # bs) s = bind_run (free b s) (\<lambda>s. free_all free bs s)"

text \<open>The blocks that a sequence of requests was answered with.\<close>

definition granted :: "'b option list \<Rightarrow> 'b list" where
  "granted rs = List.map_filter id rs"

lemma granted_simps [simp]:
  "granted [] = []" "granted (None # rs) = granted rs" "granted (Some b # rs) = b # granted rs"
  by (simp_all add: granted_def)

locale allocator =
  fixes alloc :: "'n \<Rightarrow> 's \<Rightarrow> ('b option \<times> 's) run"
    and free :: "'b \<Rightarrow> 's \<Rightarrow> 's run"
    and live :: "'s \<Rightarrow> 'b set"
    and invar :: "'s \<Rightarrow> bool"
    and request_ok :: "'n \<Rightarrow> bool"
  assumes alloc_law: "invar s \<Longrightarrow> request_ok n \<Longrightarrow>
      \<exists>r s'. alloc n s = ret (r, s') \<and> invar s' \<and>
        (case r of None \<Rightarrow> live s' = live s | Some b \<Rightarrow> b \<notin> live s \<and> live s' = insert b (live s))"
    and free_law: "invar s \<Longrightarrow> b \<in> live s \<Longrightarrow>
      \<exists>s'. free b s = ret s' \<and> invar s' \<and> live s' = live s - {b}"
begin

lemma alloc_all_law:
  assumes "invar s" and "list_all request_ok ns"
  shows "\<exists>rs s'. alloc_all alloc ns s = ret (rs, s') \<and> invar s' \<and> length rs = length ns
    \<and> distinct (granted rs) \<and> set (granted rs) \<inter> live s = {} \<and> live s' = live s \<union> set (granted rs)"
  using assms
proof (induction ns arbitrary: s)
  case Nil
  then show ?case by simp
next
  case (Cons n ns)
  then have "request_ok n" by simp
  then obtain r s1 where a: "alloc n s = ret (r, s1)" "invar s1"
    and l: "case r of None \<Rightarrow> live s1 = live s | Some b \<Rightarrow> b \<notin> live s \<and> live s1 = insert b (live s)"
    using alloc_law [OF Cons.prems(1)] by blast
  obtain rs s2 where b: "alloc_all alloc ns s1 = ret (rs, s2)" "invar s2" "length rs = length ns"
    "distinct (granted rs)" "set (granted rs) \<inter> live s1 = {}" "live s2 = live s1 \<union> set (granted rs)"
    using Cons.IH [OF a(2)] Cons.prems(2) by auto
  show ?case using a b l by (cases r) auto
qed

lemma free_all_law:
  assumes "invar s" and "distinct bs" and "set bs \<subseteq> live s"
  shows "\<exists>s'. free_all free bs s = ret s' \<and> invar s' \<and> live s' = live s - set bs"
  using assms
proof (induction bs arbitrary: s)
  case Nil
  then show ?case by simp
next
  case (Cons b bs)
  then have "b \<in> live s" by simp
  then obtain s1 where a: "free b s = ret s1" "invar s1" "live s1 = live s - {b}"
    using free_law [OF Cons.prems(1)] by blast
  have "distinct bs" "set bs \<subseteq> live s1" using Cons.prems a(3) by auto
  then obtain s2 where "free_all free bs s1 = ret s2" "invar s2" "live s2 = live s1 - set bs"
    using Cons.IH [OF a(2)] by blast
  with a show ?case by auto
qed

text \<open>
  What was taken can be given back in any order, and then the same blocks are held as before.
\<close>

lemma alloc_free_balanced:
  assumes "invar s" and "list_all request_ok ns"
  shows "\<exists>rs s'. alloc_all alloc ns s = ret (rs, s') \<and> length rs = length ns \<and> distinct (granted rs)
    \<and> (\<forall>bs. distinct bs \<longrightarrow> set bs = set (granted rs) \<longrightarrow>
         (\<exists>s''. free_all free bs s' = ret s'' \<and> invar s'' \<and> live s'' = live s))"
proof -
  obtain rs s' where a: "alloc_all alloc ns s = ret (rs, s')" "invar s'" "length rs = length ns"
    "distinct (granted rs)" "set (granted rs) \<inter> live s = {}" "live s' = live s \<union> set (granted rs)"
    using alloc_all_law [OF assms] by blast
  have "\<exists>s''. free_all free bs s' = ret s'' \<and> invar s'' \<and> live s'' = live s"
    if bs: "distinct bs" "set bs = set (granted rs)" for bs
  proof -
    obtain s'' where "free_all free bs s' = ret s''" "invar s''" "live s'' = live s' - set bs"
      using free_all_law [OF a(2) bs(1)] bs(2) a(6) by auto
    moreover have "live s' - set bs = live s" using a(5,6) bs(2) by auto
    ultimately show ?thesis by auto
  qed
  with a show ?thesis by auto
qed

end

end
