(* ===== verification/Memp.thy ===== *)
theory Memp
  imports Allocator
begin

text \<open>
  The pools of the stack, \<open>core/memp.c\<close> as it is compiled here (no statistics, no overflow and no
  sanity check, the pools in static memory). Each pool is an array of \<open>num\<close> elements of one size.
  The elements that are free form a linked list whose links lie in the elements themselves; \<open>tab\<close>
  holds the first free element of each pool (0 is \<open>NULL\<close>).

  The table \<open>memp_pools\<close> of descriptors comes out of the preprocessor and the linker (the sizes
  of structs, the addresses of arrays): it is the argument \<open>pools\<close> of the definitions, and
  \<open>pools_ok\<close> says what the linker promises of it.
\<close>

record memp_desc =
  desc_size :: nat
  desc_num :: nat
  desc_base :: nat

record memp_state =
  memp_tab :: "nat \<Rightarrow> nat"
  memp_next :: "nat \<Rightarrow> nat"

definition LWIP_MEM_ALIGN :: "nat \<Rightarrow> nat" where
  "LWIP_MEM_ALIGN addr = (addr + 3) div 4 * 4"

subsection \<open>Operations\<close>

text \<open>The loop of \<open>memp_init_pool\<close>, \<open>n\<close> rounds from the element at \<open>memp\<close> on.\<close>

fun memp_init_elements :: "memp_desc \<Rightarrow> nat \<Rightarrow> nat \<Rightarrow> nat \<Rightarrow> memp_state \<Rightarrow> memp_state" where
  "memp_init_elements desc t 0 memp s = s"
| "memp_init_elements desc t (Suc n) memp s =
     (let s = s\<lparr>memp_next := (memp_next s)(memp := memp_tab s t)\<rparr>;
          s = s\<lparr>memp_tab := (memp_tab s)(t := memp)\<rparr>
      in memp_init_elements desc t n (memp + desc_size desc) s)"

definition memp_init_pool :: "memp_desc \<Rightarrow> nat \<Rightarrow> memp_state \<Rightarrow> memp_state" where
  "memp_init_pool desc t s =
     (let s = s\<lparr>memp_tab := (memp_tab s)(t := 0)\<rparr>
      in memp_init_elements desc t (desc_num desc) (LWIP_MEM_ALIGN (desc_base desc)) s)"

definition memp_init :: "memp_desc list \<Rightarrow> memp_state \<Rightarrow> memp_state" where
  "memp_init pools s = fold (\<lambda>i. memp_init_pool (pools ! i) i) [0..<length pools] s"

definition do_memp_malloc_pool :: "nat \<Rightarrow> memp_state \<Rightarrow> (nat option \<times> memp_state) run" where
  "do_memp_malloc_pool t s =
     (let memp = memp_tab s t in
      if memp \<noteq> 0 then
        let s = s\<lparr>memp_tab := (memp_tab s)(t := memp_next s memp)\<rparr>
        in lwip_assert ''memp_malloc: memp properly aligned'' (memp mod 4 = 0) (ret (Some memp, s))
      else ret (None, s))"

definition memp_malloc :: "memp_desc list \<Rightarrow> nat \<Rightarrow> memp_state \<Rightarrow> (nat option \<times> memp_state) run" where
  "memp_malloc pools type s =
     lwip_assert ''memp_malloc: type < MEMP_MAX'' (type < length pools) (do_memp_malloc_pool type s)"

definition do_memp_free_pool :: "nat \<Rightarrow> nat \<Rightarrow> memp_state \<Rightarrow> memp_state run" where
  "do_memp_free_pool t mem s =
     lwip_assert ''memp_free: mem properly aligned'' (mem mod 4 = 0)
      (let memp = mem;
           s = s\<lparr>memp_next := (memp_next s)(memp := memp_tab s t)\<rparr>;
           s = s\<lparr>memp_tab := (memp_tab s)(t := memp)\<rparr>
       in ret s)"

definition memp_free :: "memp_desc list \<Rightarrow> nat \<Rightarrow> nat \<Rightarrow> memp_state \<Rightarrow> memp_state run" where
  "memp_free pools type mem s =
     lwip_assert ''memp_free: type < MEMP_MAX'' (type < length pools)
      (if mem = 0 then ret s else do_memp_free_pool type mem s)"

text \<open>
  \<open>memp_malloc_pool\<close> and \<open>memp_free_pool\<close>, for a pool that is given by its descriptor; the model
  names the descriptor by its index, \<open>None\<close> is the null pointer.
\<close>

definition memp_malloc_pool :: "nat option \<Rightarrow> memp_state \<Rightarrow> (nat option \<times> memp_state) run" where
  "memp_malloc_pool desc s =
     (case desc of
        None \<Rightarrow> stop (Abort ''invalid pool desc'')
      | Some t \<Rightarrow> do_memp_malloc_pool t s)"

definition memp_free_pool :: "nat option \<Rightarrow> nat \<Rightarrow> memp_state \<Rightarrow> memp_state run" where
  "memp_free_pool desc mem s =
     (case desc of
        None \<Rightarrow> stop (Abort ''invalid pool desc'')
      | Some t \<Rightarrow> if mem = 0 then ret s else do_memp_free_pool t mem s)"

subsection \<open>The free lists\<close>

text \<open>The elements of a pool; the list that starts at an element and follows the links to \<open>NULL\<close>.\<close>

definition elements :: "memp_desc \<Rightarrow> nat list" where
  "elements desc = map (\<lambda>i. LWIP_MEM_ALIGN (desc_base desc) + i * desc_size desc) [0..<desc_num desc]"

fun link_list :: "(nat \<Rightarrow> nat) \<Rightarrow> nat \<Rightarrow> nat list \<Rightarrow> bool" where
  "link_list nx p [] \<longleftrightarrow> p = 0"
| "link_list nx p (x # xs) \<longleftrightarrow> p = x \<and> x \<noteq> 0 \<and> link_list nx (nx x) xs"

fun link_walk :: "(nat \<Rightarrow> nat) \<Rightarrow> nat \<Rightarrow> nat \<Rightarrow> nat list" where
  "link_walk nx 0 p = []"
| "link_walk nx (Suc n) p = (if p = 0 then [] else p # link_walk nx n (nx p))"

definition free_list :: "memp_desc list \<Rightarrow> memp_state \<Rightarrow> nat \<Rightarrow> nat list" where
  "free_list pools s t = link_walk (memp_next s) (desc_num (pools ! t)) (memp_tab s t)"

definition pool_inv :: "memp_desc list \<Rightarrow> memp_state \<Rightarrow> nat \<Rightarrow> bool" where
  "pool_inv pools s t \<longleftrightarrow>
     (let xs = free_list pools s t in
      link_list (memp_next s) (memp_tab s t) xs \<and> distinct xs \<and> set xs \<subseteq> set (elements (pools ! t)))"

definition memp_inv :: "memp_desc list \<Rightarrow> memp_state \<Rightarrow> bool" where
  "memp_inv pools s \<longleftrightarrow> list_all (pool_inv pools s) [0..<length pools]"

text \<open>
  What the linker and the preprocessor promise: no element lies at the null address, elements have
  the size of a link at least and a multiple of the alignment, and different pools share no element.
\<close>

definition pools_ok :: "memp_desc list \<Rightarrow> bool" where
  "pools_ok pools \<longleftrightarrow>
     list_all (\<lambda>d. 0 < desc_base d \<and> 4 \<le> desc_size d \<and> desc_size d mod 4 = 0) pools
     \<and> list_all (\<lambda>i. list_all (\<lambda>j. i \<noteq> j \<longrightarrow> set (elements (pools ! i)) \<inter> set (elements (pools ! j)) = {})
          [0..<length pools]) [0..<length pools]"

text \<open>The elements the clients hold, each with its pool.\<close>

definition memp_live :: "memp_desc list \<Rightarrow> memp_state \<Rightarrow> (nat \<times> nat) set" where
  "memp_live pools s = {(t, a). t < length pools \<and> a \<in> set (elements (pools ! t)) \<and> a \<notin> set (free_list pools s t)}"

text \<open>The two operations with the element named together with its pool.\<close>

definition memp_take :: "memp_desc list \<Rightarrow> nat \<Rightarrow> memp_state \<Rightarrow> ((nat \<times> nat) option \<times> memp_state) run" where
  "memp_take pools t s = bind_run (memp_malloc pools t s) (\<lambda>(r, s). ret (map_option (Pair t) r, s))"

definition memp_give :: "memp_desc list \<Rightarrow> nat \<times> nat \<Rightarrow> memp_state \<Rightarrow> memp_state run" where
  "memp_give pools b s = memp_free pools (fst b) (snd b) s"

definition example_pools :: "memp_desc list" where
  "example_pools = [\<lparr>desc_size = 16, desc_num = 3, desc_base = 1001\<rparr>, \<lparr>desc_size = 608, desc_num = 2, desc_base = 2000\<rparr>]"

definition example_state :: memp_state where
  "example_state = memp_init example_pools \<lparr>memp_tab = (\<lambda>_. 0), memp_next = (\<lambda>_. 0)\<rparr>"

definition example_taken :: memp_state where
  "example_taken = example_state\<lparr>memp_tab := (memp_tab example_state)(1 := 2000)\<rparr>"

lemma link_list_walk: "link_list nx p xs \<Longrightarrow> length xs \<le> n \<Longrightarrow> link_walk nx n p = xs"
proof (induction xs arbitrary: p n)
  case Nil
  then show ?case by (cases n) auto
next
  case (Cons x xs)
  then show ?case by (cases n) auto
qed

lemma link_list_cong: "link_list nx p xs \<Longrightarrow> (\<And>x. x \<in> set xs \<Longrightarrow> nx' x = nx x) \<Longrightarrow> link_list nx' p xs"
  by (induction xs arbitrary: p) auto

lemma link_list_update [simp]: "m \<notin> set xs \<Longrightarrow> link_list (nx(m := v)) p xs = link_list nx p xs"
  by (induction xs arbitrary: p) auto

lemma elements_props:
  assumes "pools_ok pools" and "t < length pools"
  shows "distinct (elements (pools ! t))" and "length (elements (pools ! t)) = desc_num (pools ! t)"
    and "a \<in> set (elements (pools ! t)) \<Longrightarrow> a \<noteq> 0 \<and> a mod 4 = 0"
proof -
  have d: "0 < desc_base (pools ! t)" "4 \<le> desc_size (pools ! t)" "desc_size (pools ! t) mod 4 = 0"
    using assms by (auto simp: pools_ok_def list_all_length)
  show "distinct (elements (pools ! t))"
    using d by (auto simp: elements_def distinct_map inj_on_def)
  show "length (elements (pools ! t)) = desc_num (pools ! t)" by (simp add: elements_def)
  have "0 < LWIP_MEM_ALIGN (desc_base (pools ! t))"
    using d(1) by (simp add: LWIP_MEM_ALIGN_def div_greater_zero_iff)
  then show "a \<noteq> 0 \<and> a mod 4 = 0" if "a \<in> set (elements (pools ! t))"
    using that d(3) by (auto simp: elements_def LWIP_MEM_ALIGN_def mod_eq_0_iff_dvd)
qed

lemma elements_disjoint:
  assumes "pools_ok pools" "t < length pools" "u < length pools" "a \<in> set (elements (pools ! t))" "a \<in> set (elements (pools ! u))"
  shows "t = u"
proof (rule ccontr)
  assume "t \<noteq> u"
  then have "set (elements (pools ! t)) \<inter> set (elements (pools ! u)) = {}"
    using assms(1-3) by (simp add: pools_ok_def list_all_iff)
  with assms(4,5) show False by auto
qed

text \<open>A pool whose free list is known.\<close>

lemma pool_invI:
  assumes "link_list (memp_next s) (memp_tab s t) xs" "distinct xs" "set xs \<subseteq> set (elements (pools ! t))"
    and ok: "pools_ok pools" "t < length pools"
  shows "pool_inv pools s t" and "free_list pools s t = xs"
proof -
  have "length xs \<le> desc_num (pools ! t)"
    using assms(2,3) elements_props(1,2) [OF ok] by (metis card_mono distinct_card finite_set)
  then show f: "free_list pools s t = xs" using link_list_walk assms(1) by (simp add: free_list_def)
  then show "pool_inv pools s t" using assms(1-3) by (simp add: pool_inv_def)
qed

lemma pool_invD:
  assumes "pool_inv pools s t"
  shows "link_list (memp_next s) (memp_tab s t) (free_list pools s t)" "distinct (free_list pools s t)"
    "set (free_list pools s t) \<subseteq> set (elements (pools ! t))"
  using assms by (simp_all add: pool_inv_def Let_def)

lemma memp_inv_iff: "memp_inv pools s \<longleftrightarrow> (\<forall>t<length pools. pool_inv pools s t)"
  by (auto simp: memp_inv_def list_all_iff)

text \<open>Writing to memory no free list uses changes no free list.\<close>

lemma pool_frame:
  assumes "pool_inv pools s t" and ok: "pools_ok pools" "t < length pools"
    and "memp_tab s' t = memp_tab s t"
    and "\<And>a. a \<in> set (free_list pools s t) \<Longrightarrow> memp_next s' a = memp_next s a"
  shows "pool_inv pools s' t" and "free_list pools s' t = free_list pools s t"
  using pool_invI [of s' t "free_list pools s t" pools] pool_invD [OF assms(1)] assms
    link_list_cong [of "memp_next s" _ "free_list pools s t" "memp_next s'"] by simp_all

lemma memp_live_step:
  assumes ok: "pools_ok pools" "t < length pools" and inv: "memp_inv pools s"
    and others: "\<And>u. u \<noteq> t \<Longrightarrow> memp_tab s' u = memp_tab s u"
    and links: "\<And>b. b \<noteq> a \<Longrightarrow> memp_next s' b = memp_next s b" "a \<in> set (elements (pools ! t))"
    and mine: "link_list (memp_next s') (memp_tab s' t) xs" "distinct xs" "set xs \<subseteq> set (elements (pools ! t))"
  shows "memp_inv pools s'" and "free_list pools s' t = xs"
    and "u < length pools \<Longrightarrow> u \<noteq> t \<Longrightarrow> free_list pools s' u = free_list pools s u"
proof -
  have o: "pool_inv pools s' u" "free_list pools s' u = free_list pools s u" if u: "u < length pools" "u \<noteq> t" for u
  proof -
    have i: "pool_inv pools s u" using inv u by (simp add: memp_inv_iff)
    have nx: "memp_next s' b = memp_next s b" if "b \<in> set (free_list pools s u)" for b
    proof (rule links(1))
      show "b \<noteq> a" using that pool_invD(3) [OF i] elements_disjoint [OF ok(1) u(1) ok(2), of a] u(2) links(2) by auto
    qed
    show "pool_inv pools s' u" "free_list pools s' u = free_list pools s u"
      by (rule pool_frame [OF i ok(1) u(1) others [OF u(2)] nx]; assumption)+
  qed
  have m: "pool_inv pools s' t" "free_list pools s' t = xs" using pool_invI [OF mine ok] .
  have "pool_inv pools s' u" if "u < length pools" for u
    using o(1) [OF that] m(1) by (cases "u = t") auto
  then show "memp_inv pools s'" by (simp add: memp_inv_iff)
  show "free_list pools s' t = xs" by (rule m)
  show "u < length pools \<Longrightarrow> u \<noteq> t \<Longrightarrow> free_list pools s' u = free_list pools s u" by (rule o)
qed

lemma memp_malloc_spec:
  assumes ok: "pools_ok pools" and inv: "memp_inv pools s" and t: "t < length pools"
  shows "\<exists>r s'. memp_malloc pools t s = ret (r, s') \<and> memp_inv pools s' \<and>
    (case r of
       None \<Rightarrow> s' = s \<and> free_list pools s t = []
     | Some a \<Rightarrow> free_list pools s t = a # free_list pools s' t \<and> memp_live pools s' = insert (t, a) (memp_live pools s)
         \<and> (t, a) \<notin> memp_live pools s)"
proof -
  have i: "pool_inv pools s t" using inv t by (simp add: memp_inv_iff)
  note d = pool_invD [OF i]
  show ?thesis
  proof (cases "free_list pools s t")
    case Nil
    then show ?thesis using d(1) inv t by (auto simp: memp_malloc_def do_memp_malloc_pool_def)
  next
    case (Cons a xs)
    let ?s = "s\<lparr>memp_tab := (memp_tab s)(t := memp_next s a)\<rparr>"
    have a: "memp_tab s t = a" "a \<noteq> 0" "link_list (memp_next s) (memp_next s a) xs" using d(1) Cons by auto
    have a': "a \<in> set (elements (pools ! t))" "a mod 4 = 0" using d(3) Cons elements_props(3) [OF ok t] by auto
    have m: "memp_malloc pools t s = ret (Some a, ?s)"
      using a a' t by (simp add: memp_malloc_def do_memp_malloc_pool_def)
    have st: "memp_inv pools ?s" "free_list pools ?s t = xs"
      "\<And>u. u < length pools \<Longrightarrow> u \<noteq> t \<Longrightarrow> free_list pools ?s u = free_list pools s u"
      by (rule memp_live_step [OF ok t inv, where a = a]; use a a' d(2,3) Cons in simp)+
    have "(u, b) \<in> memp_live pools ?s \<longleftrightarrow> (u, b) = (t, a) \<or> (u, b) \<in> memp_live pools s" for u b
      using st(2) st(3) [of u] a'(1) t d(2) Cons by (cases "u = t") (auto simp: memp_live_def)
    then have "memp_live pools ?s = insert (t, a) (memp_live pools s)" by auto
    with m st Cons show ?thesis by (auto simp: memp_live_def)
  qed
qed

lemma memp_free_spec:
  assumes ok: "pools_ok pools" and inv: "memp_inv pools s" and l: "(t, a) \<in> memp_live pools s"
  shows "\<exists>s'. memp_free pools t a s = ret s' \<and> memp_inv pools s' \<and> free_list pools s' t = a # free_list pools s t
    \<and> memp_live pools s' = memp_live pools s - {(t, a)}"
proof -
  have t: "t < length pools" and a: "a \<in> set (elements (pools ! t))" "a \<notin> set (free_list pools s t)"
    using l by (auto simp: memp_live_def)
  have i: "pool_inv pools s t" using inv t by (simp add: memp_inv_iff)
  note d = pool_invD [OF i]
  let ?s = "s\<lparr>memp_next := (memp_next s)(a := memp_tab s t), memp_tab := (memp_tab s)(t := a)\<rparr>"
  have z: "a \<noteq> 0" "a mod 4 = 0" using a elements_props(3) [OF ok t] by auto
  then have f: "memp_free pools t a s = ret ?s" using t by (simp add: memp_free_def do_memp_free_pool_def)
  have "link_list (memp_next ?s) (memp_tab ?s t) (a # free_list pools s t)"
    using z a(2) d(1) by simp
  note l = this
  have st: "memp_inv pools ?s" "free_list pools ?s t = a # free_list pools s t"
    "\<And>u. u < length pools \<Longrightarrow> u \<noteq> t \<Longrightarrow> free_list pools ?s u = free_list pools s u"
    by (rule memp_live_step [OF ok t inv _ _ _ l, where a = a]; use a d(2,3) in simp)+
  have "(u, b) \<in> memp_live pools ?s \<longleftrightarrow> (u, b) \<noteq> (t, a) \<and> (u, b) \<in> memp_live pools s" for u b
    using st(2) st(3) [of u] by (cases "u = t") (auto simp: memp_live_def)
  then have "memp_live pools ?s = memp_live pools s - {(t, a)}" by auto
  with f st show ?thesis by auto
qed

subsection \<open>Initialisation\<close>

lemma memp_init_elements_frame:
  "u \<noteq> t \<Longrightarrow> memp_tab (memp_init_elements d t n m s) u = memp_tab s u"
  "\<forall>i<n. b \<noteq> m + i * desc_size d \<Longrightarrow> memp_next (memp_init_elements d t n m s) b = memp_next s b"
proof (induction n arbitrary: m s)
  case (Suc n)
  {
    case 1
    then show ?case using Suc.IH(1) by (simp add: Let_def)
  next
    case 2
    have "b \<noteq> m" using 2 by auto
    moreover have "\<forall>i<n. b \<noteq> (m + desc_size d) + i * desc_size d"
    proof (intro allI impI)
      fix i assume "i < n"
      then show "b \<noteq> (m + desc_size d) + i * desc_size d" using spec [OF 2, of "Suc i"] by simp
    qed
    ultimately show ?case using Suc.IH(2) by (simp add: Let_def)
  }
qed simp_all

text \<open>After the loop the elements stand in the list in reverse order, in front of what it held.\<close>

lemma memp_init_elements_list:
  assumes "link_list (memp_next s) (memp_tab s t) ys" and "0 < m" and "0 < desc_size d"
    and "\<forall>y\<in>set ys. y < m"
  shows "link_list (memp_next (memp_init_elements d t n m s)) (memp_tab (memp_init_elements d t n m s) t)
           (rev (map (\<lambda>i. m + i * desc_size d) [0..<n]) @ ys)"
  using assms
proof (induction n arbitrary: m s ys)
  case (Suc n)
  let ?s = "s\<lparr>memp_next := (memp_next s)(m := memp_tab s t), memp_tab := (memp_tab s)(t := m)\<rparr>"
  have l: "link_list (memp_next ?s) (memp_tab ?s t) (m # ys)"
    using Suc.prems by auto
  have "map (\<lambda>i. m + i * desc_size d) [0..<Suc n] = m # map (\<lambda>i. m + desc_size d + i * desc_size d) [0..<n]"
    by (simp add: upt_conv_Cons map_Suc_upt [symmetric] del: upt_Suc)
  moreover have "\<forall>y\<in>set (m # ys). y < m + desc_size d" using Suc.prems by auto
  ultimately show ?case using Suc.IH [OF l, of "m + desc_size d"] Suc.prems by (simp add: Let_def del: upt_Suc)
qed simp

lemma memp_init_prefix:
  assumes ok: "pools_ok pools" and "n \<le> length pools"
  shows "\<forall>t<n. pool_inv pools (fold (\<lambda>i. memp_init_pool (pools ! i) i) [0..<n] s) t
    \<and> free_list pools (fold (\<lambda>i. memp_init_pool (pools ! i) i) [0..<n] s) t = rev (elements (pools ! t))"
  using assms(2)
proof (induction n)
  case (Suc n)
  let ?s = "fold (\<lambda>i. memp_init_pool (pools ! i) i) [0..<n] s"
  let ?s' = "memp_init_pool (pools ! n) n ?s"
  have n: "n < length pools" using Suc.prems by simp
  have d: "0 < LWIP_MEM_ALIGN (desc_base (pools ! n))" "0 < desc_size (pools ! n)"
    using ok n by (auto simp: pools_ok_def list_all_length LWIP_MEM_ALIGN_def div_greater_zero_iff)
  have "link_list (memp_next ?s') (memp_tab ?s' n) (rev (elements (pools ! n)))"
    using memp_init_elements_list [of "?s\<lparr>memp_tab := (memp_tab ?s)(n := 0)\<rparr>" n "[]", OF _ d]
    by (simp add: memp_init_pool_def elements_def)
  then have new: "pool_inv pools ?s' n" "free_list pools ?s' n = rev (elements (pools ! n))"
    using pool_invI [of ?s' n "rev (elements (pools ! n))" pools] ok n elements_props(1) by auto
  have old: "pool_inv pools ?s' t \<and> free_list pools ?s' t = rev (elements (pools ! t))" if t: "t < n" for t
  proof -
    have i: "pool_inv pools ?s t" "free_list pools ?s t = rev (elements (pools ! t))" using Suc t by auto
    have "memp_next ?s' a = memp_next ?s a" if "a \<in> set (elements (pools ! t))" for a
    proof -
      have "a \<notin> set (elements (pools ! n))" using that elements_disjoint [OF ok _ n, of t a] t n by auto
      then have "\<forall>i<desc_num (pools ! n). a \<noteq> LWIP_MEM_ALIGN (desc_base (pools ! n)) + i * desc_size (pools ! n)"
        by (auto simp: elements_def)
      then show ?thesis by (simp add: memp_init_pool_def memp_init_elements_frame(2))
    qed
    moreover have "memp_tab ?s' t = memp_tab ?s t"
      using t by (simp add: memp_init_pool_def memp_init_elements_frame(1))
    ultimately show ?thesis using pool_frame [OF i(1) ok, of ?s'] i(2) t n by auto
  qed
  show ?case using new old by (auto simp: less_Suc_eq)
qed simp

lemma memp_init_spec:
  assumes "pools_ok pools"
  shows "memp_inv pools (memp_init pools s)"
    and "t < length pools \<Longrightarrow> free_list pools (memp_init pools s) t = rev (elements (pools ! t))"
    and "memp_live pools (memp_init pools s) = {}"
  using memp_init_prefix [OF assms order_refl, of s]
  by (auto simp: memp_init_def memp_inv_iff memp_live_def)

interpretation pools: allocator "memp_take pools" "memp_give pools" "memp_live pools"
  "\<lambda>s. pools_ok pools \<and> memp_inv pools s" "\<lambda>t. t < length pools"
  for pools
proof
  fix s t
  assume "pools_ok pools \<and> memp_inv pools s" and "t < length pools"
  then obtain r s' where "memp_malloc pools t s = ret (r, s')" "memp_inv pools s'"
    "case r of None \<Rightarrow> s' = s \<and> free_list pools s t = []
     | Some a \<Rightarrow> free_list pools s t = a # free_list pools s' t \<and> memp_live pools s' = insert (t, a) (memp_live pools s)
         \<and> (t, a) \<notin> memp_live pools s" "pools_ok pools"
    using memp_malloc_spec by blast
  then show "\<exists>r s'. memp_take pools t s = ret (r, s') \<and> (pools_ok pools \<and> memp_inv pools s') \<and>
     (case r of None \<Rightarrow> memp_live pools s' = memp_live pools s
      | Some b \<Rightarrow> b \<notin> memp_live pools s \<and> memp_live pools s' = insert b (memp_live pools s))"
    by (cases r) (auto simp: memp_take_def)
next
  fix s :: memp_state and b
  assume "pools_ok pools \<and> memp_inv pools s" and "b \<in> memp_live pools s"
  then show "\<exists>s'. memp_give pools b s = ret s' \<and> (pools_ok pools \<and> memp_inv pools s') \<and>
     memp_live pools s' = memp_live pools s - {b}"
    using memp_free_spec [of pools s "fst b" "snd b"] by (auto simp: memp_give_def)
qed

lemma memp_take_many:
  assumes "pools_ok pools" "memp_inv pools s" "t < length pools"
  shows "\<exists>s'. alloc_all (memp_take pools) (replicate n t) s =
    ret (map (Some \<circ> Pair t) (take n (free_list pools s t)) @ replicate (n - length (free_list pools s t)) None, s')"
  using assms
proof (induction n arbitrary: s)
  case (Suc n)
  obtain r s1 where r: "memp_malloc pools t s = ret (r, s1)" "memp_inv pools s1"
    "case r of None \<Rightarrow> s1 = s \<and> free_list pools s t = [] | Some a \<Rightarrow> free_list pools s t = a # free_list pools s1 t"
    using memp_malloc_spec [OF Suc.prems] by (auto split: option.splits)
  obtain s2 where "alloc_all (memp_take pools) (replicate n t) s1 =
    ret (map (Some \<circ> Pair t) (take n (free_list pools s1 t)) @ replicate (n - length (free_list pools s1 t)) None, s2)"
    using Suc.IH [OF Suc.prems(1) r(2) Suc.prems(3)] by blast
  moreover have "memp_take pools t s = ret (map_option (Pair t) r, s1)" using r(1) by (simp add: memp_take_def)
  ultimately show ?case using r(3) by (cases r) auto
qed simp

lemma example_pools_ok: "pools_ok example_pools"
  by (auto simp: pools_ok_def example_pools_def elements_def LWIP_MEM_ALIGN_def)

lemma example_taken_lists:
  "free_list example_pools example_taken 0 = [1036, 1020, 1004]" "free_list example_pools example_taken 1 = [2000]"
  by (simp_all add: free_list_def example_taken_def example_state_def example_pools_def memp_init_def memp_init_pool_def
      LWIP_MEM_ALIGN_def numeral_2_eq_2 numeral_3_eq_3)

lemma example_taken_inv: "memp_inv example_pools example_taken"
proof -
  have "pool_inv example_pools example_taken 0" "pool_inv example_pools example_taken 1"
    using example_taken_lists unfolding pool_inv_def
    by (simp_all add: example_taken_def example_state_def example_pools_def memp_init_def memp_init_pool_def
        elements_def LWIP_MEM_ALIGN_def numeral_2_eq_2 numeral_3_eq_3)
  then show ?thesis by (simp add: memp_inv_def example_pools_def)
qed

subsection \<open>The properties of the pools\<close>

text \<open>
  \<open>memp_malloc\<close> of a pool of the table always returns and keeps every free list well-formed. It
  answers with the first free element of this pool, aligned and held by nobody, which becomes held
  while the holders of all other elements keep them; it answers \<open>NULL\<close> exactly when the clients hold
  all elements of the pool.
\<close>

theorem memp_malloc_correct:
  assumes "pools_ok pools" and "memp_inv pools s" and "t < length pools"
  shows "\<exists>r s'. memp_malloc pools t s = ret (r, s') \<and> memp_inv pools s' \<and>
    (case r of
       None \<Rightarrow> s' = s \<and> (\<forall>a\<in>set (elements (pools ! t)). (t, a) \<in> memp_live pools s)
     | Some a \<Rightarrow> a \<noteq> 0 \<and> a mod 4 = 0 \<and> a \<in> set (elements (pools ! t)) \<and> (t, a) \<notin> memp_live pools s
         \<and> memp_live pools s' = insert (t, a) (memp_live pools s))"
proof -
  obtain r s' where r: "memp_malloc pools t s = ret (r, s')" "memp_inv pools s'"
    "case r of None \<Rightarrow> s' = s \<and> free_list pools s t = []
     | Some a \<Rightarrow> free_list pools s t = a # free_list pools s' t \<and> memp_live pools s' = insert (t, a) (memp_live pools s)
         \<and> (t, a) \<notin> memp_live pools s"
    using memp_malloc_spec [OF assms] by blast
  have "set (free_list pools s t) \<subseteq> set (elements (pools ! t))"
    using assms by (simp add: memp_inv_iff pool_invD)
  then show ?thesis using r assms elements_props(3) [OF assms(1,3)]
    by (cases r) (auto simp: memp_live_def)
qed

theorem memp_malloc_correct_witness:
  "\<exists>s'. memp_malloc example_pools 1 example_state = ret (Some 2608, s') \<and> memp_inv example_pools s'
     \<and> (1, 2608) \<notin> memp_live example_pools example_state"
proof -
  have "memp_tab example_state 1 = 2608"
    by (simp add: example_state_def example_pools_def memp_init_def memp_init_pool_def LWIP_MEM_ALIGN_def
        numeral_2_eq_2 numeral_3_eq_3)
  then show ?thesis
    using memp_malloc_correct [OF example_pools_ok, of example_state 1] memp_init_spec(1) [OF example_pools_ok]
    by (auto simp: example_state_def example_pools_def memp_malloc_def do_memp_malloc_pool_def)
qed

text \<open>
  \<open>memp_free\<close> of an element a client holds always returns, puts it in front of the free list of
  its pool, and changes nothing for the holders of other elements.
\<close>

theorem memp_free_correct:
  assumes "pools_ok pools" and "memp_inv pools s" and "(t, a) \<in> memp_live pools s"
  shows "\<exists>s'. memp_free pools t a s = ret s' \<and> memp_inv pools s' \<and> free_list pools s' t = a # free_list pools s t
    \<and> memp_live pools s' = memp_live pools s - {(t, a)}"
  by (rule memp_free_spec [OF assms])

theorem memp_free_correct_witness:
  "(1, 2608) \<in> memp_live example_pools example_taken \<and> memp_inv example_pools example_taken
   \<and> (\<exists>s'. memp_free example_pools 1 2608 example_taken = ret s' \<and> memp_inv example_pools s'
        \<and> free_list example_pools s' 1 = [2608, 2000])"
proof -
  have l: "(1, 2608) \<in> memp_live example_pools example_taken" and f: "free_list example_pools example_taken 1 = [2000]"
    using example_taken_lists by (auto simp: memp_live_def example_pools_def elements_def LWIP_MEM_ALIGN_def)
  show ?thesis
    using memp_free_correct [OF example_pools_ok example_taken_inv l] l f example_taken_inv by auto
qed

text \<open>
  after \<open>memp_init\<close> a pool of \<open>num\<close> elements serves exactly \<open>num\<close> requests, with its elements
  from the last to the first, and then answers \<open>NULL\<close>.
\<close>

theorem memp_init_capacity:
  assumes "pools_ok pools" and "t < length pools"
  shows "\<exists>s'. alloc_all (memp_take pools) (replicate n t) (memp_init pools s) =
    ret (map (Some \<circ> Pair t) (take n (rev (elements (pools ! t)))) @ replicate (n - desc_num (pools ! t)) None, s')"
  using memp_take_many [OF assms(1) memp_init_spec(1) [OF assms(1)] assms(2), of n s]
    memp_init_spec(2) [OF assms] elements_props(2) [OF assms] by simp

theorem memp_init_capacity_witness:
  "\<exists>s'. alloc_all (memp_take example_pools) [1, 1, 1] example_state = ret ([Some (1, 2608), Some (1, 2000), None], s')"
  using memp_init_capacity [OF example_pools_ok, of 1 3 "\<lparr>memp_tab = (\<lambda>_. 0), memp_next = (\<lambda>_. 0)\<rparr>"]
  by (simp add: example_state_def [symmetric] numeral_3_eq_3)
    (simp add: example_pools_def elements_def LWIP_MEM_ALIGN_def numeral_2_eq_2)

text \<open>
  any sequence of requests to any pools returns, answers with distinct elements no client held
  before, and when they are given back, in whatever order, the same elements are held as before.
\<close>

theorem memp_balanced:
  assumes "pools_ok pools" and "memp_inv pools s" and "list_all (\<lambda>t. t < length pools) ts"
  shows "\<exists>rs s'. alloc_all (memp_take pools) ts s = ret (rs, s') \<and> length rs = length ts \<and> distinct (granted rs)
    \<and> (\<forall>bs. distinct bs \<longrightarrow> set bs = set (granted rs) \<longrightarrow>
         (\<exists>s''. free_all (memp_give pools) bs s' = ret s'' \<and> memp_inv pools s''
            \<and> memp_live pools s'' = memp_live pools s))"
  using pools.alloc_free_balanced [of pools s ts] assms by blast

theorem memp_balanced_witness:
  "\<exists>rs s'. alloc_all (memp_take example_pools) [0, 1, 0] example_taken = ret (rs, s') \<and> length rs = 3 \<and> distinct (granted rs)"
proof -
  have "list_all (\<lambda>t. t < length example_pools) [0, 1, 0]" by (simp add: example_pools_def)
  from memp_balanced [OF example_pools_ok example_taken_inv this] show ?thesis by auto
qed

end
