(* ===== verification/Timeouts.thy ===== *)
theory Timeouts
  imports Memp "HOL-Library.Multiset"
begin

text \<open>
  The timers of the stack, \<open>core/timeouts.c\<close>. Pending timeouts are structs of the pool
  \<open>MEMP_SYS_TIMEOUT\<close> in a list that is ordered by the time they are due, with times that wrap
  around at 32 bits; \<open>sys_check_timeouts\<close> takes the expired ones out and calls their handlers.

  The list is private to the file and no two lists share a struct: the model holds it as a list of
  structs, each with its address. What \<open>sys_now()\<close> returns is the field \<open>clock\<close>. The handlers lie
  outside of the file: the record \<open>callbacks\<close> says which calls to this file a handler makes, and
  what it does to the rest of the stack (of type \<open>'w\<close>).
\<close>

datatype timer_handler =
    Null_handler
  | Tcpip_tcp_timer
  | Lwip_cyclic_timer
  | App_handler nat

record sys_timeo =
  timeo_addr :: nat
  timeo_time :: u32
  timeo_h :: timer_handler
  timeo_arg :: nat

record 'w timers =
  next_timeout :: "sys_timeo list"
  current_timeout_due_time :: u32
  tcpip_tcp_timer_active :: bool
  timer_pool :: memp_state
  clock :: u32
  world :: 'w

text \<open>What a handler can do to the timers: calls of this file, and letting time pass.\<close>

datatype timer_call =
    Call_timeout u32 timer_handler nat
  | Call_untimeout timer_handler nat
  | Call_tcp_timer_needed
  | Call_elapse u32

record 'w callbacks =
  app_handler :: "nat \<Rightarrow> nat \<Rightarrow> 'w \<Rightarrow> timer_call list \<times> 'w"
  cyclic_handler :: "nat \<Rightarrow> 'w \<Rightarrow> timer_call list \<times> 'w"
  tcp_pcbs :: "'w \<Rightarrow> bool"
  check_free_ooseq :: "'w \<Rightarrow> 'w"

definition LWIP_MAX_TIMEOUT :: u32 where "LWIP_MAX_TIMEOUT = 0x7fffffff"
definition MEMP_SYS_TIMEOUT :: nat where "MEMP_SYS_TIMEOUT = 7"
definition TCP_TMR_INTERVAL :: u32 where "TCP_TMR_INTERVAL = 250"
definition SYS_TIMEOUTS_SLEEPTIME_INFINITE :: u32 where "SYS_TIMEOUTS_SLEEPTIME_INFINITE = 0xFFFFFFFF"

definition TIME_LESS_THAN :: "u32 \<Rightarrow> u32 \<Rightarrow> bool" where
  "TIME_LESS_THAN t compare_to \<longleftrightarrow> t - compare_to > LWIP_MAX_TIMEOUT"

text \<open>
  The intervals of \<open>lwip_cyclic_timers\<close>: TCP, IP reassembly, ARP, DHCP coarse and fine, AutoIP, IGMP,
  DNS, ND6, IPv6 reassembly and MLD6. The argument of \<open>lwip_cyclic_timer\<close> is the index.
\<close>

definition lwip_cyclic_timers :: "u32 list" where
  "lwip_cyclic_timers = [TCP_TMR_INTERVAL, 1000, 1000, 60 * 1000, 500, 100, 100, 1000, 1000, 1000, 100]"

subsection \<open>Starting and stopping timeouts\<close>

text \<open>The loop that inserts behind the first struct whose successor is due later.\<close>

fun insert_after :: "sys_timeo \<Rightarrow> sys_timeo list \<Rightarrow> sys_timeo list" where
  "insert_after timeout [] = []"
| "insert_after timeout (t # ts) =
     (if ts = [] \<or> TIME_LESS_THAN (timeo_time timeout) (timeo_time (hd ts)) then t # timeout # ts
      else t # insert_after timeout ts)"

definition insert_timeo :: "sys_timeo \<Rightarrow> sys_timeo list \<Rightarrow> sys_timeo list" where
  "insert_timeo timeout ts =
     (if ts = [] then [timeout]
      else if TIME_LESS_THAN (timeo_time timeout) (timeo_time (hd ts)) then timeout # ts
      else insert_after timeout ts)"

definition sys_timeout_abs ::
  "memp_desc list \<Rightarrow> u32 \<Rightarrow> timer_handler \<Rightarrow> nat \<Rightarrow> 'w timers \<Rightarrow> 'w timers run" where
  "sys_timeout_abs pools abs_time handler arg s =
     bind_run (memp_malloc pools MEMP_SYS_TIMEOUT (timer_pool s)) (\<lambda>(r, m).
       let s = s\<lparr>timer_pool := m\<rparr> in
       case r of
         None \<Rightarrow> stop (Abort ''sys_timeout: timeout != NULL, pool MEMP_SYS_TIMEOUT is empty'')
       | Some a \<Rightarrow>
           let timeout = \<lparr>timeo_addr = a, timeo_time = abs_time, timeo_h = handler, timeo_arg = arg\<rparr>
           in ret (s\<lparr>next_timeout := insert_timeo timeout (next_timeout s)\<rparr>))"

definition sys_timeout ::
  "memp_desc list \<Rightarrow> u32 \<Rightarrow> timer_handler \<Rightarrow> nat \<Rightarrow> 'w timers \<Rightarrow> 'w timers run" where
  "sys_timeout pools msecs handler arg s =
     lwip_assert ''Timeout time too long, max is LWIP_UINT32_MAX/4 msecs'' (msecs \<le> 0xFFFFFFFF div 4)
      (let next_timeout_time = clock s + msecs
       in sys_timeout_abs pools next_timeout_time handler arg s)"

text \<open>The loop of \<open>sys_untimeout\<close>: the first match, and the list without it.\<close>

fun unlink_first :: "timer_handler \<Rightarrow> nat \<Rightarrow> sys_timeo list \<Rightarrow> (sys_timeo \<times> sys_timeo list) option" where
  "unlink_first handler arg [] = None"
| "unlink_first handler arg (t # ts) =
     (if timeo_h t = handler \<and> timeo_arg t = arg then Some (t, ts)
      else map_option (\<lambda>(u, us). (u, t # us)) (unlink_first handler arg ts))"

definition sys_untimeout ::
  "memp_desc list \<Rightarrow> timer_handler \<Rightarrow> nat \<Rightarrow> 'w timers \<Rightarrow> 'w timers run" where
  "sys_untimeout pools handler arg s =
     (case unlink_first handler arg (next_timeout s) of
        None \<Rightarrow> ret s
      | Some (t, ts) \<Rightarrow>
          let s = s\<lparr>next_timeout := ts\<rparr>
          in bind_run (memp_free pools MEMP_SYS_TIMEOUT (timeo_addr t) (timer_pool s)) (\<lambda>m.
               ret (s\<lparr>timer_pool := m\<rparr>)))"

definition tcp_timer_needed :: "'w callbacks \<Rightarrow> memp_desc list \<Rightarrow> 'w timers \<Rightarrow> 'w timers run" where
  "tcp_timer_needed cb pools s =
     (if \<not> tcpip_tcp_timer_active s \<and> tcp_pcbs cb (world s) then
        let s = s\<lparr>tcpip_tcp_timer_active := True\<rparr>
        in sys_timeout pools TCP_TMR_INTERVAL Tcpip_tcp_timer 0 s
      else ret s)"

subsection \<open>Handlers\<close>

fun do_call :: "'w callbacks \<Rightarrow> memp_desc list \<Rightarrow> timer_call \<Rightarrow> 'w timers \<Rightarrow> 'w timers run" where
  "do_call cb pools (Call_timeout msecs h arg) s = sys_timeout pools msecs h arg s"
| "do_call cb pools (Call_untimeout h arg) s = sys_untimeout pools h arg s"
| "do_call cb pools Call_tcp_timer_needed s = tcp_timer_needed cb pools s"
| "do_call cb pools (Call_elapse d) s = ret (s\<lparr>clock := clock s + d\<rparr>)"

fun do_calls :: "'w callbacks \<Rightarrow> memp_desc list \<Rightarrow> timer_call list \<Rightarrow> 'w timers \<Rightarrow> 'w timers run" where
  "do_calls cb pools [] s = ret s"
| "do_calls cb pools (c # cs) s = bind_run (do_call cb pools c s) (do_calls cb pools cs)"

text \<open>An outside function runs: it changes the world, then its calls of this file take place.\<close>

definition run_outside ::
  "'w callbacks \<Rightarrow> memp_desc list \<Rightarrow> ('w \<Rightarrow> timer_call list \<times> 'w) \<Rightarrow> 'w timers \<Rightarrow> 'w timers run" where
  "run_outside cb pools f s =
     (let (calls, w) = f (world s) in do_calls cb pools calls (s\<lparr>world := w\<rparr>))"

definition tcpip_tcp_timer :: "'w callbacks \<Rightarrow> memp_desc list \<Rightarrow> 'w timers \<Rightarrow> 'w timers run" where
  "tcpip_tcp_timer cb pools s =
     bind_run (run_outside cb pools (cyclic_handler cb 0) s) (\<lambda>s.
       if tcp_pcbs cb (world s) then sys_timeout pools TCP_TMR_INTERVAL Tcpip_tcp_timer 0 s
       else ret (s\<lparr>tcpip_tcp_timer_active := False\<rparr>))"

definition lwip_cyclic_timer :: "'w callbacks \<Rightarrow> memp_desc list \<Rightarrow> nat \<Rightarrow> 'w timers \<Rightarrow> 'w timers run" where
  "lwip_cyclic_timer cb pools arg s =
     (if arg \<ge> length lwip_cyclic_timers then stop Wild_pointer
      else
        let interval_ms = lwip_cyclic_timers ! arg in
        bind_run (run_outside cb pools (cyclic_handler cb arg) s) (\<lambda>s.
          let now = clock s;
              next_timeout_time = current_timeout_due_time s + interval_ms
          in if TIME_LESS_THAN next_timeout_time now
             then sys_timeout_abs pools (now + interval_ms) Lwip_cyclic_timer arg s
             else sys_timeout_abs pools next_timeout_time Lwip_cyclic_timer arg s))"

fun call_handler :: "'w callbacks \<Rightarrow> memp_desc list \<Rightarrow> timer_handler \<Rightarrow> nat \<Rightarrow> 'w timers \<Rightarrow> 'w timers run" where
  "call_handler cb pools Null_handler arg s = ret s"
| "call_handler cb pools Tcpip_tcp_timer arg s = tcpip_tcp_timer cb pools s"
| "call_handler cb pools Lwip_cyclic_timer arg s = lwip_cyclic_timer cb pools arg s"
| "call_handler cb pools (App_handler n) arg s = run_outside cb pools (app_handler cb n arg) s"

subsection \<open>The main functions\<close>

definition sys_timeouts_init :: "memp_desc list \<Rightarrow> 'w timers \<Rightarrow> 'w timers run" where
  "sys_timeouts_init pools s =
     fold (\<lambda>i r. bind_run r (sys_timeout pools (lwip_cyclic_timers ! i) Lwip_cyclic_timer i))
       [1..<length lwip_cyclic_timers] (ret s)"

text \<open>The loop of \<open>sys_check_timeouts\<close>, which need not end when handlers restart expired timers.\<close>

partial_function (option) check_loop ::
  "'w callbacks \<Rightarrow> memp_desc list \<Rightarrow> u32 \<Rightarrow> 'w timers \<Rightarrow> 'w timers run" where
  "check_loop cb pools now s =
     (let s = s\<lparr>world := check_free_ooseq cb (world s)\<rparr> in
      case next_timeout s of
        [] \<Rightarrow> ret s
      | tmptimeout # ts \<Rightarrow>
          if TIME_LESS_THAN now (timeo_time tmptimeout) then ret s
          else
            let s = s\<lparr>next_timeout := ts, current_timeout_due_time := timeo_time tmptimeout\<rparr>
            in bind_run (memp_free pools MEMP_SYS_TIMEOUT (timeo_addr tmptimeout) (timer_pool s)) (\<lambda>m.
               bind_run (call_handler cb pools (timeo_h tmptimeout) (timeo_arg tmptimeout) (s\<lparr>timer_pool := m\<rparr>))
                 (check_loop cb pools now)))"

definition sys_check_timeouts :: "'w callbacks \<Rightarrow> memp_desc list \<Rightarrow> 'w timers \<Rightarrow> 'w timers run" where
  "sys_check_timeouts cb pools s = (let now = clock s in check_loop cb pools now s)"

definition sys_restart_timeouts :: "'w timers \<Rightarrow> 'w timers" where
  "sys_restart_timeouts s =
     (case next_timeout s of
        [] \<Rightarrow> s
      | t # ts \<Rightarrow>
          let now = clock s; base = timeo_time t
          in s\<lparr>next_timeout := map (\<lambda>t. t\<lparr>timeo_time := (timeo_time t - base) + now\<rparr>) (next_timeout s)\<rparr>)"

definition sys_timeouts_sleeptime :: "'w timers \<Rightarrow> u32 run" where
  "sys_timeouts_sleeptime s =
     (case next_timeout s of
        [] \<Rightarrow> ret SYS_TIMEOUTS_SLEEPTIME_INFINITE
      | t # ts \<Rightarrow>
          let now = clock s in
          if TIME_LESS_THAN (timeo_time t) now then ret 0
          else let r = timeo_time t - now
               in lwip_assert ''invalid sleeptime'' (r \<le> LWIP_MAX_TIMEOUT) (ret r))"

subsection \<open>Times, order and the pool\<close>

text \<open>
  Times wrap around, so they are compared within a window: \<open>rel b t\<close> is how far \<open>t\<close> lies behind
  the base \<open>b\<close>, and times in the half of the range behind \<open>b\<close> are ordered by it. The list of timeouts
  is ordered when it is ordered from some base; its structs are the elements of the pool that are
  in use. \<open>backlog\<close> counts the calls of handlers a round of \<open>sys_check_timeouts\<close> can still make:
  two for a timeout that was due before \<open>now\<close> (a cyclic one can be due again at \<open>now\<close>), one for
  one that is due at \<open>now\<close>.
\<close>

definition rel :: "u32 \<Rightarrow> u32 \<Rightarrow> nat" where
  "rel b t = unat (t - b)"

abbreviation due :: "u32 \<Rightarrow> sys_timeo \<Rightarrow> nat" where
  "due b t \<equiv> rel b (timeo_time t)"

definition sorted_from :: "u32 \<Rightarrow> sys_timeo list \<Rightarrow> bool" where
  "sorted_from b ts \<longleftrightarrow> list_all (\<lambda>t. due b t < 2 ^ 31) ts \<and> sorted (map (due b) ts)"

definition timers_inv :: "memp_desc list \<Rightarrow> 'w timers \<Rightarrow> bool" where
  "timers_inv pools s \<longleftrightarrow> pools_ok pools \<and> MEMP_SYS_TIMEOUT < length pools \<and> memp_inv pools (timer_pool s)
     \<and> distinct (map timeo_addr (next_timeout s))
     \<and> (\<forall>a. a \<in> set (map timeo_addr (next_timeout s)) \<longleftrightarrow> (MEMP_SYS_TIMEOUT, a) \<in> memp_live pools (timer_pool s))"

definition timer_slots :: "memp_desc list \<Rightarrow> nat" where
  "timer_slots pools = desc_num (pools ! MEMP_SYS_TIMEOUT)"

definition timeo_of :: "u32 \<Rightarrow> timer_handler \<Rightarrow> nat \<Rightarrow> nat \<Rightarrow> sys_timeo" where
  "timeo_of t h arg a = \<lparr>timeo_addr = a, timeo_time = t, timeo_h = h, timeo_arg = arg\<rparr>"

definition timeo_other :: "timer_handler \<Rightarrow> nat \<Rightarrow> sys_timeo \<Rightarrow> bool" where
  "timeo_other h arg t \<longleftrightarrow> \<not> (timeo_h t = h \<and> timeo_arg t = arg)"

definition pool_empty :: fault where
  "pool_empty = Abort ''sys_timeout: timeout != NULL, pool MEMP_SYS_TIMEOUT is empty''"

fun call_ok :: "timer_call \<Rightarrow> bool" where
  "call_ok (Call_timeout m h arg) \<longleftrightarrow> 0 < m \<and> m \<le> 0xFFFFFFFF div 4 \<and> (h = Lwip_cyclic_timer \<longrightarrow> arg < length lwip_cyclic_timers)"
| "call_ok _ \<longleftrightarrow> True"

fun call_time :: "timer_call \<Rightarrow> nat" where
  "call_time (Call_elapse d) = unat d"
| "call_time _ = 0"

definition calls_ok :: "nat \<Rightarrow> timer_call list \<Rightarrow> bool" where
  "calls_ok D cs \<longleftrightarrow> list_all call_ok cs \<and> sum_list (map call_time cs) \<le> D"

definition well_behaved :: "'w callbacks \<Rightarrow> nat \<Rightarrow> bool" where
  "well_behaved cb D \<longleftrightarrow> (\<forall>n arg w. calls_ok D (fst (app_handler cb n arg w))) \<and> (\<forall>i w. calls_ok D (fst (cyclic_handler cb i w)))"

definition lateness :: "u32 \<Rightarrow> u32 \<Rightarrow> sys_timeo \<Rightarrow> nat" where
  "lateness b now t = (if due b t < rel b now then 2 else if due b t = rel b now then 1 else 0)"

definition backlog :: "u32 \<Rightarrow> u32 \<Rightarrow> 'w timers \<Rightarrow> nat" where
  "backlog b now s = sum_list (map (lateness b now) (next_timeout s))"

definition timers_ok :: "memp_desc list \<Rightarrow> u32 \<Rightarrow> 'w timers \<Rightarrow> bool" where
  "timers_ok pools b s \<longleftrightarrow> timers_inv pools s \<and> sorted_from b (next_timeout s)
     \<and> list_all (\<lambda>t. timeo_h t = Lwip_cyclic_timer \<longrightarrow> timeo_arg t < length lwip_cyclic_timers) (next_timeout s)"

text \<open>The effect of a handler: time passes, timers may be started for later or stopped.\<close>

definition advanced :: "memp_desc list \<Rightarrow> u32 \<Rightarrow> u32 \<Rightarrow> nat \<Rightarrow> 'w timers \<Rightarrow> 'w timers \<Rightarrow> bool" where
  "advanced pools b now E s s' \<longleftrightarrow> timers_ok pools b s' \<and> backlog b now s' \<le> backlog b now s
     \<and> rel b (clock s) \<le> rel b (clock s') \<and> rel b (clock s') \<le> rel b (clock s) + E
     \<and> current_timeout_due_time s' = current_timeout_due_time s"

definition safe :: "'w timers run \<Rightarrow> ('w timers \<Rightarrow> bool) \<Rightarrow> bool" where
  "safe r Q \<longleftrightarrow> r = stop pool_empty \<or> (\<exists>s. r = ret s \<and> Q s)"

text \<open>A pool table, timers and callbacks for the witnesses below.\<close>

definition timer_pools :: "memp_desc list" where
  "timer_pools = map (\<lambda>i. \<lparr>desc_size = 16, desc_num = 11, desc_base = 1000 + 1000 * i\<rparr>) [0..<8]"

definition fresh_timers :: "unit timers" where
  "fresh_timers = \<lparr>next_timeout = [], current_timeout_due_time = 0, tcpip_tcp_timer_active = False,
     timer_pool = memp_init timer_pools \<lparr>memp_tab = (\<lambda>_. 0), memp_next = (\<lambda>_. 0)\<rparr>, clock = 0xFFFFFF00, world = ()\<rparr>"

definition idle_callbacks :: "unit callbacks" where
  "idle_callbacks = \<lparr>app_handler = (\<lambda>_ _ w. ([], w)), cyclic_handler = (\<lambda>_ w. ([Call_elapse 5], w)),
     tcp_pcbs = (\<lambda>_. True), check_free_ooseq = id\<rparr>"



lemma unat_sub_u32: "unat (x - y :: u32) = (if unat y \<le> unat x then unat x - unat y else unat x + 4294967296 - unat y)"
  using unat_sub_if' [of x y] by simp

lemma time_less_than_rel:
  assumes "rel b t < 2 ^ 31" and "rel b u < 2 ^ 31"
  shows "TIME_LESS_THAN t u \<longleftrightarrow> rel b t < rel b u"
proof -
  have "t - u = (t - b) - (u - b)" by simp
  then have "unat (t - u) = (if rel b u \<le> rel b t then rel b t - rel b u else rel b t + 4294967296 - rel b u)"
    by (simp only: rel_def unat_sub_u32)
  then show ?thesis using assms by (auto simp: TIME_LESS_THAN_def LWIP_MAX_TIMEOUT_def word_less_nat_alt split: if_splits)
qed

lemma insert_after_sorted:
  assumes "sorted_from b ts" "due b x < 2 ^ 31" "ts \<noteq> []" "due b (hd ts) \<le> due b x"
  shows "insert_after x ts = takeWhile (\<lambda>t. due b t \<le> due b x) ts @ x # dropWhile (\<lambda>t. due b t \<le> due b x) ts"
  using assms
proof (induction ts)
  case (Cons t ts)
  show ?case
  proof (cases "ts = []")
    case False
    then have l: "TIME_LESS_THAN (timeo_time x) (timeo_time (hd ts)) \<longleftrightarrow> due b x < due b (hd ts)"
      using Cons.prems by (intro time_less_than_rel) (auto simp: sorted_from_def list_all_iff)
    show ?thesis
    proof (cases "due b x < due b (hd ts)")
      case True
      then show ?thesis using l Cons.prems False by (cases ts) auto
    next
      case le: False
      have "sorted_from b ts" using Cons.prems by (simp add: sorted_from_def)
      with Cons.IH Cons.prems False le l show ?thesis by simp
    qed
  qed (use Cons.prems in simp)
qed simp

lemma insert_timeo_sorted:
  assumes "sorted_from b ts" "due b x < 2 ^ 31"
  shows "insert_timeo x ts = takeWhile (\<lambda>t. due b t \<le> due b x) ts @ x # dropWhile (\<lambda>t. due b t \<le> due b x) ts"
proof (cases ts)
  case (Cons t ts')
  then have "TIME_LESS_THAN (timeo_time x) (timeo_time (hd ts)) \<longleftrightarrow> due b x < due b (hd ts)"
    using assms by (intro time_less_than_rel) (auto simp: sorted_from_def)
  then show ?thesis
    using insert_after_sorted [OF assms] Cons by (auto simp: insert_timeo_def)
qed (simp add: insert_timeo_def)

lemma sorted_from_insert:
  assumes s: "sorted_from b ts" and x: "due b x < 2 ^ 31"
  shows "sorted_from b (insert_timeo x ts)"
proof -
  define xs where "xs = takeWhile (\<lambda>t. due b t \<le> due b x) ts"
  define ys where "ys = dropWhile (\<lambda>t. due b t \<le> due b x) ts"
  have ts: "ts = xs @ ys" by (simp add: xs_def ys_def)
  have lo: "\<forall>t\<in>set xs. due b t \<le> due b x" by (auto simp: xs_def dest: set_takeWhileD)
  have srt: "sorted (map (due b) ys)" using s ts by (simp add: sorted_from_def sorted_append)
  have hi: "\<forall>u\<in>set ys. due b x \<le> due b u"
  proof (cases ys)
    case (Cons v vs)
    then have "\<not> due b v \<le> due b x" unfolding ys_def by (metis dropWhile_eq_Cons_conv)
    then show ?thesis using srt Cons by auto
  qed simp
  have "insert_timeo x ts = xs @ x # ys" using insert_timeo_sorted [OF assms] by (simp add: xs_def ys_def)
  with lo hi s x ts show ?thesis by (auto simp: sorted_from_def sorted_append list_all_iff)
qed

lemma mset_insert_timeo: "mset (insert_timeo x ts) = add_mset x (mset ts)"
proof -
  have "mset (insert_after x ts) = add_mset x (mset ts)" if "ts \<noteq> []"
    using that by (induction ts) auto
  then show ?thesis by (simp add: insert_timeo_def)
qed

lemma set_insert_timeo: "set (insert_timeo x ts) = insert x (set ts)" "length (insert_timeo x ts) = Suc (length ts)"
  "distinct (map timeo_addr (insert_timeo x ts)) \<longleftrightarrow> timeo_addr x \<notin> timeo_addr ` set ts \<and> distinct (map timeo_addr ts)"
proof -
  note m = mset_insert_timeo [of x ts]
  then show "set (insert_timeo x ts) = insert x (set ts)" by (metis set_mset_mset set_mset_add_mset_insert)
  show "length (insert_timeo x ts) = Suc (length ts)" using m by (metis size_mset size_add_mset)
  have "mset (map timeo_addr (insert_timeo x ts)) = mset (map timeo_addr (x # ts))" using m by simp
  then show "distinct (map timeo_addr (insert_timeo x ts)) \<longleftrightarrow> timeo_addr x \<notin> timeo_addr ` set ts \<and> distinct (map timeo_addr ts)"
    by (metis distinct.simps(2) list.simps(9) mset_eq_imp_distinct_iff set_map)
qed

lemma slots_split:
  assumes "timers_inv pools s"
  shows "length (free_list pools (timer_pool s) MEMP_SYS_TIMEOUT) + length (next_timeout s) = timer_slots pools"
proof -
  let ?e = "elements (pools ! MEMP_SYS_TIMEOUT)" and ?f = "free_list pools (timer_pool s) MEMP_SYS_TIMEOUT"
    and ?a = "map timeo_addr (next_timeout s)"
  have ok: "pools_ok pools" "MEMP_SYS_TIMEOUT < length pools" and i: "pool_inv pools (timer_pool s) MEMP_SYS_TIMEOUT"
    using assms by (auto simp: timers_inv_def memp_inv_iff)
  have a: "set ?a = set ?e - set ?f" using assms by (auto simp: timers_inv_def memp_live_def)
  have "card (set ?f) + card (set ?a) = card (set ?e)"
    using card_Un_disjoint [of "set ?f" "set ?e - set ?f"] pool_invD(3) [OF i] unfolding a
    by (simp add: Un_absorb1)
  moreover have "card (set ?f) = length ?f" using pool_invD(2) [OF i] by (rule distinct_card)
  moreover have "card (set ?a) = length ?a" using assms by (intro distinct_card) (simp add: timers_inv_def)
  moreover have "card (set ?e) = timer_slots pools"
    using distinct_card [OF elements_props(1) [OF ok]] elements_props(2) [OF ok] by (simp add: timer_slots_def)
  ultimately show ?thesis by simp
qed

lemma sys_timeout_abs_spec:
  assumes inv: "timers_inv pools s"
  shows "if length (next_timeout s) < timer_slots pools
    then \<exists>a m. sys_timeout_abs pools t h arg s =
           ret (s\<lparr>timer_pool := m, next_timeout := insert_timeo (timeo_of t h arg a) (next_timeout s)\<rparr>)
         \<and> timers_inv pools (s\<lparr>timer_pool := m, next_timeout := insert_timeo (timeo_of t h arg a) (next_timeout s)\<rparr>)
    else sys_timeout_abs pools t h arg s =
           stop (Abort ''sys_timeout: timeout != NULL, pool MEMP_SYS_TIMEOUT is empty'')"
proof -
  have ok: "pools_ok pools" "MEMP_SYS_TIMEOUT < length pools" "memp_inv pools (timer_pool s)"
    using inv by (auto simp: timers_inv_def)
  obtain r m where r: "memp_malloc pools MEMP_SYS_TIMEOUT (timer_pool s) = ret (r, m)" "memp_inv pools m"
    "case r of None \<Rightarrow> m = timer_pool s \<and> free_list pools (timer_pool s) MEMP_SYS_TIMEOUT = []
     | Some a \<Rightarrow> free_list pools (timer_pool s) MEMP_SYS_TIMEOUT = a # free_list pools m MEMP_SYS_TIMEOUT
         \<and> memp_live pools m = insert (MEMP_SYS_TIMEOUT, a) (memp_live pools (timer_pool s))
         \<and> (MEMP_SYS_TIMEOUT, a) \<notin> memp_live pools (timer_pool s)"
    using memp_malloc_spec [OF ok(1,3,2)] by blast
  show ?thesis
  proof (cases r)
    case None
    then show ?thesis using r slots_split [OF inv] by (simp add: sys_timeout_abs_def)
  next
    case (Some a)
    let ?s = "s\<lparr>timer_pool := m, next_timeout := insert_timeo (timeo_of t h arg a) (next_timeout s)\<rparr>"
    have n: "a \<notin> timeo_addr ` set (next_timeout s)" using r(3) Some inv by (auto simp: timers_inv_def)
    then have "timers_inv pools ?s"
      using r Some inv unfolding timers_inv_def by (auto simp: set_insert_timeo timeo_of_def)
    then show ?thesis using r Some slots_split [OF inv] by (auto simp: sys_timeout_abs_def timeo_of_def)
  qed
qed

lemma memp_free_timeo:
  assumes ok: "pools_ok pools" "MEMP_SYS_TIMEOUT < length pools" "memp_inv pools m"
    and d: "distinct (a # as)" and l: "\<forall>b. b \<in> set (a # as) \<longleftrightarrow> (MEMP_SYS_TIMEOUT, b) \<in> memp_live pools m"
  shows "\<exists>m'. memp_free pools MEMP_SYS_TIMEOUT a m = ret m' \<and> memp_inv pools m'
    \<and> (\<forall>b. b \<in> set as \<longleftrightarrow> (MEMP_SYS_TIMEOUT, b) \<in> memp_live pools m')"
proof -
  have "(MEMP_SYS_TIMEOUT, a) \<in> memp_live pools m" using l by auto
  from memp_free_spec [OF ok(1,3) this] obtain m' where m: "memp_free pools MEMP_SYS_TIMEOUT a m = ret m'" "memp_inv pools m'"
    "memp_live pools m' = memp_live pools m - {(MEMP_SYS_TIMEOUT, a)}" by blast
  have "b \<in> set as \<longleftrightarrow> (MEMP_SYS_TIMEOUT, b) \<in> memp_live pools m'" for b
    using l d m(3) by auto
  with m show ?thesis by blast
qed

lemma unlink_first_split:
  "unlink_first h arg ts = (case dropWhile (timeo_other h arg) ts of
     [] \<Rightarrow> None | t # us \<Rightarrow> Some (t, takeWhile (timeo_other h arg) ts @ us))"
proof (induction ts)
  case (Cons t ts)
  have "unlink_first h arg (t # ts) = (if timeo_other h arg t
      then map_option (\<lambda>(u, us). (u, t # us)) (unlink_first h arg ts) else Some (t, ts))"
    by (simp add: timeo_other_def)
  with Cons show ?case by (cases "dropWhile (timeo_other h arg) ts") (simp_all del: dropWhile_eq_Nil_conv)
qed simp

lemma sys_untimeout_spec:
  fixes h :: timer_handler and arg :: nat
  assumes inv: "timers_inv pools s"
  defines "P \<equiv> timeo_other h arg"
  shows "\<exists>m. sys_untimeout pools h arg s =
      ret (s\<lparr>timer_pool := m, next_timeout := takeWhile P (next_timeout s) @ tl (dropWhile P (next_timeout s))\<rparr>)
    \<and> timers_inv pools (s\<lparr>timer_pool := m, next_timeout := takeWhile P (next_timeout s) @ tl (dropWhile P (next_timeout s))\<rparr>)"
proof (cases "dropWhile P (next_timeout s)")
  case Nil
  then have "takeWhile P (next_timeout s) @ tl (dropWhile P (next_timeout s)) = next_timeout s"
    by (metis append_Nil2 list.sel(2) takeWhile_dropWhile_id)
  moreover have "sys_untimeout pools h arg s = ret s"
    using Nil by (simp add: sys_untimeout_def unlink_first_split P_def [symmetric] del: dropWhile_eq_Nil_conv)
  ultimately show ?thesis using inv by (intro exI [of _ "timer_pool s"]) simp
next
  case (Cons t us)
  let ?ts = "takeWhile P (next_timeout s)"
  have ts: "next_timeout s = ?ts @ t # us" using Cons by (metis takeWhile_dropWhile_id)
  have d: "distinct (timeo_addr t # map timeo_addr (?ts @ us))"
    and l: "\<forall>b. b \<in> set (timeo_addr t # map timeo_addr (?ts @ us)) \<longleftrightarrow> (MEMP_SYS_TIMEOUT, b) \<in> memp_live pools (timer_pool s)"
    using inv unfolding timers_inv_def by (subst (asm) (1 2) ts; auto)+
  obtain m where m: "memp_free pools MEMP_SYS_TIMEOUT (timeo_addr t) (timer_pool s) = ret m" "memp_inv pools m"
    "\<forall>b. b \<in> set (map timeo_addr (?ts @ us)) \<longleftrightarrow> (MEMP_SYS_TIMEOUT, b) \<in> memp_live pools m"
    using memp_free_timeo [OF _ _ _ d l] inv by (auto simp: timers_inv_def)
  have "sys_untimeout pools h arg s = ret (s\<lparr>timer_pool := m, next_timeout := ?ts @ us\<rparr>)"
    using Cons m(1) by (simp add: sys_untimeout_def unlink_first_split P_def [symmetric])
  moreover have "timers_inv pools (s\<lparr>timer_pool := m, next_timeout := ?ts @ us\<rparr>)"
    using inv m d by (simp add: timers_inv_def)
  ultimately show ?thesis using Cons by auto
qed

lemma safe_bind: "safe r Q \<Longrightarrow> (\<And>s. Q s \<Longrightarrow> safe (f s) R) \<Longrightarrow> safe (bind_run r f) R"
  unfolding safe_def by (elim disjE exE conjE) simp_all

lemma safe_mono: "safe r Q \<Longrightarrow> (\<And>s. Q s \<Longrightarrow> R s) \<Longrightarrow> safe r R"
  by (auto simp: safe_def)

lemma safe_simps [simp]: "safe (ret s) Q = Q s"
  by (auto simp: safe_def)

lemma rel_add: "rel b c + unat m < 2 ^ 32 \<Longrightarrow> rel b (c + m) = rel b c + unat m"
proof -
  assume a: "rel b c + unat m < 2 ^ 32"
  have "c + m - b = (c - b) + m" by simp
  then have "rel b (c + m) = (rel b c + unat m) mod 4294967296" by (simp only: rel_def unat_add_u32)
  with a show ?thesis by simp
qed

lemma advanced_trans:
  "advanced pools b now E s s' \<Longrightarrow> advanced pools b now F s' s'' \<Longrightarrow> advanced pools b now (E + F) s s''"
  by (auto simp: advanced_def)

lemma sum_list_insert_timeo: "sum_list (map (f :: _ \<Rightarrow> nat) (insert_timeo x ts)) = f x + sum_list (map f ts)"
proof -
  have "sum_list (map f (insert_after x ts)) = f x + sum_list (map f ts)" if "ts \<noteq> []"
    using that by (induction ts) auto
  then show ?thesis by (simp add: insert_timeo_def)
qed

lemma sys_timeout_abs_safe:
  assumes ok: "timers_ok pools b s" and t: "rel b t < 2 ^ 31"
    and h: "h = Lwip_cyclic_timer \<Longrightarrow> arg < length lwip_cyclic_timers"
  shows "safe (sys_timeout_abs pools t h arg s) (\<lambda>s'. timers_ok pools b s' \<and> clock s' = clock s
     \<and> current_timeout_due_time s' = current_timeout_due_time s
     \<and> backlog b now s' = backlog b now s + lateness b now (timeo_of t h arg 0))"
proof -
  have inv: "timers_inv pools s" using ok by (simp add: timers_ok_def)
  have l: "lateness b now (timeo_of t h arg a) = lateness b now (timeo_of t h arg 0)" for a
    by (simp add: lateness_def timeo_of_def)
  have "timers_ok pools b (s\<lparr>timer_pool := m, next_timeout := insert_timeo (timeo_of t h arg a) (next_timeout s)\<rparr>)"
    if "timers_inv pools (s\<lparr>timer_pool := m, next_timeout := insert_timeo (timeo_of t h arg a) (next_timeout s)\<rparr>)" for a m
    using that ok t h sorted_from_insert [of b "next_timeout s" "timeo_of t h arg a"]
    by (auto simp: timers_ok_def timeo_of_def list_all_iff set_insert_timeo)
  then show ?thesis
    using sys_timeout_abs_spec [OF inv, of t h arg] l
    by (auto simp: safe_def pool_empty_def backlog_def sum_list_insert_timeo split: if_splits)
qed

lemma sys_timeout_safe:
  assumes ok: "timers_ok pools b s" and m: "0 < m" "m \<le> 0xFFFFFFFF div 4"
    and h: "h = Lwip_cyclic_timer \<Longrightarrow> arg < length lwip_cyclic_timers"
    and c: "rel b now \<le> rel b (clock s)" "rel b (clock s) + 2 ^ 30 \<le> 2 ^ 31"
  shows "safe (sys_timeout pools m h arg s) (advanced pools b now 0 s)"
proof -
  have "unat m \<le> 1073741823" using m(2) by (simp add: word_le_nat_alt unat_div)
  then have r: "rel b (clock s + m) = rel b (clock s) + unat m" using c by (intro rel_add) simp
  have "unat m > 0" using m(1) by (simp add: word_less_nat_alt)
  then have l: "lateness b now (timeo_of (clock s + m) h arg 0) = 0"
    using r c by (simp add: lateness_def timeo_of_def)
  show ?thesis
    using sys_timeout_abs_safe [OF ok, of "clock s + m" h arg now] r c h m \<open>unat m \<le> 1073741823\<close> l
    by (auto simp: sys_timeout_def advanced_def elim!: safe_mono)
qed

lemma sys_untimeout_safe:
  assumes ok: "timers_ok pools b s"
  shows "safe (sys_untimeout pools h arg s) (advanced pools b now 0 s)"
proof -
  let ?P = "timeo_other h arg"
  define xs where "xs = takeWhile ?P (next_timeout s)"
  define ys where "ys = dropWhile ?P (next_timeout s)"
  have ts: "next_timeout s = xs @ ys" by (simp add: xs_def ys_def)
  obtain m where m: "sys_untimeout pools h arg s = ret (s\<lparr>timer_pool := m, next_timeout := xs @ tl ys\<rparr>)"
    "timers_inv pools (s\<lparr>timer_pool := m, next_timeout := xs @ tl ys\<rparr>)"
    using sys_untimeout_spec [of pools s h arg] ok by (auto simp: timers_ok_def xs_def ys_def)
  have "timers_ok pools b (s\<lparr>timer_pool := m, next_timeout := xs @ tl ys\<rparr>)"
    using m(2) ok ts by (cases ys) (auto simp: timers_ok_def sorted_from_def sorted_append)
  then show ?thesis using m(1) ts by (cases ys) (auto simp: advanced_def backlog_def)
qed

lemma advanced_refl: "timers_ok pools b s \<Longrightarrow> advanced pools b now 0 s s"
  by (simp add: advanced_def)

lemma do_call_safe:
  assumes ok: "timers_ok pools b s" and c: "call_ok c" "rel b now \<le> rel b (clock s)"
    "rel b (clock s) + call_time c + 2 ^ 30 \<le> 2 ^ 31"
  shows "safe (do_call cb pools c s) (advanced pools b now (call_time c) s)"
proof (cases c)
  case (Call_timeout m h arg)
  then show ?thesis using sys_timeout_safe [OF ok, of m h arg now] c by auto
next
  case (Call_untimeout h arg)
  then show ?thesis using sys_untimeout_safe [OF ok] by auto
next
  case Call_tcp_timer_needed
  have "timers_ok pools b (s\<lparr>tcpip_tcp_timer_active := True\<rparr>)" using ok by (simp add: timers_ok_def timers_inv_def)
  then have "safe (sys_timeout pools TCP_TMR_INTERVAL Tcpip_tcp_timer 0 (s\<lparr>tcpip_tcp_timer_active := True\<rparr>))
     (advanced pools b now 0 (s\<lparr>tcpip_tcp_timer_active := True\<rparr>))"
    using c Call_tcp_timer_needed by (intro sys_timeout_safe) (auto simp: TCP_TMR_INTERVAL_def)
  then show ?thesis using Call_tcp_timer_needed advanced_refl [OF ok, of now]
    by (auto simp: tcp_timer_needed_def advanced_def backlog_def elim!: safe_mono)
next
  case (Call_elapse d)
  have "rel b (clock s + d) = rel b (clock s) + unat d" using c Call_elapse by (intro rel_add) simp
  then show ?thesis using Call_elapse ok by (auto simp: advanced_def timers_ok_def timers_inv_def backlog_def)
qed

lemma do_calls_safe:
  assumes "timers_ok pools b s" and "list_all call_ok cs" "rel b now \<le> rel b (clock s)"
    "rel b (clock s) + sum_list (map call_time cs) + 2 ^ 30 \<le> 2 ^ 31"
  shows "safe (do_calls cb pools cs s) (advanced pools b now (sum_list (map call_time cs)) s)"
  using assms
proof (induction cs arbitrary: s)
  case Nil
  then show ?case by (simp add: advanced_refl)
next
  case (Cons c cs)
  have "safe (do_call cb pools c s) (advanced pools b now (call_time c) s)"
    using Cons.prems by (intro do_call_safe) auto
  then have "safe (bind_run (do_call cb pools c s) (do_calls cb pools cs))
     (advanced pools b now (call_time c + sum_list (map call_time cs)) s)"
  proof (rule safe_bind)
    fix s'
    assume a: "advanced pools b now (call_time c) s s'"
    then have "safe (do_calls cb pools cs s') (advanced pools b now (sum_list (map call_time cs)) s')"
      using Cons.prems by (intro Cons.IH) (auto simp: advanced_def)
    then show "safe (do_calls cb pools cs s') (advanced pools b now (call_time c + sum_list (map call_time cs)) s)"
      by (rule safe_mono) (rule advanced_trans [OF a])
  qed
  then show ?case by simp
qed

lemma run_outside_safe:
  assumes ok: "timers_ok pools b s" and f: "calls_ok D (fst (f (world s)))" and c: "rel b now \<le> rel b (clock s)"
    "rel b (clock s) + D + 2 ^ 30 \<le> 2 ^ 31"
  shows "safe (run_outside cb pools f s) (advanced pools b now D s)"
proof -
  obtain cs w where cs: "f (world s) = (cs, w)" by fastforce
  have "safe (do_calls cb pools cs (s\<lparr>world := w\<rparr>)) (advanced pools b now (sum_list (map call_time cs)) (s\<lparr>world := w\<rparr>))"
    using ok f c cs by (intro do_calls_safe) (auto simp: calls_ok_def timers_ok_def timers_inv_def)
  then show ?thesis using f cs by (auto simp: run_outside_def calls_ok_def advanced_def backlog_def elim!: safe_mono)
qed

text \<open>A handler that was due and is called lets its own backlog go, and adds at most one less.\<close>

lemma cyclic_interval: "i < length lwip_cyclic_timers \<Longrightarrow> 0 < unat (lwip_cyclic_timers ! i) \<and> unat (lwip_cyclic_timers ! i) \<le> 60000"
  by (auto simp: lwip_cyclic_timers_def TCP_TMR_INTERVAL_def less_Suc_eq)

lemma cyclic_restart:
  assumes i: "0 < unat iv" "unat iv \<le> 60000" and d: "rel b d \<le> rel b now"
    and c: "rel b now \<le> rel b c" "rel b c + 2 ^ 30 \<le> 2 ^ 31"
  defines "t \<equiv> if TIME_LESS_THAN (d + iv) c then c + iv else d + iv"
  shows "rel b t < 2 ^ 31" and "lateness b now (timeo_of t h arg 0) < lateness b now (timeo_of d h' arg' 0)"
proof -
  have r: "rel b (d + iv) = rel b d + unat iv" "rel b (c + iv) = rel b c + unat iv"
    using i d c by (auto intro!: rel_add)
  then have l: "TIME_LESS_THAN (d + iv) c \<longleftrightarrow> rel b d + unat iv < rel b c"
    using i d c by (subst time_less_than_rel [of b]) auto
  show "rel b t < 2 ^ 31" using r i d c by (simp add: t_def)
  show "lateness b now (timeo_of t h arg 0) < lateness b now (timeo_of d h' arg' 0)"
    using r l i d c by (auto simp: t_def lateness_def timeo_of_def)
qed

lemma call_handler_safe:
  assumes ok: "timers_ok pools b s" and cb: "well_behaved cb D"
    and c: "rel b now \<le> rel b (clock s)" "rel b (clock s) + D + 2 ^ 30 \<le> 2 ^ 31"
    and d: "rel b (current_timeout_due_time s) \<le> rel b now"
    and h: "h = Lwip_cyclic_timer \<Longrightarrow> arg < length lwip_cyclic_timers"
  shows "safe (call_handler cb pools h arg s) (\<lambda>s'. timers_ok pools b s'
     \<and> backlog b now s' < backlog b now s + lateness b now (timeo_of (current_timeout_due_time s) h arg 0)
     \<and> rel b (clock s) \<le> rel b (clock s') \<and> rel b (clock s') \<le> rel b (clock s) + D)"
proof -
  have pos: "0 < lateness b now (timeo_of (current_timeout_due_time s) h arg 0)"
    using d by (simp add: lateness_def timeo_of_def)
  show ?thesis
  proof (cases h)
    case Null_handler
    then show ?thesis using ok pos by simp
  next
    case (App_handler n)
    have "safe (run_outside cb pools (app_handler cb n arg) s) (advanced pools b now D s)"
      using cb by (intro run_outside_safe ok c) (simp add: well_behaved_def)
    then show ?thesis using App_handler pos by (auto simp: advanced_def elim!: safe_mono)
  next
    case Tcpip_tcp_timer
    have "safe (run_outside cb pools (cyclic_handler cb 0) s) (advanced pools b now D s)"
      using cb by (intro run_outside_safe ok c) (simp add: well_behaved_def)
    then have "safe (tcpip_tcp_timer cb pools s) (advanced pools b now D s)"
      unfolding tcpip_tcp_timer_def
    proof (rule safe_bind)
      fix s' assume a: "advanced pools b now D s s'"
      then have "safe (sys_timeout pools TCP_TMR_INTERVAL Tcpip_tcp_timer 0 s') (advanced pools b now 0 s')"
        using c by (intro sys_timeout_safe) (auto simp: TCP_TMR_INTERVAL_def advanced_def)
      then have "safe (sys_timeout pools TCP_TMR_INTERVAL Tcpip_tcp_timer 0 s') (advanced pools b now D s)"
        using advanced_trans [OF a, of 0] by (auto elim!: safe_mono)
      with a show "safe (if tcp_pcbs cb (world s') then sys_timeout pools TCP_TMR_INTERVAL Tcpip_tcp_timer 0 s'
          else ret (s'\<lparr>tcpip_tcp_timer_active := False\<rparr>)) (advanced pools b now D s)"
        by (auto simp: advanced_def timers_ok_def timers_inv_def backlog_def)
    qed
    then show ?thesis using Tcpip_tcp_timer pos by (auto simp: advanced_def elim!: safe_mono)
  next
    case Lwip_cyclic_timer
    then have i: "arg < length lwip_cyclic_timers" using h by simp
    let ?i = "lwip_cyclic_timers ! arg" and ?d = "current_timeout_due_time s"
    have iv: "0 < unat ?i" "unat ?i \<le> 60000" using cyclic_interval [OF i] by auto
    have "safe (run_outside cb pools (cyclic_handler cb arg) s) (advanced pools b now D s)"
      using cb by (intro run_outside_safe ok c) (simp add: well_behaved_def)
    then have "safe (lwip_cyclic_timer cb pools arg s) (\<lambda>s'. timers_ok pools b s'
       \<and> backlog b now s' < backlog b now s + lateness b now (timeo_of ?d h arg 0)
       \<and> rel b (clock s) \<le> rel b (clock s') \<and> rel b (clock s') \<le> rel b (clock s) + D)"
      unfolding lwip_cyclic_timer_def Let_def if_not_P [OF i [folded not_le]]
    proof (rule safe_bind)
      fix s' assume a: "advanced pools b now D s s'"
      let ?t = "if TIME_LESS_THAN (?d + ?i) (clock s') then clock s' + ?i else ?d + ?i"
      have t: "rel b ?t < 2 ^ 31" "lateness b now (timeo_of ?t Lwip_cyclic_timer arg 0) < lateness b now (timeo_of ?d h arg 0)"
        by (rule cyclic_restart [OF iv d]; use a c in \<open>simp add: advanced_def\<close>)+
      have "timers_ok pools b s'" using a by (simp add: advanced_def)
      from sys_timeout_abs_safe [OF this t(1), of Lwip_cyclic_timer arg now] i t(2) a
      show "safe (if TIME_LESS_THAN (current_timeout_due_time s' + ?i) (clock s')
            then sys_timeout_abs pools (clock s' + ?i) Lwip_cyclic_timer arg s'
            else sys_timeout_abs pools (current_timeout_due_time s' + ?i) Lwip_cyclic_timer arg s')
          (\<lambda>s'. timers_ok pools b s' \<and> backlog b now s' < backlog b now s + lateness b now (timeo_of ?d h arg 0)
            \<and> rel b (clock s) \<le> rel b (clock s') \<and> rel b (clock s') \<le> rel b (clock s) + D)"
        by (auto simp: advanced_def split: if_splits elim!: safe_mono)
    qed
    then show ?thesis using Lwip_cyclic_timer by simp
  qed
qed

lemma check_loop_safe:
  fixes s :: "'a timers"
  assumes "timers_ok pools b s" and cb: "well_behaved cb D"
    and "rel b now \<le> rel b (clock s)" "rel b (clock s) + backlog b now s * D + 2 ^ 30 \<le> 2 ^ 31"
  shows "safe (check_loop cb pools now s) (\<lambda>s'. timers_ok pools b s'
     \<and> list_all (\<lambda>t. rel b now < due b t) (next_timeout s'))"
  using assms(1,3,4)
proof (induction "backlog b now s" arbitrary: s rule: less_induct)
  case less
  define s1 where "s1 = s\<lparr>world := check_free_ooseq cb (world s)\<rparr>"
  have ok: "timers_ok pools b s1" and s1: "clock s1 = clock s" "next_timeout s1 = next_timeout s" "backlog b now s1 = backlog b now s"
    using less.prems(1) by (auto simp: s1_def timers_ok_def timers_inv_def backlog_def)
  show ?case
  proof (cases "next_timeout s1")
    case Nil
    then show ?thesis using ok by (subst check_loop.simps) (simp add: s1_def [symmetric] Let_def)
  next
    case (Cons t ts)
    have srt: "due b t < 2 ^ 31" "\<forall>u\<in>set ts. due b t \<le> due b u" using ok Cons by (auto simp: timers_ok_def sorted_from_def)
    have now: "TIME_LESS_THAN now (timeo_time t) \<longleftrightarrow> rel b now < due b t"
      using less.prems srt by (intro time_less_than_rel) auto
    show ?thesis
    proof (cases "rel b now < due b t")
      case True
      then show ?thesis using ok Cons now srt
        by (subst check_loop.simps) (auto simp: s1_def [symmetric] Let_def list_all_iff)
    next
      case False
      let ?s = "\<lambda>m. s1\<lparr>next_timeout := ts, current_timeout_due_time := timeo_time t, timer_pool := m\<rparr>"
      obtain m where m: "memp_free pools MEMP_SYS_TIMEOUT (timeo_addr t) (timer_pool s1) = ret m" "memp_inv pools m"
        "\<forall>a. a \<in> set (map timeo_addr ts) \<longleftrightarrow> (MEMP_SYS_TIMEOUT, a) \<in> memp_live pools m"
        using memp_free_timeo [of pools "timer_pool s1" "timeo_addr t" "map timeo_addr ts"] ok Cons
        by (auto simp: timers_ok_def timers_inv_def)
      have ok2: "timers_ok pools b (?s m)" using ok Cons m by (simp add: timers_ok_def timers_inv_def sorted_from_def)
      have bl: "backlog b now s1 = lateness b now t + backlog b now (?s m)" by (simp add: backlog_def Cons)
      have lt: "lateness b now (timeo_of (timeo_time t) (timeo_h t) (timeo_arg t) 0) = lateness b now t" "0 < lateness b now t"
        using False by (auto simp: lateness_def timeo_of_def)
      have "D \<le> backlog b now s * D" using bl lt s1 by simp
      then have D: "rel b (clock (?s m)) + D + 2 ^ 30 \<le> 2 ^ 31"
      proof -
        assume "D \<le> backlog b now s * D"
        then have "rel b (clock s) + D + 2 ^ 30 \<le> 2 ^ 31" using less.prems(3) by linarith
        then show ?thesis by (simp add: s1_def)
      qed
      have ta: "timeo_h t = Lwip_cyclic_timer \<Longrightarrow> timeo_arg t < length lwip_cyclic_timers" using ok Cons by (simp add: timers_ok_def)
      have "safe (call_handler cb pools (timeo_h t) (timeo_arg t) (?s m)) (\<lambda>s'. timers_ok pools b s'
         \<and> backlog b now s' < backlog b now (?s m) + lateness b now (timeo_of (current_timeout_due_time (?s m)) (timeo_h t) (timeo_arg t) 0)
         \<and> rel b (clock (?s m)) \<le> rel b (clock s') \<and> rel b (clock s') \<le> rel b (clock (?s m)) + D)"
        using less.prems(2) s1(1) False by (intro call_handler_safe [OF ok2 cb _ D _ ta]) auto
      then have "safe (bind_run (call_handler cb pools (timeo_h t) (timeo_arg t) (?s m)) (check_loop cb pools now))
        (\<lambda>s'. timers_ok pools b s' \<and> list_all (\<lambda>t. rel b now < due b t) (next_timeout s'))"
      proof (rule safe_bind)
        fix s' :: "'a timers"
        assume a: "timers_ok pools b s'
         \<and> backlog b now s' < backlog b now (?s m) + lateness b now (timeo_of (current_timeout_due_time (?s m)) (timeo_h t) (timeo_arg t) 0)
         \<and> rel b (clock (?s m)) \<le> rel b (clock s') \<and> rel b (clock s') \<le> rel b (clock (?s m)) + D"
        then have "Suc (backlog b now s') * D \<le> backlog b now s * D" using bl lt s1 by (intro mult_le_mono1) simp
        with a show "safe (check_loop cb pools now s') (\<lambda>s'. timers_ok pools b s' \<and> list_all (\<lambda>t. rel b now < due b t) (next_timeout s'))"
          using less.prems s1 bl lt by (intro less.hyps) auto
      qed
      then show ?thesis using Cons now False m(1)
        by (subst check_loop.simps) (simp add: s1_def [symmetric] Let_def)
    qed
  qed
qed

subsection \<open>Initialisation, restart and sleep time\<close>

lemma sorted_from_rebase:
  assumes s: "sorted_from b (t # ts)" and u: "u \<in> set (t # ts)"
  shows "unat (timeo_time u - timeo_time t) = due b u - due b t"
proof -
  have "due b t \<le> due b u" using s u by (auto simp: sorted_from_def)
  moreover have "timeo_time u - timeo_time t = (timeo_time u - b) - (timeo_time t - b)" by simp
  ultimately show ?thesis by (simp only: rel_def unat_sub_u32 if_True)
qed

lemma init_loop:
  assumes "timers_ok pools b s" and "b = clock s" and "list_all (\<lambda>i. i < length lwip_cyclic_timers) is"
    and "length (next_timeout s) + length is \<le> timer_slots pools"
  shows "\<exists>s'. fold (\<lambda>i r. bind_run r (sys_timeout pools (lwip_cyclic_timers ! i) Lwip_cyclic_timer i)) is (ret s) = ret s'
    \<and> timers_ok pools b s' \<and> clock s' = clock s
    \<and> image_mset (\<lambda>t. (timeo_h t, timeo_arg t, due b t)) (mset (next_timeout s'))
      = image_mset (\<lambda>t. (timeo_h t, timeo_arg t, due b t)) (mset (next_timeout s))
        + image_mset (\<lambda>i. (Lwip_cyclic_timer, i, unat (lwip_cyclic_timers ! i))) (mset is)"
  using assms
proof (induction "is" arbitrary: s)
  case (Cons i "is")
  let ?t = "clock s + lwip_cyclic_timers ! i"
  have iv: "unat (lwip_cyclic_timers ! i) \<le> 60000" using cyclic_interval [of i] Cons.prems by simp
  have r: "rel b ?t = unat (lwip_cyclic_timers ! i)" using Cons.prems(2) by (simp add: rel_def)
  obtain a m where s1: "sys_timeout_abs pools ?t Lwip_cyclic_timer i s =
      ret (s\<lparr>timer_pool := m, next_timeout := insert_timeo (timeo_of ?t Lwip_cyclic_timer i a) (next_timeout s)\<rparr>)"
    using sys_timeout_abs_spec [of pools s ?t Lwip_cyclic_timer i] Cons.prems by (auto simp: timers_ok_def)
  let ?s = "s\<lparr>timer_pool := m, next_timeout := insert_timeo (timeo_of ?t Lwip_cyclic_timer i a) (next_timeout s)\<rparr>"
  have ok: "timers_ok pools b ?s"
    using sys_timeout_abs_safe [OF Cons.prems(1), of ?t Lwip_cyclic_timer i] Cons.prems(3) r iv s1 by (simp add: safe_def)
  have st: "sys_timeout pools (lwip_cyclic_timers ! i) Lwip_cyclic_timer i s = ret ?s"
    using iv s1 by (simp add: sys_timeout_def word_le_nat_alt unat_div)
  show ?case
    using Cons.IH [OF ok] Cons.prems st r by (simp add: set_insert_timeo mset_insert_timeo timeo_of_def)
qed simp

lemma timer_pools_ok: "pools_ok timer_pools"
proof -
  have "set (elements (timer_pools ! i)) \<subseteq> {1000 + 1000 * i..<2000 + 1000 * i}" if "i < 8" for i
    using that by (auto simp: timer_pools_def elements_def LWIP_MEM_ALIGN_def)
  then have "set (elements (timer_pools ! i)) \<inter> set (elements (timer_pools ! j)) = {}"
    if "i < 8" "j < 8" "i \<noteq> j" for i j
  proof -
    assume bound: "\<And>i. i < 8 \<Longrightarrow> set (elements (timer_pools ! i)) \<subseteq> {1000 + 1000 * i..<2000 + 1000 * i}"
    have "{1000 + 1000 * i..<2000 + 1000 * i} \<inter> {1000 + 1000 * j..<2000 + 1000 * j} = {}" using that(3) by auto
    with bound [OF that(1)] bound [OF that(2)] show ?thesis by blast
  qed
  then show ?thesis by (auto simp: pools_ok_def list_all_iff timer_pools_def)
qed

lemma fresh_timers_ok: "timers_ok timer_pools b fresh_timers"
proof -
  have "memp_live timer_pools (timer_pool fresh_timers) = {}" "memp_inv timer_pools (timer_pool fresh_timers)"
    by (simp_all add: fresh_timers_def memp_init_spec [OF timer_pools_ok])
  moreover have "length timer_pools = 8" by (simp add: timer_pools_def)
  ultimately show ?thesis
    by (simp add: timers_ok_def timers_inv_def timer_pools_ok sorted_from_def MEMP_SYS_TIMEOUT_def)
      (simp add: fresh_timers_def)
qed

lemma timer_pools_slots: "timer_slots timer_pools = 11"
  by (simp add: timer_slots_def timer_pools_def MEMP_SYS_TIMEOUT_def)

subsection \<open>The properties of the timers\<close>

text \<open>
  \<open>TIME_LESS_THAN\<close> compares times that wrap around: for two times less than \<open>2 ^ 31\<close> behind a
  common base it holds exactly when the first is nearer to the base.
\<close>

theorem TIME_LESS_THAN_correct:
  assumes "unat (t - b) < 2 ^ 31" and "unat (u - b) < 2 ^ 31"
  shows "TIME_LESS_THAN t u \<longleftrightarrow> unat (t - b) < unat (u - b)"
  using time_less_than_rel [of b t u] assms by (simp add: rel_def)

theorem TIME_LESS_THAN_correct_witness:
  "TIME_LESS_THAN 0xFFFFFFF0 5 \<and> unat (0xFFFFFFF0 - 0xFFFFFF00 :: u32) < unat (5 - 0xFFFFFF00 :: u32)"
  using TIME_LESS_THAN_correct [of "0xFFFFFFF0" "0xFFFFFF00" 5] by simp

text \<open>
  C35: \<open>sys_timeout\<close> with a struct left in the pool always returns. It inserts the timeout with the
  time \<open>now + msecs\<close> behind all timeouts that are due earlier or at the same time and before all
  that are due later, so that the list stays ordered across the wrap-around of the clock and
  timeouts that are due at the same time keep the order they were started in. The structs of the
  list stay the used elements of the pool.
\<close>

theorem sys_timeout_correct:
  assumes "timers_inv pools s" and "sorted_from b (next_timeout s)" and "length (next_timeout s) < timer_slots pools"
    and "msecs \<le> 0xFFFFFFFF div 4" and "rel b (clock s + msecs) < 2 ^ 31"
  shows "\<exists>a m. let x = \<lparr>timeo_addr = a, timeo_time = clock s + msecs, timeo_h = h, timeo_arg = arg\<rparr>;
        earlier = (\<lambda>t. rel b (timeo_time t) \<le> rel b (clock s + msecs));
        s' = s\<lparr>timer_pool := m, next_timeout := takeWhile earlier (next_timeout s) @ x # dropWhile earlier (next_timeout s)\<rparr>
      in sys_timeout pools msecs h arg s = ret s' \<and> timers_inv pools s' \<and> sorted_from b (next_timeout s')"
proof -
  obtain a m where "sys_timeout_abs pools (clock s + msecs) h arg s =
      ret (s\<lparr>timer_pool := m, next_timeout := insert_timeo (timeo_of (clock s + msecs) h arg a) (next_timeout s)\<rparr>)"
    "timers_inv pools (s\<lparr>timer_pool := m, next_timeout := insert_timeo (timeo_of (clock s + msecs) h arg a) (next_timeout s)\<rparr>)"
    using sys_timeout_abs_spec [OF assms(1), of "clock s + msecs" h arg] assms(3) by auto
  moreover note insert_timeo_sorted [OF assms(2), of "timeo_of (clock s + msecs) h arg a"]
    sorted_from_insert [OF assms(2), of "timeo_of (clock s + msecs) h arg a"]
  ultimately show ?thesis using assms(4,5)
    by (intro exI [of _ a] exI [of _ m]) (simp add: sys_timeout_def Let_def timeo_of_def)
qed

theorem sys_timeout_correct_witness:
  "\<exists>s'. sys_timeout timer_pools 1000 (App_handler 1) 2 fresh_timers = ret s' \<and> timers_inv timer_pools s'
     \<and> map timeo_time (next_timeout s') = [744]"
  using sys_timeout_correct [of timer_pools fresh_timers "0xFFFFFF00" 1000 "App_handler 1" 2] fresh_timers_ok [of "0xFFFFFF00"]
  by (auto simp: timers_ok_def timer_pools_slots Let_def) (auto simp: fresh_timers_def rel_def)

text \<open>
  \<open>sys_untimeout\<close> always returns; it takes the first timeout with this handler and argument out of
  the list and gives its struct back to the pool, and leaves all others as they are.
\<close>

theorem sys_untimeout_correct:
  assumes "timers_inv pools s"
  shows "\<exists>m. let other = (\<lambda>t. \<not> (timeo_h t = h \<and> timeo_arg t = arg));
        s' = s\<lparr>timer_pool := m, next_timeout := takeWhile other (next_timeout s) @ tl (dropWhile other (next_timeout s))\<rparr>
      in sys_untimeout pools h arg s = ret s' \<and> timers_inv pools s'"
proof -
  have "timeo_other h arg = (\<lambda>t. \<not> (timeo_h t = h \<and> timeo_arg t = arg))" by (auto simp: timeo_other_def)
  then show ?thesis using sys_untimeout_spec [OF assms, of h arg] by (simp only: Let_def)
qed

theorem sys_untimeout_correct_witness:
  "\<exists>m. sys_untimeout timer_pools (App_handler 1) 2 fresh_timers = ret (fresh_timers\<lparr>timer_pool := m\<rparr>)"
  using sys_untimeout_correct [of timer_pools fresh_timers "App_handler 1" 2] fresh_timers_ok [of 0]
  by (auto simp: timers_ok_def Let_def) (auto simp: fresh_timers_def)



text \<open>
  \<open>sys_timeouts_init\<close> on timers with enough structs starts each cyclic timer but that of TCP
  exactly once, due one interval from now.
\<close>

theorem sys_timeouts_init_correct:
  assumes "timers_inv pools s" and "next_timeout s = []" and "10 \<le> timer_slots pools"
  shows "\<exists>s'. sys_timeouts_init pools s = ret s' \<and> timers_ok pools (clock s) s'
    \<and> image_mset (\<lambda>t. (timeo_h t, timeo_arg t, unat (timeo_time t - clock s))) (mset (next_timeout s'))
      = mset (map (\<lambda>i. (Lwip_cyclic_timer, i, unat (lwip_cyclic_timers ! i))) [1..<11])"
proof -
  have l: "length lwip_cyclic_timers = 11" by (simp add: lwip_cyclic_timers_def)
  have "timers_ok pools (clock s) s" using assms by (simp add: timers_ok_def sorted_from_def)
  from init_loop [OF this refl, of "[1..<length lwip_cyclic_timers]"] show ?thesis
    using assms unfolding sys_timeouts_init_def l by (auto simp: list_all_iff rel_def)
qed

theorem sys_timeouts_init_correct_witness:
  "\<exists>s'. sys_timeouts_init timer_pools fresh_timers = ret s' \<and> timers_ok timer_pools 0xFFFFFF00 s'"
  using sys_timeouts_init_correct [of timer_pools fresh_timers] fresh_timers_ok [of 0]
  by (auto simp: timers_ok_def timer_pools_slots) (auto simp: fresh_timers_def)

text \<open>
  \<open>sys_timeouts_sleeptime\<close> never fails its assertion; it returns 0 when a timeout is overdue, and
  otherwise a time after which the first timeout is due and before which none is.
\<close>

theorem sys_timeouts_sleeptime_correct:
  assumes "sorted_from b (next_timeout s)" and "rel b (clock s) < 2 ^ 31" and "next_timeout s \<noteq> []"
  shows "\<exists>d. sys_timeouts_sleeptime s = ret d
    \<and> rel b (clock s) + unat d = max (rel b (clock s)) (rel b (timeo_time (hd (next_timeout s))))
    \<and> (\<forall>t\<in>set (next_timeout s). rel b (clock s) + unat d \<le> max (rel b (clock s)) (rel b (timeo_time t)))"
proof -
  obtain t ts where ts: "next_timeout s = t # ts" using assms(3) by (cases "next_timeout s") auto
  have w: "due b t < 2 ^ 31" "\<forall>u\<in>set ts. due b t \<le> due b u" using assms(1) ts by (auto simp: sorted_from_def)
  have l: "TIME_LESS_THAN (timeo_time t) (clock s) \<longleftrightarrow> due b t < rel b (clock s)"
    using w assms(2) by (intro time_less_than_rel)
  have d: "unat (timeo_time t - clock s) = due b t - rel b (clock s)" if "\<not> due b t < rel b (clock s)"
  proof -
    have "timeo_time t - clock s = (timeo_time t - b) - (clock s - b)" by simp
    then show ?thesis using that by (simp only: rel_def unat_sub_u32) simp
  qed
  show ?thesis
  proof (cases "due b t < rel b (clock s)")
    case True
    then show ?thesis using l ts w by (auto simp: sys_timeouts_sleeptime_def)
  next
    case False
    then have "timeo_time t - clock s \<le> LWIP_MAX_TIMEOUT"
      using d w by (simp add: word_le_nat_alt LWIP_MAX_TIMEOUT_def)
    then show ?thesis using False l ts w d by (auto simp: sys_timeouts_sleeptime_def Let_def max_def)
  qed
qed

theorem sys_timeouts_sleeptime_correct_witness:
  "\<exists>d. sys_timeouts_sleeptime (fresh_timers\<lparr>next_timeout := [\<lparr>timeo_addr = 8000, timeo_time = 4, timeo_h = Tcpip_tcp_timer, timeo_arg = 0\<rparr>]\<rparr>)
     = ret d \<and> unat d = 260"
  using sys_timeouts_sleeptime_correct [of "0xFFFFFF00"
      "fresh_timers\<lparr>next_timeout := [\<lparr>timeo_addr = 8000, timeo_time = 4, timeo_h = Tcpip_tcp_timer, timeo_arg = 0\<rparr>]\<rparr>"]
  by (auto simp: sorted_from_def rel_def) (auto simp: fresh_timers_def)

lemma restart_rebase:
  assumes "sorted_from b (next_timeout s)"
  shows "sorted_from (clock s) (next_timeout (sys_restart_timeouts s))"
    and "map (\<lambda>t. rel (clock s) (timeo_time t)) (next_timeout (sys_restart_timeouts s))
       = map (\<lambda>t. rel b (timeo_time t) - rel b (timeo_time (hd (next_timeout s)))) (next_timeout s)"
proof -
  show dist: "map (\<lambda>t. rel (clock s) (timeo_time t)) (next_timeout (sys_restart_timeouts s))
       = map (\<lambda>t. rel b (timeo_time t) - rel b (timeo_time (hd (next_timeout s)))) (next_timeout s)"
  proof (cases "next_timeout s")
    case (Cons t ts)
    then show ?thesis using sorted_from_rebase [of b t ts] assms
      by (simp add: sys_restart_timeouts_def Let_def rel_def)
  qed (simp add: sys_restart_timeouts_def)
  have "sorted (map (\<lambda>t. due b t - d) ts)" if "sorted (map (due b) ts)" for ts d
    using that by (induction ts) (auto intro: diff_le_mono)
  moreover have "list_all (\<lambda>n. n < 2 ^ 31) (map (\<lambda>t. due b t - d) (next_timeout s))" for d
    using assms by (auto simp: sorted_from_def list_all_iff)
  ultimately have "list_all (\<lambda>n. n < 2 ^ 31) (map (due (clock s)) (next_timeout (sys_restart_timeouts s)))"
    "sorted (map (due (clock s)) (next_timeout (sys_restart_timeouts s)))"
    using assms unfolding dist by (auto simp: sorted_from_def)
  then show "sorted_from (clock s) (next_timeout (sys_restart_timeouts s))"
    by (simp add: sorted_from_def list_all_iff)
qed

text \<open>
  \<open>sys_restart_timeouts\<close> makes the first timeout due now, keeps the distances between all
  timeouts and so the order of the list.
\<close>

theorem sys_restart_timeouts_correct:
  assumes "sorted_from b (next_timeout s)"
  shows "sorted_from (clock s) (next_timeout (sys_restart_timeouts s))
    \<and> map (\<lambda>t. rel (clock s) (timeo_time t)) (next_timeout (sys_restart_timeouts s))
       = map (\<lambda>t. rel b (timeo_time t) - rel b (timeo_time (hd (next_timeout s)))) (next_timeout s)"
  using restart_rebase [OF assms] by blast

theorem sys_restart_timeouts_correct_witness:
  "map timeo_time (next_timeout (sys_restart_timeouts (fresh_timers\<lparr>clock := 50, next_timeout :=
     [\<lparr>timeo_addr = 8000, timeo_time = 4, timeo_h = Tcpip_tcp_timer, timeo_arg = 0\<rparr>]\<rparr>))) = [50]
   \<and> sorted_from 50 (next_timeout (sys_restart_timeouts (fresh_timers\<lparr>clock := 50, next_timeout :=
     [\<lparr>timeo_addr = 8000, timeo_time = 4, timeo_h = Tcpip_tcp_timer, timeo_arg = 0\<rparr>]\<rparr>)))"
  using sys_restart_timeouts_correct [of 0 "fresh_timers\<lparr>clock := 50, next_timeout :=
     [\<lparr>timeo_addr = 8000, timeo_time = 4, timeo_h = Tcpip_tcp_timer, timeo_arg = 0\<rparr>]\<rparr>"]
  by (simp add: sorted_from_def rel_def) (simp add: sys_restart_timeouts_def)

end
