(* ===== verification/Def.thy ===== *)
theory Def
  imports Lwip_Prelude
begin

text \<open>
  The helpers of \<open>core/def.c\<close>: byte order conversion (this build is little endian), the string
  functions \<open>lwip_strnstr\<close>, \<open>lwip_stricmp\<close>, \<open>lwip_strnicmp\<close>, and \<open>lwip_itoa\<close>.
  A \<open>char *\<close> is the list of the bytes that are readable from the pointer on; \<open>cstr s\<close> is the
  zero terminated string \<open>s\<close>. Reading past the end of the list is the fault \<open>Wild_pointer\<close>.
\<close>

subsection \<open>Byte order\<close>

definition PP_HTONS :: "u16 \<Rightarrow> u16" where
  "PP_HTONS x = push_bit 8 (x AND 0x00ff) OR drop_bit 8 (x AND 0xff00)"

definition PP_HTONL :: "u32 \<Rightarrow> u32" where
  "PP_HTONL x = push_bit 24 (x AND 0x000000ff) OR push_bit 8 (x AND 0x0000ff00)
     OR drop_bit 8 (x AND 0x00ff0000) OR drop_bit 24 (x AND 0xff000000)"

definition lwip_htons :: "u16 \<Rightarrow> u16" where
  "lwip_htons n = PP_HTONS n"

definition lwip_htonl :: "u32 \<Rightarrow> u32" where
  "lwip_htonl n = PP_HTONL n"

subsection \<open>Strings\<close>

definition cstr :: "u8 list \<Rightarrow> u8 list" where
  "cstr s = s @ [0]"

definition cstr_ok :: "u8 list \<Rightarrow> bool" where
  "cstr_ok s \<longleftrightarrow> 0 \<notin> set s"

text \<open>\<open>strlen\<close> and \<open>strncmp(a, b, n) == 0\<close> of the C library.\<close>

fun strlen :: "u8 list \<Rightarrow> nat res" where
  "strlen [] = Inl Wild_pointer"
| "strlen (c # s) = (if c = 0 then Inr 0 else bind_res (strlen s) (\<lambda>n. Inr (Suc n)))"

fun strncmp_eq :: "u8 list \<Rightarrow> u8 list \<Rightarrow> nat \<Rightarrow> bool res" where
  "strncmp_eq a b 0 = Inr True"
| "strncmp_eq (x # a) (y # b) (Suc n) =
     (if x \<noteq> y then Inr False else if x = 0 then Inr True else strncmp_eq a b n)"
| "strncmp_eq a b (Suc n) = Inl Wild_pointer"

text \<open>The loop of \<open>lwip_strnstr\<close>: \<open>p\<close> is \<open>buffer + i\<close>; the result is the offset of the match.\<close>

fun strnstr_loop :: "u8 list \<Rightarrow> u8 list \<Rightarrow> nat \<Rightarrow> nat \<Rightarrow> nat \<Rightarrow> nat option res" where
  "strnstr_loop [] token tokenlen n i = Inl Wild_pointer"
| "strnstr_loop (c # p) token tokenlen n i =
     (if c \<noteq> 0 \<and> i + tokenlen \<le> n then
        (case token of [] \<Rightarrow> Inl Wild_pointer
         | t # _ \<Rightarrow>
            if c = t then
              bind_res (strncmp_eq (c # p) token tokenlen)
                (\<lambda>eq. if eq then Inr (Some i) else strnstr_loop p token tokenlen n (Suc i))
            else strnstr_loop p token tokenlen n (Suc i))
      else Inr None)"

definition lwip_strnstr :: "u8 list \<Rightarrow> u8 list \<Rightarrow> nat \<Rightarrow> nat option res" where
  "lwip_strnstr buffer token n =
     bind_res (strlen token) (\<lambda>tokenlen.
       if tokenlen = 0 then Inr (Some 0) else strnstr_loop buffer token tokenlen n 0)"

text \<open>
  The body of the comparison loop that \<open>lwip_stricmp\<close> and \<open>lwip_strnicmp\<close> share: \<open>False\<close> is
  \<open>return 1\<close>. The range test on \<open>c | 0x20\<close> has the same outcome for a signed and an unsigned
  \<open>char\<close>: a byte from 0x80 on is in neither reading a letter.
\<close>

definition char_match :: "u8 \<Rightarrow> u8 \<Rightarrow> bool" where
  "char_match c1 c2 =
     (if c1 \<noteq> c2 then
        let c1_upc = c1 OR 0x20 in
        if 97 \<le> c1_upc \<and> c1_upc \<le> 122 then
          let c2_upc = c2 OR 0x20 in c1_upc = c2_upc
        else False
      else True)"

fun lwip_stricmp :: "u8 list \<Rightarrow> u8 list \<Rightarrow> int res" where
  "lwip_stricmp (c1 # str1) (c2 # str2) =
     (if \<not> char_match c1 c2 then Inr 1
      else if c1 \<noteq> 0 then lwip_stricmp str1 str2 else Inr 0)"
| "lwip_stricmp str1 str2 = Inl Wild_pointer"

text \<open>\<open>len\<close> is a \<open>size_t\<close> of 32 bits, which \<open>len--\<close> wraps at 0.\<close>

fun lwip_strnicmp :: "u8 list \<Rightarrow> u8 list \<Rightarrow> u32 \<Rightarrow> int res" where
  "lwip_strnicmp (c1 # str1) (c2 # str2) len =
     (if \<not> char_match c1 c2 then Inr 1
      else let len = len - 1 in
        if len \<noteq> 0 \<and> c1 \<noteq> 0 then lwip_strnicmp str1 str2 len else Inr 0)"
| "lwip_strnicmp str1 str2 len = Inl Wild_pointer"

subsection \<open>Integers to text\<close>

text \<open>The digit loop of \<open>lwip_itoa\<close>: \<open>res\<close> and \<open>tmp\<close> are offsets into the buffer.\<close>

function itoa_loop :: "nat \<Rightarrow> nat \<Rightarrow> nat \<Rightarrow> u8 list \<Rightarrow> nat \<times> nat \<times> u8 list" where
  "itoa_loop res tmp n buf =
     (if n \<noteq> 0 \<and> tmp > res then
        let val = of_nat (48 + n mod 10); tmp = tmp - 1 in
        itoa_loop res tmp (n div 10) (buf[tmp := val])
      else (tmp, n, buf))"
  by pat_completeness auto
termination
  by (relation "measure (\<lambda>(res, tmp, n, buf). tmp)") auto

declare itoa_loop.simps [simp del]

text \<open>
  \<open>lwip_itoa(result, bufsize, number)\<close>, with \<open>bufsize = length buf\<close>; the result is the buffer
  afterwards. \<open>-number\<close> overflows for the least \<open>int\<close>.
\<close>

definition lwip_itoa :: "u8 list \<Rightarrow> int \<Rightarrow> u8 list res" where
  "lwip_itoa buf number =
     (let bufsize = length buf in
      if number = - (2 ^ 31) then Inl Int_overflow
      else let n = nat (if number \<ge> 0 then number else - number) in
      if bufsize < 2 then (if bufsize = 1 then Inr (buf[0 := 0]) else Inr buf)
      else
        let (res, buf) = (if number < 0 then (1, buf[0 := 45]) else (0, buf));
            tmp = bufsize - 1;
            buf = buf[tmp := 0];
            (tmp, n, buf) = itoa_loop res tmp n buf
        in if n \<noteq> 0 then Inr (buf[0 := 0])
           else if buf ! tmp = 0 then Inr (buf[res := 48, Suc res := 0])
           else Inr (memmove_within buf res tmp (bufsize - tmp)))"

text \<open>What a reader of the buffer sees: the bytes up to the first zero.\<close>

definition c_string :: "u8 list \<Rightarrow> u8 list" where
  "c_string buf = takeWhile (\<lambda>c. c \<noteq> 0) buf"

text \<open>The decimal notation of a number, the specification of \<open>lwip_itoa\<close>.\<close>

fun dec_digits :: "nat \<Rightarrow> u8 list" where
  "dec_digits n = (if n < 10 then [of_nat (48 + n)] else dec_digits (n div 10) @ [of_nat (48 + n mod 10)])"

declare dec_digits.simps [simp del]

definition decimal :: "int \<Rightarrow> u8 list" where
  "decimal i = (if i < 0 then 45 # dec_digits (nat (- i)) else dec_digits (nat i))"

text \<open>ASCII lower case, the specification of the case insensitive comparison.\<close>

definition ascii_lower :: "u8 \<Rightarrow> u8" where
  "ascii_lower c = (if 65 \<le> c \<and> c \<le> 90 then c + 32 else c)"

text \<open>The significant digits of a number: none for 0, which \<open>lwip_itoa\<close> treats apart.\<close>

definition sig_digits :: "nat \<Rightarrow> u8 list" where
  "sig_digits n = (if n = 0 then [] else dec_digits n)"

subsection \<open>Byte order is an involution\<close>

lemma byte_masks_u32:
  "(0x000000ff :: u32) = mask 8" "(0x0000ff00 :: u32) = push_bit 8 (mask 8)"
  "(0x00ff0000 :: u32) = push_bit 16 (mask 8)" "(0xff000000 :: u32) = push_bit 24 (mask 8)"
  by (simp_all add: mask_eq_exp_minus_1 push_bit_eq_mult)

lemma byte_masks_u16: "(0x00ff :: u16) = mask 8" "(0xff00 :: u16) = push_bit 8 (mask 8)"
  by (simp_all add: mask_eq_exp_minus_1 push_bit_eq_mult)

lemma lwip_htons_htons: "lwip_htons (lwip_htons n) = n"
  unfolding lwip_htons_def PP_HTONS_def byte_masks_u16
  by (rule bit_word_eqI) (auto simp: bit_simps)

lemma bit_lwip_htonl: "bit (lwip_htonl n) i \<longleftrightarrow> i < 32 \<and> bit n (8 * (3 - i div 8) + i mod 8)"
proof (cases "i < 32")
  case True
  note unfold = lwip_htonl_def PP_HTONL_def byte_masks_u32 bit_simps
  from True consider "i < 8" | "8 \<le> i" "i < 16" | "16 \<le> i" "i < 24" | "24 \<le> i" "i < 32"
    by linarith
  then show ?thesis
  proof cases
    case 1
    then show ?thesis by (auto simp: unfold add.commute)
  next
    case 2
    then have "i div 8 = 1" "i mod 8 = i - 8" by (simp_all add: div_nat_eqI mod_nat_eqI)
    with 2 show ?thesis by (auto simp: unfold)
  next
    case 3
    then have "i div 8 = 2" "i mod 8 = i - 16" by (simp_all add: div_nat_eqI mod_nat_eqI)
    with 3 show ?thesis by (auto simp: unfold)
  next
    case 4
    then have "i div 8 = 3" "i mod 8 = i - 24" by (simp_all add: div_nat_eqI mod_nat_eqI)
    with 4 show ?thesis by (auto simp: unfold)
  qed
next
  case False
  then show ?thesis using bit_imp_le_length [of "lwip_htonl n" i] by auto
qed

lemma lwip_htonl_htonl: "lwip_htonl (lwip_htonl n) = n"
proof (rule bit_word_eqI)
  fix i assume "i < LENGTH(32)"
  then have "8 * (3 - (8 * (3 - i div 8) + i mod 8) div 8) + (8 * (3 - i div 8) + i mod 8) mod 8 = i"
    and "8 * (3 - i div 8) + i mod 8 < 32" and "i < 32"
    by auto
  then show "bit (lwip_htonl (lwip_htonl n)) i \<longleftrightarrow> bit n i"
    by (simp add: bit_lwip_htonl)
qed

subsection \<open>The string functions\<close>

lemma u8_exhaust:
  assumes "\<forall>n\<in>set [0..<256]. P (of_nat n :: u8)"
  shows "P c"
proof -
  have "unat c \<in> set [0..<256]" by simp
  with assms have "P (of_nat (unat c))" by blast
  then show ?thesis by simp
qed

lemma letter_lower: "97 \<le> (c :: u8) OR 0x20 \<and> c OR 0x20 \<le> 122 \<longrightarrow> ascii_lower c = c OR 0x20"
  by (rule u8_exhaust [of "\<lambda>c. 97 \<le> c OR 0x20 \<and> c OR 0x20 \<le> 122 \<longrightarrow> ascii_lower c = c OR 0x20"]) code_simp

lemma nonletter_lower: "\<not> (97 \<le> (c :: u8) OR 0x20 \<and> c OR 0x20 \<le> 122) \<longrightarrow>
    ascii_lower c = c \<and> \<not> (97 \<le> ascii_lower c \<and> ascii_lower c \<le> 122)"
  by (rule u8_exhaust [of "\<lambda>c. \<not> (97 \<le> c OR 0x20 \<and> c OR 0x20 \<le> 122) \<longrightarrow>
    ascii_lower c = c \<and> \<not> (97 \<le> ascii_lower c \<and> ascii_lower c \<le> 122)"]) code_simp

lemma ascii_lower_eq_0 [simp]: "ascii_lower c = 0 \<longleftrightarrow> c = 0"
  by (rule u8_exhaust [of "\<lambda>c. ascii_lower c = 0 \<longleftrightarrow> c = 0"]) code_simp

lemma ascii_lower_0 [simp]: "ascii_lower 0 = 0" "0 = ascii_lower c \<longleftrightarrow> c = 0"
  by (simp, metis ascii_lower_eq_0)

lemma char_match_iff: "char_match c1 c2 \<longleftrightarrow> ascii_lower c1 = ascii_lower c2"
  unfolding char_match_def Let_def by (metis letter_lower nonletter_lower)

lemma strlen_cstr: "cstr_ok s \<Longrightarrow> strlen (cstr s) = Inr (length s)"
  by (induction s) (auto simp: cstr_def cstr_ok_def)

lemma strncmp_eq_token:
  "cstr_ok b \<Longrightarrow> cstr_ok t \<Longrightarrow>
   strncmp_eq (cstr b) (cstr t) (length t) = Inr (take (length t) b = t)"
proof (induction t arbitrary: b)
  case Nil
  then show ?case by simp
next
  case (Cons x t)
  then show ?case by (cases b) (auto simp: cstr_def cstr_ok_def)
qed

lemma find_none_beyond:
  "n < i + k \<Longrightarrow> find (\<lambda>j. j + k \<le> n \<and> P j) [i..<m] = (None :: nat option)"
  by (auto simp: find_None_iff)

lemma strnstr_loop_correct:
  assumes "cstr_ok t" and "t \<noteq> []"
  shows "cstr_ok b \<Longrightarrow> strnstr_loop (cstr b) (cstr t) (length t) n i =
    Inr (find (\<lambda>j. j + length t \<le> n \<and> take (length t) (drop (j - i) b) = t) [i..<i + Suc (length b)])"
proof (induction b arbitrary: i)
  case Nil
  with assms show ?case by (cases t) (auto simp: cstr_def)
next
  case (Cons c b)
  show ?case
  proof (cases "i + length t \<le> n")
    case False
    with Cons.prems show ?thesis by (simp add: cstr_def find_none_beyond del: upt_Suc)
  next
    case True
    obtain x t' where t: "t = x # t'" using assms by (cases t) auto
    have "cstr_ok b" "c \<noteq> 0" using Cons.prems by (auto simp: cstr_ok_def)
    have rest: "find (\<lambda>j. j + length t \<le> n \<and> take (length t) (drop (j - i) (c # b)) = t) [Suc i..<i + Suc (length (c # b))] =
       find (\<lambda>j. j + length t \<le> n \<and> take (length t) (drop (j - Suc i) b) = t) [Suc i..<Suc i + Suc (length b)]"
      by (rule find_cong) (auto simp: Suc_le_eq drop_Cons' )
    have "[i..<i + Suc (length (c # b))] = i # [Suc i..<i + Suc (length (c # b))]"
      by (simp add: upt_conv_Cons del: upt_Suc)
    with rest True Cons.IH [OF \<open>cstr_ok b\<close>, of "Suc i"] strncmp_eq_token [OF Cons.prems assms(1)] \<open>c \<noteq> 0\<close>
    show ?thesis
      by (simp add: cstr_def t del: upt_Suc split: if_splits) 
  qed
qed

lemma strnstr_correct:
  assumes "cstr_ok b" "cstr_ok t"
  shows "lwip_strnstr (cstr b) (cstr t) n =
    Inr (find (\<lambda>i. t = [] \<or> (i + length t \<le> n \<and> take (length t) (drop i b) = t)) [0..<Suc (length b)])"
  using assms strnstr_loop_correct [of t b n 0]
  by (cases "t = []") (simp_all add: lwip_strnstr_def strlen_cstr upt_conv_Cons del: upt_Suc)

lemma stricmp_correct:
  "cstr_ok s1 \<Longrightarrow> cstr_ok s2 \<Longrightarrow>
   lwip_stricmp (cstr s1) (cstr s2) = Inr (if map ascii_lower s1 = map ascii_lower s2 then 0 else 1)"
proof (induction s1 arbitrary: s2)
  case Nil
  then show ?case by (cases s2) (auto simp: cstr_def cstr_ok_def char_match_iff)
next
  case (Cons c s1)
  then show ?case by (cases s2) (auto simp: cstr_def cstr_ok_def char_match_iff)
qed

lemma strnicmp_correct:
  "cstr_ok s1 \<Longrightarrow> cstr_ok s2 \<Longrightarrow> 0 < len \<Longrightarrow>
   lwip_strnicmp (cstr s1) (cstr s2) len =
     Inr (if map ascii_lower (take (unat len) s1) = map ascii_lower (take (unat len) s2) then 0 else 1)"
proof (induction s1 arbitrary: s2 len)
  case Nil
  then show ?case by (cases s2) (auto simp: cstr_def cstr_ok_def char_match_iff Let_def word_gt_0 unat_eq_zero)
next
  case (Cons c s1)
  have pos: "unat len \<noteq> 0" using Cons.prems by (simp add: unat_eq_0 word_gt_0)
  then have eq: "unat len = Suc (unat (len - 1))"
    using Cons.prems(3) by (simp add: unat_sub_if' word_gt_0)
  show ?case
  proof (cases s2)
    case Nil
    with Cons.prems pos show ?thesis by (cases "unat len") (auto simp: cstr_def cstr_ok_def char_match_iff)
  next
    case (Cons c2 s2')
    show ?thesis
    proof (cases "len - 1 = 0")
      case True
      with eq Cons show ?thesis by (simp add: cstr_def char_match_iff)
    next
      case False
      with Cons.IH [of s2' "len - 1"] Cons.prems eq Cons show ?thesis
        by (simp add: cstr_def cstr_ok_def char_match_iff word_gt_0)
    qed
  qed
qed

subsection \<open>The decimal notation\<close>

lemma sig_digits_rec:
  "n \<noteq> 0 \<Longrightarrow> sig_digits n = sig_digits (n div 10) @ [of_nat (48 + n mod 10)]"
  by (cases "n < 10") (auto simp: sig_digits_def dec_digits.simps [of n])

lemma sig_digits_0 [simp]: "sig_digits 0 = []"
  by (simp add: sig_digits_def)

lemma digit_nonzero: "(of_nat (48 + n mod 10) :: u8) \<noteq> 0"
proof -
  have "48 + n mod 10 < 256" by presburger
  then have "unat (of_nat (48 + n mod 10) :: u8) = 48 + n mod 10"
    by (simp only: unat_of_nat) simp
  then show ?thesis by (metis add_is_0 unat_0 zero_neq_numeral)
qed

lemma sig_digits_nonzero: "0 \<notin> set (sig_digits n)"
proof (induction n rule: less_induct)
  case (less n)
  show ?case
  proof (cases "n = 0")
    case False
    then have "0 \<notin> set (sig_digits (n div 10))" by (intro less) simp
    with False digit_nonzero [of n] show ?thesis by (simp add: sig_digits_rec)
  qed simp
qed

lemma itoa_loop_fits:
  "tmp < length buf \<Longrightarrow> res + length (sig_digits n) \<le> tmp \<Longrightarrow>
   itoa_loop res tmp n buf =
     (tmp - length (sig_digits n), 0,
      take (tmp - length (sig_digits n)) buf @ sig_digits n @ drop tmp buf)"
proof (induction res tmp n buf rule: itoa_loop.induct)
  case (1 res tmp n buf)
  show ?case
  proof (cases "n = 0")
    case True
    then show ?thesis by (simp add: itoa_loop.simps)
  next
    case False
    let ?v = "of_nat (48 + n mod 10) :: u8" and ?d = "sig_digits (n div 10)"
    have rec: "sig_digits n = ?d @ [?v]" using False by (rule sig_digits_rec)
    with "1.prems" have pos: "tmp > res" "res + length ?d \<le> tmp - 1" by auto
    with False "1.prems" have "itoa_loop res (tmp - 1) (n div 10) (buf[tmp - 1 := ?v]) =
       (tmp - 1 - length ?d, 0, take (tmp - 1 - length ?d) (buf[tmp - 1 := ?v]) @ ?d @ drop (tmp - 1) (buf[tmp - 1 := ?v]))"
      by (intro "1.IH") auto
    moreover have "drop (tmp - 1) (buf[tmp - 1 := ?v]) = ?v # drop tmp buf"
      using pos "1.prems" by (simp add: Cons_nth_drop_Suc [symmetric])
    ultimately show ?thesis
      using False pos rec by (simp add: itoa_loop.simps [of res tmp n] Let_def)
  qed
qed

lemma itoa_loop_full:
  "tmp < length buf \<Longrightarrow> res \<le> tmp \<Longrightarrow> tmp < res + length (sig_digits n) \<Longrightarrow>
   \<exists>n' buf'. itoa_loop res tmp n buf = (res, n', buf') \<and> n' \<noteq> 0 \<and> length buf' = length buf"
proof (induction res tmp n buf rule: itoa_loop.induct)
  case (1 res tmp n buf)
  have n: "n \<noteq> 0" using "1.prems" by (cases "n = 0") auto
  show ?case
  proof (cases "res < tmp")
    case True
    with n "1.prems" have "\<exists>n' buf'. itoa_loop res (tmp - 1) (n div 10) (buf[tmp - 1 := of_nat (48 + n mod 10)]) =
        (res, n', buf') \<and> n' \<noteq> 0 \<and> length buf' = length (buf[tmp - 1 := of_nat (48 + n mod 10)])"
      by (intro "1.IH") (auto simp: sig_digits_rec [OF n])
    with True n show ?thesis by (simp add: itoa_loop.simps [of res tmp n] Let_def)
  next
    case False
    with n "1.prems" show ?thesis by (simp add: itoa_loop.simps)
  qed
qed

lemma decimal_alt:
  "decimal i = (if i < 0 then 45 # sig_digits (nat (- i)) else if i = 0 then [48] else sig_digits (nat i))"
  by (auto simp: decimal_def sig_digits_def dec_digits.simps [of 0])

lemma itoa_nonzero:
  assumes "- (2 ^ 31) < number" and "2 \<le> length buf" and "number \<noteq> 0"
  shows "\<exists>buf'. lwip_itoa buf number = Inr buf' \<and> length buf' = length buf \<and>
    c_string buf' = (if length (decimal number) < length buf then decimal number else [])"
proof -
  define r :: nat where "r = (if number < 0 then 1 else 0)"
  define sg :: "u8 list" where "sg = (if number < 0 then [45] else [])"
  define m where "m = nat (if number \<ge> 0 then number else - number)"
  define b where "b = (if number < 0 then buf[0 := 45] else buf)[length buf - 1 := 0]"
  have m: "m \<noteq> 0" "decimal number = sg @ sig_digits m"
    using assms by (auto simp: m_def decimal_alt sg_def)
  have b: "length b = length buf" "take r b = sg" "drop (length buf - 1) b = [0]" "r = length sg"
    using assms(2) by (cases buf; cases "tl buf" rule: rev_cases; auto simp: b_def r_def sg_def list_update_append)+
  have eq: "lwip_itoa buf number =
    (let (tmp, n, b') = itoa_loop r (length buf - 1) m b in
     if n \<noteq> 0 then Inr (b'[0 := 0]) else if b' ! tmp = 0 then Inr (b'[r := 48, Suc r := 0])
     else Inr (memmove_within b' r tmp (length buf - tmp)))"
    using assms by (cases "number < 0") (simp_all add: lwip_itoa_def r_def m_def b_def Let_def split: prod.split)
  show ?thesis
  proof (cases "length (decimal number) < length buf")
    case True
    let ?d = "sig_digits m" and ?t = "length buf - 1 - length (sig_digits m)"
    have loop: "itoa_loop r (length buf - 1) m b = (?t, 0, take ?t b @ ?d @ [0])"
      using True m b assms itoa_loop_fits [of "length buf - 1" b r m] by auto
    have len: "r + length ?d + 1 \<le> length buf" "?t + length ?d + 1 = length buf" using True m b by auto
    then have rt: "r \<le> ?t" "?t \<le> length b" using b by auto
    have nz: "(take ?t b @ ?d @ [0]) ! ?t \<noteq> 0"
      using sig_digits_nonzero [of m] m b len by (cases ?d) (auto simp: nth_append sig_digits_rec)
    have "memmove_within (take ?t b @ ?d @ [0]) r ?t (length buf - ?t) = sg @ ?d @ [0] @ drop (r + length ?d + 1) (take ?t b @ ?d @ [0])"
      using len b rt by (simp add: memmove_within_def min_absorb1 min_absorb2)
    moreover have "0 \<notin> set (sg @ ?d)" using sig_digits_nonzero by (auto simp: sg_def)
    ultimately have "c_string (memmove_within (take ?t b @ ?d @ [0]) r ?t (length buf - ?t)) = decimal number"
      using m(2) by (simp add: c_string_def takeWhile_append2 takeWhile_neq_append_stop [of 0 "sg @ ?d", simplified])
    moreover have "length (memmove_within (take ?t b @ ?d @ [0]) r ?t (length buf - ?t)) = length buf"
      using len b by (subst length_memmove_within) auto
    ultimately show ?thesis using loop nz True by (simp add: eq)
  next
    case False
    then have "\<exists>n' b'. itoa_loop r (length buf - 1) m b = (r, n', b') \<and> n' \<noteq> 0 \<and> length b' = length b"
      using m b assms by (intro itoa_loop_full) (auto simp: sg_def)
    then obtain n' b' where "itoa_loop r (length buf - 1) m b = (r, n', b')" "n' \<noteq> 0" "length b' = length b" by blast
    then show ?thesis using False b assms(2) by (cases b') (auto simp: eq c_string_def)
  qed
qed

lemma itoa_correct:
  assumes "- (2 ^ 31) < number" and "buf \<noteq> []"
  shows "\<exists>buf'. lwip_itoa buf number = Inr buf' \<and> length buf' = length buf \<and>
    c_string buf' = (if length (decimal number) < length buf then decimal number else [])"
proof -
  have "0 < length buf" using assms by simp
  then consider (tiny) "length buf = 1" | (zero) "2 \<le> length buf" "number = 0"
    | (other) "2 \<le> length buf" "number \<noteq> 0" by linarith
  then show ?thesis
  proof cases
    case tiny
    then obtain x where "buf = [x]" by (auto simp: length_Suc_conv)
    with assms show ?thesis
      by (auto simp: lwip_itoa_def c_string_def decimal_def dec_digits.simps)
  next
    case zero
    then obtain x y zs where "buf = x # y # zs" by (auto simp: numeral_2_eq_2 Suc_le_length_iff)
    with zero show ?thesis
      by (cases zs rule: rev_cases)
        (auto simp: lwip_itoa_def Let_def itoa_loop.simps c_string_def decimal_alt list_update_append)
  next
    case other
    show ?thesis using assms(1) other by (rule itoa_nonzero)
  qed
qed

subsection \<open>The properties of the helpers\<close>

text \<open>
  \<open>lwip_htonl\<close> reverses the order of the four bytes, bit by bit, and is its own inverse, as is
  \<open>lwip_htons\<close>: converting to network byte order and back loses nothing.
\<close>

theorem lwip_byte_order_roundtrip:
  "(bit (lwip_htonl n) i \<longleftrightarrow> i < 32 \<and> bit n (8 * (3 - i div 8) + i mod 8))
   \<and> lwip_htonl (lwip_htonl n) = n \<and> lwip_htons (lwip_htons m) = m"
  by (simp add: bit_lwip_htonl [of n i] lwip_htonl_htonl lwip_htons_htons)

text \<open>
  on zero terminated strings \<open>lwip_strnstr\<close> never reads beyond them and returns the first place
  where the token occurs with its end within the first \<open>n\<close> bytes, or \<open>NULL\<close> if there is none; an
  empty token is found at once.
\<close>

theorem lwip_strnstr_correct:
  assumes "cstr_ok b" "cstr_ok t"
  shows "lwip_strnstr (cstr b) (cstr t) n =
    Inr (find (\<lambda>i. t = [] \<or> (i + length t \<le> n \<and> take (length t) (drop i b) = t)) [0..<Suc (length b)])"
  by (rule strnstr_correct [OF assms])

theorem lwip_strnstr_correct_witness:
  "lwip_strnstr (cstr [97, 98, 97, 99]) (cstr [97, 99]) 4 = Inr (Some 2)
   \<and> lwip_strnstr (cstr [97, 98, 97, 99]) (cstr [97, 99]) 3 = Inr None"
  using lwip_strnstr_correct [of "[97, 98, 97, 99]" "[97, 99]" 4] lwip_strnstr_correct [of "[97, 98, 97, 99]" "[97, 99]" 3]
  by (simp add: cstr_ok_def upt_conv_Cons)

text \<open>
  \<open>lwip_stricmp\<close>, and \<open>lwip_strnicmp\<close> with a positive length, never read beyond zero terminated
  strings and return 0 exactly for strings that are equal up to the case of ASCII letters (within
  the first \<open>len\<close> characters), else 1.
\<close>

theorem lwip_stricmp_correct:
  assumes "cstr_ok s1" "cstr_ok s2" "0 < len"
  shows "lwip_stricmp (cstr s1) (cstr s2) = Inr (if map ascii_lower s1 = map ascii_lower s2 then 0 else 1)
   \<and> lwip_strnicmp (cstr s1) (cstr s2) len =
       Inr (if map ascii_lower (take (unat len) s1) = map ascii_lower (take (unat len) s2) then 0 else 1)"
  using assms by (simp add: stricmp_correct strnicmp_correct)

theorem lwip_stricmp_correct_witness:
  "lwip_stricmp (cstr [72, 105]) (cstr [104, 73, 33]) = Inr 1 \<and> lwip_strnicmp (cstr [72, 105]) (cstr [104, 73, 33]) 2 = Inr 0"
  using lwip_stricmp_correct [of "[72, 105]" "[104, 73, 33]" 2] by (simp add: cstr_ok_def ascii_lower_def word_gt_0)

text \<open>
  for every \<open>int\<close> but the least one, \<open>lwip_itoa\<close> stays within the buffer and leaves in it the
  decimal notation of the number with its terminating zero if they fit, and the empty string if not.
\<close>

theorem lwip_itoa_correct:
  assumes "- (2 ^ 31) < number" and "buf \<noteq> []"
  shows "\<exists>buf'. lwip_itoa buf number = Inr buf' \<and> length buf' = length buf \<and>
    c_string buf' = (if length (decimal number) < length buf then decimal number else [])"
  by (rule itoa_correct [OF assms])

theorem lwip_itoa_correct_witness:
  "\<exists>buf'. lwip_itoa [1, 1, 1, 1, 1] (- 42) = Inr buf' \<and> c_string buf' = [45, 52, 50]"
  using lwip_itoa_correct [of "- 42" "[1, 1, 1, 1, 1]"] by (auto simp: decimal_def dec_digits.simps)

end
