(* ===== verification/Inet_Sum.thy ===== *)
theory Inet_Sum
  imports Def
begin

text \<open>
  The Internet checksum of a range of bytes, \<open>lwip_standard_chksum\<close> of \<open>core/inet_chksum.c\<close>, in the
  three versions the file has; this build selects the second (\<open>LWIP_CHKSUM_ALGORITHM\<close> 2). A range is
  its address, of which the code looks at the alignment, and the list of its bytes.

  The specification is the sum of the 16 bit words of the bytes in memory order, \<open>word_sum\<close>, reduced to
  16 bits with end-around carry: \<open>ones_sum n\<close> is 0 for 0 and else the number from 1 to 65535 that
  is congruent to \<open>n\<close> modulo 65535. All versions compute it, whatever the alignment.
\<close>

definition FOLD_U32T :: "u32 \<Rightarrow> u32" where
  "FOLD_U32T u = drop_bit 16 u + (u AND 0x0000ffff)"

definition SWAP_BYTES_IN_WORD :: "u32 \<Rightarrow> u32" where
  "SWAP_BYTES_IN_WORD w = push_bit 8 (w AND 0xff) OR drop_bit 8 (w AND 0xff00)"

text \<open>The values of a \<open>u16_t\<close> and a \<open>u32_t\<close> that lie in memory as these bytes.\<close>

definition le16 :: "u8 \<Rightarrow> u8 \<Rightarrow> u32" where
  "le16 b0 b1 = ucast b0 + 256 * ucast b1"

definition le32 :: "u8 \<Rightarrow> u8 \<Rightarrow> u8 \<Rightarrow> u8 \<Rightarrow> u32" where
  "le32 b0 b1 b2 b3 = le16 b0 b1 + 65536 * le16 b2 b3"

subsection \<open>Version 1\<close>

fun chksum_octets :: "u8 list \<Rightarrow> u32 \<Rightarrow> u32 \<times> u8 list" where
  "chksum_octets (b0 # b1 # octets) acc =
     (let src = push_bit 8 (ucast b0 :: u16);
          src = src OR ucast b1
      in chksum_octets octets (acc + ucast src))"
| "chksum_octets octets acc = (acc, octets)"

definition lwip_standard_chksum_1 :: "u8 list \<Rightarrow> u16" where
  "lwip_standard_chksum_1 octets =
     (let (acc, rest) = chksum_octets octets 0;
          acc = (if rest \<noteq> [] then acc + ucast (push_bit 8 (ucast (hd rest) :: u16)) else acc);
          acc = drop_bit 16 acc + (acc AND 0x0000ffff);
          acc = (if acc AND 0xffff0000 \<noteq> 0 then drop_bit 16 acc + (acc AND 0x0000ffff) else acc)
      in lwip_htons (ucast acc))"

subsection \<open>Version 2\<close>

fun chksum_words :: "u8 list \<Rightarrow> u32 \<Rightarrow> u32 \<times> u8 list" where
  "chksum_words (b0 # b1 # ps) acc = chksum_words ps (acc + le16 b0 b1)"
| "chksum_words ps acc = (acc, ps)"

text \<open>\<open>t0\<close> and \<open>t1\<close> are the bytes of the variable \<open>t\<close> in memory.\<close>

definition lwip_standard_chksum :: "nat \<Rightarrow> u8 list \<Rightarrow> u16" where
  "lwip_standard_chksum dataptr pb =
     (let odd = dataptr mod 2 = 1;
          (t1, pb) = (if odd \<and> pb \<noteq> [] then (hd pb, tl pb) else (0, pb));
          (acc, ps) = chksum_words pb 0;
          t0 = (if ps \<noteq> [] then hd ps else 0);
          acc = acc + le16 t0 t1;
          acc = FOLD_U32T acc;
          acc = FOLD_U32T acc;
          acc = (if odd then SWAP_BYTES_IN_WORD acc else acc)
      in ucast acc)"

subsection \<open>Version 3\<close>

fun chksum_quads :: "u8 list \<Rightarrow> u32 \<Rightarrow> u32 \<times> u8 list" where
  "chksum_quads (b0 # b1 # b2 # b3 # b4 # b5 # b6 # b7 # pl) acc =
     (let tmp = acc + le32 b0 b1 b2 b3;
          tmp = (if tmp < acc then tmp + 1 else tmp);
          acc = tmp + le32 b4 b5 b6 b7;
          acc = (if acc < tmp then acc + 1 else acc)
      in chksum_quads pl acc)"
| "chksum_quads pl acc = (acc, pl)"

definition lwip_standard_chksum_3 :: "nat \<Rightarrow> u8 list \<Rightarrow> u16" where
  "lwip_standard_chksum_3 dataptr pb =
     (let odd = dataptr mod 2 = 1;
          (t1, pb, addr) = (if odd \<and> pb \<noteq> [] then (hd pb, tl pb, dataptr + 1) else (0, pb, dataptr));
          (acc, ps) = (if addr mod 4 \<noteq> 0 \<and> length pb > 1 then (le16 (pb ! 0) (pb ! 1), drop 2 pb) else (0, pb));
          (acc, pl) = chksum_quads ps acc;
          acc = FOLD_U32T acc;
          (acc, ps) = chksum_words pl acc;
          t0 = (if ps \<noteq> [] then hd ps else 0);
          acc = acc + le16 t0 t1;
          acc = FOLD_U32T acc;
          acc = FOLD_U32T acc;
          acc = (if odd then SWAP_BYTES_IN_WORD acc else acc)
      in ucast acc)"

subsection \<open>The specification\<close>

fun word_sum :: "u8 list \<Rightarrow> nat" where
  "word_sum (b0 # b1 # bs) = unat b0 + 256 * unat b1 + word_sum bs"
| "word_sum [b] = unat b"
| "word_sum [] = 0"

text \<open>The sum of the words with the first octet as the most significant one, which version 1 adds up.\<close>

fun octet_sum :: "u8 list \<Rightarrow> nat" where
  "octet_sum (b0 # b1 # bs) = 256 * unat b0 + unat b1 + octet_sum bs"
| "octet_sum [b] = 256 * unat b"
| "octet_sum [] = 0"

definition ones_sum :: "nat \<Rightarrow> nat" where
  "ones_sum n = (if n = 0 then 0 else (n - 1) mod 65535 + 1)"

text \<open>\<open>x\<close> represents \<open>n\<close>: it has the residue of \<open>n\<close> modulo 65535, and is 0 only for 0.\<close>

definition represents :: "nat \<Rightarrow> nat \<Rightarrow> bool" where
  "represents x n \<longleftrightarrow> x mod 65535 = n mod 65535 \<and> (x = 0 \<longleftrightarrow> n = 0)"

subsection \<open>Representations\<close>

lemma represents_refl [simp]: "represents n n"
  by (simp add: represents_def)

lemma represents_trans: "represents x y \<Longrightarrow> represents y z \<Longrightarrow> represents x z"
  by (simp add: represents_def)

lemma represents_add: "represents x m \<Longrightarrow> represents y n \<Longrightarrow> represents (x + y) (m + n)"
  unfolding represents_def by (metis add_is_0 mod_add_eq)

lemma represents_mult: "represents x m \<Longrightarrow> 0 < k \<Longrightarrow> represents (k * x) (k * m)"
  unfolding represents_def by (metis mod_mult_right_eq mult_is_0 less_irrefl)

lemma ones_sum_represents: "represents (ones_sum n) n"
proof (cases n)
  case (Suc k)
  have "(k mod 65535 + 1) mod 65535 = (k + 1) mod 65535" by (simp add: mod_simps)
  with Suc show ?thesis by (simp add: represents_def ones_sum_def)
qed (simp add: represents_def ones_sum_def)

lemma ones_sum_bound: "ones_sum n \<le> 65535"
proof -
  have "(n - Suc 0) mod 65535 < 65535" by simp
  then show ?thesis unfolding ones_sum_def by (simp add: Suc_le_eq less_Suc_eq_le)
qed

lemma represents_small:
  assumes "x \<le> 65535" "y \<le> 65535" "represents x y"
  shows "x = y"
proof -
  have "z mod 65535 = (if z = 65535 then 0 else z)" if "z \<le> 65535" for z :: nat
    using that by auto
  from this [OF assms(1)] this [OF assms(2)] assms(3) show ?thesis
    by (auto simp: represents_def split: if_splits)
qed

lemma represents_unique: "x \<le> 65535 \<Longrightarrow> represents x n \<Longrightarrow> x = ones_sum n"
  using represents_small [OF _ ones_sum_bound] ones_sum_represents [of n]
  unfolding represents_def by metis

lemma ones_sum_cong: "represents m n \<Longrightarrow> ones_sum m = ones_sum n"
  using represents_unique [OF ones_sum_bound, of m n] represents_trans [OF ones_sum_represents] by blast

lemma represents_split: "represents (x div 65536 + x mod 65536) x"
proof -
  define q r where "q = x div 65536" and "r = x mod 65536"
  have "(q + r) mod 65535 = (q * 65536 + r) mod 65535"
    using mod_mult_self1 [of "q + r" q 65535] by (simp add: algebra_simps)
  then have "represents (q + r) (q * 65536 + r)" by (simp add: represents_def)
  then show ?thesis by (simp add: q_def r_def)
qed

lemma represents_65536: "represents (65536 * n) n"
proof -
  have "(65536 * n) mod 65535 = (n + 65535 * n) mod 65535" by (simp add: algebra_simps)
  then show ?thesis by (simp only: mod_mult_self2 represents_def) simp
qed

subsection \<open>Folding and swapping\<close>

lemma unat_and_ffff: "unat (u AND 0xffff :: u32) = unat u mod 65536"
proof -
  have "u AND 0xffff = take_bit 16 u" by (simp add: take_bit_eq_mask mask_eq_exp_minus_1)
  then show ?thesis by (simp only: unsigned_take_bit_eq) (simp add: take_bit_eq_mod)
qed

lemma unat_drop_bit: "unat (drop_bit n u :: 'a::len word) = unat u div 2 ^ n"
  by (simp only: unsigned_drop_bit_eq take_bit_nat_eq_self [OF unsigned_less]) (simp add: drop_bit_eq_div)

lemma unat_FOLD_U32T: "unat (FOLD_U32T u) = unat u div 65536 + unat u mod 65536"
proof -
  have "unat u div 65536 < 65536" using unat_bound_u32 [of u] by (simp add: less_mult_imp_div_less del: unat_bound_u32)
  moreover have "unat u mod 65536 < 65536" by simp
  ultimately have "unat u div 65536 + unat u mod 65536 < 4294967296" by linarith
  then show ?thesis by (simp add: FOLD_U32T_def word_unat unat_and_ffff unat_drop_bit)
qed

lemma FOLD_represents: "represents (unat (FOLD_U32T u)) (unat u)"
  unfolding unat_FOLD_U32T by (rule represents_split)

lemma FOLD_bound: "unat u \<le> 131070 \<Longrightarrow> unat (FOLD_U32T u) \<le> 65535"
proof -
  assume a: "unat u \<le> 131070"
  then have "unat u div 65536 \<le> 1" using div_le_mono [of "unat u" 131070 65536] by simp
  moreover have "unat u = unat u div 65536 * 65536 + unat u mod 65536" "unat u mod 65536 < 65536" by simp_all
  ultimately show "unat (FOLD_U32T u) \<le> 65535" using a unfolding unat_FOLD_U32T by linarith
qed

lemma FOLD_FOLD_bound: "unat (FOLD_U32T (FOLD_U32T u)) \<le> 65535"
proof (rule FOLD_bound)
  have "unat u div 65536 < 65536" using unat_bound_u32 [of u] by (simp add: less_mult_imp_div_less del: unat_bound_u32)
  moreover have "unat u mod 65536 < 65536" by simp
  ultimately show "unat (FOLD_U32T u) \<le> 131070" unfolding unat_FOLD_U32T by linarith
qed

lemma unat_SWAP: "unat (SWAP_BYTES_IN_WORD w) = unat w mod 256 * 256 + unat w mod 65536 div 256"
proof -
  have d: "bit (push_bit 8 (w AND 0xff) AND drop_bit 8 (w AND 0xff00)) i \<longleftrightarrow> False" for i
    unfolding byte_masks_u32 by (auto simp: bit_simps)
  then have "push_bit 8 (w AND 0xff) AND drop_bit 8 (w AND 0xff00) = 0" by (intro bit_word_eqI) auto
  then have "SWAP_BYTES_IN_WORD w = push_bit 8 (w AND 0xff) + drop_bit 8 (w AND 0xff00)"
    by (simp add: SWAP_BYTES_IN_WORD_def disjunctive_add_eq_or)
  also have "w AND 0xff = take_bit 8 w" by (simp add: take_bit_eq_mask mask_eq_exp_minus_1)
  also have "drop_bit 8 (w AND 0xff00) = drop_bit 8 (take_bit 16 w)"
    unfolding byte_masks_u32 by (rule bit_word_eqI) (auto simp: bit_simps)
  finally have "SWAP_BYTES_IN_WORD w = push_bit 8 (take_bit 8 w) + drop_bit 8 (take_bit 16 w)" .
  moreover have "unat (push_bit 8 (take_bit 8 w)) = unat w mod 256 * 256"
  proof -
    have "unat w mod 256 < 256" by simp
    then have "unat w mod 256 * 256 < 4294967296" by linarith
    moreover have "unat (push_bit 8 (take_bit 8 w)) = take_bit 32 (push_bit 8 (take_bit 8 (unat w)))"
      by (simp only: unsigned_push_bit_eq unsigned_take_bit_eq) simp
    ultimately show ?thesis by (simp add: take_bit_eq_mod push_bit_eq_mult)
  qed
  moreover have "unat (drop_bit 8 (take_bit 16 w)) = unat w mod 65536 div 256"
    by (simp only: unat_drop_bit unsigned_take_bit_eq) (simp add: take_bit_eq_mod)
  moreover have "unat w mod 256 * 256 + unat w mod 65536 div 256 < 4294967296"
  proof -
    have "unat w mod 256 < 256" "unat w mod 65536 < 65536" by simp_all
    then show ?thesis by linarith
  qed
  ultimately show ?thesis by (simp add: unat_add_u32)
qed

lemma SWAP_represents:
  assumes "unat w \<le> 65535"
  shows "represents (unat (SWAP_BYTES_IN_WORD w)) (256 * unat w)" "unat (SWAP_BYTES_IN_WORD w) \<le> 65535"
proof -
  define q r where "q = unat w div 256" and "r = unat w mod 256"
  have qr: "unat w = 256 * q + r" "r < 256" "q < 256" using assms by (auto simp: q_def r_def)
  have sw: "unat (SWAP_BYTES_IN_WORD w) = 256 * r + q" using assms by (simp add: unat_SWAP q_def r_def)
  have "represents (256 * r + q) (256 * r + 65536 * q)"
    using represents_add [OF represents_refl represents_65536, of "256 * r" q]
    by (metis represents_def)
  with sw qr show "represents (unat (SWAP_BYTES_IN_WORD w)) (256 * unat w)" by (simp add: algebra_simps)
  show "unat (SWAP_BYTES_IN_WORD w) \<le> 65535" using sw qr by simp
qed

subsection \<open>Sums of words\<close>

lemma unat_ucast_u8_u32 [simp]: "unat (ucast (b :: u8) :: u32) = unat b"
  by (rule unat_ucast_u32)

lemma unat_u8_le: "unat (b :: u8) \<le> 255"
  using unat_bound_u8 [of b] by (simp del: unat_bound_u8)

lemma unat_u16_le: "unat (n :: u16) \<le> 65535"
  using unat_bound_u16 [of n] by (simp del: unat_bound_u16)

lemma unat_le16: "unat (le16 b0 b1) = unat b0 + 256 * unat b1"
proof -
  have "unat b0 < 256" "unat b1 < 256" by simp_all
  then have "256 * unat b1 < 4294967296" "unat b0 + 256 * unat b1 < 4294967296" by linarith+
  then show ?thesis by (simp add: le16_def unat_word_ariths)
qed

lemma word_sum_bound: "word_sum bs \<le> 65535 * (length bs div 2) + 255 * (length bs mod 2)"
proof (induction bs rule: word_sum.induct)
  case (1 b0 b1 bs)
  with unat_u8_le [of b0] unat_u8_le [of b1] show ?case by simp
next
  case (2 b)
  with unat_u8_le [of b] show ?case by simp
qed simp

lemma word_sum_Cons: "represents (unat b + 256 * word_sum bs) (word_sum (b # bs))"
proof (induction bs arbitrary: b rule: word_sum.induct)
  case (1 c d bs)
  have "represents (unat b + 256 * unat c + (65536 * unat d + 256 * word_sum bs)) (unat b + 256 * unat c + (unat d + 256 * word_sum bs))"
    by (intro represents_add represents_refl represents_65536)
  moreover have "represents (unat b + 256 * unat c + (unat d + 256 * word_sum bs)) (unat b + 256 * unat c + word_sum (d # bs))"
    by (intro represents_add represents_refl 1)
  ultimately show ?case using represents_trans by (simp add: algebra_simps)
qed simp_all

lemma word_sum_append:
  "represents (word_sum xs + (if even (length xs) then 1 else 256) * word_sum ys) (word_sum (xs @ ys))"
proof (induction xs rule: word_sum.induct)
  case (1 b0 b1 bs)
  from represents_add [OF represents_refl this, of "unat b0 + 256 * unat b1"] show ?case
    by (simp add: add.assoc)
next
  case (2 b)
  then show ?case using word_sum_Cons by simp
qed simp

lemma chksum_words_spec:
  "unat acc + word_sum ps < 2 ^ 32 \<Longrightarrow>
   \<exists>acc' rest. chksum_words ps acc = (acc', rest) \<and> length rest \<le> 1
     \<and> unat acc' + (if rest \<noteq> [] then unat (hd rest) else 0) = unat acc + word_sum ps"
proof (induction ps acc rule: chksum_words.induct)
  case (1 b0 b1 ps acc)
  have "unat (acc + le16 b0 b1) = unat acc + (unat b0 + 256 * unat b1)"
    using 1(2) by (simp add: unat_add_u32 unat_le16)
  with 1 show ?case by (simp add: add.assoc)
qed auto

lemma represents_final:
  assumes "represents (unat u) n" "represents (256 * n) m"
  shows "unat (ucast (SWAP_BYTES_IN_WORD (FOLD_U32T (FOLD_U32T u))) :: u16) = ones_sum m"
proof -
  let ?v = "FOLD_U32T (FOLD_U32T u)"
  have v: "represents (unat ?v) n" using FOLD_represents represents_trans assms(1) by meson
  note sw = SWAP_represents [OF FOLD_FOLD_bound [of u]]
  have "represents (unat (SWAP_BYTES_IN_WORD ?v)) m"
    using sw(1) represents_mult [OF v, of 256] assms(2) represents_trans by (meson zero_less_numeral)
  then have "unat (SWAP_BYTES_IN_WORD ?v) = ones_sum m" by (rule represents_unique [OF sw(2)])
  then show ?thesis using sw(2) by (simp add: unsigned_ucast_eq take_bit_nat_eq_self)
qed

lemma represents_final_even:
  assumes "represents (unat u) n"
  shows "unat (ucast (FOLD_U32T (FOLD_U32T u)) :: u16) = ones_sum n"
proof -
  have "represents (unat (FOLD_U32T (FOLD_U32T u))) n" using FOLD_represents represents_trans assms by meson
  then have "unat (FOLD_U32T (FOLD_U32T u)) = ones_sum n" by (rule represents_unique [OF FOLD_FOLD_bound])
  then show ?thesis using FOLD_FOLD_bound [of u] by (simp add: unsigned_ucast_eq take_bit_nat_eq_self)
qed

text \<open>The end of versions 2 and 3: the words that are left, the end bytes, folding and swapping.\<close>

lemma chksum_end:
  assumes n: "represents (unat acc + word_sum ps + 256 * unat t1) n" and b: "unat acc + word_sum ps + 256 * unat t1 < 2 ^ 32"
    and m: "if od then represents (256 * n) m else n = m"
  shows "unat (let (acc, ps) = chksum_words ps acc;
          t0 = (if ps \<noteq> [] then hd ps else 0);
          acc = acc + le16 t0 t1;
          acc = FOLD_U32T acc;
          acc = FOLD_U32T acc;
          acc = (if od then SWAP_BYTES_IN_WORD acc else acc)
      in ucast acc :: u16) = ones_sum m"
proof -
  have "unat acc + word_sum ps < 2 ^ 32" using b by simp
  then obtain acc' rest where c: "chksum_words ps acc = (acc', rest)"
    "unat acc' + (if rest \<noteq> [] then unat (hd rest) else 0) = unat acc + word_sum ps"
    using chksum_words_spec by blast
  let ?t0 = "if rest \<noteq> [] then hd rest else 0"
  have t0: "unat ?t0 = (if rest \<noteq> [] then unat (hd rest) else 0)" by simp
  have "unat (acc' + le16 ?t0 t1) = unat acc + word_sum ps + 256 * unat t1"
    using c(2) b t0 by (simp only: unat_add_u32 unat_le16) simp
  then have "represents (unat (acc' + le16 ?t0 t1)) n" using n by simp
  from represents_final [OF this] represents_final_even [OF this] show ?thesis
    using m by (simp add: c(1) Let_def)
qed

lemma chksum_2_spec:
  assumes "length pb \<le> 0x20000"
  shows "unat (lwip_standard_chksum dataptr pb) = ones_sum (word_sum pb)"
proof (cases "dataptr mod 2 = 1")
  case False
  have "length pb div 2 \<le> 65536" "length pb mod 2 \<le> 1" using assms by simp_all
  then have "word_sum pb < 2 ^ 32"
    using word_sum_bound [of pb] assms by (cases "length pb = 131072") auto
  then show ?thesis
    using False chksum_end [of 0 pb 0 "word_sum pb" False "word_sum pb"] by (simp add: lwip_standard_chksum_def Let_def)
next
  case odd: True
  show ?thesis
  proof (cases pb)
    case Nil
    then show ?thesis using odd chksum_end [of 0 "[]" 0 0 True 0] by (simp add: lwip_standard_chksum_def Let_def)
  next
    case (Cons b bs)
    have "length bs div 2 \<le> 65535" "length bs mod 2 \<le> 1" using assms Cons by simp_all
    then have "word_sum bs \<le> 65535 * 65535 + 255" using word_sum_bound [of bs] by linarith
    then have "word_sum bs + 256 * unat b < 2 ^ 32" using unat_u8_le [of b] by simp
    moreover have "represents (256 * (word_sum bs + 256 * unat b)) (word_sum (b # bs))"
    proof -
      have "represents (65536 * unat b + 256 * word_sum bs) (unat b + 256 * word_sum bs)"
        by (intro represents_add represents_65536 represents_refl)
      with word_sum_Cons [of b bs] show ?thesis using represents_trans by (simp add: algebra_simps)
    qed
    ultimately show ?thesis
      using odd Cons chksum_end [of 0 bs b "word_sum bs + 256 * unat b" True "word_sum (b # bs)"]
      by (simp add: lwip_standard_chksum_def Let_def)
  qed
qed

subsection \<open>The other versions\<close>

lemma octet_sum_represents: "represents (256 * word_sum bs) (octet_sum bs)"
proof (induction bs rule: word_sum.induct)
  case (1 b0 b1 bs)
  have "represents (256 * unat b0 + 65536 * unat b1 + 256 * word_sum bs) (256 * unat b0 + unat b1 + octet_sum bs)"
    by (intro represents_add represents_refl represents_65536 1)
  then show ?case by (simp add: algebra_simps)
qed simp_all

lemma octet_sum_bound: "octet_sum bs \<le> 65535 * ((length bs + 1) div 2)"
proof (induction bs rule: octet_sum.induct)
  case (1 b0 b1 bs)
  then show ?case using unat_u8_le [of b0] unat_u8_le [of b1] by simp
next
  case (2 b)
  then show ?case using unat_u8_le [of b] by simp
qed simp

lemma unat_be16:
  "unat (ucast (push_bit 8 (ucast b0 :: u16) OR ucast (b1 :: u8)) :: u32) = 256 * unat b0 + unat b1"
  "unat (ucast (push_bit 8 (ucast b0 :: u16)) :: u32) = 256 * unat (b0 :: u8)"
proof -
  have p: "unat (push_bit 8 (ucast b0 :: u16)) = 256 * unat b0"
    using unat_u8_le [of b0]
    by (simp only: unsigned_push_bit_eq unsigned_ucast_eq) (simp add: take_bit_eq_mod push_bit_eq_mult)
  have u: "unat (ucast b1 :: u16) = unat b1"
    using unat_u8_le [of b1] by (simp only: unsigned_ucast_eq) (simp add: take_bit_eq_mod)
  have "push_bit 8 (ucast b0 :: u16) AND ucast b1 = 0"
    by (rule bit_word_eqI) (auto simp: bit_simps dest: bit_imp_le_length)
  then have "push_bit 8 (ucast b0 :: u16) OR ucast b1 = push_bit 8 (ucast b0) + ucast b1"
    by (simp add: disjunctive_add_eq_or)
  then have "unat (push_bit 8 (ucast b0 :: u16) OR ucast b1) = 256 * unat b0 + unat b1"
    using p u unat_u8_le [of b0] unat_u8_le [of b1] by (simp add: unat_add_u16)
  then show "unat (ucast (push_bit 8 (ucast b0 :: u16) OR ucast b1) :: u32) = 256 * unat b0 + unat b1"
    using unat_u8_le [of b0] unat_u8_le [of b1] by (simp only: unsigned_ucast_eq) (simp add: take_bit_eq_mod)
  show "unat (ucast (push_bit 8 (ucast b0 :: u16)) :: u32) = 256 * unat b0"
    using p unat_u8_le [of b0] by (simp only: unsigned_ucast_eq) (simp add: take_bit_eq_mod)
qed

lemma chksum_octets_spec:
  "unat acc + octet_sum bs < 2 ^ 32 \<Longrightarrow>
   \<exists>acc' rest. chksum_octets bs acc = (acc', rest) \<and> unat acc' + octet_sum rest = unat acc + octet_sum bs \<and> length rest \<le> 1"
proof (induction bs acc rule: chksum_octets.induct)
  case (1 b0 b1 bs acc)
  have "unat (acc + ucast (push_bit 8 (ucast b0 :: u16) OR ucast b1)) = unat acc + (256 * unat b0 + unat b1)"
    using 1(2) by (simp only: unat_add_u32 unat_be16) simp
  with 1 show ?case by (simp add: add.assoc Let_def)
qed auto

lemma htons_SWAP: "unat u \<le> 65535 \<Longrightarrow> lwip_htons (ucast u) = ucast (SWAP_BYTES_IN_WORD u)"
  unfolding lwip_htons_def PP_HTONS_def SWAP_BYTES_IN_WORD_def byte_masks_u16 byte_masks_u32
  by (rule bit_word_eqI) (auto simp: bit_simps)

lemma fold_condition: "(u AND 0xffff0000 = 0) \<Longrightarrow> FOLD_U32T u = u"
proof -
  assume a: "u AND 0xffff0000 = 0"
  have z: "drop_bit 16 u = 0"
  proof (rule bit_word_eqI)
    fix i assume "i < LENGTH(32)"
    have "(0xffff0000 :: u32) = push_bit 16 (mask 16)" by (simp add: mask_eq_exp_minus_1 push_bit_eq_mult)
    with a have "\<not> bit (u AND push_bit 16 (mask 16)) (16 + i)" by simp
    then show "bit (drop_bit 16 u) i \<longleftrightarrow> bit 0 i" by (auto simp: bit_simps dest: bit_imp_le_length)
  qed
  then have "unat u div 65536 = 0" using unat_drop_bit [of 16 u] by simp
  then have "unat (FOLD_U32T u) = unat u" unfolding unat_FOLD_U32T by (simp add: div_eq_0_iff)
  then show ?thesis by (simp only: unat_eq_iff_word)
qed

lemma chksum_1_spec:
  assumes "length bs \<le> 0x20000"
  shows "unat (lwip_standard_chksum_1 bs) = ones_sum (word_sum bs)"
proof -
  have "(length bs + 1) div 2 \<le> 65536" using assms by simp
  then have b: "octet_sum bs < 2 ^ 32" using octet_sum_bound [of bs] by simp
  then obtain acc rest where c: "chksum_octets bs 0 = (acc, rest)" "unat acc + octet_sum rest = octet_sum bs" "length rest \<le> 1"
    using chksum_octets_spec [of 0 bs] by auto
  let ?a = "if rest \<noteq> [] then acc + ucast (push_bit 8 (ucast (hd rest) :: u16)) else acc"
  have a: "unat ?a = octet_sum bs"
    using c(2,3) b by (cases rest) (auto simp: unat_add_u32 unat_be16(2))
  have "lwip_standard_chksum_1 bs = lwip_htons (ucast (FOLD_U32T (FOLD_U32T ?a)))"
    using fold_condition [of "FOLD_U32T ?a"]
    by (simp add: lwip_standard_chksum_1_def c(1) FOLD_U32T_def [symmetric] Let_def)
  also have "\<dots> = ucast (SWAP_BYTES_IN_WORD (FOLD_U32T (FOLD_U32T ?a)))" by (rule htons_SWAP [OF FOLD_FOLD_bound])
  also have "unat \<dots> = ones_sum (word_sum bs)"
  proof (rule represents_final)
    show "represents (unat ?a) (256 * word_sum bs)"
      using octet_sum_represents [of bs] unfolding a represents_def by simp
    show "represents (256 * (256 * word_sum bs)) (word_sum bs)"
      using represents_65536 [of "word_sum bs"] by (simp add: mult.assoc [symmetric])
  qed
  finally show ?thesis .
qed

lemma end_around_carry:
  "represents (unat (if a + b < (a :: u32) then a + b + 1 else a + b)) (unat a + unat b)"
proof (cases "unat a + unat b < 2 ^ 32")
  case True
  then have "unat (a + b) = unat a + unat b" by (simp add: unat_add_u32)
  then show ?thesis by (simp add: word_less_nat_alt)
next
  case False
  have bd: "unat a + unat b \<le> 8589934590" "unat b < 4294967296"
    using unat_bound_u32 [of a] unat_bound_u32 [of b] by linarith+
  have ge: "4294967296 \<le> unat a + unat b" using False by simp
  have "unat a + unat b - 4294967296 < 4294967296" using bd(1) by linarith
  then have ab: "unat (a + b) = unat a + unat b - 4294967296"
    using ge by (simp add: unat_add_u32 le_mod_geq)
  have less: "a + b < a" unfolding word_less_nat_alt ab using bd(2) ge by linarith
  have "unat (a + b + 1) = unat a + unat b - 4294967295"
  proof -
    have "Suc (unat a + unat b - 4294967296) < 4294967296" "Suc (unat a + unat b - 4294967296) = unat a + unat b - 4294967295"
      using bd(1) ge by linarith+
    then show ?thesis using ab by (simp add: unat_add_u32 [of "a + b" 1])
  qed
  moreover have "(unat a + unat b - 4294967295) mod 65535 = (unat a + unat b) mod 65535"
  proof -
    have "unat a + unat b = (unat a + unat b - 4294967295) + 65535 * 65537" using ge by simp
    then show ?thesis by (metis mod_mult_self2)
  qed
  moreover have "unat a + unat b - 4294967295 \<noteq> 0" "unat a + unat b \<noteq> 0" using ge by linarith+
  ultimately show ?thesis unfolding if_P [OF less] represents_def by simp
qed

lemma unat_le32: "unat (le32 b0 b1 b2 b3) = unat b0 + 256 * unat b1 + 65536 * (unat b2 + 256 * unat b3)"
proof -
  note b = unat_u8_le [of b0] unat_u8_le [of b1] unat_u8_le [of b2] unat_u8_le [of b3]
  then have "unat (65536 * le16 b2 b3) = 65536 * (unat b2 + 256 * unat b3)"
    by (simp only: unat_word_ariths unat_le16) simp
  then show ?thesis unfolding le32_def unat_add_u32 unat_le16 using b by simp
qed

lemma le32_represents: "represents (unat (le32 b0 b1 b2 b3)) (word_sum [b0, b1, b2, b3])"
proof -
  have "represents (unat b0 + 256 * unat b1 + 65536 * (unat b2 + 256 * unat b3))
    (unat b0 + 256 * unat b1 + (unat b2 + 256 * unat b3))"
    by (intro represents_add represents_refl represents_65536)
  then show ?thesis unfolding unat_le32 word_sum.simps by (simp only: add.assoc add_0_right)
qed

lemma chksum_quads_spec:
  "\<exists>acc' rest. chksum_quads ps acc = (acc', rest) \<and> length rest \<le> 7
    \<and> represents (unat acc' + word_sum rest) (unat acc + word_sum ps)"
proof (induction ps acc rule: chksum_quads.induct)
  case (1 b0 b1 b2 b3 b4 b5 b6 b7 pl acc)
  let ?add = "\<lambda>a b :: u32. if a + b < a then a + b + 1 else a + b"
  let ?t = "?add acc (le32 b0 b1 b2 b3)"
  let ?s = "?add ?t (le32 b4 b5 b6 b7)"
  have "represents (unat ?s) (unat ?t + unat (le32 b4 b5 b6 b7))" by (rule end_around_carry)
  also have "represents (unat ?t + unat (le32 b4 b5 b6 b7)) (unat acc + unat (le32 b0 b1 b2 b3) + unat (le32 b4 b5 b6 b7))"
    by (intro represents_add represents_refl end_around_carry)
  finally (represents_trans) have "represents (unat ?s) (unat acc + word_sum [b0, b1, b2, b3] + word_sum [b4, b5, b6, b7])"
    by (rule represents_trans) (intro represents_add represents_refl le32_represents)
  then have "represents (unat ?s + word_sum pl) (unat acc + word_sum [b0, b1, b2, b3] + word_sum [b4, b5, b6, b7] + word_sum pl)"
    by (intro represents_add represents_refl)
  moreover obtain acc' rest where "chksum_quads pl ?s = (acc', rest)" "length rest \<le> 7"
    "represents (unat acc' + word_sum rest) (unat ?s + word_sum pl)"
    using 1 [OF refl refl refl refl] by blast
  ultimately show ?case using represents_trans by (simp add: Let_def add.assoc)
qed auto

lemma chksum_3_spec:
  fixes dataptr :: nat
  shows "unat (lwip_standard_chksum_3 dataptr pb) = ones_sum (word_sum pb)"
proof -
  define od where "od = (dataptr mod 2 = 1)"
  define t1 :: u8 where "t1 = (if od \<and> pb \<noteq> [] then hd pb else 0)"
  define bs where "bs = (if od \<and> pb \<noteq> [] then tl pb else pb)"
  define addr where "addr = (if od \<and> pb \<noteq> [] then dataptr + 1 else dataptr)"
  define first where "first = (addr mod 4 \<noteq> 0 \<and> length bs > 1)"
  define a0 :: u32 where "a0 = (if first then le16 (bs ! 0) (bs ! 1) else 0)"
  define ps where "ps = (if first then drop 2 bs else bs)"
  have start: "unat a0 + word_sum ps = word_sum bs"
    by (cases bs rule: word_sum.cases) (auto simp: a0_def ps_def first_def unat_le16)
  obtain acc pl where q: "chksum_quads ps a0 = (acc, pl)" "length pl \<le> 7"
    "represents (unat acc + word_sum pl) (word_sum bs)"
    using chksum_quads_spec [of ps a0] start by auto
  have "length pl div 2 \<le> 3" "length pl mod 2 \<le> 1" using q(2) by auto
  then have pl: "word_sum pl \<le> 196860" using word_sum_bound [of pl] by linarith
  have f: "unat (FOLD_U32T acc) \<le> 131070"
  proof -
    have "unat acc div 65536 < 65536" using unat_bound_u32 [of acc] by (simp add: less_mult_imp_div_less del: unat_bound_u32)
    moreover have "unat acc mod 65536 < 65536" by simp
    ultimately show ?thesis unfolding unat_FOLD_U32T by linarith
  qed
  have n: "represents (unat (FOLD_U32T acc) + word_sum pl + 256 * unat t1) (word_sum bs + 256 * unat t1)"
    by (intro represents_add represents_refl represents_trans [OF _ q(3)] FOLD_represents)
  have b: "unat (FOLD_U32T acc) + word_sum pl + 256 * unat t1 < 2 ^ 32" using f pl unat_u8_le [of t1] by simp
  have m: "if od then represents (256 * (word_sum bs + 256 * unat t1)) (word_sum pb) else word_sum bs + 256 * unat t1 = word_sum pb"
  proof (cases "od \<and> pb \<noteq> []")
    case True
    then have pb: "pb = t1 # bs" by (simp add: t1_def bs_def)
    have "represents (65536 * unat t1 + 256 * word_sum bs) (unat t1 + 256 * word_sum bs)"
      by (intro represents_add represents_65536 represents_refl)
    with word_sum_Cons [of t1 bs] show ?thesis using True represents_trans unfolding pb by (simp add: algebra_simps)
  next
    case False
    then show ?thesis by (auto simp: t1_def bs_def)
  qed
  have s1: "(if od \<and> pb \<noteq> [] then (hd pb, tl pb, dataptr + 1) else (0, pb, dataptr)) = (t1, bs, addr)"
    by (simp add: t1_def bs_def addr_def)
  have s2: "(if addr mod 4 \<noteq> 0 \<and> length bs > 1 then (le16 (bs ! 0) (bs ! 1), drop 2 bs) else (0, bs)) = (a0, ps)"
    by (simp add: a0_def ps_def first_def)
  have "lwip_standard_chksum_3 dataptr pb =
     (let (acc, ps) = chksum_words pl (FOLD_U32T acc);
          t0 = (if ps \<noteq> [] then hd ps else 0);
          acc = acc + le16 t0 t1;
          acc = FOLD_U32T acc;
          acc = FOLD_U32T acc;
          acc = (if od then SWAP_BYTES_IN_WORD acc else acc)
      in ucast acc)"
    by (simp only: lwip_standard_chksum_3_def Let_def od_def [symmetric] s1 s2 q(1) prod.case)
  then show ?thesis using chksum_end [OF n b m] by (simp only:)
qed

subsection \<open>Checking a sum\<close>

text \<open>A sum that is put into the data in place of a zero word at an even offset completes it to 0xffff.\<close>

lemma ones_sum_complete: "ones_sum (n + (65535 - ones_sum n)) = 65535"
proof -
  have "represents (ones_sum n + (65535 - ones_sum n)) (n + (65535 - ones_sum n))"
    by (intro represents_add ones_sum_represents represents_refl)
  then have "represents 65535 (n + (65535 - ones_sum n))" using ones_sum_bound [of n] by simp
  then show ?thesis using represents_unique [OF order_refl] by simp
qed

end
