(* ===== verification/Ip4_Addr.thy ===== *)
theory Ip4_Addr
  imports Def
begin

text \<open>
  IPv4 addresses, \<open>core/ipv4/ip4_addr.c\<close>: broadcast addresses of an interface, net masks, and the
  conversion between addresses and dotted text. An address is a \<open>u32_t\<close> in network byte order:
  on this little endian target its lowest byte is the first number of the dotted notation.
  The record \<open>netif\<close> holds the fields of \<open>struct netif\<close> that the modelled code reads.
\<close>

record netif =
  ip_addr :: u32
  netmask :: u32
  gw :: u32
  hwaddr :: "u8 list"
  hwaddr_len :: u8
  netif_flags :: u8
  netif_num :: nat
  mtu :: u16
  autoip_data :: nat

definition NETIF_FLAG_UP :: u8 where "NETIF_FLAG_UP = 0x01"
definition NETIF_FLAG_BROADCAST :: u8 where "NETIF_FLAG_BROADCAST = 0x02"
definition NETIF_FLAG_LINK_UP :: u8 where "NETIF_FLAG_LINK_UP = 0x04"
definition NETIF_FLAG_ETHARP :: u8 where "NETIF_FLAG_ETHARP = 0x08"
definition NETIF_FLAG_IGMP :: u8 where "NETIF_FLAG_IGMP = 0x20"

definition IPADDR_ANY :: u32 where "IPADDR_ANY = 0"
definition IPADDR_BROADCAST :: u32 where "IPADDR_BROADCAST = 0xffffffff"
definition IPADDR_NONE :: u32 where "IPADDR_NONE = 0xffffffff"

definition ip4_addr_ismulticast :: "u32 \<Rightarrow> bool" where
  "ip4_addr_ismulticast a \<longleftrightarrow> (a AND PP_HTONL 0xf0000000) = PP_HTONL 0xe0000000"

definition ip4_addr_islinklocal :: "u32 \<Rightarrow> bool" where
  "ip4_addr_islinklocal a \<longleftrightarrow> (a AND PP_HTONL 0xffff0000) = PP_HTONL 0xa9fe0000"

definition ip4_addr_isloopback :: "u32 \<Rightarrow> bool" where
  "ip4_addr_isloopback a \<longleftrightarrow> a AND PP_HTONL 0xff000000 = PP_HTONL (push_bit 24 127)"

definition ip4_addr_netcmp :: "u32 \<Rightarrow> u32 \<Rightarrow> u32 \<Rightarrow> bool" where
  "ip4_addr_netcmp addr1 addr2 msk \<longleftrightarrow> (addr1 AND msk) = (addr2 AND msk)"

definition ip4_addr_isbroadcast_u32 :: "u32 \<Rightarrow> netif \<Rightarrow> bool" where
  "ip4_addr_isbroadcast_u32 addr netif =
     (if NOT addr = IPADDR_ANY \<or> addr = IPADDR_ANY then True
      else if netif_flags netif AND NETIF_FLAG_BROADCAST = 0 then False
      else if addr = ip_addr netif then False
      else if ip4_addr_netcmp addr (ip_addr netif) (netmask netif)
           \<and> (addr AND NOT (netmask netif)) = (IPADDR_BROADCAST AND NOT (netmask netif)) then True
      else False)"

subsection \<open>Net masks\<close>

text \<open>
  The two loops of \<open>ip4_addr_netmask_valid\<close>: \<open>msk\<close> runs from the top bit to the right; the first
  loop stops at the first zero bit (or with \<open>msk = 0\<close>), the second looks for a one after it.
\<close>

function netmask_first_zero :: "u32 \<Rightarrow> u32 \<Rightarrow> u32" where
  "netmask_first_zero nm msk =
     (if msk = 0 then 0
      else if nm AND msk = 0 then msk
      else netmask_first_zero nm (drop_bit 1 msk))"
  by pat_completeness auto
termination
  by (relation "measure (\<lambda>(nm, msk). unat msk)") (auto simp: drop_bit_1_less)

function netmask_no_one :: "u32 \<Rightarrow> u32 \<Rightarrow> bool" where
  "netmask_no_one nm msk =
     (if msk = 0 then True
      else if nm AND msk \<noteq> 0 then False
      else netmask_no_one nm (drop_bit 1 msk))"
  by pat_completeness auto
termination
  by (relation "measure (\<lambda>(nm, msk). unat msk)") (auto simp: drop_bit_1_less)

declare netmask_first_zero.simps [simp del] netmask_no_one.simps [simp del]

definition ip4_addr_netmask_valid :: "u32 \<Rightarrow> bool" where
  "ip4_addr_netmask_valid nm =
     (let nm_hostorder = lwip_htonl nm;
          msk = netmask_first_zero nm_hostorder (push_bit 31 1)
      in netmask_no_one nm_hostorder msk)"

subsection \<open>Text to address\<close>

definition lwip_in_range :: "u8 \<Rightarrow> u8 \<Rightarrow> u8 \<Rightarrow> bool" where
  "lwip_in_range c lo up \<longleftrightarrow> lo \<le> c \<and> c \<le> up"

definition lwip_isdigit :: "u8 \<Rightarrow> bool" where
  "lwip_isdigit c = lwip_in_range c 48 57"

definition lwip_islower :: "u8 \<Rightarrow> bool" where
  "lwip_islower c = lwip_in_range c 97 122"

definition lwip_isxdigit :: "u8 \<Rightarrow> bool" where
  "lwip_isxdigit c \<longleftrightarrow> lwip_isdigit c \<or> lwip_in_range c 97 102 \<or> lwip_in_range c 65 70"

definition lwip_isspace :: "u8 \<Rightarrow> bool" where
  "lwip_isspace c \<longleftrightarrow> c = 32 \<or> c = 12 \<or> c = 10 \<or> c = 13 \<or> c = 9 \<or> c = 11"

text \<open>The inner loop: the digits of one number, in \<open>u32_t\<close> arithmetic. \<open>cp\<close> is the rest of the text.\<close>

fun aton_digits :: "u8 list \<Rightarrow> u32 \<Rightarrow> u32 \<Rightarrow> (u32 \<times> u8 list) res" where
  "aton_digits [] base val = Inl Wild_pointer"
| "aton_digits (c # cp) base val =
     (if lwip_isdigit c then aton_digits cp base (val * base + ucast (c - 48))
      else if base = 16 \<and> lwip_isxdigit c then
        aton_digits cp base (push_bit 4 val OR ucast (c + 10 - (if lwip_islower c then 97 else 65)))
      else Inr (val, c # cp))"

text \<open>The prefix of one number: \<open>0x\<close> is hexadecimal, \<open>0\<close> octal.\<close>

fun aton_number :: "u8 list \<Rightarrow> (u32 \<times> u8 list) res" where
  "aton_number (c # cp) =
     (if c = 48 then
        (case cp of [] \<Rightarrow> Inl Wild_pointer
         | c2 # cp2 \<Rightarrow> if c2 = 120 \<or> c2 = 88 then aton_digits cp2 16 0 else aton_digits cp 8 0)
      else aton_digits (c # cp) 10 0)"
| "aton_number [] = Inl Wild_pointer"

text \<open>
  The outer loop over the numbers, \<open>parts\<close> being the ones stored so far; \<open>Inr None\<close> is
  \<open>return 0\<close>, otherwise the stored parts, the last number and the character after it.
\<close>

function aton_parts :: "u32 list \<Rightarrow> u8 list \<Rightarrow> (u32 list \<times> u32 \<times> u8) option res" where
  "aton_parts parts cp =
     (case cp of [] \<Rightarrow> Inl Wild_pointer
      | c # _ \<Rightarrow>
        if \<not> lwip_isdigit c then Inr None
        else case aton_number cp of
            Inl e \<Rightarrow> Inl e
          | Inr (val, []) \<Rightarrow> Inl Wild_pointer
          | Inr (val, c # cp) \<Rightarrow>
              if c = 46 then
                if length parts \<ge> 3 then Inr None
                else aton_parts (parts @ [val]) cp
              else Inr (Some (parts, val, c)))"
  by pat_completeness auto
termination
  by (relation "measure (\<lambda>(parts, cp). 3 - length parts)") auto

declare aton_parts.simps [simp del]

text \<open>The address from its parts, in host byte order; \<open>None\<close> is \<open>return 0\<close>.\<close>

definition aton_combine :: "u32 list \<Rightarrow> u32 \<Rightarrow> u32 option" where
  "aton_combine parts val =
     (case parts of
        [] \<Rightarrow> Some val
      | [p0] \<Rightarrow>
          if val > 0xffffff then None
          else if p0 > 0xff then None
          else Some (val OR push_bit 24 p0)
      | [p0, p1] \<Rightarrow>
          if val > 0xffff then None
          else if p0 > 0xff \<or> p1 > 0xff then None
          else Some (val OR (push_bit 24 p0 OR push_bit 16 p1))
      | p0 # p1 # p2 # _ \<Rightarrow>
          if val > 0xff then None
          else if p0 > 0xff \<or> p1 > 0xff \<or> p2 > 0xff then None
          else Some (val OR (push_bit 24 p0 OR push_bit 16 p1 OR push_bit 8 p2)))"

text \<open>\<open>Inr None\<close> is the return value 0, \<open>Inr (Some a)\<close> the return value 1 with \<open>*addr = a\<close>.\<close>

definition ip4addr_aton :: "u8 list \<Rightarrow> u32 option res" where
  "ip4addr_aton cp =
     bind_res (aton_parts [] cp) (\<lambda>r.
       case r of None \<Rightarrow> Inr None
       | Some (parts, val, c) \<Rightarrow>
           if c \<noteq> 0 \<and> \<not> lwip_isspace c then Inr None
           else case aton_combine parts val of
               None \<Rightarrow> Inr None
             | Some val \<Rightarrow> Inr (Some (lwip_htonl val)))"

definition ipaddr_addr :: "u8 list \<Rightarrow> u32 res" where
  "ipaddr_addr cp =
     bind_res (ip4addr_aton cp) (\<lambda>r. case r of Some val \<Rightarrow> Inr val | None \<Rightarrow> Inr IPADDR_NONE)"

subsection \<open>Address to text\<close>

text \<open>The \<open>do ... while (*ap)\<close> loop: the characters of \<open>inv\<close>, the last digit first.\<close>

function ntoa_inv :: "u8 \<Rightarrow> u8 list" where
  "ntoa_inv ap =
     (let rem = ap mod 10; ap = ap div 10
      in (48 + rem) # (if ap \<noteq> 0 then ntoa_inv ap else []))"
  by pat_completeness auto
termination
  by (relation "measure unat") (auto simp: u8_div_10_less)

declare ntoa_inv.simps [simp del]

text \<open>One write through \<open>rp\<close> with the check \<open>len++ >= buflen\<close>; \<open>None\<close> is \<open>return NULL\<close>.\<close>

definition ntoa_put :: "int \<Rightarrow> u8 \<Rightarrow> u8 list \<Rightarrow> u8 list option" where
  "ntoa_put buflen c out = (if int (length out) \<ge> buflen then None else Some (out @ [c]))"

fun ntoa_puts :: "int \<Rightarrow> u8 list \<Rightarrow> u8 list \<Rightarrow> u8 list option" where
  "ntoa_puts buflen [] out = Some out"
| "ntoa_puts buflen (c # cs) out =
     (case ntoa_put buflen c out of None \<Rightarrow> None | Some out \<Rightarrow> ntoa_puts buflen cs out)"

text \<open>The loop over the four bytes \<open>ap\<close> of \<open>s_addr\<close>.\<close>

fun ntoa_bytes :: "int \<Rightarrow> u8 list \<Rightarrow> u8 list \<Rightarrow> u8 list option" where
  "ntoa_bytes buflen [] out = Some out"
| "ntoa_bytes buflen (ap # aps) out =
     (case ntoa_puts buflen (rev (ntoa_inv ap)) out of
        None \<Rightarrow> None
      | Some out \<Rightarrow>
         (case ntoa_put buflen 46 out of
            None \<Rightarrow> None
          | Some out \<Rightarrow> ntoa_bytes buflen aps out))"

definition memory_bytes :: "u32 \<Rightarrow> u8 list" where
  "memory_bytes a = [ucast a, ucast (drop_bit 8 a), ucast (drop_bit 16 a), ucast (drop_bit 24 a)]"

text \<open>The bytes written to \<open>buf\<close>, or \<open>None\<close> where \<open>NULL\<close> is returned.\<close>

definition ip4addr_ntoa_r :: "u32 \<Rightarrow> int \<Rightarrow> u8 list option" where
  "ip4addr_ntoa_r addr buflen =
     (case ntoa_bytes buflen (memory_bytes addr) [] of
        None \<Rightarrow> None
      | Some out \<Rightarrow> Some (butlast out @ [0]))"

definition IP4ADDR_STRLEN_MAX :: int where "IP4ADDR_STRLEN_MAX = 16"

definition ip4addr_ntoa :: "u32 \<Rightarrow> u8 list option" where
  "ip4addr_ntoa addr = ip4addr_ntoa_r addr IP4ADDR_STRLEN_MAX"

text \<open>The dotted decimal notation, each number followed by a dot: the specification of the text.\<close>

definition dotted :: "u32 \<Rightarrow> u8 list" where
  "dotted a = concat (map (\<lambda>b. dec_digits (unat b) @ [46]) (memory_bytes a))"

subsection \<open>Net masks: ones, then zeros\<close>

lemma and_exp_eq_0: "(nm :: u32) AND 2 ^ j = 0 \<longleftrightarrow> j \<ge> 32 \<or> \<not> bit nm j"
proof -
  have "nm AND 2 ^ j = (if bit nm j \<and> j < 32 then 2 ^ j else 0)"
    by (rule bit_word_eqI) (auto simp: bit_simps)
  moreover have "(2 :: u32) ^ j \<noteq> 0" if "j < 32"
    using that by simp
  ultimately show ?thesis by auto
qed

lemma drop_bit_exp: "drop_bit (Suc 0) (2 ^ Suc j :: u32) = (if Suc j < 32 then 2 ^ j else 0)"
  by (rule bit_word_eqI) (auto simp: bit_simps)

lemma netmask_first_zero_exp:
  "j < 32 \<Longrightarrow> netmask_first_zero nm (2 ^ j) =
    (if \<forall>i\<le>j. bit nm i then 0 else 2 ^ (GREATEST i. i \<le> j \<and> \<not> bit nm i))"
proof (induction j)
  case 0
  show ?case
    using Greatest_equality [of "\<lambda>i. i = 0 \<and> \<not> bit nm i" 0]
    by (auto simp: netmask_first_zero.simps [of nm 1] netmask_first_zero.simps [of nm 0]
        and_exp_eq_0 [of nm 0, simplified])
next
  case (Suc j)
  show ?case
  proof (cases "bit nm (Suc j)")
    case True
    then have "(\<forall>i\<le>Suc j. bit nm i) = (\<forall>i\<le>j. bit nm i)" 
       "(\<lambda>i. i \<le> Suc j \<and> \<not> bit nm i) = (\<lambda>i. i \<le> j \<and> \<not> bit nm i)"
      by (auto simp: le_Suc_eq)
    with True Suc show ?thesis
      by (auto simp: netmask_first_zero.simps [of nm "2 ^ Suc j"] and_exp_eq_0 drop_bit_exp simp del: power_Suc)
  next
    case False
    then have "(GREATEST i. i \<le> Suc j \<and> \<not> bit nm i) = Suc j" by (auto intro: Greatest_equality)
    with False Suc.prems show ?thesis
      by (auto simp: netmask_first_zero.simps [of nm "2 ^ Suc j"] and_exp_eq_0   simp del: power_Suc)
  qed
qed

lemma netmask_no_one_exp:
  "j < 32 \<Longrightarrow> netmask_no_one nm (2 ^ j) \<longleftrightarrow> (\<forall>i\<le>j. \<not> bit nm i)"
proof (induction j)
  case 0
  show ?case
   by (auto simp: netmask_no_one.simps [of nm 1] netmask_no_one.simps [of nm 0] and_exp_eq_0 [of nm 0, simplified])
next
  case (Suc j)
  then show ?case
      by (auto simp: netmask_no_one.simps [of nm "2 ^ Suc j"] and_exp_eq_0 drop_bit_exp le_Suc_eq simp del: power_Suc)
qed

lemma netmask_valid_iff:
  "ip4_addr_netmask_valid nm \<longleftrightarrow> (\<exists>k\<le>32. lwip_htonl nm = NOT (mask k))"
proof -
  define h where "h = lwip_htonl nm"
  define g where "g = (GREATEST i. i \<le> 31 \<and> \<not> bit h i)"
  have valid: "ip4_addr_netmask_valid nm \<longleftrightarrow> (\<forall>i\<le>31. bit h i) \<or> (\<forall>i\<le>g. \<not> bit h i)"
   if "\<not> (\<forall>i\<le>31. bit h i) \<longrightarrow> g \<le> 31"
    using netmask_first_zero_exp [of 31 h] netmask_no_one_exp [of g h] that
    by (auto simp: ip4_addr_netmask_valid_def Let_def h_def [symmetric] g_def [symmetric]
        push_bit_eq_mult netmask_no_one.simps [of h 0] simp del: push_bit_numeral_minus_1)
  have eq_iff: "h = NOT (mask k) \<longleftrightarrow> (\<forall>i<32. bit h i \<longleftrightarrow> k \<le> i)" for k
    by (auto simp: bit_simps intro: bit_word_eqI)
  show ?thesis
  proof (cases "\<forall>i\<le>31. bit h i")
    case True
    with valid have "ip4_addr_netmask_valid nm" by blast
    moreover have "h = NOT (mask 0)" using True by (simp only: eq_iff) auto
    ultimately show ?thesis unfolding h_def by blast
  next
    case False
    then have g: "g \<le> 31" "\<not> bit h g"
      using GreatestI_ex_nat [of "\<lambda>i. i \<le> 31 \<and> \<not> bit h i" 31] by (auto simp: g_def)
    have above: "bit h i" if "g < i" "i \<le> 31" for i
      using Greatest_le_nat [of "\<lambda>i. i \<le> 31 \<and> \<not> bit h i" i 31] that by (auto simp: g_def)
    have "(\<forall>i\<le>g. \<not> bit h i) \<longleftrightarrow> (\<exists>k\<le>32. \<forall>i<32. bit h i \<longleftrightarrow> k \<le> i)"
    proof
      assume "\<forall>i\<le>g. \<not> bit h i"
      with above g(1) have "Suc g \<le> 32 \<and> (\<forall>i<32. bit h i \<longleftrightarrow> Suc g \<le> i)"
        by (auto simp: Suc_le_eq not_le)
      then show "\<exists>k\<le>32. \<forall>i<32. bit h i \<longleftrightarrow> k \<le> i" by blast
    next
      assume "\<exists>k\<le>32. \<forall>i<32. bit h i \<longleftrightarrow> k \<le> i"
      then obtain k where k: "\<forall>i<32. bit h i \<longleftrightarrow> k \<le> i" by blast
      with g have "g < k" by auto
      with k g(1) show "\<forall>i\<le>g. \<not> bit h i" by auto
    qed
    with valid g(1) False show ?thesis unfolding h_def [symmetric] eq_iff by blast
  qed
qed

subsection \<open>Dotted decimal text\<close>

lemma digit_char:
  assumes "n < 10"
  shows "lwip_isdigit (of_nat (48 + n))" and "(of_nat (48 + n) :: u8) - 48 = of_nat n"
    and "(of_nat (48 + n) :: u8) = 48 \<longleftrightarrow> n = 0"
    and "unat (of_nat n :: u8) = n"
proof -
  have u: "unat (of_nat (48 + n) :: u8) = 48 + n" using assms by (simp only: unat_of_nat) simp
  then show "lwip_isdigit (of_nat (48 + n))"
    using assms by (simp add: lwip_isdigit_def lwip_in_range_def word_nat_compare del: of_nat_add)
  show "(of_nat (48 + n) :: u8) - 48 = of_nat n" by simp
  show "(of_nat (48 + n) :: u8) = 48 \<longleftrightarrow> n = 0" using u by (auto simp: word_unat_eq_iff simp del: of_nat_add)
  show "unat (of_nat n :: u8) = n" using assms by (simp add: unat_of_nat)
qed

lemma ntoa_inv_digits: "rev (ntoa_inv b) = dec_digits (unat b)"
proof (induction b rule: ntoa_inv.induct)
  case (1 b)
  have m: "b mod 10 = of_nat (unat b mod 10)" 
    by (simp add: word_unat_eq_iff unat_mod unat_of_nat)
  have z: "b div 10 = 0 \<longleftrightarrow> unat b < 10"
    by (auto simp: unat_eq_0 [symmetric] unat_div div_eq_0_iff simp del: unat_eq_0)
  show ?case
  proof (cases "b div 10 = 0")
    case True
    then show ?thesis using z m by (simp add: ntoa_inv.simps [of b] dec_digits.simps [of "unat b"] Let_def)
  next
    case False
    then have "rev (ntoa_inv (b div 10)) = dec_digits (unat (b div 10))" by (intro 1) auto
    then show ?thesis using False z m by (simp add: ntoa_inv.simps [of b] dec_digits.simps [of "unat b"] Let_def unat_div)
  qed
qed

lemma dec_digits_isdigit: "\<forall>c\<in>set (dec_digits n). lwip_isdigit c"
proof (induction n rule: dec_digits.induct)
  case (1 n)
  then show ?case
    using digit_char(1) [of n] digit_char(1) [of "n mod 10"]
    by (auto simp: dec_digits.simps [of n])
qed

lemma hd_dec_digits: "n \<noteq> 0 \<Longrightarrow> \<exists>c cs. dec_digits n = c # cs \<and> c \<noteq> 48"
proof (induction n rule: dec_digits.induct)
  case (1 n)
  show ?case
  proof (cases "n < 10")
    case True
    then show ?thesis using 1 digit_char(3) [of n] by (simp add: dec_digits.simps [of n])
  next
    case False
    then have "n div 10 \<noteq> 0" by simp
    with 1 False obtain c cs where "dec_digits (n div 10) = c # cs" "c \<noteq> 48" by blast
    with False show ?thesis by (simp add: dec_digits.simps [of n])
  qed
qed

lemma aton_digits_append:
  "\<forall>c\<in>set ds. lwip_isdigit c \<Longrightarrow>
   aton_digits (ds @ rest) base v = aton_digits rest base (foldl (\<lambda>v c. v * base + ucast (c - 48)) v ds)"
  by (induction ds arbitrary: v) simp_all

lemma foldl_dec_digits:
  "foldl (\<lambda>v c. v * 10 + ucast (c - 48)) 0 (dec_digits n) = (of_nat n :: u32)"
proof (induction n rule: dec_digits.induct)
  case (1 n)
  show ?case
  proof (cases "n < 10")
    case True
    then show ?thesis using digit_char(2,4) [of n] by (simp add: dec_digits.simps [of n] unsigned_of_nat take_bit_nat_eq_self)
  next
    case False
    have "(of_nat (n div 10) :: u32) * 10 + of_nat (n mod 10) = of_nat (n div 10 * 10 + n mod 10)"
      by (simp only: of_nat_add of_nat_mult of_nat_numeral)
    also have "n div 10 * 10 + n mod 10 = n" by simp
    finally show ?thesis using False 1 digit_char(2,4) [of "n mod 10"]
      by (simp add: dec_digits.simps [of n] unsigned_of_nat take_bit_nat_eq_self)
  qed
qed

lemma aton_number_dec_digits:
  assumes "x = 46 \<or> x = 0"
  shows "aton_number (dec_digits n @ x # rest) = Inr (of_nat n, x # rest)"
proof -
  have stop: "aton_digits (x # rest) base v = Inr (v, x # rest)" for base v
    using assms by (auto simp: lwip_isdigit_def lwip_isxdigit_def lwip_in_range_def)
  show ?thesis
  proof (cases "n = 0")
    case True
    then show ?thesis using assms stop by (auto simp: dec_digits.simps [of 0] simp del: aton_digits.simps)
  next
    case False
    then obtain c cs where c: "dec_digits n = c # cs" "c \<noteq> 48" using hd_dec_digits by blast
    then have "aton_number (dec_digits n @ x # rest) = aton_digits (dec_digits n @ x # rest) 10 0" by simp
    also have "\<dots> = Inr (of_nat n, x # rest)"
      by (simp only: aton_digits_append [OF dec_digits_isdigit] foldl_dec_digits stop)
    finally show ?thesis .
  qed
qed

lemma aton_parts_dec_digits:
  "aton_parts parts (dec_digits n @ 46 # rest) =
     (if length parts \<ge> 3 then Inr None else aton_parts (parts @ [of_nat n]) rest)"
  "aton_parts parts (dec_digits n @ 0 # rest) = Inr (Some (parts, of_nat n, 0))"
proof -
  obtain c cs where c: "dec_digits n = c # cs"
    by (metis dec_digits.simps neq_Nil_conv append_is_Nil_conv)
  then have "lwip_isdigit c" using dec_digits_isdigit [of n] by simp
  with c aton_number_dec_digits [of 46 n rest] aton_number_dec_digits [of 0 n rest]
  show "aton_parts parts (dec_digits n @ 46 # rest) =
     (if length parts \<ge> 3 then Inr None else aton_parts (parts @ [of_nat n]) rest)"
    and "aton_parts parts (dec_digits n @ 0 # rest) = Inr (Some (parts, of_nat n, 0))"
    by (simp_all add: aton_parts.simps [of parts] del: aton_number.simps)
qed

lemma combine_bytes:
  "lwip_htonl (ucast (ucast (drop_bit 24 a) :: u8) OR (push_bit 24 (ucast (ucast a :: u8))
     OR push_bit 16 (ucast (ucast (drop_bit 8 a) :: u8)) OR push_bit 8 (ucast (ucast (drop_bit 16 a) :: u8)))) = a"
   (is "lwip_htonl ?E = a")
proof -
  have "?E = lwip_htonl a"
  proof (rule bit_word_eqI)
    fix i assume "i < LENGTH(32)"
    then have "i < 32" by simp
    then consider "i < 8" | "8 \<le> i" "i < 16" | "16 \<le> i" "i < 24" | "24 \<le> i" "i < 32"
      by linarith
    then show "bit ?E i \<longleftrightarrow> bit (lwip_htonl a) i"
    proof cases
      case 1
      then show ?thesis by (auto simp: bit_lwip_htonl bit_simps add.commute)
    next
      case 2
      then have "i div 8 = 1" "i mod 8 = i - 8" by (simp_all add: div_nat_eqI mod_nat_eqI)
      with 2 show ?thesis by (auto simp: bit_lwip_htonl bit_simps)
    next
      case 3
      then have "i div 8 = 2" "i mod 8 = i - 16" by (simp_all add: div_nat_eqI mod_nat_eqI)
      with 3 show ?thesis by (auto simp: bit_lwip_htonl bit_simps)
    next
      case 4
      then have "i div 8 = 3" "i mod 8 = i - 24" by (simp_all add: div_nat_eqI mod_nat_eqI)
      with 4 show ?thesis by (auto simp: bit_lwip_htonl bit_simps)
    qed
  qed
  then show ?thesis by (simp add: lwip_htonl_htonl)
qed

lemma aton_dotted: "ip4addr_aton (butlast (dotted a) @ [0]) = Inr (Some a)"
proof -
  have u: "ucast (b :: u8) \<le> (0xff :: u32)" for b
    using unat_bound_u8 [of b] by (simp add: word_nat_compare unat_ucast_u32 del: unat_bound_u8)
  have "aton_parts [] (butlast (dotted a) @ [0]) =
      Inr (Some (map (\<lambda>b. of_nat (unat b)) (take 3 (memory_bytes a)), of_nat (unat (memory_bytes a ! 3)), 0))"
    by (simp add: dotted_def memory_bytes_def aton_parts_dec_digits butlast_append)
  then show ?thesis using u
    by (simp add: ip4addr_aton_def memory_bytes_def aton_combine_def not_less combine_bytes)
qed

lemma ntoa_puts_eq:
  "ntoa_puts buflen cs out =
     (if cs = [] \<or> int (length out + length cs) \<le> buflen then Some (out @ cs) else None)"
  by (induction cs arbitrary: out) (auto simp: ntoa_put_def)

lemma ntoa_bytes_eq:
  "ntoa_bytes buflen aps out =
     (let text = concat (map (\<lambda>b. dec_digits (unat b) @ [46]) aps) in
      if text = [] \<or> int (length out + length text) \<le> buflen then Some (out @ text) else None)"
  by (induction aps arbitrary: out) (auto simp: ntoa_puts_eq ntoa_put_def ntoa_inv_digits Let_def)

lemma dotted_nonempty: "dotted a \<noteq> []"
  by (simp add: dotted_def memory_bytes_def)

lemma ntoa_r_eq:
  "ip4addr_ntoa_r a buflen =
     (if int (length (dotted a)) \<le> buflen then Some (butlast (dotted a) @ [0]) else None)"
  using dotted_nonempty [of a]
  by (simp add: ip4addr_ntoa_r_def ntoa_bytes_eq dotted_def [symmetric] Let_def)

lemma length_dec_digits_u8: "n < 256 \<Longrightarrow> length (dec_digits n) \<le> 3"
  by (simp add: dec_digits.simps [of n] dec_digits.simps [of "n div 10"] dec_digits.simps [of "n div 10 div 10"]) 

lemma length_dotted: "length (dotted a) \<le> 16"
proof -
  have "length (dec_digits (unat b)) \<le> 3" for b :: u8 by (rule length_dec_digits_u8) simp
  from this [of "memory_bytes a ! 0"] this [of "memory_bytes a ! 1"]
    this [of "memory_bytes a ! 2"] this [of "memory_bytes a ! 3"]
  show ?thesis by (simp add: dotted_def memory_bytes_def)
qed

subsection \<open>Properties\<close>

text \<open>
  printing an IPv4 address into a buffer of \<open>IP4ADDR_STRLEN_MAX\<close> bytes always succeeds, writes at
  most that many bytes, and reading the text back with \<open>ip4addr_aton\<close> gives the same address.
\<close>

theorem ip4addr_ntoa_aton:
  "\<exists>text. ip4addr_ntoa a = Some text \<and> length text \<le> 16 \<and> ip4addr_aton text = Inr (Some a)"
  using length_dotted [of a] dotted_nonempty [of a]
  by (auto simp: ip4addr_ntoa_def IP4ADDR_STRLEN_MAX_def ntoa_r_eq aton_dotted)

text \<open>
  \<open>ip4addr_ntoa_r\<close> never writes past the buffer it is given: it returns \<open>NULL\<close> exactly when the
  text with its terminator does not fit, and otherwise what it writes fits.
\<close>

theorem ip4addr_ntoa_r_bounds:
  "case ip4addr_ntoa_r a buflen of
     None \<Rightarrow> buflen < int (length (dotted a))
   | Some text \<Rightarrow> int (length text) \<le> buflen \<and> c_string text = butlast (dotted a)"
proof -
  have "0 \<notin> set (dotted a)"
    using dec_digits_isdigit
    by (fastforce simp: dotted_def memory_bytes_def lwip_isdigit_def lwip_in_range_def)
  then have "0 \<notin> set (butlast (dotted a))" by (meson in_set_butlastD)
  then show ?thesis
    using dotted_nonempty [of a] takeWhile_neq_append_stop [of 0 "butlast (dotted a)" "[]"]
    by (auto simp: ntoa_r_eq c_string_def)
qed

text \<open>
  a net mask is accepted exactly if it is a block of ones followed by a block of zeros in network
  order, that is the complement of \<open>k\<close> low bits for some prefix length \<open>32 - k\<close>.
\<close>

theorem ip4_addr_netmask_valid_correct:
  "ip4_addr_netmask_valid nm \<longleftrightarrow> (\<exists>k\<le>32. nm = lwip_htonl (NOT (mask k)))"
  using netmask_valid_iff [of nm] lwip_htonl_htonl by metis

text \<open>The numbers of an address are read modulo \<open>2 ^ 32\<close>: text that is no address is accepted.\<close>

lemma ip4addr_aton_accepts_overflow:
  "ip4addr_aton (map of_char ''4294967297'' @ [0]) = Inr (Some (lwip_htonl 1))"
  by code_simp

end
