(* ===== verification/Ip_Addr.thy ===== *)
theory Ip_Addr
  imports Ip4_Addr
begin

text \<open>
  Addresses of both IP versions, \<open>include/lwip/ip6_addr.h\<close> and \<open>include/lwip/ip_addr.h\<close>. An IPv6 address
  is an array of four \<open>u32_t\<close> in network byte order and a zone; \<open>ip_addr_t\<close> is a union of the two kinds
  of addresses, whose IPv4 member shares its memory with the first word, and a type.
\<close>

record ip6_addr =
  addr :: "u32 list"
  zone :: u8

record ip_addr =
  u_addr :: ip6_addr
  ip_type :: u8

definition IPADDR_TYPE_V4 :: u8 where "IPADDR_TYPE_V4 = 0"
definition IPADDR_TYPE_V6 :: u8 where "IPADDR_TYPE_V6 = 6"
definition IPADDR_TYPE_ANY :: u8 where "IPADDR_TYPE_ANY = 46"

definition ip_2_ip6 :: "ip_addr \<Rightarrow> ip6_addr" where
  "ip_2_ip6 a = u_addr a"

definition ip_2_ip4 :: "ip_addr \<Rightarrow> u32" where
  "ip_2_ip4 a = addr (u_addr a) ! 0"

definition IP_IS_V6 :: "ip_addr \<Rightarrow> bool" where
  "IP_IS_V6 a \<longleftrightarrow> ip_type a = IPADDR_TYPE_V6"

definition IP_IS_V4 :: "ip_addr \<Rightarrow> bool" where
  "IP_IS_V4 a \<longleftrightarrow> ip_type a = IPADDR_TYPE_V4"

text \<open>The array has four words.\<close>

definition ip6_wf :: "ip6_addr \<Rightarrow> bool" where
  "ip6_wf a \<longleftrightarrow> length (addr a) = 4"

lemma ip6_wf_cases:
  assumes "ip6_wf a"
  obtains a0 a1 a2 a3 where "addr a = [a0, a1, a2, a3]"
  using assms by (auto simp: ip6_wf_def length_Suc_conv numeral_eq_Suc)

end
