(* ===== verification/Mem.thy ===== *)
theory Mem
  imports Allocator
begin

text \<open>
  The heap of the stack, \<open>core/mem.c\<close> as it is compiled here (\<open>MEM_SIZE\<close> 3200, \<open>MEM_ALIGNMENT\<close> 4,
  no pools, no overflow or sanity check, no frees from other contexts). The heap is an array \<open>ram\<close>
  cut into blocks, each with a \<open>struct mem\<close> in front that holds the index of the next and of the
  previous block and whether the block is used; \<open>lfree\<close> is the lowest free block.

  The state holds the structs as a map from the index to the struct: an index nobody has written a
  struct to holds some struct, as memory holds some bytes. Indices are numbers; where the code casts
  to \<open>mem_size_t\<close> (\<open>u16_t\<close>) the model takes the value modulo \<open>2 ^ 16\<close>, and where it
  subtracts in \<open>size_t\<close> modulo \<open>2 ^ 32\<close>.
\<close>

record mem_struct =
  mem_next :: nat
  mem_prev :: nat
  mem_used :: nat

record mem_heap =
  structs :: "nat \<Rightarrow> mem_struct"
  lfree :: nat
  ram :: nat

definition LWIP_MEM_ALIGN_SIZE :: "nat \<Rightarrow> nat" where
  "LWIP_MEM_ALIGN_SIZE sz = (sz + 3) div 4 * 4"

definition MIN_SIZE_ALIGNED :: nat where "MIN_SIZE_ALIGNED = 12"
definition SIZEOF_STRUCT_MEM :: nat where "SIZEOF_STRUCT_MEM = 8"
definition MEM_SIZE_ALIGNED :: nat where "MEM_SIZE_ALIGNED = 3200"

definition mem_size_t :: "nat \<Rightarrow> nat" where
  "mem_size_t n = n mod 2 ^ 16"

definition size_t_minus :: "nat \<Rightarrow> nat \<Rightarrow> nat" where
  "size_t_minus a b = (a + (2 ^ 32 - b)) mod 2 ^ 32"

text \<open>Assignments \<open>mem->next = v\<close>, \<open>mem->prev = v\<close> and \<open>mem->used = v\<close>.\<close>

definition set_next :: "nat \<Rightarrow> nat \<Rightarrow> mem_heap \<Rightarrow> mem_heap" where
  "set_next m v h = h\<lparr>structs := (structs h)(m := (structs h m)\<lparr>mem_next := v\<rparr>)\<rparr>"

definition set_prev :: "nat \<Rightarrow> nat \<Rightarrow> mem_heap \<Rightarrow> mem_heap" where
  "set_prev m v h = h\<lparr>structs := (structs h)(m := (structs h m)\<lparr>mem_prev := v\<rparr>)\<rparr>"

definition set_used :: "nat \<Rightarrow> nat \<Rightarrow> mem_heap \<Rightarrow> mem_heap" where
  "set_used m v h = h\<lparr>structs := (structs h)(m := (structs h m)\<lparr>mem_used := v\<rparr>)\<rparr>"

abbreviation next_of :: "mem_heap \<Rightarrow> nat \<Rightarrow> nat" where
  "next_of h m \<equiv> mem_next (structs h m)"

abbreviation prev_of :: "mem_heap \<Rightarrow> nat \<Rightarrow> nat" where
  "prev_of h m \<equiv> mem_prev (structs h m)"

abbreviation used_of :: "mem_heap \<Rightarrow> nat \<Rightarrow> nat" where
  "used_of h m \<equiv> mem_used (structs h m)"

subsection \<open>Initialisation and merging of free blocks\<close>

definition mem_init :: "mem_heap \<Rightarrow> mem_heap" where
  "mem_init h =
     (let mem = 0;
          h = set_next mem MEM_SIZE_ALIGNED h;
          h = set_prev mem 0 h;
          h = set_used mem 0 h;
          ram_end = MEM_SIZE_ALIGNED;
          h = set_used ram_end 1 h;
          h = set_next ram_end MEM_SIZE_ALIGNED h;
          h = set_prev ram_end MEM_SIZE_ALIGNED h
      in h\<lparr>lfree := 0\<rparr>)"

definition plug_forward :: "nat \<Rightarrow> mem_heap \<Rightarrow> mem_heap" where
  "plug_forward mem h =
     (let nmem = next_of h mem in
      if mem \<noteq> nmem \<and> used_of h nmem = 0 \<and> nmem \<noteq> MEM_SIZE_ALIGNED then
        let h = (if lfree h = nmem then h\<lparr>lfree := mem\<rparr> else h);
            h = set_next mem (next_of h nmem) h
        in if next_of h nmem \<noteq> MEM_SIZE_ALIGNED then set_prev (next_of h nmem) mem h else h
      else h)"

definition plug_backward :: "nat \<Rightarrow> mem_heap \<Rightarrow> mem_heap" where
  "plug_backward mem h =
     (let pmem = prev_of h mem in
      if pmem \<noteq> mem \<and> used_of h pmem = 0 then
        let h = (if lfree h = mem then h\<lparr>lfree := pmem\<rparr> else h);
            h = set_next pmem (next_of h mem) h
        in if next_of h mem \<noteq> MEM_SIZE_ALIGNED then set_prev (next_of h mem) pmem h else h
      else h)"

definition plug_holes :: "nat \<Rightarrow> mem_heap \<Rightarrow> mem_heap run" where
  "plug_holes mem h =
     lwip_assert ''plug_holes: mem < ram_end'' (mem < MEM_SIZE_ALIGNED)
     (lwip_assert ''plug_holes: mem->used == 0'' (used_of h mem = 0)
     (lwip_assert ''plug_holes: mem->next <= MEM_SIZE_ALIGNED'' (next_of h mem \<le> MEM_SIZE_ALIGNED)
     (ret (plug_backward mem (plug_forward mem h)))))"

subsection \<open>Freeing\<close>

definition mem_link_valid :: "nat \<Rightarrow> mem_heap \<Rightarrow> bool" where
  "mem_link_valid mem h =
     (let rmem_idx = mem; nmem = next_of h mem; pmem = prev_of h mem in
      \<not> (next_of h mem > MEM_SIZE_ALIGNED \<or> prev_of h mem > MEM_SIZE_ALIGNED
         \<or> (prev_of h mem \<noteq> rmem_idx \<and> next_of h pmem \<noteq> rmem_idx)
         \<or> (nmem \<noteq> MEM_SIZE_ALIGNED \<and> prev_of h nmem \<noteq> rmem_idx)))"

text \<open>
  \<open>mem_free(rmem)\<close>; \<open>rmem\<close> is an address, 0 the null pointer. The addresses wrap at 32 bits, so
  \<open>mem\<close> can lie outside of the heap in one way the check does not catch.
\<close>

definition mem_free :: "nat \<Rightarrow> mem_heap \<Rightarrow> mem_heap run" where
  "mem_free rmem h =
     (if rmem = 0 then ret h
      else if rmem mod 4 \<noteq> 0 then stop (Abort ''mem_free: sanity check alignment'')
      else
        let mem_addr = size_t_minus rmem SIZEOF_STRUCT_MEM in
        if mem_addr < ram h \<or> rmem + MIN_SIZE_ALIGNED > ram h + MEM_SIZE_ALIGNED then
          stop (Abort ''mem_free: illegal memory'')
        else if mem_addr > ram h + MEM_SIZE_ALIGNED then stop Wild_pointer
        else
          let mem = mem_addr - ram h in
          if used_of h mem = 0 then stop (Abort ''mem_free: illegal memory: double free'')
          else if \<not> mem_link_valid mem h then
            stop (Abort ''mem_free: illegal memory: non-linked: double free'')
          else
            let h = set_used mem 0 h;
                h = (if mem < lfree h then h\<lparr>lfree := mem\<rparr> else h)
            in plug_holes mem h)"

subsection \<open>Shrinking\<close>

text \<open>The next block is free: it is moved down to \<open>ptr2\<close>, right behind the shrunk block \<open>mem\<close>.\<close>

definition trim_move_next :: "nat \<Rightarrow> nat \<Rightarrow> mem_heap \<Rightarrow> mem_heap" where
  "trim_move_next mem ptr2 h =
     (let mem2 = next_of h mem;
          next = next_of h mem2;
          h = (if lfree h = mem2 then h\<lparr>lfree := ptr2\<rparr> else h);
          mem2 = ptr2;
          h = set_used mem2 0 h;
          h = set_next mem2 next h;
          h = set_prev mem2 mem h;
          h = set_next mem ptr2 h
      in if next_of h mem2 \<noteq> MEM_SIZE_ALIGNED then set_prev (next_of h mem2) ptr2 h else h)"

text \<open>The next block is used: what is cut off becomes a free block of its own at \<open>ptr2\<close>.\<close>

definition trim_split :: "nat \<Rightarrow> nat \<Rightarrow> mem_heap \<Rightarrow> mem_heap" where
  "trim_split mem ptr2 h =
     (let mem2 = ptr2;
          h = (if mem2 < lfree h then h\<lparr>lfree := mem2\<rparr> else h);
          h = set_used mem2 0 h;
          h = set_next mem2 (next_of h mem) h;
          h = set_prev mem2 mem h;
          h = set_next mem ptr2 h
      in if next_of h mem2 \<noteq> MEM_SIZE_ALIGNED then set_prev (next_of h mem2) ptr2 h else h)"

text \<open>The result is the address that is returned (0 is \<open>NULL\<close>) and the heap.\<close>

definition mem_trim :: "nat \<Rightarrow> nat \<Rightarrow> mem_heap \<Rightarrow> (nat \<times> mem_heap) run" where
  "mem_trim rmem new_size h =
     (let newsize = mem_size_t (LWIP_MEM_ALIGN_SIZE new_size);
          newsize = (if newsize < MIN_SIZE_ALIGNED then MIN_SIZE_ALIGNED else newsize)
      in if newsize > MEM_SIZE_ALIGNED \<or> newsize < new_size then ret (0, h)
      else lwip_assert ''mem_trim: legal memory'' (ram h \<le> rmem \<and> rmem < ram h + MEM_SIZE_ALIGNED)
       (if rmem < ram h + SIZEOF_STRUCT_MEM then stop Wild_pointer
        else
        let mem = rmem - SIZEOF_STRUCT_MEM - ram h;
            ptr = mem;
            sz = mem_size_t (size_t_minus (mem_size_t (size_t_minus (next_of h mem) ptr)) SIZEOF_STRUCT_MEM);
            ptr2 = mem_size_t (ptr + SIZEOF_STRUCT_MEM + newsize)
        in lwip_assert ''mem_trim can only shrink memory'' (newsize \<le> sz)
         (if newsize = sz then ret (rmem, h)
          else if used_of h (next_of h mem) = 0 then
            lwip_assert ''invalid next ptr'' (next_of h mem \<noteq> MEM_SIZE_ALIGNED)
             (ret (rmem, trim_move_next mem ptr2 h))
          else if newsize + SIZEOF_STRUCT_MEM + MIN_SIZE_ALIGNED \<le> sz then
            lwip_assert ''invalid next ptr'' (next_of h mem \<noteq> MEM_SIZE_ALIGNED)
             (ret (rmem, trim_split mem ptr2 h))
          else ret (rmem, h))))"

subsection \<open>Allocating\<close>

text \<open>The loop \<open>while (cur->used && cur != ram_end)\<close> that finds the next free block.\<close>

partial_function (option) next_free :: "mem_heap \<Rightarrow> nat \<Rightarrow> nat run" where
  "next_free h cur =
     (if used_of h cur \<noteq> 0 \<and> cur \<noteq> MEM_SIZE_ALIGNED then next_free h (next_of h cur) else ret cur)"

text \<open>The scan for a free block that is big enough, beginning with the lowest free block.\<close>

partial_function (option) find_block :: "nat \<Rightarrow> mem_heap \<Rightarrow> nat \<Rightarrow> nat option run" where
  "find_block sz h ptr =
     (if ptr < MEM_SIZE_ALIGNED - sz then
        if used_of h ptr = 0 \<and> size_t_minus (next_of h ptr) (ptr + SIZEOF_STRUCT_MEM) \<ge> sz
        then ret (Some ptr)
        else find_block sz h (next_of h ptr)
      else ret None)"

text \<open>Taking the block \<open>ptr\<close>: split it if the rest can hold a block, or take all of it.\<close>

definition take_block :: "nat \<Rightarrow> nat \<Rightarrow> mem_heap \<Rightarrow> mem_heap run" where
  "take_block sz ptr h =
     (let mem = ptr in
      if size_t_minus (next_of h mem) (ptr + SIZEOF_STRUCT_MEM)
           \<ge> sz + SIZEOF_STRUCT_MEM + MIN_SIZE_ALIGNED then
        let ptr2 = mem_size_t (ptr + SIZEOF_STRUCT_MEM + sz)
        in lwip_assert ''invalid next ptr'' (ptr2 \<noteq> MEM_SIZE_ALIGNED)
         (let mem2 = ptr2;
              h = set_used mem2 0 h;
              h = set_next mem2 (next_of h mem) h;
              h = set_prev mem2 ptr h;
              h = set_next mem ptr2 h;
              h = set_used mem 1 h;
              h = (if next_of h mem2 \<noteq> MEM_SIZE_ALIGNED then set_prev (next_of h mem2) ptr2 h else h)
          in ret h)
      else ret (set_used mem 1 h))"

definition adjust_lfree :: "nat \<Rightarrow> mem_heap \<Rightarrow> mem_heap run" where
  "adjust_lfree mem h =
     (if mem = lfree h then
        bind_run (next_free h (lfree h)) (\<lambda>cur.
          let h = h\<lparr>lfree := cur\<rparr>
          in lwip_assert ''mem_malloc: !lfree->used''
               (lfree h = MEM_SIZE_ALIGNED \<or> used_of h (lfree h) = 0) (ret h))
      else ret h)"

text \<open>\<open>mem_malloc(size_in)\<close>: the address of the memory, or \<open>None\<close> for \<open>NULL\<close>, and the heap.\<close>

definition mem_malloc :: "nat \<Rightarrow> mem_heap \<Rightarrow> (nat option \<times> mem_heap) run" where
  "mem_malloc size_in h =
     (if size_in = 0 then ret (None, h)
      else
        let sz = mem_size_t (LWIP_MEM_ALIGN_SIZE size_in);
            sz = (if sz < MIN_SIZE_ALIGNED then MIN_SIZE_ALIGNED else sz)
        in if sz > MEM_SIZE_ALIGNED \<or> sz < size_in then ret (None, h)
        else
          bind_run (find_block sz h (lfree h)) (\<lambda>r.
            case r of
              None \<Rightarrow> ret (None, h)
            | Some mem \<Rightarrow>
                bind_run (take_block sz mem h) (\<lambda>h.
                bind_run (adjust_lfree mem h) (\<lambda>h.
                  lwip_assert ''mem_malloc: allocated memory not above ram_end.''
                    (mem + SIZEOF_STRUCT_MEM + sz \<le> MEM_SIZE_ALIGNED)
                  (lwip_assert ''mem_malloc: allocated memory properly aligned.''
                    ((ram h + mem + SIZEOF_STRUCT_MEM) mod 4 = 0)
                  (lwip_assert ''mem_malloc: sanity check alignment'' ((ram h + mem) mod 4 = 0)
                    (ret (Some (ram h + mem + SIZEOF_STRUCT_MEM), h))))))))"

text \<open>\<open>mem_calloc(count, size)\<close>; the bytes that are zeroed are the range the caller gets.\<close>

definition mem_calloc :: "nat \<Rightarrow> nat \<Rightarrow> mem_heap \<Rightarrow> ((nat \<times> nat) option \<times> mem_heap) run" where
  "mem_calloc count sz h =
     (let alloc_size = (count * sz) mod 2 ^ 32 in
      if mem_size_t alloc_size \<noteq> alloc_size then ret (None, h)
      else bind_run (mem_malloc (mem_size_t alloc_size) h) (\<lambda>(p, h).
        case p of None \<Rightarrow> ret (None, h) | Some a \<Rightarrow> ret (Some (a, alloc_size), h)))"

subsection \<open>The well-formed heap\<close>

text \<open>The blocks from index \<open>b\<close> on; the walk stops where the links leave the heap or do not advance.\<close>

function blocks_from :: "mem_heap \<Rightarrow> nat \<Rightarrow> nat list" where
  "blocks_from h b =
     (if b < MEM_SIZE_ALIGNED \<and> b < next_of h b then b # blocks_from h (next_of h b) else [])"
  by pat_completeness auto
termination
  by (relation "measure (\<lambda>(h, b). MEM_SIZE_ALIGNED - b)") auto

declare blocks_from.simps [simp del]

text \<open>
  \<open>segment h p b xs c\<close>: from block \<open>b\<close>, whose predecessor is \<open>p\<close>, the links lead through the
  blocks \<open>xs\<close> to \<open>c\<close>; each block is aligned and has room for its struct and the least size.
\<close>

fun segment :: "mem_heap \<Rightarrow> nat \<Rightarrow> nat \<Rightarrow> nat list \<Rightarrow> nat \<Rightarrow> bool" where
  "segment h p b [] c \<longleftrightarrow> b = c"
| "segment h p b (x # xs) c \<longleftrightarrow>
     x = b \<and> 4 dvd b \<and> b + SIZEOF_STRUCT_MEM + MIN_SIZE_ALIGNED \<le> next_of h b \<and> prev_of h b = p
     \<and> segment h b (next_of h b) xs c"

definition heap_blocks :: "mem_heap \<Rightarrow> nat list" where
  "heap_blocks h = blocks_from h 0"

fun no_adjacent_free :: "mem_heap \<Rightarrow> nat list \<Rightarrow> bool" where
  "no_adjacent_free h (x # y # xs) \<longleftrightarrow>
     (used_of h x \<noteq> 0 \<or> used_of h y \<noteq> 0) \<and> no_adjacent_free h (y # xs)"
| "no_adjacent_free h _ \<longleftrightarrow> True"

definition lfree_ok :: "mem_heap \<Rightarrow> nat list \<Rightarrow> bool" where
  "lfree_ok h xs \<longleftrightarrow>
     (lfree h \<in> set xs \<and> used_of h (lfree h) = 0 \<or> lfree h = MEM_SIZE_ALIGNED)
     \<and> list_all (\<lambda>x. x < lfree h \<longrightarrow> used_of h x \<noteq> 0) xs"

definition end_ok :: "mem_heap \<Rightarrow> bool" where
  "end_ok h \<longleftrightarrow> used_of h MEM_SIZE_ALIGNED = 1 \<and> next_of h MEM_SIZE_ALIGNED = MEM_SIZE_ALIGNED
     \<and> prev_of h MEM_SIZE_ALIGNED = MEM_SIZE_ALIGNED \<and> ram h mod 4 = 0 \<and> 8 \<le> ram h
     \<and> ram h + MEM_SIZE_ALIGNED + SIZEOF_STRUCT_MEM \<le> 2 ^ 32"

definition heap_inv :: "mem_heap \<Rightarrow> bool" where
  "heap_inv h \<longleftrightarrow>
     (let xs = heap_blocks h in
      segment h 0 0 xs MEM_SIZE_ALIGNED \<and> xs \<noteq> [] \<and> no_adjacent_free h xs \<and> lfree_ok h xs \<and> end_ok h)"

text \<open>The used and the free blocks, each with the index it ends at: what the heap is to its clients.\<close>

definition used_blocks :: "mem_heap \<Rightarrow> (nat \<times> nat) set" where
  "used_blocks h = {(x, next_of h x) | x. x \<in> set (heap_blocks h) \<and> used_of h x \<noteq> 0}"

definition free_blocks :: "mem_heap \<Rightarrow> (nat \<times> nat) set" where
  "free_blocks h = {(x, next_of h x) | x. x \<in> set (heap_blocks h) \<and> used_of h x = 0}"

text \<open>
  The same invariant with the block list as an argument, the blocks of a part of the list that are
  used, the heap between the freeing of a block and the merging, the heap after a shrink.
\<close>

definition heap_wf :: "mem_heap \<Rightarrow> nat list \<Rightarrow> bool" where
  "heap_wf h xs \<longleftrightarrow> segment h 0 0 xs MEM_SIZE_ALIGNED \<and> xs \<noteq> [] \<and> no_adjacent_free h xs
     \<and> lfree_ok h xs \<and> end_ok h"

text \<open>The size \<open>mem_malloc\<close> looks for: aligned, and at least the minimum.\<close>

definition request :: "nat \<Rightarrow> nat" where
  "request n = max MIN_SIZE_ALIGNED (LWIP_MEM_ALIGN_SIZE n)"

definition used_in :: "mem_heap \<Rightarrow> nat list \<Rightarrow> (nat \<times> nat) set" where
  "used_in h xs = {(x, next_of h x) | x. x \<in> set xs \<and> used_of h x \<noteq> 0}"

text \<open>The heap between the freeing of \<open>x\<close> and the merging with its neighbours.\<close>

definition freed_at :: "mem_heap \<Rightarrow> nat list \<Rightarrow> nat \<Rightarrow> nat list \<Rightarrow> bool" where
  "freed_at h as x bs \<longleftrightarrow> segment h 0 0 (as @ x # bs) MEM_SIZE_ALIGNED \<and> used_of h x = 0
     \<and> no_adjacent_free h as \<and> no_adjacent_free h bs \<and> lfree_ok h (as @ x # bs) \<and> end_ok h"

definition trimmed :: "nat \<Rightarrow> nat \<Rightarrow> nat \<Rightarrow> nat \<Rightarrow> mem_heap \<Rightarrow> mem_heap" where
  "trimmed x q n l h =
     (let h = set_next x q (set_prev q x (set_next q n (set_used q 0 (h\<lparr>lfree := l\<rparr>))))
      in if n \<noteq> MEM_SIZE_ALIGNED then set_prev n q h else h)"

text \<open>The addresses the clients hold, and two heaps for the witnesses below.\<close>

definition heap_live :: "mem_heap \<Rightarrow> nat set" where
  "heap_live h = (\<lambda>(x, e). ram h + x + SIZEOF_STRUCT_MEM) ` used_blocks h"

definition example_heap :: mem_heap where
  "example_heap = \<lparr>structs = (\<lambda>_. \<lparr>mem_next = 0, mem_prev = 0, mem_used = 0\<rparr>)
     (0 := \<lparr>mem_next = 120, mem_prev = 0, mem_used = 1\<rparr>,
      120 := \<lparr>mem_next = 3200, mem_prev = 0, mem_used = 0\<rparr>,
      3200 := \<lparr>mem_next = 3200, mem_prev = 3200, mem_used = 1\<rparr>), lfree = 120, ram = 1000\<rparr>"

definition example_full :: mem_heap where
  "example_full = \<lparr>structs = (\<lambda>_. \<lparr>mem_next = 0, mem_prev = 0, mem_used = 0\<rparr>)
     (0 := \<lparr>mem_next = 3200, mem_prev = 0, mem_used = 1\<rparr>,
      3200 := \<lparr>mem_next = 3200, mem_prev = 3200, mem_used = 1\<rparr>), lfree = 3200, ram = 1000\<rparr>"

subsection \<open>Reading the heap after an assignment\<close>

lemma structs_update_simps [simp]:
  "next_of (set_next m v h) x = (if x = m then v else next_of h x)"
  "prev_of (set_next m v h) x = prev_of h x"
  "used_of (set_next m v h) x = used_of h x"
  "next_of (set_prev m v h) x = next_of h x"
  "prev_of (set_prev m v h) x = (if x = m then v else prev_of h x)"
  "used_of (set_prev m v h) x = used_of h x"
  "next_of (set_used m v h) x = next_of h x"
  "prev_of (set_used m v h) x = prev_of h x"
  "used_of (set_used m v h) x = (if x = m then v else used_of h x)"
  "lfree (set_next m v h) = lfree h" "lfree (set_prev m v h) = lfree h" "lfree (set_used m v h) = lfree h"
  "ram (set_next m v h) = ram h" "ram (set_prev m v h) = ram h" "ram (set_used m v h) = ram h"
  by (simp_all add: set_next_def set_prev_def set_used_def)

lemmas mem_consts = MIN_SIZE_ALIGNED_def SIZEOF_STRUCT_MEM_def MEM_SIZE_ALIGNED_def

lemma size_t_minus_le: "b \<le> a \<Longrightarrow> a < 2 ^ 32 \<Longrightarrow> size_t_minus a b = a - b"
proof -
  assume a: "b \<le> a" "a < 2 ^ 32"
  then have "a + (2 ^ 32 - b) = (a - b) + 2 ^ 32" by simp
  then have "size_t_minus a b = ((a - b) + 2 ^ 32) mod 2 ^ 32" by (simp only: size_t_minus_def)
  also have "\<dots> = (a - b) mod 2 ^ 32" by (rule mod_add_self2)
  also have "\<dots> = a - b" using a by (intro mod_less) linarith
  finally show ?thesis .
qed

lemma mem_size_t_less: "n < 2 ^ 16 \<Longrightarrow> mem_size_t n = n"
  by (simp add: mem_size_t_def)

lemma align_size: "n \<le> LWIP_MEM_ALIGN_SIZE n" "LWIP_MEM_ALIGN_SIZE n < n + 4" "4 dvd LWIP_MEM_ALIGN_SIZE n"
  by (auto simp: LWIP_MEM_ALIGN_SIZE_def) 

subsection \<open>Segments\<close>

lemma segment_append:
  "segment h p b (xs @ ys) c \<longleftrightarrow> (\<exists>m. segment h p b xs m \<and> segment h (last (p # xs)) m ys c)"
  by (induction xs arbitrary: p b) auto

lemma segment_le: "segment h p b xs c \<Longrightarrow> b \<le> c"
  by (induction xs arbitrary: p b) (auto simp: mem_consts, fastforce)

lemma segment_bounds:
  "segment h p b xs c \<Longrightarrow> x \<in> set xs \<Longrightarrow> b \<le> x \<and> x + 20 \<le> next_of h x \<and> next_of h x \<le> c \<and> 4 dvd x"
proof (induction xs arbitrary: p b)
  case Nil
  then show ?case by simp
next
  case (Cons y ys)
  then show ?case using segment_le [of h b "next_of h b" ys c] by (auto simp: mem_consts) fastforce
qed

lemma segment_sorted: "segment h p b xs c \<Longrightarrow> sorted_wrt (<) xs"
proof (induction xs arbitrary: p b)
  case (Cons y ys)
  then have "segment h b (next_of h b) ys c" "y = b" "b < next_of h b" by (auto simp: mem_consts)
  with Cons.IH [OF this(1)] segment_bounds [OF this(1)] show ?case by fastforce
qed simp

lemma segment_distinct: "segment h p b xs c \<Longrightarrow> distinct xs"
  by (metis segment_sorted strict_sorted_iff)

lemma segment_relink:
  assumes "segment h p b ys c"
    and "\<forall>y\<in>set ys. next_of h' y = next_of h y"
    and "\<forall>y\<in>set (tl ys). prev_of h' y = prev_of h y"
    and "ys \<noteq> [] \<Longrightarrow> prev_of h' b = p'"
  shows "segment h' p' b ys c"
  using assms
proof (induction ys arbitrary: p p' b)
  case (Cons y ys)
  have "segment h' b (next_of h b) ys c"
  proof (rule Cons.IH)
    show "segment h b (next_of h b) ys c" using Cons.prems by simp
    show "\<forall>y\<in>set ys. next_of h' y = next_of h y" using Cons.prems by simp
    show "\<forall>y\<in>set (tl ys). prev_of h' y = prev_of h y" using Cons.prems by (cases ys) auto
    show "prev_of h' (next_of h b) = b" if "ys \<noteq> []" using that Cons.prems by (cases ys) auto
  qed
  with Cons.prems show ?case by simp
qed simp

lemma segment_cong:
  assumes "segment h p b ys c"
    and "\<forall>y\<in>set ys. next_of h' y = next_of h y \<and> prev_of h' y = prev_of h y"
  shows "segment h' p b ys c"
  by (rule segment_relink [OF assms(1)]) (use assms in \<open>cases ys; auto\<close>)+

lemma segment_tl_bounds: "segment h p b ys c \<Longrightarrow> y \<in> set (tl ys) \<Longrightarrow> b < y"
  using segment_sorted [of h p b ys c] by (cases ys) auto

lemma blocks_from_segment: "segment h p b xs MEM_SIZE_ALIGNED \<Longrightarrow> blocks_from h b = xs"
proof (induction xs arbitrary: p b)
  case Nil
  then show ?case by (simp add: blocks_from.simps)
next
  case (Cons x xs)
  then have "segment h b (next_of h b) xs MEM_SIZE_ALIGNED" by simp
  with Cons segment_le [OF this] show ?case
    by (subst blocks_from.simps) (auto simp: mem_consts)
qed

text \<open>Inserting a block \<open>q\<close> behind \<open>x\<close>, and taking the block behind \<open>x\<close> out.\<close>

lemma segment_insert:
  assumes seg: "segment h p b (xs @ x # ys) c"
    and q: "x + 20 \<le> q" "q + 20 \<le> next_of h x" "4 dvd q"
    and upd: "next_of h' x = q" "prev_of h' x = prev_of h x" "next_of h' q = next_of h x" "prev_of h' q = x"
    and nxt: "ys \<noteq> [] \<Longrightarrow> prev_of h' (next_of h x) = q"
    and other: "\<And>y. y \<noteq> x \<Longrightarrow> y \<noteq> q \<Longrightarrow> next_of h' y = next_of h y"
      "\<And>y. y \<noteq> x \<Longrightarrow> y \<noteq> q \<Longrightarrow> y \<noteq> next_of h x \<Longrightarrow> prev_of h' y = prev_of h y"
  shows "segment h' p b (xs @ x # q # ys) c"
proof -
  from seg have s1: "segment h p b xs x" and s2: "segment h x (next_of h x) ys c"
    and px: "prev_of h x = last (p # xs)" and dx: "4 dvd x"
    by (auto simp: segment_append)
  have "\<forall>y\<in>set xs. y < x" using segment_bounds [OF s1] by fastforce
  then have "segment h' p b xs x" using q by (intro segment_cong [OF s1]) (auto simp: other)
  moreover have "\<forall>y\<in>set ys. next_of h x \<le> y" "\<forall>y\<in>set (tl ys). next_of h x < y"
    using segment_bounds [OF s2] segment_tl_bounds [OF s2] by auto
  then have "segment h' q (next_of h x) ys c" using q nxt by (intro segment_relink [OF s2]) (auto simp: other)
  ultimately show ?thesis
    using upd q px dx by (auto simp: segment_append mem_consts)
qed

lemma segment_remove:
  assumes seg: "segment h p b (xs @ x # y # ys) c"
    and upd: "next_of h' x = next_of h y" "prev_of h' x = prev_of h x"
    and nxt: "ys \<noteq> [] \<Longrightarrow> prev_of h' (next_of h y) = x"
    and other: "\<And>z. z \<noteq> x \<Longrightarrow> z \<noteq> y \<Longrightarrow> next_of h' z = next_of h z"
      "\<And>z. z \<noteq> x \<Longrightarrow> z \<noteq> y \<Longrightarrow> z \<noteq> next_of h y \<Longrightarrow> prev_of h' z = prev_of h z"
  shows "segment h' p b (xs @ x # ys) c"
proof -
  from seg have s1: "segment h p b xs x" and xy: "next_of h x = y" "x + 20 \<le> y" "y + 20 \<le> next_of h y"
    and s2: "segment h y (next_of h y) ys c" and px: "prev_of h x = last (p # xs)" and dx: "4 dvd x"
    by (auto simp: segment_append mem_consts)
  have "\<forall>z\<in>set xs. z < x" using segment_bounds [OF s1] by fastforce
  then have "segment h' p b xs x" using xy by (intro segment_cong [OF s1]) (auto simp: other)
  moreover have "\<forall>z\<in>set ys. next_of h y \<le> z" "\<forall>z\<in>set (tl ys). next_of h y < z"
    using segment_bounds [OF s2] segment_tl_bounds [OF s2] by auto
  then have "segment h' x (next_of h y) ys c" using xy nxt by (intro segment_relink [OF s2]) (auto simp: other)
  ultimately show ?thesis
    using upd xy px dx by (auto simp: segment_append mem_consts)
qed

subsection \<open>Well-formed heaps\<close>

lemma heap_wf_blocks: "heap_wf h xs \<Longrightarrow> heap_blocks h = xs"
  by (auto simp: heap_wf_def heap_blocks_def intro: blocks_from_segment)

lemma heap_inv_iff: "heap_inv h \<longleftrightarrow> heap_wf h (heap_blocks h)"
  by (simp add: heap_inv_def heap_wf_def Let_def)

lemma heap_wf_inv: "heap_wf h xs \<Longrightarrow> heap_inv h"
  using heap_wf_blocks heap_inv_iff by metis

lemma no_adjacent_free_append:
  "no_adjacent_free h (xs @ x # ys) \<longleftrightarrow>
     no_adjacent_free h xs \<and> no_adjacent_free h ys
     \<and> (used_of h x \<noteq> 0 \<or> (xs \<noteq> [] \<longrightarrow> used_of h (last xs) \<noteq> 0) \<and> (ys \<noteq> [] \<longrightarrow> used_of h (hd ys) \<noteq> 0))"
proof (induction xs rule: induct_list012)
  case 1
  then show ?case by (cases ys) auto
next
  case (2 y)
  then show ?case by (cases ys) auto
next
  case (3 y z zs)
  then show ?case by auto
qed

lemma no_adjacent_free_congI:
  "no_adjacent_free h xs \<Longrightarrow> (\<And>x. x \<in> set xs \<Longrightarrow> used_of h' x = used_of h x) \<Longrightarrow> no_adjacent_free h' xs"
  by (induction xs rule: induct_list012) auto

subsection \<open>The loops of the allocator\<close>

lemma next_free_segment:
  "segment h p b xs MEM_SIZE_ALIGNED \<Longrightarrow>
   next_free h b = ret (case find (\<lambda>x. used_of h x = 0) xs of None \<Rightarrow> MEM_SIZE_ALIGNED | Some x \<Rightarrow> x)"
proof (induction xs arbitrary: p b)
  case Nil
  then show ?case by (simp add: next_free.simps)
next
  case (Cons x xs)
  then have "segment h b (next_of h b) xs MEM_SIZE_ALIGNED" "x = b" "b \<noteq> MEM_SIZE_ALIGNED"
    using segment_bounds [OF Cons.prems, of x] by (auto simp: mem_consts)
  with Cons.IH [OF this(1)] show ?case by (simp add: next_free.simps [of h b])
qed

lemma find_block_segment:
  assumes "sz \<le> MEM_SIZE_ALIGNED"
  shows "segment h p b xs MEM_SIZE_ALIGNED \<Longrightarrow>
   find_block sz h b = ret (find (\<lambda>x. used_of h x = 0 \<and> x + SIZEOF_STRUCT_MEM + sz \<le> next_of h x) xs)"
proof (induction xs arbitrary: p b)
  case Nil
  then have "\<not> b < MEM_SIZE_ALIGNED - sz" by (simp add: not_less)
  then show ?case by (simp add: find_block.simps)
next
  case (Cons x xs)
  then have s: "segment h b (next_of h b) xs MEM_SIZE_ALIGNED" and "x = b" by auto
  have bound: "x + 20 \<le> next_of h x" "next_of h x \<le> MEM_SIZE_ALIGNED"
    using segment_bounds [OF Cons.prems, of x] by auto
  show ?case
  proof (cases "b < MEM_SIZE_ALIGNED - sz")
    case True
    have "size_t_minus (next_of h b) (b + SIZEOF_STRUCT_MEM) = next_of h b - (b + SIZEOF_STRUCT_MEM)"
      using bound \<open>x = b\<close> by (intro size_t_minus_le) (auto simp: mem_consts)
    with True Cons.IH [OF s] \<open>x = b\<close> bound show ?thesis
      by (auto simp: find_block.simps [of sz h b] mem_consts)
  next
    case False
    have "find (\<lambda>x. used_of h x = 0 \<and> x + SIZEOF_STRUCT_MEM + sz \<le> next_of h x) (x # xs) = None"
      unfolding find_None_iff using segment_bounds [OF Cons.prems] False assms \<open>x = b\<close>
      by (fastforce simp: mem_consts)
    with False show ?thesis by (simp add: find_block.simps [of sz h b])
  qed
qed

subsection \<open>Allocation\<close>

lemma lfree_okI:
  assumes "lfree h \<in> set xs \<and> used_of h (lfree h) = 0 \<or> lfree h = MEM_SIZE_ALIGNED"
    and "\<And>x. x \<in> set xs \<Longrightarrow> x < lfree h \<Longrightarrow> used_of h x \<noteq> 0"
  shows "lfree_ok h xs"
  using assms by (auto simp: lfree_ok_def list_all_iff)

lemma lfree_okD:
  assumes "lfree_ok h xs"
  shows "lfree h \<in> set xs \<and> used_of h (lfree h) = 0 \<or> lfree h = MEM_SIZE_ALIGNED"
    and "x \<in> set xs \<Longrightarrow> x < lfree h \<Longrightarrow> used_of h x \<noteq> 0"
  using assms by (auto simp: lfree_ok_def list_all_iff)

lemma lfree_find:
  assumes "segment h p b xs MEM_SIZE_ALIGNED"
    and "lfree h = (case find (\<lambda>x. used_of h x = 0) xs of None \<Rightarrow> MEM_SIZE_ALIGNED | Some x \<Rightarrow> x)"
  shows "lfree_ok h xs"
proof (cases "find (\<lambda>x. used_of h x = 0) xs")
  case None
  with assms(2) have "lfree h = MEM_SIZE_ALIGNED" by simp
  moreover from None have "\<forall>x\<in>set xs. used_of h x \<noteq> 0" by (auto simp: find_None_iff)
  ultimately show ?thesis by (simp add: lfree_ok_def list_all_iff)
next
  case (Some x)
  then obtain i where i: "i < length xs" "used_of h (xs ! i) = 0" "x = xs ! i" "\<forall>j<i. used_of h (xs ! j) \<noteq> 0"
    by (auto simp: find_Some_iff)
  have "used_of h y \<noteq> 0" if "y \<in> set xs" "y < x" for y
  proof -
    from that obtain j where j: "j < length xs" "y = xs ! j" by (auto simp: in_set_conv_nth)
    have "j < i" using sorted_wrt_nth_less [OF segment_sorted [OF assms(1)], of i j] i j that
      by (metis linorder_neqE_nat order_less_asym)
    with i j show ?thesis by auto
  qed
  with i Some assms(2) show ?thesis by (intro lfree_okI) auto
qed

text \<open>What the scan of \<open>mem_malloc\<close> finds: the lowest free block that is big enough.\<close>

lemma find_block_wf:
  assumes wf: "heap_wf h xs" and sz: "sz \<le> MEM_SIZE_ALIGNED"
  shows "find_block sz h (lfree h) =
    ret (find (\<lambda>x. used_of h x = 0 \<and> x + SIZEOF_STRUCT_MEM + sz \<le> next_of h x) xs)"
proof (cases "lfree h = MEM_SIZE_ALIGNED")
  case True
  have "\<forall>x\<in>set xs. used_of h x \<noteq> 0"
    using wf segment_bounds [of h 0 0 xs MEM_SIZE_ALIGNED] True
    by (fastforce simp: heap_wf_def lfree_ok_def list_all_iff)
  then have "find (\<lambda>x. used_of h x = 0 \<and> x + SIZEOF_STRUCT_MEM + sz \<le> next_of h x) xs = None"
    by (auto simp: find_None_iff)
  then show ?thesis using True find_block_segment [OF sz, of h 0 MEM_SIZE_ALIGNED "[]"] by simp
next
  case False
  with wf have "lfree h \<in> set xs" by (auto simp: heap_wf_def lfree_ok_def)
  then obtain as bs where xs: "xs = as @ lfree h # bs" by (auto simp: in_set_conv_decomp)
  with wf obtain p where seg: "segment h p (lfree h) (lfree h # bs) MEM_SIZE_ALIGNED"
    by (auto simp: heap_wf_def segment_append)
  have "\<forall>x\<in>set as. x < lfree h"
    using segment_sorted [of h 0 0 xs] wf xs by (auto simp: heap_wf_def sorted_wrt_append)
  then have "\<forall>x\<in>set as. used_of h x \<noteq> 0"
    using wf xs by (auto simp: heap_wf_def lfree_ok_def list_all_iff)
  then have "find (\<lambda>x. used_of h x = 0 \<and> x + SIZEOF_STRUCT_MEM + sz \<le> next_of h x) as = None"
    by (auto simp: find_None_iff)
  with find_block_segment [OF sz seg] xs show ?thesis by (simp add: find_append del: find.simps)
qed

lemma adjust_lfree_segment:
  assumes seg: "segment h 0 0 xs MEM_SIZE_ALIGNED" and x: "x \<in> set xs" "used_of h x \<noteq> 0"
    and lf: "x = lfree h \<or> lfree h \<in> set xs \<and> used_of h (lfree h) = 0"
    and low: "\<And>y. y \<in> set xs \<Longrightarrow> y < lfree h \<Longrightarrow> used_of h y \<noteq> 0"
  shows "\<exists>l. adjust_lfree x h = ret (h\<lparr>lfree := l\<rparr>) \<and> lfree_ok (h\<lparr>lfree := l\<rparr>) xs"
proof (cases "x = lfree h")
  case False
  with lf low have "lfree_ok h xs" by (intro lfree_okI) auto
  with False show ?thesis by (intro exI [of _ "lfree h"]) (simp add: adjust_lfree_def)
next
  case True
  obtain as bs where xs: "xs = as @ x # bs" using x by (auto simp: in_set_conv_decomp)
  then obtain p where s: "segment h p x (x # bs) MEM_SIZE_ALIGNED" using seg by (auto simp: segment_append)
  let ?l = "case find (\<lambda>x. used_of h x = 0) (x # bs) of None \<Rightarrow> MEM_SIZE_ALIGNED | Some x \<Rightarrow> x"
  have "\<forall>y\<in>set as. y < x" using segment_sorted [OF seg] xs by (auto simp: sorted_wrt_append)
  then have "find (\<lambda>x. used_of h x = 0) as = None" using low True xs by (auto simp: find_None_iff)
  then have l: "?l = (case find (\<lambda>x. used_of h x = 0) xs of None \<Rightarrow> MEM_SIZE_ALIGNED | Some x \<Rightarrow> x)"
    using xs by (simp add: find_append)
  have "segment (h\<lparr>lfree := ?l\<rparr>) 0 0 xs MEM_SIZE_ALIGNED" by (rule segment_cong [OF seg]) auto
  then have ok: "lfree_ok (h\<lparr>lfree := ?l\<rparr>) xs" using l by (intro lfree_find) auto
  moreover have "adjust_lfree x h = ret (h\<lparr>lfree := ?l\<rparr>)"
    using next_free_segment [OF s] True lfree_okD(1) [OF ok]
    by (auto simp: adjust_lfree_def Let_def lwip_assert_def)
  ultimately show ?thesis by blast
qed

lemma take_block_segment:
  assumes wf: "heap_wf h (as @ x # bs)" and free: "used_of h x = 0"
    and fits: "x + SIZEOF_STRUCT_MEM + sz \<le> next_of h x" and sz: "12 \<le> sz" "4 dvd sz"
  shows "\<exists>h' e cs. take_block sz x h = ret h' \<and> segment h' 0 0 (as @ x # cs) MEM_SIZE_ALIGNED
    \<and> no_adjacent_free h' (as @ x # cs) \<and> used_of h' x \<noteq> 0 \<and> lfree h' = lfree h \<and> end_ok h' \<and> ram h' = ram h
    \<and> next_of h' x = e \<and> x + SIZEOF_STRUCT_MEM + sz \<le> e \<and> e \<le> next_of h x
    \<and> (\<forall>y\<in>set as \<union> set bs. next_of h' y = next_of h y \<and> used_of h' y = used_of h y)
    \<and> (cs = bs \<or> cs = e # bs \<and> used_of h' e = 0)"
proof -
  have seg: "segment h 0 0 (as @ x # bs) MEM_SIZE_ALIGNED" and e: "end_ok h"
    and nadj: "no_adjacent_free h (as @ x # bs)" using wf by (auto simp: heap_wf_def)
  have bx: "x + 20 \<le> next_of h x" "next_of h x \<le> MEM_SIZE_ALIGNED" "4 dvd x"
    using segment_bounds [OF seg, of x] by auto
  have sub: "size_t_minus (next_of h x) (x + SIZEOF_STRUCT_MEM) = next_of h x - (x + SIZEOF_STRUCT_MEM)"
    using bx by (intro size_t_minus_le) (auto simp: mem_consts)
  have bounds: "y < x" if "y \<in> set as" for y
    using that segment_sorted [OF seg] by (auto simp: sorted_wrt_append)
  have bounds': "next_of h x \<le> y" "y < MEM_SIZE_ALIGNED" if "y \<in> set bs" for y
    using that seg segment_bounds [of h x "next_of h x" bs MEM_SIZE_ALIGNED y]
    by (auto simp: segment_append)
  have notin: "x \<notin> set as" "x \<notin> set bs" using segment_distinct [OF seg] by auto
  have nadj': "no_adjacent_free h as" "no_adjacent_free h bs" "as \<noteq> [] \<longrightarrow> used_of h (last as) \<noteq> 0"
    "bs \<noteq> [] \<longrightarrow> used_of h (hd bs) \<noteq> 0"
    using nadj free by (auto simp: no_adjacent_free_append)
  show ?thesis
  proof (cases "next_of h x - (x + SIZEOF_STRUCT_MEM) \<ge> sz + SIZEOF_STRUCT_MEM + MIN_SIZE_ALIGNED")
    case False
    let ?h = "set_used x 1 h"
    have "segment ?h 0 0 (as @ x # bs) MEM_SIZE_ALIGNED" by (rule segment_cong [OF seg]) auto
    moreover have "no_adjacent_free ?h as" "no_adjacent_free ?h bs"
      by (rule no_adjacent_free_congI [OF nadj'(1)]; use bounds in fastforce)
        (rule no_adjacent_free_congI [OF nadj'(2)]; use bounds' bx in fastforce)
    then have "no_adjacent_free ?h (as @ x # bs)" by (simp add: no_adjacent_free_append)
    moreover have "end_ok ?h" using e bx by (auto simp: end_ok_def mem_consts)
    moreover have "take_block sz x h = ret ?h" using False sub by (simp add: take_block_def)
    ultimately show ?thesis using fits notin
      by (intro exI [of _ ?h] exI [of _ "next_of h x"] exI [of _ bs]) auto
  next
    case True
    define q where "q = x + SIZEOF_STRUCT_MEM + sz"
    define h1 where "h1 = set_used x 1 (set_next x q (set_prev q x (set_next q (next_of h x) (set_used q 0 h))))"
    define h2 where "h2 = (if next_of h x \<noteq> MEM_SIZE_ALIGNED then set_prev (next_of h x) q h1 else h1)"
    have q: "x + 20 \<le> q" "q + 20 \<le> next_of h x" "4 dvd q" "q < MEM_SIZE_ALIGNED" "mem_size_t q = q" "x \<noteq> q"
      using True fits sz bx by (auto simp: q_def mem_consts mem_size_t_def)
    have qn: "q \<notin> set as" "q \<notin> set bs" using bounds [of q] bounds'(1) [of q] q by auto
    have hd_bs: "bs \<noteq> [] \<Longrightarrow> next_of h x \<noteq> MEM_SIZE_ALIGNED"
      using bounds'(2) [of "next_of h x"] seg by (cases bs) (auto simp: segment_append)
    have reads: "next_of h2 y = (if y = x then q else if y = q then next_of h x else next_of h y)"
      "used_of h2 y = (if y = x then 1 else if y = q then 0 else used_of h y)"
      "lfree h2 = lfree h" "ram h2 = ram h" for y
      using q by (auto simp: h2_def h1_def)
    have "segment h2 0 0 (as @ x # q # bs) MEM_SIZE_ALIGNED"
      by (rule segment_insert [OF seg]) (use q hd_bs bx in \<open>auto simp: h2_def h1_def\<close>)
    moreover have "no_adjacent_free h2 as" "no_adjacent_free h2 bs"
      by (rule no_adjacent_free_congI [OF nadj'(1)]; use bounds q in \<open>fastforce simp: reads\<close>)
        (rule no_adjacent_free_congI [OF nadj'(2)]; use bounds' q in \<open>fastforce simp: reads\<close>)
    then have "no_adjacent_free h2 (as @ x # q # bs)"
      using nadj' notin qn by (cases bs) (auto simp: no_adjacent_free_append reads)
    moreover have "end_ok h2" using e bx q by (auto simp: end_ok_def reads h2_def h1_def)
    moreover have "take_block sz x h = ret h2"
      using True sub q by (simp add: take_block_def q_def [symmetric] h2_def h1_def Let_def)
    ultimately show ?thesis using fits notin qn q
      by (intro exI [of _ h2] exI [of _ q] exI [of _ "q # bs"]) (auto simp: reads q_def)
  qed
qed

lemma request_props: "n \<le> request n" "12 \<le> request n" "4 dvd request n"
  using align_size [of n] by (auto simp: request_def mem_consts max_def)

lemma malloc_size_check:
  assumes "n < 2 ^ 16"
  defines "sz \<equiv> (let s = mem_size_t (LWIP_MEM_ALIGN_SIZE n) in if s < MIN_SIZE_ALIGNED then MIN_SIZE_ALIGNED else s)"
  shows "sz > MEM_SIZE_ALIGNED \<or> sz < n \<longleftrightarrow> request n > MEM_SIZE_ALIGNED"
    and "request n \<le> MEM_SIZE_ALIGNED \<Longrightarrow> sz = request n"
proof -
  have a: "n \<le> LWIP_MEM_ALIGN_SIZE n" "LWIP_MEM_ALIGN_SIZE n < n + 4" "4 dvd LWIP_MEM_ALIGN_SIZE n"
    by (rule align_size)+
  from a(3) obtain k where k: "LWIP_MEM_ALIGN_SIZE n = 4 * k" by (auto elim: dvdE)
  with a(2) assms(1) have "k \<le> 16384" by simp
  with k consider "LWIP_MEM_ALIGN_SIZE n < 65536" | "LWIP_MEM_ALIGN_SIZE n = 65536"
    by (cases "k = 16384") auto
  then show "sz > MEM_SIZE_ALIGNED \<or> sz < n \<longleftrightarrow> request n > MEM_SIZE_ALIGNED"
    and "request n \<le> MEM_SIZE_ALIGNED \<Longrightarrow> sz = request n"
    using a by (cases; auto simp: sz_def request_def mem_size_t_def mem_consts Let_def max_def)+
qed

lemma used_blocks_wf: "heap_wf h xs \<Longrightarrow> used_blocks h = {(x, next_of h x) | x. x \<in> set xs \<and> used_of h x \<noteq> 0}"
  by (simp add: used_blocks_def heap_wf_blocks)

lemma free_blocks_wf: "heap_wf h xs \<Longrightarrow> free_blocks h = {(x, next_of h x) | x. x \<in> set xs \<and> used_of h x = 0}"
  by (simp add: free_blocks_def heap_wf_blocks)

lemma malloc_found:
  assumes wf: "heap_wf h xs" and x: "x \<in> set xs" "used_of h x = 0"
    and fits: "x + SIZEOF_STRUCT_MEM + sz \<le> next_of h x" and sz: "12 \<le> sz" "4 dvd sz"
  shows "\<exists>h1 h2 e ys. take_block sz x h = ret h1 \<and> adjust_lfree x h1 = ret h2 \<and> heap_wf h2 ys \<and> ram h2 = ram h
    \<and> x + SIZEOF_STRUCT_MEM + sz \<le> e \<and> e \<le> next_of h x \<and> used_blocks h2 = insert (x, e) (used_blocks h)"
proof -
  obtain as bs where xs: "xs = as @ x # bs" using x by (auto simp: in_set_conv_decomp)
  obtain h1 e cs where t: "take_block sz x h = ret h1" and seg: "segment h1 0 0 (as @ x # cs) MEM_SIZE_ALIGNED"
    and nadj: "no_adjacent_free h1 (as @ x # cs)" and h1: "used_of h1 x \<noteq> 0" "lfree h1 = lfree h" "end_ok h1" "ram h1 = ram h"
    and e: "next_of h1 x = e" "x + SIZEOF_STRUCT_MEM + sz \<le> e" "e \<le> next_of h x"
    and same: "\<forall>y\<in>set as \<union> set bs. next_of h1 y = next_of h y \<and> used_of h1 y = used_of h y"
    and cs: "cs = bs \<or> cs = e # bs \<and> used_of h1 e = 0"
    using take_block_segment [OF wf [unfolded xs] x(2) fits sz] by blast
  have lf: "lfree_ok h xs" using wf by (simp add: heap_wf_def)
  have "x < MEM_SIZE_ALIGNED" "x < e"
    using segment_bounds [of h 0 0 xs MEM_SIZE_ALIGNED x] wf x e by (auto simp: heap_wf_def mem_consts)
  have lx: "lfree h \<le> x" using lfree_okD(2) [OF lf x(1)] x(2) by (meson not_le)
  then have lfx: "x = lfree h1 \<or> lfree h1 \<in> set (as @ x # cs) \<and> used_of h1 (lfree h1) = 0"
    using lfree_okD(1) [OF lf] \<open>x < MEM_SIZE_ALIGNED\<close> same xs h1(2) cs by auto
  have low: "used_of h1 y \<noteq> 0" if "y \<in> set (as @ x # cs)" "y < lfree h1" for y
    using that lx h1(1,2) cs same xs lfree_okD(2) [OF lf, of y] \<open>x < e\<close> by auto
  obtain l where adj: "adjust_lfree x h1 = ret (h1\<lparr>lfree := l\<rparr>)" "lfree_ok (h1\<lparr>lfree := l\<rparr>) (as @ x # cs)"
    using adjust_lfree_segment [OF seg _ h1(1) lfx low] by auto
  let ?h2 = "h1\<lparr>lfree := l\<rparr>"
  have wf2: "heap_wf ?h2 (as @ x # cs)"
    using adj(2) h1 no_adjacent_free_congI [OF nadj, of ?h2] segment_cong [OF seg, of ?h2]
    by (simp add: heap_wf_def end_ok_def)
  have "used_blocks ?h2 = insert (x, e) (used_blocks h)"
    using cs same e h1 x \<open>x < e\<close> segment_distinct [OF seg]
    unfolding used_blocks_wf [OF wf2] used_blocks_wf [OF wf] xs by auto
  with t adj wf2 h1 e show ?thesis by auto
qed

lemma mem_malloc_spec:
  assumes inv: "heap_inv h" and n: "n < 2 ^ 16"
  shows "\<exists>r h'. mem_malloc n h = ret (r, h') \<and> heap_inv h' \<and> ram h' = ram h \<and>
    (case r of
       None \<Rightarrow> h' = h \<and> (n = 0 \<or> (\<forall>(x, f)\<in>free_blocks h. f < x + SIZEOF_STRUCT_MEM + request n))
     | Some a \<Rightarrow> 0 < n \<and> (\<exists>x e f. (x, f) \<in> free_blocks h \<and> a = ram h + x + SIZEOF_STRUCT_MEM
         \<and> x + SIZEOF_STRUCT_MEM + request n \<le> e \<and> e \<le> f \<and> used_blocks h' = insert (x, e) (used_blocks h)))"
proof (cases "n = 0 \<or> request n > MEM_SIZE_ALIGNED")
  case True
  have wf: "heap_wf h (heap_blocks h)" using inv by (simp add: heap_inv_iff)
  have "mem_malloc n h = ret (None, h)"
    using True malloc_size_check(1) [OF n] by (auto simp: mem_malloc_def Let_def)
  moreover have "f < x + SIZEOF_STRUCT_MEM + request n"
    if "request n > MEM_SIZE_ALIGNED" "(x, f) \<in> free_blocks h" for x f
    using that segment_bounds [of h 0 0 "heap_blocks h" MEM_SIZE_ALIGNED x] wf
    by (auto simp: free_blocks_wf [OF wf] heap_wf_def)
  ultimately show ?thesis using True inv by auto
next
  case False
  define xs where "xs = heap_blocks h"
  have wf: "heap_wf h xs" using inv by (simp add: heap_inv_iff xs_def)
  then have e: "ram h mod 4 = 0" by (simp add: heap_wf_def end_ok_def)
  let ?P = "\<lambda>x. used_of h x = 0 \<and> x + SIZEOF_STRUCT_MEM + request n \<le> next_of h x"
  have start: "mem_malloc n h = bind_run (ret (find ?P xs)) (\<lambda>r. case r of None \<Rightarrow> ret (None, h)
      | Some mem \<Rightarrow> bind_run (take_block (request n) mem h) (\<lambda>h. bind_run (adjust_lfree mem h) (\<lambda>h.
          lwip_assert ''mem_malloc: allocated memory not above ram_end.''
            (mem + SIZEOF_STRUCT_MEM + request n \<le> MEM_SIZE_ALIGNED)
          (lwip_assert ''mem_malloc: allocated memory properly aligned.''
            ((ram h + mem + SIZEOF_STRUCT_MEM) mod 4 = 0)
          (lwip_assert ''mem_malloc: sanity check alignment'' ((ram h + mem) mod 4 = 0)
            (ret (Some (ram h + mem + SIZEOF_STRUCT_MEM), h)))))))"
    using False malloc_size_check [OF n] find_block_wf [OF wf, of "request n"]
    by (simp add: mem_malloc_def Let_def)
  show ?thesis
  proof (cases "find ?P xs")
    case None
    then have "mem_malloc n h = ret (None, h)" by (simp add: start)
    moreover have "\<forall>(x, f)\<in>free_blocks h. f < x + SIZEOF_STRUCT_MEM + request n"
      using None by (auto simp: find_None_iff free_blocks_wf [OF wf] not_le)
    ultimately show ?thesis using inv by auto
  next
    case (Some x)
    then have x: "x \<in> set xs" "used_of h x = 0" "x + SIZEOF_STRUCT_MEM + request n \<le> next_of h x"
      by (auto simp: find_Some_iff)
    then have b: "next_of h x \<le> MEM_SIZE_ALIGNED" "4 dvd x"
      using segment_bounds [of h 0 0 xs MEM_SIZE_ALIGNED x] wf by (auto simp: heap_wf_def)
    obtain h1 h2 e ys where r: "take_block (request n) x h = ret h1" "adjust_lfree x h1 = ret h2" "heap_wf h2 ys"
      "ram h2 = ram h" "x + SIZEOF_STRUCT_MEM + request n \<le> e" "e \<le> next_of h x"
      "used_blocks h2 = insert (x, e) (used_blocks h)"
      using malloc_found [OF wf x request_props(2,3)] by blast
    have al: "(ram h + x + SIZEOF_STRUCT_MEM) mod 4 = 0" "(ram h + x) mod 4 = 0"
      using b e by (auto simp: SIZEOF_STRUCT_MEM_def mod_eq_0_iff_dvd)
    have "mem_malloc n h = ret (Some (ram h + x + SIZEOF_STRUCT_MEM), h2)"
      using r x b al by (simp add: start Some)
    moreover have "(x, next_of h x) \<in> free_blocks h" using x by (auto simp: free_blocks_wf [OF wf])
    ultimately show ?thesis using r False heap_wf_inv [OF r(3)] by auto
  qed
qed

subsection \<open>Freeing\<close>

lemma used_in_append: "used_in h (xs @ ys) = used_in h xs \<union> used_in h ys"
  by (auto simp: used_in_def)

lemma used_in_Cons: "used_in h (x # xs) = (if used_of h x \<noteq> 0 then {(x, next_of h x)} else {}) \<union> used_in h xs"
  by (auto simp: used_in_def)

lemma used_in_cong:
  "(\<And>x. x \<in> set xs \<Longrightarrow> next_of h' x = next_of h x) \<Longrightarrow> (\<And>x. used_of h' x = used_of h x) \<Longrightarrow> used_in h' xs = used_in h xs"
  by (auto simp: used_in_def) 

lemma plug_forward_freed:
  assumes f: "freed_at h as x bs"
  shows "\<exists>bs'. freed_at (plug_forward x h) as x bs' \<and> (bs' \<noteq> [] \<longrightarrow> used_of (plug_forward x h) (hd bs') \<noteq> 0)
    \<and> used_in (plug_forward x h) (as @ x # bs') = used_in h (as @ x # bs) \<and> ram (plug_forward x h) = ram h"
proof -
  have seg: "segment h 0 0 (as @ x # bs) MEM_SIZE_ALIGNED" and ux: "used_of h x = 0"
    and nadj: "no_adjacent_free h as" "no_adjacent_free h bs" and lf: "lfree_ok h (as @ x # bs)" and e: "end_ok h"
    using f by (auto simp: freed_at_def)
  have bx: "x + 20 \<le> next_of h x" "next_of h x \<le> MEM_SIZE_ALIGNED" using segment_bounds [OF seg, of x] by auto
  show ?thesis
  proof (cases bs)
    case Nil
    then have "next_of h x = MEM_SIZE_ALIGNED" using seg by (auto simp: segment_append)
    then have "plug_forward x h = h" by (simp add: plug_forward_def)
    with Nil f show ?thesis by auto
  next
    case (Cons y ys)
    then have ny: "next_of h x = y" and sy: "segment h y (next_of h y) ys MEM_SIZE_ALIGNED"
      using seg by (auto simp: segment_append)
    have by_: "y + 20 \<le> next_of h y" "next_of h y \<le> MEM_SIZE_ALIGNED"
      using segment_bounds [OF seg, of y] Cons by auto
    have dist: "distinct (as @ x # y # ys)" using segment_distinct [OF seg] Cons by simp
    show ?thesis
    proof (cases "used_of h y = 0")
      case False
      then have "plug_forward x h = h" by (simp add: plug_forward_def ny Let_def)
      with Cons f False show ?thesis by auto
    next
      case True
      define h' where "h' = plug_forward x h"
      have reads: "next_of h' z = (if z = x then next_of h y else next_of h z)" "used_of h' z = used_of h z"
        "prev_of h' z = (if z = next_of h y \<and> z \<noteq> MEM_SIZE_ALIGNED then x else prev_of h z)"
        "lfree h' = (if lfree h = y then x else lfree h)" "ram h' = ram h" for z
        using True bx by_ by (auto simp: h'_def plug_forward_def ny Let_def)
      have nxt: "ys \<noteq> [] \<Longrightarrow> next_of h y \<noteq> MEM_SIZE_ALIGNED"
        using segment_bounds [OF sy, of "next_of h y"] sy by (cases ys) auto
      have "segment h' 0 0 (as @ x # ys) MEM_SIZE_ALIGNED"
        by (rule segment_remove [OF seg [unfolded Cons]]) (use nxt bx by_ ny in \<open>auto simp: reads\<close>)
      moreover have "no_adjacent_free h' as" by (rule no_adjacent_free_congI [OF nadj(1)]) (simp add: reads)
      moreover have "no_adjacent_free h' ys" "ys \<noteq> [] \<longrightarrow> used_of h' (hd ys) \<noteq> 0"
        using nadj(2) True unfolding Cons
        by (auto simp: reads no_adjacent_free_append [of h "[]" y ys, simplified] intro: no_adjacent_free_congI [of h])
      moreover have "lfree_ok h' (as @ x # ys)"
        using lfree_okD [OF lf] ux True bx ny Cons by (intro lfree_okI) (auto simp: reads split: if_splits)
      moreover have "end_ok h'" using e bx by_ by (auto simp: end_ok_def reads)
      moreover have "used_in h' (as @ x # ys) = used_in h (as @ x # bs)"
        using ux True dist Cons by (auto simp: used_in_def reads)
      ultimately show ?thesis using ux unfolding h'_def [symmetric]
        by (intro exI [of _ ys]) (auto simp: freed_at_def reads)
    qed
  qed
qed

lemma plug_backward_freed:
  assumes f: "freed_at h as x bs" and nxt: "bs \<noteq> [] \<Longrightarrow> used_of h (hd bs) \<noteq> 0"
  shows "\<exists>zs. heap_wf (plug_backward x h) zs \<and> used_in (plug_backward x h) zs = used_in h (as @ x # bs)
     \<and> ram (plug_backward x h) = ram h"
proof -
  have seg: "segment h 0 0 (as @ x # bs) MEM_SIZE_ALIGNED" and ux: "used_of h x = 0"
    and nadj: "no_adjacent_free h as" "no_adjacent_free h bs" and lf: "lfree_ok h (as @ x # bs)" and e: "end_ok h"
    using f by (auto simp: freed_at_def)
  have px: "prev_of h x = last (0 # as)" using seg by (auto simp: segment_append)
  have bx: "x + 20 \<le> next_of h x" "next_of h x \<le> MEM_SIZE_ALIGNED" using segment_bounds [OF seg, of x] by auto
  have dist: "distinct (as @ x # bs)" using segment_distinct [OF seg] .
  show ?thesis
  proof (cases "as \<noteq> [] \<and> used_of h (last as) = 0")
    case False
    have "plug_backward x h = h"
    proof (cases "as = []")
      case True
      then show ?thesis using px seg by (auto simp: plug_backward_def)
    next
      case False2: False
      then show ?thesis using px False by (auto simp: plug_backward_def)
    qed
    moreover have "heap_wf h (as @ x # bs)"
      using seg nadj lf e nxt False by (auto simp: heap_wf_def no_adjacent_free_append)
    ultimately show ?thesis by auto
  next
    case True
    then obtain cs w where as: "as = cs @ [w]" by (metis append_butlast_last_id)
    with True have uw: "used_of h w = 0" and pw: "prev_of h x = w" using px by auto
    have nw: "next_of h w = x" and bw: "w + 20 \<le> x" and sb: "segment h x (next_of h x) bs MEM_SIZE_ALIGNED"
      using seg by (auto simp: as segment_append mem_consts)
    define h' where "h' = plug_backward x h"
    have reads: "next_of h' z = (if z = w then next_of h x else next_of h z)" "used_of h' z = used_of h z"
      "prev_of h' z = (if z = next_of h x \<and> z \<noteq> MEM_SIZE_ALIGNED then w else prev_of h z)"
      "lfree h' = (if lfree h = x then w else lfree h)" "ram h' = ram h" for z
      using uw bw bx by (auto simp: h'_def plug_backward_def pw Let_def)
    have nm: "bs \<noteq> [] \<Longrightarrow> next_of h x \<noteq> MEM_SIZE_ALIGNED"
      using segment_bounds [OF sb, of "next_of h x"] sb by (cases bs) auto
    have "segment h' 0 0 (cs @ w # bs) MEM_SIZE_ALIGNED"
      by (rule segment_remove [of h 0 0 cs w x bs]) (use seg nm bx bw as in \<open>auto simp: reads\<close>)
    moreover have "no_adjacent_free h' (cs @ w # bs)"
      using nadj uw nxt unfolding as
      by (auto simp: no_adjacent_free_append [of _ cs w] reads intro: no_adjacent_free_congI [of h])
    moreover have "lfree_ok h' (cs @ w # bs)"
      using lfree_okD [OF lf] ux uw bw as by (intro lfree_okI) (auto simp: reads split: if_splits)
    moreover have "end_ok h'" using e bx bw by (auto simp: end_ok_def reads)
    ultimately have "heap_wf h' (cs @ w # bs)" by (simp add: heap_wf_def)
    moreover have "used_in h' (cs @ w # bs) = used_in h (as @ x # bs)"
      using ux uw dist as by (auto simp: used_in_def reads)
    ultimately show ?thesis unfolding h'_def [symmetric] by (auto simp: reads)
  qed
qed

lemma used_blocks_used_in: "heap_wf h xs \<Longrightarrow> used_blocks h = used_in h xs"
  by (simp add: used_blocks_wf used_in_def)

lemma link_valid_wf:
  assumes "heap_wf h xs" and "x \<in> set xs"
  shows "mem_link_valid x h"
proof -
  obtain as bs where xs: "xs = as @ x # bs" using assms by (auto simp: in_set_conv_decomp)
  have seg: "segment h 0 0 (as @ x # bs) MEM_SIZE_ALIGNED" using assms xs by (simp add: heap_wf_def)
  then have px: "prev_of h x = last (0 # as)" and sb: "segment h x (next_of h x) bs MEM_SIZE_ALIGNED"
    by (auto simp: segment_append)
  have bx: "next_of h x \<le> MEM_SIZE_ALIGNED" "x < MEM_SIZE_ALIGNED" using segment_bounds [OF seg, of x] by auto
  have "prev_of h x \<le> x \<and> (prev_of h x = x \<or> next_of h (prev_of h x) = x)"
  proof (cases as rule: rev_cases)
    case Nil
    then have "x = 0" using seg by simp
    then show ?thesis using px Nil by auto
  next
    case (snoc cs w)
    then show ?thesis using px seg by (auto simp: segment_append mem_consts)
  qed
  moreover have "next_of h x \<noteq> MEM_SIZE_ALIGNED \<longrightarrow> prev_of h (next_of h x) = x" using sb by (cases bs) auto
  ultimately show ?thesis using bx by (auto simp: mem_link_valid_def Let_def)
qed

lemma mem_free_spec:
  assumes inv: "heap_inv h" and x: "(x, e) \<in> used_blocks h"
  shows "\<exists>h'. mem_free (ram h + x + SIZEOF_STRUCT_MEM) h = ret h' \<and> heap_inv h' \<and> ram h' = ram h
    \<and> used_blocks h' = used_blocks h - {(x, e)}"
proof -
  define xs where "xs = heap_blocks h"
  have wf: "heap_wf h xs" using inv by (simp add: heap_inv_iff xs_def)
  have x': "x \<in> set xs" "used_of h x \<noteq> 0" "e = next_of h x" using x by (auto simp: used_blocks_wf [OF wf])
  then obtain as bs where xs: "xs = as @ x # bs" by (auto simp: in_set_conv_decomp)
  have seg: "segment h 0 0 xs MEM_SIZE_ALIGNED" and lf: "lfree_ok h xs" and e: "end_ok h"
    and nadj: "no_adjacent_free h as" "no_adjacent_free h bs"
    using wf xs by (auto simp: heap_wf_def no_adjacent_free_append)
  have bx: "x + 20 \<le> next_of h x" "next_of h x \<le> MEM_SIZE_ALIGNED" "4 dvd x"
    using segment_bounds [OF seg x'(1)] by auto
  have dist: "x \<notin> set as" "x \<notin> set bs" using segment_distinct [OF seg] xs by auto
  define h1 where "h1 = set_used x 0 h"
  define h2 where "h2 = (if x < lfree h1 then h1\<lparr>lfree := x\<rparr> else h1)"
  have reads: "next_of h2 z = next_of h z" "prev_of h2 z = prev_of h z" "ram h2 = ram h"
    "used_of h2 z = (if z = x then 0 else used_of h z)" "lfree h2 = min x (lfree h)" for z
    by (auto simp: h2_def h1_def min_def)
  have addr: "size_t_minus (ram h + x + SIZEOF_STRUCT_MEM) SIZEOF_STRUCT_MEM = ram h + x"
    using e bx by (subst size_t_minus_le) (auto simp: end_ok_def mem_consts)
  have "mem_free (ram h + x + SIZEOF_STRUCT_MEM) h = plug_holes x h2"
    using e bx x' link_valid_wf [OF wf x'(1)] addr
    by (auto simp: mem_free_def end_ok_def mem_consts mod_eq_0_iff_dvd h2_def h1_def Let_def)
  also have "\<dots> = ret (plug_backward x (plug_forward x h2))"
    using bx by (simp add: plug_holes_def reads)
  finally have free: "mem_free (ram h + x + SIZEOF_STRUCT_MEM) h = ret (plug_backward x (plug_forward x h2))" .
  have "lfree_ok h2 xs"
    using lfree_okD [OF lf] x' bx by (intro lfree_okI) (auto simp: reads min_def split: if_splits)
  moreover have "no_adjacent_free h2 as" "no_adjacent_free h2 bs"
    using dist by (auto simp: reads intro: no_adjacent_free_congI [OF nadj(1)] no_adjacent_free_congI [OF nadj(2)])
  ultimately have "freed_at h2 as x bs"
    using segment_cong [OF seg, of h2] e bx xs by (auto simp: freed_at_def reads end_ok_def)
  then obtain bs' where f: "freed_at (plug_forward x h2) as x bs'" "bs' \<noteq> [] \<longrightarrow> used_of (plug_forward x h2) (hd bs') \<noteq> 0"
    and u: "used_in (plug_forward x h2) (as @ x # bs') = used_in h2 xs" "ram (plug_forward x h2) = ram h2"
    using plug_forward_freed xs by blast
  obtain zs where z: "heap_wf (plug_backward x (plug_forward x h2)) zs"
    "used_in (plug_backward x (plug_forward x h2)) zs = used_in h2 xs"
    "ram (plug_backward x (plug_forward x h2)) = ram h"
    using plug_backward_freed [OF f(1)] f(2) u reads(3) by auto
  have "used_in h2 xs = used_in h xs - {(x, e)}" using x' by (auto simp: used_in_def reads)
  with z free heap_wf_inv [OF z(1)] used_blocks_used_in [OF z(1)] used_blocks_used_in [OF wf]
  show ?thesis by auto
qed

lemma mem_free_double_free:
  assumes inv: "heap_inv h" and x: "(x, e) \<in> free_blocks h"
  shows "mem_free (ram h + x + SIZEOF_STRUCT_MEM) h = stop (Abort ''mem_free: illegal memory: double free'')"
proof -
  have wf: "heap_wf h (heap_blocks h)" using inv by (simp add: heap_inv_iff)
  then have "x \<in> set (heap_blocks h)" "used_of h x = 0" using x by (auto simp: free_blocks_wf [OF wf])
  moreover from this have "x + 20 \<le> MEM_SIZE_ALIGNED" "4 dvd x"
    using segment_bounds [of h 0 0 "heap_blocks h" MEM_SIZE_ALIGNED x] wf by (auto simp: heap_wf_def)
  moreover have "end_ok h" using wf by (simp add: heap_wf_def)
  moreover from calculation have "size_t_minus (ram h + x + SIZEOF_STRUCT_MEM) SIZEOF_STRUCT_MEM = ram h + x"
    by (subst size_t_minus_le) (auto simp: end_ok_def mem_consts)
  ultimately show ?thesis by (auto simp: mem_free_def end_ok_def mem_consts mod_eq_0_iff_dvd Let_def)
qed

lemma mem_init_inv:
  assumes "ram h mod 4 = 0" "8 \<le> ram h" "ram h + MEM_SIZE_ALIGNED + SIZEOF_STRUCT_MEM \<le> 2 ^ 32"
  shows "heap_wf (mem_init h) [0]"
  using assms by (simp add: heap_wf_def mem_init_def Let_def lfree_ok_def end_ok_def mem_consts)

text \<open>Adjacent free blocks are always merged: with nothing allocated the heap is one block again.\<close>

lemma no_used_one_block:
  assumes "heap_wf h xs" "used_blocks h = {}"
  shows "xs = [0]"
proof -
  have free: "\<forall>x\<in>set xs. used_of h x = 0" using assms by (auto simp: used_blocks_wf)
  obtain ys where xs: "xs = 0 # ys" using assms by (cases xs) (auto simp: heap_wf_def)
  have "ys = []"
  proof (rule ccontr)
    assume "ys \<noteq> []"
    then obtain y zs where "ys = y # zs" by (cases ys) auto
    then show False using assms free xs by (simp add: heap_wf_def)
  qed
  with xs show ?thesis by simp
qed

subsection \<open>Shrinking\<close>

lemma trim_wf:
  assumes nadj: "no_adjacent_free h as" "no_adjacent_free h bs" and nb: "bs \<noteq> [] \<Longrightarrow> used_of h (hd bs) \<noteq> 0"
    and seg: "segment h' 0 0 (as @ x # q # bs) MEM_SIZE_ALIGNED"
    and used: "\<And>z. used_of h' z = (if z = q then 0 else used_of h z)" "used_of h x \<noteq> 0"
    and nxt: "\<And>z. next_of h' z = (if z = x then q else if z = q then n else next_of h z)"
    and ok: "lfree_ok h' (as @ x # q # bs)" "end_ok h'"
  shows "heap_wf h' (as @ x # q # bs) \<and> used_blocks h' = insert (x, q) (used_in h (as @ bs))"
proof
  have d: "distinct (as @ x # q # bs)" by (rule segment_distinct [OF seg])
  have "no_adjacent_free h' as" "no_adjacent_free h' bs"
    using d by (auto simp: used intro: no_adjacent_free_congI [OF nadj(1)] no_adjacent_free_congI [OF nadj(2)])
  then have "no_adjacent_free h' (as @ x # q # bs)"
    using d nb used by (cases bs) (auto simp: no_adjacent_free_append)
  with seg ok show wf: "heap_wf h' (as @ x # q # bs)" by (simp add: heap_wf_def)
  show "used_blocks h' = insert (x, q) (used_in h (as @ bs))"
    using d used(2) unfolding used_blocks_wf [OF wf] by (auto simp: used_in_def used nxt)
qed

lemma trimmed_reads:
  assumes "x + 20 \<le> q" "q + 20 \<le> n"
  shows "next_of (trimmed x q n l h) z = (if z = x then q else if z = q then n else next_of h z)"
    "used_of (trimmed x q n l h) z = (if z = q then 0 else used_of h z)"
    "prev_of (trimmed x q n l h) z = (if z = n \<and> n \<noteq> MEM_SIZE_ALIGNED then q else if z = q then x else prev_of h z)"
    "lfree (trimmed x q n l h) = l" "ram (trimmed x q n l h) = ram h"
  using assms by (auto simp: trimmed_def Let_def)

lemma trim_trimmed:
  assumes "x + 20 \<le> q"
  shows "trim_move_next x q h = trimmed x q (next_of h (next_of h x)) (if lfree h = next_of h x then q else lfree h) h"
    and "trim_split x q h = trimmed x q (next_of h x) (min q (lfree h)) h"
  using assms by (auto simp: trim_move_next_def trim_split_def trimmed_def Let_def min_def)

lemma mem_trim_start:
  assumes wf: "heap_wf h xs" and x: "x \<in> set xs" and n: "n < 2 ^ 16" "x + SIZEOF_STRUCT_MEM + request n \<le> next_of h x"
  defines "q \<equiv> x + SIZEOF_STRUCT_MEM + request n"
  shows "mem_trim (ram h + x + SIZEOF_STRUCT_MEM) n h =
    (if q = next_of h x then ret (ram h + x + SIZEOF_STRUCT_MEM, h)
     else if used_of h (next_of h x) = 0 then
       lwip_assert ''invalid next ptr'' (next_of h x \<noteq> MEM_SIZE_ALIGNED)
         (ret (ram h + x + SIZEOF_STRUCT_MEM, trim_move_next x q h))
     else if q + SIZEOF_STRUCT_MEM + MIN_SIZE_ALIGNED \<le> next_of h x then
       lwip_assert ''invalid next ptr'' (next_of h x \<noteq> MEM_SIZE_ALIGNED)
         (ret (ram h + x + SIZEOF_STRUCT_MEM, trim_split x q h))
     else ret (ram h + x + SIZEOF_STRUCT_MEM, h))"
proof -
  have seg: "segment h 0 0 xs MEM_SIZE_ALIGNED" using wf by (simp add: heap_wf_def)
  have bx: "x + 20 \<le> next_of h x" "next_of h x \<le> MEM_SIZE_ALIGNED" using segment_bounds [OF seg x] by auto
  have sz: "mem_size_t (size_t_minus (mem_size_t (size_t_minus (next_of h x) x)) SIZEOF_STRUCT_MEM)
      = next_of h x - (x + SIZEOF_STRUCT_MEM)"
    using bx by (simp add: size_t_minus_le mem_size_t_less mem_consts)
  have q: "mem_size_t q = q" "request n \<le> MEM_SIZE_ALIGNED" using n bx by (auto simp: q_def mem_size_t_def mem_consts)
  have sz': "request n = next_of h x - (x + SIZEOF_STRUCT_MEM) \<longleftrightarrow> q = next_of h x"
    "request n + SIZEOF_STRUCT_MEM + MIN_SIZE_ALIGNED \<le> next_of h x - (x + SIZEOF_STRUCT_MEM)
       \<longleftrightarrow> q + SIZEOF_STRUCT_MEM + MIN_SIZE_ALIGNED \<le> next_of h x"
    "request n \<le> next_of h x - (x + SIZEOF_STRUCT_MEM)"
    using n bx by (auto simp: q_def mem_consts)
  note c = malloc_size_check [OF n(1), unfolded Let_def]
  have legal: "ram h \<le> ram h + x + SIZEOF_STRUCT_MEM" "ram h + x + SIZEOF_STRUCT_MEM < ram h + MEM_SIZE_ALIGNED"
    "\<not> ram h + x + SIZEOF_STRUCT_MEM < ram h + SIZEOF_STRUCT_MEM" "ram h + x + SIZEOF_STRUCT_MEM - SIZEOF_STRUCT_MEM - ram h = x"
    using bx by (simp_all add: mem_consts)
  have "\<not> (request n > MEM_SIZE_ALIGNED \<or> request n < n)" using q(2) request_props(1) [of n] by simp
  with legal show ?thesis
    unfolding mem_trim_def Let_def c(2) [OF q(2)] by (simp add: sz sz' q q_def [symmetric])
qed

lemma trim_split_wf:
  assumes wf: "heap_wf h (as @ x # bs)" and ux: "used_of h x \<noteq> 0"
    and e: "e = next_of h x" "used_of h e \<noteq> 0" "e \<noteq> MEM_SIZE_ALIGNED"
    and q: "x + 20 \<le> q" "q + 20 \<le> e" "4 dvd q"
  shows "heap_wf (trim_split x q h) (as @ x # q # bs)
    \<and> used_blocks (trim_split x q h) = insert (x, q) (used_in h (as @ bs)) \<and> ram (trim_split x q h) = ram h"
proof -
  have seg: "segment h 0 0 (as @ x # bs) MEM_SIZE_ALIGNED" and lf: "lfree_ok h (as @ x # bs)" and en: "end_ok h"
    and nadj: "no_adjacent_free h as" "no_adjacent_free h bs"
    using wf by (auto simp: heap_wf_def no_adjacent_free_append)
  have sb: "segment h x e bs MEM_SIZE_ALIGNED" using seg e by (auto simp: segment_append)
  have eb: "e \<le> MEM_SIZE_ALIGNED" by (rule segment_le [OF sb])
  let ?h = "trimmed x q e (min q (lfree h)) h"
  note r = trimmed_reads [OF q(1,2)]
  have "segment ?h 0 0 (as @ x # q # bs) MEM_SIZE_ALIGNED"
    by (rule segment_insert [OF seg]) (use q e(1) [symmetric] e(2,3) in \<open>auto simp: r\<close>)
  moreover have "lfree_ok ?h (as @ x # q # bs)"
  proof (rule lfree_okI)
    show "lfree ?h \<in> set (as @ x # q # bs) \<and> used_of ?h (lfree ?h) = 0 \<or> lfree ?h = MEM_SIZE_ALIGNED"
      using lfree_okD(1) [OF lf] ux q eb by (auto simp: r min_def)
    show "used_of ?h z \<noteq> 0" if "z \<in> set (as @ x # q # bs)" "z < lfree ?h" for z
      using that lfree_okD(2) [OF lf, of z] ux by (auto simp: r)
  qed
  moreover have "end_ok ?h" using en q e(2,3) eb by (auto simp: end_ok_def r)
  moreover have "used_of h (hd bs) \<noteq> 0" if "bs \<noteq> []" using that sb e by (cases bs) auto
  ultimately have "heap_wf ?h (as @ x # q # bs) \<and> used_blocks ?h = insert (x, q) (used_in h (as @ bs))"
    by (intro trim_wf [OF nadj, where n = e]) (simp_all add: r ux)
  then show ?thesis using trim_trimmed(2) [OF q(1), of h] e(1) r by simp
qed

lemma trim_move_wf:
  assumes wf: "heap_wf h (as @ x # e # ys)" and ux: "used_of h x \<noteq> 0" and ue: "used_of h e = 0"
    and q: "x + 20 \<le> q" "q \<le> e" "4 dvd q"
  shows "heap_wf (trim_move_next x q h) (as @ x # q # ys)
    \<and> used_blocks (trim_move_next x q h) = insert (x, q) (used_in h (as @ e # ys)) \<and> ram (trim_move_next x q h) = ram h"
proof -
  have seg: "segment h 0 0 (as @ x # e # ys) MEM_SIZE_ALIGNED" and lf: "lfree_ok h (as @ x # e # ys)" and en: "end_ok h"
    and nadj: "no_adjacent_free h as" "no_adjacent_free h ys"
    using wf by (cases ys; auto simp: heap_wf_def no_adjacent_free_append)+
  define n where "n = next_of h e"
  have e: "next_of h x = e" "e + 20 \<le> n" and sy: "segment h e n ys MEM_SIZE_ALIGNED"
    using seg by (auto simp: segment_append mem_consts n_def)
  have nm: "n \<le> MEM_SIZE_ALIGNED" "ys \<noteq> [] \<Longrightarrow> n \<noteq> MEM_SIZE_ALIGNED"
    using segment_le [OF sy] segment_bounds [OF sy, of n] sy by (cases ys; auto)+
  have qn: "q + 20 \<le> n" using q e by simp
  let ?h = "trimmed x q n (if lfree h = e then q else lfree h) h"
  let ?m = "if n \<noteq> MEM_SIZE_ALIGNED then set_prev n x (set_next x n h) else set_next x n h"
  note r = trimmed_reads [OF q(1) qn]
  have "lfree h \<le> e" "e < MEM_SIZE_ALIGNED" using lfree_okD(2) [OF lf, of e] ue e(2) nm by (auto simp: not_less [symmetric])
  then have low: "lfree h = e \<or> lfree h < x"
    using lfree_okD(1) [OF lf] segment_sorted [OF seg] ux by (auto simp: sorted_wrt_append)
  have "segment ?m 0 0 (as @ x # ys) MEM_SIZE_ALIGNED"
    by (rule segment_remove [OF seg]) (use nm e q n_def in auto)
  then have "segment ?h 0 0 (as @ x # q # ys) MEM_SIZE_ALIGNED"
    by (rule segment_insert) (use q qn nm in \<open>auto simp: r\<close>)
  moreover have "lfree_ok ?h (as @ x # q # ys)"
  proof (rule lfree_okI)
    show "lfree ?h \<in> set (as @ x # q # ys) \<and> used_of ?h (lfree ?h) = 0 \<or> lfree ?h = MEM_SIZE_ALIGNED"
      using lfree_okD(1) [OF lf] ux by (auto simp: r)
    show "used_of ?h z \<noteq> 0" if "z \<in> set (as @ x # q # ys)" "z < lfree ?h" for z
      using that lfree_okD(2) [OF lf, of z] low q ux by (auto simp: r split: if_splits)
  qed
  moreover have "end_ok ?h" using en q qn nm by (auto simp: end_ok_def r)
  moreover have "used_of h (hd ys) \<noteq> 0" if "ys \<noteq> []"
    using that wf ue by (cases ys) (auto simp: heap_wf_def no_adjacent_free_append)
  ultimately have "heap_wf ?h (as @ x # q # ys) \<and> used_blocks ?h = insert (x, q) (used_in h (as @ ys))"
    by (intro trim_wf [OF nadj, where n = n]) (simp_all add: r ux)
  moreover have "used_in h (as @ ys) = used_in h (as @ e # ys)" using ue by (auto simp: used_in_def)
  ultimately show ?thesis using trim_trimmed(1) [OF q(1), of h] e(1) r by (simp add: n_def)
qed

lemma mem_trim_spec:
  assumes inv: "heap_inv h" and x: "(x, e) \<in> used_blocks h"
    and n: "n < 2 ^ 16" "x + SIZEOF_STRUCT_MEM + request n \<le> e"
    and room: "e = MEM_SIZE_ALIGNED \<Longrightarrow> e < x + SIZEOF_STRUCT_MEM + request n + SIZEOF_STRUCT_MEM + MIN_SIZE_ALIGNED"
  shows "\<exists>h' e'. mem_trim (ram h + x + SIZEOF_STRUCT_MEM) n h = ret (ram h + x + SIZEOF_STRUCT_MEM, h')
    \<and> heap_inv h' \<and> ram h' = ram h \<and> x + SIZEOF_STRUCT_MEM + request n \<le> e' \<and> e' \<le> e
    \<and> used_blocks h' = insert (x, e') (used_blocks h - {(x, e)})"
proof -
  define q where "q = x + SIZEOF_STRUCT_MEM + request n"
  have wf0: "heap_wf h (heap_blocks h)" using inv by (simp add: heap_inv_iff)
  have x': "x \<in> set (heap_blocks h)" "used_of h x \<noteq> 0" "e = next_of h x" using x by (auto simp: used_blocks_def)
  then obtain as bs where xs: "heap_blocks h = as @ x # bs" by (auto simp: in_set_conv_decomp)
  have wf: "heap_wf h (as @ x # bs)" using wf0 xs by simp
  then have seg: "segment h 0 0 (as @ x # bs) MEM_SIZE_ALIGNED" and en: "end_ok h" by (auto simp: heap_wf_def)
  note start = mem_trim_start [OF wf0 x'(1) n(1) n(2) [unfolded x'(3)], folded q_def x'(3)]
  have q: "x + 20 \<le> q" "4 dvd q" "q \<le> e"
    using request_props [of n] segment_bounds [OF seg, of x] n by (auto simp: q_def mem_consts)
  have sb: "segment h x e bs MEM_SIZE_ALIGNED" using seg x' by (auto simp: segment_append)
  have ub: "used_blocks h - {(x, e)} = used_in h (as @ bs)"
    using segment_distinct [OF seg] x' by (auto simp: used_blocks_used_in [OF wf] used_in_def)
  have finish: ?thesis if "mem_trim (ram h + x + SIZEOF_STRUCT_MEM) n h = ret (ram h + x + SIZEOF_STRUCT_MEM, h')"
    "heap_wf h' zs \<and> used_blocks h' = insert (x, q) (used_in h (as @ bs)) \<and> ram h' = ram h" for h' zs
    using that ub q(3) heap_wf_inv [of h' zs] by (auto simp: q_def)
  show ?thesis
  proof (cases "q = e \<or> used_of h e \<noteq> 0 \<and> e < q + 20")
    case True
    then have "mem_trim (ram h + x + SIZEOF_STRUCT_MEM) n h = ret (ram h + x + SIZEOF_STRUCT_MEM, h)"
      using start by (auto simp: mem_consts)
    then show ?thesis using inv x n by (auto simp: insert_absorb)
  next
    case noteq: False
    show ?thesis
    proof (cases "used_of h e = 0")
      case True
      then have "e \<noteq> MEM_SIZE_ALIGNED" using en by (auto simp: end_ok_def)
      with sb obtain ys where ys: "bs = e # ys" by (cases bs) auto
      show ?thesis
        by (rule finish [OF _ trim_move_wf [OF wf [unfolded ys] x'(2) True q(1,3,2), folded ys]])
          (use start noteq True \<open>e \<noteq> MEM_SIZE_ALIGNED\<close> in simp)
    next
      case used: False
      with noteq q room have e: "q + 20 \<le> e" "e \<noteq> MEM_SIZE_ALIGNED" by (auto simp: q_def mem_consts)
      show ?thesis
        by (rule finish [OF _ trim_split_wf [OF wf x'(2,3) used e(2) q(1) e(1) q(2)]])
          (use start used e in \<open>simp add: mem_consts\<close>)
    qed
  qed
qed

text \<open>A last block that would leave room for a free block behind it cannot be shrunk.\<close>

lemma mem_trim_last_aborts:
  assumes inv: "heap_inv h" and x: "(x, MEM_SIZE_ALIGNED) \<in> used_blocks h"
    and n: "n < 2 ^ 16" "x + SIZEOF_STRUCT_MEM + request n + SIZEOF_STRUCT_MEM + MIN_SIZE_ALIGNED \<le> MEM_SIZE_ALIGNED"
  shows "mem_trim (ram h + x + SIZEOF_STRUCT_MEM) n h = stop (Abort ''invalid next ptr'')"
proof -
  have wf: "heap_wf h (heap_blocks h)" using inv by (simp add: heap_inv_iff)
  have x': "x \<in> set (heap_blocks h)" "next_of h x = MEM_SIZE_ALIGNED" using x by (auto simp: used_blocks_def)
  have "used_of h MEM_SIZE_ALIGNED = 1" using wf by (simp add: heap_wf_def end_ok_def)
  then show ?thesis using mem_trim_start [OF wf x'(1) n(1)] n x' by (simp add: mem_consts)
qed

subsection \<open>The heap is an allocator\<close>

lemma free_block_not_used: "(x, f) \<in> free_blocks h \<Longrightarrow> (x, e) \<notin> used_blocks h"
  by (auto simp: used_blocks_def free_blocks_def)

lemma heap_live_empty: "heap_live h = {} \<longleftrightarrow> used_blocks h = {}"
  by (auto simp: heap_live_def)

lemma heap_live_malloc:
  assumes "ram h' = ram h" and "(x, f) \<in> free_blocks h" and "used_blocks h' = insert (x, e) (used_blocks h)"
  shows "ram h + x + SIZEOF_STRUCT_MEM \<notin> heap_live h"
    and "heap_live h' = insert (ram h + x + SIZEOF_STRUCT_MEM) (heap_live h)"
  using assms free_block_not_used [OF assms(2)] by (auto simp: heap_live_def)

lemma heap_live_free:
  assumes "ram h' = ram h" and "(x, e) \<in> used_blocks h" and "used_blocks h' = used_blocks h - {(x, e)}"
  shows "heap_live h' = heap_live h - {ram h + x + SIZEOF_STRUCT_MEM}"
proof -
  have "inj_on (\<lambda>(x, e). ram h + x + SIZEOF_STRUCT_MEM) (used_blocks h)"
    by (auto simp: inj_on_def used_blocks_def)
  from inj_on_image_set_diff [OF this, of "used_blocks h" "{(x, e)}"] assms show ?thesis
    by (simp add: heap_live_def)
qed

interpretation heap: allocator mem_malloc mem_free heap_live heap_inv "\<lambda>n. n < 2 ^ 16"
proof
  fix h :: mem_heap and n :: nat
  assume "heap_inv h" and "n < 2 ^ 16"
  then obtain r h' where r: "mem_malloc n h = ret (r, h')" "heap_inv h'" "ram h' = ram h"
    "case r of None \<Rightarrow> h' = h \<and> (n = 0 \<or> (\<forall>(x, f)\<in>free_blocks h. f < x + SIZEOF_STRUCT_MEM + request n))
     | Some a \<Rightarrow> 0 < n \<and> (\<exists>x e f. (x, f) \<in> free_blocks h \<and> a = ram h + x + SIZEOF_STRUCT_MEM
         \<and> x + SIZEOF_STRUCT_MEM + request n \<le> e \<and> e \<le> f \<and> used_blocks h' = insert (x, e) (used_blocks h))"
    using mem_malloc_spec by blast
  show "\<exists>r h'. mem_malloc n h = ret (r, h') \<and> heap_inv h' \<and>
     (case r of None \<Rightarrow> heap_live h' = heap_live h
      | Some b \<Rightarrow> b \<notin> heap_live h \<and> heap_live h' = insert b (heap_live h))"
  proof (cases r)
    case None
    then show ?thesis using r by auto
  next
    case (Some a)
    then show ?thesis using r heap_live_malloc [OF r(3)] by auto
  qed
next
  fix h :: mem_heap and b :: nat
  assume inv: "heap_inv h" and "b \<in> heap_live h"
  then obtain x e where x: "(x, e) \<in> used_blocks h" "b = ram h + x + SIZEOF_STRUCT_MEM"
    by (auto simp: heap_live_def)
  obtain h' where "mem_free b h = ret h'" "heap_inv h'" "ram h' = ram h" "used_blocks h' = used_blocks h - {(x, e)}"
    using mem_free_spec [OF inv x(1)] x(2) by blast
  then show "\<exists>h'. mem_free b h = ret h' \<and> heap_inv h' \<and> heap_live h' = heap_live h - {b}"
    using x heap_live_free [OF _ x(1)] by auto
qed

lemma mem_init_live: "heap_live (mem_init h) = {}" if "heap_wf (mem_init h) [0]"
proof -
  have "used_of (mem_init h) 0 = 0" by (simp add: mem_init_def Let_def mem_consts)
  then show ?thesis by (simp add: heap_live_empty used_blocks_wf [OF that])
qed

lemma example_heap_wf: "heap_wf example_heap [0, 120]"
  by (simp add: heap_wf_def example_heap_def lfree_ok_def end_ok_def mem_consts)

lemma example_heap_inv: "heap_inv example_heap"
  by (rule heap_wf_inv [OF example_heap_wf])

lemma example_heap_reads:
  "next_of example_heap 0 = 120" "next_of example_heap 120 = 3200"
  "used_of example_heap 0 = 1" "used_of example_heap 120 = 0"
  by (simp_all add: example_heap_def)

lemma example_heap_used: "used_blocks example_heap = {(0, 120)}"
  by (auto simp: used_blocks_used_in [OF example_heap_wf] used_in_def example_heap_reads)

lemma example_heap_free: "free_blocks example_heap = {(120, 3200)}"
  unfolding free_blocks_wf [OF example_heap_wf] using example_heap_reads by auto

lemma example_full_wf: "heap_wf example_full [0]"
  by (simp add: heap_wf_def example_full_def lfree_ok_def end_ok_def mem_consts)

lemma example_full_used: "used_blocks example_full = {(0, 3200)}"
  unfolding used_blocks_wf [OF example_full_wf] by (auto simp: example_full_def)

subsection \<open>The properties of the heap\<close>

text \<open>
  C3: \<open>mem_malloc\<close> on a well-formed heap always returns, leaves the heap well-formed and does what it
  is for: it answers with the address of a block \<open>[x, e)\<close> cut from one free block, aligned and large
  enough for the request and its struct, which becomes used while every used block stays as it is;
  it answers \<open>NULL\<close> only for a request of 0 bytes or when no free block is large enough, and then
  the heap is untouched.
\<close>

theorem mem_malloc_correct:
  assumes "heap_inv h" and "n < 2 ^ 16"
  shows "\<exists>r h'. mem_malloc n h = ret (r, h') \<and> heap_inv h' \<and> ram h' = ram h \<and>
    (case r of
       None \<Rightarrow> h' = h \<and> (n = 0 \<or> (\<forall>(x, f)\<in>free_blocks h. f < x + SIZEOF_STRUCT_MEM + request n))
     | Some a \<Rightarrow> 0 < n \<and> (\<exists>x e f. (x, f) \<in> free_blocks h \<and> a = ram h + x + SIZEOF_STRUCT_MEM
         \<and> x + SIZEOF_STRUCT_MEM + request n \<le> e \<and> e \<le> f \<and> used_blocks h' = insert (x, e) (used_blocks h)))"
  by (rule mem_malloc_spec [OF assms])

theorem mem_malloc_correct_witness:
  "heap_inv example_heap \<and> (\<exists>a h'. mem_malloc 100 example_heap = ret (Some a, h') \<and> heap_inv h')"
proof
  show "heap_inv example_heap" by (rule example_heap_inv)
  obtain r h' where r: "mem_malloc 100 example_heap = ret (r, h')" "heap_inv h'"
    "case r of None \<Rightarrow> h' = example_heap \<and> ((100::nat) = 0
        \<or> (\<forall>(x, f)\<in>free_blocks example_heap. f < x + SIZEOF_STRUCT_MEM + request 100)) | Some a \<Rightarrow> True"
    using mem_malloc_correct [OF example_heap_inv, of 100] by (auto split: option.splits)
  have "r \<noteq> None" using r(3)
    by (auto simp: example_heap_free request_def LWIP_MEM_ALIGN_SIZE_def mem_consts split: option.splits)
  with r(1,2) show "\<exists>a h'. mem_malloc 100 example_heap = ret (Some a, h') \<and> heap_inv h'" by auto
qed

text \<open>
  C4: \<open>mem_free\<close> of a used block always returns, keeps the heap well-formed (in particular it merges
  the block with the free blocks next to it, so that no two free blocks are adjacent, and keeps
  \<open>lfree\<close> at the lowest free block) and makes exactly this block free.
\<close>

theorem mem_free_correct:
  assumes "heap_inv h" and "(x, e) \<in> used_blocks h"
  shows "\<exists>h'. mem_free (ram h + x + SIZEOF_STRUCT_MEM) h = ret h' \<and> heap_inv h' \<and> ram h' = ram h
    \<and> used_blocks h' = used_blocks h - {(x, e)}"
  by (rule mem_free_spec [OF assms])

theorem mem_free_correct_witness:
  "heap_inv example_heap \<and> (0, 120) \<in> used_blocks example_heap
   \<and> (\<exists>h'. mem_free 1008 example_heap = ret h' \<and> heap_inv h' \<and> used_blocks h' = {})"
  using mem_free_correct [OF example_heap_inv, of 0 120]
  by (simp add: example_heap_inv example_heap_used) (auto simp: example_heap_def mem_consts)

text \<open>
  C33: freeing a block that is free already is detected: \<open>mem_free\<close> stops with the message for it and
  never touches the lists.
\<close>

theorem mem_free_detects_double_free:
  assumes "heap_inv h" and "(x, e) \<in> free_blocks h"
  shows "mem_free (ram h + x + SIZEOF_STRUCT_MEM) h = stop (Abort ''mem_free: illegal memory: double free'')"
  by (rule mem_free_double_free [OF assms])

theorem mem_free_detects_double_free_witness:
  "mem_free 1128 example_heap = stop (Abort ''mem_free: illegal memory: double free'')"
  using mem_free_detects_double_free [OF example_heap_inv, of 120 3200]
  by (simp add: example_heap_free) (simp add: example_heap_def mem_consts)

text \<open>
  \<open>mem_trim\<close> of a used block to a size it has room for returns the same address, keeps the heap
  well-formed and changes only the end of this block, to one that still holds the new size, unless
  the block is the last of the heap and what is cut off could be a block of its own.
\<close>

theorem mem_trim_correct:
  assumes "heap_inv h" and "(x, e) \<in> used_blocks h" and "n < 2 ^ 16"
    and "x + SIZEOF_STRUCT_MEM + request n \<le> e"
    and "e = MEM_SIZE_ALIGNED \<Longrightarrow> e < x + SIZEOF_STRUCT_MEM + request n + SIZEOF_STRUCT_MEM + MIN_SIZE_ALIGNED"
  shows "\<exists>h' e'. mem_trim (ram h + x + SIZEOF_STRUCT_MEM) n h = ret (ram h + x + SIZEOF_STRUCT_MEM, h')
    \<and> heap_inv h' \<and> ram h' = ram h \<and> x + SIZEOF_STRUCT_MEM + request n \<le> e' \<and> e' \<le> e
    \<and> used_blocks h' = insert (x, e') (used_blocks h - {(x, e)})"
  using assms by (rule mem_trim_spec)

theorem mem_trim_correct_witness:
  "\<exists>h' e'. mem_trim 1008 50 example_heap = ret (1008, h') \<and> heap_inv h' \<and> 60 \<le> e' \<and> e' \<le> 120
     \<and> used_blocks h' = {(0, e')}"
  using mem_trim_correct [OF example_heap_inv, of 0 120 50]
  by (simp add: example_heap_used request_def LWIP_MEM_ALIGN_SIZE_def mem_consts) (auto simp: example_heap_def)

text \<open>
  C34: the last block of the heap cannot be shrunk by enough to give a block back: \<open>mem_trim\<close> then
  stops with \<open>invalid next ptr\<close> (the assertion is meant for the case above it, where the next block
  is a free one that is moved).
\<close>

theorem mem_trim_last_block_aborts:
  assumes "heap_inv h" and "(x, MEM_SIZE_ALIGNED) \<in> used_blocks h" and "n < 2 ^ 16"
    and "x + SIZEOF_STRUCT_MEM + request n + SIZEOF_STRUCT_MEM + MIN_SIZE_ALIGNED \<le> MEM_SIZE_ALIGNED"
  shows "mem_trim (ram h + x + SIZEOF_STRUCT_MEM) n h = stop (Abort ''invalid next ptr'')"
  using assms by (rule mem_trim_last_aborts)

theorem mem_trim_last_block_aborts_witness:
  "mem_trim 1008 100 example_full = stop (Abort ''invalid next ptr'')"
  using mem_trim_last_block_aborts [OF heap_wf_inv [OF example_full_wf], of 0 100]
  by (simp add: example_full_used request_def LWIP_MEM_ALIGN_SIZE_def mem_consts) (simp add: example_full_def)

text \<open>
  C32: from a fresh heap, any sequence of \<open>mem_malloc\<close> calls returns, answers with blocks at distinct
  addresses, and when these are given back, in whatever order, every \<open>mem_free\<close> returns and the
  heap is one free block again: nothing is lost and nothing stays fragmented.
\<close>

theorem mem_malloc_free_no_fragmentation:
  assumes "ram h mod 4 = 0" and "8 \<le> ram h" and "ram h + MEM_SIZE_ALIGNED + SIZEOF_STRUCT_MEM \<le> 2 ^ 32"
    and "list_all (\<lambda>n. n < 2 ^ 16) ns"
  shows "\<exists>rs h'. alloc_all mem_malloc ns (mem_init h) = ret (rs, h') \<and> length rs = length ns \<and> distinct (granted rs)
    \<and> (\<forall>bs. distinct bs \<longrightarrow> set bs = set (granted rs) \<longrightarrow>
         (\<exists>h''. free_all mem_free bs h' = ret h'' \<and> heap_inv h'' \<and> heap_blocks h'' = [0]))"
proof -
  have wf: "heap_wf (mem_init h) [0]" by (rule mem_init_inv [OF assms(1-3)])
  have "heap_blocks g = [0]" if "heap_inv g" "heap_live g = heap_live (mem_init h)" for g
    using that mem_init_live [OF wf] no_used_one_block by (simp add: heap_inv_iff heap_live_empty)
  with heap.alloc_free_balanced [OF heap_wf_inv [OF wf] assms(4)] show ?thesis by metis
qed

theorem mem_malloc_free_no_fragmentation_witness:
  "\<exists>rs h'. alloc_all mem_malloc [10, 0, 1000, 4000] (mem_init example_heap) = ret (rs, h') \<and> length rs = 4"
  using mem_malloc_free_no_fragmentation [of example_heap "[10, 0, 1000, 4000]"]
  by (auto simp: example_heap_def mem_consts)

end
