(* ===== verification/Pbuf.thy ===== *)
theory Pbuf
  imports Mem Memp
begin

text \<open>
  The packet buffers of the stack, \<open>core/pbuf.c\<close>. A packet is a chain of \<open>struct pbuf\<close>, each with a
  pointer to its part of the data, the length of the part, the length of the data from here to the
  end of the chain, where its memory comes from, and a reference count.

  The state holds the structs by their address (0 is \<open>NULL\<close>; an address with no live struct is a
  wild pointer), the bytes of memory by their address, the heap of \<open>Mem\<close> and the pools of
  \<open>Memp\<close> that the structs are taken from, and the functions of custom pbufs together with a log of
  their calls. Lengths are natural numbers; where the code casts to \<open>u16_t\<close> or \<open>u8_t\<close> the model takes
  the value modulo \<open>2 ^ 16\<close> or \<open>2 ^ 8\<close>. A buffer of the application is a separate object, a list of
  bytes. \<open>pbuf_split_64k\<close>, which another configuration uses, is modelled too.
\<close>

datatype err_t =
    ERR_OK | ERR_MEM | ERR_BUF | ERR_TIMEOUT | ERR_RTE | ERR_INPROGRESS | ERR_VAL | ERR_WOULDBLOCK | ERR_USE
  | ERR_ALREADY | ERR_ISCONN | ERR_CONN | ERR_IF | ERR_ABRT | ERR_RST | ERR_CLSD | ERR_ARG

datatype pbuf_layer = PBUF_TRANSPORT | PBUF_IP | PBUF_LINK | PBUF_RAW_TX | PBUF_RAW

datatype pbuf_type = PBUF_RAM | PBUF_ROM | PBUF_REF | PBUF_POOL

fun layer_offset :: "pbuf_layer \<Rightarrow> nat" where
  "layer_offset PBUF_TRANSPORT = 74"
| "layer_offset PBUF_IP = 54"
| "layer_offset PBUF_LINK = 14"
| "layer_offset PBUF_RAW_TX = 0"
| "layer_offset PBUF_RAW = 0"

text \<open>\<open>(u8_t)type\<close>.\<close>

fun type_value :: "pbuf_type \<Rightarrow> u8" where
  "type_value PBUF_RAM = 0x80"
| "type_value PBUF_ROM = 0x01"
| "type_value PBUF_REF = 0x41"
| "type_value PBUF_POOL = 0x82"

definition PBUF_TYPE_FLAG_STRUCT_DATA_CONTIGUOUS :: u8 where "PBUF_TYPE_FLAG_STRUCT_DATA_CONTIGUOUS = 0x80"
definition PBUF_TYPE_ALLOC_SRC_MASK :: u8 where "PBUF_TYPE_ALLOC_SRC_MASK = 0x0F"
definition PBUF_TYPE_ALLOC_SRC_MASK_STD_HEAP :: u8 where "PBUF_TYPE_ALLOC_SRC_MASK_STD_HEAP = 0"
definition PBUF_TYPE_ALLOC_SRC_MASK_STD_MEMP_PBUF :: u8 where "PBUF_TYPE_ALLOC_SRC_MASK_STD_MEMP_PBUF = 1"
definition PBUF_TYPE_ALLOC_SRC_MASK_STD_MEMP_PBUF_POOL :: u8 where "PBUF_TYPE_ALLOC_SRC_MASK_STD_MEMP_PBUF_POOL = 2"
definition PBUF_FLAG_IS_CUSTOM :: u8 where "PBUF_FLAG_IS_CUSTOM = 0x02"
definition PBUF_FLAG_TCP_FIN :: u8 where "PBUF_FLAG_TCP_FIN = 0x20"
definition SIZEOF_STRUCT_PBUF :: nat where "SIZEOF_STRUCT_PBUF = 16"
definition PBUF_POOL_BUFSIZE_ALIGNED :: nat where "PBUF_POOL_BUFSIZE_ALIGNED = 592"
definition MEMP_PBUF :: nat where "MEMP_PBUF = 11"
definition MEMP_PBUF_POOL :: nat where "MEMP_PBUF_POOL = 12"

definition U16 :: "nat \<Rightarrow> nat" where "U16 n = n mod 2 ^ 16"
definition U8 :: "nat \<Rightarrow> nat" where "U8 n = n mod 2 ^ 8"

record pbuf =
  pb_next :: nat
  pb_payload :: nat
  pb_tot_len :: nat
  pb_len :: nat
  pb_type_internal :: u8
  pb_flags :: u8
  pb_ref :: nat
  pb_if_idx :: nat

record pbuf_state =
  pbufs :: "nat \<Rightarrow> pbuf option"
  bytes :: "nat \<Rightarrow> u8"
  pheap :: mem_heap
  ppools :: memp_state
  memp_pools :: "memp_desc list"
  custom_free_function :: "nat \<Rightarrow> nat"
  custom_freed :: "(nat \<times> nat) list"
  pbuf_free_ooseq_pending :: bool

subsection \<open>Memory\<close>

definition pget :: "nat \<Rightarrow> pbuf_state \<Rightarrow> pbuf run" where
  "pget p s = (if p = 0 then stop Null_deref else case pbufs s p of None \<Rightarrow> stop Wild_pointer | Some b \<Rightarrow> ret b)"

definition pset :: "nat \<Rightarrow> pbuf \<Rightarrow> pbuf_state \<Rightarrow> pbuf_state" where
  "pset p b s = s\<lparr>pbufs := (pbufs s)(p \<mapsto> b)\<rparr>"

definition read_bytes :: "nat \<Rightarrow> nat \<Rightarrow> pbuf_state \<Rightarrow> u8 list" where
  "read_bytes a n s = map (bytes s) [a..<a + n]"

definition write_bytes :: "nat \<Rightarrow> u8 list \<Rightarrow> pbuf_state \<Rightarrow> pbuf_state" where
  "write_bytes a bs s = s\<lparr>bytes := (\<lambda>x. if a \<le> x \<and> x < a + length bs then bs ! (x - a) else bytes s x)\<rparr>"

subsection \<open>Freeing and referencing\<close>

definition pbuf_get_allocsrc :: "pbuf \<Rightarrow> u8" where
  "pbuf_get_allocsrc b = pb_type_internal b AND PBUF_TYPE_ALLOC_SRC_MASK"

text \<open>The part of \<open>pbuf_free\<close> that gives the memory of a struct back to where it came from.\<close>

definition pbuf_dealloc :: "nat \<Rightarrow> pbuf \<Rightarrow> pbuf_state \<Rightarrow> pbuf_state run" where
  "pbuf_dealloc p b s =
     (let alloc_src = pbuf_get_allocsrc b in
      if pb_flags b AND PBUF_FLAG_IS_CUSTOM \<noteq> 0 then
        lwip_assert ''pc->custom_free_function != NULL'' (custom_free_function s p \<noteq> 0)
         (ret (s\<lparr>pbufs := (pbufs s)(p := None), custom_freed := custom_freed s @ [(custom_free_function s p, p)]\<rparr>))
      else if alloc_src = PBUF_TYPE_ALLOC_SRC_MASK_STD_MEMP_PBUF_POOL then
        bind_run (memp_free (memp_pools s) MEMP_PBUF_POOL p (ppools s)) (\<lambda>m.
          ret (s\<lparr>pbufs := (pbufs s)(p := None), ppools := m\<rparr>))
      else if alloc_src = PBUF_TYPE_ALLOC_SRC_MASK_STD_MEMP_PBUF then
        bind_run (memp_free (memp_pools s) MEMP_PBUF p (ppools s)) (\<lambda>m.
          ret (s\<lparr>pbufs := (pbufs s)(p := None), ppools := m\<rparr>))
      else if alloc_src = PBUF_TYPE_ALLOC_SRC_MASK_STD_HEAP then
        bind_run (mem_free p (pheap s)) (\<lambda>h.
          ret (s\<lparr>pbufs := (pbufs s)(p := None), pheap := h\<rparr>))
      else stop (Abort ''invalid pbuf type''))"

partial_function (option) pbuf_free_loop :: "nat \<Rightarrow> nat \<Rightarrow> pbuf_state \<Rightarrow> (nat \<times> pbuf_state) run" where
  "pbuf_free_loop p count s =
     (if p \<noteq> 0 then
        bind_run (pget p s) (\<lambda>b.
          lwip_assert ''pbuf_free: p->ref > 0'' (pb_ref b > 0)
           (let b = b\<lparr>pb_ref := pb_ref b - 1\<rparr>;
                s = pset p b s
            in if pb_ref b = 0 then
                 bind_run (pbuf_dealloc p b s) (\<lambda>s. pbuf_free_loop (pb_next b) (U8 (count + 1)) s)
               else ret (count, s)))
      else ret (count, s))"

definition pbuf_free :: "nat \<Rightarrow> pbuf_state \<Rightarrow> (nat \<times> pbuf_state) run" where
  "pbuf_free p s = (if p = 0 then stop (Abort ''p != NULL'') else pbuf_free_loop p 0 s)"

partial_function (option) clen_loop :: "pbuf_state \<Rightarrow> nat \<Rightarrow> nat \<Rightarrow> nat run" where
  "clen_loop s p len =
     (if p \<noteq> 0 then bind_run (pget p s) (\<lambda>b. clen_loop s (pb_next b) (U16 (len + 1))) else ret len)"

definition pbuf_clen :: "nat \<Rightarrow> pbuf_state \<Rightarrow> nat run" where
  "pbuf_clen p s = clen_loop s p 0"

definition pbuf_ref :: "nat \<Rightarrow> pbuf_state \<Rightarrow> pbuf_state run" where
  "pbuf_ref p s =
     (if p \<noteq> 0 then
        bind_run (pget p s) (\<lambda>b.
          let b = b\<lparr>pb_ref := U8 (pb_ref b + 1)\<rparr>
          in lwip_assert ''pbuf ref overflow'' (pb_ref b > 0) (ret (pset p b s)))
      else ret s)"

subsection \<open>Allocation\<close>

definition pbuf_init_alloced_pbuf ::
  "nat \<Rightarrow> nat \<Rightarrow> nat \<Rightarrow> nat \<Rightarrow> pbuf_type \<Rightarrow> u8 \<Rightarrow> pbuf_state \<Rightarrow> pbuf_state" where
  "pbuf_init_alloced_pbuf p payload tot_len len type flags s =
     pset p \<lparr>pb_next = 0, pb_payload = payload, pb_tot_len = tot_len, pb_len = len,
             pb_type_internal = type_value type, pb_flags = flags, pb_ref = 1, pb_if_idx = 0\<rparr> s"

definition pbuf_pool_is_empty :: "pbuf_state \<Rightarrow> pbuf_state" where
  "pbuf_pool_is_empty s = s\<lparr>pbuf_free_ooseq_pending := True\<rparr>"

definition pbuf_alloc_reference :: "nat \<Rightarrow> nat \<Rightarrow> pbuf_type \<Rightarrow> pbuf_state \<Rightarrow> (nat \<times> pbuf_state) run" where
  "pbuf_alloc_reference payload len type s =
     lwip_assert ''invalid pbuf_type'' (type = PBUF_REF \<or> type = PBUF_ROM)
      (bind_run (memp_malloc (memp_pools s) MEMP_PBUF (ppools s)) (\<lambda>(r, m).
        let s = s\<lparr>ppools := m\<rparr> in
        case r of
          None \<Rightarrow> ret (0, s)
        | Some p \<Rightarrow> ret (p, pbuf_init_alloced_pbuf p payload len len type 0 s)))"

text \<open>The loop over the pool: \<open>p\<close> is the head of the chain so far, \<open>last_q\<close> its last struct.\<close>

partial_function (option) alloc_pool_loop ::
  "nat \<Rightarrow> nat \<Rightarrow> nat \<Rightarrow> nat \<Rightarrow> pbuf_state \<Rightarrow> (nat \<times> pbuf_state) run" where
  "alloc_pool_loop offset rem_len p last_q s =
     bind_run (memp_malloc (memp_pools s) MEMP_PBUF_POOL (ppools s)) (\<lambda>(r, m).
       let s = s\<lparr>ppools := m\<rparr> in
       case r of
         None \<Rightarrow>
           let s = pbuf_pool_is_empty s
           in if p \<noteq> 0 then bind_run (pbuf_free p s) (\<lambda>(_, s). ret (0, s)) else ret (0, s)
       | Some q \<Rightarrow>
           let qlen = min rem_len (U16 (PBUF_POOL_BUFSIZE_ALIGNED - LWIP_MEM_ALIGN_SIZE offset));
               payload = LWIP_MEM_ALIGN (q + SIZEOF_STRUCT_PBUF + offset);
               s = pbuf_init_alloced_pbuf q payload rem_len qlen PBUF_POOL 0 s
           in lwip_assert ''pbuf_alloc: pbuf q->payload properly aligned'' (payload mod 4 = 0)
             (lwip_assert ''PBUF_POOL_BUFSIZE must be bigger than MEM_ALIGNMENT''
                (PBUF_POOL_BUFSIZE_ALIGNED - LWIP_MEM_ALIGN_SIZE offset > 0)
               (bind_run (if p = 0 then ret s else bind_run (pget last_q s) (\<lambda>b. ret (pset last_q (b\<lparr>pb_next := q\<rparr>) s)))
                 (\<lambda>s. let p = (if p = 0 then q else p);
                          rem_len = U16 (rem_len - qlen)
                      in if rem_len > 0 then alloc_pool_loop 0 rem_len p q s else ret (p, s)))))"

definition pbuf_alloc :: "pbuf_layer \<Rightarrow> nat \<Rightarrow> pbuf_type \<Rightarrow> pbuf_state \<Rightarrow> (nat \<times> pbuf_state) run" where
  "pbuf_alloc layer len type s =
     (let offset = layer_offset layer in
      case type of
        PBUF_REF \<Rightarrow> pbuf_alloc_reference 0 len type s
      | PBUF_ROM \<Rightarrow> pbuf_alloc_reference 0 len type s
      | PBUF_POOL \<Rightarrow> alloc_pool_loop offset len 0 0 s
      | PBUF_RAM \<Rightarrow>
          let payload_len = U16 (LWIP_MEM_ALIGN_SIZE offset + LWIP_MEM_ALIGN_SIZE len);
              alloc_len = mem_size_t (LWIP_MEM_ALIGN_SIZE SIZEOF_STRUCT_PBUF + payload_len)
          in if payload_len < LWIP_MEM_ALIGN_SIZE len \<or> alloc_len < LWIP_MEM_ALIGN_SIZE len then ret (0, s)
             else bind_run (mem_malloc alloc_len (pheap s)) (\<lambda>(r, h).
               let s = s\<lparr>pheap := h\<rparr> in
               case r of
                 None \<Rightarrow> ret (0, s)
               | Some p \<Rightarrow>
                   let payload = LWIP_MEM_ALIGN (p + SIZEOF_STRUCT_PBUF + offset);
                       s = pbuf_init_alloced_pbuf p payload len len type 0 s
                   in lwip_assert ''pbuf_alloc: pbuf->payload properly aligned'' (payload mod 4 = 0) (ret (p, s))))"

definition pbuf_alloced_custom ::
  "pbuf_layer \<Rightarrow> nat \<Rightarrow> pbuf_type \<Rightarrow> nat \<Rightarrow> nat \<Rightarrow> nat \<Rightarrow> pbuf_state \<Rightarrow> nat \<times> pbuf_state" where
  "pbuf_alloced_custom l len type p payload_mem payload_mem_len s =
     (let offset = layer_offset l in
      if LWIP_MEM_ALIGN_SIZE offset + len > payload_mem_len then (0, s)
      else
        let payload = (if payload_mem \<noteq> 0 then payload_mem + LWIP_MEM_ALIGN_SIZE offset else 0)
        in (p, pbuf_init_alloced_pbuf p payload len len type PBUF_FLAG_IS_CUSTOM s))"

text \<open>The loop of \<open>pbuf_realloc\<close> that steps over the structs that stay, correcting their totals.\<close>

partial_function (option) realloc_walk ::
  "nat \<Rightarrow> nat \<Rightarrow> nat \<Rightarrow> pbuf_state \<Rightarrow> (nat \<times> nat \<times> pbuf_state) run" where
  "realloc_walk shrink q rem_len s =
     bind_run (pget q s) (\<lambda>b.
       if rem_len > pb_len b then
         let rem_len = U16 (rem_len - pb_len b);
             s = pset q (b\<lparr>pb_tot_len := U16 (pb_tot_len b + (2 ^ 16 - shrink))\<rparr>) s;
             q = pb_next b
         in lwip_assert ''pbuf_realloc: q != NULL'' (q \<noteq> 0) (realloc_walk shrink q rem_len s)
       else ret (q, rem_len, s))"

definition pbuf_realloc :: "nat \<Rightarrow> nat \<Rightarrow> pbuf_state \<Rightarrow> pbuf_state run" where
  "pbuf_realloc p new_len s =
     lwip_assert ''pbuf_realloc: p != NULL'' (p \<noteq> 0)
      (bind_run (pget p s) (\<lambda>b.
        if new_len \<ge> pb_tot_len b then ret s
        else
          let shrink = U16 (pb_tot_len b - new_len) in
          bind_run (realloc_walk shrink p new_len s) (\<lambda>(q, rem_len, s).
          bind_run (pget q s) (\<lambda>b.
          bind_run
            (if pbuf_get_allocsrc b = PBUF_TYPE_ALLOC_SRC_MASK_STD_HEAP \<and> rem_len \<noteq> pb_len b
                \<and> pb_flags b AND PBUF_FLAG_IS_CUSTOM = 0 then
               bind_run (mem_trim q (mem_size_t (size_t_minus (pb_payload b) q + rem_len)) (pheap s)) (\<lambda>(q, h).
                 lwip_assert ''mem_trim returned q == NULL'' (q \<noteq> 0) (ret (q, s\<lparr>pheap := h\<rparr>)))
             else ret (q, s)) (\<lambda>(q, s).
          bind_run (pget q s) (\<lambda>b.
            let s = pset q (b\<lparr>pb_len := rem_len, pb_tot_len := rem_len\<rparr>) s in
            bind_run (if pb_next b \<noteq> 0 then bind_run (pbuf_free (pb_next b) s) (\<lambda>(_, s). ret s) else ret s) (\<lambda>s.
            bind_run (pget q s) (\<lambda>b. ret (pset q (b\<lparr>pb_next := 0\<rparr>) s)))))))))"

subsection \<open>Headers\<close>

text \<open>The functions on headers return 0 on success and 1 on failure.\<close>

definition pbuf_add_header_impl :: "nat \<Rightarrow> nat \<Rightarrow> bool \<Rightarrow> pbuf_state \<Rightarrow> (nat \<times> pbuf_state) run" where
  "pbuf_add_header_impl p header_size_increment force s =
     lwip_assert ''p != NULL'' (p \<noteq> 0)
      (if header_size_increment > 0xFFFF then ret (1, s)
       else if header_size_increment = 0 then ret (0, s)
       else
         let increment_magnitude = U16 header_size_increment in
         bind_run (pget p s) (\<lambda>b.
           if U16 (increment_magnitude + pb_tot_len b) < increment_magnitude then ret (1, s)
           else
             let payload = size_t_minus (pb_payload b) header_size_increment;
                 s' = pset p (b\<lparr>pb_payload := payload, pb_len := U16 (pb_len b + increment_magnitude),
                                pb_tot_len := U16 (pb_tot_len b + increment_magnitude)\<rparr>) s
             in if pb_type_internal b AND PBUF_TYPE_FLAG_STRUCT_DATA_CONTIGUOUS \<noteq> 0 then
                  if payload < p + SIZEOF_STRUCT_PBUF then ret (1, s) else ret (0, s')
                else if force then ret (0, s')
                else ret (1, s)))"

definition pbuf_add_header :: "nat \<Rightarrow> nat \<Rightarrow> pbuf_state \<Rightarrow> (nat \<times> pbuf_state) run" where
  "pbuf_add_header p header_size_increment s = pbuf_add_header_impl p header_size_increment False s"

definition pbuf_add_header_force :: "nat \<Rightarrow> nat \<Rightarrow> pbuf_state \<Rightarrow> (nat \<times> pbuf_state) run" where
  "pbuf_add_header_force p header_size_increment s = pbuf_add_header_impl p header_size_increment True s"

definition pbuf_remove_header :: "nat \<Rightarrow> nat \<Rightarrow> pbuf_state \<Rightarrow> (nat \<times> pbuf_state) run" where
  "pbuf_remove_header p header_size_decrement s =
     lwip_assert ''p != NULL'' (p \<noteq> 0)
      (if header_size_decrement > 0xFFFF then ret (1, s)
       else if header_size_decrement = 0 then ret (0, s)
       else
         let increment_magnitude = U16 header_size_decrement in
         bind_run (pget p s) (\<lambda>b.
           lwip_assert ''increment_magnitude <= p->len'' (increment_magnitude \<le> pb_len b)
            (ret (0, pset p (b\<lparr>pb_payload := pb_payload b + header_size_decrement,
                              pb_len := U16 (pb_len b - increment_magnitude),
                              pb_tot_len := U16 (pb_tot_len b + (2 ^ 16 - increment_magnitude))\<rparr>) s))))"

text \<open>\<open>header_size_increment\<close> is an \<open>s16_t\<close>.\<close>

definition pbuf_header_impl :: "nat \<Rightarrow> int \<Rightarrow> bool \<Rightarrow> pbuf_state \<Rightarrow> (nat \<times> pbuf_state) run" where
  "pbuf_header_impl p header_size_increment force s =
     (if header_size_increment < 0 then pbuf_remove_header p (nat (- header_size_increment)) s
      else pbuf_add_header_impl p (nat header_size_increment) force s)"

definition pbuf_header :: "nat \<Rightarrow> int \<Rightarrow> pbuf_state \<Rightarrow> (nat \<times> pbuf_state) run" where
  "pbuf_header p header_size_increment s = pbuf_header_impl p header_size_increment False s"

definition pbuf_header_force :: "nat \<Rightarrow> int \<Rightarrow> pbuf_state \<Rightarrow> (nat \<times> pbuf_state) run" where
  "pbuf_header_force p header_size_increment s = pbuf_header_impl p header_size_increment True s"

partial_function (option) pbuf_free_header :: "nat \<Rightarrow> nat \<Rightarrow> pbuf_state \<Rightarrow> (nat \<times> pbuf_state) run" where
  "pbuf_free_header p free_left s =
     (if free_left \<noteq> 0 \<and> p \<noteq> 0 then
        bind_run (pget p s) (\<lambda>b.
          if free_left \<ge> pb_len b then
            let f = p;
                free_left = U16 (free_left - pb_len b);
                p = pb_next b;
                s = pset f (b\<lparr>pb_next := 0\<rparr>) s
            in bind_run (pbuf_free f s) (\<lambda>(_, s). pbuf_free_header p free_left s)
          else bind_run (pbuf_remove_header p free_left s) (\<lambda>(_, s). ret (p, s)))
      else ret (p, s))"

subsection \<open>Chains\<close>

partial_function (option) cat_loop :: "nat \<Rightarrow> nat \<Rightarrow> pbuf_state \<Rightarrow> (nat \<times> pbuf_state) run" where
  "cat_loop t p s =
     bind_run (pget p s) (\<lambda>b.
       if pb_next b \<noteq> 0 then
         bind_run (pget t s) (\<lambda>tb.
           cat_loop t (pb_next b) (pset p (b\<lparr>pb_tot_len := U16 (pb_tot_len b + pb_tot_len tb)\<rparr>) s))
       else ret (p, s))"

definition pbuf_cat :: "nat \<Rightarrow> nat \<Rightarrow> pbuf_state \<Rightarrow> pbuf_state run" where
  "pbuf_cat h t s =
     lwip_assert ''(h != NULL) && (t != NULL) (programmer violates API)'' (h \<noteq> 0 \<and> t \<noteq> 0)
      (bind_run (cat_loop t h s) (\<lambda>(p, s).
       bind_run (pget p s) (\<lambda>b.
         lwip_assert ''p->tot_len == p->len (of last pbuf in chain)'' (pb_tot_len b = pb_len b)
          (lwip_assert ''p->next == NULL'' (pb_next b = 0)
            (bind_run (pget t s) (\<lambda>tb.
              ret (pset p (b\<lparr>pb_tot_len := U16 (pb_tot_len b + pb_tot_len tb), pb_next := t\<rparr>) s)))))))"

definition pbuf_chain :: "nat \<Rightarrow> nat \<Rightarrow> pbuf_state \<Rightarrow> pbuf_state run" where
  "pbuf_chain h t s = bind_run (pbuf_cat h t s) (pbuf_ref t)"

definition pbuf_dechain :: "nat \<Rightarrow> pbuf_state \<Rightarrow> (nat \<times> pbuf_state) run" where
  "pbuf_dechain p s =
     bind_run (pget p s) (\<lambda>b.
       let q = pb_next b in
       bind_run
         (if q \<noteq> 0 then
            bind_run (pget q s) (\<lambda>qb.
              lwip_assert ''p->tot_len == p->len + q->tot_len'' (int (pb_tot_len qb) = int (pb_tot_len b) - int (pb_len b))
               (let s = pset q (qb\<lparr>pb_tot_len := U16 (pb_tot_len b - pb_len b)\<rparr>) s
                in bind_run (pget p s) (\<lambda>b.
                     let s = pset p (b\<lparr>pb_next := 0, pb_tot_len := pb_len b\<rparr>) s in pbuf_free q s)))
          else ret (1, s)) (\<lambda>(tail_gone, s).
       bind_run (pget p s) (\<lambda>b.
         lwip_assert ''p->tot_len == p->len'' (pb_tot_len b = pb_len b)
          (ret (if tail_gone > 0 then 0 else q, s)))))"

text \<open>The two loops of \<open>pbuf_split_64k\<close>, which is compiled with window scaling only.\<close>

partial_function (option) split_find :: "pbuf_state \<Rightarrow> nat \<Rightarrow> nat \<Rightarrow> nat \<Rightarrow> (nat \<times> nat) run" where
  "split_find s tot_len_front i r =
     (if r \<noteq> 0 then
        bind_run (pget r s) (\<lambda>rb.
          if U16 (tot_len_front + pb_len rb) \<ge> tot_len_front
          then split_find s (U16 (tot_len_front + pb_len rb)) r (pb_next rb)
          else ret (i, r))
      else ret (i, r))"

partial_function (option) split_totals :: "nat \<Rightarrow> nat \<Rightarrow> pbuf_state \<Rightarrow> pbuf_state run" where
  "split_totals r i s =
     (if i \<noteq> 0 then
        bind_run (pget i s) (\<lambda>b. bind_run (pget r s) (\<lambda>rb.
          let b = b\<lparr>pb_tot_len := U16 (pb_tot_len b + (2 ^ 16 - pb_tot_len rb))\<rparr>
          in lwip_assert ''tot_len/len mismatch in last pbuf'' (pb_next b \<noteq> 0 \<or> pb_tot_len b = pb_len b)
              (split_totals r (pb_next b) (pset i b s))))
      else ret s)"

definition pbuf_split_64k :: "nat \<Rightarrow> pbuf_state \<Rightarrow> (nat \<times> pbuf_state) run" where
  "pbuf_split_64k p s =
     (if p = 0 then ret (0, s)
      else bind_run (pget p s) (\<lambda>b.
        if pb_next b = 0 then ret (0, s)
        else
          bind_run (split_find s (pb_len b) p (pb_next b)) (\<lambda>(i, r).
          bind_run (pget i s) (\<lambda>ib.
            let s = pset i (ib\<lparr>pb_next := 0\<rparr>) s in
            if r \<noteq> 0 then
              bind_run (split_totals r p s) (\<lambda>s.
              bind_run (pget p s) (\<lambda>b. bind_run (pget r s) (\<lambda>rb.
                let s = (if pb_flags b AND PBUF_FLAG_TCP_FIN \<noteq> 0
                         then pset r (rb\<lparr>pb_flags := pb_flags rb OR PBUF_FLAG_TCP_FIN\<rparr>) s else s)
                in ret (r, s))))
            else ret (0, s)))))"

subsection \<open>Copying\<close>

text \<open>The loop of \<open>pbuf_copy\<close>; the offsets never exceed the lengths, which the code asserts.\<close>

partial_function (option) copy_loop ::
  "nat \<Rightarrow> nat \<Rightarrow> nat \<Rightarrow> nat \<Rightarrow> pbuf_state \<Rightarrow> (err_t \<times> pbuf_state) run" where
  "copy_loop p_to offset_to p_from offset_from s =
     bind_run (pget p_to s) (\<lambda>t. bind_run (pget p_from s) (\<lambda>f.
       let len = (if pb_len t - offset_to \<ge> pb_len f - offset_from then pb_len f - offset_from else pb_len t - offset_to);
           s = write_bytes (pb_payload t + offset_to) (read_bytes (pb_payload f + offset_from) len s) s;
           offset_to = offset_to + len;
           offset_from = offset_from + len
       in lwip_assert ''offset_to <= p_to->len'' (offset_to \<le> pb_len t)
         (lwip_assert ''offset_from <= p_from->len'' (offset_from \<le> pb_len f)
          (let (offset_from, p_from) = (if offset_from \<ge> pb_len f then (0, pb_next f) else (offset_from, p_from));
               to_done = (offset_to = pb_len t);
               (offset_to, p_to) = (if to_done then (0, pb_next t) else (offset_to, p_to))
           in lwip_assert ''p_to != NULL'' (\<not> to_done \<or> p_to \<noteq> 0 \<or> p_from = 0)
             (bind_run (if p_from \<noteq> 0 then bind_run (pget p_from s) (\<lambda>f.
                 lwip_assert ''pbuf_copy() does not allow packet queues!'' (pb_len f \<noteq> pb_tot_len f \<or> pb_next f = 0) (ret ()))
               else ret ()) (\<lambda>_.
             bind_run (if p_to \<noteq> 0 then bind_run (pget p_to s) (\<lambda>t.
                 lwip_assert ''pbuf_copy() does not allow packet queues!'' (pb_len t \<noteq> pb_tot_len t \<or> pb_next t = 0) (ret ()))
               else ret ()) (\<lambda>_.
               if p_from \<noteq> 0 then copy_loop p_to offset_to p_from offset_from s else ret (ERR_OK, s))))))))"

definition pbuf_copy :: "nat \<Rightarrow> nat \<Rightarrow> pbuf_state \<Rightarrow> (err_t \<times> pbuf_state) run" where
  "pbuf_copy p_to p_from s =
     (if p_to = 0 \<or> p_from = 0 then stop (Abort ''pbuf_copy: target not big enough to hold source'')
      else bind_run (pget p_to s) (\<lambda>t. bind_run (pget p_from s) (\<lambda>f.
        lwip_assert ''pbuf_copy: target not big enough to hold source'' (pb_tot_len t \<ge> pb_tot_len f)
          (copy_loop p_to 0 p_from 0 s))))"

text \<open>The loop of \<open>pbuf_copy_partial\<close>: the bytes that are copied, of which there are \<open>copied_total\<close>.\<close>

partial_function (option) copy_partial_loop :: "pbuf_state \<Rightarrow> nat \<Rightarrow> nat \<Rightarrow> nat \<Rightarrow> u8 list \<Rightarrow> u8 list run" where
  "copy_partial_loop s p len offset dataptr =
     (if len \<noteq> 0 \<and> p \<noteq> 0 then
        bind_run (pget p s) (\<lambda>b.
          if offset \<noteq> 0 \<and> offset \<ge> pb_len b then copy_partial_loop s (pb_next b) len (U16 (offset - pb_len b)) dataptr
          else
            let buf_copy_len = U16 (pb_len b - offset);
                buf_copy_len = (if buf_copy_len > len then len else buf_copy_len)
            in copy_partial_loop s (pb_next b) (U16 (len - buf_copy_len)) 0
                 (dataptr @ read_bytes (pb_payload b + offset) buf_copy_len s))
      else ret dataptr)"

definition pbuf_copy_partial :: "nat \<Rightarrow> nat \<Rightarrow> nat \<Rightarrow> pbuf_state \<Rightarrow> u8 list run" where
  "pbuf_copy_partial buf len offset s =
     lwip_assert ''pbuf_copy_partial: invalid buf'' (buf \<noteq> 0) (copy_partial_loop s buf len offset [])"

partial_function (option) skip_loop :: "pbuf_state \<Rightarrow> nat \<Rightarrow> nat \<Rightarrow> (nat \<times> nat) run" where
  "skip_loop s q offset_left =
     (if q \<noteq> 0 then
        bind_run (pget q s) (\<lambda>b.
          if pb_len b \<le> offset_left then skip_loop s (pb_next b) (U16 (offset_left - pb_len b))
          else ret (q, offset_left))
      else ret (q, offset_left))"

definition pbuf_skip_const :: "nat \<Rightarrow> nat \<Rightarrow> pbuf_state \<Rightarrow> (nat \<times> nat) run" where
  "pbuf_skip_const p in_offset s = skip_loop s p in_offset"

definition pbuf_skip :: "nat \<Rightarrow> nat \<Rightarrow> pbuf_state \<Rightarrow> (nat \<times> nat) run" where
  "pbuf_skip p in_offset s = pbuf_skip_const p in_offset s"

text \<open>What \<open>pbuf_get_contiguous\<close> returns: \<open>NULL\<close>, a pointer into a pbuf, or the filled buffer.\<close>

datatype contiguous = Contig_null | Contig_at nat | Contig_copy "u8 list"

definition pbuf_get_contiguous :: "nat \<Rightarrow> nat \<Rightarrow> nat \<Rightarrow> nat \<Rightarrow> pbuf_state \<Rightarrow> contiguous run" where
  "pbuf_get_contiguous p bufsize len offset s =
     lwip_assert ''pbuf_get_contiguous: invalid buf'' (p \<noteq> 0)
      (lwip_assert ''pbuf_get_contiguous: invalid dataptr'' (bufsize \<ge> len)
       (bind_run (pbuf_skip_const p offset s) (\<lambda>(q, out_offset).
          if q \<noteq> 0 then
            bind_run (pget q s) (\<lambda>b.
              if pb_len b \<ge> out_offset + len then ret (Contig_at (pb_payload b + out_offset))
              else bind_run (pbuf_copy_partial q len out_offset s) (\<lambda>bs.
                ret (if length bs \<noteq> len then Contig_null else Contig_copy bs)))
          else ret Contig_null)))"

text \<open>\<open>dataptr\<close> is the list of the \<open>len\<close> bytes that are copied into the chain.\<close>

partial_function (option) take_loop :: "nat \<Rightarrow> u8 list \<Rightarrow> pbuf_state \<Rightarrow> (err_t \<times> pbuf_state) run" where
  "take_loop p dataptr s =
     (if dataptr \<noteq> [] then
        lwip_assert ''pbuf_take: invalid pbuf'' (p \<noteq> 0)
         (bind_run (pget p s) (\<lambda>b.
            let buf_copy_len = (if length dataptr > pb_len b then pb_len b else length dataptr)
            in take_loop (pb_next b) (drop buf_copy_len dataptr)
                 (write_bytes (pb_payload b) (take buf_copy_len dataptr) s)))
      else ret (ERR_OK, s))"

definition pbuf_take :: "nat \<Rightarrow> u8 list \<Rightarrow> pbuf_state \<Rightarrow> (err_t \<times> pbuf_state) run" where
  "pbuf_take buf dataptr s =
     lwip_assert ''pbuf_take: invalid buf'' (buf \<noteq> 0)
      (bind_run (pget buf s) (\<lambda>b.
        lwip_assert ''pbuf_take: buf not large enough'' (pb_tot_len b \<ge> length dataptr) (take_loop buf dataptr s)))"

definition pbuf_take_at :: "nat \<Rightarrow> u8 list \<Rightarrow> nat \<Rightarrow> pbuf_state \<Rightarrow> (err_t \<times> pbuf_state) run" where
  "pbuf_take_at buf dataptr offset s =
     bind_run (pbuf_skip buf offset s) (\<lambda>(q, target_offset).
       if q = 0 then ret (ERR_MEM, s)
       else bind_run (pget q s) (\<lambda>b.
         if pb_tot_len b \<ge> target_offset + length dataptr then
           lwip_assert ''check pbuf_skip result'' (target_offset < pb_len b)
            (let first_copy_len = U16 (min (pb_len b - target_offset) (length dataptr));
                 s = write_bytes (pb_payload b + target_offset) (take first_copy_len dataptr) s;
                 rest = drop first_copy_len dataptr
             in if rest \<noteq> [] then pbuf_take (pb_next b) rest s else ret (ERR_OK, s))
         else ret (ERR_MEM, s)))"

definition pbuf_clone :: "pbuf_layer \<Rightarrow> pbuf_type \<Rightarrow> nat \<Rightarrow> pbuf_state \<Rightarrow> (nat \<times> pbuf_state) run" where
  "pbuf_clone layer type p s =
     bind_run (pget p s) (\<lambda>b.
     bind_run (pbuf_alloc layer (pb_tot_len b) type s) (\<lambda>(q, s).
       if q = 0 then ret (0, s)
       else bind_run (pbuf_copy q p s) (\<lambda>(err, s).
         lwip_assert ''pbuf_copy failed'' (err = ERR_OK) (ret (q, s)))))"

definition pbuf_coalesce :: "nat \<Rightarrow> pbuf_layer \<Rightarrow> pbuf_state \<Rightarrow> (nat \<times> pbuf_state) run" where
  "pbuf_coalesce p layer s =
     bind_run (pget p s) (\<lambda>b.
       if pb_next b = 0 then ret (p, s)
       else bind_run (pbuf_clone layer PBUF_RAM p s) (\<lambda>(q, s).
         if q = 0 then ret (p, s)
         else bind_run (pbuf_free p s) (\<lambda>(_, s). ret (q, s))))"

subsection \<open>Reading, writing and comparing bytes\<close>

text \<open>\<open>None\<close> is the negative return value.\<close>

definition pbuf_try_get_at :: "nat \<Rightarrow> nat \<Rightarrow> pbuf_state \<Rightarrow> u8 option run" where
  "pbuf_try_get_at p offset s =
     bind_run (pbuf_skip_const p offset s) (\<lambda>(q, q_idx).
       if q = 0 then ret None
       else bind_run (pget q s) (\<lambda>b.
         if pb_len b > q_idx then ret (Some (bytes s (pb_payload b + q_idx))) else ret None))"

definition pbuf_get_at :: "nat \<Rightarrow> nat \<Rightarrow> pbuf_state \<Rightarrow> u8 run" where
  "pbuf_get_at p offset s =
     bind_run (pbuf_try_get_at p offset s) (\<lambda>r. case r of Some c \<Rightarrow> ret c | None \<Rightarrow> ret 0)"

definition pbuf_put_at :: "nat \<Rightarrow> nat \<Rightarrow> u8 \<Rightarrow> pbuf_state \<Rightarrow> pbuf_state run" where
  "pbuf_put_at p offset c s =
     bind_run (pbuf_skip p offset s) (\<lambda>(q, q_idx).
       if q = 0 then ret s
       else bind_run (pget q s) (\<lambda>b.
         if pb_len b > q_idx then ret (write_bytes (pb_payload b + q_idx) [c] s) else ret s))"

fun memcmp_loop :: "nat \<Rightarrow> nat \<Rightarrow> nat \<Rightarrow> u8 list \<Rightarrow> pbuf_state \<Rightarrow> nat run" where
  "memcmp_loop q start i [] s = ret 0"
| "memcmp_loop q start i (b # bs) s =
     bind_run (pbuf_get_at q (U16 (start + i)) s) (\<lambda>a.
       if a \<noteq> b then ret (U16 (min (i + 1) 0xFFFF)) else memcmp_loop q start (i + 1) bs s)"

text \<open>\<open>s2\<close> is the list of the \<open>n\<close> bytes to compare with.\<close>

definition pbuf_memcmp :: "nat \<Rightarrow> nat \<Rightarrow> u8 list \<Rightarrow> pbuf_state \<Rightarrow> nat run" where
  "pbuf_memcmp p offset s2 s =
     bind_run (pget p s) (\<lambda>b.
       if pb_tot_len b < offset + length s2 then ret 0xffff
       else bind_run (skip_loop s p offset) (\<lambda>(q, start). memcmp_loop q start 0 s2 s))"

function memfind_loop :: "nat \<Rightarrow> u8 list \<Rightarrow> nat \<Rightarrow> nat \<Rightarrow> pbuf_state \<Rightarrow> nat run" where
  "memfind_loop p mem max_cmp_start i s =
     (if i \<le> max_cmp_start then
        bind_run (pbuf_memcmp p i mem s) (\<lambda>plus.
          if plus = 0 then ret i else memfind_loop p mem max_cmp_start (i + 1) s)
      else ret 0xFFFF)"
  by pat_completeness auto
termination
  by (relation "measure (\<lambda>(p, mem, m, i, s). Suc m - i)") auto

text \<open>The counter is below \<open>2 ^ 16\<close> in every round: the last round has \<open>i = max_cmp_start\<close>.\<close>

definition pbuf_memfind :: "nat \<Rightarrow> u8 list \<Rightarrow> nat \<Rightarrow> pbuf_state \<Rightarrow> nat run" where
  "pbuf_memfind p mem start_offset s =
     bind_run (pget p s) (\<lambda>b.
       let max_cmp_start = U16 (pb_tot_len b + (2 ^ 16 - length mem)) in
       if pb_tot_len b \<ge> length mem + start_offset then memfind_loop p mem max_cmp_start start_offset s
       else ret 0xFFFF)"

text \<open>\<open>substr\<close> is the text without its final zero, \<open>None\<close> the null pointer.\<close>

definition pbuf_strstr :: "nat \<Rightarrow> u8 list option \<Rightarrow> pbuf_state \<Rightarrow> nat run" where
  "pbuf_strstr p substr s =
     (case substr of
        None \<Rightarrow> ret 0xFFFF
      | Some t \<Rightarrow>
          if t = [] then ret 0xFFFF
          else bind_run (pget p s) (\<lambda>b.
            if pb_tot_len b = 0xFFFF then ret 0xFFFF
            else if length t \<ge> 0xFFFF then ret 0xFFFF
            else pbuf_memfind p t 0 s))"

end
