(* ===== verification/Pbuf_Chain.thy ===== *)
theory Pbuf_Chain
  imports Pbuf
begin

text \<open>
  Chains of packet buffers. \<open>chain s p xs\<close> says that from \<open>p\<close> the links lead through the structs
  \<open>xs\<close> to \<open>NULL\<close> and that each total length is the sum of the lengths from there on; the data of a
  chain is the concatenation of the bytes of its parts. The lemmas relate the operations that walk
  along a chain to operations on the list of its bytes: reading, copying, comparing, searching,
  writing and concatenating.
\<close>

definition part_len :: "pbuf_state \<Rightarrow> nat \<Rightarrow> nat" where
  "part_len s x = (case pbufs s x of None \<Rightarrow> 0 | Some b \<Rightarrow> pb_len b)"

definition part_payload :: "pbuf_state \<Rightarrow> nat \<Rightarrow> nat" where
  "part_payload s x = (case pbufs s x of None \<Rightarrow> 0 | Some b \<Rightarrow> pb_payload b)"

definition chain_len :: "pbuf_state \<Rightarrow> nat list \<Rightarrow> nat" where
  "chain_len s xs = sum_list (map (part_len s) xs)"

definition chain_data :: "pbuf_state \<Rightarrow> nat list \<Rightarrow> u8 list" where
  "chain_data s xs = concat (map (\<lambda>x. read_bytes (part_payload s x) (part_len s x) s) xs)"

fun chain :: "pbuf_state \<Rightarrow> nat \<Rightarrow> nat list \<Rightarrow> bool" where
  "chain s p [] \<longleftrightarrow> p = 0"
| "chain s p (x # xs) \<longleftrightarrow> p = x \<and> x \<noteq> 0 \<and>
     (case pbufs s x of
        None \<Rightarrow> False
      | Some b \<Rightarrow> pb_tot_len b = pb_len b + chain_len s xs \<and> chain s (pb_next b) xs)"

definition packet :: "pbuf_state \<Rightarrow> nat \<Rightarrow> nat list \<Rightarrow> bool" where
  "packet s p xs \<longleftrightarrow> chain s p xs \<and> xs \<noteq> [] \<and> chain_len s xs < 2 ^ 16"

fun locate :: "pbuf_state \<Rightarrow> nat list \<Rightarrow> nat \<Rightarrow> nat \<times> nat" where
  "locate s [] off = (0, off)"
| "locate s (x # xs) off = (if part_len s x \<le> off then locate s xs (off - part_len s x) else (x, off))"

definition chain_addrs :: "pbuf_state \<Rightarrow> nat list \<Rightarrow> nat list" where
  "chain_addrs s xs = concat (map (\<lambda>x. [part_payload s x..<part_payload s x + part_len s x]) xs)"

definition write_list :: "nat list \<Rightarrow> u8 list \<Rightarrow> (nat \<Rightarrow> u8) \<Rightarrow> nat \<Rightarrow> u8" where
  "write_list as vs f a = (case map_of (zip as vs) a of None \<Rightarrow> f a | Some v \<Rightarrow> v)"

text \<open>The result of \<open>pbuf_memcmp\<close>: 0 for equal bytes, else one more than the first index that differs.\<close>

definition memcmp_result :: "u8 list \<Rightarrow> u8 list \<Rightarrow> nat \<Rightarrow> bool" where
  "memcmp_result xs ys r \<longleftrightarrow> (r = 0 \<longleftrightarrow> xs = ys)
     \<and> (r \<noteq> 0 \<longrightarrow> (\<exists>j<length ys. r = j + 1 \<and> xs ! j \<noteq> ys ! j \<and> take j xs = take j ys))"

text \<open>Every other part of the state than its bytes.\<close>

definition only_bytes :: "pbuf_state \<Rightarrow> pbuf_state \<Rightarrow> bool" where
  "only_bytes s s' \<longleftrightarrow> s' = s\<lparr>bytes := bytes s'\<rparr>"

definition only_pbufs :: "pbuf_state \<Rightarrow> pbuf_state \<Rightarrow> bool" where
  "only_pbufs s s' \<longleftrightarrow> s' = s\<lparr>pbufs := pbufs s'\<rparr>"

text \<open>A packet of two structs, and a third struct, for the witnesses below.\<close>

definition example_pbuf :: "nat \<Rightarrow> nat \<Rightarrow> nat \<Rightarrow> nat \<Rightarrow> pbuf" where
  "example_pbuf next payload tot_len len =
     \<lparr>pb_next = next, pb_payload = payload, pb_tot_len = tot_len, pb_len = len,
      pb_type_internal = 0x41, pb_flags = 0x02, pb_ref = 1, pb_if_idx = 0\<rparr>"

definition example_packets :: pbuf_state where
  "example_packets =
     \<lparr>pbufs = [50 \<mapsto> example_pbuf 60 100 5 3, 60 \<mapsto> example_pbuf 0 200 2 2, 70 \<mapsto> example_pbuf 0 300 4 4],
      bytes = (\<lambda>a. of_nat a), pheap = example_heap, ppools = example_state, memp_pools = [],
      custom_free_function = (\<lambda>_. 1), custom_freed = [], pbuf_free_ooseq_pending = False\<rparr>"

lemma chain_len_simps [simp]: "chain_len s [] = 0" "chain_len s (x # xs) = part_len s x + chain_len s xs"
  "chain_len s (xs @ ys) = chain_len s xs + chain_len s ys"
  by (simp_all add: chain_len_def)

lemma length_read_bytes [simp]: "length (read_bytes a n s) = n"
  by (simp add: read_bytes_def)

lemma chain_data_simps [simp]: "chain_data s [] = []"
  "chain_data s (x # xs) = read_bytes (part_payload s x) (part_len s x) s @ chain_data s xs"
  "chain_data s (xs @ ys) = chain_data s xs @ chain_data s ys"
  by (simp_all add: chain_data_def)

lemma length_chain_data [simp]: "length (chain_data s xs) = chain_len s xs"
  by (induction xs) simp_all

lemma nth_read_bytes [simp]: "i < n \<Longrightarrow> read_bytes a n s ! i = bytes s (a + i)"
  by (simp add: read_bytes_def)

lemma read_bytes_part: "k + m \<le> n \<Longrightarrow> read_bytes (a + k) m s = take m (drop k (read_bytes a n s))"
  by (rule nth_equalityI) (simp_all add: add.assoc)

lemma chain_Cons_cases:
  assumes "chain s p (x # xs)"
  obtains b where "p = x" "x \<noteq> 0" "pget x s = ret b" "pbufs s x = Some b" "pb_len b = part_len s x" "pb_payload b = part_payload s x"
    "pb_tot_len b = chain_len s (x # xs)" "chain s (pb_next b) xs"
  using assms by (auto simp: pget_def part_len_def part_payload_def split: option.splits)

lemma U16_less [simp]: "n < 2 ^ 16 \<Longrightarrow> U16 n = n"
  by (simp add: U16_def)

lemma clen_loop_chain: "chain s p xs \<Longrightarrow> n + length xs < 2 ^ 16 \<Longrightarrow> clen_loop s p n = ret (n + length xs)"
proof (induction xs arbitrary: p n)
  case Nil
  then show ?case by (simp add: clen_loop.simps)
next
  case (Cons x xs)
  from Cons.prems(1) obtain b where "p = x" "x \<noteq> 0" "pget x s = ret b" "chain s (pb_next b) xs"
    by (rule chain_Cons_cases)
  with Cons show ?case by (subst clen_loop.simps) simp
qed

lemma skip_loop_chain: "chain s p xs \<Longrightarrow> off < 2 ^ 16 \<Longrightarrow> skip_loop s p off = ret (locate s xs off)"
proof (induction xs arbitrary: p off)
  case Nil
  then show ?case by (simp add: skip_loop.simps)
next
  case (Cons x xs)
  from Cons.prems(1) obtain b where "p = x" "x \<noteq> 0" "pget x s = ret b" "pb_len b = part_len s x" "chain s (pb_next b) xs"
    by (rule chain_Cons_cases)
  with Cons show ?case by (subst skip_loop.simps) simp
qed

lemma chain_drop: "chain s p (xs @ ys) \<Longrightarrow> \<exists>q. chain s q ys"
proof (induction xs arbitrary: p)
  case (Cons x xs)
  from Cons.prems have "chain s p (x # (xs @ ys))" by simp
  then show ?case by (rule chain_Cons_cases) (rule Cons.IH)
qed auto

text \<open>Where the byte at an offset lies.\<close>

lemma locate_split:
  assumes "off < chain_len s xs"
  obtains ys q zs k where "xs = ys @ q # zs" "locate s xs off = (q, k)" "off = chain_len s ys + k" "k < part_len s q"
  using assms
proof (induction xs arbitrary: off thesis)
  case (Cons x xs)
  show ?case
  proof (cases "part_len s x \<le> off")
    case True
    then have "off - part_len s x < chain_len s xs" using Cons.prems by simp
    then obtain ys q zs k where "xs = ys @ q # zs" "locate s xs (off - part_len s x) = (q, k)"
      "off - part_len s x = chain_len s ys + k" "k < part_len s q" by (rule Cons.IH [rotated])
    with True show ?thesis by (intro Cons.prems(1) [of "x # ys" q zs k]) auto
  next
    case False
    then show ?thesis by (intro Cons.prems(1) [of "[]" x xs off]) auto
  qed
qed simp

lemma locate_beyond: "chain_len s xs \<le> off \<Longrightarrow> locate s xs off = (0, off - chain_len s xs)"
  by (induction xs arbitrary: off) auto

lemma chain_member:
  assumes "chain s p xs" and "q \<in> set xs"
  obtains b where "q \<noteq> 0" "pget q s = ret b" "pbufs s q = Some b" "pb_len b = part_len s q" "pb_payload b = part_payload s q"
proof -
  obtain ys zs where "xs = ys @ q # zs" using assms(2) by (auto simp: in_set_conv_decomp)
  with assms(1) obtain r where "chain s r (q # zs)" using chain_drop by blast
  then show ?thesis by (rule chain_Cons_cases) (rule that)
qed

lemma nth_chain_data:
  assumes "xs = ys @ q # zs" and "k < part_len s q"
  shows "chain_data s xs ! (chain_len s ys + k) = bytes s (part_payload s q + k)"
  using assms by (simp add: nth_append)

lemma try_get_at_chain:
  assumes c: "chain s p xs" and off: "off < 2 ^ 16"
  shows "pbuf_try_get_at p off s = ret (if off < chain_len s xs then Some (chain_data s xs ! off) else None)"
proof (cases "off < chain_len s xs")
  case True
  then obtain ys q zs k where q: "xs = ys @ q # zs" "locate s xs off = (q, k)" "off = chain_len s ys + k" "k < part_len s q"
    by (rule locate_split)
  obtain b where "q \<noteq> 0" "pget q s = ret b" "pb_len b = part_len s q" "pb_payload b = part_payload s q"
    using chain_member [OF c, of q] q(1) by auto
  then show ?thesis
    using q True nth_chain_data [OF q(1,4)] skip_loop_chain [OF c off]
    by (simp add: pbuf_try_get_at_def pbuf_skip_const_def)
next
  case False
  then show ?thesis
    using skip_loop_chain [OF c off] locate_beyond [of s xs off] by (simp add: pbuf_try_get_at_def pbuf_skip_const_def)
qed

lemma get_at_chain:
  assumes "chain s p xs" and "off < 2 ^ 16"
  shows "pbuf_get_at p off s = ret (if off < chain_len s xs then chain_data s xs ! off else 0)"
  using try_get_at_chain [OF assms] by (simp add: pbuf_get_at_def)

lemma copy_partial_loop_chain:
  assumes "chain s p xs" and "off < 2 ^ 16" and "len < 2 ^ 16" and "chain_len s xs < 2 ^ 16"
  shows "copy_partial_loop s p len off acc = ret (acc @ take len (drop off (chain_data s xs)))"
  using assms
proof (induction xs arbitrary: p off len acc)
  case Nil
  then show ?case by (simp add: copy_partial_loop.simps)
next
  case (Cons x xs)
  from Cons.prems(1) obtain b where b: "p = x" "x \<noteq> 0" "pget x s = ret b" "pb_len b = part_len s x"
    "pb_payload b = part_payload s x" "chain s (pb_next b) xs" by (rule chain_Cons_cases)
  let ?l = "part_len s x" and ?r = "read_bytes (part_payload s x) (part_len s x) s"
  show ?case
  proof (cases "len = 0")
    case True
    then show ?thesis by (subst copy_partial_loop.simps) simp
  next
    case len: False
    show ?thesis
    proof (cases "off \<noteq> 0 \<and> ?l \<le> off")
      case True
      then show ?thesis using Cons b len by (subst copy_partial_loop.simps) simp
    next
      case False
      then have off: "off \<le> ?l" by auto
      let ?n = "min (?l - off) len"
      have "read_bytes (part_payload s x + off) ?n s = take len (drop off ?r)"
        using off by (subst read_bytes_part [of off ?n ?l]) (auto simp: min_def)
      moreover have "U16 (len - ?n) = len - ?n" "U16 (?l - off) = ?l - off" using Cons.prems by auto
      ultimately show ?thesis
        using Cons.IH [OF b(6), of 0 "len - ?n"] Cons.prems b len False off
        by (subst copy_partial_loop.simps) (auto simp: min_def Let_def)
    qed
  qed
qed

lemma packet_head:
  assumes "packet s p xs"
  shows "\<exists>b. pget p s = ret b \<and> pb_tot_len b = chain_len s xs \<and> p \<noteq> 0"
proof -
  obtain x ys where "xs = x # ys" "chain s p (x # ys)" using assms by (cases xs) (auto simp: packet_def)
  from this(2) show ?thesis by (rule chain_Cons_cases) (use \<open>xs = x # ys\<close> in auto)
qed

lemma map_of_zip_None [simp]: "a \<notin> set as \<Longrightarrow> map_of (zip as vs) a = None"
  by (induction as vs rule: list_induct2') auto

lemma memcmp_loop_chain:
  assumes c: "chain s q xs" and "start + i + length bs \<le> chain_len s xs" and "chain_len s xs < 2 ^ 16"
  shows "\<exists>r. memcmp_loop q start i bs s = ret r
    \<and> (r = 0 \<longleftrightarrow> take (length bs) (drop (start + i) (chain_data s xs)) = bs)
    \<and> (r \<noteq> 0 \<longrightarrow> (\<exists>j<length bs. r = i + j + 1 \<and> chain_data s xs ! (start + i + j) \<noteq> bs ! j
         \<and> take j (drop (start + i) (chain_data s xs)) = take j bs))"
  using assms(2)
proof (induction bs arbitrary: i)
  case (Cons b bs)
  let ?d = "chain_data s xs"
  have lt: "start + i < chain_len s xs" using Cons.prems by simp
  have g: "pbuf_get_at q (U16 (start + i)) s = ret (?d ! (start + i))"
    using get_at_chain [OF c, of "start + i"] lt assms(3) by simp
  have dr: "drop (start + i) ?d = ?d ! (start + i) # drop (start + Suc i) ?d"
    using lt by (simp add: Cons_nth_drop_Suc)
  show ?case
  proof (cases "?d ! (start + i) = b")
    case False
    then show ?thesis using g dr lt assms(3) by (auto intro!: exI [of _ 0])
  next
    case True
    have "start + Suc i + length bs \<le> chain_len s xs" using Cons.prems by simp
    from Cons.IH [OF this] obtain r where r: "memcmp_loop q start (Suc i) bs s = ret r"
      "r = 0 \<longleftrightarrow> take (length bs) (drop (start + Suc i) ?d) = bs"
      "r \<noteq> 0 \<longrightarrow> (\<exists>j<length bs. r = Suc i + j + 1 \<and> ?d ! (start + Suc i + j) \<noteq> bs ! j
         \<and> take j (drop (start + Suc i) ?d) = take j bs)" by blast
    show ?thesis
    proof (rule exI [of _ r], intro conjI impI)
      show "memcmp_loop q start i (b # bs) s = ret r" using g True r(1) by simp
      show "r = 0 \<longleftrightarrow> take (length (b # bs)) (drop (start + i) ?d) = b # bs" using r(2) dr True by simp
      assume "r \<noteq> 0"
      with r(3) obtain j where "j < length bs" "r = Suc i + j + 1" "?d ! (start + Suc i + j) \<noteq> bs ! j"
        "take j (drop (start + Suc i) ?d) = take j bs" by blast
      then show "\<exists>j<length (b # bs). r = i + j + 1 \<and> ?d ! (start + i + j) \<noteq> (b # bs) ! j
         \<and> take j (drop (start + i) ?d) = take j (b # bs)"
        using dr True by (intro exI [of _ "Suc j"]) simp
    qed
  qed
qed simp

lemma memcmp_chain:
  assumes p: "packet s p xs" and off: "off + length s2 \<le> chain_len s xs"
  shows "\<exists>r. pbuf_memcmp p off s2 s = ret r \<and> memcmp_result (take (length s2) (drop off (chain_data s xs))) s2 r"
proof -
  have c: "chain s p xs" "chain_len s xs < 2 ^ 16" and ne: "xs \<noteq> []" using p by (auto simp: packet_def)
  obtain b where b: "pget p s = ret b" "pb_tot_len b = chain_len s xs"
    using packet_head [OF p] by blast
  have "skip_loop s p off = ret (locate s xs off)" using skip_loop_chain [OF c(1)] off c(2) by simp
  then have eq: "pbuf_memcmp p off s2 s = (case locate s xs off of (q, start) \<Rightarrow> memcmp_loop q start 0 s2 s)"
    using b off by (simp add: pbuf_memcmp_def)
  show ?thesis
  proof (cases "s2 = []")
    case True
    then have "pbuf_memcmp p off s2 s = ret 0" using eq by (simp split: prod.splits)
    with True show ?thesis by (auto simp: memcmp_result_def)
  next
    case False
    then have "off < chain_len s xs" using off by (cases s2) auto
    then obtain ys q zs k where q: "xs = ys @ q # zs" "locate s xs off = (q, k)" "off = chain_len s ys + k" "k < part_len s q"
      by (rule locate_split)
    have cq: "chain s q (q # zs)" using chain_drop [OF c(1) [unfolded q(1)]] by auto
    have "k + 0 + length s2 \<le> chain_len s (q # zs)" "chain_len s (q # zs) < 2 ^ 16" using off q c(2) by auto
    note l = memcmp_loop_chain [OF cq this]
    define d where "d = chain_data s (q # zs)"
    have dr: "drop off (chain_data s xs) = drop k d" by (simp add: q d_def)
    have n: "k + length s2 \<le> length d" using off q by (simp add: d_def)
    from l obtain r where "memcmp_loop q k 0 s2 s = ret r" "r = 0 \<longleftrightarrow> take (length s2) (drop k d) = s2"
      "r \<noteq> 0 \<longrightarrow> (\<exists>j<length s2. r = j + 1 \<and> d ! (k + j) \<noteq> s2 ! j \<and> take j (drop k d) = take j s2)"
      unfolding d_def [symmetric] by auto
    then show ?thesis using eq q(2) n unfolding dr memcmp_result_def by (fastforce simp: min_def)
  qed
qed

lemma memfind_loop_chain:
  assumes p: "packet s p xs" and m: "max_cmp + length mem = chain_len s xs"
  shows "memfind_loop p mem max_cmp i s =
    ret (case find (\<lambda>i. take (length mem) (drop i (chain_data s xs)) = mem) [i..<Suc max_cmp] of None \<Rightarrow> 0xFFFF | Some j \<Rightarrow> j)"
proof (induction "Suc max_cmp - i" arbitrary: i)
  case 0
  then show ?case by (subst memfind_loop.simps) simp
next
  case (Suc n)
  then have i: "i \<le> max_cmp" by simp
  then obtain r where r: "pbuf_memcmp p i mem s = ret r" "r = 0 \<longleftrightarrow> take (length mem) (drop i (chain_data s xs)) = mem"
    using memcmp_chain [OF p, of i mem] m by (auto simp: memcmp_result_def)
  have "n = Suc max_cmp - (i + 1)" using Suc.hyps(2) by simp
  from Suc.hyps(1) [OF this] r i show ?case
    by (subst memfind_loop.simps) (simp add: upt_conv_Cons del: upt_Suc)
qed

lemma memfind_chain:
  assumes p: "packet s p xs" and m: "length mem + start \<le> chain_len s xs"
  shows "pbuf_memfind p mem start s =
    ret (case find (\<lambda>i. take (length mem) (drop i (chain_data s xs)) = mem) [start..<Suc (chain_len s xs - length mem)] of
           None \<Rightarrow> 0xFFFF | Some j \<Rightarrow> j)"
proof -
  have c: "chain s p xs" "chain_len s xs < 2 ^ 16" "xs \<noteq> []" using p by (auto simp: packet_def)
  obtain b where b: "pget p s = ret b" "pb_tot_len b = chain_len s xs"
    using packet_head [OF p] by blast
  have "chain_len s xs + (2 ^ 16 - length mem) = (chain_len s xs - length mem) + 2 ^ 16" using m c(2) by simp
  then have "U16 (chain_len s xs + (2 ^ 16 - length mem)) = (chain_len s xs - length mem) mod 2 ^ 16"
    by (simp only: U16_def mod_add_self2)
  then have "U16 (chain_len s xs + (2 ^ 16 - length mem)) = chain_len s xs - length mem"
    using c(2) by simp
  then show ?thesis using b m memfind_loop_chain [OF p, of "chain_len s xs - length mem" mem start]
    by (simp add: pbuf_memfind_def Let_def del: upt_Suc)
qed

subsection \<open>Writing\<close>

lemma chain_data_addrs: "chain_data s xs = map (bytes s) (chain_addrs s xs)"
  by (simp add: chain_data_def chain_addrs_def read_bytes_def map_concat comp_def)

lemma write_bytes_list: "bytes (write_bytes a bs s) = write_list [a..<a + length bs] bs (bytes s)"
proof
  fix x
  have "map_of (zip [a..<a + length bs] bs) x = (if a \<le> x \<and> x < a + length bs then Some (bs ! (x - a)) else None)"
  proof (cases "a \<le> x \<and> x < a + length bs")
    case True
    then have "map_of (zip [a..<a + length bs] bs) ([a..<a + length bs] ! (x - a)) = Some (bs ! (x - a))"
      by (intro map_of_zip_nth) auto
    with True show ?thesis by simp
  next
    case False
    then have "x \<notin> set [a..<a + length bs]" by auto
    then have "map_of (zip [a..<a + length bs] bs) x = None" by (rule map_of_zip_None)
    with False show ?thesis by (simp only: if_False)
  qed
  then show "bytes (write_bytes a bs s) x = write_list [a..<a + length bs] bs (bytes s) x"
    by (simp add: write_bytes_def write_list_def)
qed

lemma write_list_append:
  assumes "length as = length vs" "set as \<inter> set bs = {}"
  shows "write_list (as @ bs) (vs @ ws) f = write_list bs ws (write_list as vs f)"
proof
  fix a
  show "write_list (as @ bs) (vs @ ws) f a = write_list bs ws (write_list as vs f) a"
  proof (cases "a \<in> set as")
    case True
    then have "a \<notin> set bs" using assms(2) by auto
    then have "map_of (zip bs ws) a = None" by (rule map_of_zip_None)
    then show ?thesis using assms(1) by (simp add: write_list_def zip_append map_add_def split: option.splits)
  next
    case False
    then show ?thesis using assms(1) by (simp add: write_list_def zip_append map_add_def split: option.splits)
  qed
qed

lemma write_list_other: "a \<notin> set as \<Longrightarrow> write_list as vs f a = f a"
  by (simp add: write_list_def)

lemma map_write_list:
  assumes "distinct (as @ bs)" "length as = length vs"
  shows "map (write_list as vs f) (as @ bs) = vs @ map f bs"
proof -
  have "map (write_list as vs f) as = vs"
    by (rule nth_equalityI) (use assms in \<open>auto simp: write_list_def map_of_zip_nth\<close>)
  moreover have "map (write_list as vs f) bs = map f bs" using assms by (auto intro!: write_list_other)
  ultimately show ?thesis by simp
qed

lemma same_pbufs:
  assumes "pbufs s' = pbufs s"
  shows "part_len s' = part_len s" "part_payload s' = part_payload s" "chain_len s' = chain_len s"
    "chain s' p xs \<longleftrightarrow> chain s p xs" "pget p s' = pget p s" "chain_addrs s' = chain_addrs s"
proof -
  show l: "part_len s' = part_len s" "part_payload s' = part_payload s"
    by (auto simp: part_len_def part_payload_def assms)
  then show c: "chain_len s' = chain_len s" "chain_addrs s' = chain_addrs s"
    by (auto simp: chain_len_def chain_addrs_def)
  show "pget p s' = pget p s" by (simp add: pget_def assms)
  show "chain s' p xs \<longleftrightarrow> chain s p xs"
    by (induction xs arbitrary: p) (auto simp: assms c split: option.splits)
qed

lemma write_bytes_pbufs [simp]: "pbufs (write_bytes a bs s) = pbufs s"
  by (simp add: write_bytes_def)

lemma chain_addrs_Cons: "chain_addrs s (x # xs) = [part_payload s x..<part_payload s x + part_len s x] @ chain_addrs s xs"
  by (simp add: chain_addrs_def)

lemma chain_addrs_Nil [simp]: "chain_addrs s [] = []"
  by (simp add: chain_addrs_def)

lemma length_chain_addrs: "length (chain_addrs s xs) = chain_len s xs"
  by (induction xs) (simp_all add: chain_addrs_Cons)

lemma write_list_Nil [simp]: "write_list [] vs f = f"
  by (rule ext) (simp add: write_list_def)

lemma only_bytes_simps: "only_bytes s s" "only_bytes s (write_bytes a bs s)"
  by (simp_all add: only_bytes_def write_bytes_def)

lemma only_bytes_trans: "only_bytes s s' \<Longrightarrow> only_bytes s' s'' \<Longrightarrow> only_bytes s s''"
  by (cases s, cases s', cases s'') (simp add: only_bytes_def)

lemma only_bytes_pbufs: "only_bytes s s' \<Longrightarrow> pbufs s' = pbufs s"
  by (cases s, cases s') (simp add: only_bytes_def)

lemma take_loop_chain:
  assumes "chain s p xs" "length d \<le> chain_len s xs" "distinct (chain_addrs s xs)"
  shows "\<exists>s'. take_loop p d s = ret (ERR_OK, s') \<and> only_bytes s s'
    \<and> bytes s' = write_list (take (length d) (chain_addrs s xs)) d (bytes s)"
  using assms
proof (induction xs arbitrary: p d s)
  case Nil
  then show ?case by (subst take_loop.simps) (simp add: only_bytes_simps)
next
  case (Cons x xs)
  from Cons.prems(1) obtain b where b: "p = x" "x \<noteq> 0" "pget x s = ret b" "pb_len b = part_len s x"
    "pb_payload b = part_payload s x" "chain s (pb_next b) xs" by (rule chain_Cons_cases)
  show ?case
  proof (cases "d = []")
    case True
    then show ?thesis by (subst take_loop.simps) (simp add: only_bytes_simps)
  next
    case False
    let ?n = "min (length d) (part_len s x)" and ?as = "[part_payload s x..<part_payload s x + part_len s x]"
    let ?s = "write_bytes (part_payload s x) (take ?n d) s"
    have sm: "pbufs ?s = pbufs s" by simp
    have pre: "chain ?s (pb_next b) xs" "length (drop ?n d) \<le> chain_len ?s xs" "distinct (chain_addrs ?s xs)"
      using b(6) Cons.prems by (auto simp: same_pbufs [OF sm] chain_addrs_Cons)
    from Cons.IH [OF this] obtain s' where s': "take_loop (pb_next b) (drop ?n d) ?s = ret (ERR_OK, s')" "only_bytes ?s s'"
      "bytes s' = write_list (take (length (drop ?n d)) (chain_addrs ?s xs)) (drop ?n d) (bytes ?s)" by blast
    have n: "(if length d > pb_len b then pb_len b else length d) = ?n" using b by auto
    have "take (length d) (chain_addrs s (x # xs)) = take ?n ?as @ take (length d - ?n) (chain_addrs s xs)"
      by (cases "length d \<le> part_len s x") (simp_all add: chain_addrs_Cons min_def)
    moreover have "[part_payload s x..<part_payload s x + length (take ?n d)] = take ?n ?as" by (simp add: take_upt)
    moreover have "set (take ?n ?as) \<inter> set (take (length d - ?n) (chain_addrs s xs)) = {}"
    proof -
      have "set ?as \<inter> set (chain_addrs s xs) = {}" using Cons.prems(3) by (simp add: chain_addrs_Cons)
      then show ?thesis using set_take_subset [of ?n ?as] set_take_subset [of "length d - ?n" "chain_addrs s xs"] by blast
    qed
    then have "write_list (take ?n ?as @ take (length d - ?n) (chain_addrs s xs)) (take ?n d @ drop ?n d) (bytes s) =
       write_list (take (length d - ?n) (chain_addrs s xs)) (drop ?n d) (write_list (take ?n ?as) (take ?n d) (bytes s))"
      by (intro write_list_append) simp
    ultimately have "bytes s' = write_list (take (length d) (chain_addrs s (x # xs))) d (bytes s)"
      using s'(3) unfolding write_bytes_list same_pbufs [OF sm] append_take_drop_id by simp
    moreover have "take_loop p d s = ret (ERR_OK, s')"
      using s'(1) b False by (subst take_loop.simps) (simp add: n [symmetric] Let_def)
    ultimately show ?thesis using s'(2) only_bytes_trans [OF only_bytes_simps(2)] by auto
  qed
qed

lemma take_chain:
  assumes p: "packet s p xs" and d: "length d \<le> chain_len s xs" "distinct (chain_addrs s xs)"
  shows "\<exists>s'. pbuf_take p d s = ret (ERR_OK, s') \<and> only_bytes s s'
    \<and> chain_data s' xs = d @ drop (length d) (chain_data s xs)
    \<and> (\<forall>a. a \<notin> set (chain_addrs s xs) \<longrightarrow> bytes s' a = bytes s a)"
proof -
  have c: "chain s p xs" using p by (simp add: packet_def)
  obtain b where b: "pget p s = ret b" "pb_tot_len b = chain_len s xs" "p \<noteq> 0" using packet_head [OF p] by blast
  obtain s' where s': "take_loop p d s = ret (ERR_OK, s')" "only_bytes s s'"
    "bytes s' = write_list (take (length d) (chain_addrs s xs)) d (bytes s)" using take_loop_chain [OF c d] by blast
  have "map (write_list (take (length d) (chain_addrs s xs)) d (bytes s))
      (take (length d) (chain_addrs s xs) @ drop (length d) (chain_addrs s xs))
    = d @ map (bytes s) (drop (length d) (chain_addrs s xs))"
    by (rule map_write_list) (use d in \<open>simp_all add: length_chain_addrs\<close>)
  then have "chain_data s' xs = d @ drop (length d) (chain_data s xs)"
    using s' by (simp add: chain_data_addrs same_pbufs [OF only_bytes_pbufs] drop_map)
  moreover have "\<forall>a. a \<notin> set (chain_addrs s xs) \<longrightarrow> bytes s' a = bytes s a"
    using s'(3) by (auto intro!: write_list_other dest: in_set_takeD)
  ultimately show ?thesis using s' b d by (auto simp: pbuf_take_def)
qed

lemma put_at_chain:
  assumes c: "chain s p xs" and off: "off < 2 ^ 16" and d: "distinct (chain_addrs s xs)"
  shows "\<exists>s'. pbuf_put_at p off v s = ret s' \<and> only_bytes s s' \<and> chain_data s' xs = (chain_data s xs)[off := v]"
proof (cases "off < chain_len s xs")
  case True
  then obtain ys q zs k where q: "xs = ys @ q # zs" "locate s xs off = (q, k)" "off = chain_len s ys + k" "k < part_len s q"
    by (rule locate_split)
  obtain b where b: "q \<noteq> 0" "pget q s = ret b" "pb_len b = part_len s q" "pb_payload b = part_payload s q"
    using chain_member [OF c, of q] q(1) by auto
  let ?a = "part_payload s q + k" and ?s = "write_bytes (part_payload s q + k) [v] s"
  have "chain_addrs s xs ! off = ?a"
    using q by (simp add: chain_addrs_def nth_append length_chain_addrs [unfolded chain_addrs_def])
  then have at: "chain_addrs s xs ! i = ?a \<longleftrightarrow> i = off" if "i < chain_len s xs" for i
    using that True d nth_eq_iff_index_eq [OF d, of i off] by (simp add: length_chain_addrs)
  have "bytes ?s = (bytes s)(?a := v)" by (auto simp: write_bytes_def le_Suc_eq)
  then have "map (bytes ?s) (chain_addrs s xs) = (map (bytes s) (chain_addrs s xs))[off := v]"
    using at by (intro nth_equalityI) (auto simp: nth_list_update length_chain_addrs)
  then have "chain_data ?s xs = (chain_data s xs)[off := v]" by (simp add: chain_data_addrs same_pbufs [of ?s s])
  moreover have "pbuf_put_at p off v s = ret ?s"
    using skip_loop_chain [OF c off] q b by (simp add: pbuf_put_at_def pbuf_skip_def pbuf_skip_const_def)
  ultimately show ?thesis by (auto simp: only_bytes_simps)
next
  case False
  then have "pbuf_put_at p off v s = ret s"
    using skip_loop_chain [OF c off] locate_beyond [of s xs off]
    by (simp add: pbuf_put_at_def pbuf_skip_def pbuf_skip_const_def)
  moreover have "(chain_data s xs)[off := v] = chain_data s xs" using False by (intro list_update_beyond) simp
  ultimately show ?thesis by (auto simp: only_bytes_simps)
qed

subsection \<open>Concatenation\<close>

lemma chain_unique: "chain s p xs \<Longrightarrow> chain s p ys \<Longrightarrow> xs = ys"
proof (induction xs arbitrary: p ys)
  case Nil
  then show ?case by (cases ys) auto
next
  case (Cons x xs)
  then show ?case by (cases ys) (auto split: option.splits)
qed

lemma chain_distinct: "chain s p xs \<Longrightarrow> distinct xs"
proof (induction xs arbitrary: p)
  case (Cons x xs)
  from Cons.prems have c: "chain s x (x # xs)" by auto
  have "x \<notin> set xs"
  proof
    assume "x \<in> set xs"
    then obtain ys zs where xs: "xs = ys @ x # zs" by (auto simp: in_set_conv_decomp)
    obtain q where "chain s q (x # zs)" using chain_drop [of s x "x # ys" "x # zs"] c xs by auto
    then have "chain s x (x # zs)" by auto
    from chain_unique [OF c this] xs show False by simp
  qed
  moreover from c have "distinct xs" by (rule chain_Cons_cases) (rule Cons.IH)
  ultimately show ?case by simp
qed simp

lemma chain_frame:
  assumes "\<And>x. x \<in> set xs \<Longrightarrow> pbufs s' x = pbufs s x"
  shows "chain_len s' xs = chain_len s xs" "chain s' p xs \<longleftrightarrow> chain s p xs" "chain_addrs s' xs = chain_addrs s xs"
proof -
  have l: "chain_len s' ys = chain_len s ys" if "set ys \<subseteq> set xs" for ys
    using that assms by (induction ys) (auto simp: part_len_def)
  then show "chain_len s' xs = chain_len s xs" by simp
  show "chain s' p xs \<longleftrightarrow> chain s p xs"
    using assms by (induction xs arbitrary: p) (auto simp: chain_len_def part_len_def split: option.splits cong: map_cong)
  show "chain_addrs s' xs = chain_addrs s xs"
    using assms by (induction xs) (auto simp: chain_addrs_Cons part_len_def part_payload_def)
qed

lemma cat_loop_chain:
  assumes "chain s p xs" "xs \<noteq> []" "pget t s = ret tb" "t \<notin> set xs"
    and "chain_len s xs + pb_tot_len tb < 2 ^ 16"
  shows "cat_loop t p s = ret (last xs, s\<lparr>pbufs := (\<lambda>x. if x \<in> set (butlast xs)
      then map_option (\<lambda>b. b\<lparr>pb_tot_len := pb_tot_len b + pb_tot_len tb\<rparr>) (pbufs s x) else pbufs s x)\<rparr>)"
  using assms
proof (induction xs arbitrary: p s)
  case (Cons x xs)
  from Cons.prems(1) obtain b where b: "p = x" "x \<noteq> 0" "pget x s = ret b" "pbufs s x = Some b"
    "pb_tot_len b = chain_len s (x # xs)" "chain s (pb_next b) xs" by (rule chain_Cons_cases)
  show ?case
  proof (cases "xs = []")
    case True
    then show ?thesis using b by (subst cat_loop.simps) simp
  next
    case False
    have nz: "pb_next b \<noteq> 0" using b(6) False by (cases xs) auto
    have x: "x \<notin> set xs" using chain_distinct [OF Cons.prems(1)] by simp
    let ?s = "pset x (b\<lparr>pb_tot_len := pb_tot_len b + pb_tot_len tb\<rparr>) s"
    have fr: "\<And>y. y \<in> set xs \<Longrightarrow> pbufs ?s y = pbufs s y" using x by (auto simp: pset_def)
    have t: "pget t ?s = ret tb" using Cons.prems(3,4) by (auto simp: pget_def pset_def split: if_splits)
    have "cat_loop t (pb_next b) ?s = ret (last xs, ?s\<lparr>pbufs := (\<lambda>y. if y \<in> set (butlast xs)
      then map_option (\<lambda>b. b\<lparr>pb_tot_len := pb_tot_len b + pb_tot_len tb\<rparr>) (pbufs ?s y) else pbufs ?s y)\<rparr>)"
      using Cons.prems b(6) False t by (intro Cons.IH) (simp_all add: chain_frame [of xs ?s s, OF fr])
    moreover have "(\<lambda>y. if y \<in> set (butlast xs) then map_option (\<lambda>b. b\<lparr>pb_tot_len := pb_tot_len b + pb_tot_len tb\<rparr>) (pbufs ?s y) else pbufs ?s y)
      = (\<lambda>y. if y \<in> set (butlast (x # xs)) then map_option (\<lambda>b. b\<lparr>pb_tot_len := pb_tot_len b + pb_tot_len tb\<rparr>) (pbufs s y) else pbufs s y)"
      using x b(4) False in_set_butlastD [of _ xs] by (intro ext) (auto simp: pset_def)
    moreover have "U16 (pb_tot_len b + pb_tot_len tb) = pb_tot_len b + pb_tot_len tb" using b(5) Cons.prems(5) by simp
    ultimately show ?thesis using b nz Cons.prems(3) False
      by (subst cat_loop.simps) (simp add: pset_def)
  qed
qed simp

lemma chain_join:
  assumes "chain s p xs" "xs \<noteq> []" "chain s t ys" "t \<noteq> 0"
    and "\<And>x. x \<in> set (butlast xs) \<Longrightarrow> pbufs s' x = map_option (\<lambda>b. b\<lparr>pb_tot_len := pb_tot_len b + chain_len s ys\<rparr>) (pbufs s x)"
    and "pbufs s' (last xs) = map_option (\<lambda>b. b\<lparr>pb_tot_len := pb_tot_len b + chain_len s ys, pb_next := t\<rparr>) (pbufs s (last xs))"
    and "\<And>y. y \<in> set ys \<Longrightarrow> pbufs s' y = pbufs s y"
  shows "chain s' p (xs @ ys) \<and> chain_len s' xs = chain_len s xs"
  using assms(1,2,5,6)
proof (induction xs arbitrary: p)
  case (Cons x xs)
  from Cons.prems(1) obtain b where b: "p = x" "x \<noteq> 0" "pbufs s x = Some b" "pb_len b = part_len s x"
    "pb_tot_len b = chain_len s (x # xs)" "chain s (pb_next b) xs" by (rule chain_Cons_cases)
  note fr = chain_frame [of ys s' s, OF assms(7)]
  show ?case
  proof (cases "xs = []")
    case True
    then show ?thesis using b Cons.prems(4) fr assms(3) by (simp add: part_len_def)
  next
    case False
    then have "chain s' (pb_next b) (xs @ ys) \<and> chain_len s' xs = chain_len s xs"
      using b(6) Cons.prems by (intro Cons.IH) auto
    then show ?thesis using b Cons.prems(3) [of x] False fr by (simp add: part_len_def)
  qed
qed simp

lemma pset_simps [simp]: "pbufs (pset p b s) = (pbufs s)(p \<mapsto> b)" "bytes (pset p b s) = bytes s"
  "pheap (pset p b s) = pheap s" "ppools (pset p b s) = ppools s" "memp_pools (pset p b s) = memp_pools s"
  "custom_free_function (pset p b s) = custom_free_function s" "custom_freed (pset p b s) = custom_freed s"
  by (simp_all add: pset_def)

lemma pget_ret_iff: "pget p s = ret b \<longleftrightarrow> p \<noteq> 0 \<and> pbufs s p = Some b"
  by (auto simp: pget_def split: option.splits)

lemma cat_chain:
  assumes h: "packet s h xs" and t: "packet s t ys" and d: "set xs \<inter> set ys = {}"
    and len: "chain_len s xs + chain_len s ys < 2 ^ 16"
  shows "\<exists>s'. pbuf_cat h t s = ret s' \<and> packet s' h (xs @ ys)
    \<and> chain_data s' (xs @ ys) = chain_data s xs @ chain_data s ys
    \<and> (\<forall>x. x \<notin> set xs \<longrightarrow> pbufs s' x = pbufs s x) \<and> only_pbufs s s'"
proof -
  have c: "chain s h xs" "chain s t ys" "xs \<noteq> []" "ys \<noteq> []" using h t by (auto simp: packet_def)
  obtain hb where hb: "pget h s = ret hb" "h \<noteq> 0" using packet_head [OF h] by blast
  obtain tb where tb: "pget t s = ret tb" "pb_tot_len tb = chain_len s ys" "t \<noteq> 0" using packet_head [OF t] by blast
  have "t \<in> set ys" using c(2,4) by (cases ys) auto
  then have tx: "t \<notin> set xs" using d by auto
  let ?T = "chain_len s ys"
  let ?f = "\<lambda>x. if x \<in> set (butlast xs) then map_option (\<lambda>b. b\<lparr>pb_tot_len := pb_tot_len b + ?T\<rparr>) (pbufs s x) else pbufs s x"
  let ?s = "s\<lparr>pbufs := ?f\<rparr>"
  have loop: "cat_loop t h s = ret (last xs, ?s)"
    using cat_loop_chain [OF c(1,3) tb(1) tx, unfolded tb(2)] len by simp
  have lx: "last xs \<notin> set (butlast xs)"
    using chain_distinct [OF c(1)] c(3) by (metis append_butlast_last_id distinct_append not_distinct_conv_prefix distinct_butlast)
  have "chain s (last xs) [last xs]"
    using chain_drop [of s h "butlast xs" "[last xs]"] c(1,3) by auto
  then obtain lb where lb: "pbufs s (last xs) = Some lb" "last xs \<noteq> 0" "pb_tot_len lb = pb_len lb" "pb_next lb = 0"
    by (auto split: option.splits)
  have lbl: "pb_tot_len lb + ?T < 2 ^ 16"
  proof -
    have "chain_len s xs = chain_len s (butlast xs) + part_len s (last xs)"
      using c(3) by (metis append_butlast_last_id chain_len_simps(1,2,3) add.right_neutral)
    then show ?thesis using len lb by (simp add: part_len_def)
  qed
  let ?s' = "pset (last xs) (lb\<lparr>pb_tot_len := pb_tot_len lb + ?T, pb_next := t\<rparr>) ?s"
  have "pget (last xs) ?s = ret lb" "pget t ?s = ret tb"
    using lb lx tb tx in_set_butlastD [of t xs] by (auto simp: pget_ret_iff)
  then have cat: "pbuf_cat h t s = ret ?s'" using hb tb lb lbl loop by (simp add: pbuf_cat_def)
  have fr: "pbufs ?s' x = pbufs s x" if "x \<notin> set xs" for x
    using that c(3) in_set_butlastD [of x xs] last_in_set [of xs] by auto
  have j: "chain ?s' h (xs @ ys) \<and> chain_len ?s' xs = chain_len s xs"
  proof (rule chain_join [OF c(1,3,2) tb(3)])
    show "pbufs ?s' x = map_option (\<lambda>b. b\<lparr>pb_tot_len := pb_tot_len b + chain_len s ys\<rparr>) (pbufs s x)"
      if "x \<in> set (butlast xs)" for x using that lx by auto
    show "pbufs ?s' (last xs) = map_option (\<lambda>b. b\<lparr>pb_tot_len := pb_tot_len b + chain_len s ys, pb_next := t\<rparr>) (pbufs s (last xs))"
      using lb by simp
    show "pbufs ?s' y = pbufs s y" if "y \<in> set ys" for y
    proof -
      have "y \<notin> set xs" using that d by auto
      then show ?thesis by (rule fr)
    qed
  qed
  have parts: "part_len ?s' x = part_len s x" "part_payload ?s' x = part_payload s x" for x
    using lb by (auto simp: part_len_def part_payload_def split: option.splits)
  then have "chain_data ?s' zs = chain_data s zs" for zs
    by (induction zs) (simp_all add: read_bytes_def)
  moreover have "chain_len ?s' zs = chain_len s zs" for zs
    by (induction zs) (simp_all only: chain_len_simps parts)
  ultimately show ?thesis using cat j fr len c(3)
    by (intro exI [of _ ?s']) (auto simp: packet_def only_pbufs_def pset_def)
qed

lemma example_packet: "packet example_packets 50 [50, 60]" "packet example_packets 70 [70]"
  by (simp_all add: packet_def example_packets_def example_pbuf_def part_len_def)

lemma example_parts:
  "part_len example_packets 50 = 3" "part_len example_packets 60 = 2" "part_len example_packets 70 = 4"
  "part_payload example_packets 50 = 100" "part_payload example_packets 60 = 200"
  "read_bytes 100 3 example_packets = [100, 101, 102]" "read_bytes 200 2 example_packets = [200, 201]"
  "chain_addrs example_packets [50, 60] = [100, 101, 102, 200, 201]"
  by (simp_all add: example_packets_def example_pbuf_def part_len_def part_payload_def read_bytes_def chain_addrs_def upt_rec)

subsection \<open>The properties of chains\<close>

text \<open>
  \<open>pbuf_copy_partial\<close> of a well-formed packet always returns and copies exactly the \<open>len\<close> bytes
  of the packet from \<open>offset\<close> on, or as many as there are, however the packet is cut into parts.
\<close>

theorem pbuf_copy_partial_correct:
  assumes "packet s p xs" and "len < 2 ^ 16" and "offset < 2 ^ 16"
  shows "pbuf_copy_partial p len offset s = ret (take len (drop offset (chain_data s xs)))"
  using copy_partial_loop_chain [of s p xs offset len "[]"] packet_head [OF assms(1)] assms
  by (auto simp: pbuf_copy_partial_def packet_def)

theorem pbuf_copy_partial_correct_witness:
  "pbuf_copy_partial 50 3 2 example_packets = ret [102, 200, 201]"
  using pbuf_copy_partial_correct [OF example_packet(1), of 3 2] by (simp add: example_parts)

text \<open>
  \<open>pbuf_try_get_at\<close> returns the byte of the packet at the offset, and no byte beyond its end.
\<close>

theorem pbuf_try_get_at_correct:
  assumes "packet s p xs" and "offset < 2 ^ 16"
  shows "pbuf_try_get_at p offset s =
    ret (if offset < chain_len s xs then Some (chain_data s xs ! offset) else None)"
  using try_get_at_chain [of s p xs offset] assms by (simp add: packet_def)

theorem pbuf_try_get_at_correct_witness:
  "pbuf_try_get_at 50 3 example_packets = ret (Some 200) \<and> pbuf_try_get_at 50 5 example_packets = ret None"
  using pbuf_try_get_at_correct [OF example_packet(1), of 3] pbuf_try_get_at_correct [OF example_packet(1), of 5]
  by (simp add: example_parts)

text \<open>
  \<open>pbuf_put_at\<close> changes exactly the byte of the packet at the offset, in whichever part it lies,
  and nothing for an offset beyond the end. (The parts of the packet must not share memory.)
\<close>

theorem pbuf_put_at_correct:
  assumes "packet s p xs" and "offset < 2 ^ 16" and "distinct (chain_addrs s xs)"
  shows "\<exists>s'. pbuf_put_at p offset v s = ret s' \<and> packet s' p xs \<and> chain_data s' xs = (chain_data s xs)[offset := v]"
proof -
  have c: "chain s p xs" using assms(1) by (simp add: packet_def)
  obtain s' where "pbuf_put_at p offset v s = ret s'" "only_bytes s s'" "chain_data s' xs = (chain_data s xs)[offset := v]"
    using put_at_chain [OF c assms(2,3), of v] by blast
  then show ?thesis using assms(1) same_pbufs [OF only_bytes_pbufs, of s s'] by (auto simp: packet_def)
qed

theorem pbuf_put_at_correct_witness:
  "\<exists>s'. pbuf_put_at 50 3 7 example_packets = ret s' \<and> chain_data s' [50, 60] = [100, 101, 102, 7, 201]"
  using pbuf_put_at_correct [OF example_packet(1), of 3 7] by (auto simp: example_parts)

text \<open>
  what \<open>pbuf_take\<close> writes into a packet that is long enough, \<open>pbuf_copy_partial\<close> reads back; the
  bytes of the packet behind it and all memory outside of the packet stay as they are.
\<close>

theorem pbuf_take_copy_roundtrip:
  assumes "packet s p xs" and "length d \<le> chain_len s xs" and "distinct (chain_addrs s xs)"
  shows "\<exists>s'. pbuf_take p d s = ret (ERR_OK, s') \<and> packet s' p xs
    \<and> pbuf_copy_partial p (length d) 0 s' = ret d
    \<and> drop (length d) (chain_data s' xs) = drop (length d) (chain_data s xs)
    \<and> (\<forall>a. a \<notin> set (chain_addrs s xs) \<longrightarrow> bytes s' a = bytes s a)"
proof -
  obtain s' where s': "pbuf_take p d s = ret (ERR_OK, s')" "only_bytes s s'"
    "chain_data s' xs = d @ drop (length d) (chain_data s xs)"
    "\<forall>a. a \<notin> set (chain_addrs s xs) \<longrightarrow> bytes s' a = bytes s a"
    using take_chain [OF assms] by blast
  have p: "packet s' p xs" using assms(1) same_pbufs [OF only_bytes_pbufs [OF s'(2)]] by (simp add: packet_def)
  have "length d < 2 ^ 16" using assms(1,2) by (simp add: packet_def)
  then have "pbuf_copy_partial p (length d) 0 s' = ret d"
    using copy_partial_loop_chain [of s' p xs 0 "length d" "[]"] packet_head [OF p] p s'(3)
    by (auto simp: pbuf_copy_partial_def packet_def)
  with s' p show ?thesis by auto
qed

theorem pbuf_take_copy_roundtrip_witness:
  "\<exists>s'. pbuf_take 50 [1, 2, 3, 4] example_packets = ret (ERR_OK, s')
     \<and> pbuf_copy_partial 50 (length [1, 2, 3, 4 :: u8]) 0 s' = ret [1, 2, 3, 4]"
  using pbuf_take_copy_roundtrip [OF example_packet(1), of "[1, 2, 3, 4]"] by (auto simp: example_parts)

text \<open>
  \<open>pbuf_memcmp\<close> of as many bytes as the packet has returns 0 exactly when they are equal, and
  otherwise one more than the index of the first byte that differs.
\<close>

theorem pbuf_memcmp_correct:
  assumes "packet s p xs" and "offset + length s2 \<le> chain_len s xs"
  shows "\<exists>r. pbuf_memcmp p offset s2 s = ret r
    \<and> (r = 0 \<longleftrightarrow> take (length s2) (drop offset (chain_data s xs)) = s2)
    \<and> (r \<noteq> 0 \<longrightarrow> (\<exists>j<length s2. r = j + 1 \<and> chain_data s xs ! (offset + j) \<noteq> s2 ! j
         \<and> take j (drop offset (chain_data s xs)) = take j s2))"
proof -
  obtain r where "pbuf_memcmp p offset s2 s = ret r" "memcmp_result (take (length s2) (drop offset (chain_data s xs))) s2 r"
    using memcmp_chain [OF assms] by blast
  then show ?thesis using assms(2) by (fastforce simp: memcmp_result_def min_def)
qed

theorem pbuf_memcmp_correct_witness:
  "\<exists>r. pbuf_memcmp 50 1 [101, 102, 200] example_packets = ret r \<and> r = 0"
  using pbuf_memcmp_correct [OF example_packet(1), of 1 "[101, 102, 200]"] by (auto simp: example_parts)

text \<open>
  \<open>pbuf_memfind\<close> finds the first place of the packet, from the start offset on, where the bytes
  searched for stand, also across the borders of parts, and \<open>0xFFFF\<close> if there is none.
\<close>

theorem pbuf_memfind_correct:
  assumes "packet s p xs" and "length mem + start \<le> chain_len s xs"
  shows "pbuf_memfind p mem start s =
    ret (case find (\<lambda>i. take (length mem) (drop i (chain_data s xs)) = mem) [start..<Suc (chain_len s xs - length mem)] of
           None \<Rightarrow> 0xFFFF | Some j \<Rightarrow> j)"
  by (rule memfind_chain [OF assms])

theorem pbuf_memfind_correct_witness:
  "pbuf_memfind 50 [102, 200] 0 example_packets = ret 2"
  using pbuf_memfind_correct [OF example_packet(1), of "[102, 200]" 0] by (simp add: example_parts upt_conv_Cons)

text \<open>
  \<open>pbuf_cat\<close> of two packets whose lengths add up to less than \<open>2 ^ 16\<close> returns with one
  well-formed packet, whose data is the data of the first followed by that of the second. Only structs
  of the first change, and no reference count and no byte.
\<close>

theorem pbuf_cat_correct:
  assumes "packet s h xs" and "packet s t ys" and "set xs \<inter> set ys = {}"
    and "chain_len s xs + chain_len s ys < 2 ^ 16"
  shows "\<exists>s'. pbuf_cat h t s = ret s' \<and> packet s' h (xs @ ys)
    \<and> chain_data s' (xs @ ys) = chain_data s xs @ chain_data s ys
    \<and> (\<forall>x. x \<notin> set xs \<longrightarrow> pbufs s' x = pbufs s x) \<and> s' = s\<lparr>pbufs := pbufs s'\<rparr>"
  using cat_chain [OF assms] by (simp add: only_pbufs_def)

theorem pbuf_cat_correct_witness:
  "\<exists>s'. pbuf_cat 50 70 example_packets = ret s' \<and> packet s' 50 [50, 60, 70]"
  using pbuf_cat_correct [OF example_packet] by (auto simp: example_parts)

lemma pbuf_clen_correct:
  assumes "chain s p xs" and "length xs < 2 ^ 16"
  shows "pbuf_clen p s = ret (length xs)"
  using clen_loop_chain [OF assms(1), of 0] assms(2) by (simp add: pbuf_clen_def)

end
