(* ===== verification/Inet_Chksum.thy ===== *)
theory Inet_Chksum
  imports Inet_Sum Ip_Addr Pbuf_Chain
begin

text \<open>
  The checksums over packets, \<open>core/inet_chksum.c\<close>: over a range of memory, over a chain of packet
  buffers, and with the pseudo header of IPv4 or IPv6 that UDP and TCP use, over all or the first
  part of a packet. However a packet is cut into buffers, and wherever they lie, the result is the
  Internet checksum of the concatenation of the pseudo header and the bytes of the packet.
\<close>

definition LWIP_CHKSUM :: "nat \<Rightarrow> nat \<Rightarrow> pbuf_state \<Rightarrow> u16" where
  "LWIP_CHKSUM dataptr len s = lwip_standard_chksum dataptr (read_bytes dataptr len s)"

text \<open>The loop over the chain that \<open>inet_cksum_pseudo_base\<close> and \<open>inet_chksum_pbuf\<close> share.\<close>

partial_function (option) chksum_chain :: "pbuf_state \<Rightarrow> nat \<Rightarrow> bool \<Rightarrow> u32 \<Rightarrow> (bool \<times> u32) run" where
  "chksum_chain s q swapped acc =
     (if q \<noteq> 0 then
        bind_run (pget q s) (\<lambda>b.
          let acc = acc + ucast (LWIP_CHKSUM (pb_payload b) (pb_len b) s);
              acc = FOLD_U32T acc;
              (swapped, acc) = (if pb_len b mod 2 \<noteq> 0 then (\<not> swapped, SWAP_BYTES_IN_WORD acc) else (swapped, acc))
          in chksum_chain s (pb_next b) swapped acc)
      else ret (swapped, acc))"

text \<open>The end of the checksums with a pseudo header.\<close>

definition chksum_pseudo_end :: "u8 \<Rightarrow> u16 \<Rightarrow> bool \<Rightarrow> u32 \<Rightarrow> u16" where
  "chksum_pseudo_end proto proto_len swapped acc =
     (let acc = (if swapped then SWAP_BYTES_IN_WORD acc else acc);
          acc = acc + ucast (lwip_htons (ucast proto));
          acc = acc + ucast (lwip_htons proto_len);
          acc = FOLD_U32T acc;
          acc = FOLD_U32T acc
      in ucast (NOT (acc AND 0xffff)))"

definition inet_cksum_pseudo_base :: "nat \<Rightarrow> u8 \<Rightarrow> u16 \<Rightarrow> u32 \<Rightarrow> pbuf_state \<Rightarrow> u16 run" where
  "inet_cksum_pseudo_base p proto proto_len acc s =
     bind_run (chksum_chain s p False acc) (\<lambda>(swapped, acc). ret (chksum_pseudo_end proto proto_len swapped acc))"

text \<open>The sums of the addresses, which the checksums over all and over a part of a packet share.\<close>

definition addr_halves :: "u32 \<Rightarrow> u32 \<Rightarrow> u32" where
  "addr_halves a acc = (acc + (a AND 0xffff)) + (drop_bit 16 a AND 0xffff)"

definition ip4_pseudo_acc :: "u32 \<Rightarrow> u32 \<Rightarrow> u32" where
  "ip4_pseudo_acc src dest =
     (let acc = addr_halves src 0;
          acc = addr_halves dest acc;
          acc = FOLD_U32T acc
      in FOLD_U32T acc)"

definition ip6_pseudo_acc :: "ip6_addr \<Rightarrow> ip6_addr \<Rightarrow> u32" where
  "ip6_pseudo_acc src dest =
     (let acc = fold (\<lambda>addr_part acc. addr_halves (addr dest ! addr_part) (addr_halves (addr src ! addr_part) acc)) [0..<4] 0;
          acc = FOLD_U32T acc
      in FOLD_U32T acc)"

definition inet_chksum_pseudo :: "nat \<Rightarrow> u8 \<Rightarrow> u16 \<Rightarrow> u32 \<Rightarrow> u32 \<Rightarrow> pbuf_state \<Rightarrow> u16 run" where
  "inet_chksum_pseudo p proto proto_len src dest s =
     inet_cksum_pseudo_base p proto proto_len (ip4_pseudo_acc src dest) s"

definition ip6_chksum_pseudo :: "nat \<Rightarrow> u8 \<Rightarrow> u16 \<Rightarrow> ip6_addr \<Rightarrow> ip6_addr \<Rightarrow> pbuf_state \<Rightarrow> u16 run" where
  "ip6_chksum_pseudo p proto proto_len src dest s =
     inet_cksum_pseudo_base p proto proto_len (ip6_pseudo_acc src dest) s"

definition ip_chksum_pseudo :: "nat \<Rightarrow> u8 \<Rightarrow> u16 \<Rightarrow> ip_addr \<Rightarrow> ip_addr \<Rightarrow> pbuf_state \<Rightarrow> u16 run" where
  "ip_chksum_pseudo p proto proto_len src dest s =
     (if IP_IS_V6 dest then ip6_chksum_pseudo p proto proto_len (ip_2_ip6 src) (ip_2_ip6 dest) s
      else inet_chksum_pseudo p proto proto_len (ip_2_ip4 src) (ip_2_ip4 dest) s)"

text \<open>The loop over the first \<open>chksum_len\<close> bytes of a chain.\<close>

partial_function (option) chksum_chain_partial ::
  "pbuf_state \<Rightarrow> nat \<Rightarrow> nat \<Rightarrow> bool \<Rightarrow> u32 \<Rightarrow> (bool \<times> u32) run" where
  "chksum_chain_partial s q chksum_len swapped acc =
     (if q \<noteq> 0 \<and> chksum_len > 0 then
        bind_run (pget q s) (\<lambda>b.
          let chklen = pb_len b;
              chklen = (if chklen > chksum_len then chksum_len else chklen);
              acc = acc + ucast (LWIP_CHKSUM (pb_payload b) chklen s);
              chksum_len = U16 (chksum_len - chklen)
          in lwip_assert ''delete me'' (chksum_len < 0x7fff)
              (let acc = FOLD_U32T acc;
                   (swapped, acc) = (if pb_len b mod 2 \<noteq> 0 then (\<not> swapped, SWAP_BYTES_IN_WORD acc) else (swapped, acc))
               in chksum_chain_partial s (pb_next b) chksum_len swapped acc))
      else ret (swapped, acc))"

definition inet_cksum_pseudo_partial_base :: "nat \<Rightarrow> u8 \<Rightarrow> u16 \<Rightarrow> nat \<Rightarrow> u32 \<Rightarrow> pbuf_state \<Rightarrow> u16 run" where
  "inet_cksum_pseudo_partial_base p proto proto_len chksum_len acc s =
     bind_run (chksum_chain_partial s p chksum_len False acc) (\<lambda>(swapped, acc).
       ret (chksum_pseudo_end proto proto_len swapped acc))"

definition inet_chksum_pseudo_partial :: "nat \<Rightarrow> u8 \<Rightarrow> u16 \<Rightarrow> nat \<Rightarrow> u32 \<Rightarrow> u32 \<Rightarrow> pbuf_state \<Rightarrow> u16 run" where
  "inet_chksum_pseudo_partial p proto proto_len chksum_len src dest s =
     inet_cksum_pseudo_partial_base p proto proto_len chksum_len (ip4_pseudo_acc src dest) s"

definition ip6_chksum_pseudo_partial :: "nat \<Rightarrow> u8 \<Rightarrow> u16 \<Rightarrow> nat \<Rightarrow> ip6_addr \<Rightarrow> ip6_addr \<Rightarrow> pbuf_state \<Rightarrow> u16 run" where
  "ip6_chksum_pseudo_partial p proto proto_len chksum_len src dest s =
     inet_cksum_pseudo_partial_base p proto proto_len chksum_len (ip6_pseudo_acc src dest) s"

definition ip_chksum_pseudo_partial :: "nat \<Rightarrow> u8 \<Rightarrow> u16 \<Rightarrow> nat \<Rightarrow> ip_addr \<Rightarrow> ip_addr \<Rightarrow> pbuf_state \<Rightarrow> u16 run" where
  "ip_chksum_pseudo_partial p proto proto_len chksum_len src dest s =
     (if IP_IS_V6 dest then ip6_chksum_pseudo_partial p proto proto_len chksum_len (ip_2_ip6 src) (ip_2_ip6 dest) s
      else inet_chksum_pseudo_partial p proto proto_len chksum_len (ip_2_ip4 src) (ip_2_ip4 dest) s)"

definition inet_chksum :: "nat \<Rightarrow> nat \<Rightarrow> pbuf_state \<Rightarrow> u16" where
  "inet_chksum dataptr len s = NOT (LWIP_CHKSUM dataptr len s)"

definition inet_chksum_pbuf :: "nat \<Rightarrow> pbuf_state \<Rightarrow> u16 run" where
  "inet_chksum_pbuf p s =
     bind_run (chksum_chain s p False 0) (\<lambda>(swapped, acc).
       let acc = (if swapped then SWAP_BYTES_IN_WORD acc else acc)
       in ret (ucast (NOT (acc AND 0xffff))))"

definition lwip_chksum_copy :: "nat \<Rightarrow> nat \<Rightarrow> nat \<Rightarrow> pbuf_state \<Rightarrow> u16 \<times> pbuf_state" where
  "lwip_chksum_copy dst src len s =
     (let s = write_bytes dst (read_bytes src len s) s in (LWIP_CHKSUM dst len s, s))"

subsection \<open>The specification\<close>

text \<open>The Internet checksum of a list of bytes: the complement of the sum of its words.\<close>

definition internet_checksum :: "u8 list \<Rightarrow> u16" where
  "internet_checksum bs = NOT (of_nat (ones_sum (word_sum bs)))"

text \<open>The pseudo headers of RFC 793 and RFC 2460: the addresses, the length and the protocol.\<close>

definition be16 :: "u16 \<Rightarrow> u8 list" where
  "be16 n = [ucast (drop_bit 8 n), ucast n]"

definition pseudo_header4 :: "u32 \<Rightarrow> u32 \<Rightarrow> u8 \<Rightarrow> u16 \<Rightarrow> u8 list" where
  "pseudo_header4 src dest proto len = memory_bytes src @ memory_bytes dest @ [0, proto] @ be16 len"

definition pseudo_header6 :: "ip6_addr \<Rightarrow> ip6_addr \<Rightarrow> u8 \<Rightarrow> u16 \<Rightarrow> u8 list" where
  "pseudo_header6 src dest proto len =
     concat (map memory_bytes (addr src)) @ concat (map memory_bytes (addr dest)) @ [0, 0] @ be16 len @ [0, 0, 0, proto]"

definition pseudo_header :: "ip_addr \<Rightarrow> ip_addr \<Rightarrow> u8 \<Rightarrow> u16 \<Rightarrow> u8 list" where
  "pseudo_header src dest proto len =
     (if IP_IS_V6 dest then pseudo_header6 (ip_2_ip6 src) (ip_2_ip6 dest) proto len
      else pseudo_header4 (ip_2_ip4 src) (ip_2_ip4 dest) proto len)"

text \<open>The sum \<open>acc\<close> stands for the words of a header with the sum \<open>h\<close> and of the data \<open>d\<close>, times 256 if swapped.\<close>

definition chksum_inv :: "nat \<Rightarrow> u8 list \<Rightarrow> bool \<Rightarrow> u32 \<Rightarrow> bool" where
  "chksum_inv h d swapped acc \<longleftrightarrow> unat acc \<le> 65535
     \<and> represents (unat acc) ((if swapped then 256 else 1) * (h + word_sum d))"

text \<open>A packet that carries its checksum, cut in the middle of it.\<close>

definition example_checksummed :: pbuf_state where
  "example_checksummed = example_packets\<lparr>bytes := (\<lambda>a. if a < 200 then [0x45, 0, 0xb3] ! (a - 100) else [0xff, 7] ! (a - 200))\<rparr>"

subsection \<open>One step of the loops\<close>

lemma chksum_inv_add:
  assumes inv: "chksum_inv h d swapped acc" and sw: "swapped \<longleftrightarrow> odd (length d)" and c: "unat (c :: u16) = ones_sum (word_sum bs)"
  shows "chksum_inv h (d @ bs) swapped (FOLD_U32T (acc + ucast c))"
proof -
  have b: "unat acc \<le> 65535" using inv by (simp add: chksum_inv_def)
  have cu: "unat (ucast c :: u32) = ones_sum (word_sum bs)"
    using ones_sum_bound [of "word_sum bs"] by (simp only: unsigned_ucast_eq c) (simp add: take_bit_nat_eq_self)
  have u: "unat (acc + ucast c) = unat acc + ones_sum (word_sum bs)"
    using b cu ones_sum_bound [of "word_sum bs"] by (simp add: unat_add_u32)
  have "represents (unat acc + ones_sum (word_sum bs)) ((if swapped then 256 else 1) * (h + word_sum d) + word_sum bs)"
    using inv by (intro represents_add ones_sum_represents) (simp add: chksum_inv_def)
  moreover have "represents ((if swapped then 256 else 1) * (h + word_sum d) + word_sum bs) ((if swapped then 256 else 1) * (h + word_sum (d @ bs)))"
  proof (cases swapped)
    case False
    then have "represents (h + (word_sum d + word_sum bs)) (h + word_sum (d @ bs))"
      using sw word_sum_append [of d bs] by (intro represents_add represents_refl) simp
    with False show ?thesis by (simp add: add.assoc)
  next
    case True
    have "represents (256 * (h + word_sum d) + word_sum bs) (256 * (h + word_sum d) + 65536 * word_sum bs)"
      using represents_65536 [of "word_sum bs"] by (intro represents_add represents_refl) (simp add: represents_def)
    moreover have "represents (256 * (h + (word_sum d + 256 * word_sum bs))) (256 * (h + word_sum (d @ bs)))"
      using sw True word_sum_append [of d bs] by (intro represents_mult represents_add represents_refl) simp_all
    ultimately show ?thesis using True represents_trans by (simp add: algebra_simps)
  qed
  moreover note FOLD_represents [of "acc + ucast c"]
  moreover have "unat (FOLD_U32T (acc + ucast c)) \<le> 65535"
    using u b ones_sum_bound [of "word_sum bs"] by (intro FOLD_bound) simp
  ultimately show ?thesis unfolding chksum_inv_def u using represents_trans by meson
qed

lemma represents_swap_twice: "represents (256 * (256 * n)) n"
proof -
  have "256 * (256 * n) = 65536 * n" by simp
  then show ?thesis using represents_65536 [of n] by (simp only:)
qed

lemma chksum_inv_swap:
  assumes "chksum_inv h d swapped acc"
  shows "chksum_inv h d (\<not> swapped) (SWAP_BYTES_IN_WORD acc)"
proof -
  have acc: "unat acc \<le> 65535" "represents (unat acc) ((if swapped then 256 else 1) * (h + word_sum d))"
    using assms by (simp_all add: chksum_inv_def)
  have "represents (unat (SWAP_BYTES_IN_WORD acc)) (256 * ((if swapped then 256 else 1) * (h + word_sum d)))"
    by (rule represents_trans [OF SWAP_represents(1) [OF acc(1)] represents_mult [OF acc(2)]]) simp
  moreover have "represents (256 * ((if swapped then 256 else 1) * (h + word_sum d))) ((if \<not> swapped then 256 else 1) * (h + word_sum d))"
    by (cases swapped) (simp_all only: if_True if_False mult_1 not_True_eq_False not_False_eq_True represents_swap_twice represents_refl)
  ultimately show ?thesis
    unfolding chksum_inv_def using SWAP_represents(2) [OF acc(1)] by (blast intro: represents_trans)
qed

lemma chksum_inv_finish:
  assumes "chksum_inv h d swapped acc"
  shows "represents (unat (if swapped then SWAP_BYTES_IN_WORD acc else acc)) (h + word_sum d)"
    and "unat (if swapped then SWAP_BYTES_IN_WORD acc else acc) \<le> 65535"
  using assms chksum_inv_swap [OF assms] by (auto simp: chksum_inv_def)

lemma LWIP_CHKSUM_spec: "len < 2 ^ 16 \<Longrightarrow> unat (LWIP_CHKSUM a len s) = ones_sum (word_sum (read_bytes a len s))"
  unfolding LWIP_CHKSUM_def by (rule chksum_2_spec) simp

lemma chksum_chain_spec:
  assumes "chain s q xs" "chain_len s xs < 2 ^ 16" "chksum_inv h d swapped acc" "swapped \<longleftrightarrow> odd (length d)"
  shows "\<exists>swapped' acc'. chksum_chain s q swapped acc = ret (swapped', acc') \<and> chksum_inv h (d @ chain_data s xs) swapped' acc'"
  using assms
proof (induction xs arbitrary: q d swapped acc)
  case Nil
  then show ?case by (subst chksum_chain.simps) simp
next
  case (Cons x xs)
  from Cons.prems(1) obtain b where b: "q = x" "x \<noteq> 0" "pget x s = ret b" "pbufs s x = Some b"
    "pb_len b = part_len s x" "pb_payload b = part_payload s x" "pb_tot_len b = chain_len s (x # xs)" "chain s (pb_next b) xs"
    by (rule chain_Cons_cases)
  let ?bs = "read_bytes (part_payload s x) (part_len s x) s"
  let ?a = "FOLD_U32T (acc + ucast (LWIP_CHKSUM (pb_payload b) (pb_len b) s))"
  let ?r = "if pb_len b mod 2 \<noteq> 0 then (\<not> swapped, SWAP_BYTES_IN_WORD ?a) else (swapped, ?a)"
  have "part_len s x < 2 ^ 16" using Cons.prems(2) by simp
  then have i1: "chksum_inv h (d @ ?bs) swapped ?a"
    unfolding b(5,6) by (intro chksum_inv_add Cons.prems LWIP_CHKSUM_spec)
  have i2: "chksum_inv h (d @ ?bs) (fst ?r) (snd ?r)" "fst ?r \<longleftrightarrow> odd (length (d @ ?bs))"
    using i1 chksum_inv_swap [OF i1] Cons.prems(4) b(5) by (auto simp: odd_iff_mod_2_eq_one)
  have "chain_len s xs < 2 ^ 16" using Cons.prems(2) by simp
  from Cons.IH [OF b(8) this i2] obtain sw' acc' where
    "chksum_chain s (pb_next b) (fst ?r) (snd ?r) = ret (sw', acc')" "chksum_inv h ((d @ ?bs) @ chain_data s xs) sw' acc'"
    by blast
  then show ?case using b(1-3) by (subst chksum_chain.simps) (simp add: Let_def case_prod_beta)
qed

lemma read_bytes_take: "read_bytes a (min k n) s = take k (read_bytes a n s)"
  by (rule nth_equalityI) simp_all

lemma chksum_chain_partial_spec:
  assumes "chain s q xs" "chain_len s xs < 2 ^ 16" "k < 0x7fff" "chksum_inv h d swapped acc" "swapped \<longleftrightarrow> odd (length d)"
  shows "\<exists>swapped' acc'. chksum_chain_partial s q k swapped acc = ret (swapped', acc')
    \<and> chksum_inv h (d @ take k (chain_data s xs)) swapped' acc'"
  using assms
proof (induction xs arbitrary: q k d swapped acc)
  case Nil
  then show ?case by (subst chksum_chain_partial.simps) simp
next
  case (Cons x xs)
  from Cons.prems(1) obtain b where b: "q = x" "x \<noteq> 0" "pget x s = ret b" "pbufs s x = Some b"
    "pb_len b = part_len s x" "pb_payload b = part_payload s x" "pb_tot_len b = chain_len s (x # xs)" "chain s (pb_next b) xs"
    by (rule chain_Cons_cases)
  let ?n = "part_len s x"
  let ?all = "read_bytes (part_payload s x) ?n s"
  let ?bs = "read_bytes (part_payload s x) (min k ?n) s"
  let ?a = "FOLD_U32T (acc + ucast (LWIP_CHKSUM (pb_payload b) (min k (pb_len b)) s))"
  let ?r = "if pb_len b mod 2 \<noteq> 0 then (\<not> swapped, SWAP_BYTES_IN_WORD ?a) else (swapped, ?a)"
  have l: "?n < 2 ^ 16" "chain_len s xs < 2 ^ 16" using Cons.prems(2) by simp_all
  have i1: "chksum_inv h (d @ ?bs) swapped ?a"
    unfolding b(5,6) by (intro chksum_inv_add Cons.prems LWIP_CHKSUM_spec) (use l in simp)
  have i2: "chksum_inv h (d @ ?bs) (fst ?r) (snd ?r)" using i1 chksum_inv_swap [OF i1] by auto
  have bs: "?bs = take k ?all" by (rule read_bytes_take)
  show ?case
  proof (cases "k = 0")
    case True
    then show ?thesis using Cons.prems(4) b by (subst chksum_chain_partial.simps) simp
  next
    case False
    have m: "(if pb_len b > k then k else pb_len b) = min k (pb_len b)" by simp
    have u: "U16 (k - min k (pb_len b)) = k - min k (pb_len b)" using Cons.prems(3) by (intro U16_less) simp
    have less: "k - min k (pb_len b) < 0x7fff" using Cons.prems(3) by simp
    have step: "chksum_chain_partial s q k swapped acc =
        chksum_chain_partial s (pb_next b) (k - min k (pb_len b)) (fst ?r) (snd ?r)"
      using b(1-3) False less
      by (subst chksum_chain_partial.simps) (simp add: Let_def case_prod_beta m u)
    show ?thesis
    proof (cases "?n < k")
      case more: True
      then have "min k ?n = ?n" by simp
      then have i3: "fst ?r \<longleftrightarrow> odd (length (d @ ?bs))" using Cons.prems(5) b(5) by (auto simp: odd_iff_mod_2_eq_one)
      from Cons.IH [OF b(8) l(2) less i2 i3] show ?thesis using more step b(5) by (simp add: min_def)
    next
      case False
      have "chksum_chain_partial s (pb_next b) 0 (fst ?r) (snd ?r) = ret ?r"
        by (subst chksum_chain_partial.simps) simp
      then have "chksum_chain_partial s q k swapped acc = ret (fst ?r, snd ?r)" using step False b(5) by (simp add: min_def)
      moreover have "take k (chain_data s (x # xs)) = ?bs" using False bs by simp
      ultimately show ?thesis using i2 by (metis (no_types, lifting))
    qed
  qed
qed

subsection \<open>The sums of the headers\<close>

lemma unat_htons: "unat (lwip_htons n) = unat n mod 256 * 256 + unat n div 256"
proof -
  have u: "unat (ucast n :: u32) = unat n" using unat_bound_u16 [of n]
    by (simp only: unsigned_ucast_eq) (simp add: take_bit_nat_eq_self del: unat_bound_u16)
  have "unat n < 65536" by (rule unat_bound_u16)
  then have n: "unat n div 256 < 256" "unat n mod 256 < 256" by (simp_all add: less_mult_imp_div_less)
  have "lwip_htons (ucast (ucast n :: u32)) = ucast (SWAP_BYTES_IN_WORD (ucast n))"
    using unat_bound_u16 [of n] by (intro htons_SWAP) (simp add: u del: unat_bound_u16)
  moreover have "ucast (ucast n :: u32) = n" by (rule bit_word_eqI) (simp add: bit_simps)
  ultimately have "unat (lwip_htons n) = unat (ucast (SWAP_BYTES_IN_WORD (ucast n)) :: u16)" by simp
  also have "\<dots> = (unat n mod 256 * 256 + unat n mod 65536 div 256) mod 65536"
  proof -
    have "unat (ucast (SWAP_BYTES_IN_WORD (ucast n :: u32)) :: u16) = unat (SWAP_BYTES_IN_WORD (ucast n)) mod 65536"
      by (simp only: unsigned_ucast_eq) (simp add: take_bit_eq_mod)
    then show ?thesis unfolding unat_SWAP u .
  qed
  also have "\<dots> = unat n mod 256 * 256 + unat n div 256"
    using n \<open>unat n < 65536\<close> by (simp add: mod_less)
  finally show ?thesis .
qed

lemma unat_ucast_u8: "unat (ucast (w :: 'a::len word) :: u8) = unat w mod 256"
  by (simp only: unsigned_ucast_eq) (simp add: take_bit_eq_mod)

lemma word_sum_be16: "word_sum (be16 n) = unat (lwip_htons n)"
proof -
  have "unat n div 256 < 256" using unat_bound_u16 [of n] by (simp add: less_mult_imp_div_less del: unat_bound_u16)
  then show ?thesis by (simp add: be16_def unat_htons unat_ucast_u8 unat_drop_bit del: word_sum.simps(2))
qed

lemma unat_htons_u8: "unat (lwip_htons (ucast (b :: u8))) = 256 * unat b"
proof -
  have "unat (ucast b :: u16) = unat b" using unat_u8_le [of b]
    by (simp only: unsigned_ucast_eq) (simp add: take_bit_nat_eq_self)
  then show ?thesis using unat_u8_le [of b] by (simp add: unat_htons)
qed

lemma word_sum_memory_bytes: "word_sum (memory_bytes a) = unat a mod 65536 + unat a div 65536"
proof -
  have a: "unat a div 16777216 < 256" using unat_bound_u32 [of a] by (simp add: less_mult_imp_div_less del: unat_bound_u32)
  have lo: "x mod 256 + 256 * (x div 256 mod 256) = x mod 65536" for x :: nat
    using mod_mult2_eq [of x 256 256] by simp
  have "unat a div 65536 div 256 mod 256 = unat a div 16777216" using a by (simp add: div_mult2_eq [symmetric])
  then have "unat a div 65536 mod 256 + 256 * (unat a div 16777216 mod 256) = unat a div 65536"
    using lo [of "unat a div 65536"] a unat_bound_u32 [of a]
    by (simp add: less_mult_imp_div_less del: unat_bound_u32)
  then show ?thesis using lo [of "unat a"]
    by (simp add: memory_bytes_def unat_ucast_u8 unat_drop_bit)
qed

lemma addr_halves_sum:
  assumes "unat acc \<le> 1000000"
  shows "unat (addr_halves a acc) = unat acc + word_sum (memory_bytes a)"
proof -
  have d: "unat a div 65536 < 65536" using unat_bound_u32 [of a] by (simp add: less_mult_imp_div_less del: unat_bound_u32)
  have m: "unat a mod 65536 < 65536" by simp
  have h: "unat (drop_bit 16 a AND 0xffff) = unat a div 65536" using d by (simp add: unat_and_ffff unat_drop_bit)
  have "unat (acc + (a AND 0xffff)) = unat acc + unat a mod 65536"
    using assms m by (simp add: unat_add_u32 unat_and_ffff)
  then show ?thesis
    using assms d m unfolding addr_halves_def unat_add_u32 [of "acc + (a AND 0xffff)"] h word_sum_memory_bytes by simp
qed

lemma memory_bytes_sum_bound: "word_sum (memory_bytes a) \<le> 131070"
proof -
  have "unat a div 65536 < 65536" using unat_bound_u32 [of a] by (simp add: less_mult_imp_div_less del: unat_bound_u32)
  moreover have "unat a mod 65536 < 65536" by simp
  ultimately show ?thesis unfolding word_sum_memory_bytes by linarith
qed

lemma FOLD_FOLD_inv: "represents (unat u) h \<Longrightarrow> chksum_inv h [] False (FOLD_U32T (FOLD_U32T u))"
  unfolding chksum_inv_def using FOLD_FOLD_bound [of u] FOLD_represents represents_trans by simp meson

lemma ip4_pseudo_acc_inv: "chksum_inv (word_sum (memory_bytes src) + word_sum (memory_bytes dest)) [] False (ip4_pseudo_acc src dest)"
proof -
  have "unat (addr_halves src 0) = word_sum (memory_bytes src)" by (subst addr_halves_sum) simp_all
  then have "unat (addr_halves dest (addr_halves src 0)) = word_sum (memory_bytes src) + word_sum (memory_bytes dest)"
    using memory_bytes_sum_bound [of src] by (subst addr_halves_sum) simp_all
  then show ?thesis unfolding ip4_pseudo_acc_def Let_def by (intro FOLD_FOLD_inv) simp
qed

lemma ip6_pseudo_acc_inv:
  assumes "ip6_wf src" "ip6_wf dest"
  shows "chksum_inv (word_sum (concat (map memory_bytes (addr src))) + word_sum (concat (map memory_bytes (addr dest)))) [] False
    (ip6_pseudo_acc src dest)"
proof -
  obtain s0 s1 s2 s3 where s: "addr src = [s0, s1, s2, s3]" using ip6_wf_cases [OF assms(1)] .
  obtain d0 d1 d2 d3 where d: "addr dest = [d0, d1, d2, d3]" using ip6_wf_cases [OF assms(2)] .
  let ?w = "\<lambda>a. word_sum (memory_bytes a)"
  note b = memory_bytes_sum_bound [of s0] memory_bytes_sum_bound [of s1] memory_bytes_sum_bound [of s2]
    memory_bytes_sum_bound [of d0] memory_bytes_sum_bound [of d1] memory_bytes_sum_bound [of d2] memory_bytes_sum_bound [of s3]
  define acc where "acc = addr_halves d3 (addr_halves s3 (addr_halves d2 (addr_halves s2 (addr_halves d1 (addr_halves s1
      (addr_halves d0 (addr_halves s0 0)))))))"
  have "unat acc = ?w s0 + ?w d0 + ?w s1 + ?w d1 + ?w s2 + ?w d2 + ?w s3 + ?w d3"
    unfolding acc_def using b by (simp add: addr_halves_sum)
  moreover have "word_sum (memory_bytes a @ bs) = ?w a + word_sum bs" for a bs by (simp add: memory_bytes_def)
  ultimately have "unat acc = word_sum (concat (map memory_bytes (addr src))) + word_sum (concat (map memory_bytes (addr dest)))"
    unfolding s d by simp
  moreover have "ip6_pseudo_acc src dest = FOLD_U32T (FOLD_U32T acc)"
    by (simp add: ip6_pseudo_acc_def acc_def s d Let_def upt_rec)
  ultimately show ?thesis using FOLD_FOLD_inv [of acc] by simp
qed

lemma of_nat_ucast: "unat (u :: u32) \<le> 65535 \<Longrightarrow> ucast (NOT (u AND 0xffff)) = (NOT (of_nat (unat u)) :: u16)"
proof -
  have m: "(0xffff :: u32) = mask 16" by (simp add: mask_eq_exp_minus_1)
  have "ucast (NOT (u AND 0xffff)) = (NOT (ucast u) :: u16)"
    unfolding m by (rule bit_word_eqI) (simp add: bit_simps)
  then show ?thesis by simp
qed

lemma chksum_pseudo_end_spec:
  assumes "chksum_inv h d swapped acc"
  shows "chksum_pseudo_end proto len swapped acc = NOT (of_nat (ones_sum (h + word_sum d + 256 * unat proto + word_sum (be16 len))))"
proof -
  let ?a = "if swapped then SWAP_BYTES_IN_WORD acc else acc"
  let ?p = "ucast (lwip_htons (ucast proto)) :: u32" and ?l = "ucast (lwip_htons len) :: u32"
  have u16: "unat (ucast (n :: u16) :: u32) = unat n" for n
    using unat_bound_u16 [of n] by (simp only: unsigned_ucast_eq) (simp add: take_bit_nat_eq_self del: unat_bound_u16)
  have p: "unat ?p = 256 * unat proto" "unat ?l = word_sum (be16 len)" by (simp_all add: u16 unat_htons_u8 word_sum_be16)
  note a = chksum_inv_finish [OF assms]
  have "unat ?l \<le> 65535" "unat ?p \<le> 65535" unfolding u16 by (rule unat_u16_le)+
  then have "unat (?a + ?p + ?l) = unat ?a + unat ?p + unat ?l" using a(2) by (simp add: unat_add_u32)
  then have "represents (unat (?a + ?p + ?l)) (h + word_sum d + 256 * unat proto + word_sum (be16 len))"
    unfolding p using a(1) by (simp only:) (intro represents_add represents_refl)
  then have "represents (unat (FOLD_U32T (FOLD_U32T (?a + ?p + ?l)))) (h + word_sum d + 256 * unat proto + word_sum (be16 len))"
    using FOLD_represents represents_trans by meson
  from represents_unique [OF FOLD_FOLD_bound this] show ?thesis
    unfolding chksum_pseudo_end_def Let_def of_nat_ucast [OF FOLD_FOLD_bound] by (rule arg_cong)
qed

lemma pseudo_header4_sum:
  "word_sum (pseudo_header4 src dest proto len @ d) =
   word_sum (memory_bytes src) + word_sum (memory_bytes dest) + word_sum d + 256 * unat proto + word_sum (be16 len)"
  by (simp add: pseudo_header4_def memory_bytes_def be16_def)

lemma pseudo_header6_sum:
  assumes "ip6_wf src" "ip6_wf dest"
  shows "word_sum (pseudo_header6 src dest proto len @ d) =
   word_sum (concat (map memory_bytes (addr src))) + word_sum (concat (map memory_bytes (addr dest))) + word_sum d
     + 256 * unat proto + word_sum (be16 len)"
proof -
  obtain s0 s1 s2 s3 where s: "addr src = [s0, s1, s2, s3]" using ip6_wf_cases [OF assms(1)] .
  obtain d0 d1 d2 d3 where d: "addr dest = [d0, d1, d2, d3]" using ip6_wf_cases [OF assms(2)] .
  show ?thesis by (simp add: pseudo_header6_def s d memory_bytes_def be16_def)
qed

lemma pseudo_acc_inv:
  assumes "IP_IS_V6 dest \<Longrightarrow> ip6_wf (ip_2_ip6 src) \<and> ip6_wf (ip_2_ip6 dest)"
  shows "\<exists>h. (IP_IS_V6 dest \<longrightarrow> chksum_inv h [] False (ip6_pseudo_acc (ip_2_ip6 src) (ip_2_ip6 dest)))
    \<and> (\<not> IP_IS_V6 dest \<longrightarrow> chksum_inv h [] False (ip4_pseudo_acc (ip_2_ip4 src) (ip_2_ip4 dest)))
    \<and> (\<forall>d. word_sum (pseudo_header src dest proto len @ d) = h + word_sum d + 256 * unat proto + word_sum (be16 len))"
proof (cases "IP_IS_V6 dest")
  case True
  with assms have w: "ip6_wf (ip_2_ip6 src)" "ip6_wf (ip_2_ip6 dest)" by simp_all
  show ?thesis using True ip6_pseudo_acc_inv [OF w] pseudo_header6_sum [OF w]
    by (auto simp: pseudo_header_def)
next
  case False
  show ?thesis using False ip4_pseudo_acc_inv pseudo_header4_sum
    by (auto simp: pseudo_header_def)
qed

lemma inet_chksum_pbuf_spec:
  assumes "packet s p xs"
  shows "inet_chksum_pbuf p s = ret (internet_checksum (chain_data s xs))"
proof -
  have c: "chain s p xs" "chain_len s xs < 2 ^ 16" using assms by (simp_all add: packet_def)
  have "chksum_inv 0 [] False 0" by (simp add: chksum_inv_def)
  then obtain sw acc where l: "chksum_chain s p False 0 = ret (sw, acc)" "chksum_inv 0 (chain_data s xs) sw acc"
    using chksum_chain_spec [OF c, of 0 "[]" False 0] by auto
  let ?a = "if sw then SWAP_BYTES_IN_WORD acc else acc"
  note f = chksum_inv_finish [OF l(2)]
  then have "unat ?a = ones_sum (word_sum (chain_data s xs))" using represents_unique [OF f(2)] by simp
  then show ?thesis
    by (simp only: inet_chksum_pbuf_def l(1) Let_def bind_run_ret prod.case of_nat_ucast [OF f(2)] internet_checksum_def)
qed

subsection \<open>The properties of the checksums\<close>

text \<open>
  C36: the three versions of \<open>lwip_standard_chksum\<close> compute the same, whatever the alignment of the
  data, for all the lengths the comments promise: the 16 bit word sum with end-around carry.
\<close>

theorem lwip_standard_chksum_versions:
  assumes "length bs \<le> 0x20000"
  shows "lwip_standard_chksum a bs = of_nat (ones_sum (word_sum bs))
    \<and> lwip_standard_chksum_1 bs = lwip_standard_chksum a bs \<and> lwip_standard_chksum_3 a bs = lwip_standard_chksum a bs"
proof -
  note u = chksum_1_spec [OF assms] chksum_2_spec [OF assms, of a] chksum_3_spec [of a bs]
  have "lwip_standard_chksum a bs = of_nat (unat (lwip_standard_chksum a bs))" by simp
  with u show ?thesis by (simp add: word_unat_eq_iff)
qed

theorem lwip_standard_chksum_versions_witness:
  "lwip_standard_chksum 1001 [0x45, 0x00, 0xff] = of_nat (ones_sum (word_sum [0x45, 0x00, 0xff]))
   \<and> lwip_standard_chksum_3 1001 [0x45, 0x00, 0xff] = 0x0144"
  using lwip_standard_chksum_versions [of "[0x45, 0x00, 0xff]" 1001] by (simp add: ones_sum_def)

text \<open>
  \<open>inet_chksum_pbuf\<close> of a packet returns the Internet checksum of its bytes, however the packet
  is cut into buffers of even or odd lengths at even or odd addresses.
\<close>

theorem inet_chksum_pbuf_correct:
  assumes "packet s p xs"
  shows "inet_chksum_pbuf p s = ret (internet_checksum (chain_data s xs))"
  by (rule inet_chksum_pbuf_spec [OF assms])

theorem inet_chksum_pbuf_correct_witness:
  "inet_chksum_pbuf 50 example_packets = ret (internet_checksum [100, 101, 102, 200, 201])"
  using inet_chksum_pbuf_correct [OF example_packet(1)] by (simp add: example_parts)

text \<open>
  C37: the checksum with a pseudo header that UDP and TCP use is the Internet checksum of the
  pseudo header of the IP version, followed by the bytes of the packet.
\<close>

theorem ip_chksum_pseudo_correct:
  assumes "packet s p xs" and "IP_IS_V6 dest \<Longrightarrow> ip6_wf (ip_2_ip6 src) \<and> ip6_wf (ip_2_ip6 dest)"
  shows "ip_chksum_pseudo p proto len src dest s = ret (internet_checksum (pseudo_header src dest proto len @ chain_data s xs))"
proof -
  have c: "chain s p xs" "chain_len s xs < 2 ^ 16" using assms(1) by (simp_all add: packet_def)
  obtain h where h: "IP_IS_V6 dest \<longrightarrow> chksum_inv h [] False (ip6_pseudo_acc (ip_2_ip6 src) (ip_2_ip6 dest))"
    "\<not> IP_IS_V6 dest \<longrightarrow> chksum_inv h [] False (ip4_pseudo_acc (ip_2_ip4 src) (ip_2_ip4 dest))"
    "\<forall>d. word_sum (pseudo_header src dest proto len @ d) = h + word_sum d + 256 * unat proto + word_sum (be16 len)"
    using pseudo_acc_inv [OF assms(2)] by blast
  have "inet_cksum_pseudo_base p proto len acc s = ret (internet_checksum (pseudo_header src dest proto len @ chain_data s xs))"
    if acc: "chksum_inv h [] False acc" for acc
    using chksum_chain_spec [OF c acc] h(3)
    by (auto simp: inet_cksum_pseudo_base_def chksum_pseudo_end_spec internet_checksum_def)
  with h(1,2) show ?thesis by (simp add: ip_chksum_pseudo_def ip6_chksum_pseudo_def inet_chksum_pseudo_def)
qed

theorem ip_chksum_pseudo_correct_witness:
  "ip_chksum_pseudo 50 17 5 \<lparr>u_addr = \<lparr>addr = [1, 0, 0, 0], zone = 0\<rparr>, ip_type = 0\<rparr> \<lparr>u_addr = \<lparr>addr = [2, 0, 0, 0], zone = 0\<rparr>, ip_type = 0\<rparr>
     example_packets = ret (internet_checksum ([1, 0, 0, 0, 2, 0, 0, 0, 0, 17, 0, 5] @ [100, 101, 102, 200, 201]))"
  using ip_chksum_pseudo_correct [OF example_packet(1), of
      "\<lparr>u_addr = \<lparr>addr = [2, 0, 0, 0], zone = 0\<rparr>, ip_type = 0\<rparr>" "\<lparr>u_addr = \<lparr>addr = [1, 0, 0, 0], zone = 0\<rparr>, ip_type = 0\<rparr>" 17 5]
  by (simp add: example_parts pseudo_header_def pseudo_header4_def be16_def memory_bytes_def IP_IS_V6_def ip_2_ip4_def
      IPADDR_TYPE_V6_def)

text \<open>
  the checksum over the first \<open>k\<close> bytes of a packet, which UDP-Lite and ICMPv6 use, is the
  Internet checksum of the pseudo header followed by those bytes, for lengths below 0x7fff.
\<close>

theorem ip_chksum_pseudo_partial_correct:
  assumes "packet s p xs" and "k < 0x7fff" and "IP_IS_V6 dest \<Longrightarrow> ip6_wf (ip_2_ip6 src) \<and> ip6_wf (ip_2_ip6 dest)"
  shows "ip_chksum_pseudo_partial p proto len k src dest s =
    ret (internet_checksum (pseudo_header src dest proto len @ take k (chain_data s xs)))"
proof -
  have c: "chain s p xs" "chain_len s xs < 2 ^ 16" using assms(1) by (simp_all add: packet_def)
  obtain h where h: "IP_IS_V6 dest \<longrightarrow> chksum_inv h [] False (ip6_pseudo_acc (ip_2_ip6 src) (ip_2_ip6 dest))"
    "\<not> IP_IS_V6 dest \<longrightarrow> chksum_inv h [] False (ip4_pseudo_acc (ip_2_ip4 src) (ip_2_ip4 dest))"
    "\<forall>d. word_sum (pseudo_header src dest proto len @ d) = h + word_sum d + 256 * unat proto + word_sum (be16 len)"
    using pseudo_acc_inv [OF assms(3)] by blast
  have "inet_cksum_pseudo_partial_base p proto len k acc s =
      ret (internet_checksum (pseudo_header src dest proto len @ take k (chain_data s xs)))"
    if acc: "chksum_inv h [] False acc" for acc
    using chksum_chain_partial_spec [OF c assms(2) acc] h(3)
    by (auto simp: inet_cksum_pseudo_partial_base_def chksum_pseudo_end_spec internet_checksum_def)
  with h(1,2) show ?thesis
    by (simp add: ip_chksum_pseudo_partial_def ip6_chksum_pseudo_partial_def inet_chksum_pseudo_partial_def)
qed

theorem ip_chksum_pseudo_partial_correct_witness:
  "ip_chksum_pseudo_partial 50 17 5 4 \<lparr>u_addr = \<lparr>addr = [1, 0, 0, 0], zone = 0\<rparr>, ip_type = 0\<rparr> \<lparr>u_addr = \<lparr>addr = [2, 0, 0, 0], zone = 0\<rparr>, ip_type = 0\<rparr>
     example_packets = ret (internet_checksum ([1, 0, 0, 0, 2, 0, 0, 0, 0, 17, 0, 5] @ [100, 101, 102, 200]))"
  using ip_chksum_pseudo_partial_correct [OF example_packet(1), of 4
      "\<lparr>u_addr = \<lparr>addr = [2, 0, 0, 0], zone = 0\<rparr>, ip_type = 0\<rparr>" "\<lparr>u_addr = \<lparr>addr = [1, 0, 0, 0], zone = 0\<rparr>, ip_type = 0\<rparr>" 17 5]
  by (simp add: example_parts pseudo_header_def pseudo_header4_def be16_def memory_bytes_def IP_IS_V6_def ip_2_ip4_def
      IPADDR_TYPE_V6_def)

text \<open>
  C38: beyond that the left-over assertion \<open>delete me\<close> aborts: a packet whose first buffer leaves
  0x7fff or more of the bytes to be summed is never answered.
\<close>

theorem ip_chksum_pseudo_partial_aborts:
  assumes "packet s p (x # xs)" and "part_len s x + 0x7fff \<le> k" and "k < 2 ^ 16"
  shows "ip_chksum_pseudo_partial p proto len k src dest s = stop (Abort ''delete me'')"
proof -
  from assms(1) have "chain s p (x # xs)" by (simp add: packet_def)
  then obtain b where b: "p = x" "x \<noteq> 0" "pget x s = ret b" "pb_len b = part_len s x" by (rule chain_Cons_cases)
  have long: "\<not> k - part_len s x < 0x7fff" using assms(2) by linarith
  have "chksum_chain_partial s p k sw acc = stop (Abort ''delete me'')" for sw acc
    using b assms(2,3) long by (subst chksum_chain_partial.simps) (simp add: Let_def)
  then show ?thesis
    by (simp add: ip_chksum_pseudo_partial_def ip6_chksum_pseudo_partial_def inet_chksum_pseudo_partial_def
        inet_cksum_pseudo_partial_base_def)
qed

theorem ip_chksum_pseudo_partial_aborts_witness:
  "ip_chksum_pseudo_partial 50 17 5 0x8002 \<lparr>u_addr = \<lparr>addr = [1, 0, 0, 0], zone = 0\<rparr>, ip_type = 0\<rparr>
     \<lparr>u_addr = \<lparr>addr = [2, 0, 0, 0], zone = 0\<rparr>, ip_type = 0\<rparr> example_packets = stop (Abort ''delete me'')"
  using ip_chksum_pseudo_partial_aborts [OF example_packet(1), of "0x8002"] by (simp add: example_parts)

text \<open>
  a receiver accepts what a sender protected: when the checksum of the bytes, computed with a
  zero in its place, is written to its place at an even offset, \<open>inet_chksum_pbuf\<close> over any packet
  of those bytes returns 0.
\<close>

theorem inet_chksum_pbuf_verifies:
  assumes "packet s p xs" and "even (length front)" and "chain_data s xs = front @ [ucast c, ucast (drop_bit 8 c)] @ rest"
    and "c = internet_checksum (front @ [0, 0] @ rest)"
  shows "inet_chksum_pbuf p s = ret 0"
proof -
  have ev: "word_sum (front @ bs) = word_sum front + word_sum bs" for bs
    using assms(2) by (induction front rule: word_sum.induct) simp_all
  let ?n = "word_sum (front @ [0, 0] @ rest)"
  have b: "ones_sum ?n \<le> 65535" by (rule ones_sum_bound)
  have "unat c = 65535 - ones_sum ?n"
  proof -
    have "NOT (of_nat (ones_sum ?n) :: u16) = - 1 - of_nat (ones_sum ?n)" by (simp add: not_eq_complement)
    moreover have "unat (- 1 - (w :: u16)) = 65535 - unat w" for w
      by (subst unat_sub) (simp_all add: word_n1_ge unsigned_minus_1_eq_mask mask_eq_exp_minus_1)
    moreover have "unat (of_nat (ones_sum ?n) :: u16) = ones_sum ?n" using b by (simp add: unat_of_nat)
    ultimately show ?thesis unfolding assms(4) internet_checksum_def by simp
  qed
  moreover have "word_sum [ucast c, ucast (drop_bit 8 c)] = unat c"
  proof -
    have "unat c div 256 < 256" using unat_bound_u16 [of c] by (simp add: less_mult_imp_div_less del: unat_bound_u16)
    then show ?thesis by (simp add: unat_ucast_u8 unat_drop_bit)
  qed
  moreover have "word_sum (chain_data s xs) = word_sum front + (word_sum [ucast c, ucast (drop_bit 8 c)] + word_sum rest)"
    unfolding assms(3) ev by simp
  ultimately have "word_sum (chain_data s xs) = ?n + (65535 - ones_sum ?n)" by (simp add: ev)
  then have "ones_sum (word_sum (chain_data s xs)) = 65535" using ones_sum_complete by simp
  then show ?thesis using inet_chksum_pbuf_spec [OF assms(1)] by (simp add: internet_checksum_def)
qed

theorem inet_chksum_pbuf_verifies_witness:
  "inet_chksum_pbuf 50 example_checksummed = ret 0"
proof (rule inet_chksum_pbuf_verifies [of example_checksummed 50 "[50, 60]" "[0x45, 0]" "0xffb3" "[7]"])
  show "packet example_checksummed 50 [50, 60]"
    by (simp add: packet_def example_checksummed_def example_packets_def example_pbuf_def part_len_def)
  show "chain_data example_checksummed [50, 60] = [0x45, 0] @ [ucast (0xffb3 :: u16), ucast (drop_bit 8 (0xffb3 :: u16))] @ [7]"
    by (simp add: example_checksummed_def example_packets_def example_pbuf_def part_len_def part_payload_def
        read_bytes_def upt_conv_Cons)
  show "0xffb3 = internet_checksum ([0x45, 0] @ [0, 0] @ [7])" by (simp add: internet_checksum_def ones_sum_def)
qed simp

end
