(* ===== verification/Pbuf_Memory.thy ===== *)
theory Pbuf_Memory
  imports Pbuf_Chain
begin

text \<open>
  Where packet buffers live. \<open>pbuf_inv\<close> says that the heap and the pools are well-formed, that every
  live struct lies in memory that its kind owns there (or is a custom one with a function to free
  it), and that no live struct lies in free memory. The lemmas show that allocation and freeing keep
  the invariant, what they return and what they leave alone.
\<close>

definition pbuf_owned :: "pbuf_state \<Rightarrow> nat \<Rightarrow> pbuf \<Rightarrow> bool" where
  "pbuf_owned s p b \<longleftrightarrow>
     (if pb_flags b AND PBUF_FLAG_IS_CUSTOM \<noteq> 0 then custom_free_function s p \<noteq> 0
      else if pbuf_get_allocsrc b = PBUF_TYPE_ALLOC_SRC_MASK_STD_MEMP_PBUF_POOL
        then (MEMP_PBUF_POOL, p) \<in> memp_live (memp_pools s) (ppools s)
      else if pbuf_get_allocsrc b = PBUF_TYPE_ALLOC_SRC_MASK_STD_MEMP_PBUF
        then (MEMP_PBUF, p) \<in> memp_live (memp_pools s) (ppools s)
      else pbuf_get_allocsrc b = PBUF_TYPE_ALLOC_SRC_MASK_STD_HEAP \<and> p \<in> heap_live (pheap s))"

text \<open>No struct lies in memory of the pools or the heap that is free.\<close>

definition pbuf_placed :: "pbuf_state \<Rightarrow> nat \<Rightarrow> bool" where
  "pbuf_placed s p \<longleftrightarrow>
     list_all (\<lambda>t. p \<in> set (elements (memp_pools s ! t)) \<longrightarrow> (t, p) \<in> memp_live (memp_pools s) (ppools s)) [MEMP_PBUF, MEMP_PBUF_POOL]
     \<and> (ram (pheap s) \<le> p \<and> p < ram (pheap s) + MEM_SIZE_ALIGNED + SIZEOF_STRUCT_MEM \<longrightarrow> p \<in> heap_live (pheap s))"

definition memory_ok :: "memp_desc list \<Rightarrow> nat \<Rightarrow> bool" where
  "memory_ok pools heap_start \<longleftrightarrow> pools_ok pools \<and> MEMP_PBUF_POOL < length pools
     \<and> list_all (\<lambda>t. list_all (\<lambda>a. a < heap_start \<or> heap_start + MEM_SIZE_ALIGNED + SIZEOF_STRUCT_MEM \<le> a)
          (elements (pools ! t))) [MEMP_PBUF, MEMP_PBUF_POOL]"

definition pbuf_inv :: "pbuf_state \<Rightarrow> bool" where
  "pbuf_inv s \<longleftrightarrow> memory_ok (memp_pools s) (ram (pheap s)) \<and> memp_inv (memp_pools s) (ppools s) \<and> heap_inv (pheap s)
     \<and> (\<forall>p b. pbufs s p = Some b \<longrightarrow> p \<noteq> 0 \<and> pbuf_owned s p b \<and> pbuf_placed s p)"

fun linked :: "pbuf_state \<Rightarrow> nat \<Rightarrow> nat list \<Rightarrow> bool" where
  "linked s p [] \<longleftrightarrow> p = 0"
| "linked s p (x # xs) \<longleftrightarrow> p = x \<and> x \<noteq> 0 \<and>
     (case pbufs s x of None \<Rightarrow> False | Some b \<Rightarrow> linked s (pb_next b) xs)"

definition ref_of :: "pbuf_state \<Rightarrow> nat \<Rightarrow> nat" where
  "ref_of s x = (case pbufs s x of None \<Rightarrow> 0 | Some b \<Rightarrow> pb_ref b)"

text \<open>The structs after a free: the front with one reference is gone, the next one has one less.\<close>

definition after_free :: "pbuf_state \<Rightarrow> nat list \<Rightarrow> nat \<Rightarrow> pbuf option" where
  "after_free s xs =
     (let gone = takeWhile (\<lambda>x. ref_of s x = 1) xs; rest = dropWhile (\<lambda>x. ref_of s x = 1) xs in
      (\<lambda>x. if x \<in> set gone then None
           else if rest \<noteq> [] \<and> x = hd rest then map_option (\<lambda>b. b\<lparr>pb_ref := pb_ref b - 1\<rparr>) (pbufs s x)
           else pbufs s x))"

text \<open>The new struct of an allocation, and the state with it.\<close>

definition new_pbuf :: "nat \<Rightarrow> nat \<Rightarrow> nat \<Rightarrow> pbuf_type \<Rightarrow> pbuf" where
  "new_pbuf payload tot_len len type =
     \<lparr>pb_next = 0, pb_payload = payload, pb_tot_len = tot_len, pb_len = len,
      pb_type_internal = type_value type, pb_flags = 0, pb_ref = 1, pb_if_idx = 0\<rparr>"

definition partial_chain :: "pbuf_state \<Rightarrow> nat \<Rightarrow> nat \<Rightarrow> nat list \<Rightarrow> bool" where
  "partial_chain s p lst xs \<longleftrightarrow> (if xs = [] then p = 0
     else linked s p xs \<and> lst = last xs \<and> list_all (\<lambda>x. ref_of s x = 1) xs)"

text \<open>What an allocation from the pool leaves: new structs \<open>zs\<close> that hold \<open>rem\<close> bytes, linked behind \<open>lst\<close>.\<close>

definition extended :: "pbuf_state \<Rightarrow> nat \<Rightarrow> nat list \<Rightarrow> nat \<Rightarrow> nat list \<Rightarrow> pbuf_state \<Rightarrow> bool" where
  "extended s lst xs rem zs s' \<longleftrightarrow> zs \<noteq> [] \<and> chain s' (hd zs) zs \<and> chain_len s' zs = rem
     \<and> (\<forall>x\<in>set zs. pbufs s x = None \<and> ref_of s' x = 1)
     \<and> (\<forall>x. x \<notin> set zs \<longrightarrow>
          pbufs s' x = (if xs \<noteq> [] \<and> x = lst then map_option (\<lambda>b. b\<lparr>pb_next := hd zs\<rparr>) (pbufs s x) else pbufs s x))"

text \<open>A state with an empty heap, thirteen fresh pools and a packet of two custom structs, for the witnesses.\<close>

definition example_net_pools :: "memp_desc list" where
  "example_net_pools = map (\<lambda>i. \<lparr>desc_size = 608, desc_num = 16, desc_base = 10000 + 10000 * i\<rparr>) [0..<13]"

definition example_net :: pbuf_state where
  "example_net =
     \<lparr>pbufs = [50 \<mapsto> example_pbuf 60 100 5 3, 60 \<mapsto> (example_pbuf 0 200 2 2)\<lparr>pb_ref := 2\<rparr>],
      bytes = (\<lambda>a. of_nat a), pheap = example_heap,
      ppools = memp_init example_net_pools \<lparr>memp_tab = (\<lambda>_. 0), memp_next = (\<lambda>_. 0)\<rparr>, memp_pools = example_net_pools,
      custom_free_function = (\<lambda>_. 1), custom_freed = [], pbuf_free_ooseq_pending = False\<rparr>"

definition example_ram_pbuf :: pbuf_state where
  "example_ram_pbuf = example_net\<lparr>pbufs := [50 \<mapsto> (example_pbuf 0 100 3 3)\<lparr>pb_type_internal := 0x80\<rparr>]\<rparr>"

lemma heap_free_ok:
  assumes "heap_inv h" "p \<in> heap_live h"
  obtains h' where "mem_free p h = ret h'" "heap_inv h'" "heap_live h' = heap_live h - {p}" "ram h' = ram h"
proof -
  obtain x e where x: "(x, e) \<in> used_blocks h" "p = ram h + x + SIZEOF_STRUCT_MEM" using assms(2) by (auto simp: heap_live_def)
  obtain h' where h': "mem_free p h = ret h'" "heap_inv h'" "ram h' = ram h" "used_blocks h' = used_blocks h - {(x, e)}"
    using mem_free_spec [OF assms(1) x(1)] x(2) by blast
  have "heap_live h' = heap_live h - {p}" using heap_live_free [OF h'(3) x(1) h'(4)] x(2) by simp
  then show ?thesis by (rule that [OF h'(1,2) _ h'(3)])
qed

lemma pbuf_owned_cong:
  "pb_flags b = pb_flags b0 \<Longrightarrow> pb_type_internal b = pb_type_internal b0 \<Longrightarrow> pbuf_owned s p b \<longleftrightarrow> pbuf_owned s p b0"
  by (simp add: pbuf_owned_def pbuf_get_allocsrc_def)

lemma pbuf_owned_pset [simp]: "pbuf_owned (pset q c s) p b = pbuf_owned s p b"
  by (simp add: pbuf_owned_def)

lemma pbuf_placed_pset [simp]: "pbuf_placed (pset q c s) p = pbuf_placed s p"
  by (simp add: pbuf_placed_def)

lemma dealloc_ok:
  assumes inv: "pbuf_inv s" and p: "pbufs s p = Some b0"
    and b: "pb_flags b = pb_flags b0" "pb_type_internal b = pb_type_internal b0"
  shows "\<exists>s'. pbuf_dealloc p b s = ret s' \<and> pbuf_inv s' \<and> pbufs s' = (pbufs s)(p := None) \<and> bytes s' = bytes s
    \<and> memp_pools s' = memp_pools s \<and> ram (pheap s') = ram (pheap s)"
proof -
  have own: "pbuf_owned s p b" using inv p pbuf_owned_cong [OF b] by (auto simp: pbuf_inv_def)
  have i: "pools_ok (memp_pools s)" "memp_inv (memp_pools s) (ppools s)" "heap_inv (pheap s)"
    "memory_ok (memp_pools s) (ram (pheap s))"
    "\<And>q c. pbufs s q = Some c \<Longrightarrow> q \<noteq> 0 \<and> pbuf_owned s q c \<and> pbuf_placed s q" using inv by (auto simp: pbuf_inv_def memory_ok_def)
  have pool: ?thesis if t: "(t, p) \<in> memp_live (memp_pools s) (ppools s)"
    and d: "pbuf_dealloc p b s = bind_run (memp_free (memp_pools s) t p (ppools s)) (\<lambda>m.
          ret (s\<lparr>pbufs := (pbufs s)(p := None), ppools := m\<rparr>))" for t
  proof -
    obtain m where m: "memp_free (memp_pools s) t p (ppools s) = ret m" "memp_inv (memp_pools s) m"
      "memp_live (memp_pools s) m = memp_live (memp_pools s) (ppools s) - {(t, p)}"
      using memp_free_spec [OF i(1,2) t] by blast
    let ?s = "s\<lparr>pbufs := (pbufs s)(p := None), ppools := m\<rparr>"
    have "pbuf_owned ?s q c \<and> pbuf_placed ?s q" if "pbufs s q = Some c" "q \<noteq> p" for q c
      using i(5) [OF that(1)] that(2) m(3) by (auto simp: pbuf_owned_def pbuf_placed_def)
    then show ?thesis using d m i by (auto simp: pbuf_inv_def)
  qed
  have heap: ?thesis if h: "p \<in> heap_live (pheap s)"
    and d: "pbuf_dealloc p b s = bind_run (mem_free p (pheap s)) (\<lambda>h. ret (s\<lparr>pbufs := (pbufs s)(p := None), pheap := h\<rparr>))"
  proof -
    obtain h' where h': "mem_free p (pheap s) = ret h'" "heap_inv h'" "heap_live h' = heap_live (pheap s) - {p}" "ram h' = ram (pheap s)"
      using heap_free_ok [OF i(3) h] by blast
    let ?s = "s\<lparr>pbufs := (pbufs s)(p := None), pheap := h'\<rparr>"
    have "pbuf_owned ?s q c \<and> pbuf_placed ?s q" if "pbufs s q = Some c" "q \<noteq> p" for q c
      using i(5) [OF that(1)] that(2) h'(3,4) by (auto simp: pbuf_owned_def pbuf_placed_def)
    then show ?thesis using d h' i by (auto simp: pbuf_inv_def)
  qed
  consider (custom) "pb_flags b AND PBUF_FLAG_IS_CUSTOM \<noteq> 0"
    | (pool) "pb_flags b AND PBUF_FLAG_IS_CUSTOM = 0" "pbuf_get_allocsrc b = PBUF_TYPE_ALLOC_SRC_MASK_STD_MEMP_PBUF_POOL"
    | (ref) "pb_flags b AND PBUF_FLAG_IS_CUSTOM = 0" "pbuf_get_allocsrc b \<noteq> PBUF_TYPE_ALLOC_SRC_MASK_STD_MEMP_PBUF_POOL"
        "pbuf_get_allocsrc b = PBUF_TYPE_ALLOC_SRC_MASK_STD_MEMP_PBUF"
    | (ram) "pb_flags b AND PBUF_FLAG_IS_CUSTOM = 0" "pbuf_get_allocsrc b = PBUF_TYPE_ALLOC_SRC_MASK_STD_HEAP"
        "pbuf_get_allocsrc b \<noteq> PBUF_TYPE_ALLOC_SRC_MASK_STD_MEMP_PBUF_POOL" "pbuf_get_allocsrc b \<noteq> PBUF_TYPE_ALLOC_SRC_MASK_STD_MEMP_PBUF"
    using own by (auto simp: pbuf_owned_def split: if_splits)
  then show ?thesis
  proof cases
    case custom
    let ?s = "s\<lparr>pbufs := (pbufs s)(p := None), custom_freed := custom_freed s @ [(custom_free_function s p, p)]\<rparr>"
    have "pbuf_owned ?s q c \<and> pbuf_placed ?s q" if "pbufs s q = Some c" for q c
      using i(5) [OF that] by (simp add: pbuf_owned_def pbuf_placed_def)
    then show ?thesis using custom own i by (auto simp: pbuf_dealloc_def pbuf_owned_def pbuf_inv_def)
  next
    case pool': pool
    then show ?thesis using own by (intro pool [of MEMP_PBUF_POOL]) (simp_all add: pbuf_owned_def pbuf_dealloc_def)
  next
    case ref
    then show ?thesis using own by (intro pool [of MEMP_PBUF]) (simp_all add: pbuf_owned_def pbuf_dealloc_def)
  next
    case ram
    then show ?thesis using own by (intro heap) (simp_all add: pbuf_owned_def pbuf_dealloc_def)
  qed
qed

lemma chain_linked: "chain s p xs \<Longrightarrow> linked s p xs"
  by (induction xs arbitrary: p) (auto split: option.splits)

lemma linked_unique: "linked s p xs \<Longrightarrow> linked s p ys \<Longrightarrow> xs = ys"
proof (induction xs arbitrary: p ys)
  case Nil
  then show ?case by (cases ys) auto
next
  case (Cons x xs)
  then show ?case by (cases ys) (auto split: option.splits)
qed

lemma linked_drop: "linked s p (xs @ ys) \<Longrightarrow> \<exists>q. linked s q ys"
  by (induction xs arbitrary: p) (auto split: option.splits)

lemma linked_distinct: "linked s p xs \<Longrightarrow> distinct xs"
proof (induction xs arbitrary: p)
  case (Cons x xs)
  from Cons.prems have c: "linked s x (x # xs)" by auto
  have "x \<notin> set xs"
  proof
    assume "x \<in> set xs"
    then obtain ys zs where xs: "xs = ys @ x # zs" by (auto simp: in_set_conv_decomp)
    obtain q where "linked s q (x # zs)" using linked_drop [of s x "x # ys" "x # zs"] c xs by auto
    then have "linked s x (x # zs)" by auto
    from linked_unique [OF c this] xs show False by simp
  qed
  moreover from c have "distinct xs" by (auto split: option.splits intro: Cons.IH)
  ultimately show ?case by simp
qed simp

lemma linked_frame:
  assumes "\<And>x. x \<in> set xs \<Longrightarrow> pbufs s' x = pbufs s x"
  shows "linked s' p xs \<longleftrightarrow> linked s p xs"
  using assms by (induction xs arbitrary: p) (auto split: option.splits)

lemma pbuf_inv_pset:
  assumes "pbuf_inv s" "pbufs s p = Some b0" "pb_flags b = pb_flags b0" "pb_type_internal b = pb_type_internal b0"
  shows "pbuf_inv (pset p b s)"
  using assms(1,2) pbuf_owned_cong [OF assms(3,4)] by (auto simp: pbuf_inv_def)

lemma free_loop_linked:
  assumes "n < 2 ^ 8" "pbuf_inv s" "linked s p xs" "\<forall>x\<in>set xs. 0 < ref_of s x"
  shows "\<exists>s'. pbuf_free_loop p n s = ret (U8 (n + length (takeWhile (\<lambda>x. ref_of s x = 1) xs)), s')
    \<and> pbuf_inv s' \<and> pbufs s' = after_free s xs \<and> bytes s' = bytes s \<and> ram (pheap s') = ram (pheap s)"
  using assms
proof (induction xs arbitrary: p s n)
  case Nil
  then show ?case by (subst pbuf_free_loop.simps) (auto simp: after_free_def U8_def)
next
  case (Cons x xs)
  from Cons.prems(3) obtain b where b: "p = x" "x \<noteq> 0" "pget x s = ret b" "pbufs s x = Some b" "linked s (pb_next b) xs"
    by (auto simp: pget_ret_iff split: option.splits)
  have r: "pb_ref b = ref_of s x" using b(4) by (simp add: ref_of_def)
  have x: "x \<notin> set xs" using linked_distinct [OF Cons.prems(3)] by simp
  let ?b = "b\<lparr>pb_ref := pb_ref b - 1\<rparr>"
  let ?s = "pset x ?b s"
  have inv: "pbuf_inv ?s" by (rule pbuf_inv_pset [OF Cons.prems(2) b(4)]) simp_all
  show ?case
  proof (cases "ref_of s x = 1")
    case False
    then have "pbuf_free_loop p n s = ret (n, ?s)"
      using b r Cons.prems(4) by (subst pbuf_free_loop.simps) simp
    moreover have "pbufs ?s = after_free s (x # xs)" using False b(4) by (auto simp: after_free_def)
    ultimately show ?thesis using inv False Cons.prems(1) by (auto simp: U8_def)
  next
    case True
    obtain s1 where s1: "pbuf_dealloc x ?b ?s = ret s1" "pbuf_inv s1" "pbufs s1 = (pbufs ?s)(x := None)" "bytes s1 = bytes ?s" "ram (pheap s1) = ram (pheap ?s)"
      using dealloc_ok [OF inv, of x ?b ?b] by auto
    have fr: "pbufs s1 y = pbufs s y" if "y \<in> set xs" for y using that x s1(3) by auto
    then have ref: "ref_of s1 y = ref_of s y" if "y \<in> set xs" for y using that by (simp add: ref_of_def)
    have c1: "linked s1 (pb_next b) xs" using b(5) linked_frame [of xs s1 s] fr by simp
    have "U8 (n + 1) < 2 ^ 8" by (simp add: U8_def)
    from Cons.IH [OF this s1(2) c1] ref Cons.prems(4)
    obtain s' where s': "pbuf_free_loop (pb_next b) (U8 (n + 1)) s1 =
        ret (U8 (U8 (n + 1) + length (takeWhile (\<lambda>x. ref_of s1 x = 1) xs)), s')"
      "pbuf_inv s'" "pbufs s' = after_free s1 xs" "bytes s' = bytes s1" "ram (pheap s') = ram (pheap s1)" by auto
    have tw: "takeWhile (\<lambda>x. ref_of s1 x = 1) xs = takeWhile (\<lambda>x. ref_of s x = 1) xs"
      "dropWhile (\<lambda>x. ref_of s1 x = 1) xs = dropWhile (\<lambda>x. ref_of s x = 1) xs"
      using ref by (auto intro: takeWhile_cong dropWhile_cong)
    have "after_free s1 xs = after_free s (x # xs)"
      using True x s1(3) fr unfolding after_free_def tw
      by (auto simp: Let_def fun_eq_iff dest: set_takeWhileD hd_in_set set_dropWhileD)
    moreover have "pbuf_free_loop p n s = pbuf_free_loop (pb_next b) (U8 (n + 1)) s1"
      using b r True s1(1) by (subst pbuf_free_loop.simps) (simp add: Let_def)
    moreover have "U8 (U8 (n + 1) + k) = U8 (n + Suc k)" for k by (simp add: U8_def mod_simps)
    ultimately show ?thesis using s' s1(4,5) True tw(1) by simp
  qed
qed

lemma LWIP_MEM_ALIGN_id: "a mod 4 = 0 \<Longrightarrow> LWIP_MEM_ALIGN (a + n) = a + LWIP_MEM_ALIGN_SIZE n"
proof -
  assume "a mod 4 = 0"
  then obtain k where "a = k * 4" by (auto simp: mod_eq_0_iff_dvd dvd_def mult.commute)
  then show ?thesis by (simp add: LWIP_MEM_ALIGN_def LWIP_MEM_ALIGN_SIZE_def add.assoc)
qed

lemma layer_offset_le: "layer_offset l \<le> 74"
  by (cases l) simp_all

lemma init_new_pbuf: "pbuf_init_alloced_pbuf p payload tot_len len type 0 s = pset p (new_pbuf payload tot_len len type) s"
  by (simp add: pbuf_init_alloced_pbuf_def new_pbuf_def)

lemma new_pbuf_src:
  "pb_flags (new_pbuf a t l ty) AND PBUF_FLAG_IS_CUSTOM = 0"
  "pbuf_get_allocsrc (new_pbuf a t l PBUF_RAM) = PBUF_TYPE_ALLOC_SRC_MASK_STD_HEAP"
  "pbuf_get_allocsrc (new_pbuf a t l PBUF_POOL) = PBUF_TYPE_ALLOC_SRC_MASK_STD_MEMP_PBUF_POOL"
  "pbuf_get_allocsrc (new_pbuf a t l PBUF_ROM) = PBUF_TYPE_ALLOC_SRC_MASK_STD_MEMP_PBUF"
  "pbuf_get_allocsrc (new_pbuf a t l PBUF_REF) = PBUF_TYPE_ALLOC_SRC_MASK_STD_MEMP_PBUF"
  by (simp_all add: new_pbuf_def pbuf_get_allocsrc_def PBUF_TYPE_ALLOC_SRC_MASK_def PBUF_TYPE_ALLOC_SRC_MASK_STD_HEAP_def
      PBUF_TYPE_ALLOC_SRC_MASK_STD_MEMP_PBUF_POOL_def PBUF_TYPE_ALLOC_SRC_MASK_STD_MEMP_PBUF_def)

lemmas alloc_src_defs = PBUF_TYPE_ALLOC_SRC_MASK_STD_HEAP_def
  PBUF_TYPE_ALLOC_SRC_MASK_STD_MEMP_PBUF_POOL_def PBUF_TYPE_ALLOC_SRC_MASK_STD_MEMP_PBUF_def

text \<open>Taking memory from the heap or a pool keeps the invariant when a struct of its kind is put there.\<close>

lemma pbuf_inv_heap:
  assumes inv: "pbuf_inv s" and h: "heap_inv h'" "ram h' = ram (pheap s)" "heap_live h' = insert p (heap_live (pheap s))"
    and p: "p \<notin> heap_live (pheap s)" "ram (pheap s) < p" "p < ram (pheap s) + MEM_SIZE_ALIGNED + SIZEOF_STRUCT_MEM"
    and b: "pb_flags b AND PBUF_FLAG_IS_CUSTOM = 0" "pbuf_get_allocsrc b = PBUF_TYPE_ALLOC_SRC_MASK_STD_HEAP"
  shows "pbuf_inv (pset p b (s\<lparr>pheap := h'\<rparr>))" and "pbufs s p = None"
proof -
  have mem: "memory_ok (memp_pools s) (ram (pheap s))" using inv by (simp add: pbuf_inv_def)
  have ok: "q \<noteq> 0 \<and> pbuf_owned s q c \<and> pbuf_placed s q" if "pbufs s q = Some c" for q c
    using inv that by (simp add: pbuf_inv_def)
  show new: "pbufs s p = None" using ok [of p] p by (cases "pbufs s p") (auto simp: pbuf_placed_def)
  let ?s = "pset p b (s\<lparr>pheap := h'\<rparr>)"
  have "pbuf_owned ?s p b \<and> pbuf_placed ?s p"
    using p h b mem by (auto simp: pbuf_owned_def pbuf_placed_def alloc_src_defs memory_ok_def list_all_iff)
  moreover have "pbuf_owned ?s q c \<and> pbuf_placed ?s q" if "pbufs s q = Some c" for q c
    using ok [OF that] h by (auto simp: pbuf_owned_def pbuf_placed_def)
  ultimately show "pbuf_inv ?s" using inv h p(2) ok by (auto simp: pbuf_inv_def)
qed

lemma pbuf_inv_pool:
  assumes inv: "pbuf_inv s" and m: "memp_inv (memp_pools s) m" "memp_live (memp_pools s) m = insert (t, p) (memp_live (memp_pools s) (ppools s))"
    and p: "(t, p) \<notin> memp_live (memp_pools s) (ppools s)" "p \<in> set (elements (memp_pools s ! t))"
    and t: "t = MEMP_PBUF \<and> pbuf_get_allocsrc b = PBUF_TYPE_ALLOC_SRC_MASK_STD_MEMP_PBUF
      \<or> t = MEMP_PBUF_POOL \<and> pbuf_get_allocsrc b = PBUF_TYPE_ALLOC_SRC_MASK_STD_MEMP_PBUF_POOL"
    and b: "pb_flags b AND PBUF_FLAG_IS_CUSTOM = 0"
  shows "pbuf_inv (pset p b (s\<lparr>ppools := m\<rparr>))" and "pbufs s p = None" and "p \<noteq> 0"
proof -
  have mem: "memory_ok (memp_pools s) (ram (pheap s))" using inv by (simp add: pbuf_inv_def)
  then have tl: "pools_ok (memp_pools s)" "t < length (memp_pools s)" "MEMP_PBUF < length (memp_pools s)" "MEMP_PBUF_POOL < length (memp_pools s)"
    using t by (auto simp: memory_ok_def MEMP_PBUF_def MEMP_PBUF_POOL_def)
  have ok: "q \<noteq> 0 \<and> pbuf_owned s q c \<and> pbuf_placed s q" if "pbufs s q = Some c" for q c
    using inv that by (simp add: pbuf_inv_def)
  show new: "pbufs s p = None" using ok [of p] p t by (cases "pbufs s p") (auto simp: pbuf_placed_def)
  show p0: "p \<noteq> 0" using elements_props(3) [OF tl(1,2) p(2)] by simp
  let ?s = "pset p b (s\<lparr>ppools := m\<rparr>)"
  have u: "u = t" if "u = MEMP_PBUF \<or> u = MEMP_PBUF_POOL" "p \<in> set (elements (memp_pools s ! u))" for u
    using elements_disjoint [OF tl(1) _ tl(2) that(2) p(2)] that(1) tl(3,4) by auto
  have heap: "\<not> (ram (pheap s) \<le> p \<and> p < ram (pheap s) + MEM_SIZE_ALIGNED + SIZEOF_STRUCT_MEM)"
    using mem t p(2) by (auto simp: memory_ok_def list_all_iff)
  have "pbuf_owned ?s p b" using b t m(2) by (auto simp: pbuf_owned_def alloc_src_defs)
  moreover have "pbuf_placed ?s p" using u m(2) heap by (auto simp: pbuf_placed_def)
  moreover have "pbuf_owned ?s q c \<and> pbuf_placed ?s q" if "pbufs s q = Some c" for q c
    using ok [OF that] m by (auto simp: pbuf_owned_def pbuf_placed_def)
  ultimately show "pbuf_inv ?s" using inv m p0 ok by (auto simp: pbuf_inv_def)
qed

lemma pool_take:
  assumes inv: "pbuf_inv s" and t: "t = MEMP_PBUF \<or> t = MEMP_PBUF_POOL"
  obtains (none) "memp_malloc (memp_pools s) t (ppools s) = ret (None, ppools s)"
      "\<forall>a\<in>set (elements (memp_pools s ! t)). (t, a) \<in> memp_live (memp_pools s) (ppools s)"
    | (some) p m where "memp_malloc (memp_pools s) t (ppools s) = ret (Some p, m)" "memp_inv (memp_pools s) m"
      "memp_live (memp_pools s) m = insert (t, p) (memp_live (memp_pools s) (ppools s))"
      "(t, p) \<notin> memp_live (memp_pools s) (ppools s)" "p \<in> set (elements (memp_pools s ! t))" "p mod 4 = 0"
proof -
  have ok: "pools_ok (memp_pools s)" "memp_inv (memp_pools s) (ppools s)" "t < length (memp_pools s)"
    using inv t by (auto simp: pbuf_inv_def memory_ok_def MEMP_PBUF_def MEMP_PBUF_POOL_def)
  obtain r m where r: "memp_malloc (memp_pools s) t (ppools s) = ret (r, m)" "memp_inv (memp_pools s) m"
    "case r of None \<Rightarrow> m = ppools s \<and> free_list (memp_pools s) (ppools s) t = []
     | Some a \<Rightarrow> free_list (memp_pools s) (ppools s) t = a # free_list (memp_pools s) m t
         \<and> memp_live (memp_pools s) m = insert (t, a) (memp_live (memp_pools s) (ppools s))
         \<and> (t, a) \<notin> memp_live (memp_pools s) (ppools s)"
    using memp_malloc_spec [OF ok] by blast
  have e: "set (free_list (memp_pools s) (ppools s) t) \<subseteq> set (elements (memp_pools s ! t))"
    using ok by (simp add: memp_inv_iff pool_invD)
  show thesis
  proof (cases r)
    case None
    then show thesis using r ok by (intro none) (auto simp: memp_live_def)
  next
    case (Some p)
    then have "p \<in> set (elements (memp_pools s ! t))" using r(3) e by auto
    with Some show thesis using r elements_props(3) [OF ok(1,3)] by (intro some) auto
  qed
qed

lemma alloc_reference_ok:
  assumes inv: "pbuf_inv s" and ty: "type = PBUF_REF \<or> type = PBUF_ROM"
  shows "\<exists>p s'. pbuf_alloc_reference payload len type s = ret (p, s') \<and> pbuf_inv s' \<and> bytes s' = bytes s
    \<and> (if p = 0 then s' = s else pbufs s p = None \<and> pbufs s' = (pbufs s)(p \<mapsto> new_pbuf payload len len type))"
  using inv disjI1 [OF refl]
proof (cases rule: pool_take)
  case none
  then show ?thesis using ty inv by (auto simp: pbuf_alloc_reference_def)
next
  case (some p m)
  have c: "MEMP_PBUF = MEMP_PBUF \<and> pbuf_get_allocsrc (new_pbuf payload len len type) = PBUF_TYPE_ALLOC_SRC_MASK_STD_MEMP_PBUF"
    using ty by (auto simp: new_pbuf_src)
  have "pbuf_inv (pset p (new_pbuf payload len len type) (s\<lparr>ppools := m\<rparr>))" "pbufs s p = None" "p \<noteq> 0"
    by (rule pbuf_inv_pool [OF inv some(2-5) disjI1 [OF c] new_pbuf_src(1)])+
  then show ?thesis using some(1) ty by (auto simp: pbuf_alloc_reference_def init_new_pbuf)
qed

lemma alloc_ram_sizes:
  fixes layer :: pbuf_layer
  assumes "len < 2 ^ 16"
  defines "payload_len \<equiv> U16 (LWIP_MEM_ALIGN_SIZE (layer_offset layer) + LWIP_MEM_ALIGN_SIZE len)"
  defines "alloc_len \<equiv> mem_size_t (LWIP_MEM_ALIGN_SIZE SIZEOF_STRUCT_PBUF + payload_len)"
  assumes "\<not> (payload_len < LWIP_MEM_ALIGN_SIZE len \<or> alloc_len < LWIP_MEM_ALIGN_SIZE len)"
  shows "alloc_len = SIZEOF_STRUCT_PBUF + LWIP_MEM_ALIGN_SIZE (layer_offset layer) + LWIP_MEM_ALIGN_SIZE len"
    and "alloc_len < 2 ^ 16"
proof -
  let ?o = "LWIP_MEM_ALIGN_SIZE (layer_offset layer)" and ?l = "LWIP_MEM_ALIGN_SIZE len"
  have o: "?o \<le> 77" using layer_offset_le [of layer] align_size(2) [of "layer_offset layer"] by simp
  have l: "?l < 65540" using align_size(2) [of len] assms(1) by simp
  have aux: "a + b - 65536 < b" if "a \<le> 100" "\<not> a + b < 65536" for a b :: nat using that by linarith
  have mod1: "a mod 65536 = a - 65536" if "\<not> a < 65536" "a < 131072" for a :: nat
    using that by (simp add: le_mod_geq)
  have p: "payload_len = ?o + ?l"
  proof (rule ccontr)
    assume "payload_len \<noteq> ?o + ?l"
    then have ge: "\<not> ?o + ?l < 65536" by (auto simp: payload_len_def U16_def)
    then have "payload_len = ?o + ?l - 65536" using mod1 [OF ge] o l by (simp add: payload_len_def U16_def)
    then have "payload_len < ?l" using aux [OF _ ge] o by simp
    then show False using assms(4) by simp
  qed
  have s: "LWIP_MEM_ALIGN_SIZE SIZEOF_STRUCT_PBUF = SIZEOF_STRUCT_PBUF" by (simp add: LWIP_MEM_ALIGN_SIZE_def SIZEOF_STRUCT_PBUF_def)
  show "alloc_len = SIZEOF_STRUCT_PBUF + ?o + ?l"
  proof (rule ccontr)
    assume a: "alloc_len \<noteq> SIZEOF_STRUCT_PBUF + ?o + ?l"
    then have ge: "\<not> SIZEOF_STRUCT_PBUF + ?o + ?l < 65536" by (auto simp: alloc_len_def mem_size_t_def p s add.assoc)
    then have "alloc_len = SIZEOF_STRUCT_PBUF + ?o + ?l - 65536"
      using mod1 [OF ge] o l by (simp add: alloc_len_def mem_size_t_def p s [unfolded SIZEOF_STRUCT_PBUF_def]
          SIZEOF_STRUCT_PBUF_def add.assoc)
    then have "alloc_len < ?l" using aux [OF _ ge] o by (simp add: SIZEOF_STRUCT_PBUF_def)
    then show False using assms(4) by simp
  qed
  show "alloc_len < 2 ^ 16" by (simp add: alloc_len_def mem_size_t_def)
qed

lemma alloc_ram_ok:
  assumes inv: "pbuf_inv s" and len: "len < 2 ^ 16"
  shows "\<exists>p s'. pbuf_alloc layer len PBUF_RAM s = ret (p, s') \<and> pbuf_inv s' \<and> bytes s' = bytes s \<and> ram (pheap s') = ram (pheap s)
    \<and> (if p = 0 then pbufs s' = pbufs s
       else \<exists>payload e. pbufs s p = None \<and> pbufs s' = (pbufs s)(p \<mapsto> new_pbuf payload len len PBUF_RAM)
         \<and> p + SIZEOF_STRUCT_PBUF + layer_offset layer \<le> payload \<and> payload mod 4 = 0
         \<and> (p - SIZEOF_STRUCT_MEM - ram (pheap s), e) \<in> used_blocks (pheap s') \<and> payload + len \<le> ram (pheap s) + e)"
proof -
  let ?pl = "U16 (LWIP_MEM_ALIGN_SIZE (layer_offset layer) + LWIP_MEM_ALIGN_SIZE len)"
  let ?al = "mem_size_t (LWIP_MEM_ALIGN_SIZE SIZEOF_STRUCT_PBUF + ?pl)"
  show ?thesis
  proof (cases "?pl < LWIP_MEM_ALIGN_SIZE len \<or> ?al < LWIP_MEM_ALIGN_SIZE len")
    case True
    then show ?thesis using inv by (auto simp: pbuf_alloc_def Let_def)
  next
    case False
    note al = alloc_ram_sizes [OF len False]
    have h: "heap_inv (pheap s)" using inv by (simp add: pbuf_inv_def)
    obtain r h' where r: "mem_malloc ?al (pheap s) = ret (r, h')" "heap_inv h'" "ram h' = ram (pheap s)"
      "case r of None \<Rightarrow> h' = pheap s \<and> (?al = 0 \<or> (\<forall>(x, f)\<in>free_blocks (pheap s). f < x + SIZEOF_STRUCT_MEM + request ?al))
       | Some a \<Rightarrow> 0 < ?al \<and> (\<exists>x e f. (x, f) \<in> free_blocks (pheap s) \<and> a = ram (pheap s) + x + SIZEOF_STRUCT_MEM
         \<and> x + SIZEOF_STRUCT_MEM + request ?al \<le> e \<and> e \<le> f \<and> used_blocks h' = insert (x, e) (used_blocks (pheap s)))"
      using mem_malloc_spec [OF h al(2)] by blast
    show ?thesis
    proof (cases r)
      case None
      then show ?thesis using False r inv by (auto simp: pbuf_alloc_def Let_def)
    next
      case (Some p)
      then obtain x e f where x: "(x, f) \<in> free_blocks (pheap s)" "p = ram (pheap s) + x + SIZEOF_STRUCT_MEM"
        "x + SIZEOF_STRUCT_MEM + request ?al \<le> e" "used_blocks h' = insert (x, e) (used_blocks (pheap s))"
        using r(4) by auto
      have wf: "heap_wf (pheap s) (heap_blocks (pheap s))" using h by (simp add: heap_inv_iff)
      then have "4 dvd x" "x + 20 \<le> MEM_SIZE_ALIGNED" "ram (pheap s) mod 4 = 0"
        using x(1) segment_bounds [of "pheap s" 0 0 "heap_blocks (pheap s)" MEM_SIZE_ALIGNED x]
        by (auto simp: free_blocks_wf [OF wf] heap_wf_def end_ok_def)
      then have p: "p mod 4 = 0" "ram (pheap s) < p" "p < ram (pheap s) + MEM_SIZE_ALIGNED + SIZEOF_STRUCT_MEM"
        using x(2) by (auto simp: SIZEOF_STRUCT_MEM_def mod_eq_0_iff_dvd)
      let ?py = "LWIP_MEM_ALIGN (p + SIZEOF_STRUCT_PBUF + layer_offset layer)"
      have py: "?py = p + SIZEOF_STRUCT_PBUF + LWIP_MEM_ALIGN_SIZE (layer_offset layer)"
        using LWIP_MEM_ALIGN_id [of "p + SIZEOF_STRUCT_PBUF" "layer_offset layer"] p(1)
        by (simp add: SIZEOF_STRUCT_PBUF_def mod_eq_0_iff_dvd)
      let ?s' = "pset p (new_pbuf ?py len len PBUF_RAM) (s\<lparr>pheap := h'\<rparr>)"
      have pm: "?py mod 4 = 0" by (simp add: LWIP_MEM_ALIGN_def)
      note live = heap_live_malloc [OF r(3) x(1,4), folded x(2)]
      have n: "pbuf_inv (pset p (new_pbuf ?py len len PBUF_RAM) (s\<lparr>pheap := h'\<rparr>))" "pbufs s p = None"
        by (rule pbuf_inv_heap [OF inv r(2,3) live(2,1) p(2,3) new_pbuf_src(1,2)])+
      have a: "pbuf_alloc layer len PBUF_RAM s = ret (p, pset p (new_pbuf ?py len len PBUF_RAM) (s\<lparr>pheap := h'\<rparr>))"
        using False r(1) Some pm by (simp add: pbuf_alloc_def Let_def init_new_pbuf)
      have "?py + len \<le> ram (pheap s) + e" "layer_offset layer \<le> LWIP_MEM_ALIGN_SIZE (layer_offset layer)"
        using py x(2,3) al(1) request_props(1) [of ?al] align_size(1) [of len] align_size(1) [of "layer_offset layer"] by auto
      moreover have "p - SIZEOF_STRUCT_MEM - ram (pheap s) = x" using x(2) by simp
      moreover have "p \<noteq> 0" using p(2) by simp
      ultimately have "if p = 0 then pbufs ?s' = pbufs s
        else \<exists>payload e. pbufs s p = None \<and> pbufs ?s' = (pbufs s)(p \<mapsto> new_pbuf payload len len PBUF_RAM)
         \<and> p + SIZEOF_STRUCT_PBUF + layer_offset layer \<le> payload \<and> payload mod 4 = 0
         \<and> (p - SIZEOF_STRUCT_MEM - ram (pheap s), e) \<in> used_blocks (pheap ?s') \<and> payload + len \<le> ram (pheap s) + e"
        unfolding if_not_P [OF \<open>p \<noteq> 0\<close>]
        by (intro exI [of _ ?py] exI [of _ e] conjI) (use n(2) py pm x(4) in simp_all)
      with a n(1) r(3) show ?thesis by (intro exI [of _ p] exI [of _ ?s']) simp
    qed
  qed
qed

lemma linked_snoc:
  assumes "linked s p xs" "xs \<noteq> []" "pbufs s (last xs) = Some b" "q \<noteq> 0" "q \<notin> set xs"
    and "pbufs s' = (pbufs s)(last xs \<mapsto> b\<lparr>pb_next := q\<rparr>, q \<mapsto> c)" "pb_next c = 0"
  shows "linked s' p (xs @ [q])"
  using assms(1-3,5,6)
proof (induction xs arbitrary: p)
  case (Cons x xs)
  show ?case
  proof (cases "xs = []")
    case True
    then show ?thesis using Cons.prems assms(4,7) by auto
  next
    case False
    from Cons.prems(1) obtain a where a: "p = x" "x \<noteq> 0" "pbufs s x = Some a" "linked s (pb_next a) xs"
      by (auto split: option.splits)
    have "x \<notin> set xs" using linked_distinct [OF Cons.prems(1)] by simp
    then have "x \<noteq> last xs" "x \<noteq> q" using False Cons.prems(4) by auto
    then have "pbufs s' x = Some a" using Cons.prems(5) a(3) False by simp
    moreover have "linked s' (pb_next a) (xs @ [q])" using Cons.IH [OF a(4) False] Cons.prems(3-5) False by simp
    ultimately show ?thesis using a by simp
  qed
qed simp

lemma free_all_ok:
  assumes "pbuf_inv s" "linked s p xs" "xs \<noteq> []" "\<forall>x\<in>set xs. ref_of s x = 1"
  shows "\<exists>n s'. pbuf_free p s = ret (n, s') \<and> pbuf_inv s' \<and> bytes s' = bytes s \<and> ram (pheap s') = ram (pheap s)
    \<and> pbufs s' = (\<lambda>x. if x \<in> set xs then None else pbufs s x)"
proof -
  have "p \<noteq> 0" using assms(2,3) by (cases xs) auto
  have tw: "takeWhile (\<lambda>x. ref_of s x = 1) xs = xs" "dropWhile (\<lambda>x. ref_of s x = 1) xs = []" using assms(4) by auto
  have "after_free s xs = (\<lambda>x. if x \<in> set xs then None else pbufs s x)"
    unfolding after_free_def tw Let_def by auto
  with free_loop_linked [OF _ assms(1,2), of 0] assms(4) \<open>p \<noteq> 0\<close> show ?thesis
    by (auto simp: pbuf_free_def)
qed

lemma pool_step:
  assumes inv: "pbuf_inv s" and part: "partial_chain s p lst xs"
    and q: "memp_malloc (memp_pools s) MEMP_PBUF_POOL (ppools s) = ret (Some q, m)" "memp_inv (memp_pools s) m"
      "memp_live (memp_pools s) m = insert (MEMP_PBUF_POOL, q) (memp_live (memp_pools s) (ppools s))"
      "(MEMP_PBUF_POOL, q) \<notin> memp_live (memp_pools s) (ppools s)" "q \<in> set (elements (memp_pools s ! MEMP_PBUF_POOL))"
  defines "s1 \<equiv> \<lambda>b. pset q b (s\<lparr>ppools := m\<rparr>)"
  assumes b: "b = new_pbuf payload tot len PBUF_POOL"
  shows "\<exists>s2. (if p = 0 then ret (s1 b) else bind_run (pget lst (s1 b)) (\<lambda>c. ret (pset lst (c\<lparr>pb_next := q\<rparr>) (s1 b)))) = ret s2
    \<and> pbuf_inv s2 \<and> bytes s2 = bytes s \<and> pbufs s q = None \<and> q \<noteq> 0 \<and> partial_chain s2 (if p = 0 then q else p) q (xs @ [q])
    \<and> pbufs s2 q = Some b
    \<and> (\<forall>x. x \<noteq> q \<longrightarrow> pbufs s2 x = (if xs \<noteq> [] \<and> x = lst then map_option (\<lambda>c. c\<lparr>pb_next := q\<rparr>) (pbufs s x) else pbufs s x))"
proof -
  have src: "MEMP_PBUF_POOL = MEMP_PBUF_POOL \<and> pbuf_get_allocsrc b = PBUF_TYPE_ALLOC_SRC_MASK_STD_MEMP_PBUF_POOL"
    "pb_flags b AND PBUF_FLAG_IS_CUSTOM = 0" by (simp_all add: b new_pbuf_src)
  have i: "pbuf_inv (s1 b)" and nq: "pbufs s q = None" "q \<noteq> 0"
    unfolding s1_def by (rule pbuf_inv_pool [OF inv q(2-5) disjI2 [OF src(1)] src(2)])+
  have bn: "pb_next b = 0" "pb_ref b = 1" by (simp_all add: b new_pbuf_def)
  show ?thesis
  proof (cases "xs = []")
    case True
    then have "partial_chain (s1 b) q q [q]" using nq(2) bn by (simp add: partial_chain_def s1_def ref_of_def)
    then show ?thesis using True part i nq by (auto simp: partial_chain_def s1_def)
  next
    case False
    then have l: "linked s p xs" "lst = last xs" "list_all (\<lambda>x. ref_of s x = 1) xs" using part by (auto simp: partial_chain_def)
    have p: "p \<noteq> 0" using l(1) False by (cases xs) auto
    have lin: "lst \<in> set xs" using l(2) False by simp
    have live: "pbufs s x \<noteq> None" if "x \<in> set xs" for x
      using that l(1) by (induction xs arbitrary: p) (auto split: option.splits)
    have qx: "q \<notin> set xs" using live [of q] nq by auto
    obtain c where c: "pbufs s lst = Some c" using live [OF lin] by auto
    have ql: "q \<noteq> lst" using qx lin by auto
    have z: "lst \<noteq> 0" using inv c by (auto simp: pbuf_inv_def)
    let ?s2 = "pset lst (c\<lparr>pb_next := q\<rparr>) (s1 b)"
    have g: "pget lst (s1 b) = ret c" using c ql z by (simp add: pget_ret_iff s1_def)
    have i2: "pbuf_inv ?s2" using c ql by (intro pbuf_inv_pset [OF i, of lst c]) (simp_all add: s1_def)
    have "pbufs ?s2 = (pbufs s)(last xs \<mapsto> c\<lparr>pb_next := q\<rparr>, q \<mapsto> b)" using ql l(2) by (auto simp: s1_def)
    with linked_snoc [OF l(1) False _ nq(2) qx, of c ?s2 b] c l(2) bn have "linked ?s2 p (xs @ [q])" by simp
    moreover have "list_all (\<lambda>x. ref_of ?s2 x = 1) (xs @ [q])"
      using l(3) c bn ql by (auto simp: list_all_iff ref_of_def s1_def)
    ultimately show ?thesis using p g i2 nq c ql False by (auto simp: partial_chain_def s1_def)
  qed
qed

lemma alloc_pool_loop_ok:
  assumes "pbuf_inv s" and "offset \<le> 76" and "rem < 2 ^ 16" and "partial_chain s p lst xs"
  shows "\<exists>r s'. alloc_pool_loop offset rem p lst s = ret (r, s') \<and> pbuf_inv s' \<and> bytes s' = bytes s
    \<and> (r = 0 \<and> pbufs s' = (\<lambda>x. if x \<in> set xs then None else pbufs s x)
       \<or> r \<noteq> 0 \<and> (\<exists>zs. r = (if xs = [] then hd zs else p) \<and> extended s lst xs rem zs s'))"
  using assms
proof (induction rem arbitrary: offset p lst s xs rule: less_induct)
  case (less rem)
  note inv = less.prems(1) and part = less.prems(4)
  from inv disjI2 [OF refl] show ?case
  proof (cases rule: pool_take)
    case none
    let ?s = "pbuf_pool_is_empty s"
    have same: "pbuf_inv ?s" "bytes ?s = bytes s" "pbufs ?s = pbufs s"
      using inv by (auto simp: pbuf_pool_is_empty_def pbuf_inv_def pbuf_owned_def pbuf_placed_def)
    show ?thesis
    proof (cases "xs = []")
      case True
      then show ?thesis using none(1) same part
        by (subst alloc_pool_loop.simps) (simp add: partial_chain_def)
    next
      case False
      then have l: "linked ?s p xs" "\<forall>x\<in>set xs. ref_of ?s x = 1" "p \<noteq> 0"
        using part linked_frame [of xs ?s s p] same(3)
        by (auto simp: partial_chain_def list_all_iff ref_of_def) (cases xs; auto)
      from free_all_ok [OF same(1) l(1) False l(2)] obtain n s' where "pbuf_free p ?s = ret (n, s')" "pbuf_inv s'"
        "bytes s' = bytes ?s" "pbufs s' = (\<lambda>x. if x \<in> set xs then None else pbufs ?s x)" by blast
      then show ?thesis using none(1) same(2) l(3) unfolding same(3)
        by (subst alloc_pool_loop.simps) auto
    qed
  next
    case (some q m)
    let ?qlen = "min rem (U16 (PBUF_POOL_BUFSIZE_ALIGNED - LWIP_MEM_ALIGN_SIZE offset))"
    let ?py = "LWIP_MEM_ALIGN (q + SIZEOF_STRUCT_PBUF + offset)"
    let ?b = "new_pbuf ?py rem ?qlen PBUF_POOL"
    have al: "LWIP_MEM_ALIGN_SIZE offset \<le> 80" using align_size(2) [of offset] less.prems(2) by simp
    then have sz: "U16 (PBUF_POOL_BUFSIZE_ALIGNED - LWIP_MEM_ALIGN_SIZE offset) = 592 - LWIP_MEM_ALIGN_SIZE offset"
      "PBUF_POOL_BUFSIZE_ALIGNED - LWIP_MEM_ALIGN_SIZE offset > 0" by (simp_all add: PBUF_POOL_BUFSIZE_ALIGNED_def)
    have pm: "?py mod 4 = 0" by (simp add: LWIP_MEM_ALIGN_def)
    obtain s2 where s2: "(if p = 0 then ret (pset q ?b (s\<lparr>ppools := m\<rparr>))
        else bind_run (pget lst (pset q ?b (s\<lparr>ppools := m\<rparr>))) (\<lambda>c. ret (pset lst (c\<lparr>pb_next := q\<rparr>) (pset q ?b (s\<lparr>ppools := m\<rparr>))))) = ret s2"
      "pbuf_inv s2" "bytes s2 = bytes s" "pbufs s q = None" "q \<noteq> 0" "partial_chain s2 (if p = 0 then q else p) q (xs @ [q])"
      "pbufs s2 q = Some ?b"
      "\<forall>x. x \<noteq> q \<longrightarrow> pbufs s2 x = (if xs \<noteq> [] \<and> x = lst then map_option (\<lambda>c. c\<lparr>pb_next := q\<rparr>) (pbufs s x) else pbufs s x)"
      using pool_step [OF inv part some(1-5) refl, of ?py rem ?qlen] by blast
    have p0: "p = 0 \<longleftrightarrow> xs = []" using part by (cases xs) (auto simp: partial_chain_def)
    have eq: "alloc_pool_loop offset rem p lst s = (if U16 (rem - ?qlen) > 0
        then alloc_pool_loop 0 (U16 (rem - ?qlen)) (if p = 0 then q else p) q s2 else ret (if p = 0 then q else p, s2))"
      using some(1) s2(1) sz(2) pm by (subst alloc_pool_loop.simps) (simp add: init_new_pbuf Let_def)
    have u: "U16 (rem - ?qlen) = rem - ?qlen" using less.prems(3) by simp
    have bl: "part_len s2 q = ?qlen" "ref_of s2 q = 1" using s2(7) by (simp_all add: part_len_def ref_of_def new_pbuf_def)
    show ?thesis
    proof (cases "rem - ?qlen > 0")
      case False
      then have "rem = ?qlen" by simp
      then have "extended s lst xs rem [q] s2" using s2(4,5,7,8) bl by (auto simp: extended_def new_pbuf_def)
      then show ?thesis using eq u False s2 p0 by (auto intro!: exI [of _ "[q]"])
    next
      case True
      have "rem - ?qlen < rem" using True sz al by (simp add: min_def split: if_splits)
      moreover have "rem - ?qlen < 2 ^ 16" using less.prems(3) by simp
      ultimately obtain r s' where r: "alloc_pool_loop 0 (rem - ?qlen) (if p = 0 then q else p) q s2 = ret (r, s')" "pbuf_inv s'" "bytes s' = bytes s2"
        "r = 0 \<and> pbufs s' = (\<lambda>x. if x \<in> set (xs @ [q]) then None else pbufs s2 x)
         \<or> r \<noteq> 0 \<and> (\<exists>zs. r = (if xs @ [q] = [] then hd zs else (if p = 0 then q else p)) \<and> extended s2 q (xs @ [q]) (rem - ?qlen) zs s')"
        using less.IH [OF _ s2(2) le0 _ s2(6)] by blast
      have run: "alloc_pool_loop offset rem p lst s = ret (r, s')" unfolding eq u if_P [OF True] by (rule r(1))
      from r(4) show ?thesis
      proof (elim disjE conjE exE)
        assume f: "r = 0" "pbufs s' = (\<lambda>x. if x \<in> set (xs @ [q]) then None else pbufs s2 x)"
        have "lst \<in> set xs" if "xs \<noteq> []" using part that by (simp add: partial_chain_def)
        then have "pbufs s' = (\<lambda>x. if x \<in> set xs then None else pbufs s x)"
          using f(2) s2(4,8) by (auto simp: fun_eq_iff)
        then show ?thesis using run r f(1) s2(3) by auto
      next
        fix zs
        assume g: "r \<noteq> 0" "r = (if xs @ [q] = [] then hd zs else (if p = 0 then q else p))"
          and e: "extended s2 q (xs @ [q]) (rem - ?qlen) zs s'"
        have qz: "q \<notin> set zs" using e s2(7) by (auto simp: extended_def)
        have sq: "pbufs s' q = Some (?b\<lparr>pb_next := hd zs\<rparr>)" using e qz s2(7) by (simp add: extended_def)
        have "extended s lst xs rem (q # zs) s'"
          using e qz sq s2(4,5,8) bl True by (auto simp: extended_def new_pbuf_def part_len_def ref_of_def split: if_splits)
        then show ?thesis using run r(2,3) s2(3) g p0 by (auto intro!: exI [of _ "q # zs"])
      qed
    qed
  qed
qed

subsection \<open>Headers\<close>

lemma add_header_ok:
  assumes c: "packet s p (p # xs)" and b: "pbufs s p = Some b"
    and n: "0 < n" "n + chain_len s (p # xs) < 2 ^ 16" "p + SIZEOF_STRUCT_PBUF + n \<le> pb_payload b" "pb_payload b < 2 ^ 32"
    and t: "pb_type_internal b AND PBUF_TYPE_FLAG_STRUCT_DATA_CONTIGUOUS \<noteq> 0"
  shows "pbuf_add_header p n s = ret (0, pset p (b\<lparr>pb_payload := pb_payload b - n, pb_len := pb_len b + n,
    pb_tot_len := pb_tot_len b + n\<rparr>) s)"
proof -
  have pb: "p \<noteq> 0" "pb_tot_len b = chain_len s (p # xs)" "pb_len b = part_len s p"
    using c b by (auto simp: packet_def part_len_def)
  have "size_t_minus (pb_payload b) n = pb_payload b - n" using n by (intro size_t_minus_le) auto
  moreover have "U16 (n + pb_tot_len b) = n + pb_tot_len b" "U16 (pb_len b + n) = pb_len b + n"
    using n pb by (simp_all add: add.commute)
  ultimately show ?thesis
    using pb(1) n b t by (simp add: pbuf_add_header_def pbuf_add_header_impl_def pget_def Let_def add.commute)
qed

lemma header_roundtrip_state:
  assumes b: "pbufs s p = Some b" and p: "p \<noteq> 0"
    and n: "0 < n" "n + pb_tot_len b < 2 ^ 16" "n \<le> pb_payload b" "pb_len b \<le> pb_tot_len b"
  shows "pbuf_remove_header p n (pset p (b\<lparr>pb_payload := pb_payload b - n, pb_len := pb_len b + n,
    pb_tot_len := pb_tot_len b + n\<rparr>) s) = ret (0, s)"
proof -
  have "pset p b s = s" using b by (simp add: pset_def map_upd_triv)
  then show ?thesis
    using p n by (simp add: pbuf_remove_header_def pget_def pset_def U16_def)
qed

lemma add_header_data:
  assumes c: "packet s p (p # xs)" and b: "pbufs s p = Some b" and n: "n + chain_len s (p # xs) < 2 ^ 16" "n \<le> pb_payload b"
  defines "s' \<equiv> pset p (b\<lparr>pb_payload := pb_payload b - n, pb_len := pb_len b + n, pb_tot_len := pb_tot_len b + n\<rparr>) s"
  shows "packet s' p (p # xs)" and "chain_data s' (p # xs) = read_bytes (pb_payload b - n) n s @ chain_data s (p # xs)"
proof -
  have "chain s p (p # xs)" using c by (simp add: packet_def)
  then have "p \<notin> set xs" using linked_distinct [OF chain_linked, of s p "p # xs"] by simp
  then have fr: "pbufs s' x = pbufs s x" if "x \<in> set xs" for x
    using that by (auto simp: s'_def)
  then have l: "part_len s' x = part_len s x" "part_payload s' x = part_payload s x" if "x \<in> set xs" for x
    using that by (simp_all add: part_len_def part_payload_def)
  have bts: "bytes s' = bytes s" by (simp add: s'_def pset_def)
  have cl: "chain_len s' xs = chain_len s xs" using l by (simp add: chain_len_def cong: map_cong)
  have cd: "chain_data s' xs = chain_data s xs" using l bts by (simp add: chain_data_def read_bytes_def cong: map_cong)
  have ch: "chain s' q xs = chain s q xs" for q by (rule chain_frame) (simp add: fr)
  have pb: "pbufs s' p = Some (b\<lparr>pb_payload := pb_payload b - n, pb_len := pb_len b + n, pb_tot_len := pb_tot_len b + n\<rparr>)"
    by (simp add: s'_def pset_def)
  then have pp: "part_len s' p = pb_len b + n" "part_payload s' p = pb_payload b - n"
    "part_len s p = pb_len b" "part_payload s p = pb_payload b"
    using b by (simp_all add: part_len_def part_payload_def)
  show "packet s' p (p # xs)" using c b pb ch cl pp n(1) by (simp add: packet_def)
  have "read_bytes (pb_payload b - n) (n + pb_len b) s = read_bytes (pb_payload b - n) n s @ read_bytes (pb_payload b) (pb_len b) s"
    using n(2) by (simp add: read_bytes_def flip: map_append) (simp add: upt_add_eq_append [of _ _ "pb_len b", symmetric])
  then show "chain_data s' (p # xs) = read_bytes (pb_payload b - n) n s @ chain_data s (p # xs)"
    using cd pp bts by (simp add: add.commute) (simp add: read_bytes_def)
qed

subsection \<open>The example state\<close>

lemma example_net_elements:
  "i < 13 \<Longrightarrow> set (elements (example_net_pools ! i)) \<subseteq> {10000 + 10000 * i..<20000 + 10000 * i}"
  by (auto simp: example_net_pools_def elements_def LWIP_MEM_ALIGN_def)

lemma example_net_pools_ok: "pools_ok example_net_pools"
proof -
  have "set (elements (example_net_pools ! i)) \<inter> set (elements (example_net_pools ! j)) = {}"
    if "i < 13" "j < 13" "i \<noteq> j" for i j
  proof -
    have "{10000 + 10000 * i..<20000 + 10000 * i} \<inter> {10000 + 10000 * j..<20000 + 10000 * j} = {}" using that(3) by auto
    with example_net_elements [OF that(1)] example_net_elements [OF that(2)] show ?thesis by blast
  qed
  then show ?thesis by (auto simp: pools_ok_def list_all_iff example_net_pools_def)
qed

lemma example_net_far: "t = MEMP_PBUF \<or> t = MEMP_PBUF_POOL \<Longrightarrow> a \<in> set (elements (example_net_pools ! t)) \<Longrightarrow> 5000 \<le> a"
  using subsetD [OF example_net_elements [of t], of a] by (auto simp: MEMP_PBUF_def MEMP_PBUF_POOL_def)

lemma example_net_memory: "memory_ok example_net_pools 1000"
  using example_net_pools_ok example_net_far
  by (fastforce simp: memory_ok_def list_all_iff mem_consts MEMP_PBUF_POOL_def example_net_pools_def)

lemma example_net_inv: "pbuf_inv example_net"
proof -
  have "50 \<notin> set (elements (example_net_pools ! t)) \<and> 60 \<notin> set (elements (example_net_pools ! t))"
    if "t = MEMP_PBUF \<or> t = MEMP_PBUF_POOL" for t
    using example_net_far [OF that] by fastforce
  then have "pbuf_placed example_net p" if "p = 50 \<or> p = 60" for p
    using that by (auto simp: pbuf_placed_def example_net_def example_heap_def)
  then show ?thesis
    using example_net_memory memp_init_spec(1) [OF example_net_pools_ok] example_heap_inv
    by (auto simp: pbuf_inv_def example_net_def example_heap_def pbuf_owned_def example_pbuf_def PBUF_FLAG_IS_CUSTOM_def
        split: if_splits)
qed

lemma example_net_packet: "packet example_net 50 [50, 60]" "ref_of example_net 50 = 1" "ref_of example_net 60 = 2"
  by (simp_all add: packet_def example_net_def example_pbuf_def part_len_def ref_of_def)

subsection \<open>The properties of the memory of packet buffers\<close>



text \<open>
  C31: \<open>pbuf_alloc\<close> of a \<open>PBUF_RAM\<close> buffer always returns. Either it returns \<open>NULL\<close> and no struct
  changed, or a new struct with one reference whose payload is aligned, leaves room for the headers
  of the layer behind the struct, and lies with all its \<open>len\<close> bytes inside the block of the heap.
\<close>

theorem pbuf_alloc_ram_correct:
  assumes "pbuf_inv s" and "len < 2 ^ 16"
  shows "\<exists>p s'. pbuf_alloc layer len PBUF_RAM s = ret (p, s') \<and> pbuf_inv s' \<and> bytes s' = bytes s
    \<and> (if p = 0 then pbufs s' = pbufs s
       else \<exists>payload e. pbufs s p = None \<and> pbufs s' = (pbufs s)(p \<mapsto> new_pbuf payload len len PBUF_RAM)
         \<and> p + SIZEOF_STRUCT_PBUF + layer_offset layer \<le> payload \<and> payload mod 4 = 0
         \<and> (p - SIZEOF_STRUCT_MEM - ram (pheap s), e) \<in> used_blocks (pheap s') \<and> payload + len \<le> ram (pheap s) + e)"
  using alloc_ram_ok [OF assms] by blast

theorem pbuf_alloc_ram_correct_witness:
  "\<exists>p s'. pbuf_inv example_net \<and> pbuf_alloc PBUF_TRANSPORT 100 PBUF_RAM example_net = ret (p, s') \<and> pbuf_inv s'"
  using pbuf_alloc_ram_correct [OF example_net_inv, of 100 PBUF_TRANSPORT] example_net_inv by auto



text \<open>
  C40: adding a header of \<open>n\<close> bytes to a packet with room in front of its data succeeds and puts the
  \<open>n\<close> bytes in front of the packet's data; removing them again restores the state.
\<close>

theorem pbuf_header_roundtrip:
  assumes "packet s p (p # xs)" and "pbufs s p = Some b"
    and "pb_type_internal b AND PBUF_TYPE_FLAG_STRUCT_DATA_CONTIGUOUS \<noteq> 0"
    and "0 < n" and "n + chain_len s (p # xs) < 2 ^ 16"
    and "p + SIZEOF_STRUCT_PBUF + n \<le> pb_payload b" and "pb_payload b < 2 ^ 32"
  shows "\<exists>s'. pbuf_add_header p n s = ret (0, s') \<and> packet s' p (p # xs)
    \<and> chain_data s' (p # xs) = read_bytes (pb_payload b - n) n s @ chain_data s (p # xs)
    \<and> pbuf_remove_header p n s' = ret (0, s)"
proof -
  have b: "p \<noteq> 0" "pb_tot_len b = chain_len s (p # xs)" "pb_len b \<le> pb_tot_len b"
    using assms(1,2) by (auto simp: packet_def part_len_def)
  have n: "n \<le> pb_payload b" "n + pb_tot_len b < 2 ^ 16" using assms(5,6) b(2) by auto
  show ?thesis
    using add_header_ok [OF assms(1,2,4-7,3)] header_roundtrip_state [OF assms(2) b(1) assms(4) n(2,1) b(3)]
      add_header_data [OF assms(1,2,5) n(1)] by blast
qed

theorem pbuf_header_roundtrip_witness:
  "\<exists>s'. pbuf_add_header 50 20 example_ram_pbuf = ret (0, s') \<and> pbuf_remove_header 50 20 s' = ret (0, example_ram_pbuf)"
proof -
  have "packet example_ram_pbuf 50 [50]" "part_len example_ram_pbuf 50 = 3"
    by (simp_all add: packet_def example_ram_pbuf_def example_pbuf_def part_len_def)
  moreover have "pbufs example_ram_pbuf 50 = Some ((example_pbuf 0 100 3 3)\<lparr>pb_type_internal := 0x80\<rparr>)"
    by (simp add: example_ram_pbuf_def)
  ultimately show ?thesis
    using pbuf_header_roundtrip [of example_ram_pbuf 50 "[]" "(example_pbuf 0 100 3 3)\<lparr>pb_type_internal := 0x80\<rparr>" 20]
    by (auto simp: example_pbuf_def PBUF_TYPE_FLAG_STRUCT_DATA_CONTIGUOUS_def SIZEOF_STRUCT_PBUF_def)
qed

end
