(* ===== verification/Pbuf_Copy.thy ===== *)
theory Pbuf_Copy
  imports Pbuf_Memory
begin

text \<open>
  Copying packets: \<open>pbuf_copy\<close> into one buffer that is big enough, \<open>pbuf_clone\<close> and \<open>pbuf_ref\<close>.
  \<open>pbuf_copy\<close> takes a struct whose length is its total length for the end of a packet in a queue of
  packets, so that a chain it copies must not go on with empty structs: \<open>full\<close>.
\<close>

fun full :: "pbuf_state \<Rightarrow> nat list \<Rightarrow> bool" where
  "full s [] \<longleftrightarrow> True"
| "full s (x # xs) \<longleftrightarrow> (xs = [] \<or> 0 < chain_len s xs) \<and> full s xs"

definition clear_of :: "pbuf_state \<Rightarrow> nat list \<Rightarrow> nat \<Rightarrow> nat \<Rightarrow> bool" where
  "clear_of s xs a n \<longleftrightarrow> set (chain_addrs s xs) \<inter> {a..<a + n} = {}"

subsection \<open>Bytes and packets\<close>

lemma read_bytes_append: "read_bytes a (n + m) s = read_bytes a n s @ read_bytes (a + n) m s"
  by (rule nth_equalityI) (auto simp: nth_append)

lemma read_write_bytes_same: "length bs = n \<Longrightarrow> read_bytes a n (write_bytes a bs s) = bs"
  by (rule nth_equalityI) (auto simp: write_bytes_def)

lemma read_write_bytes_other: "a + n \<le> c \<or> c + length bs \<le> a \<Longrightarrow> read_bytes a n (write_bytes c bs s) = read_bytes a n s"
  by (rule nth_equalityI) (auto simp: write_bytes_def)

lemma read_bytes_pset [simp]: "read_bytes a n (pset p b s) = read_bytes a n s"
  by (simp add: read_bytes_def)

lemma packet_same:
  assumes "pbufs s' = pbufs s"
  shows "packet s' p xs \<longleftrightarrow> packet s p xs"
  unfolding packet_def same_pbufs(3,4) [OF assms] ..

lemma pbuf_inv_bytes [simp]: "pbuf_inv (s\<lparr>bytes := bts\<rparr>) = pbuf_inv s"
  by (simp add: pbuf_inv_def pbuf_owned_def pbuf_placed_def)

lemma single_packet:
  assumes "pbufs s p = Some b" "p \<noteq> 0" "pb_next b = 0" "pb_tot_len b = pb_len b" "pb_len b < 2 ^ 16"
  shows "packet s p [p]" "linked s p [p]" "chain_len s [p] = pb_len b" "chain_data s [p] = read_bytes (pb_payload b) (pb_len b) s"
  using assms by (simp_all add: packet_def part_len_def part_payload_def)

subsection \<open>Copying\<close>

lemma full_frame:
  assumes "\<And>x. x \<in> set xs \<Longrightarrow> pbufs s' x = pbufs s x"
  shows "full s' xs \<longleftrightarrow> full s xs"
  using assms
proof (induction xs)
  case (Cons x xs)
  then show ?case using chain_frame(1) [of xs s' s] by simp
qed simp

lemma full_last:
  assumes "chain s p (x # xs)" "full s (x # xs)" "pbufs s p = Some b"
  shows "pb_len b \<noteq> pb_tot_len b \<or> pb_next b = 0"
  using assms by (cases xs) auto

lemma chain_data_write:
  assumes "set (chain_addrs s xs) \<inter> set [c..<c + length bs] = {}"
  shows "chain_data (write_bytes c bs s) xs = chain_data s xs"
  unfolding chain_data_addrs same_pbufs(6) [OF write_bytes_pbufs]
  using assms by (auto simp: write_bytes_def)

text \<open>The loop copies the rest of the source behind what has been copied already.\<close>

lemma copy_loop_single:
  assumes "chain s p xs" "xs \<noteq> []" "full s xs" "pbufs s t = Some b" "t \<noteq> 0" "pb_next b = 0" "pb_tot_len b = pb_len b"
    and "k + chain_len s xs = pb_len b"
  shows "\<exists>s'. copy_loop t k p 0 s = ret (ERR_OK, s') \<and> only_bytes s s'
    \<and> (\<forall>a. a < pb_payload b + k \<or> pb_payload b + pb_len b \<le> a \<longrightarrow> bytes s' a = bytes s a)
    \<and> (clear_of s xs (pb_payload b) (pb_len b) \<longrightarrow> read_bytes (pb_payload b + k) (chain_len s xs) s' = chain_data s xs)"
  using assms
proof (induction xs arbitrary: p k s)
  case (Cons x xs)
  obtain f where f: "p = x" "x \<noteq> 0" "pget x s = ret f" "pbufs s x = Some f" "pb_len f = part_len s x" "pb_payload f = part_payload s x"
    "chain s (pb_next f) xs" using Cons.prems(1) by (rule chain_Cons_cases)
  let ?d = "pb_payload b + k" and ?n = "part_len s x"
  let ?s = "write_bytes ?d (read_bytes (part_payload s x) ?n s) s"
  have ob: "only_bytes s ?s" by (rule only_bytes_simps)
  have pb: "pbufs ?s = pbufs s" by simp
  note same = same_pbufs [OF pb]
  have tget: "pget t s = ret b" using Cons.prems(4,5) by (simp add: pget_ret_iff)
  have nk: "k + ?n \<le> pb_len b" "pb_len b - k \<ge> ?n" using Cons.prems(8) by auto
  show ?case
  proof (cases xs)
    case Nil
    then have z: "pb_next f = 0" "k + ?n = pb_len b" using f(7) Cons.prems(8) by auto
    have "copy_loop t k p 0 s = ret (ERR_OK, ?s)"
      using f tget z Cons.prems(6) nk by (subst copy_loop.simps) (simp add: Let_def)
    moreover have "read_bytes ?d ?n ?s = read_bytes (part_payload s x) ?n s"
      by (rule nth_equalityI) (simp_all add: write_bytes_def)
    ultimately show ?thesis using Nil ob nk by (auto simp: write_bytes_def)
  next
    case xs: (Cons y ys)
    have pos: "0 < chain_len s xs" "full s xs" using Cons.prems(3) xs by auto
    have more: "\<not> k + ?n = pb_len b" using Cons.prems(8) pos by simp
    have nz: "pb_next f \<noteq> 0" using f(7) xs by auto
    obtain g where g: "pget (pb_next f) s = ret g" "pbufs s (pb_next f) = Some g"
      using f(7) xs by (auto simp: pget_def split: option.splits)
    have last: "pb_len g \<noteq> pb_tot_len g \<or> pb_next g = 0" using full_last [of s "pb_next f" y ys g] f(7) pos(2) g(2) xs by simp
    have run: "copy_loop t k p 0 s = copy_loop t (k + ?n) (pb_next f) 0 ?s"
      using f tget g Cons.prems(5,6) nk more nz last by (subst copy_loop.simps) (simp add: Let_def same(5))
    have "full ?s xs" using pos(2) full_frame [of xs ?s s] by simp
    moreover have "chain ?s (pb_next f) xs" unfolding same(4) by (rule f(7))
    moreover have "k + ?n + chain_len ?s xs = pb_len b" unfolding same(3) using Cons.prems(8) by simp
    moreover have "pbufs ?s t = Some b" "xs \<noteq> []" using Cons.prems(4) xs by simp_all
    ultimately obtain s' where s': "copy_loop t (k + ?n) (pb_next f) 0 ?s = ret (ERR_OK, s')" "only_bytes ?s s'"
      "\<forall>a. a < pb_payload b + (k + ?n) \<or> pb_payload b + pb_len b \<le> a \<longrightarrow> bytes s' a = bytes ?s a"
      "clear_of ?s xs (pb_payload b) (pb_len b) \<longrightarrow> read_bytes (pb_payload b + (k + ?n)) (chain_len ?s xs) s' = chain_data ?s xs"
      using Cons.IH [of ?s "pb_next f" "k + ?n", OF _ _ _ _ Cons.prems(5-7)] by blast
    have fr: "bytes s' a = bytes s a" if "a < ?d \<or> pb_payload b + pb_len b \<le> a" for a
      using s'(3) that nk by (auto simp: write_bytes_def)
    have dat: "read_bytes ?d (chain_len s (x # xs)) s' = chain_data s (x # xs)" if c: "clear_of s (x # xs) (pb_payload b) (pb_len b)"
    proof -
      have c2: "clear_of ?s xs (pb_payload b) (pb_len b)" using c unfolding clear_of_def same(6) by (auto simp: chain_addrs_Cons)
      have "read_bytes ?d ?n s' = read_bytes ?d ?n ?s" using s'(3) by (auto intro!: nth_equalityI)
      also have "\<dots> = read_bytes (part_payload s x) ?n s" by (rule nth_equalityI) (simp_all add: write_bytes_def)
      finally have 1: "read_bytes ?d ?n s' = read_bytes (part_payload s x) ?n s" .
      have "chain_data ?s xs = chain_data s xs"
        by (rule chain_data_write) (use c nk in \<open>fastforce simp: clear_of_def chain_addrs_Cons\<close>)
      with s'(4) c2 have 2: "read_bytes (?d + ?n) (chain_len s xs) s' = chain_data s xs" by (simp add: same(3) add.assoc)
      have "read_bytes ?d (?n + chain_len s xs) s' = read_bytes ?d ?n s' @ read_bytes (?d + ?n) (chain_len s xs) s'"
        by (rule read_bytes_append)
      with 1 2 show ?thesis by simp
    qed
    show ?thesis using run s'(1) only_bytes_trans [OF ob s'(2)] fr dat by auto
  qed
qed simp

lemma clone_ok:
  assumes inv: "pbuf_inv s" and pk: "packet s p xs" "full s xs"
  shows "\<exists>q s'. pbuf_clone layer PBUF_RAM p s = ret (q, s') \<and> pbuf_inv s' \<and>
    (if q = 0 then pbufs s' = pbufs s
     else \<exists>a. pbufs s q = None \<and> pbufs s' = (pbufs s)(q \<mapsto> new_pbuf a (chain_len s xs) (chain_len s xs) PBUF_RAM)
       \<and> (\<forall>x. x < a \<or> a + chain_len s xs \<le> x \<longrightarrow> bytes s' x = bytes s x)
       \<and> (clear_of s xs a (chain_len s xs) \<longrightarrow> chain_data s' [q] = chain_data s xs))"
proof -
  let ?n = "chain_len s xs"
  obtain x ys where xs: "xs = x # ys" "chain s p (x # ys)" "?n < 2 ^ 16" using pk(1) by (cases xs) (auto simp: packet_def)
  obtain f where f: "p \<noteq> 0" "pget p s = ret f" "pbufs s p = Some f" "pb_tot_len f = ?n"
    using xs(2) by (rule chain_Cons_cases) (use xs(1) in auto)
  obtain q t where t: "pbuf_alloc layer ?n PBUF_RAM s = ret (q, t)" "pbuf_inv t" "bytes t = bytes s"
    "if q = 0 then pbufs t = pbufs s
       else \<exists>a e. pbufs s q = None \<and> pbufs t = (pbufs s)(q \<mapsto> new_pbuf a ?n ?n PBUF_RAM)
         \<and> q + SIZEOF_STRUCT_PBUF + layer_offset layer \<le> a \<and> a mod 4 = 0
         \<and> (q - SIZEOF_STRUCT_MEM - ram (pheap s), e) \<in> used_blocks (pheap t) \<and> a + ?n \<le> ram (pheap s) + e"
    using alloc_ram_ok [OF inv xs(3), of layer] by blast
  show ?thesis
  proof (cases "q = 0")
    case True
    then have "pbuf_clone layer PBUF_RAM p s = ret (q, t)" using f t(1) by (simp add: pbuf_clone_def)
    then show ?thesis using True t by auto
  next
    case False
    then obtain a where a: "pbufs s q = None" "pbufs t = (pbufs s)(q \<mapsto> new_pbuf a ?n ?n PBUF_RAM)" using t(4) by auto
    let ?b = "new_pbuf a ?n ?n PBUF_RAM"
    have fr: "pbufs t z = pbufs s z" if "z \<in> set xs" for z
    proof -
      have "pbufs s z \<noteq> None" using xs(1) that by (auto intro: chain_member [OF xs(2)])
      then show ?thesis using a by auto
    qed
    have cf: "chain_len t xs = chain_len s xs" "chain t p xs = chain s p xs" "chain_addrs t xs = chain_addrs s xs"
      by (rule chain_frame, rule fr, assumption)+
    have ch: "chain t p xs" "full t xs" "chain_len t xs = ?n" using xs cf full_frame [of xs t s] fr pk(2) by auto
    have "pbufs t q = Some ?b" "pb_next ?b = 0" "pb_tot_len ?b = pb_len ?b" "0 + chain_len t xs = pb_len ?b" "pb_payload ?b = a" "pb_len ?b = ?n"
      using a(2) ch(3) by (simp_all add: new_pbuf_def)
    with copy_loop_single [OF ch(1) _ ch(2), of q ?b 0] False xs(1)
    obtain s' where s': "copy_loop q 0 p 0 t = ret (ERR_OK, s')" "only_bytes t s'" "\<forall>x. x < a \<or> a + ?n \<le> x \<longrightarrow> bytes s' x = bytes t x"
      "clear_of t xs a ?n \<longrightarrow> read_bytes a ?n s' = chain_data t xs" by auto
    have tq: "pget q t = ret ?b" "pget p t = ret f" using a False f by (auto simp: pget_def)
    have run: "pbuf_clone layer PBUF_RAM p s = ret (q, s')"
      using f tq t(1) False s'(1) by (simp add: pbuf_clone_def pbuf_copy_def new_pbuf_def)
    have pbs: "pbufs s' = pbufs t" by (rule only_bytes_pbufs [OF s'(2)])
    have "s' = t\<lparr>bytes := bytes s'\<rparr>" using s'(2) by (simp add: only_bytes_def)
    then have inv': "pbuf_inv s'" using t(2) by (metis pbuf_inv_bytes)
    have cd: "chain_data t xs = chain_data s xs" unfolding chain_data_addrs cf(3) t(3) ..
    have "chain_data s' [q] = read_bytes a ?n s'" using pbs a(2) by (simp add: part_len_def part_payload_def new_pbuf_def)
    then have "clear_of s xs a ?n \<longrightarrow> chain_data s' [q] = chain_data s xs" using s'(4) cd cf(3) by (simp add: clear_of_def)
    then show ?thesis using run inv' False a pbs s'(3) t(3) by auto
  qed
qed

lemma ref_ok:
  assumes "pbuf_inv s" "pbufs s p = Some b" "pb_ref b < 255"
  shows "pbuf_ref p s = ret (pset p (b\<lparr>pb_ref := pb_ref b + 1\<rparr>) s) \<and> pbuf_inv (pset p (b\<lparr>pb_ref := pb_ref b + 1\<rparr>) s)"
  using assms pbuf_inv_pset [OF assms(1,2), of "b\<lparr>pb_ref := pb_ref b + 1\<rparr>"]
  by (auto simp: pbuf_ref_def pget_def U8_def pbuf_inv_def)

text \<open>
  C39: \<open>pbuf_clone\<close> of a packet without empty structs behind its data always returns. Either it returns
  \<open>NULL\<close> and no struct changed, or a new buffer of the packet's length in one piece, with one reference;
  nothing outside the new buffer is written, and unless the packet lies in the memory that the heap
  handed out, the buffer holds the bytes of the packet.
\<close>

theorem pbuf_clone_correct:
  assumes "pbuf_inv s" and "packet s p xs" and "full s xs"
  shows "\<exists>q s'. pbuf_clone layer PBUF_RAM p s = ret (q, s') \<and> pbuf_inv s' \<and>
    (if q = 0 then pbufs s' = pbufs s
     else \<exists>a. pbufs s q = None \<and> pbufs s' = (pbufs s)(q \<mapsto> new_pbuf a (chain_len s xs) (chain_len s xs) PBUF_RAM)
       \<and> (\<forall>x. x < a \<or> a + chain_len s xs \<le> x \<longrightarrow> bytes s' x = bytes s x)
       \<and> (clear_of s xs a (chain_len s xs) \<longrightarrow> chain_data s' [q] = chain_data s xs))"
  by (rule clone_ok [OF assms])

theorem pbuf_clone_correct_witness:
  "\<exists>q s'. packet example_net 50 [50, 60] \<and> full example_net [50, 60] \<and> pbuf_clone PBUF_LINK PBUF_RAM 50 example_net = ret (q, s') \<and> pbuf_inv s'"
proof -
  have "full example_net [50, 60]" by (simp add: example_net_def part_len_def example_pbuf_def)
  with pbuf_clone_correct [OF example_net_inv example_net_packet(1) this, of PBUF_LINK] example_net_packet(1)
  show ?thesis by auto
qed

end
