(* ===== verification/Net_State.thy ===== *)
theory Net_State
  imports Ip_Addr Pbuf_Copy
begin

text \<open>
  The state that the link layer, the interfaces, ARP and AutoIP share.

  \<open>net\<close> holds the ARP table and its cached index, the packet buffers, the network interfaces by their
  address (0 is \<open>NULL\<close>) and the list of them, the AutoIP clients by their address, and the state \<open>world\<close>
  of everything outside. What a driver does with a packet (\<open>netif->linkoutput\<close>), and what the layers
  above do when they are called from here, are parameters: the record \<open>net_calls\<close>.

  A field of a header in a packet is read from and written to the bytes of memory; the target is
  little endian, so \<open>mem16\<close> gives the bytes of a value from the lowest on. The memory of the
  model has a byte at every address: reading beyond the length of a packet, as the code does in one
  place, gives whatever byte is there.
\<close>

datatype etharp_state =
    ETHARP_STATE_EMPTY
  | ETHARP_STATE_PENDING
  | ETHARP_STATE_STABLE
  | ETHARP_STATE_STABLE_REREQUESTING_1
  | ETHARP_STATE_STABLE_REREQUESTING_2

record etharp_entry =
  arp_q :: nat
  arp_ipaddr :: u32
  arp_netif :: nat
  arp_ethaddr :: "u8 list"
  arp_ctime :: u16
  arp_state :: etharp_state

text \<open>\<open>struct autoip\<close> and its states, \<open>include/lwip/autoip.h\<close> and \<open>include/lwip/prot/autoip.h\<close>.\<close>

datatype autoip_state =
    AUTOIP_STATE_OFF
  | AUTOIP_STATE_PROBING
  | AUTOIP_STATE_ANNOUNCING
  | AUTOIP_STATE_BOUND

record autoip =
  llipaddr :: u32
  ai_state :: autoip_state
  sent_num :: u8
  ttw :: u16
  lastconflict :: u8
  tried_llipaddr :: u8

record 'w net =
  arp_table :: "etharp_entry list"
  etharp_cached_entry :: nat
  pb :: pbuf_state
  netifs :: "nat \<Rightarrow> netif option"
  netif_list :: "nat list"
  netif_default :: nat
  next_netif_num :: nat
  autoips :: "nat \<Rightarrow> autoip option"
  world :: 'w

record 'w net_calls =
  linkoutput :: "nat \<Rightarrow> nat \<Rightarrow> 'w net \<Rightarrow> (err_t \<times> 'w net) run"
  ip4_input :: "nat \<Rightarrow> nat \<Rightarrow> 'w net \<Rightarrow> 'w net run"
  ip6_input :: "nat \<Rightarrow> nat \<Rightarrow> 'w net \<Rightarrow> 'w net run"
  dhcp_arp_reply :: "nat \<Rightarrow> u32 \<Rightarrow> 'w net \<Rightarrow> 'w net run"
  dhcp_network_changed :: "nat \<Rightarrow> 'w net \<Rightarrow> 'w net run"
  tcp_netif_ip_addr_changed :: "u32 \<Rightarrow> u32 option \<Rightarrow> 'w net \<Rightarrow> 'w net run"
  udp_netif_ip_addr_changed :: "u32 \<Rightarrow> u32 option \<Rightarrow> 'w net \<Rightarrow> 'w net run"
  igmp_start :: "nat \<Rightarrow> 'w net \<Rightarrow> 'w net run"
  igmp_report_groups :: "nat \<Rightarrow> 'w net \<Rightarrow> 'w net run"
  mld6_report_groups :: "nat \<Rightarrow> 'w net \<Rightarrow> 'w net run"
  nd6_restart_netif :: "nat \<Rightarrow> 'w net \<Rightarrow> 'w net run"
  nd6_cleanup_netif :: "nat \<Rightarrow> 'w net \<Rightarrow> 'w net run"

text \<open>What ARP leaves alone: the interfaces and the AutoIP clients.\<close>

definition links :: "'w net \<Rightarrow> (nat \<Rightarrow> netif option) \<times> nat list \<times> nat \<times> nat \<times> (nat \<Rightarrow> autoip option)" where
  "links s = (netifs s, netif_list s, netif_default s, next_netif_num s, autoips s)"

lemma links_eq [simp]:
  "links s' = links s \<longleftrightarrow> netifs s' = netifs s \<and> netif_list s' = netif_list s \<and> netif_default s' = netif_default s
     \<and> next_netif_num s' = next_netif_num s \<and> autoips s' = autoips s"
  by (simp add: links_def)

text \<open>The order of the states is the order of their numbers, which the code compares.\<close>

fun state_num :: "etharp_state \<Rightarrow> nat" where
  "state_num ETHARP_STATE_EMPTY = 0"
| "state_num ETHARP_STATE_PENDING = 1"
| "state_num ETHARP_STATE_STABLE = 2"
| "state_num ETHARP_STATE_STABLE_REREQUESTING_1 = 3"
| "state_num ETHARP_STATE_STABLE_REREQUESTING_2 = 4"

instantiation etharp_state :: linorder
begin

definition less_eq_etharp_state :: "etharp_state \<Rightarrow> etharp_state \<Rightarrow> bool" where
  "less_eq_etharp_state a b \<longleftrightarrow> state_num a \<le> state_num b"

definition less_etharp_state :: "etharp_state \<Rightarrow> etharp_state \<Rightarrow> bool" where
  "less_etharp_state a b \<longleftrightarrow> state_num a < state_num b"

instance
proof
  fix a b :: etharp_state
  show "a \<le> b \<Longrightarrow> b \<le> a \<Longrightarrow> a = b"
    by (cases a; cases b; simp add: less_eq_etharp_state_def)
qed (auto simp: less_eq_etharp_state_def less_etharp_state_def)

end

definition mem16 :: "u16 \<Rightarrow> u8 list" where
  "mem16 v = [ucast v, ucast (drop_bit 8 v)]"

definition load16 :: "nat \<Rightarrow> pbuf_state \<Rightarrow> u16" where
  "load16 a s = ucast (bytes s a) OR push_bit 8 (ucast (bytes s (a + 1)))"

definition load32 :: "nat \<Rightarrow> pbuf_state \<Rightarrow> u32" where
  "load32 a s = ucast (bytes s a) OR push_bit 8 (ucast (bytes s (a + 1)))
     OR push_bit 16 (ucast (bytes s (a + 2))) OR push_bit 24 (ucast (bytes s (a + 3)))"

definition nget :: "nat \<Rightarrow> 'w net \<Rightarrow> netif run" where
  "nget n s = (if n = 0 then stop Null_deref else case netifs s n of None \<Rightarrow> stop Wild_pointer | Some ni \<Rightarrow> ret ni)"

text \<open>Running an operation of the packet buffers on the state.\<close>

definition on_pb :: "(pbuf_state \<Rightarrow> ('a \<times> pbuf_state) run) \<Rightarrow> 'w net \<Rightarrow> ('a \<times> 'w net) run" where
  "on_pb f s = bind_run (f (pb s)) (\<lambda>(r, b). ret (r, s\<lparr>pb := b\<rparr>))"

text \<open>\<open>SMEMCPY(&hdr->field, addr, ETH_HWADDR_LEN)\<close> and stores to fields of headers in memory.\<close>

definition store_bytes :: "nat \<Rightarrow> u8 list \<Rightarrow> 'w net \<Rightarrow> 'w net" where
  "store_bytes a bs s = s\<lparr>pb := write_bytes a bs (pb s)\<rparr>"

end
