(* ===== verification/Ethernet.thy ===== *)
theory Ethernet
  imports Net_State
begin

text \<open>The sending half of \<open>netif/ethernet.c\<close> and the constants of the frames.\<close>

definition ETH_HWADDR_LEN :: nat where "ETH_HWADDR_LEN = 6"
definition SIZEOF_ETH_HDR :: nat where "SIZEOF_ETH_HDR = 14"
definition ETHTYPE_IP :: u16 where "ETHTYPE_IP = 0x0800"
definition ETHTYPE_ARP :: u16 where "ETHTYPE_ARP = 0x0806"
definition ETHTYPE_IPV6 :: u16 where "ETHTYPE_IPV6 = 0x86DD"
definition ethbroadcast :: "u8 list" where "ethbroadcast = [0xff, 0xff, 0xff, 0xff, 0xff, 0xff]"
definition ethzero :: "u8 list" where "ethzero = [0, 0, 0, 0, 0, 0]"

definition ethernet_output ::
  "'w net_calls \<Rightarrow> nat \<Rightarrow> nat \<Rightarrow> u8 list \<Rightarrow> u8 list \<Rightarrow> u16 \<Rightarrow> 'w net \<Rightarrow> (err_t \<times> 'w net) run" where
  "ethernet_output nc netif p src dst eth_type s =
     (let eth_type_be = lwip_htons eth_type in
      bind_run (on_pb (pbuf_add_header p SIZEOF_ETH_HDR) s) (\<lambda>(r, s).
        if r \<noteq> 0 then ret (ERR_BUF, s)
        else bind_run (pget p (pb s)) (\<lambda>b.
          let ethhdr = pb_payload b;
              s = store_bytes (ethhdr + 12) (mem16 eth_type_be) s;
              s = store_bytes ethhdr (take ETH_HWADDR_LEN dst) s;
              s = store_bytes (ethhdr + 6) (take ETH_HWADDR_LEN src) s
          in bind_run (nget netif s) (\<lambda>ni.
               lwip_assert ''netif->hwaddr_len must be 6 for ethernet_output!'' (unat (hwaddr_len ni) = ETH_HWADDR_LEN)
                (linkoutput nc netif p s)))))"

end
