(* ===== verification/Etharp_Out.thy ===== *)
theory Etharp_Out
  imports Ethernet
begin

text \<open>The end of \<open>core/ipv4/etharp.c\<close>: building and sending ARP messages.\<close>

definition SIZEOF_ETHARP_HDR :: nat where "SIZEOF_ETHARP_HDR = 28"
definition ARP_REQUEST :: u16 where "ARP_REQUEST = 1"
definition ARP_REPLY :: u16 where "ARP_REPLY = 2"

definition etharp_raw ::
  "'w net_calls \<Rightarrow> nat \<Rightarrow> u8 list \<Rightarrow> u8 list \<Rightarrow> u8 list \<Rightarrow> u32 \<Rightarrow> u8 list \<Rightarrow> u32 \<Rightarrow> u16 \<Rightarrow> 'w net \<Rightarrow> (err_t \<times> 'w net) run" where
  "etharp_raw nc netif ethsrc_addr ethdst_addr hwsrc_addr ipsrc_addr hwdst_addr ipdst_addr opcode s =
     lwip_assert ''netif != NULL'' (netif \<noteq> 0)
      (bind_run (on_pb (pbuf_alloc PBUF_LINK SIZEOF_ETHARP_HDR PBUF_RAM) s) (\<lambda>(p, s).
        if p = 0 then ret (ERR_MEM, s)
        else bind_run (pget p (pb s)) (\<lambda>b.
          lwip_assert ''check that first pbuf can hold struct etharp_hdr'' (pb_len b \<ge> SIZEOF_ETHARP_HDR)
           (let hdr = pb_payload b;
                s = store_bytes (hdr + 6) (mem16 (lwip_htons opcode)) s
            in bind_run (nget netif s) (\<lambda>ni.
               lwip_assert ''netif->hwaddr_len must be the same as ETH_HWADDR_LEN for etharp!'' (unat (hwaddr_len ni) = ETH_HWADDR_LEN)
                (let s = store_bytes (hdr + 8) (take ETH_HWADDR_LEN hwsrc_addr) s;
                     s = store_bytes (hdr + 18) (take ETH_HWADDR_LEN hwdst_addr) s;
                     s = store_bytes (hdr + 14) (memory_bytes ipsrc_addr) s;
                     s = store_bytes (hdr + 24) (memory_bytes ipdst_addr) s;
                     s = store_bytes hdr (mem16 (PP_HTONS 1)) s;
                     s = store_bytes (hdr + 2) (mem16 (PP_HTONS ETHTYPE_IP)) s;
                     s = store_bytes (hdr + 4) [6] s;
                     s = store_bytes (hdr + 5) [4] s
                 in bind_run (ethernet_output nc netif p ethsrc_addr
                        (if ip4_addr_islinklocal ipsrc_addr then ethbroadcast else ethdst_addr) ETHTYPE_ARP s) (\<lambda>(_, s).
                    bind_run (on_pb (pbuf_free p) s) (\<lambda>(_, s). ret (ERR_OK, s)))))))))"

definition etharp_request_dst :: "'w net_calls \<Rightarrow> nat \<Rightarrow> u32 \<Rightarrow> u8 list \<Rightarrow> 'w net \<Rightarrow> (err_t \<times> 'w net) run" where
  "etharp_request_dst nc netif ipaddr hw_dst_addr s =
     bind_run (nget netif s) (\<lambda>ni.
       etharp_raw nc netif (hwaddr ni) hw_dst_addr (hwaddr ni) (ip_addr ni) ethzero ipaddr ARP_REQUEST s)"

definition etharp_request :: "'w net_calls \<Rightarrow> nat \<Rightarrow> u32 \<Rightarrow> 'w net \<Rightarrow> (err_t \<times> 'w net) run" where
  "etharp_request nc netif ipaddr s = etharp_request_dst nc netif ipaddr ethbroadcast s"

text \<open>The macro of \<open>include/lwip/etharp.h\<close>: a request for the own address.\<close>

definition etharp_gratuitous :: "'w net_calls \<Rightarrow> nat \<Rightarrow> 'w net \<Rightarrow> (err_t \<times> 'w net) run" where
  "etharp_gratuitous nc netif s = bind_run (nget netif s) (\<lambda>ni. etharp_request nc netif (ip_addr ni) s)"

end
