(* ===== verification/Etharp_Send.thy ===== *)
theory Etharp_Send
  imports Etharp_Out
begin

text \<open>
  What leaves through a driver. A driver is described by \<open>transmit\<close>: what it does to the outside world
  depends on the interface and the bytes of the packet it is given, and it leaves the stack alone.
  The lemmas show which frames \<open>ethernet_output\<close> and \<open>etharp_raw\<close> hand to the driver and what they
  leave behind in the memory of packet buffers.
\<close>

definition driver :: "'w net_calls \<Rightarrow> (nat \<Rightarrow> u8 list \<Rightarrow> 'w \<Rightarrow> err_t \<times> 'w) \<Rightarrow> bool" where
  "driver nc transmit \<longleftrightarrow> (\<forall>n p xs s. packet (pb s) p xs \<longrightarrow>
     linkoutput nc n p s = ret (fst (transmit n (chain_data (pb s) xs) (world s)),
       s\<lparr>world := snd (transmit n (chain_data (pb s) xs) (world s))\<rparr>))"

text \<open>An Ethernet frame, and the ARP message of RFC 826 for Ethernet and IPv4.\<close>

definition be16_bytes :: "u16 \<Rightarrow> u8 list" where
  "be16_bytes v = [ucast (drop_bit 8 v), ucast v]"

definition frame :: "u8 list \<Rightarrow> u8 list \<Rightarrow> u16 \<Rightarrow> u8 list \<Rightarrow> u8 list" where
  "frame dst src eth_type payload = take 6 dst @ take 6 src @ be16_bytes eth_type @ payload"

definition arp_message :: "u16 \<Rightarrow> u8 list \<Rightarrow> u32 \<Rightarrow> u8 list \<Rightarrow> u32 \<Rightarrow> u8 list" where
  "arp_message opcode hwsrc ipsrc hwdst ipdst =
     [0, 1, 8, 0, 6, 4] @ be16_bytes opcode @ take 6 hwsrc @ memory_bytes ipsrc @ take 6 hwdst @ memory_bytes ipdst"

text \<open>What sending the packet \<open>p\<close> may change: the lengths and the payload of its first struct, bytes, the world.\<close>

definition sent :: "nat \<Rightarrow> 'w net \<Rightarrow> 'w net \<Rightarrow> bool" where
  "sent p s s' \<longleftrightarrow> (\<exists>b a l t bts w. pbufs (pb s) p = Some b
     \<and> s' = s\<lparr>pb := (pb s)\<lparr>pbufs := (pbufs (pb s))(p \<mapsto> b\<lparr>pb_payload := a, pb_len := l, pb_tot_len := t\<rparr>), bytes := bts\<rparr>, world := w\<rparr>)"

definition ether_netif :: "'w net \<Rightarrow> nat \<Rightarrow> netif \<Rightarrow> bool" where
  "ether_netif s n ni \<longleftrightarrow> n \<noteq> 0 \<and> netifs s n = Some ni \<and> unat (hwaddr_len ni) = ETH_HWADDR_LEN \<and> length (hwaddr ni) = ETH_HWADDR_LEN"

text \<open>What a message of our own leaves behind: everything as before but the bytes of free memory and the world.\<close>

definition restored :: "'w net \<Rightarrow> 'w net \<Rightarrow> bool" where
  "restored s s' \<longleftrightarrow> pbuf_inv (pb s') \<and> pbufs (pb s') = pbufs (pb s) \<and> ram (pheap (pb s')) = ram (pheap (pb s))
     \<and> arp_table s' = arp_table s \<and> etharp_cached_entry s' = etharp_cached_entry s
     \<and> netifs s' = netifs s \<and> netif_list s' = netif_list s \<and> netif_default s' = netif_default s \<and> next_netif_num s' = next_netif_num s
     \<and> autoips s' = autoips s"

lemma restored_refl: "pbuf_inv (pb s) \<Longrightarrow> restored s s"
  by (simp add: restored_def)

lemma restored_trans: "restored s t \<Longrightarrow> restored t u \<Longrightarrow> restored s u"
  by (simp add: restored_def)

subsection \<open>Bytes\<close>

lemma mem16_htons: "mem16 (lwip_htons v) = be16_bytes v"
  unfolding mem16_def be16_bytes_def lwip_htons_def PP_HTONS_def byte_masks_u16
  by (auto simp: bit_eq_iff bit_simps)

lemma length_be16_bytes [simp]: "length (be16_bytes v) = 2"
  by (simp add: be16_bytes_def)

lemma length_memory_bytes [simp]: "length (memory_bytes a) = 4"
  by (simp add: memory_bytes_def)

lemma store_bytes_simps [simp]:
  "pbufs (pb (store_bytes a bs s)) = pbufs (pb s)" "arp_table (store_bytes a bs s) = arp_table s"
  "netifs (store_bytes a bs s) = netifs s" "world (store_bytes a bs s) = world s"
  "read_bytes c n (pb (store_bytes a bs s)) = read_bytes c n (write_bytes a bs (pb s))"
  by (simp_all add: store_bytes_def)

lemma store_bytes_eq: "\<exists>bts. store_bytes a bs s = s\<lparr>pb := (pb s)\<lparr>bytes := bts\<rparr>\<rparr>"
  by (auto simp: store_bytes_def write_bytes_def)

lemma read_frame:
  assumes "length dst = 6" "length src = 6"
  shows "read_bytes d 14 (write_bytes (d + 6) src (write_bytes d dst (write_bytes (d + 12) (be16_bytes ty) s)))
     = dst @ src @ be16_bytes ty"
proof -
  have "read_bytes d 14 t = read_bytes d 6 t @ read_bytes (d + 6) 6 t @ read_bytes (d + 12) 2 t" for t
    using read_bytes_append [of d 6 8 t] read_bytes_append [of "d + 6" 6 2 t] by (simp add: add.assoc)
  then show ?thesis using assms by (simp add: read_write_bytes_same read_write_bytes_other)
qed

subsection \<open>Sending a packet\<close>

lemma packet_resize:
  assumes c: "packet s p (p # xs)" and b: "pbufs s p = Some b" and n: "n + chain_len s (p # xs) < 2 ^ 16"
  shows "packet (pset p (b\<lparr>pb_payload := a, pb_len := pb_len b + n, pb_tot_len := pb_tot_len b + n\<rparr>) s) p (p # xs)"
proof -
  let ?s = "pset p (b\<lparr>pb_payload := a, pb_len := pb_len b + n, pb_tot_len := pb_tot_len b + n\<rparr>) s"
  have "chain s p (p # xs)" using c by (simp add: packet_def)
  then have "p \<notin> set xs" using chain_distinct by fastforce
  then have fr: "pbufs ?s x = pbufs s x" if "x \<in> set xs" for x using that by (cases "x = p") auto
  then have "chain_len ?s xs = chain_len s xs" by (simp add: chain_len_def part_len_def cong: map_cong)
  moreover have "chain ?s q xs = chain s q xs" for q by (rule chain_frame) (rule fr)
  ultimately show ?thesis using c b n by (simp add: packet_def part_len_def)
qed

lemma add_header_total:
  assumes c: "packet s p (p # xs)" and b: "pbufs s p = Some b" and n: "0 < n" "n < 2 ^ 16"
  obtains r where "pbuf_add_header p n s = ret (r, s)" "r \<noteq> 0"
    | a where "pbuf_add_header p n s = ret (0, pset p (b\<lparr>pb_payload := a, pb_len := pb_len b + n, pb_tot_len := pb_tot_len b + n\<rparr>) s)"
      "n + chain_len s (p # xs) < 2 ^ 16"
proof -
  have pb: "p \<noteq> 0" "pb_tot_len b = chain_len s (p # xs)" "pb_len b \<le> pb_tot_len b" "pb_tot_len b < 2 ^ 16"
    using c b by (auto simp: packet_def part_len_def)
  have "n + pb_tot_len b < 2 ^ 16" if "\<not> U16 (n + pb_tot_len b) < n"
  proof (rule ccontr)
    assume "\<not> n + pb_tot_len b < 2 ^ 16"
    moreover from this have "(n + pb_tot_len b) mod 2 ^ 16 = n + pb_tot_len b - 2 ^ 16"
      using n(2) pb(4) by (simp add: le_mod_geq)
    ultimately show False using that pb(4) n by (simp add: U16_def)
  qed
  note total = this
  let ?a = "size_t_minus (pb_payload b) n"
  let ?s = "pset p (b\<lparr>pb_payload := ?a, pb_len := pb_len b + n, pb_tot_len := pb_tot_len b + n\<rparr>) s"
  have u: "U16 n = n" "\<not> n > 0xFFFF" "pget p s = ret b" using n pb(1) b by (simp_all add: pget_def)
  show thesis
  proof (cases "U16 (n + pb_tot_len b) < n")
    case True
    then have "pbuf_add_header p n s = ret (1, s)"
      using pb(1) n(1) u by (simp add: pbuf_add_header_def pbuf_add_header_impl_def Let_def)
    then show thesis by (rule that(1)) simp
  next
    case False
    then have w: "U16 (pb_len b + n) = pb_len b + n" "U16 (pb_tot_len b + n) = pb_tot_len b + n"
      using total [OF False] pb(3) by simp_all
    have run: "pbuf_add_header p n s = (if pb_type_internal b AND PBUF_TYPE_FLAG_STRUCT_DATA_CONTIGUOUS \<noteq> 0 then
                  if ?a < p + SIZEOF_STRUCT_PBUF then ret (1, s) else ret (0, ?s) else ret (1, s))"
      using pb(1) n(1) u False w by (simp add: pbuf_add_header_def pbuf_add_header_impl_def Let_def)
    have "pbuf_add_header p n s = ret (1, s) \<or> pbuf_add_header p n s = ret (0, ?s)" unfolding run by simp
    then consider "pbuf_add_header p n s = ret (1, s)" | "pbuf_add_header p n s = ret (0, ?s)" by blast
    then show thesis
    proof cases
      case 1
      then show thesis by (rule that(1)) simp
    next
      case 2
      then show thesis by (rule that(2)) (use total [OF False] pb(2) in simp)
    qed
  qed
qed

lemma sent_refl: "pbufs (pb s) p = Some b \<Longrightarrow> sent p s s"
  unfolding sent_def
  by (rule exI [of _ b], rule exI [of _ "pb_payload b"], rule exI [of _ "pb_len b"], rule exI [of _ "pb_tot_len b"],
      rule exI [of _ "bytes (pb s)"], rule exI [of _ "world s"]) (simp add: map_upd_triv)

text \<open>The second half of \<open>ethernet_output\<close>, when there was room for the header.\<close>

lemma ethernet_output_room:
  fixes s :: "'w net" and w :: 'w and ty :: u16
  assumes drv: "driver nc transmit" and c: "packet (pb s) p (p # xs)" and b: "pbufs (pb s) p = Some b" and ni: "ether_netif s n ni"
    and len: "length dst = 6" "length src = 6"
    and ah: "pbuf_add_header p 14 (pb s) = ret (0, pset p (b\<lparr>pb_payload := d, pb_len := pb_len b + 14, pb_tot_len := pb_tot_len b + 14\<rparr>) (pb s))"
    and fits: "14 + chain_len (pb s) (p # xs) < 2 ^ 16"
  defines "b' \<equiv> b\<lparr>pb_payload := d, pb_len := pb_len b + 14, pb_tot_len := pb_tot_len b + 14\<rparr>"
  defines "s1 \<equiv> s\<lparr>pb := write_bytes (d + 6) src (write_bytes d dst (write_bytes (d + 12) (be16_bytes ty) (pset p b' (pb s))))\<rparr>"
  shows "packet (pb s1) p (p # xs)"
    and "ethernet_output nc n p src dst ty s =
      ret (fst (transmit n (chain_data (pb s1) (p # xs)) (world s)), s1\<lparr>world := snd (transmit n (chain_data (pb s1) (p # xs)) (world s))\<rparr>)"
    and "sent p s (s1\<lparr>world := w\<rparr>)"
proof -
  have pk: "packet (pset p b' (pb s)) p (p # xs)" unfolding b'_def by (rule packet_resize [OF c b fits])
  have pbs: "pbufs (pb s1) = pbufs (pset p b' (pb s))" by (simp add: s1_def)
  show pk1: "packet (pb s1) p (p # xs)" using pk packet_same [OF pbs] by blast
  have p0: "p \<noteq> 0" using c by (simp add: packet_def)
  have "pget p (pset p b' (pb s)) = ret b'" using p0 by (simp add: pget_ret_iff)
  moreover have "nget n s1 = ret ni" "unat (hwaddr_len ni) = ETH_HWADDR_LEN" using ni by (simp_all add: nget_def s1_def ether_netif_def)
  moreover have "take 6 dst = dst" "take 6 src = src" using len by simp_all
  moreover have "s1 = store_bytes (d + 6) src (store_bytes d dst (store_bytes (d + 12) (be16_bytes ty) (s\<lparr>pb := pset p b' (pb s)\<rparr>)))"
    by (simp add: s1_def store_bytes_def)
  moreover have "linkoutput nc n p s1 = ret (fst (transmit n (chain_data (pb s1) (p # xs)) (world s1)),
      s1\<lparr>world := snd (transmit n (chain_data (pb s1) (p # xs)) (world s1))\<rparr>)"
    using drv pk1 unfolding driver_def by blast
  moreover have "world s1 = world s" "pb_payload b' = d" by (simp_all add: s1_def b'_def)
  ultimately show "ethernet_output nc n p src dst ty s =
      ret (fst (transmit n (chain_data (pb s1) (p # xs)) (world s)), s1\<lparr>world := snd (transmit n (chain_data (pb s1) (p # xs)) (world s))\<rparr>)"
    using ah by (simp add: ethernet_output_def on_pb_def SIZEOF_ETH_HDR_def ETH_HWADDR_LEN_def Let_def mem16_htons b'_def [symmetric])
  show "sent p s (s1\<lparr>world := w\<rparr>)"
    unfolding sent_def
    by (rule exI [of _ b], rule exI [of _ d], rule exI [of _ "pb_len b + 14"], rule exI [of _ "pb_tot_len b + 14"],
        rule exI [of _ "bytes (pb s1)"], rule exI [of _ w]) (simp add: b s1_def b'_def write_bytes_def pset_def)
qed

lemma ethernet_output_sent:
  assumes drv: "driver nc transmit" and c: "packet (pb s) p xs" and ni: "ether_netif s n ni" and len: "length dst = 6" "length src = 6"
  shows "\<exists>e s'. ethernet_output nc n p src dst ty s = ret (e, s') \<and> sent p s s' \<and> packet (pb s') p xs"
proof -
  obtain ys where xs: "xs = p # ys" using c by (cases xs) (auto simp: packet_def)
  obtain b where b: "pbufs (pb s) p = Some b" using c xs by (auto simp: packet_def split: option.splits)
  from c xs have c': "packet (pb s) p (p # ys)" by simp
  have "0 < (14 :: nat)" "(14 :: nat) < 2 ^ 16" by simp_all
  from add_header_total [OF c' b this] show ?thesis
  proof cases
    case (1 r)
    then show ?thesis using c sent_refl [OF b] by (simp add: ethernet_output_def on_pb_def SIZEOF_ETH_HDR_def)
  next
    case (2 a)
    note r = ethernet_output_room [OF drv c' b ni len 2]
    show ?thesis using r(1-3) xs by auto
  qed
qed

text \<open>What sending keeps.\<close>

lemma sentD:
  assumes "sent p s s'"
  shows "arp_table s' = arp_table s" "etharp_cached_entry s' = etharp_cached_entry s" "links s' = links s"
    and "pbuf_inv (pb s) \<Longrightarrow> pbuf_inv (pb s')" and "linked (pb s') q xs = linked (pb s) q xs" and "ref_of (pb s') x = ref_of (pb s) x"
    and "x \<noteq> p \<Longrightarrow> pbufs (pb s') x = pbufs (pb s) x"
    and "ram (pheap (pb s')) = ram (pheap (pb s))"
proof -
  obtain b a l t bts w where b: "pbufs (pb s) p = Some b"
    and s': "s' = s\<lparr>pb := (pb s)\<lparr>pbufs := (pbufs (pb s))(p \<mapsto> b\<lparr>pb_payload := a, pb_len := l, pb_tot_len := t\<rparr>), bytes := bts\<rparr>, world := w\<rparr>"
    using assms by (auto simp: sent_def)
  let ?b = "b\<lparr>pb_payload := a, pb_len := l, pb_tot_len := t\<rparr>"
  have e: "pb s' = (pset p ?b (pb s))\<lparr>bytes := bts\<rparr>" by (simp add: s' pset_def)
  show "arp_table s' = arp_table s" "etharp_cached_entry s' = etharp_cached_entry s" "links s' = links s" by (simp_all add: s')
  show "pbuf_inv (pb s')" if "pbuf_inv (pb s)" unfolding e pbuf_inv_bytes by (rule pbuf_inv_pset [OF that b]) simp_all
  show "linked (pb s') q xs = linked (pb s) q xs" using b by (induction xs arbitrary: q) (auto simp: e split: option.splits)
  show "ref_of (pb s') x = ref_of (pb s) x" using b by (simp add: e ref_of_def)
  show "x \<noteq> p \<Longrightarrow> pbufs (pb s') x = pbufs (pb s) x" by (simp add: e)
  show "ram (pheap (pb s')) = ram (pheap (pb s))" by (simp add: s')
qed

subsection \<open>ARP messages\<close>

lemma read_arp_message:
  assumes "length hwsrc = 6" "length hwdst = 6"
  shows "read_bytes a 28 (write_bytes (a + 5) [4] (write_bytes (a + 4) [6] (write_bytes (a + 2) (be16_bytes ETHTYPE_IP)
      (write_bytes a (be16_bytes 1) (write_bytes (a + 24) (memory_bytes ipdst) (write_bytes (a + 14) (memory_bytes ipsrc)
      (write_bytes (a + 18) hwdst (write_bytes (a + 8) hwsrc (write_bytes (a + 6) (be16_bytes opcode) s)))))))))
    = arp_message opcode hwsrc ipsrc hwdst ipdst"
proof -
  have "read_bytes a 28 t = read_bytes a 2 t @ read_bytes (a + 2) 2 t @ read_bytes (a + 4) 1 t @ read_bytes (a + 5) 1 t
      @ read_bytes (a + 6) 2 t @ read_bytes (a + 8) 6 t @ read_bytes (a + 14) 4 t @ read_bytes (a + 18) 6 t @ read_bytes (a + 24) 4 t" for t
    using read_bytes_append [of a 2 26 t] read_bytes_append [of "a + 2" 2 24 t] read_bytes_append [of "a + 4" 1 23 t]
      read_bytes_append [of "a + 5" 1 22 t] read_bytes_append [of "a + 6" 2 20 t] read_bytes_append [of "a + 8" 6 14 t]
      read_bytes_append [of "a + 14" 4 10 t] read_bytes_append [of "a + 18" 6 4 t]
    by (simp add: add.assoc del: add_2_eq_Suc' One_nat_def)
  then show ?thesis
    using assms by (simp add: read_write_bytes_same read_write_bytes_other)
      (simp add: arp_message_def be16_bytes_def ETHTYPE_IP_def)
qed

lemma used_block_end: "heap_inv h \<Longrightarrow> (x, e) \<in> used_blocks h \<Longrightarrow> e \<le> MEM_SIZE_ALIGNED"
  using segment_bounds [of h 0 0 "heap_blocks h" MEM_SIZE_ALIGNED x]
  by (auto simp: used_blocks_def heap_inv_iff heap_wf_def)

text \<open>The fresh buffer goes through the driver and back to the heap.\<close>

lemma send_own_buffer:
  assumes drv: "driver nc transmit" and ni: "ether_netif s n ni" and len: "length dst = 6" "length src = 6"
    and inv: "pbuf_inv (pb s)" and b: "pbufs (pb s) p = Some (new_pbuf a k k PBUF_RAM)" and k: "14 + k < 2 ^ 16" "p + 30 \<le> a"
  shows "\<exists>e s1 s'. ethernet_output nc n p src dst ty s = ret (e, s1) \<and> on_pb (pbuf_free p) s1 = ret (1, s')
    \<and> restored (s\<lparr>pb := (pb s)\<lparr>pbufs := (pbufs (pb s))(p := None)\<rparr>\<rparr>) s'
    \<and> (a < 2 ^ 32 \<longrightarrow> world s' = snd (transmit n (frame dst src ty (read_bytes a k (pb s))) (world s)))"
proof -
  let ?b = "new_pbuf a k k PBUF_RAM"
  have p0: "p \<noteq> 0" using inv b by (auto simp: pbuf_inv_def)
  note bs = new_pbuf_def [of a k k PBUF_RAM]
  note pk = single_packet [OF b p0, unfolded bs, simplified]
  have c: "packet (pb s) p [p]" using pk(1) k by simp
  obtain e s1 where s1: "ethernet_output nc n p src dst ty s = ret (e, s1)" "sent p s s1"
    using ethernet_output_sent [OF drv c ni len] by blast
  have l0: "linked (pb s) p [p]" "ref_of (pb s) p = 1" using p0 b by (simp_all add: ref_of_def new_pbuf_def)
  have l: "linked (pb s1) p [p]" "ref_of (pb s1) p = 1" "pbuf_inv (pb s1)"
    using sentD(4) [OF s1(2) inv] l0 unfolding sentD(5,6) [OF s1(2)] by auto
  obtain m t where t: "pbuf_free p (pb s1) = ret (m, t)" "pbuf_inv t" "pbufs t = (\<lambda>x. if x \<in> set [p] then None else pbufs (pb s1) x)"
    "ram (pheap t) = ram (pheap (pb s1))"
    using free_all_ok [OF l(3,1)] l(2) by auto
  have m: "m = 1"
    using free_loop_linked [of 0, OF _ l(3,1)] l(2) t(1) p0 by (auto simp: pbuf_free_def U8_def)
  have fr: "pbufs t = (pbufs (pb s))(p := None)" unfolding t(3) using sentD(7) [OF s1(2)] by auto
  let ?s' = "s1\<lparr>pb := t\<rparr>"
  have res: "restored (s\<lparr>pb := (pb s)\<lparr>pbufs := (pbufs (pb s))(p := None)\<rparr>\<rparr>) ?s'"
    using t(2,4) fr sentD(1-3,8) [OF s1(2)] by (simp add: restored_def)
  have w: "world s1 = snd (transmit n (frame dst src ty (read_bytes a k (pb s))) (world s))" if a: "a < 2 ^ 32"
  proof -
    have "pbuf_add_header p 14 (pb s) = ret (0, pset p (?b\<lparr>pb_payload := a - 14, pb_len := pb_len ?b + 14, pb_tot_len := pb_tot_len ?b + 14\<rparr>) (pb s))"
      using add_header_ok [OF c b, of 14] k a pk(3)
      by (simp add: new_pbuf_def SIZEOF_STRUCT_PBUF_def PBUF_TYPE_FLAG_STRUCT_DATA_CONTIGUOUS_def)
    note r = ethernet_output_room [OF drv c b ni len this]
    let ?t = "write_bytes (a - 14 + 6) src (write_bytes (a - 14) dst (write_bytes (a - 14 + 12) (be16_bytes ty)
      (pset p (?b\<lparr>pb_payload := a - 14, pb_len := pb_len ?b + 14, pb_tot_len := pb_tot_len ?b + 14\<rparr>) (pb s))))"
    have "pbufs ?t p = Some (?b\<lparr>pb_payload := a - 14, pb_len := pb_len ?b + 14, pb_tot_len := pb_tot_len ?b + 14\<rparr>)" by simp
    from single_packet(4) [OF this p0] k(1)
    have "chain_data ?t [p] = read_bytes (a - 14) (14 + k) ?t" by (simp add: new_pbuf_def add.commute)
    also have "\<dots> = read_bytes (a - 14) 14 ?t @ read_bytes a k ?t" using k(2) by (simp add: read_bytes_append)
    also have "read_bytes (a - 14) 14 ?t = dst @ src @ be16_bytes ty" by (rule read_frame [OF len])
    also have "read_bytes a k ?t = read_bytes a k (pb s)"
    proof -
      have "a = (a - 14) + 14" using k(2) by simp
      then obtain d where "a = d + 14" ..
      then show ?thesis using len by (simp add: read_write_bytes_other read_bytes_pset)
    qed
    finally have "chain_data ?t [p] = frame dst src ty (read_bytes a k (pb s))" using len by (simp add: frame_def)
    with r(2) [of ty] s1(1) k(1) pk(3) show ?thesis by simp
  qed
  show ?thesis using s1(1) t(1) m res w by (auto simp: on_pb_def)
qed

lemma PP_HTONS_lwip: "PP_HTONS v = lwip_htons v"
  by (simp add: lwip_htons_def)

lemma etharp_raw_ok:
  assumes drv: "driver nc transmit" and inv: "pbuf_inv (pb s)" and ni: "ether_netif s n ni"
    and len: "length ethsrc = 6" "length ethdst = 6" "length hwsrc = 6" "length hwdst = 6"
  shows "\<exists>r s'. etharp_raw nc n ethsrc ethdst hwsrc ipsrc hwdst ipdst opcode s = ret (r, s') \<and> restored s s'
    \<and> (r = ERR_MEM \<and> world s' = world s
       \<or> r = ERR_OK \<and> (ram (pheap (pb s)) + MEM_SIZE_ALIGNED \<le> 2 ^ 32 \<longrightarrow>
           world s' = snd (transmit n (frame (if ip4_addr_islinklocal ipsrc then ethbroadcast else ethdst) ethsrc ETHTYPE_ARP
             (arp_message opcode hwsrc ipsrc hwdst ipdst)) (world s))))"
proof -
  have n: "n \<noteq> 0" "netifs s n = Some ni" "unat (hwaddr_len ni) = ETH_HWADDR_LEN" using ni by (simp_all add: ether_netif_def)
  obtain p t where t: "pbuf_alloc PBUF_LINK 28 PBUF_RAM (pb s) = ret (p, t)" "pbuf_inv t"
    "ram (pheap t) = ram (pheap (pb s))"
    "if p = 0 then pbufs t = pbufs (pb s)
       else \<exists>payload e. pbufs (pb s) p = None \<and> pbufs t = (pbufs (pb s))(p \<mapsto> new_pbuf payload 28 28 PBUF_RAM)
         \<and> p + SIZEOF_STRUCT_PBUF + layer_offset PBUF_LINK \<le> payload \<and> payload mod 4 = 0
         \<and> (p - SIZEOF_STRUCT_MEM - ram (pheap (pb s)), e) \<in> used_blocks (pheap t) \<and> payload + 28 \<le> ram (pheap (pb s)) + e"
    using alloc_ram_ok [OF inv, of 28 PBUF_LINK] by auto
  let ?raw = "etharp_raw nc n ethsrc ethdst hwsrc ipsrc hwdst ipdst opcode s"
  show ?thesis
  proof (cases "p = 0")
    case True
    then have "?raw = ret (ERR_MEM, s\<lparr>pb := t\<rparr>)" using t(1) n(1) by (simp add: etharp_raw_def on_pb_def SIZEOF_ETHARP_HDR_def)
    then show ?thesis using True t(2-4) by (auto simp: restored_def)
  next
    case False
    then obtain a e where a: "pbufs (pb s) p = None" "pbufs t = (pbufs (pb s))(p \<mapsto> new_pbuf a 28 28 PBUF_RAM)" "p + 30 \<le> a"
      "(p - SIZEOF_STRUCT_MEM - ram (pheap (pb s)), e) \<in> used_blocks (pheap t)" "a + 28 \<le> ram (pheap (pb s)) + e"
      using t(4) by (auto simp: SIZEOF_STRUCT_PBUF_def)
    have lim: "a < 2 ^ 32" if "ram (pheap (pb s)) + MEM_SIZE_ALIGNED \<le> 2 ^ 32"
      using used_block_end [OF _ a(4)] a(5) t(2) that by (simp add: pbuf_inv_def)
    let ?dst = "if ip4_addr_islinklocal ipsrc then ethbroadcast else ethdst"
    let ?t = "write_bytes (a + 5) [4] (write_bytes (a + 4) [6] (write_bytes (a + 2) (be16_bytes ETHTYPE_IP)
      (write_bytes a (be16_bytes 1) (write_bytes (a + 24) (memory_bytes ipdst) (write_bytes (a + 14) (memory_bytes ipsrc)
      (write_bytes (a + 18) hwdst (write_bytes (a + 8) hwsrc (write_bytes (a + 6) (be16_bytes opcode) t))))))))"
    let ?s = "s\<lparr>pb := ?t\<rparr>"
    have dl: "length ?dst = 6" using len by (simp add: ethbroadcast_def)
    have "pbuf_inv (pb ?s)" using t(2) by (simp add: write_bytes_def)
    moreover have "pbufs (pb ?s) p = Some (new_pbuf a 28 28 PBUF_RAM)" using a(2) by simp
    moreover have "ether_netif ?s n ni" using ni by (simp add: ether_netif_def)
    ultimately obtain e s1 s' where s1: "ethernet_output nc n p ethsrc ?dst ETHTYPE_ARP ?s = ret (e, s1)" "on_pb (pbuf_free p) s1 = ret (1, s')"
      "restored (?s\<lparr>pb := (pb ?s)\<lparr>pbufs := (pbufs (pb ?s))(p := None)\<rparr>\<rparr>) s'"
      "a < 2 ^ 32 \<longrightarrow> world s' = snd (transmit n (frame ?dst ethsrc ETHTYPE_ARP (read_bytes a 28 (pb ?s))) (world ?s))"
      using send_own_buffer [OF drv, of ?s n ni ?dst ethsrc p a 28 ETHTYPE_ARP] dl len(1) a(3) by auto
    have "?raw = ret (ERR_OK, s')"
      using False t(1) a(2) n s1(1,2) len
      by (simp add: etharp_raw_def on_pb_def [of "pbuf_alloc PBUF_LINK _ _"] SIZEOF_ETHARP_HDR_def pget_def new_pbuf_def Let_def nget_def
          store_bytes_def PP_HTONS_lwip mem16_htons ETH_HWADDR_LEN_def)
    moreover have "restored s s'" using s1(3) a(1,2) t(3) by (simp add: restored_def fun_upd_idem write_bytes_def)
    moreover have "world s' = snd (transmit n (frame ?dst ethsrc ETHTYPE_ARP (arp_message opcode hwsrc ipsrc hwdst ipdst)) (world s))"
      if "ram (pheap (pb s)) + MEM_SIZE_ALIGNED \<le> 2 ^ 32"
      using s1(4) lim [OF that] read_arp_message [OF len(3,4), of a ipdst ipsrc opcode t] by simp
    ultimately show ?thesis by blast
  qed
qed

lemma etharp_request_ok:
  assumes "driver nc transmit" "pbuf_inv (pb s)" "ether_netif s n ni" "length dst = 6"
  shows "\<exists>r s'. etharp_request_dst nc n ipaddr dst s = ret (r, s') \<and> restored s s'"
  using etharp_raw_ok [OF assms(1-3), of "hwaddr ni" dst "hwaddr ni" ethzero "ip_addr ni" ipaddr ARP_REQUEST] assms(3,4)
  by (auto simp: etharp_request_dst_def nget_def ether_netif_def ETH_HWADDR_LEN_def ethzero_def)

end
