(* ===== verification/Netif.thy ===== *)
theory Netif
  imports Etharp_Send "HOL-Library.Sublist"
begin

text \<open>
  The addresses of network interfaces, \<open>core/netif.c\<close>: changing the address, the net mask and the gateway
  of an interface, telling the layers above, and announcing a new address on the link. Callbacks on
  status and link changes, statistics and the loop interface are compiled out. Arguments that may be
  \<open>NULL\<close> (which stands for the address 0.0.0.0) are options.
\<close>

definition NETIF_REPORT_TYPE_IPV4 :: u8 where "NETIF_REPORT_TYPE_IPV4 = 1"
definition NETIF_REPORT_TYPE_IPV6 :: u8 where "NETIF_REPORT_TYPE_IPV6 = 2"

text \<open>Assignments to fields of \<open>*netif\<close>.\<close>

definition nput :: "nat \<Rightarrow> netif \<Rightarrow> 'w net \<Rightarrow> 'w net" where
  "nput n ni s = s\<lparr>netifs := (netifs s)(n \<mapsto> ni)\<rparr>"

definition netif_is_up :: "netif \<Rightarrow> bool" where
  "netif_is_up ni \<longleftrightarrow> netif_flags ni AND NETIF_FLAG_UP \<noteq> 0"

definition netif_is_link_up :: "netif \<Rightarrow> bool" where
  "netif_is_link_up ni \<longleftrightarrow> netif_flags ni AND NETIF_FLAG_LINK_UP \<noteq> 0"

definition netif_do_ip_addr_changed :: "'w net_calls \<Rightarrow> u32 \<Rightarrow> u32 option \<Rightarrow> 'w net \<Rightarrow> 'w net run" where
  "netif_do_ip_addr_changed nc old_addr new_addr s =
     bind_run (tcp_netif_ip_addr_changed nc old_addr new_addr s) (\<lambda>s.
       udp_netif_ip_addr_changed nc old_addr new_addr s)"

definition netif_issue_reports :: "'w net_calls \<Rightarrow> nat \<Rightarrow> u8 \<Rightarrow> 'w net \<Rightarrow> 'w net run" where
  "netif_issue_reports nc netif report_type s =
     lwip_assert ''netif_issue_reports: invalid netif'' (netif \<noteq> 0)
      (bind_run (nget netif s) (\<lambda>ni.
        if \<not> netif_is_link_up ni \<or> \<not> netif_is_up ni then ret s
        else
          bind_run
            (if report_type AND NETIF_REPORT_TYPE_IPV4 \<noteq> 0 \<and> ip_addr ni \<noteq> IPADDR_ANY then
               bind_run
                 (if netif_flags ni AND NETIF_FLAG_ETHARP \<noteq> 0
                  then bind_run (etharp_gratuitous nc netif s) (\<lambda>(_, s). ret s) else ret s) (\<lambda>s.
               bind_run (nget netif s) (\<lambda>ni.
                 if netif_flags ni AND NETIF_FLAG_IGMP \<noteq> 0 then igmp_report_groups nc netif s else ret s))
             else ret s) (\<lambda>s.
          if report_type AND NETIF_REPORT_TYPE_IPV6 \<noteq> 0 then mld6_report_groups nc netif s else ret s)))"

text \<open>The result tells whether the address changed.\<close>

definition netif_do_set_ipaddr :: "'w net_calls \<Rightarrow> nat \<Rightarrow> u32 \<Rightarrow> 'w net \<Rightarrow> (bool \<times> 'w net) run" where
  "netif_do_set_ipaddr nc netif ipaddr s =
     bind_run (nget netif s) (\<lambda>ni.
       if ipaddr \<noteq> ip_addr ni then
         bind_run (netif_do_ip_addr_changed nc (ip_addr ni) (Some ipaddr) s) (\<lambda>s.
         bind_run (nget netif s) (\<lambda>ni.
           let s = nput netif (ni\<lparr>ip_addr := ipaddr\<rparr>) s
           in bind_run (netif_issue_reports nc netif NETIF_REPORT_TYPE_IPV4 s) (\<lambda>s. ret (True, s))))
       else ret (False, s))"

definition netif_do_set_netmask :: "nat \<Rightarrow> u32 \<Rightarrow> 'w net \<Rightarrow> (bool \<times> 'w net) run" where
  "netif_do_set_netmask netif m s =
     bind_run (nget netif s) (\<lambda>ni. if m \<noteq> netmask ni then ret (True, nput netif (ni\<lparr>netmask := m\<rparr>) s) else ret (False, s))"

definition netif_do_set_gw :: "nat \<Rightarrow> u32 \<Rightarrow> 'w net \<Rightarrow> (bool \<times> 'w net) run" where
  "netif_do_set_gw netif g s =
     bind_run (nget netif s) (\<lambda>ni. if g \<noteq> gw ni then ret (True, nput netif (ni\<lparr>gw := g\<rparr>) s) else ret (False, s))"

definition addr_or_any :: "u32 option \<Rightarrow> u32" where
  "addr_or_any a = (case a of None \<Rightarrow> IPADDR_ANY | Some v \<Rightarrow> v)"

lemma addr_or_any_Some [simp]: "addr_or_any (Some a) = a"
  by (simp add: addr_or_any_def)

definition netif_set_ipaddr :: "'w net_calls \<Rightarrow> nat \<Rightarrow> u32 option \<Rightarrow> 'w net \<Rightarrow> 'w net run" where
  "netif_set_ipaddr nc netif ipaddr s =
     lwip_assert ''netif_set_ipaddr: invalid netif'' (netif \<noteq> 0)
      (bind_run (netif_do_set_ipaddr nc netif (addr_or_any ipaddr) s) (\<lambda>(_, s). ret s))"

definition netif_set_netmask :: "nat \<Rightarrow> u32 option \<Rightarrow> 'w net \<Rightarrow> 'w net run" where
  "netif_set_netmask netif m s =
     lwip_assert ''netif_set_netmask: invalid netif'' (netif \<noteq> 0)
      (bind_run (netif_do_set_netmask netif (addr_or_any m) s) (\<lambda>(_, s). ret s))"

definition netif_set_gw :: "nat \<Rightarrow> u32 option \<Rightarrow> 'w net \<Rightarrow> 'w net run" where
  "netif_set_gw netif g s =
     lwip_assert ''netif_set_gw: invalid netif'' (netif \<noteq> 0)
      (bind_run (netif_do_set_gw netif (addr_or_any g) s) (\<lambda>(_, s). ret s))"

text \<open>An address that is removed goes first, a new address is set last.\<close>

definition netif_set_addr :: "'w net_calls \<Rightarrow> nat \<Rightarrow> u32 option \<Rightarrow> u32 option \<Rightarrow> u32 option \<Rightarrow> 'w net \<Rightarrow> 'w net run" where
  "netif_set_addr nc netif ipaddr m g s =
     (let ipaddr = addr_or_any ipaddr;
          m = addr_or_any m;
          g = addr_or_any g;
          remove = (ipaddr = IPADDR_ANY)
      in bind_run (if remove then netif_do_set_ipaddr nc netif ipaddr s else ret (False, s)) (\<lambda>(_, s).
         bind_run (netif_do_set_netmask netif m s) (\<lambda>(_, s).
         bind_run (netif_do_set_gw netif g s) (\<lambda>(_, s).
         bind_run (if \<not> remove then netif_do_set_ipaddr nc netif ipaddr s else ret (False, s)) (\<lambda>(_, s).
         ret s)))))"

subsection \<open>What a change of address does\<close>

text \<open>
  The other layers keep to themselves: what they do when they are told about a change shows in the
  world only. This holds when no connection has to be aborted because of the change.
\<close>

definition keeps_to_itself :: "('w net \<Rightarrow> 'w net run) \<Rightarrow> ('w \<Rightarrow> 'l) \<Rightarrow> bool" where
  "keeps_to_itself f log \<longleftrightarrow> (\<forall>s. \<exists>w. f s = ret (s\<lparr>world := w\<rparr>) \<and> log w = log (world s))"

definition all_keep :: "'w net_calls \<Rightarrow> ('w \<Rightarrow> 'l) \<Rightarrow> bool" where
  "all_keep nc log \<longleftrightarrow> (\<forall>a b. keeps_to_itself (tcp_netif_ip_addr_changed nc a b) log \<and> keeps_to_itself (udp_netif_ip_addr_changed nc a b) log)
     \<and> (\<forall>n. keeps_to_itself (igmp_report_groups nc n) log \<and> keeps_to_itself (mld6_report_groups nc n) log)"

definition calm :: "'w net_calls \<Rightarrow> bool" where
  "calm nc \<longleftrightarrow> all_keep nc (\<lambda>_. ())"

text \<open>
  The setting of the lemmas: there is a driver, and the layers above are calm. In a setting that is
  recorded, a log of the link is part of the world: the driver appends every frame it is given, and the
  layers above send nothing of their own.
\<close>

definition setting :: "'w net_calls \<Rightarrow> bool" where
  "setting nc \<longleftrightarrow> (\<exists>transmit. driver nc transmit) \<and> calm nc"

type_synonym frames = "(nat \<times> u8 list) list"

definition recorded :: "'w net_calls \<Rightarrow> ('w \<Rightarrow> frames) \<Rightarrow> bool" where
  "recorded nc log \<longleftrightarrow> all_keep nc log
     \<and> (\<exists>transmit. driver nc transmit \<and> (\<forall>n bs w. log (snd (transmit n bs w)) = log w @ [(n, bs)]))"

definition request_frame :: "netif \<Rightarrow> u32 \<Rightarrow> u8 list" where
  "request_frame ni a = frame ethbroadcast (hwaddr ni) ETHTYPE_ARP (arp_message ARP_REQUEST (hwaddr ni) (ip_addr ni) ethzero a)"

definition low_heap :: "'w net \<Rightarrow> bool" where
  "low_heap s \<longleftrightarrow> ram (pheap (pb s)) + MEM_SIZE_ALIGNED \<le> 2 ^ 32"

text \<open>
  What was done from \<open>s\<close> to \<open>s'\<close>: nothing but sending some of the frames \<open>fs\<close>, in this order (a message for
  which there is no memory is dropped). Interfaces and AutoIP clients are left open. The heap has to lie
  within the address space for headers to fit in front of a message.
\<close>

definition performed :: "'w net_calls \<Rightarrow> ('w \<Rightarrow> frames) \<Rightarrow> frames \<Rightarrow> 'w net \<Rightarrow> 'w net \<Rightarrow> bool" where
  "performed nc log fs s s' \<longleftrightarrow> pbuf_inv (pb s') \<and> pbufs (pb s') = pbufs (pb s) \<and> ram (pheap (pb s')) = ram (pheap (pb s))
     \<and> arp_table s' = arp_table s \<and> etharp_cached_entry s' = etharp_cached_entry s
     \<and> netif_list s' = netif_list s \<and> netif_default s' = netif_default s \<and> next_netif_num s' = next_netif_num s
     \<and> (recorded nc log \<and> low_heap s \<longrightarrow> (\<exists>gs. subseq gs fs \<and> log (world s') = log (world s) @ gs))"

lemma performed_refl: "pbuf_inv (pb s) \<Longrightarrow> performed nc log [] s s"
  by (simp add: performed_def)

lemma performed_trans [trans]:
  assumes "performed nc log fs s t" "performed nc log gs t u"
  shows "performed nc log (fs @ gs) s u"
proof -
  have "low_heap t = low_heap s" using assms(1) by (simp add: performed_def low_heap_def)
  moreover have "\<exists>zs. subseq zs (fs @ gs) \<and> log (world u) = log (world s) @ zs"
    if "subseq xs fs" "log (world t) = log (world s) @ xs" "subseq ys gs" "log (world u) = log (world t) @ ys" for xs ys
    using that by (intro exI [of _ "xs @ ys"]) (simp add: list_emb_append_mono)
  ultimately show ?thesis using assms unfolding performed_def by auto
qed

lemma performed_low: "performed nc log fs s s' \<Longrightarrow> low_heap s' = low_heap s"
  by (simp add: performed_def low_heap_def)

lemma performedD: "performed nc log fs s s' \<Longrightarrow> pbuf_inv (pb s')" "performed nc log fs s s' \<Longrightarrow> pbufs (pb s') = pbufs (pb s)"
  by (simp_all add: performed_def)

lemma nput_simps [simp]:
  "pb (nput n ni s) = pb s" "netifs (nput n ni s) = (netifs s)(n \<mapsto> ni)" "world (nput n ni s) = world s" "autoips (nput n ni s) = autoips s"
  "netif_list (nput n ni s) = netif_list s" "arp_table (nput n ni s) = arp_table s" "etharp_cached_entry (nput n ni s) = etharp_cached_entry s"
  "netif_default (nput n ni s) = netif_default s" "next_netif_num (nput n ni s) = next_netif_num s"
  "low_heap (nput n ni s) = low_heap s"
  by (simp_all add: nput_def low_heap_def)

lemma performed_nput:
  "performed nc log fs s (nput n ni s') = performed nc log fs s s'" "performed nc log fs (nput n ni s) s' = performed nc log fs s s'"
  by (simp_all add: performed_def)

lemma request_performed:
  assumes "setting nc" and inv: "pbuf_inv (pb s)" and ni: "ether_netif s n ni"
  shows "\<exists>r s'. etharp_request nc n a s = ret (r, s') \<and> performed nc log [(n, request_frame ni a)] s s'
    \<and> netifs s' = netifs s \<and> autoips s' = autoips s"
proof -
  obtain transmit where drv: "driver nc transmit" using assms(1) by (auto simp: setting_def)
  have n: "nget n s = ret ni" "length (hwaddr ni) = 6" using ni by (simp_all add: ether_netif_def nget_def ETH_HWADDR_LEN_def)
  let ?raw = "etharp_raw nc n (hwaddr ni) ethbroadcast (hwaddr ni) (ip_addr ni) ethzero a ARP_REQUEST s"
  have raw: "\<exists>r s'. ?raw = ret (r, s') \<and> restored s s'
      \<and> (low_heap s \<longrightarrow> r = ERR_MEM \<and> world s' = world s \<or> r = ERR_OK \<and> world s' = snd (tr n (request_frame ni a) (world s)))"
    if "driver nc tr" for tr
    using etharp_raw_ok [OF that inv ni n(2) _ n(2), of ethbroadcast ethzero "ip_addr ni" a ARP_REQUEST]
    by (auto simp: ethbroadcast_def ethzero_def request_frame_def low_heap_def)
  then obtain r s' where r: "?raw = ret (r, s')" "restored s s'" using drv by blast
  have "\<exists>gs. subseq gs [(n, request_frame ni a)] \<and> log (world s') = log (world s) @ gs" if rec: "recorded nc log" and low: "low_heap s"
  proof -
    obtain tr where tr: "driver nc tr" "\<forall>n bs w. log (snd (tr n bs w)) = log w @ [(n, bs)]" using rec by (auto simp: recorded_def)
    have "world s' = world s \<or> world s' = snd (tr n (request_frame ni a) (world s))" using raw [OF tr(1)] r(1) low by auto
    then show ?thesis using tr(2) by (elim disjE) auto
  qed
  then have "performed nc log [(n, request_frame ni a)] s s'" using r(2) by (simp add: performed_def restored_def)
  then show ?thesis using r(1,2) n by (auto simp: etharp_request_def etharp_request_dst_def restored_def)
qed

text \<open>A call that keeps to itself.\<close>

lemma keeps_performed:
  assumes "keeps_to_itself f (\<lambda>_. ())" and "recorded nc log \<Longrightarrow> keeps_to_itself f log" and "pbuf_inv (pb s)"
  shows "\<exists>w. f s = ret (s\<lparr>world := w\<rparr>) \<and> performed nc log [] s (s\<lparr>world := w\<rparr>)"
proof -
  obtain w where w: "f s = ret (s\<lparr>world := w\<rparr>)" using assms(1) unfolding keeps_to_itself_def by blast
  have "log w = log (world s)" if rec: "recorded nc log"
  proof -
    obtain v where v: "f s = ret (s\<lparr>world := v\<rparr>)" "log v = log (world s)" using assms(2) [OF rec] unfolding keeps_to_itself_def by blast
    then have "s\<lparr>world := w\<rparr> = s\<lparr>world := v\<rparr>" using w by simp
    then have "world (s\<lparr>world := w\<rparr>) = world (s\<lparr>world := v\<rparr>)" by (rule arg_cong)
    then show ?thesis using v(2) by simp
  qed
  then show ?thesis using w assms(3) by (intro exI [of _ w]) (simp add: performed_def)
qed

lemma setting_keeps:
  assumes "setting nc"
  shows "keeps_to_itself (tcp_netif_ip_addr_changed nc a b) (\<lambda>_. ())" "keeps_to_itself (udp_netif_ip_addr_changed nc a b) (\<lambda>_. ())"
    "keeps_to_itself (igmp_report_groups nc n) (\<lambda>_. ())"
    and "recorded nc log \<Longrightarrow> keeps_to_itself (tcp_netif_ip_addr_changed nc a b) log"
    "recorded nc log \<Longrightarrow> keeps_to_itself (udp_netif_ip_addr_changed nc a b) log"
    "recorded nc log \<Longrightarrow> keeps_to_itself (igmp_report_groups nc n) log"
  using assms by (simp_all add: setting_def calm_def recorded_def all_keep_def)

lemma ether_nget: "ether_netif s n ni \<Longrightarrow> nget n s = ret ni" "ether_netif s n ni \<Longrightarrow> n \<noteq> 0" "ether_netif s n ni \<Longrightarrow> netifs s n = Some ni"
  by (simp_all add: ether_netif_def nget_def)

lemma ether_same: "ether_netif s n ni \<Longrightarrow> netifs s' = netifs s \<Longrightarrow> ether_netif s' n ni"
  by (simp add: ether_netif_def)

definition announces :: "nat \<Rightarrow> netif \<Rightarrow> frames" where
  "announces n ni = (if netif_is_link_up ni \<and> netif_is_up ni \<and> ip_addr ni \<noteq> IPADDR_ANY \<and> netif_flags ni AND NETIF_FLAG_ETHARP \<noteq> 0
     then [(n, request_frame ni (ip_addr ni))] else [])"

lemma issue_reports_ok:
  assumes st: "setting nc" and inv: "pbuf_inv (pb s)" and ni: "ether_netif s n ni"
  shows "\<exists>s'. netif_issue_reports nc n NETIF_REPORT_TYPE_IPV4 s = ret s' \<and> performed nc log (announces n ni) s s'
    \<and> netifs s' = netifs s \<and> autoips s' = autoips s"
proof (cases "netif_is_link_up ni \<and> netif_is_up ni \<and> ip_addr ni \<noteq> IPADDR_ANY")
  case False
  then have "netif_issue_reports nc n NETIF_REPORT_TYPE_IPV4 s = ret s" "announces n ni = []"
    using ether_nget [OF ni]
    by (auto simp: netif_issue_reports_def announces_def NETIF_REPORT_TYPE_IPV4_def NETIF_REPORT_TYPE_IPV6_def)
  then show ?thesis using performed_refl [OF inv] by auto
next
  case True
  obtain s1 where s1: "(if netif_flags ni AND NETIF_FLAG_ETHARP \<noteq> 0
      then bind_run (etharp_gratuitous nc n s) (\<lambda>(_, s). ret s) else ret s) = ret s1" "performed nc log (announces n ni) s s1"
    "netifs s1 = netifs s" "autoips s1 = autoips s"
    using request_performed [OF st inv ni, of "ip_addr ni" log] performed_refl [OF inv, of nc log] True ether_nget [OF ni]
    by (cases "netif_flags ni AND NETIF_FLAG_ETHARP = 0") (auto simp: announces_def etharp_gratuitous_def)
  from keeps_performed [OF setting_keeps(3,6) [OF st] performedD(1) [OF s1(2)]]
  obtain w where w: "igmp_report_groups nc n s1 = ret (s1\<lparr>world := w\<rparr>)" "performed nc log [] s1 (s1\<lparr>world := w\<rparr>)" by blast
  let ?s = "if netif_flags ni AND NETIF_FLAG_IGMP \<noteq> 0 then s1\<lparr>world := w\<rparr> else s1"
  have "performed nc log (announces n ni) s ?s"
    using performed_trans [OF s1(2) w(2)] s1(2) by simp
  moreover have "netif_issue_reports nc n NETIF_REPORT_TYPE_IPV4 s = ret ?s"
    using True ether_nget [OF ni] ether_nget [OF ether_same [OF ni s1(3)]] s1(1) w(1)
    by (simp add: netif_issue_reports_def NETIF_REPORT_TYPE_IPV4_def NETIF_REPORT_TYPE_IPV6_def)
  ultimately show ?thesis using s1(3,4) by auto
qed

lemma set_ipaddr_ok:
  assumes st: "setting nc" and inv: "pbuf_inv (pb s)" and ni: "ether_netif s n ni"
  shows "\<exists>r s'. netif_do_set_ipaddr nc n a s = ret (r, s') \<and> netifs s' = (netifs s)(n \<mapsto> ni\<lparr>ip_addr := a\<rparr>) \<and> autoips s' = autoips s
    \<and> performed nc log (if a = ip_addr ni then [] else announces n (ni\<lparr>ip_addr := a\<rparr>)) s s'"
proof (cases "a = ip_addr ni")
  case True
  then show ?thesis
    using ether_nget [OF ni] performed_refl [OF inv] by (auto simp: netif_do_set_ipaddr_def)
next
  case False
  obtain w where w: "tcp_netif_ip_addr_changed nc (ip_addr ni) (Some a) s = ret (s\<lparr>world := w\<rparr>)" "performed nc log [] s (s\<lparr>world := w\<rparr>)"
    using keeps_performed [OF setting_keeps(1,4) [OF st] inv] by blast
  obtain v where v: "udp_netif_ip_addr_changed nc (ip_addr ni) (Some a) (s\<lparr>world := w\<rparr>) = ret (s\<lparr>world := w, world := v\<rparr>)"
    "performed nc log [] (s\<lparr>world := w\<rparr>) (s\<lparr>world := w, world := v\<rparr>)"
    using keeps_performed [OF setting_keeps(2,5) [OF st], of nc log "s\<lparr>world := w\<rparr>"] inv by auto
  let ?s = "nput n (ni\<lparr>ip_addr := a\<rparr>) (s\<lparr>world := v\<rparr>)"
  have ni1: "ether_netif ?s n (ni\<lparr>ip_addr := a\<rparr>)" using ni by (simp add: ether_netif_def)
  have inv1: "pbuf_inv (pb ?s)" using inv by simp
  obtain s' where s': "netif_issue_reports nc n NETIF_REPORT_TYPE_IPV4 ?s = ret s'" "performed nc log (announces n (ni\<lparr>ip_addr := a\<rparr>)) ?s s'"
    "netifs s' = netifs ?s" "autoips s' = autoips ?s"
    using issue_reports_ok [OF st inv1 ni1] by blast
  have g: "nget n (s\<lparr>world := v\<rparr>) = ret ni" using ether_nget(2,3) [OF ni] by (simp add: nget_def)
  have "netif_do_set_ipaddr nc n a s = ret (True, s')"
    using False ether_nget [OF ni] w(1) v(1) s'(1) g by (simp add: netif_do_set_ipaddr_def netif_do_ip_addr_changed_def)
  moreover have "performed nc log (announces n (ni\<lparr>ip_addr := a\<rparr>)) s s'"
    using performed_trans [OF performed_trans [OF w(2) v(2)], of "announces n (ni\<lparr>ip_addr := a\<rparr>)" s'] s'(2)
    by (simp add: performed_nput)
  ultimately show ?thesis using False s'(3,4) by (intro exI [of _ True] exI [of _ s']) simp
qed

text \<open>All three at once; the announcement is that of the new configuration.\<close>

definition configured :: "netif \<Rightarrow> u32 \<Rightarrow> u32 \<Rightarrow> u32 \<Rightarrow> netif" where
  "configured ni a m g = ni\<lparr>ip_addr := a, netmask := m, gw := g\<rparr>"

lemma set_addr_ok:
  fixes ip m g :: "u32 option"
  assumes st: "setting nc" and inv: "pbuf_inv (pb s)" and ni: "ether_netif s n ni"
  defines "ni' \<equiv> configured ni (addr_or_any ip) (addr_or_any m) (addr_or_any g)"
  shows "\<exists>s'. netif_set_addr nc n ip m g s = ret s' \<and> netifs s' = (netifs s)(n \<mapsto> ni') \<and> autoips s' = autoips s
    \<and> performed nc log (if addr_or_any ip = ip_addr ni then [] else announces n ni') s s'"
proof -
  let ?a = "addr_or_any ip" and ?m = "addr_or_any m" and ?g = "addr_or_any g"
  have mask: "\<exists>r. netif_do_set_netmask n ?m t = ret (r, nput n (ti\<lparr>netmask := ?m\<rparr>) t)" if "ether_netif t n ti" for t :: "'a net" and ti
    using ether_nget [OF that] by (auto simp: netif_do_set_netmask_def nput_def map_upd_triv)
  have gate: "\<exists>r. netif_do_set_gw n ?g t = ret (r, nput n (ti\<lparr>gw := ?g\<rparr>) t)" if "ether_netif t n ti" for t :: "'a net" and ti
    using ether_nget [OF that] by (auto simp: netif_do_set_gw_def nput_def map_upd_triv)
  show ?thesis
  proof (cases "?a = IPADDR_ANY")
    case True
    obtain r s1 where s1: "netif_do_set_ipaddr nc n ?a s = ret (r, s1)" "netifs s1 = (netifs s)(n \<mapsto> ni\<lparr>ip_addr := ?a\<rparr>)"
      "autoips s1 = autoips s" "performed nc log (if ?a = ip_addr ni then [] else announces n (ni\<lparr>ip_addr := ?a\<rparr>)) s s1"
      using set_ipaddr_ok [OF st inv ni] by blast
    have none: "announces n (ni\<lparr>ip_addr := ?a\<rparr>) = []" "announces n ni' = []" using True by (simp_all add: announces_def ni'_def configured_def)
    let ?n1 = "ni\<lparr>ip_addr := ?a\<rparr>"
    let ?n2 = "?n1\<lparr>netmask := ?m\<rparr>"
    have e1: "ether_netif s1 n ?n1" using ni s1(2) by (simp add: ether_netif_def)
    have e2: "ether_netif (nput n ?n2 s1) n ?n2" using e1 by (simp add: ether_netif_def)
    obtain r2 r3 where "netif_do_set_netmask n ?m s1 = ret (r2, nput n ?n2 s1)"
      "netif_do_set_gw n ?g (nput n ?n2 s1) = ret (r3, nput n (?n2\<lparr>gw := ?g\<rparr>) (nput n ?n2 s1))"
      using mask [OF e1] gate [OF e2] by blast
    then have "netif_set_addr nc n ip m g s = ret (nput n (?n2\<lparr>gw := ?g\<rparr>) (nput n ?n2 s1))"
      using True s1(1) by (simp add: netif_set_addr_def)
    moreover have "performed nc log [] s s1" using s1(4) none by (simp split: if_splits)
    ultimately show ?thesis using s1(2,3) none by (simp add: performed_nput ni'_def configured_def)
  next
    case False
    let ?n1 = "ni\<lparr>netmask := ?m\<rparr>"
    let ?n2 = "?n1\<lparr>gw := ?g\<rparr>"
    let ?s = "nput n ?n2 (nput n ?n1 s)"
    have e1: "ether_netif (nput n ?n1 s) n ?n1" using ni by (simp add: ether_netif_def)
    have e2: "ether_netif ?s n ?n2" using ni by (simp add: ether_netif_def)
    obtain r2 r3 where r: "netif_do_set_netmask n ?m s = ret (r2, nput n ?n1 s)" "netif_do_set_gw n ?g (nput n ?n1 s) = ret (r3, ?s)"
      using mask [OF ni] gate [OF e1] by blast
    obtain r s' where s': "netif_do_set_ipaddr nc n ?a ?s = ret (r, s')" "netifs s' = (netifs ?s)(n \<mapsto> ?n2\<lparr>ip_addr := ?a\<rparr>)"
      "autoips s' = autoips ?s" "performed nc log (if ?a = ip_addr ?n2 then [] else announces n (?n2\<lparr>ip_addr := ?a\<rparr>)) ?s s'"
      using set_ipaddr_ok [OF st _ e2, of ?a log] inv by auto
    have "?n2\<lparr>ip_addr := ?a\<rparr> = ni'" by (cases ni) (simp add: ni'_def configured_def)
    then show ?thesis using False r s' by (simp add: netif_set_addr_def performed_nput split: if_splits)
  qed
qed

end
