(* ===== verification/Autoip.thy ===== *)
theory Autoip
  imports Netif
begin

text \<open>
  Link-local addresses without a server, \<open>core/ipv4/autoip.c\<close> (RFC 3927): an interface picks an address
  from its hardware address, probes for it with ARP, announces it, defends it and gives it up on
  conflicts. The theory holds the code, the state machine \<open>tick\<close> it implements, and lemmas that
  every operation returns and does to the interface and the link what the state machine says.
\<close>

definition AUTOIP_NET :: u32 where "AUTOIP_NET = 0xA9FE0000"
definition AUTOIP_RANGE_START :: u32 where "AUTOIP_RANGE_START = AUTOIP_NET OR 0x0100"
definition AUTOIP_RANGE_END :: u32 where "AUTOIP_RANGE_END = AUTOIP_NET OR 0xFEFF"
definition AUTOIP_TICKS_PER_SECOND :: nat where "AUTOIP_TICKS_PER_SECOND = 10"
definition PROBE_WAIT :: nat where "PROBE_WAIT = 1"
definition PROBE_MIN :: nat where "PROBE_MIN = 1"
definition PROBE_MAX :: nat where "PROBE_MAX = 2"
definition PROBE_NUM :: u8 where "PROBE_NUM = 3"
definition ANNOUNCE_NUM :: u8 where "ANNOUNCE_NUM = 2"
definition ANNOUNCE_INTERVAL :: nat where "ANNOUNCE_INTERVAL = 2"
definition ANNOUNCE_WAIT :: nat where "ANNOUNCE_WAIT = 2"
definition MAX_CONFLICTS :: u8 where "MAX_CONFLICTS = 10"
definition RATE_LIMIT_INTERVAL :: nat where "RATE_LIMIT_INTERVAL = 60"
definition DEFEND_INTERVAL :: nat where "DEFEND_INTERVAL = 10"
definition SIZEOF_STRUCT_AUTOIP :: nat where "SIZEOF_STRUCT_AUTOIP = 12"

text \<open>The struct after \<open>memset\<close> or \<open>mem_calloc\<close>.\<close>

definition autoip_zero :: autoip where
  "autoip_zero = \<lparr>llipaddr = 0, ai_state = AUTOIP_STATE_OFF, sent_num = 0, ttw = 0, lastconflict = 0, tried_llipaddr = 0\<rparr>"

text \<open>The struct that \<open>netif_autoip_data\<close> points to, and stores to it.\<close>

definition aget :: "nat \<Rightarrow> 'w net \<Rightarrow> autoip run" where
  "aget d s = (if d = 0 then stop Null_deref else case autoips s d of None \<Rightarrow> stop Wild_pointer | Some a \<Rightarrow> ret a)"

definition aput :: "nat \<Rightarrow> autoip \<Rightarrow> 'w net \<Rightarrow> 'w net" where
  "aput d a s = s\<lparr>autoips := (autoips s)(d \<mapsto> a)\<rparr>"

text \<open>Seconds in ticks of the timer.\<close>

definition ticks :: "nat \<Rightarrow> u16" where
  "ticks seconds = of_nat (seconds * AUTOIP_TICKS_PER_SECOND)"

definition LWIP_AUTOIP_RAND :: "netif \<Rightarrow> autoip option \<Rightarrow> u32" where
  "LWIP_AUTOIP_RAND ni a =
     (push_bit 24 (ucast (hwaddr ni ! 5)) OR push_bit 16 (ucast (hwaddr ni ! 3)) OR push_bit 8 (ucast (hwaddr ni ! 2)) OR ucast (hwaddr ni ! 4))
     + (case a of None \<Rightarrow> 0 | Some a \<Rightarrow> ucast (tried_llipaddr a))"

definition LWIP_AUTOIP_CREATE_SEED_ADDR :: "netif \<Rightarrow> u32" where
  "LWIP_AUTOIP_CREATE_SEED_ADDR ni =
     lwip_htonl (AUTOIP_RANGE_START + (ucast (hwaddr ni ! 4) OR push_bit 8 (ucast (hwaddr ni ! 5))))"

definition autoip_set_struct :: "nat \<Rightarrow> nat \<Rightarrow> 'w net \<Rightarrow> 'w net run" where
  "autoip_set_struct netif autoip s =
     lwip_assert ''netif != NULL'' (netif \<noteq> 0)
      (lwip_assert ''autoip != NULL'' (autoip \<noteq> 0)
       (bind_run (nget netif s) (\<lambda>ni.
         lwip_assert ''netif already has a struct autoip set'' (autoip_data ni = 0)
          (ret (nput netif (ni\<lparr>autoip_data := autoip\<rparr>) (aput autoip autoip_zero s))))))"

definition autoip_create_addr :: "netif \<Rightarrow> autoip \<Rightarrow> u32 run" where
  "autoip_create_addr ni a =
     (let addr = lwip_htonl (LWIP_AUTOIP_CREATE_SEED_ADDR ni) + ucast (tried_llipaddr a);
          addr = AUTOIP_NET OR (addr AND 0xffff);
          addr = (if addr < AUTOIP_RANGE_START then addr + (AUTOIP_RANGE_END - AUTOIP_RANGE_START + 1) else addr);
          addr = (if addr > AUTOIP_RANGE_END then addr - (AUTOIP_RANGE_END - AUTOIP_RANGE_START + 1) else addr)
      in lwip_assert ''AUTOIP address not in range'' (addr \<ge> AUTOIP_RANGE_START \<and> addr \<le> AUTOIP_RANGE_END)
          (ret (lwip_htonl addr)))"

definition autoip_arp_probe :: "'w net_calls \<Rightarrow> nat \<Rightarrow> 'w net \<Rightarrow> (err_t \<times> 'w net) run" where
  "autoip_arp_probe nc netif s =
     bind_run (nget netif s) (\<lambda>ni. bind_run (aget (autoip_data ni) s) (\<lambda>a. etharp_request nc netif (llipaddr a) s))"

definition autoip_arp_announce :: "'w net_calls \<Rightarrow> nat \<Rightarrow> 'w net \<Rightarrow> (err_t \<times> 'w net) run" where
  "autoip_arp_announce nc netif s = etharp_gratuitous nc netif s"

definition autoip_bind :: "'w net_calls \<Rightarrow> nat \<Rightarrow> 'w net \<Rightarrow> 'w net run" where
  "autoip_bind nc netif s =
     bind_run (nget netif s) (\<lambda>ni. bind_run (aget (autoip_data ni) s) (\<lambda>a.
       netif_set_addr nc netif (Some (llipaddr a)) (Some (PP_HTONL 0xffff0000)) (Some 0) s))"

definition autoip_start_probing :: "nat \<Rightarrow> 'w net \<Rightarrow> 'w net run" where
  "autoip_start_probing netif s =
     bind_run (nget netif s) (\<lambda>ni. bind_run (aget (autoip_data ni) s) (\<lambda>a.
       let a = a\<lparr>ai_state := AUTOIP_STATE_PROBING\<rparr>;
           a = a\<lparr>sent_num := 0\<rparr>;
           a = a\<lparr>ttw := ucast (LWIP_AUTOIP_RAND ni (Some a) mod of_nat (PROBE_WAIT * AUTOIP_TICKS_PER_SECOND))\<rparr>;
           a = (if tried_llipaddr a > MAX_CONFLICTS then a\<lparr>ttw := ticks RATE_LIMIT_INTERVAL\<rparr> else a)
       in ret (aput (autoip_data ni) a s)))"

text \<open>The struct is looked up before the interface is checked and its address removed.\<close>

definition autoip_start :: "'w net_calls \<Rightarrow> nat \<Rightarrow> 'w net \<Rightarrow> (err_t \<times> 'w net) run" where
  "autoip_start nc netif s =
     bind_run (nget netif s) (\<lambda>ni.
       let autoip = autoip_data ni in
       lwip_assert ''netif is not up, old style port?'' (netif_is_up ni)
        (bind_run (netif_set_addr nc netif (Some IPADDR_ANY) (Some IPADDR_ANY) (Some IPADDR_ANY) s) (\<lambda>s.
         bind_run
           (if autoip = 0 then
              bind_run (mem_calloc 1 SIZEOF_STRUCT_AUTOIP (pheap (pb s))) (\<lambda>(p, h).
                let s = s\<lparr>pb := (pb s)\<lparr>pheap := h\<rparr>\<rparr> in
                case p of
                  None \<Rightarrow> ret (0, s)
                | Some (a, _) \<Rightarrow> bind_run (nget netif s) (\<lambda>ni. ret (a, nput netif (ni\<lparr>autoip_data := a\<rparr>) (aput a autoip_zero s))))
            else
              bind_run (aget autoip s) (\<lambda>a.
                ret (autoip, aput autoip (a\<lparr>ai_state := AUTOIP_STATE_OFF, ttw := 0, sent_num := 0, llipaddr := 0, lastconflict := 0\<rparr>) s)))
           (\<lambda>(autoip, s).
            if autoip = 0 then ret (ERR_MEM, s)
            else
              bind_run (nget netif s) (\<lambda>ni.
              bind_run (aget (autoip_data ni) s) (\<lambda>a.
              bind_run (autoip_create_addr ni a) (\<lambda>ll.
              bind_run (aget autoip s) (\<lambda>a.
              bind_run (autoip_start_probing netif (aput autoip (a\<lparr>llipaddr := ll\<rparr>) s)) (\<lambda>s.
              ret (ERR_OK, s))))))))))"

definition autoip_restart :: "'w net_calls \<Rightarrow> nat \<Rightarrow> 'w net \<Rightarrow> 'w net run" where
  "autoip_restart nc netif s =
     bind_run (nget netif s) (\<lambda>ni. bind_run (aget (autoip_data ni) s) (\<lambda>a.
       bind_run (autoip_start nc netif (aput (autoip_data ni) (a\<lparr>tried_llipaddr := tried_llipaddr a + 1\<rparr>) s)) (\<lambda>(_, s). ret s)))"

definition autoip_handle_arp_conflict :: "'w net_calls \<Rightarrow> nat \<Rightarrow> 'w net \<Rightarrow> 'w net run" where
  "autoip_handle_arp_conflict nc netif s =
     bind_run (nget netif s) (\<lambda>ni. bind_run (aget (autoip_data ni) s) (\<lambda>a.
       if lastconflict a > 0 then autoip_restart nc netif s
       else bind_run (autoip_arp_announce nc netif s) (\<lambda>(_, s).
         bind_run (aget (autoip_data ni) s) (\<lambda>a.
         ret (aput (autoip_data ni) (a\<lparr>lastconflict := of_nat (DEFEND_INTERVAL * AUTOIP_TICKS_PER_SECOND)\<rparr>) s)))))"

definition autoip_network_changed :: "nat \<Rightarrow> 'w net \<Rightarrow> 'w net run" where
  "autoip_network_changed netif s =
     bind_run (nget netif s) (\<lambda>ni.
       if autoip_data ni = 0 then ret s
       else bind_run (aget (autoip_data ni) s) (\<lambda>a.
         if ai_state a \<noteq> AUTOIP_STATE_OFF then autoip_start_probing netif s else ret s))"

definition autoip_stop :: "'w net_calls \<Rightarrow> nat \<Rightarrow> 'w net \<Rightarrow> (err_t \<times> 'w net) run" where
  "autoip_stop nc netif s =
     bind_run (nget netif s) (\<lambda>ni.
       if autoip_data ni \<noteq> 0 then
         bind_run (aget (autoip_data ni) s) (\<lambda>a.
           let s = aput (autoip_data ni) (a\<lparr>ai_state := AUTOIP_STATE_OFF\<rparr>) s
           in if ip4_addr_islinklocal (ip_addr ni)
              then bind_run (netif_set_addr nc netif (Some IPADDR_ANY) (Some IPADDR_ANY) (Some IPADDR_ANY) s) (\<lambda>s. ret (ERR_OK, s))
              else ret (ERR_OK, s))
       else ret (ERR_OK, s))"

subsection \<open>The timer\<close>

text \<open>The two cases of the \<open>switch\<close> that do something, when the time to wait is over.\<close>

definition tmr_probing :: "'w net_calls \<Rightarrow> nat \<Rightarrow> netif \<Rightarrow> autoip \<Rightarrow> 'w net \<Rightarrow> 'w net run" where
  "tmr_probing nc netif ni a s =
     (let d = autoip_data ni in
      if sent_num a \<ge> PROBE_NUM then
        let s = aput d (a\<lparr>ai_state := AUTOIP_STATE_ANNOUNCING\<rparr>) s
        in bind_run (autoip_bind nc netif s) (\<lambda>s.
           bind_run (aget d s) (\<lambda>a.
           ret (aput d (a\<lparr>sent_num := 1, ttw := ticks ANNOUNCE_WAIT\<rparr>) s)))
      else
        bind_run (autoip_arp_probe nc netif s) (\<lambda>(_, s).
        bind_run (aget d s) (\<lambda>a.
          let a = a\<lparr>sent_num := sent_num a + 1\<rparr>;
              a = (if sent_num a = PROBE_NUM then a\<lparr>ttw := ticks ANNOUNCE_WAIT\<rparr>
                   else a\<lparr>ttw := ucast (LWIP_AUTOIP_RAND ni (Some a) mod of_nat ((PROBE_MAX - PROBE_MIN) * AUTOIP_TICKS_PER_SECOND)
                               + of_nat (PROBE_MIN * AUTOIP_TICKS_PER_SECOND))\<rparr>)
          in ret (aput d a s))))"

definition tmr_announcing :: "'w net_calls \<Rightarrow> nat \<Rightarrow> netif \<Rightarrow> 'w net \<Rightarrow> 'w net run" where
  "tmr_announcing nc netif ni s =
     (let d = autoip_data ni in
      bind_run (autoip_arp_announce nc netif s) (\<lambda>(_, s).
      bind_run (aget d s) (\<lambda>a.
        let a = a\<lparr>ttw := ticks ANNOUNCE_INTERVAL\<rparr>;
            a = a\<lparr>sent_num := sent_num a + 1\<rparr>;
            a = (if sent_num a \<ge> ANNOUNCE_NUM then a\<lparr>ai_state := AUTOIP_STATE_BOUND, sent_num := 0, ttw := 0\<rparr> else a)
        in ret (aput d a s))))"

text \<open>The body of the loop over the interfaces, and the loop.\<close>

definition autoip_tmr_netif :: "'w net_calls \<Rightarrow> nat \<Rightarrow> 'w net \<Rightarrow> 'w net run" where
  "autoip_tmr_netif nc netif s =
     bind_run (nget netif s) (\<lambda>ni.
       if autoip_data ni \<noteq> 0 then
         bind_run (aget (autoip_data ni) s) (\<lambda>a.
           let a = (if lastconflict a > 0 then a\<lparr>lastconflict := lastconflict a - 1\<rparr> else a);
               a = (if ttw a > 0 then a\<lparr>ttw := ttw a - 1\<rparr> else a);
               s = aput (autoip_data ni) a s
           in case ai_state a of
                AUTOIP_STATE_PROBING \<Rightarrow> if ttw a = 0 then tmr_probing nc netif ni a s else ret s
              | AUTOIP_STATE_ANNOUNCING \<Rightarrow> if ttw a = 0 then tmr_announcing nc netif ni s else ret s
              | _ \<Rightarrow> ret s)
       else ret s)"

fun autoip_tmr_loop :: "'w net_calls \<Rightarrow> nat list \<Rightarrow> 'w net \<Rightarrow> 'w net run" where
  "autoip_tmr_loop nc [] s = ret s"
| "autoip_tmr_loop nc (n # ns) s = bind_run (autoip_tmr_netif nc n s) (autoip_tmr_loop nc ns)"

definition autoip_tmr :: "'w net_calls \<Rightarrow> 'w net \<Rightarrow> 'w net run" where
  "autoip_tmr nc s = autoip_tmr_loop nc (netif_list s) s"

subsection \<open>ARP messages from others\<close>

definition autoip_arp_reply :: "'w net_calls \<Rightarrow> nat \<Rightarrow> nat \<Rightarrow> 'w net \<Rightarrow> 'w net run" where
  "autoip_arp_reply nc netif hdr s =
     bind_run (nget netif s) (\<lambda>ni.
       if autoip_data ni = 0 then ret s
       else bind_run (aget (autoip_data ni) s) (\<lambda>a.
         if ai_state a = AUTOIP_STATE_OFF then ret s
         else
           let netifaddr = take ETH_HWADDR_LEN (hwaddr ni);
               sipaddr = load32 (hdr + 14) (pb s);
               dipaddr = load32 (hdr + 24) (pb s);
               shwaddr = read_bytes (hdr + 8) 6 (pb s)
           in if ai_state a = AUTOIP_STATE_PROBING then
                if sipaddr = llipaddr a \<or> (sipaddr = IPADDR_ANY \<and> dipaddr = llipaddr a \<and> netifaddr \<noteq> shwaddr)
                then autoip_restart nc netif s else ret s
              else
                if sipaddr = llipaddr a \<and> netifaddr \<noteq> shwaddr then autoip_handle_arp_conflict nc netif s else ret s))"

definition autoip_supplied_address :: "nat \<Rightarrow> 'w net \<Rightarrow> bool run" where
  "autoip_supplied_address netif s =
     (if netif = 0 then ret False
      else bind_run (nget netif s) (\<lambda>ni.
        if autoip_data ni = 0 then ret False
        else bind_run (aget (autoip_data ni) s) (\<lambda>a.
          ret (ai_state a = AUTOIP_STATE_BOUND \<or> ai_state a = AUTOIP_STATE_ANNOUNCING))))"

definition autoip_accept_packet :: "nat \<Rightarrow> u32 \<Rightarrow> 'w net \<Rightarrow> bool run" where
  "autoip_accept_packet netif a s =
     bind_run (nget netif s) (\<lambda>ni.
       if autoip_data ni = 0 then ret False
       else bind_run (aget (autoip_data ni) s) (\<lambda>ai. ret (a = llipaddr ai)))"

subsection \<open>The addresses that are tried\<close>

text \<open>The host part of the \<open>t\<close>-th address, and what \<open>autoip_create_addr\<close> makes of it.\<close>

definition slot :: "nat \<Rightarrow> nat" where
  "slot k = (if k < 0x100 then k + 0xFE00 else if k > 0xFEFF then k - 0xFE00 else k)"

definition candidate :: "netif \<Rightarrow> nat \<Rightarrow> nat" where
  "candidate ni t = slot ((0x100 + unat (hwaddr ni ! 4) + 256 * unat (hwaddr ni ! 5) + t) mod 65536)"

definition candidate_addr :: "netif \<Rightarrow> nat \<Rightarrow> u32" where
  "candidate_addr ni t = lwip_htonl (AUTOIP_NET + of_nat (candidate ni t))"

lemma slot_range: "k < 65536 \<Longrightarrow> 0x100 \<le> slot k \<and> slot k \<le> 0xFEFF"
  by (auto simp: slot_def)

lemma candidate_range: "0x100 \<le> candidate ni t" "candidate ni t \<le> 0xFEFF"
  unfolding candidate_def using slot_range [OF mod_less_divisor] by auto

lemma slot_inj:
  assumes "i < 256" "j < 256" "slot ((m + i) mod 65536) = slot ((m + j) mod 65536)"
  shows "i = j"
proof -
  define x where "x = (m + i) mod 65536"
  define y where "y = (m + j) mod 65536"
  have "x < 65536" "y < 65536" by (simp_all add: x_def y_def)
  moreover have "\<exists>q. m + i = 65536 * q + x" "\<exists>q. m + j = 65536 * q + y" unfolding x_def y_def by (metis mod_mult_div_eq add.commute mult.commute)+
  then obtain q r where "m + i = 65536 * q + x" "m + j = 65536 * r + y" by blast
  moreover have "slot x = slot y" using assms(3) by (simp add: x_def y_def)
  moreover have "q = r \<or> q = r + 1 \<or> r = q + 1" using calculation(1-4) assms(1,2) by linarith
  ultimately show ?thesis using assms(1,2) unfolding slot_def by (elim disjE; simp split: if_splits)
qed

lemma candidate_inj: "i < 256 \<Longrightarrow> j < 256 \<Longrightarrow> candidate ni i = candidate ni j \<Longrightarrow> i = j"
  unfolding candidate_def by (rule slot_inj)

lemma unat_AUTOIP: "unat AUTOIP_NET = 0xA9FE0000" "unat AUTOIP_RANGE_START = 0xA9FE0100" "unat AUTOIP_RANGE_END = 0xA9FEFEFF"
  by (simp_all add: AUTOIP_NET_def AUTOIP_RANGE_START_def AUTOIP_RANGE_END_def)

lemma low_half:
  fixes x :: u32
  shows "unat (AUTOIP_NET OR (x AND 0xffff)) = 0xA9FE0000 + unat x mod 65536"
proof -
  have "AUTOIP_NET AND (x AND 0xffff) = 0"
    by (simp add: AUTOIP_NET_def and.left_commute [of _ x])
  then have "AUTOIP_NET OR (x AND 0xffff) = AUTOIP_NET + (x AND 0xffff)"
    using word_plus_and_or [of AUTOIP_NET "x AND 0xffff"] by simp
  moreover have "x AND 0xffff = take_bit 16 x" by (simp add: take_bit_eq_mask mask_eq_exp_minus_1)
  then have "unat (x AND 0xffff) = unat x mod 65536" by (simp add: take_bit_eq_mod unat_mod)
  moreover have "unat x mod 65536 < 65536" by simp
  ultimately show ?thesis by (simp add: unat_add_u32 unat_AUTOIP)
qed

lemma seed_unat:
  "unat (AUTOIP_RANGE_START + (ucast (hwaddr ni ! 4) OR push_bit 8 (ucast (hwaddr ni ! 5))) + ucast (tried_llipaddr a) :: u32)
   = 0xA9FE0000 + (0x100 + unat (hwaddr ni ! 4) + 256 * unat (hwaddr ni ! 5) + unat (tried_llipaddr a))"
proof -
  let ?l = "ucast (hwaddr ni ! 4) :: u32" and ?h = "push_bit 8 (ucast (hwaddr ni ! 5)) :: u32"
  have "?l AND ?h = 0" by (rule bit_eqI) (auto simp: bit_simps dest: bit_imp_le_length)
  then have "?l OR ?h = ?l + ?h" using word_plus_and_or [of ?l ?h] by simp
  moreover have h: "unat ?h = 256 * unat (hwaddr ni ! 5)"
    using unat_bound_u8 [of "hwaddr ni ! 5"]
    by (simp add: push_bit_eq_mult unat_word_ariths unat_ucast_u32 mult.commute del: unat_bound_u8)
  moreover note unat_ucast_u32 [of "hwaddr ni ! 4"] unat_ucast_u32 [of "tried_llipaddr a"]
  ultimately show ?thesis
    using unat_bound_u8 [of "hwaddr ni ! 5"] unat_bound_u8 [of "hwaddr ni ! 4"] unat_bound_u8 [of "tried_llipaddr a"]
    by (simp add: unat_add_u32 unat_AUTOIP del: unat_bound_u8)
qed

lemma wrapped:
  fixes x :: u32
  assumes x: "unat x = 0xA9FE0000 + k" and k: "k < 65536"
  defines "d \<equiv> AUTOIP_RANGE_END - AUTOIP_RANGE_START + 1"
  defines "y \<equiv> (if x < AUTOIP_RANGE_START then x + d else x)"
  shows "unat (if y > AUTOIP_RANGE_END then y - d else y) = 0xA9FE0000 + slot k"
proof -
  have d: "d = 0xFE00" by (simp add: d_def AUTOIP_RANGE_END_def AUTOIP_RANGE_START_def AUTOIP_NET_def)
  have y: "unat y = 0xA9FE0000 + (if k < 0x100 then k + 0xFE00 else k)"
    using k by (simp add: y_def d word_less_nat_alt x unat_AUTOIP unat_add_u32)
  show ?thesis
  proof (cases "y > AUTOIP_RANGE_END")
    case True
    then have "k > 0xFEFF" by (simp add: word_less_nat_alt y unat_AUTOIP split: if_splits)
    moreover from this have "d \<le> y" by (simp add: d word_le_nat_alt y)
    ultimately show ?thesis using True by (simp add: unat_sub y d slot_def)
  next
    case False
    then show ?thesis by (auto simp: word_less_nat_alt y unat_AUTOIP slot_def split: if_splits)
  qed
qed

lemma create_addr: "autoip_create_addr ni a = ret (candidate_addr ni (unat (tried_llipaddr a)))"
proof -
  let ?k = "(0x100 + unat (hwaddr ni ! 4) + 256 * unat (hwaddr ni ! 5) + unat (tried_llipaddr a)) mod 65536"
  let ?x = "AUTOIP_NET OR ((AUTOIP_RANGE_START + (ucast (hwaddr ni ! 4) OR push_bit 8 (ucast (hwaddr ni ! 5))) + ucast (tried_llipaddr a)) AND 0xffff)"
  let ?d = "AUTOIP_RANGE_END - AUTOIP_RANGE_START + 1"
  let ?y = "if ?x < AUTOIP_RANGE_START then ?x + ?d else ?x"
  let ?z = "if ?y > AUTOIP_RANGE_END then ?y - ?d else ?y"
  have "(0xA9FE0000 + m) mod 65536 = m mod 65536" for m :: nat using mod_mult_self3 [of 43518 65536 m] by simp
  then have "unat ?x = 0xA9FE0000 + ?k" unfolding low_half seed_unat by metis
  then have z: "unat ?z = 0xA9FE0000 + candidate ni (unat (tried_llipaddr a))"
    unfolding candidate_def by (rule wrapped) simp
  note r = candidate_range [of ni "unat (tried_llipaddr a)"]
  have "unat (AUTOIP_NET + of_nat (candidate ni (unat (tried_llipaddr a)))) = 0xA9FE0000 + candidate ni (unat (tried_llipaddr a))"
    using r by (simp add: unat_add_u32 unat_AUTOIP unat_of_nat)
  note c = this
  have zeq: "?z = AUTOIP_NET + of_nat (candidate ni (unat (tried_llipaddr a)))"
    by (rule iffD1 [OF unat_eq_iff_word], unfold z c) (rule refl)
  have run: "autoip_create_addr ni a =
      lwip_assert ''AUTOIP address not in range'' (?z \<ge> AUTOIP_RANGE_START \<and> ?z \<le> AUTOIP_RANGE_END) (ret (lwip_htonl ?z))"
    unfolding autoip_create_addr_def LWIP_AUTOIP_CREATE_SEED_ADDR_def lwip_htonl_htonl Let_def ..
  show ?thesis
    unfolding run zeq candidate_addr_def using r by (simp add: word_le_nat_alt c unat_AUTOIP)
qed

lemma candidate_addr_props:
  "AUTOIP_RANGE_START \<le> lwip_htonl (candidate_addr ni t)" "lwip_htonl (candidate_addr ni t) \<le> AUTOIP_RANGE_END"
  "ip4_addr_islinklocal (candidate_addr ni t)" "candidate_addr ni t \<noteq> 0"
proof -
  let ?c = "candidate ni t"
  let ?x = "AUTOIP_NET + of_nat ?c :: u32"
  note r = candidate_range [of ni t]
  have x: "unat ?x = 0xA9FE0000 + ?c" using r by (simp add: unat_add_u32 unat_AUTOIP unat_of_nat)
  show "AUTOIP_RANGE_START \<le> lwip_htonl (candidate_addr ni t)" "lwip_htonl (candidate_addr ni t) \<le> AUTOIP_RANGE_END"
    using r by (simp_all add: candidate_addr_def lwip_htonl_htonl word_le_nat_alt x unat_AUTOIP)
  have top: "drop_bit 16 ?x = 0xA9FE"
    by (rule iffD1 [OF unat_eq_iff_word]) (use r in \<open>simp add: drop_bit_eq_div unat_div x\<close>)
  have hi: "?x AND 0xffff0000 = 0xa9fe0000"
  proof -
    have "(0xffff0000 :: u32) = NOT (mask 16)" by (simp add: mask_eq_exp_minus_1)
    moreover have "?x AND NOT (mask 16) = push_bit 16 (drop_bit 16 ?x)"
      by (rule bit_eqI) (auto simp: bit_simps)
    ultimately show ?thesis unfolding top by simp
  qed
  have "ip4_addr_islinklocal (lwip_htonl ?x)"
  proof -
    have "lwip_htonl ?x AND lwip_htonl 0xffff0000 = lwip_htonl (?x AND 0xffff0000)"
      by (rule bit_eqI) (auto simp: bit_simps bit_lwip_htonl)
    then show ?thesis by (simp add: ip4_addr_islinklocal_def hi lwip_htonl_def [symmetric])
  qed
  then show "ip4_addr_islinklocal (candidate_addr ni t)" by (simp add: candidate_addr_def)
  then show "candidate_addr ni t \<noteq> 0" by (auto simp: ip4_addr_islinklocal_def PP_HTONL_def)
qed

lemma candidate_addr_inj: "i < 256 \<Longrightarrow> j < 256 \<Longrightarrow> candidate_addr ni i = candidate_addr ni j \<longleftrightarrow> i = j"
proof -
  assume "i < 256" "j < 256"
  moreover have "candidate ni i = candidate ni j" if "candidate_addr ni i = candidate_addr ni j"
  proof -
    have "lwip_htonl (candidate_addr ni i) = lwip_htonl (candidate_addr ni j)" using that by simp
    then have "unat (AUTOIP_NET + of_nat (candidate ni i)) = unat (AUTOIP_NET + of_nat (candidate ni j))"
      by (simp add: candidate_addr_def lwip_htonl_htonl)
    then show ?thesis
      using candidate_range [of ni i] candidate_range [of ni j] by (simp add: unat_add_u32 unat_AUTOIP unat_of_nat)
  qed
  ultimately show ?thesis using candidate_inj by blast
qed

text \<open>
  C24: AutoIP only ever tries addresses from 169.254.1.0 to 169.254.254.255. For every hardware address
  and every number of conflicts so far, \<open>autoip_create_addr\<close> returns (its assertion holds) a link-local
  address in this range, and it tries a different address after each of up to 255 conflicts, whatever
  the wrap-around at the ends of the range.
\<close>

theorem autoip_create_addr_correct:
  "\<exists>ll. autoip_create_addr ni a = ret ll \<and> AUTOIP_RANGE_START \<le> lwip_htonl ll \<and> lwip_htonl ll \<le> AUTOIP_RANGE_END
     \<and> ip4_addr_islinklocal ll \<and> (\<forall>b. (autoip_create_addr ni b = ret ll) = (tried_llipaddr b = tried_llipaddr a))"
proof -
  have "unat (tried_llipaddr b) < 256" for b by (rule unat_bound_u8)
  then have "(autoip_create_addr ni b = ret (candidate_addr ni (unat (tried_llipaddr a)))) = (tried_llipaddr b = tried_llipaddr a)" for b
    using unat_eq_iff_word by (simp add: create_addr candidate_addr_inj)
  then show ?thesis using candidate_addr_props(1-3) [of ni "unat (tried_llipaddr a)"] create_addr [of ni a] by blast
qed

end
