(* ===== verification/Etharp.thy ===== *)
theory Etharp
  imports Autoip
begin

text \<open>
  Address resolution, \<open>core/ipv4/etharp.c\<close> as it is compiled here: ten entries, one queued packet per
  pending entry, entries of several interfaces side by side (\<open>ETHARP_TABLE_MATCH_NETIF\<close>), no static
  entries, with AutoIP and DHCP listening.
\<close>

definition ARP_TABLE_SIZE :: nat where "ARP_TABLE_SIZE = 10"
definition ARP_MAXAGE :: u16 where "ARP_MAXAGE = 300"
definition ARP_AGE_REREQUEST_USED_UNICAST :: u16 where "ARP_AGE_REREQUEST_USED_UNICAST = ARP_MAXAGE - 30"
definition ARP_AGE_REREQUEST_USED_BROADCAST :: u16 where "ARP_AGE_REREQUEST_USED_BROADCAST = ARP_MAXAGE - 15"
definition ARP_MAXPENDING :: u16 where "ARP_MAXPENDING = 5"
definition ETHARP_FLAG_TRY_HARD :: u8 where "ETHARP_FLAG_TRY_HARD = 1"
definition ETHARP_FLAG_FIND_ONLY :: u8 where "ETHARP_FLAG_FIND_ONLY = 2"
definition PBUF_TYPE_FLAG_DATA_VOLATILE :: u8 where "PBUF_TYPE_FLAG_DATA_VOLATILE = 0x40"

definition PBUF_NEEDS_COPY :: "pbuf \<Rightarrow> bool" where
  "PBUF_NEEDS_COPY b \<longleftrightarrow> pb_type_internal b AND PBUF_TYPE_FLAG_DATA_VOLATILE \<noteq> 0"

text \<open>Assignments to a field of \<open>arp_table[i]\<close>.\<close>

definition arp_update :: "nat \<Rightarrow> (etharp_entry \<Rightarrow> etharp_entry) \<Rightarrow> 'w net \<Rightarrow> 'w net" where
  "arp_update i f s = s\<lparr>arp_table := (arp_table s)[i := f (arp_table s ! i)]\<rparr>"

subsection \<open>The table\<close>

definition etharp_free_entry :: "nat \<Rightarrow> 'w net \<Rightarrow> 'w net run" where
  "etharp_free_entry i s =
     bind_run (if arp_q (arp_table s ! i) \<noteq> 0 then
                 bind_run (on_pb (pbuf_free (arp_q (arp_table s ! i))) s) (\<lambda>(_, s).
                   ret (arp_update i (\<lambda>e. e\<lparr>arp_q := 0\<rparr>) s))
               else ret s) (\<lambda>s.
       ret (arp_update i (\<lambda>e. e\<lparr>arp_state := ETHARP_STATE_EMPTY\<rparr>) s))"

text \<open>One round of the loop of \<open>etharp_tmr\<close>.\<close>

definition tmr_entry :: "'w net_calls \<Rightarrow> nat \<Rightarrow> 'w net \<Rightarrow> 'w net run" where
  "tmr_entry nc i s =
     (if arp_state (arp_table s ! i) \<noteq> ETHARP_STATE_EMPTY then
        let s = arp_update i (\<lambda>e. e\<lparr>arp_ctime := arp_ctime e + 1\<rparr>) s;
            e = arp_table s ! i
        in if arp_ctime e \<ge> ARP_MAXAGE \<or> (arp_state e = ETHARP_STATE_PENDING \<and> arp_ctime e \<ge> ARP_MAXPENDING)
           then etharp_free_entry i s
           else if arp_state e = ETHARP_STATE_STABLE_REREQUESTING_1
           then ret (arp_update i (\<lambda>e. e\<lparr>arp_state := ETHARP_STATE_STABLE_REREQUESTING_2\<rparr>) s)
           else if arp_state e = ETHARP_STATE_STABLE_REREQUESTING_2
           then ret (arp_update i (\<lambda>e. e\<lparr>arp_state := ETHARP_STATE_STABLE\<rparr>) s)
           else if arp_state e = ETHARP_STATE_PENDING
           then bind_run (etharp_request nc (arp_netif e) (arp_ipaddr e) s) (\<lambda>(_, s). ret s)
           else ret s
      else ret s)"

fun tmr_loop :: "'w net_calls \<Rightarrow> nat list \<Rightarrow> 'w net \<Rightarrow> 'w net run" where
  "tmr_loop nc [] s = ret s"
| "tmr_loop nc (i # is) s = bind_run (tmr_entry nc i s) (tmr_loop nc is)"

definition etharp_tmr :: "'w net_calls \<Rightarrow> 'w net \<Rightarrow> 'w net run" where
  "etharp_tmr nc s = tmr_loop nc [0..<ARP_TABLE_SIZE] s"

text \<open>
  What the sweep through the table remembers. An index that is \<open>ARP_TABLE_SIZE\<close> means that there is
  no such entry yet.
\<close>

record find_cand =
  c_empty :: nat
  c_old_pending :: nat
  c_old_stable :: nat
  c_old_queue :: nat
  c_age_queue :: u16
  c_age_pending :: u16
  c_age_stable :: u16

definition no_cand :: find_cand where
  "no_cand = \<lparr>c_empty = ARP_TABLE_SIZE, c_old_pending = ARP_TABLE_SIZE, c_old_stable = ARP_TABLE_SIZE,
     c_old_queue = ARP_TABLE_SIZE, c_age_queue = 0, c_age_pending = 0, c_age_stable = 0\<rparr>"

definition entry_matches :: "u32 option \<Rightarrow> nat \<Rightarrow> etharp_entry \<Rightarrow> bool" where
  "entry_matches ipaddr netif e \<longleftrightarrow>
     (case ipaddr of None \<Rightarrow> False | Some a \<Rightarrow> a = arp_ipaddr e \<and> (netif = 0 \<or> netif = arp_netif e))"

definition remember :: "nat \<Rightarrow> etharp_entry \<Rightarrow> find_cand \<Rightarrow> find_cand" where
  "remember i e c =
     (if arp_state e = ETHARP_STATE_PENDING then
        if arp_q e \<noteq> 0 then
          if arp_ctime e \<ge> c_age_queue c then c\<lparr>c_old_queue := i, c_age_queue := arp_ctime e\<rparr> else c
        else
          if arp_ctime e \<ge> c_age_pending c then c\<lparr>c_old_pending := i, c_age_pending := arp_ctime e\<rparr> else c
      else if arp_state e \<ge> ETHARP_STATE_STABLE then
        if arp_ctime e \<ge> c_age_stable c then c\<lparr>c_old_stable := i, c_age_stable := arp_ctime e\<rparr> else c
      else c)"

text \<open>The sweep: \<open>Inl i\<close> is the match that ends it.\<close>

fun find_sweep :: "u32 option \<Rightarrow> nat \<Rightarrow> nat \<Rightarrow> etharp_entry list \<Rightarrow> find_cand \<Rightarrow> (nat + find_cand) run" where
  "find_sweep ipaddr netif i [] c = ret (Inr c)"
| "find_sweep ipaddr netif i (e # es) c =
     (if c_empty c = ARP_TABLE_SIZE \<and> arp_state e = ETHARP_STATE_EMPTY then
        find_sweep ipaddr netif (i + 1) es (c\<lparr>c_empty := i\<rparr>)
      else if arp_state e \<noteq> ETHARP_STATE_EMPTY then
        lwip_assert ''state == ETHARP_STATE_PENDING || state >= ETHARP_STATE_STABLE''
          (arp_state e = ETHARP_STATE_PENDING \<or> arp_state e \<ge> ETHARP_STATE_STABLE)
         (if entry_matches ipaddr netif e then ret (Inl i)
          else find_sweep ipaddr netif (i + 1) es (remember i e c))
      else find_sweep ipaddr netif (i + 1) es c)"

text \<open>Choosing the entry to recycle; the result is an error or the entry, which is empty now.\<close>

definition find_recycle :: "find_cand \<Rightarrow> 'w net \<Rightarrow> ((err_t + nat) \<times> 'w net) run" where
  "find_recycle c s =
     (if c_empty c < ARP_TABLE_SIZE then ret (Inr (c_empty c), s)
      else
        bind_run
          (if c_old_stable c < ARP_TABLE_SIZE then
             lwip_assert ''arp_table[i].q == NULL'' (arp_q (arp_table s ! c_old_stable c) = 0) (ret (Some (c_old_stable c)))
           else if c_old_pending c < ARP_TABLE_SIZE then ret (Some (c_old_pending c))
           else if c_old_queue c < ARP_TABLE_SIZE then ret (Some (c_old_queue c))
           else ret None) (\<lambda>r.
          case r of
            None \<Rightarrow> ret (Inl ERR_MEM, s)
          | Some i \<Rightarrow> bind_run (etharp_free_entry i s) (\<lambda>s. ret (Inr i, s))))"

definition etharp_find_entry :: "u32 option \<Rightarrow> u8 \<Rightarrow> nat \<Rightarrow> 'w net \<Rightarrow> ((err_t + nat) \<times> 'w net) run" where
  "etharp_find_entry ipaddr flags netif s =
     bind_run (find_sweep ipaddr netif 0 (arp_table s) no_cand) (\<lambda>r.
       case r of
         Inl i \<Rightarrow> ret (Inr i, s)
       | Inr c \<Rightarrow>
           if flags AND ETHARP_FLAG_FIND_ONLY \<noteq> 0
              \<or> (c_empty c = ARP_TABLE_SIZE \<and> flags AND ETHARP_FLAG_TRY_HARD = 0) then ret (Inl ERR_MEM, s)
           else bind_run (find_recycle c s) (\<lambda>(r, s).
             case r of
               Inl err \<Rightarrow> ret (Inl err, s)
             | Inr i \<Rightarrow>
                 lwip_assert ''arp_table[i].state == ETHARP_STATE_EMPTY'' (arp_state (arp_table s ! i) = ETHARP_STATE_EMPTY)
                  (let s = (case ipaddr of None \<Rightarrow> s | Some a \<Rightarrow> arp_update i (\<lambda>e. e\<lparr>arp_ipaddr := a\<rparr>) s);
                       s = arp_update i (\<lambda>e. e\<lparr>arp_ctime := 0, arp_netif := netif\<rparr>) s
                   in ret (Inr i, s))))"

definition etharp_update_arp_entry ::
  "'w net_calls \<Rightarrow> nat \<Rightarrow> u32 \<Rightarrow> u8 list \<Rightarrow> u8 \<Rightarrow> 'w net \<Rightarrow> (err_t \<times> 'w net) run" where
  "etharp_update_arp_entry nc netif ipaddr ethaddr flags s =
     bind_run (nget netif s) (\<lambda>ni.
       lwip_assert ''netif->hwaddr_len == ETH_HWADDR_LEN'' (unat (hwaddr_len ni) = ETH_HWADDR_LEN)
        (if ipaddr = IPADDR_ANY \<or> ip4_addr_isbroadcast_u32 ipaddr ni \<or> ip4_addr_ismulticast ipaddr then ret (ERR_ARG, s)
         else bind_run (etharp_find_entry (Some ipaddr) flags netif s) (\<lambda>(r, s).
           case r of
             Inl err \<Rightarrow> ret (err, s)
           | Inr i \<Rightarrow>
               let s = arp_update i (\<lambda>e. e\<lparr>arp_state := ETHARP_STATE_STABLE, arp_netif := netif,
                         arp_ethaddr := take ETH_HWADDR_LEN ethaddr, arp_ctime := 0\<rparr>) s;
                   p = arp_q (arp_table s ! i)
               in if p \<noteq> 0 then
                    let s = arp_update i (\<lambda>e. e\<lparr>arp_q := 0\<rparr>) s
                    in bind_run (ethernet_output nc netif p (hwaddr ni) ethaddr ETHTYPE_IP s) (\<lambda>(_, s).
                       bind_run (on_pb (pbuf_free p) s) (\<lambda>(_, s). ret (ERR_OK, s)))
                  else ret (ERR_OK, s))))"

fun cleanup_loop :: "nat \<Rightarrow> nat list \<Rightarrow> 'w net \<Rightarrow> 'w net run" where
  "cleanup_loop netif [] s = ret s"
| "cleanup_loop netif (i # is) s =
     bind_run (if arp_state (arp_table s ! i) \<noteq> ETHARP_STATE_EMPTY \<and> arp_netif (arp_table s ! i) = netif
               then etharp_free_entry i s else ret s) (cleanup_loop netif is)"

definition etharp_cleanup_netif :: "nat \<Rightarrow> 'w net \<Rightarrow> 'w net run" where
  "etharp_cleanup_netif netif s = cleanup_loop netif [0..<ARP_TABLE_SIZE] s"

text \<open>The result: the index, the Ethernet and the IP address of the entry, or \<open>None\<close> for \<open>-1\<close>.\<close>

definition etharp_find_addr :: "nat \<Rightarrow> u32 option \<Rightarrow> 'w net \<Rightarrow> ((nat \<times> u8 list \<times> u32) option \<times> 'w net) run" where
  "etharp_find_addr netif ipaddr s =
     bind_run (etharp_find_entry ipaddr ETHARP_FLAG_FIND_ONLY netif s) (\<lambda>(r, s).
       case r of
         Inr i \<Rightarrow>
           if arp_state (arp_table s ! i) \<ge> ETHARP_STATE_STABLE
           then ret (Some (i, arp_ethaddr (arp_table s ! i), arp_ipaddr (arp_table s ! i)), s)
           else ret (None, s)
       | Inl _ \<Rightarrow> ret (None, s))"

definition etharp_get_entry :: "nat \<Rightarrow> 'w net \<Rightarrow> (u32 \<times> nat \<times> u8 list) option" where
  "etharp_get_entry i s =
     (if i < ARP_TABLE_SIZE \<and> arp_state (arp_table s ! i) \<ge> ETHARP_STATE_STABLE
      then Some (arp_ipaddr (arp_table s ! i), arp_netif (arp_table s ! i), arp_ethaddr (arp_table s ! i)) else None)"

subsection \<open>Input\<close>

text \<open>
  The fields of the ARP header lie at their offsets from \<open>p->payload\<close>; the code does not check that the
  packet is long enough for them.
\<close>

definition etharp_input :: "'w net_calls \<Rightarrow> nat \<Rightarrow> nat \<Rightarrow> 'w net \<Rightarrow> 'w net run" where
  "etharp_input nc p netif s =
     lwip_assert ''netif != NULL'' (netif \<noteq> 0)
      (bind_run (pget p (pb s)) (\<lambda>b.
        let hdr = pb_payload b in
        if load16 hdr (pb s) \<noteq> PP_HTONS 1 \<or> bytes (pb s) (hdr + 4) \<noteq> 6 \<or> bytes (pb s) (hdr + 5) \<noteq> 4
           \<or> load16 (hdr + 2) (pb s) \<noteq> PP_HTONS ETHTYPE_IP
        then bind_run (on_pb (pbuf_free p) s) (\<lambda>(_, s). ret s)
        else bind_run (autoip_arp_reply nc netif hdr s) (\<lambda>s.
          let sipaddr = load32 (hdr + 14) (pb s);
              dipaddr = load32 (hdr + 24) (pb s);
              shwaddr = read_bytes (hdr + 8) 6 (pb s)
          in bind_run (nget netif s) (\<lambda>ni.
             let for_us = (if ip_addr ni = IPADDR_ANY then False else dipaddr = ip_addr ni)
             in bind_run (etharp_update_arp_entry nc netif sipaddr shwaddr
                    (if for_us then ETHARP_FLAG_TRY_HARD else ETHARP_FLAG_FIND_ONLY) s) (\<lambda>(_, s).
                let opcode = load16 (hdr + 6) (pb s);
                    shwaddr = read_bytes (hdr + 8) 6 (pb s)
                in bind_run
                     (if opcode = PP_HTONS ARP_REQUEST then
                        if for_us then
                          bind_run (nget netif s) (\<lambda>ni.
                          bind_run (etharp_raw nc netif (hwaddr ni) shwaddr (hwaddr ni) (ip_addr ni) shwaddr sipaddr ARP_REPLY s)
                            (\<lambda>(_, s). ret s))
                        else ret s
                      else if opcode = PP_HTONS ARP_REPLY then dhcp_arp_reply nc netif sipaddr s
                      else ret s) (\<lambda>s.
                   bind_run (on_pb (pbuf_free p) s) (\<lambda>(_, s). ret s)))))))"

subsection \<open>Output\<close>

definition etharp_output_to_arp_index :: "'w net_calls \<Rightarrow> nat \<Rightarrow> nat \<Rightarrow> nat \<Rightarrow> 'w net \<Rightarrow> (err_t \<times> 'w net) run" where
  "etharp_output_to_arp_index nc netif q arp_idx s =
     (let e = arp_table s ! arp_idx in
      lwip_assert ''arp_table[arp_idx].state >= ETHARP_STATE_STABLE'' (arp_state e \<ge> ETHARP_STATE_STABLE)
       (bind_run
          (if arp_state e = ETHARP_STATE_STABLE then
             if arp_ctime e \<ge> ARP_AGE_REREQUEST_USED_BROADCAST then
               bind_run (etharp_request nc netif (arp_ipaddr e) s) (\<lambda>(err, s).
                 ret (if err = ERR_OK then arp_update arp_idx (\<lambda>e. e\<lparr>arp_state := ETHARP_STATE_STABLE_REREQUESTING_1\<rparr>) s else s))
             else if arp_ctime e \<ge> ARP_AGE_REREQUEST_USED_UNICAST then
               bind_run (etharp_request_dst nc netif (arp_ipaddr e) (arp_ethaddr e) s) (\<lambda>(err, s).
                 ret (if err = ERR_OK then arp_update arp_idx (\<lambda>e. e\<lparr>arp_state := ETHARP_STATE_STABLE_REREQUESTING_1\<rparr>) s else s))
             else ret s
           else ret s) (\<lambda>s.
        bind_run (nget netif s) (\<lambda>ni.
          ethernet_output nc netif q (hwaddr ni) (arp_ethaddr (arp_table s ! arp_idx)) ETHTYPE_IP s))))"

text \<open>The loop of \<open>etharp_query\<close> that looks for a buffer that must be copied.\<close>

partial_function (option) copy_needed_loop :: "pbuf_state \<Rightarrow> nat \<Rightarrow> bool run" where
  "copy_needed_loop s p =
     (if p \<noteq> 0 then
        bind_run (pget p s) (\<lambda>b.
          lwip_assert ''no packet queues allowed!'' (pb_len b \<noteq> pb_tot_len b \<or> pb_next b = 0)
           (if PBUF_NEEDS_COPY b then ret True else copy_needed_loop s (pb_next b)))
      else ret False)"

text \<open>The end of \<open>etharp_query\<close>: the packet is queued on the pending entry \<open>i\<close>.\<close>

definition query_queue :: "nat \<Rightarrow> nat \<Rightarrow> 'w net \<Rightarrow> (err_t \<times> 'w net) run" where
  "query_queue i q s =
     bind_run (copy_needed_loop (pb s) q) (\<lambda>copy_needed.
     bind_run
       (if copy_needed then on_pb (pbuf_clone PBUF_LINK PBUF_RAM q) s
        else on_pb (\<lambda>b. bind_run (pbuf_ref q b) (\<lambda>b. ret (q, b))) s) (\<lambda>(p, s).
       if p \<noteq> 0 then
         bind_run
           (if arp_q (arp_table s ! i) \<noteq> 0 then
              bind_run (on_pb (pbuf_free (arp_q (arp_table s ! i))) s) (\<lambda>(_, s). ret s)
            else ret s) (\<lambda>s.
           ret (ERR_OK, arp_update i (\<lambda>e. e\<lparr>arp_q := p\<rparr>) s))
       else ret (ERR_MEM, s)))"

definition etharp_query :: "'w net_calls \<Rightarrow> nat \<Rightarrow> u32 \<Rightarrow> nat \<Rightarrow> 'w net \<Rightarrow> (err_t \<times> 'w net) run" where
  "etharp_query nc netif ipaddr q s =
     bind_run (nget netif s) (\<lambda>ni.
       if ip4_addr_isbroadcast_u32 ipaddr ni \<or> ip4_addr_ismulticast ipaddr \<or> ipaddr = IPADDR_ANY then ret (ERR_ARG, s)
       else bind_run (etharp_find_entry (Some ipaddr) ETHARP_FLAG_TRY_HARD netif s) (\<lambda>(r, s).
         case r of
           Inl err \<Rightarrow> ret (err, s)
         | Inr i \<Rightarrow>
             let is_new_entry = (arp_state (arp_table s ! i) = ETHARP_STATE_EMPTY);
                 s = (if is_new_entry then arp_update i (\<lambda>e. e\<lparr>arp_state := ETHARP_STATE_PENDING, arp_netif := netif\<rparr>) s else s)
             in lwip_assert ''arp_table[i].state == PENDING or STABLE''
                  (arp_state (arp_table s ! i) = ETHARP_STATE_PENDING \<or> arp_state (arp_table s ! i) \<ge> ETHARP_STATE_STABLE)
                 (bind_run (if is_new_entry \<or> q = 0 then etharp_request nc netif ipaddr s else ret (ERR_MEM, s)) (\<lambda>(result, s).
                    if q = 0 then ret (result, s)
                    else if arp_state (arp_table s ! i) \<ge> ETHARP_STATE_STABLE then
                      let s = s\<lparr>etharp_cached_entry := i\<rparr>
                      in bind_run (nget netif s) (\<lambda>ni.
                           ethernet_output nc netif q (hwaddr ni) (arp_ethaddr (arp_table s ! i)) ETHTYPE_IP s)
                    else if arp_state (arp_table s ! i) = ETHARP_STATE_PENDING then query_queue i q s
                    else ret (result, s)))))"

definition stable_match :: "nat \<Rightarrow> u32 \<Rightarrow> etharp_entry \<Rightarrow> bool" where
  "stable_match netif dst_addr e \<longleftrightarrow> arp_state e \<ge> ETHARP_STATE_STABLE \<and> arp_netif e = netif \<and> dst_addr = arp_ipaddr e"

text \<open>The part of \<open>etharp_output\<close> for a unicast address, once the next hop \<open>dst_addr\<close> is known.\<close>

definition output_unicast :: "'w net_calls \<Rightarrow> nat \<Rightarrow> nat \<Rightarrow> u32 \<Rightarrow> 'w net \<Rightarrow> (err_t \<times> 'w net) run" where
  "output_unicast nc netif q dst_addr s =
     (if stable_match netif dst_addr (arp_table s ! etharp_cached_entry s)
      then etharp_output_to_arp_index nc netif q (etharp_cached_entry s) s
      else case find (\<lambda>i. stable_match netif dst_addr (arp_table s ! i)) [0..<ARP_TABLE_SIZE] of
        Some i \<Rightarrow> let s = s\<lparr>etharp_cached_entry := i\<rparr> in etharp_output_to_arp_index nc netif q i s
      | None \<Rightarrow> etharp_query nc netif dst_addr q s)"

definition etharp_output :: "'w net_calls \<Rightarrow> nat \<Rightarrow> nat \<Rightarrow> u32 \<Rightarrow> 'w net \<Rightarrow> (err_t \<times> 'w net) run" where
  "etharp_output nc netif q ipaddr s =
     lwip_assert ''netif != NULL'' (netif \<noteq> 0)
      (lwip_assert ''q != NULL'' (q \<noteq> 0)
       (bind_run (nget netif s) (\<lambda>ni.
         if ip4_addr_isbroadcast_u32 ipaddr ni then
           ethernet_output nc netif q (hwaddr ni) ethbroadcast ETHTYPE_IP s
         else if ip4_addr_ismulticast ipaddr then
           let a = memory_bytes ipaddr
           in ethernet_output nc netif q (hwaddr ni) [0x01, 0x00, 0x5e, a ! 1 AND 0x7f, a ! 2, a ! 3] ETHTYPE_IP s
         else if \<not> ip4_addr_netcmp ipaddr (ip_addr ni) (netmask ni) \<and> \<not> ip4_addr_islinklocal ipaddr then
           bind_run (pget q (pb s)) (\<lambda>b.
             if \<not> ip4_addr_islinklocal (load32 (pb_payload b + 12) (pb s)) then
               if gw ni \<noteq> IPADDR_ANY then output_unicast nc netif q (gw ni) s else ret (ERR_RTE, s)
             else output_unicast nc netif q ipaddr s)
         else output_unicast nc netif q ipaddr s)))"

subsection \<open>Frames from the driver\<close>

definition PBUF_FLAG_LLBCAST :: u8 where "PBUF_FLAG_LLBCAST = 0x08"
definition PBUF_FLAG_LLMCAST :: u8 where "PBUF_FLAG_LLMCAST = 0x10"

text \<open>The flags that \<open>ethernet_input\<close> sets for a frame to this destination.\<close>

definition dest_flags :: "u8 list \<Rightarrow> u8" where
  "dest_flags dest =
     (if dest ! 0 AND 1 \<noteq> 0 then
        if dest ! 0 = 0x01 then (if dest ! 1 = 0x00 \<and> dest ! 2 = 0x5e then PBUF_FLAG_LLMCAST else 0)
        else if dest ! 0 = 0x33 \<and> dest ! 1 = 0x33 then PBUF_FLAG_LLMCAST
        else if dest = ethbroadcast then PBUF_FLAG_LLBCAST
        else 0
      else 0)"

definition ethernet_input :: "'w net_calls \<Rightarrow> nat \<Rightarrow> nat \<Rightarrow> 'w net \<Rightarrow> (err_t \<times> 'w net) run" where
  "ethernet_input nc p netif s =
     (let free_and_return = (\<lambda>s. bind_run (on_pb (pbuf_free p) s) (\<lambda>(_, s). ret (ERR_OK, s))) in
      bind_run (pget p (pb s)) (\<lambda>b.
        if pb_len b \<le> SIZEOF_ETH_HDR then free_and_return s
        else bind_run (nget netif s) (\<lambda>ni.
          let b = (if pb_if_idx b = 0 then b\<lparr>pb_if_idx := U8 (netif_num ni + 1)\<rparr> else b);
              ethhdr = pb_payload b;
              type = load16 (ethhdr + 12) (pb s);
              b = b\<lparr>pb_flags := pb_flags b OR dest_flags (read_bytes ethhdr 6 (pb s))\<rparr>;
              s = s\<lparr>pb := pset p b (pb s)\<rparr>
          in if type = PP_HTONS ETHTYPE_IP then
               if netif_flags ni AND NETIF_FLAG_ETHARP = 0 then free_and_return s
               else bind_run (on_pb (pbuf_remove_header p SIZEOF_ETH_HDR) s) (\<lambda>(r, s).
                 if r \<noteq> 0 then free_and_return s
                 else bind_run (ip4_input nc p netif s) (\<lambda>s. ret (ERR_OK, s)))
             else if type = PP_HTONS ETHTYPE_ARP then
               if netif_flags ni AND NETIF_FLAG_ETHARP = 0 then free_and_return s
               else bind_run (on_pb (pbuf_remove_header p SIZEOF_ETH_HDR) s) (\<lambda>(r, s).
                 if r \<noteq> 0 then free_and_return s
                 else bind_run (etharp_input nc p netif s) (\<lambda>s. ret (ERR_OK, s)))
             else if type = PP_HTONS ETHTYPE_IPV6 then
               bind_run (pget p (pb s)) (\<lambda>b.
                 if pb_len b < SIZEOF_ETH_HDR then free_and_return s
                 else bind_run (on_pb (pbuf_remove_header p SIZEOF_ETH_HDR) s) (\<lambda>(r, s).
                   if r \<noteq> 0 then free_and_return s
                   else bind_run (ip6_input nc p netif s) (\<lambda>s. ret (ERR_OK, s))))
             else free_and_return s)))"

end
