(* ===== verification/Etharp_Table.thy ===== *)
theory Etharp_Table
  imports Etharp
begin

text \<open>
  The ARP table. \<open>table_ok\<close> says what a well-formed table is: no two entries for one address on one
  interface, packets queued on pending entries only, ages below their limits. The lemmas describe
  the search and the choice of an entry to recycle, and show that the search ends in an answer.
\<close>

abbreviation nonempty :: "etharp_entry \<Rightarrow> bool" where
  "nonempty e \<equiv> arp_state e \<noteq> ETHARP_STATE_EMPTY"

abbreviation stable :: "etharp_entry \<Rightarrow> bool" where
  "stable e \<equiv> ETHARP_STATE_STABLE \<le> arp_state e"

definition entry_ok :: "etharp_entry \<Rightarrow> bool" where
  "entry_ok e \<longleftrightarrow>
     (arp_state e \<noteq> ETHARP_STATE_PENDING \<longrightarrow> arp_q e = 0)
     \<and> (arp_state e = ETHARP_STATE_PENDING \<longrightarrow> arp_ctime e < ARP_MAXPENDING)
     \<and> (stable e \<longrightarrow> arp_ctime e < ARP_MAXAGE \<and> length (arp_ethaddr e) = ETH_HWADDR_LEN)"

definition same_key :: "etharp_entry \<Rightarrow> etharp_entry \<Rightarrow> bool" where
  "same_key d e \<longleftrightarrow> nonempty d \<and> nonempty e \<and> arp_ipaddr d = arp_ipaddr e \<and> arp_netif d = arp_netif e"

definition table_ok :: "etharp_entry list \<Rightarrow> bool" where
  "table_ok t \<longleftrightarrow> length t = ARP_TABLE_SIZE \<and> list_all entry_ok t
     \<and> (\<forall>i j. i < ARP_TABLE_SIZE \<longrightarrow> j < ARP_TABLE_SIZE \<longrightarrow> same_key (t ! i) (t ! j) \<longrightarrow> i = j)"

text \<open>The index of the entry for an address on an interface: what a lookup should find.\<close>

definition lookup :: "etharp_entry list \<Rightarrow> u32 \<Rightarrow> nat \<Rightarrow> nat option" where
  "lookup t ipaddr netif = find (\<lambda>i. nonempty (t ! i) \<and> entry_matches (Some ipaddr) netif (t ! i)) [0..<ARP_TABLE_SIZE]"

text \<open>\<open>i\<close> is the oldest of the first \<open>k\<close> entries with the property, if there is one.\<close>

definition oldest :: "etharp_entry list \<Rightarrow> nat \<Rightarrow> (etharp_entry \<Rightarrow> bool) \<Rightarrow> nat \<Rightarrow> u16 \<Rightarrow> bool" where
  "oldest t k P i age \<longleftrightarrow>
     (if \<exists>j<k. P (t ! j) then i < k \<and> P (t ! i) \<and> age = arp_ctime (t ! i) \<and> (\<forall>j<k. P (t ! j) \<longrightarrow> arp_ctime (t ! j) \<le> age)
      else i = ARP_TABLE_SIZE \<and> age = 0)"

definition first_empty :: "etharp_entry list \<Rightarrow> nat \<Rightarrow> nat \<Rightarrow> bool" where
  "first_empty t k i \<longleftrightarrow>
     (if \<exists>j<k. \<not> nonempty (t ! j) then i < k \<and> \<not> nonempty (t ! i) \<and> (\<forall>j<i. nonempty (t ! j)) else i = ARP_TABLE_SIZE)"

definition pending_plain :: "etharp_entry \<Rightarrow> bool" where
  "pending_plain e \<longleftrightarrow> arp_state e = ETHARP_STATE_PENDING \<and> arp_q e = 0"

definition pending_queued :: "etharp_entry \<Rightarrow> bool" where
  "pending_queued e \<longleftrightarrow> arp_state e = ETHARP_STATE_PENDING \<and> arp_q e \<noteq> 0"

definition cand_ok :: "etharp_entry list \<Rightarrow> nat \<Rightarrow> find_cand \<Rightarrow> bool" where
  "cand_ok t k c \<longleftrightarrow> first_empty t k (c_empty c) \<and> oldest t k stable (c_old_stable c) (c_age_stable c)
     \<and> oldest t k pending_plain (c_old_pending c) (c_age_pending c)
     \<and> oldest t k pending_queued (c_old_queue c) (c_age_queue c)"

text \<open>The entry that is recycled: the least destructive choice.\<close>

definition recycle_choice :: "etharp_entry list \<Rightarrow> nat \<Rightarrow> bool" where
  "recycle_choice t i \<longleftrightarrow> i < ARP_TABLE_SIZE \<and>
     (if \<exists>j<ARP_TABLE_SIZE. \<not> nonempty (t ! j) then \<not> nonempty (t ! i) \<and> (\<forall>j<i. nonempty (t ! j))
      else if \<exists>j<ARP_TABLE_SIZE. stable (t ! j) then oldest t ARP_TABLE_SIZE stable i (arp_ctime (t ! i))
      else if \<exists>j<ARP_TABLE_SIZE. pending_plain (t ! j) then oldest t ARP_TABLE_SIZE pending_plain i (arp_ctime (t ! i))
      else oldest t ARP_TABLE_SIZE pending_queued i (arp_ctime (t ! i)))"

subsection \<open>States\<close>

lemma stable_iff: "ETHARP_STATE_STABLE \<le> st \<longleftrightarrow> st \<noteq> ETHARP_STATE_EMPTY \<and> st \<noteq> ETHARP_STATE_PENDING"
  by (cases st) (simp_all add: less_eq_etharp_state_def)

lemma entry_cases:
  obtains "\<not> nonempty e" "\<not> stable e" "\<not> pending_plain e" "\<not> pending_queued e"
  | "nonempty e" "stable e" "\<not> pending_plain e" "\<not> pending_queued e"
  | "nonempty e" "\<not> stable e" "pending_plain e" "\<not> pending_queued e"
  | "nonempty e" "\<not> stable e" "\<not> pending_plain e" "pending_queued e"
  by (auto simp: stable_iff pending_plain_def pending_queued_def)

subsection \<open>The sweep\<close>

lemma oldest_skip: "oldest t k P i a \<Longrightarrow> \<not> P (t ! k) \<Longrightarrow> oldest t (Suc k) P i a"
  unfolding oldest_def by (auto simp: less_Suc_eq split: if_splits)

lemma oldest_take:
  assumes "oldest t k P i a" "P (t ! k)"
  shows "a \<le> arp_ctime (t ! k) \<Longrightarrow> oldest t (Suc k) P k (arp_ctime (t ! k))"
    and "\<not> a \<le> arp_ctime (t ! k) \<Longrightarrow> oldest t (Suc k) P i a"
  using assms unfolding oldest_def
  by (auto simp: less_Suc_eq split: if_splits)

lemma first_empty_skip: "first_empty t k i \<Longrightarrow> nonempty (t ! k) \<or> i \<noteq> ARP_TABLE_SIZE \<Longrightarrow> first_empty t (Suc k) i"
  unfolding first_empty_def by (auto simp: less_Suc_eq split: if_splits)

lemma first_empty_take:
  "first_empty t k ARP_TABLE_SIZE \<Longrightarrow> k \<le> ARP_TABLE_SIZE \<Longrightarrow> \<not> nonempty (t ! k) \<Longrightarrow> first_empty t (Suc k) k"
  unfolding first_empty_def by (auto simp: less_Suc_eq split: if_splits)

lemma cand_ok_none: "cand_ok t 0 no_cand"
  by (simp add: cand_ok_def no_cand_def oldest_def first_empty_def)

lemma cand_ok_remember:
  assumes "cand_ok t k c" "nonempty (t ! k)"
  shows "cand_ok t (Suc k) (remember k (t ! k) c)"
proof -
  note c = assms(1) [unfolded cand_ok_def]
  show ?thesis
    using assms(2) c
    by (cases "t ! k" rule: entry_cases)
      (auto simp: cand_ok_def remember_def pending_plain_def pending_queued_def stable_iff
        intro: first_empty_skip oldest_skip oldest_take)
qed

lemma cand_ok_empty:
  assumes "cand_ok t k c" "\<not> nonempty (t ! k)" "k \<le> ARP_TABLE_SIZE"
  shows "cand_ok t (Suc k) (if c_empty c = ARP_TABLE_SIZE then c\<lparr>c_empty := k\<rparr> else c)"
proof -
  note c = assms(1) [unfolded cand_ok_def]
  show ?thesis
    using assms(2) c
    by (cases "t ! k" rule: entry_cases)
      (auto simp: cand_ok_def intro: first_empty_skip first_empty_take [OF _ assms(3)] oldest_skip)
qed

lemma find_sweep_spec:
  assumes "length t = ARP_TABLE_SIZE" "es = drop k t" "k \<le> ARP_TABLE_SIZE" "cand_ok t k c"
    and "\<forall>j<k. \<not> (nonempty (t ! j) \<and> entry_matches ipaddr netif (t ! j))"
  shows "(\<exists>i. find_sweep ipaddr netif k es c = ret (Inl i) \<and> i < ARP_TABLE_SIZE \<and> nonempty (t ! i) \<and> entry_matches ipaddr netif (t ! i)
            \<and> (\<forall>j<i. \<not> (nonempty (t ! j) \<and> entry_matches ipaddr netif (t ! j))))
       \<or> (\<exists>c'. find_sweep ipaddr netif k es c = ret (Inr c') \<and> cand_ok t ARP_TABLE_SIZE c'
            \<and> (\<forall>j<ARP_TABLE_SIZE. \<not> (nonempty (t ! j) \<and> entry_matches ipaddr netif (t ! j))))"
  using assms(2-5)
proof (induction es arbitrary: k c)
  case Nil
  then have "k = ARP_TABLE_SIZE" using assms(1) by simp
  with Nil show ?case by auto
next
  case (Cons e es)
  have k: "k < ARP_TABLE_SIZE" "e = t ! k" "es = drop (Suc k) t"
    using Cons.prems(1) assms(1) by (auto simp: drop_eq_Nil2 not_le [symmetric] nth_via_drop Cons_nth_drop_Suc [symmetric])
      (metis Cons_nth_drop_Suc drop_eq_Nil2 leI list.distinct(1) list.inject)+
  have nxt: "\<forall>j<Suc k. \<not> (nonempty (t ! j) \<and> entry_matches ipaddr netif (t ! j))"
    if "\<not> (nonempty e \<and> entry_matches ipaddr netif e)" using that Cons.prems(4) k(2) by (auto simp: less_Suc_eq)
  show ?case
  proof (cases "nonempty e")
    case False
    have "cand_ok t (Suc k) (if c_empty c = ARP_TABLE_SIZE then c\<lparr>c_empty := k\<rparr> else c)"
      using cand_ok_empty [OF Cons.prems(3)] False k by simp
    from Cons.IH [OF k(3) _ this nxt] False k(1) show ?thesis by (auto split: if_splits)
  next
    case ne: True
    then have a: "arp_state e = ETHARP_STATE_PENDING \<or> ETHARP_STATE_STABLE \<le> arp_state e" by (simp add: stable_iff)
    show ?thesis
    proof (cases "entry_matches ipaddr netif e")
      case True
      then show ?thesis using ne a k Cons.prems(4) by (intro disjI1 exI [of _ k]) auto
    next
      case False
      have "cand_ok t (Suc k) (remember k (t ! k) c)" by (rule cand_ok_remember [OF Cons.prems(3)]) (use ne k in simp)
      from Cons.IH [OF k(3) _ this nxt] False ne a k show ?thesis by auto
    qed
  qed
qed

end
