(* ===== verification/Autoip_Machine.thy ===== *)
theory Autoip_Machine
  imports Autoip
begin

text \<open>
  The state machine of an AutoIP client. \<open>tick\<close> is one round of its timer as a pure function on the
  struct, with the action to take; the lemmas show that the code on the state of the stack does
  exactly this for every interface, that starting, stopping, conflicts and changes of the network do
  what RFC 3927 asks for, and how many rounds it takes from the first probe to a bound address.
\<close>

datatype autoip_action = Nothing | Probe | Bind | Announce

definition waited :: "autoip \<Rightarrow> autoip" where
  "waited a =
     (let a = (if lastconflict a > 0 then a\<lparr>lastconflict := lastconflict a - 1\<rparr> else a)
      in if ttw a > 0 then a\<lparr>ttw := ttw a - 1\<rparr> else a)"

text \<open>The pause between two probes is at least one and less than two seconds.\<close>

definition probe_pause :: "netif \<Rightarrow> autoip \<Rightarrow> nat" where
  "probe_pause ni a = 10 + unat (LWIP_AUTOIP_RAND ni (Some a)) mod 10"

lemma pause_word:
  "ucast (LWIP_AUTOIP_RAND ni (Some a) mod of_nat ((PROBE_MAX - PROBE_MIN) * AUTOIP_TICKS_PER_SECOND)
     + of_nat (PROBE_MIN * AUTOIP_TICKS_PER_SECOND)) = (of_nat (probe_pause ni a) :: u16)"
proof -
  let ?r = "LWIP_AUTOIP_RAND ni (Some a)"
  have "unat (?r mod 10 + 10) = probe_pause ni a" by (simp add: unat_add_u32 unat_mod probe_pause_def)
  moreover have "ucast w = (of_nat (unat w) :: u16)" for w :: u32
    by (simp add: word_unat_eq_iff unsigned_ucast_eq unat_of_nat take_bit_eq_mod)
  ultimately have "ucast (?r mod 10 + 10) = (of_nat (probe_pause ni a) :: u16)" by metis
  then show ?thesis by (simp add: PROBE_MAX_def PROBE_MIN_def AUTOIP_TICKS_PER_SECOND_def)
qed

definition probed :: "netif \<Rightarrow> autoip \<Rightarrow> autoip" where
  "probed ni a = a\<lparr>sent_num := sent_num a + 1,
     ttw := if sent_num a + 1 = PROBE_NUM then ticks ANNOUNCE_WAIT else of_nat (probe_pause ni a)\<rparr>"

definition announced :: "autoip \<Rightarrow> autoip" where
  "announced a =
     (if sent_num a + 1 \<ge> ANNOUNCE_NUM then a\<lparr>ai_state := AUTOIP_STATE_BOUND, sent_num := 0, ttw := 0\<rparr>
      else a\<lparr>sent_num := sent_num a + 1, ttw := ticks ANNOUNCE_INTERVAL\<rparr>)"

definition tick :: "netif \<Rightarrow> autoip \<Rightarrow> autoip \<times> autoip_action" where
  "tick ni a =
     (let a = waited a in
      case ai_state a of
        AUTOIP_STATE_PROBING \<Rightarrow>
          if ttw a \<noteq> 0 then (a, Nothing)
          else if sent_num a \<ge> PROBE_NUM
          then (a\<lparr>ai_state := AUTOIP_STATE_ANNOUNCING, sent_num := 1, ttw := ticks ANNOUNCE_WAIT\<rparr>, Bind)
          else (probed ni a, Probe)
      | AUTOIP_STATE_ANNOUNCING \<Rightarrow> if ttw a \<noteq> 0 then (a, Nothing) else (announced a, Announce)
      | _ \<Rightarrow> (a, Nothing))"

text \<open>What an action does to the interface, and the frames it sends.\<close>

definition bound_netif :: "netif \<Rightarrow> u32 \<Rightarrow> netif" where
  "bound_netif ni ll = configured ni ll (PP_HTONL 0xffff0000) 0"

fun act_netif :: "autoip_action \<Rightarrow> autoip \<Rightarrow> netif \<Rightarrow> netif" where
  "act_netif Bind a ni = bound_netif ni (llipaddr a)"
| "act_netif _ a ni = ni"

fun act_frames :: "nat \<Rightarrow> autoip_action \<Rightarrow> autoip \<Rightarrow> netif \<Rightarrow> frames" where
  "act_frames n Nothing a ni = []"
| "act_frames n Probe a ni = [(n, request_frame ni (llipaddr a))]"
| "act_frames n Bind a ni = (if llipaddr a = ip_addr ni then [] else announces n (bound_netif ni (llipaddr a)))"
| "act_frames n Announce a ni = [(n, request_frame ni (ip_addr ni))]"

lemma waited_simps [simp]:
  "ai_state (waited a) = ai_state a" "llipaddr (waited a) = llipaddr a" "sent_num (waited a) = sent_num a"
  "tried_llipaddr (waited a) = tried_llipaddr a" "ttw (waited a) = (if ttw a > 0 then ttw a - 1 else ttw a)"
  by (simp_all add: waited_def Let_def)

lemma tick_same: "llipaddr (fst (tick ni a)) = llipaddr a" "tried_llipaddr (fst (tick ni a)) = tried_llipaddr a"
  by (auto simp: tick_def Let_def probed_def announced_def split: autoip_state.splits)

lemma aput_simps [simp]:
  "pb (aput d a s) = pb s" "netifs (aput d a s) = netifs s" "world (aput d a s) = world s" "autoips (aput d a s) = (autoips s)(d \<mapsto> a)"
  "netif_list (aput d a s) = netif_list s" "arp_table (aput d a s) = arp_table s" "etharp_cached_entry (aput d a s) = etharp_cached_entry s"
  "netif_default (aput d a s) = netif_default s" "next_netif_num (aput d a s) = next_netif_num s" "low_heap (aput d a s) = low_heap s"
  by (simp_all add: aput_def low_heap_def)

lemma performed_aput [simp]:
  "performed nc log fs s (aput d a s') = performed nc log fs s s'" "performed nc log fs (aput d a s) s' = performed nc log fs s s'"
  by (simp_all add: performed_def)

lemma aget_Some: "d \<noteq> 0 \<Longrightarrow> autoips s d = Some a \<Longrightarrow> aget d s = ret a"
  by (simp add: aget_def)

lemma ether_aput [simp]: "ether_netif (aput d a s) n ni = ether_netif s n ni"
  by (simp add: ether_netif_def)

lemma gratuitous_performed:
  assumes "setting nc" "pbuf_inv (pb s)" "ether_netif s n ni"
  shows "\<exists>r s'. autoip_arp_announce nc n s = ret (r, s') \<and> performed nc log [(n, request_frame ni (ip_addr ni))] s s'
    \<and> netifs s' = netifs s \<and> autoips s' = autoips s"
  using request_performed [OF assms, of "ip_addr ni" log] ether_nget [OF assms(3)]
  by (simp add: autoip_arp_announce_def etharp_gratuitous_def)

text \<open>The client of an interface: the interface and the struct of its AutoIP client.\<close>

definition client :: "'w net \<Rightarrow> nat \<Rightarrow> netif \<Rightarrow> autoip \<Rightarrow> bool" where
  "client s n ni a \<longleftrightarrow> ether_netif s n ni \<and> autoip_data ni \<noteq> 0 \<and> autoips s (autoip_data ni) = Some a"

lemma clientD:
  assumes "client s n ni a"
  shows "ether_netif s n ni" "nget n s = ret ni" "aget (autoip_data ni) s = ret a" "autoip_data ni \<noteq> 0" "autoips s (autoip_data ni) = Some a"
  using assms ether_nget by (auto simp: client_def aget_def)

lemma tmr_probing_ok:
  assumes st: "setting nc" and inv: "pbuf_inv (pb s)" and c: "client s n ni a" and a: "ai_state a = AUTOIP_STATE_PROBING"
  defines "x \<equiv> if sent_num a \<ge> PROBE_NUM then Bind else Probe"
  defines "a' \<equiv> if sent_num a \<ge> PROBE_NUM then a\<lparr>ai_state := AUTOIP_STATE_ANNOUNCING, sent_num := 1, ttw := ticks ANNOUNCE_WAIT\<rparr> else probed ni a"
  shows "\<exists>s'. tmr_probing nc n ni a s = ret s' \<and> autoips s' = (autoips s)(autoip_data ni \<mapsto> a')
    \<and> netifs s' = (netifs s)(n \<mapsto> act_netif x a ni) \<and> performed nc log (act_frames n x a ni) s s'"
proof -
  let ?d = "autoip_data ni"
  note cD = clientD [OF c]
  show ?thesis
  proof (cases "sent_num a \<ge> PROBE_NUM")
    case True
    let ?a1 = "a\<lparr>ai_state := AUTOIP_STATE_ANNOUNCING\<rparr>"
    let ?s = "aput ?d ?a1 s"
    have e: "ether_netif ?s n ni" "pbuf_inv (pb ?s)" using cD(1) inv by simp_all
    obtain s1 where s1: "netif_set_addr nc n (Some (llipaddr a)) (Some (PP_HTONL 0xffff0000)) (Some 0) ?s = ret s1"
      "netifs s1 = (netifs ?s)(n \<mapsto> bound_netif ni (llipaddr a))" "autoips s1 = autoips ?s"
      "performed nc log (if llipaddr a = ip_addr ni then [] else announces n (bound_netif ni (llipaddr a))) ?s s1"
      using set_addr_ok [OF st e(2,1), of "Some (llipaddr a)" "Some (PP_HTONL 0xffff0000)" "Some 0" log,
          unfolded addr_or_any_Some, folded bound_netif_def] by blast
    have "autoip_bind nc n ?s = ret s1"
      using s1(1) ether_nget(1) [OF e(1)] cD(4) by (simp add: autoip_bind_def aget_def)
    moreover have "aget ?d s1 = ret ?a1" using s1(3) cD(4) by (simp add: aget_def)
    ultimately have "tmr_probing nc n ni a s = ret (aput ?d (?a1\<lparr>sent_num := 1, ttw := ticks ANNOUNCE_WAIT\<rparr>) s1)"
      using True by (simp add: tmr_probing_def Let_def)
    then show ?thesis using True s1(2-4) by (simp add: x_def a'_def)
  next
    case False
    obtain r s1 where s1: "etharp_request nc n (llipaddr a) s = ret (r, s1)" "performed nc log [(n, request_frame ni (llipaddr a))] s s1"
      "netifs s1 = netifs s" "autoips s1 = autoips s"
      using request_performed [OF st inv cD(1), of "llipaddr a" log] by blast
    have p: "autoip_arp_probe nc n s = ret (r, s1)" using s1(1) cD by (simp add: autoip_arp_probe_def)
    have g: "aget ?d s1 = ret a" using s1(4) cD(4,5) by (simp add: aget_def)
    have "LWIP_AUTOIP_RAND ni (Some (a\<lparr>sent_num := sent_num a + 1\<rparr>)) = LWIP_AUTOIP_RAND ni (Some a)" by (simp add: LWIP_AUTOIP_RAND_def)
    then have "tmr_probing nc n ni a s = ret (aput ?d (probed ni a) s1)"
      using False p g by (simp add: tmr_probing_def probed_def Let_def pause_word del: of_nat_mult of_nat_diff)
    moreover have "netifs s = (netifs s)(n \<mapsto> ni)" using ether_nget(3) [OF cD(1)] by (simp add: map_upd_triv)
    ultimately show ?thesis using False s1(2-4) by (simp add: x_def a'_def)
  qed
qed

lemma tmr_announcing_ok:
  assumes st: "setting nc" and inv: "pbuf_inv (pb s)" and c: "client s n ni a"
  shows "\<exists>s'. tmr_announcing nc n ni s = ret s' \<and> autoips s' = (autoips s)(autoip_data ni \<mapsto> announced a)
    \<and> netifs s' = (netifs s)(n \<mapsto> ni) \<and> performed nc log (act_frames n Announce a ni) s s'"
proof -
  note cD = clientD [OF c]
  obtain r s1 where s1: "autoip_arp_announce nc n s = ret (r, s1)" "performed nc log [(n, request_frame ni (ip_addr ni))] s s1"
    "netifs s1 = netifs s" "autoips s1 = autoips s"
    using gratuitous_performed [OF st inv cD(1)] by blast
  have g: "aget (autoip_data ni) s1 = ret a" using s1(4) cD(4,5) by (simp add: aget_def)
  have "tmr_announcing nc n ni s = ret (aput (autoip_data ni) (announced a) s1)"
    using s1(1) g by (cases a) (simp add: tmr_announcing_def announced_def Let_def)
  moreover have "netifs s = (netifs s)(n \<mapsto> ni)" using ether_nget(3) [OF cD(1)] by (simp add: map_upd_triv)
  ultimately show ?thesis using s1(2-4) by simp
qed

text \<open>One round for one interface.\<close>

lemma tmr_netif_ok:
  assumes st: "setting nc" and inv: "pbuf_inv (pb s)" and c: "client s n ni a" and x: "tick ni a = (a', x)"
  shows "\<exists>s'. autoip_tmr_netif nc n s = ret s' \<and> autoips s' = (autoips s)(autoip_data ni \<mapsto> a')
    \<and> netifs s' = (netifs s)(n \<mapsto> act_netif x a ni) \<and> performed nc log (act_frames n x a ni) s s'"
proof -
  note cD = clientD [OF c]
  let ?a = "waited a" and ?d = "autoip_data ni"
  let ?s = "aput ?d ?a s"
  have c1: "client ?s n ni ?a" and inv1: "pbuf_inv (pb ?s)" using c inv by (simp_all add: client_def)
  have triv: "netifs s = (netifs s)(n \<mapsto> ni)" using ether_nget(3) [OF cD(1)] by (simp add: map_upd_triv)
  have run: "autoip_tmr_netif nc n s = (case ai_state ?a of
        AUTOIP_STATE_PROBING \<Rightarrow> if ttw ?a = 0 then tmr_probing nc n ni ?a ?s else ret ?s
      | AUTOIP_STATE_ANNOUNCING \<Rightarrow> if ttw ?a = 0 then tmr_announcing nc n ni ?s else ret ?s
      | _ \<Rightarrow> ret ?s)"
    unfolding autoip_tmr_netif_def cD(2,3) bind_run_ret if_P [OF cD(4)] waited_def Let_def ..
  have idle: ?thesis if "autoip_tmr_netif nc n s = ret ?s" "a' = ?a" "x = Nothing"
    using that triv performed_refl [OF inv] by simp
  have frames: "act_frames n y ?a ni = act_frames n y a ni" "act_netif y ?a ni = act_netif y a ni" for y by (cases y; simp)+
  show ?thesis
  proof (cases "ttw ?a = 0 \<and> (ai_state ?a = AUTOIP_STATE_PROBING \<or> ai_state ?a = AUTOIP_STATE_ANNOUNCING)")
    case False
    then show ?thesis using x by (intro idle) (auto simp: run tick_def Let_def simp del: waited_simps split: autoip_state.splits)
  next
    case True
    then consider (p) "ttw ?a = 0" "ai_state ?a = AUTOIP_STATE_PROBING" | (a) "ttw ?a = 0" "ai_state ?a = AUTOIP_STATE_ANNOUNCING" by blast
    then show ?thesis
    proof cases
      case p
      then have "autoip_tmr_netif nc n s = tmr_probing nc n ni ?a ?s" unfolding run by simp
      moreover have "x = (if sent_num ?a \<ge> PROBE_NUM then Bind else Probe)"
        "a' = (if sent_num ?a \<ge> PROBE_NUM then ?a\<lparr>ai_state := AUTOIP_STATE_ANNOUNCING, sent_num := 1, ttw := ticks ANNOUNCE_WAIT\<rparr> else probed ni ?a)"
        using x p by (auto simp: tick_def Let_def simp del: waited_simps split: if_splits)
      ultimately show ?thesis using tmr_probing_ok [OF st inv1 c1 p(2), of log] by (simp add: frames)
    next
      case a
      then have "autoip_tmr_netif nc n s = tmr_announcing nc n ni ?s" unfolding run by simp
      moreover have "x = Announce" "a' = announced ?a"
        using x a by (auto simp: tick_def Let_def simp del: waited_simps split: if_splits)
      ultimately show ?thesis using tmr_announcing_ok [OF st inv1 c1, of log] by (simp add: frames)
    qed
  qed
qed

subsection \<open>The clients of all interfaces\<close>

text \<open>
  Every interface of the list is an Ethernet interface, and clients have a struct of their own.
  \<open>view\<close> is the client of an interface; an operation on one client leaves the others alone.
\<close>

definition clients_ok :: "'w net \<Rightarrow> bool" where
  "clients_ok s \<longleftrightarrow> distinct (netif_list s) \<and> (\<forall>n\<in>set (netif_list s). \<exists>ni. ether_netif s n ni)
     \<and> (\<forall>n ni. netifs s n = Some ni \<longrightarrow> autoip_data ni \<noteq> 0 \<longrightarrow> (\<exists>a. autoips s (autoip_data ni) = Some a))
     \<and> (\<forall>n m ni mi. netifs s n = Some ni \<longrightarrow> netifs s m = Some mi \<longrightarrow> n \<noteq> m \<longrightarrow> autoip_data ni \<noteq> 0 \<longrightarrow> autoip_data ni \<noteq> autoip_data mi)"

definition view :: "'w net \<Rightarrow> nat \<Rightarrow> (netif \<times> autoip) option" where
  "view s n = Option.bind (netifs s n) (\<lambda>ni. if autoip_data ni = 0 then None else map_option (Pair ni) (autoips s (autoip_data ni)))"

definition step_view :: "netif \<times> autoip \<Rightarrow> netif \<times> autoip" where
  "step_view = (\<lambda>(ni, a). (act_netif (snd (tick ni a)) a ni, fst (tick ni a)))"

definition step_frames :: "nat \<Rightarrow> netif \<times> autoip \<Rightarrow> frames" where
  "step_frames n = (\<lambda>(ni, a). act_frames n (snd (tick ni a)) a ni)"

definition frames_of :: "nat \<Rightarrow> (netif \<times> autoip) option \<Rightarrow> frames" where
  "frames_of n v = (case v of None \<Rightarrow> [] | Some c \<Rightarrow> step_frames n c)"

text \<open>What never changes of an interface.\<close>

definition kin :: "netif \<Rightarrow> netif \<Rightarrow> bool" where
  "kin ni ni' \<longleftrightarrow> hwaddr ni' = hwaddr ni \<and> hwaddr_len ni' = hwaddr_len ni \<and> netif_flags ni' = netif_flags ni \<and> netif_num ni' = netif_num ni
     \<and> mtu ni' = mtu ni \<and> autoip_data ni' = autoip_data ni"

definition netifs_kin :: "'w net \<Rightarrow> 'w net \<Rightarrow> bool" where
  "netifs_kin s s' \<longleftrightarrow> (\<forall>n. rel_option kin (netifs s n) (netifs s' n))"

lemma kin_refl [simp]: "kin ni ni"
  by (simp add: kin_def)

lemma kin_configured [simp]: "kin ni (configured ni a m g)"
  by (simp add: kin_def configured_def)

lemma kin_act [simp]: "kin ni (act_netif x a ni)"
  by (cases x) (simp_all add: bound_netif_def)

lemma netifs_kin_refl: "netifs s' = netifs s \<Longrightarrow> netifs_kin s s'"
  by (simp add: netifs_kin_def option.rel_refl)

lemma netifs_kin_trans: "netifs_kin s t \<Longrightarrow> netifs_kin t u \<Longrightarrow> netifs_kin s u"
  unfolding netifs_kin_def
proof
  fix n
  assume "\<forall>n. rel_option kin (netifs s n) (netifs t n)" "\<forall>n. rel_option kin (netifs t n) (netifs u n)"
  then have "rel_option kin (netifs s n) (netifs t n)" "rel_option kin (netifs t n) (netifs u n)" by simp_all
  then show "rel_option kin (netifs s n) (netifs u n)"
    by (cases "netifs s n"; cases "netifs t n"; cases "netifs u n") (simp_all add: kin_def)
qed

lemma ether_kin:
  assumes "netifs_kin s s'" "ether_netif s n ni"
  shows "\<exists>ni'. ether_netif s' n ni' \<and> kin ni ni'"
proof -
  have "rel_option kin (Some ni) (netifs s' n)" using assms ether_nget(3) [OF assms(2)] unfolding netifs_kin_def by metis
  then obtain ni' where "netifs s' n = Some ni'" "kin ni ni'" by (cases "netifs s' n") simp_all
  then show ?thesis using assms(2) by (auto simp: ether_netif_def kin_def)
qed

lemma clients_okD:
  assumes "clients_ok s"
  shows "distinct (netif_list s)" "n \<in> set (netif_list s) \<Longrightarrow> \<exists>ni. ether_netif s n ni"
    "netifs s n = Some ni \<Longrightarrow> autoip_data ni \<noteq> 0 \<Longrightarrow> \<exists>a. autoips s (autoip_data ni) = Some a"
    "netifs s n = Some ni \<Longrightarrow> netifs s m = Some mi \<Longrightarrow> n \<noteq> m \<Longrightarrow> autoip_data ni \<noteq> 0 \<Longrightarrow> autoip_data ni \<noteq> autoip_data mi"
  using assms by (simp_all add: clients_ok_def)

lemma client_view: "client s n ni a \<Longrightarrow> view s n = Some (ni, a)"
  using ether_nget(3) [of s n ni] by (auto simp: client_def view_def)

lemma view_client:
  assumes "clients_ok s" "n \<in> set (netif_list s)" "view s n = Some (ni, a)"
  shows "client s n ni a"
proof -
  obtain mi where mi: "ether_netif s n mi" using clients_okD(2) [OF assms(1,2)] by blast
  then show ?thesis using assms(3) ether_nget(3) [OF mi] by (auto simp: view_def client_def split: if_splits)
qed

lemma client_change:
  assumes ok: "clients_ok s" and c: "client s n ni a" and k: "kin ni ni'"
    and s': "autoips s' = (autoips s)(autoip_data ni \<mapsto> a')" "netifs s' = (netifs s)(n \<mapsto> ni')" "netif_list s' = netif_list s"
  shows "clients_ok s'" "netifs_kin s s'" "view s' m = (if m = n then Some (ni', a') else view s m)" "client s' n ni' a'"
proof -
  note cD = clientD [OF c]
  have n: "netifs s n = Some ni" using ether_nget(3) [OF cD(1)] .
  have d: "autoip_data ni' = autoip_data ni" using k by (simp add: kin_def)
  have other: "autoip_data mi \<noteq> autoip_data ni" if "netifs s m = Some mi" "m \<noteq> n" for m mi
    using clients_okD(4) [OF ok n that(1)] that(2) cD(4) by simp
  show nk: "netifs_kin s s'" using n k s'(2) by (auto simp: netifs_kin_def option.rel_refl)
  have e: "ether_netif s' n ni'" using cD(1) k s'(2) by (simp add: ether_netif_def kin_def)
  have "\<exists>mi. ether_netif s' m mi" if "m \<in> set (netif_list s')" for m
    using that clients_okD(2) [OF ok] ether_kin [OF nk] s'(3) by metis
  moreover have "\<exists>a. autoips s' (autoip_data mi) = Some a" if "netifs s' m = Some mi" "autoip_data mi \<noteq> 0" for m mi
    using that clients_okD(3) [OF ok, of m mi] s'(1,2) d by (cases "m = n") auto
  moreover have "autoip_data mi \<noteq> autoip_data li" if "netifs s' m = Some mi" "netifs s' l = Some li" "m \<noteq> l" "autoip_data mi \<noteq> 0" for m l mi li
    using that clients_okD(4) [OF ok, of m mi l li] s'(2) d other [of m mi] other [of l li] by (cases "m = n"; cases "l = n") auto
  ultimately show "clients_ok s'" using clients_okD(1) [OF ok] s'(3) unfolding clients_ok_def by (intro conjI ballI allI impI) simp_all
  show "view s' m = (if m = n then Some (ni', a') else view s m)"
    using s'(1,2) d cD(4) other [of m] by (cases "netifs s m") (auto simp: view_def)
  show "client s' n ni' a'" using e d cD(4) s'(1) by (simp add: client_def)
qed

lemma tmr_one:
  assumes st: "setting nc" and inv: "pbuf_inv (pb s)" and ok: "clients_ok s" and n: "n \<in> set (netif_list s)"
  shows "\<exists>s'. autoip_tmr_netif nc n s = ret s' \<and> clients_ok s' \<and> netifs_kin s s' \<and> performed nc log (frames_of n (view s n)) s s'
    \<and> (\<forall>m. view s' m = (if m = n then map_option step_view (view s n) else view s m))"
proof (cases "view s n")
  case None
  obtain ni where ni: "ether_netif s n ni" using ok n by (auto simp: clients_ok_def)
  then have "autoip_data ni = 0" using None clients_okD(3) [OF ok ether_nget(3) [OF ni]] ether_nget(3) [OF ni] by (fastforce simp: view_def split: if_splits)
  then have "autoip_tmr_netif nc n s = ret s" using ether_nget [OF ni] by (simp add: autoip_tmr_netif_def)
  then show ?thesis using None ok performed_refl [OF inv] by (auto simp: netifs_kin_refl frames_of_def)
next
  case (Some v)
  obtain ni a where v: "v = (ni, a)" by (cases v)
  have c: "client s n ni a" using view_client [OF ok n] Some v by simp
  obtain a' x where x: "tick ni a = (a', x)" by (cases "tick ni a")
  obtain s' where s': "autoip_tmr_netif nc n s = ret s'" "autoips s' = (autoips s)(autoip_data ni \<mapsto> a')"
    "netifs s' = (netifs s)(n \<mapsto> act_netif x a ni)" "performed nc log (act_frames n x a ni) s s'"
    using tmr_netif_ok [OF st inv c x] by blast
  have "netif_list s' = netif_list s" using s'(4) by (simp add: performed_def)
  note ch = client_change [OF ok c kin_act s'(2,3) this]
  show ?thesis
    using s'(1,4) ch(1-3) Some v x by (auto simp: frames_of_def step_view_def step_frames_def)
qed

lemma tmr_loop_ok:
  assumes st: "setting nc" and "pbuf_inv (pb s)" "clients_ok s" "set ns \<subseteq> set (netif_list s)" "distinct ns"
  shows "\<exists>s'. autoip_tmr_loop nc ns s = ret s' \<and> clients_ok s' \<and> netifs_kin s s'
    \<and> performed nc log (concat (map (\<lambda>n. frames_of n (view s n)) ns)) s s'
    \<and> (\<forall>m. view s' m = (if m \<in> set ns then map_option step_view (view s m) else view s m))"
  using assms(2-)
proof (induction ns arbitrary: s)
  case Nil
  then show ?case using performed_refl by (auto simp: netifs_kin_refl)
next
  case (Cons n ns)
  obtain t where t: "autoip_tmr_netif nc n s = ret t" "clients_ok t" "netifs_kin s t" "performed nc log (frames_of n (view s n)) s t"
    "\<forall>m. view t m = (if m = n then map_option step_view (view s n) else view s m)"
    using tmr_one [OF st Cons.prems(1,2), of n log] Cons.prems(3) by auto
  have l: "pbuf_inv (pb t)" "netif_list t = netif_list s" using t(4) by (simp_all add: performed_def)
  obtain s' where s': "autoip_tmr_loop nc ns t = ret s'" "clients_ok s'" "netifs_kin t s'"
    "performed nc log (concat (map (\<lambda>n. frames_of n (view t n)) ns)) t s'"
    "\<forall>m. view s' m = (if m \<in> set ns then map_option step_view (view t m) else view t m)"
    using Cons.IH [OF l(1) t(2)] l(2) Cons.prems(3,4) by fastforce
  have "map (\<lambda>n. frames_of n (view t n)) ns = map (\<lambda>n. frames_of n (view s n)) ns" using t(5) Cons.prems(4) by auto
  then have "performed nc log (concat (map (\<lambda>n. frames_of n (view s n)) (n # ns))) s s'"
    using performed_trans [OF t(4) s'(4)] by (simp del: map_eq_conv)
  moreover have "\<forall>m. view s' m = (if m \<in> set (n # ns) then map_option step_view (view s m) else view s m)"
    using s'(5) t(5) Cons.prems(4) by auto
  ultimately show ?case using t(1) s'(1,2) netifs_kin_trans [OF t(3) s'(3)] by auto
qed

subsection \<open>Rounds of the timer\<close>

text \<open>The client of an interface after \<open>k\<close> rounds, and what the rounds send through the interface.\<close>

fun rounds :: "nat \<Rightarrow> nat \<Rightarrow> netif \<times> autoip \<Rightarrow> (netif \<times> autoip) \<times> frames" where
  "rounds n 0 v = (v, [])"
| "rounds n (Suc k) v = (let (w, fs) = rounds n k (step_view v) in (w, step_frames n v @ fs))"

definition heard :: "nat \<Rightarrow> frames \<Rightarrow> frames" where
  "heard n fs = filter (\<lambda>f. fst f = n) fs"

lemma heard_append [simp]: "heard n (fs @ gs) = heard n fs @ heard n gs"
  by (simp add: heard_def)

lemma heard_step: "heard n (frames_of m v) = (if m = n then frames_of m v else [])"
proof (cases v)
  case (Some c)
  obtain ni a where c: "c = (ni, a)" by (cases c)
  show ?thesis by (cases "snd (tick ni a)") (auto simp: Some c heard_def frames_of_def step_frames_def announces_def)
qed (simp add: heard_def frames_of_def)

lemma heard_all: "distinct ns \<Longrightarrow> heard n (concat (map (\<lambda>m. frames_of m (v m)) ns)) = (if n \<in> set ns then frames_of n (v n) else [])"
  by (induction ns) (auto simp: heard_step heard_def [of _ "[]"])

lemma tmr_rounds_ok:
  assumes st: "setting nc" and "pbuf_inv (pb s)" "clients_ok s" "n \<in> set (netif_list s)" "view s n = Some v"
  shows "\<exists>s'. run_all (\<lambda>_. autoip_tmr nc) (replicate k ()) s = ret s' \<and> pbuf_inv (pb s') \<and> clients_ok s' \<and> netifs_kin s s'
    \<and> netif_list s' = netif_list s \<and> low_heap s' = low_heap s \<and> view s' n = Some (fst (rounds n k v))
    \<and> (recorded nc log \<and> low_heap s \<longrightarrow> (\<exists>gs. subseq gs (snd (rounds n k v)) \<and> heard n (log (world s')) = heard n (log (world s)) @ gs))"
  using assms(2-)
proof (induction k arbitrary: s v)
  case 0
  then show ?case by (auto simp: netifs_kin_refl)
next
  case (Suc k)
  let ?fs = "concat (map (\<lambda>m. frames_of m (view s m)) (netif_list s))"
  have dist: "distinct (netif_list s)" using Suc.prems(2) by (simp add: clients_ok_def)
  obtain t where t: "autoip_tmr nc s = ret t" "clients_ok t" "netifs_kin s t" "performed nc log ?fs s t"
    "\<forall>m. view t m = (if m \<in> set (netif_list s) then map_option step_view (view s m) else view s m)"
    using tmr_loop_ok [OF st Suc.prems(1,2) subset_refl dist] unfolding autoip_tmr_def by blast
  have l: "pbuf_inv (pb t)" "netif_list t = netif_list s" "low_heap t = low_heap s"
    using t(4) performed_low [OF t(4)] by (simp_all add: performed_def)
  have v: "view t n = Some (step_view v)" using t(5) Suc.prems(3,4) by simp
  obtain s' where s': "run_all (\<lambda>_. autoip_tmr nc) (replicate k ()) t = ret s'" "pbuf_inv (pb s')" "clients_ok s'" "netifs_kin t s'"
    "netif_list s' = netif_list t" "low_heap s' = low_heap t" "view s' n = Some (fst (rounds n k (step_view v)))"
    "recorded nc log \<and> low_heap t \<longrightarrow> (\<exists>gs. subseq gs (snd (rounds n k (step_view v))) \<and> heard n (log (world s')) = heard n (log (world t)) @ gs)"
    using Suc.IH [OF l(1) t(2) _ v] l(2) Suc.prems(3) by auto
  have "\<exists>gs. subseq gs (snd (rounds n (Suc k) v)) \<and> heard n (log (world s')) = heard n (log (world s)) @ gs" if r: "recorded nc log \<and> low_heap s"
  proof -
    obtain gs where gs: "subseq gs ?fs" "log (world t) = log (world s) @ gs" using t(4) r by (auto simp: performed_def)
    obtain hs where hs: "subseq hs (snd (rounds n k (step_view v)))" "heard n (log (world s')) = heard n (log (world t)) @ hs"
      using s'(8) r l(3) by auto
    have "subseq (heard n gs) (heard n ?fs)" unfolding heard_def using gs(1) by (rule subseq_filter)
    then have "subseq (heard n gs) (step_frames n v)"
      using heard_all [OF dist, of n "view s"] Suc.prems(3,4) by (simp add: frames_of_def)
    then have "subseq (heard n gs @ hs) (snd (rounds n (Suc k) v))" using hs(1) by (simp add: list_emb_append_mono split_beta Let_def)
    then show ?thesis using gs(2) hs(2) by (intro exI [of _ "heard n gs @ hs"]) simp
  qed
  then show ?case
    using t(1) s'(1-7) l netifs_kin_trans [OF t(3) s'(4)] by (auto simp: split_beta Let_def)
qed

lemma rounds_add: "rounds n (j + k) v = (let (w, fs) = rounds n j v; (u, gs) = rounds n k w in (u, fs @ gs))"
  by (induction j arbitrary: v) (simp_all add: split_beta Let_def)

definition same_client :: "autoip \<Rightarrow> autoip \<Rightarrow> bool" where
  "same_client a b \<longleftrightarrow> ai_state b = ai_state a \<and> sent_num b = sent_num a \<and> llipaddr b = llipaddr a \<and> tried_llipaddr b = tried_llipaddr a"

text \<open>Nothing happens while there is time to wait.\<close>

lemma rounds_wait:
  assumes "k < unat (ttw a)"
  shows "\<exists>b. rounds n k (ni, a) = ((ni, b), []) \<and> same_client a b \<and> unat (ttw b) = unat (ttw a) - k"
  using assms
proof (induction k arbitrary: a)
  case 0
  then show ?case by (simp add: same_client_def)
next
  case (Suc k)
  have pos: "ttw a > 0" "1 < unat (ttw a)" using Suc.prems by (auto simp: word_less_nat_alt)
  then have u: "unat (ttw a - 1) = unat (ttw a) - 1" by (subst unat_sub) (auto simp: word_le_nat_alt)
  then have "ttw a - 1 \<noteq> 0" using pos(2) by (metis unat_0 zero_less_diff less_irrefl)
  then have t: "tick ni a = (waited a, Nothing)" using pos(1) by (auto simp: tick_def Let_def split: autoip_state.splits)
  have w: "unat (ttw (waited a)) = unat (ttw a) - 1" using pos(1) u by simp
  then have "k < unat (ttw (waited a))" using Suc.prems by linarith
  then obtain b where b: "rounds n k (ni, waited a) = ((ni, b), [])" "same_client (waited a) b" "unat (ttw b) = unat (ttw a) - 1 - k"
    using Suc.IH [of "waited a"] w by metis
  then show ?case using t by (auto simp: step_view_def step_frames_def same_client_def)
qed

text \<open>Then the client acts.\<close>

definition due :: "autoip \<Rightarrow> nat" where
  "due a = max 1 (unat (ttw a))"

lemma rounds_act:
  "\<exists>b. same_client a b \<and> ttw (waited b) = 0 \<and> rounds n (due a) (ni, a) = (step_view (ni, b), step_frames n (ni, b))"
proof -
  have "\<exists>b. rounds n (due a - 1) (ni, a) = ((ni, b), []) \<and> same_client a b \<and> unat (ttw b) \<le> 1"
  proof (cases "unat (ttw a) \<le> 1")
    case True
    then show ?thesis by (auto simp: due_def same_client_def)
  next
    case False
    then show ?thesis using rounds_wait [of "unat (ttw a) - 1" a n ni] by (auto simp: due_def max_def)
  qed
  then obtain b where b: "rounds n (due a - 1) (ni, a) = ((ni, b), [])" "same_client a b" "unat (ttw b) \<le> 1" by blast
  have "ttw b = 0 \<or> ttw b = 1" using b(3) unat_eq_iff_word [of "ttw b" 0] unat_eq_iff_word [of "ttw b" 1] by auto
  then have w: "ttw (waited b) = 0" by auto
  have "rounds n (due a - 1 + 1) (ni, a) = (step_view (ni, b), step_frames n (ni, b))"
    unfolding rounds_add [of n "due a - 1" 1 "(ni, a)"] b(1) by simp
  moreover have "due a - 1 + 1 = due a" by (simp add: due_def)
  ultimately show ?thesis using b(2) w by metis
qed

lemma rounds_probe:
  assumes "ai_state a = AUTOIP_STATE_PROBING" "sent_num a < PROBE_NUM"
  shows "\<exists>b. rounds n (due a) (ni, a) = ((ni, b), [(n, request_frame ni (llipaddr a))]) \<and> ai_state b = AUTOIP_STATE_PROBING
    \<and> sent_num b = sent_num a + 1 \<and> llipaddr b = llipaddr a \<and> tried_llipaddr b = tried_llipaddr a
    \<and> due b = (if sent_num a + 1 = PROBE_NUM then 20 else probe_pause ni a)"
proof -
  obtain c where c: "same_client a c" "ttw (waited c) = 0" "rounds n (due a) (ni, a) = (step_view (ni, c), step_frames n (ni, c))"
    using rounds_act by blast
  have t: "tick ni c = (probed ni (waited c), Probe)"
    using assms c(1,2) by (simp add: tick_def Let_def same_client_def not_le del: waited_simps(5))
  have p: "probe_pause ni (waited c) = probe_pause ni a" using c(1) by (simp add: probe_pause_def LWIP_AUTOIP_RAND_def same_client_def)
  have "probe_pause ni a < 20" "10 \<le> probe_pause ni a" by (simp_all add: probe_pause_def)
  then have "due (probed ni (waited c)) = (if sent_num a + 1 = PROBE_NUM then 20 else probe_pause ni a)"
    using c(1) p by (simp add: due_def probed_def same_client_def ticks_def ANNOUNCE_WAIT_def AUTOIP_TICKS_PER_SECOND_def unat_of_nat)
  then show ?thesis
    using c t assms(1) by (intro exI [of _ "probed ni (waited c)"]) (simp add: step_view_def step_frames_def probed_def same_client_def)
qed

lemma rounds_bind:
  assumes "ai_state a = AUTOIP_STATE_PROBING" "sent_num a \<ge> PROBE_NUM"
  shows "\<exists>b. rounds n (due a) (ni, a) = ((bound_netif ni (llipaddr a), b), act_frames n Bind a ni) \<and> ai_state b = AUTOIP_STATE_ANNOUNCING
    \<and> sent_num b = 1 \<and> llipaddr b = llipaddr a \<and> tried_llipaddr b = tried_llipaddr a \<and> due b = 20"
proof -
  obtain c where c: "same_client a c" "ttw (waited c) = 0" "rounds n (due a) (ni, a) = (step_view (ni, c), step_frames n (ni, c))"
    using rounds_act by blast
  let ?b = "(waited c)\<lparr>ai_state := AUTOIP_STATE_ANNOUNCING, sent_num := 1, ttw := ticks ANNOUNCE_WAIT\<rparr>"
  have "tick ni c = (?b, Bind)"
    using assms c(1,2) by (simp add: tick_def Let_def same_client_def not_le del: waited_simps(5))
  moreover have "due ?b = 20" by (simp add: due_def ticks_def ANNOUNCE_WAIT_def AUTOIP_TICKS_PER_SECOND_def)
  ultimately show ?thesis
    using c by (intro exI [of _ ?b]) (simp add: step_view_def step_frames_def same_client_def)
qed

lemma rounds_announce:
  assumes "ai_state a = AUTOIP_STATE_ANNOUNCING" "sent_num a = 1"
  shows "\<exists>b. rounds n (due a) (ni, a) = ((ni, b), [(n, request_frame ni (ip_addr ni))]) \<and> ai_state b = AUTOIP_STATE_BOUND
    \<and> llipaddr b = llipaddr a \<and> tried_llipaddr b = tried_llipaddr a"
proof -
  obtain c where c: "same_client a c" "ttw (waited c) = 0" "rounds n (due a) (ni, a) = (step_view (ni, c), step_frames n (ni, c))"
    using rounds_act by blast
  have "tick ni c = (announced (waited c), Announce)"
    using assms c(1,2) by (simp add: tick_def Let_def same_client_def del: waited_simps(5))
  then show ?thesis
    using c assms by (intro exI [of _ "announced (waited c)"])
      (simp add: step_view_def step_frames_def same_client_def announced_def ANNOUNCE_NUM_def)
qed

text \<open>From the first probe to a bound address.\<close>

definition acquire_time :: "netif \<Rightarrow> autoip \<Rightarrow> nat" where
  "acquire_time ni a = due a + 2 * probe_pause ni a + 40"

lemma rounds_acquire:
  fixes n :: nat and ni :: netif
  assumes a: "ai_state a = AUTOIP_STATE_PROBING" "sent_num a = 0"
  defines "p \<equiv> (n, request_frame ni (llipaddr a))" and "ni' \<equiv> bound_netif ni (llipaddr a)"
  shows "\<exists>b. rounds n (acquire_time ni a) (ni, a)
      = ((ni', b), [p, p, p] @ act_frames n Bind a ni @ [(n, request_frame ni' (llipaddr a))])
    \<and> ai_state b = AUTOIP_STATE_BOUND \<and> llipaddr b = llipaddr a \<and> tried_llipaddr b = tried_llipaddr a"
proof -
  have pn: "PROBE_NUM = 3" by (simp add: PROBE_NUM_def)
  obtain b where b: "rounds n (due a) (ni, a) = ((ni, b), [p])" "ai_state b = AUTOIP_STATE_PROBING" "sent_num b = 1"
    "llipaddr b = llipaddr a" "tried_llipaddr b = tried_llipaddr a" "due b = probe_pause ni a"
    using rounds_probe [of a n ni] a by (auto simp: pn p_def)
  have pb: "probe_pause ni b = probe_pause ni a" using b(5) by (simp add: probe_pause_def LWIP_AUTOIP_RAND_def)
  obtain c where c: "rounds n (due b) (ni, b) = ((ni, c), [p])" "ai_state c = AUTOIP_STATE_PROBING" "sent_num c = 2"
    "llipaddr c = llipaddr a" "tried_llipaddr c = tried_llipaddr a" "due c = probe_pause ni a"
    using rounds_probe [of b n ni] b pb by (auto simp: pn p_def)
  obtain d where d: "rounds n (due c) (ni, c) = ((ni, d), [p])" "ai_state d = AUTOIP_STATE_PROBING" "sent_num d = 3"
    "llipaddr d = llipaddr a" "tried_llipaddr d = tried_llipaddr a" "due d = 20"
    using rounds_probe [of c n ni] c by (auto simp: pn p_def)
  obtain e where e: "rounds n (due d) (ni, d) = ((ni', e), act_frames n Bind d ni)" "ai_state e = AUTOIP_STATE_ANNOUNCING" "sent_num e = 1"
    "llipaddr e = llipaddr a" "tried_llipaddr e = tried_llipaddr a" "due e = 20"
    using rounds_bind [of d n ni] d by (auto simp: pn ni'_def)
  obtain f where f: "rounds n (due e) (ni', e) = ((ni', f), [(n, request_frame ni' (ip_addr ni'))])" "ai_state f = AUTOIP_STATE_BOUND"
    "llipaddr f = llipaddr a" "tried_llipaddr f = tried_llipaddr a"
    using rounds_announce [of e n ni'] e by auto
  have "acquire_time ni a = due a + (due b + (due c + (due d + due e)))"
    by (simp add: acquire_time_def b(6) c(6) d(6) e(6))
  moreover have "act_frames n Bind d ni = act_frames n Bind a ni" "ip_addr ni' = llipaddr a" using d(4) by (simp_all add: ni'_def bound_netif_def configured_def)
  ultimately show ?thesis using f(2-4)
    by (intro exI [of _ f]) (simp add: rounds_add b(1) c(1) d(1) e(1) f(1) del: act_frames.simps)
qed

subsection \<open>Starting, conflicts and changes of the network\<close>

text \<open>The struct when probing begins: for the current address, and for a fresh candidate.\<close>

definition probing :: "netif \<Rightarrow> autoip \<Rightarrow> autoip" where
  "probing ni a = a\<lparr>ai_state := AUTOIP_STATE_PROBING, sent_num := 0,
     ttw := if tried_llipaddr a > MAX_CONFLICTS then ticks RATE_LIMIT_INTERVAL else of_nat (unat (LWIP_AUTOIP_RAND ni (Some a)) mod 10)\<rparr>"

definition started :: "netif \<Rightarrow> autoip \<Rightarrow> autoip" where
  "started ni a = probing ni (a\<lparr>llipaddr := candidate_addr ni (unat (tried_llipaddr a)), lastconflict := 0\<rparr>)"

definition next_try :: "autoip \<Rightarrow> autoip" where
  "next_try a = a\<lparr>tried_llipaddr := tried_llipaddr a + 1\<rparr>"

definition unconfigured :: "netif \<Rightarrow> netif" where
  "unconfigured ni = configured ni IPADDR_ANY IPADDR_ANY IPADDR_ANY"

lemma start_word: "ucast (x mod of_nat (PROBE_WAIT * AUTOIP_TICKS_PER_SECOND) :: u32) = (of_nat (unat x mod 10) :: u16)"
proof -
  have "ucast w = (of_nat (unat w) :: u16)" for w :: u32
    by (simp add: word_unat_eq_iff unsigned_ucast_eq unat_of_nat take_bit_eq_mod)
  then have "ucast (x mod 10) = (of_nat (unat (x mod 10)) :: u16)" by metis
  then show ?thesis by (simp add: PROBE_WAIT_def AUTOIP_TICKS_PER_SECOND_def unat_mod)
qed

lemma start_probing_ok:
  assumes "client s n ni a"
  shows "autoip_start_probing n s = ret (aput (autoip_data ni) (probing ni a) s)"
  unfolding autoip_start_probing_def clientD(2,3) [OF assms] bind_run_ret Let_def start_word
  by (simp add: probing_def LWIP_AUTOIP_RAND_def)

lemma candidate_addr_cong: "hwaddr ni' = hwaddr ni \<Longrightarrow> candidate_addr ni' t = candidate_addr ni t"
  by (simp add: candidate_addr_def candidate_def)

lemma probing_cong: "hwaddr ni' = hwaddr ni \<Longrightarrow> probing ni' a = probing ni a"
  by (simp add: probing_def LWIP_AUTOIP_RAND_def)

text \<open>From the lookup of the struct on, \<open>autoip_start\<close> works on the interface without an address.\<close>

lemma start_rest_ok:
  assumes c: "client s n ni a" and d: "d = autoip_data ni"
  shows "bind_run (nget n s) (\<lambda>ni. bind_run (aget (autoip_data ni) s) (\<lambda>a. bind_run (autoip_create_addr ni a) (\<lambda>ll.
      bind_run (aget d s) (\<lambda>a. bind_run (autoip_start_probing n (aput d (a\<lparr>llipaddr := ll\<rparr>) s)) (\<lambda>s. ret (ERR_OK, s))))))
    = ret (ERR_OK, aput (autoip_data ni) (probing ni (a\<lparr>llipaddr := candidate_addr ni (unat (tried_llipaddr a))\<rparr>)) s)"
proof -
  let ?a = "a\<lparr>llipaddr := candidate_addr ni (unat (tried_llipaddr a))\<rparr>"
  have "client (aput (autoip_data ni) ?a s) n ni ?a" using c by (simp add: client_def)
  from start_probing_ok [OF this] show ?thesis
    using clientD [OF c] d by (simp add: create_addr aput_def)
qed

lemma start_ok:
  assumes st: "setting nc" and inv: "pbuf_inv (pb s)" and c: "client s n ni a" and up: "netif_is_up ni"
  shows "\<exists>s'. autoip_start nc n s = ret (ERR_OK, s') \<and> netifs s' = (netifs s)(n \<mapsto> unconfigured ni)
    \<and> autoips s' = (autoips s)(autoip_data ni \<mapsto> started ni a) \<and> performed nc log [] s s'"
proof -
  note cD = clientD [OF c]
  let ?d = "autoip_data ni" and ?ni = "unconfigured ni"
  let ?a = "a\<lparr>ai_state := AUTOIP_STATE_OFF, ttw := 0, sent_num := 0, llipaddr := 0, lastconflict := 0\<rparr>"
  have none: "announces n ?ni = []" by (simp add: announces_def unconfigured_def configured_def)
  obtain s1 where s1: "netif_set_addr nc n (Some IPADDR_ANY) (Some IPADDR_ANY) (Some IPADDR_ANY) s = ret s1"
    "netifs s1 = (netifs s)(n \<mapsto> ?ni)" "autoips s1 = autoips s" "performed nc log (if IPADDR_ANY = ip_addr ni then [] else announces n ?ni) s s1"
    using set_addr_ok [OF st inv cD(1), of "Some IPADDR_ANY" "Some IPADDR_ANY" "Some IPADDR_ANY" log, unfolded addr_or_any_Some, folded unconfigured_def]
    by blast
  have p1: "performed nc log [] s s1" using s1(4) none by (simp split: if_splits)
  have d: "autoip_data ?ni = ?d" "hwaddr ?ni = hwaddr ni" by (simp_all add: unconfigured_def configured_def)
  let ?s2 = "aput ?d ?a s1"
  have c2: "client ?s2 n ?ni ?a"
    using cD(1,4) d s1(2) by (simp add: client_def ether_netif_def) (simp add: unconfigured_def configured_def)
  have g: "aget ?d s1 = ret a" using s1(3) cD(4,5) by (simp add: aget_def)
  have eq: "probing ?ni (?a\<lparr>llipaddr := candidate_addr ?ni (unat (tried_llipaddr ?a))\<rparr>) = started ni a"
    using candidate_addr_cong [OF d(2)] probing_cong [OF d(2)] by (simp add: started_def) (simp add: probing_def LWIP_AUTOIP_RAND_def)
  have "autoip_start nc n s = ret (ERR_OK, aput ?d (started ni a) ?s2)"
    unfolding autoip_start_def cD(2) bind_run_ret Let_def s1(1) if_not_P [OF cD(4)] g prod.case
      start_rest_ok [OF c2 d(1) [symmetric], unfolded eq d(1)]
    by (simp only: up lwip_assert_simps)
  then show ?thesis using s1(2,3) p1 by simp
qed

lemma next_try_client: "client s n ni a \<Longrightarrow> client (aput (autoip_data ni) a' s) n ni a'"
  by (simp add: client_def)

lemma restart_ok:
  assumes st: "setting nc" and inv: "pbuf_inv (pb s)" and c: "client s n ni a" and up: "netif_is_up ni"
  shows "\<exists>s'. autoip_restart nc n s = ret s' \<and> netifs s' = (netifs s)(n \<mapsto> unconfigured ni)
    \<and> autoips s' = (autoips s)(autoip_data ni \<mapsto> started ni (next_try a)) \<and> performed nc log [] s s'"
proof -
  have inv1: "pbuf_inv (pb (aput (autoip_data ni) (next_try a) s))" using inv by simp
  from start_ok [OF st inv1 next_try_client [OF c] up, of log] show ?thesis
    using clientD [OF c] by (auto simp: autoip_restart_def next_try_def [symmetric])
qed

lemma handle_conflict_ok:
  assumes st: "setting nc" and inv: "pbuf_inv (pb s)" and c: "client s n ni a" and up: "netif_is_up ni"
  shows "\<exists>s'. autoip_handle_arp_conflict nc n s = ret s'
    \<and> netifs s' = (netifs s)(n \<mapsto> if lastconflict a > 0 then unconfigured ni else ni)
    \<and> autoips s' = (autoips s)(autoip_data ni \<mapsto> if lastconflict a > 0 then started ni (next_try a) else a\<lparr>lastconflict := 100\<rparr>)
    \<and> performed nc log (if lastconflict a > 0 then [] else [(n, request_frame ni (ip_addr ni))]) s s'"
proof (cases "lastconflict a > 0")
  case True
  then show ?thesis using restart_ok [OF assms, of log] clientD [OF c] by (simp add: autoip_handle_arp_conflict_def)
next
  case False
  note cD = clientD [OF c]
  obtain r s1 where s1: "autoip_arp_announce nc n s = ret (r, s1)" "performed nc log [(n, request_frame ni (ip_addr ni))] s s1"
    "netifs s1 = netifs s" "autoips s1 = autoips s"
    using gratuitous_performed [OF st inv cD(1)] by blast
  have "aget (autoip_data ni) s1 = ret a" using s1(4) cD(4,5) by (simp add: aget_def)
  then have "autoip_handle_arp_conflict nc n s = ret (aput (autoip_data ni) (a\<lparr>lastconflict := 100\<rparr>) s1)"
    using False cD s1(1) by (simp add: autoip_handle_arp_conflict_def DEFEND_INTERVAL_def AUTOIP_TICKS_PER_SECOND_def)
  moreover have "netifs s = (netifs s)(n \<mapsto> ni)" using ether_nget(3) [OF cD(1)] by (simp add: map_upd_triv)
  ultimately show ?thesis using False s1(2-4) by simp
qed

text \<open>
  What an ARP message with sender \<open>sip\<close>, \<open>shw\<close> and target \<open>dip\<close> does to a client: nothing, or it gives its
  address up and tries the next one, or it defends it.
\<close>

datatype reaction = Ignore | Retreat | Defend

definition reaction :: "netif \<Rightarrow> autoip \<Rightarrow> u32 \<Rightarrow> u32 \<Rightarrow> u8 list \<Rightarrow> reaction" where
  "reaction ni a sip dip shw =
     (case ai_state a of
        AUTOIP_STATE_OFF \<Rightarrow> Ignore
      | AUTOIP_STATE_PROBING \<Rightarrow>
          if sip = llipaddr a \<or> sip = IPADDR_ANY \<and> dip = llipaddr a \<and> shw \<noteq> hwaddr ni then Retreat else Ignore
      | _ \<Rightarrow> if sip = llipaddr a \<and> shw \<noteq> hwaddr ni then if lastconflict a > 0 then Retreat else Defend else Ignore)"

fun react :: "nat \<Rightarrow> reaction \<Rightarrow> netif \<Rightarrow> autoip \<Rightarrow> netif \<times> autoip \<times> frames" where
  "react n Ignore ni a = (ni, a, [])"
| "react n Retreat ni a = (unconfigured ni, started ni (next_try a), [])"
| "react n Defend ni a = (ni, a\<lparr>lastconflict := 100\<rparr>, [(n, request_frame ni (ip_addr ni))])"

lemma arp_reply_ok:
  fixes hdr :: nat
  assumes st: "setting nc" and inv: "pbuf_inv (pb s)" and c: "client s n ni a" and up: "netif_is_up ni"
  defines "x \<equiv> reaction ni a (load32 (hdr + 14) (pb s)) (load32 (hdr + 24) (pb s)) (read_bytes (hdr + 8) 6 (pb s))"
  shows "\<exists>s' ni' a' fs. autoip_arp_reply nc n hdr s = ret s' \<and> react n x ni a = (ni', a', fs) \<and> netifs s' = (netifs s)(n \<mapsto> ni')
    \<and> autoips s' = (autoips s)(autoip_data ni \<mapsto> a') \<and> performed nc log fs s s'"
proof -
  note cD = clientD [OF c]
  have hw: "take ETH_HWADDR_LEN (hwaddr ni) = hwaddr ni" using cD(1) by (simp add: ether_netif_def ETH_HWADDR_LEN_def)
  have run: "autoip_arp_reply nc n hdr s = (case x of
      Ignore \<Rightarrow> ret s | Retreat \<Rightarrow> autoip_restart nc n s | Defend \<Rightarrow> autoip_handle_arp_conflict nc n s)"
  proof -
    have r: "autoip_handle_arp_conflict nc n s = autoip_restart nc n s" if "lastconflict a > 0"
      using that cD by (simp add: autoip_handle_arp_conflict_def)
    show ?thesis
      unfolding autoip_arp_reply_def cD(2,3) bind_run_ret if_not_P [OF cD(4)] hw Let_def x_def reaction_def
      using r by (cases "ai_state a") (auto simp: eq_commute [of "hwaddr ni"])
  qed
  have d: "x = Defend \<Longrightarrow> \<not> lastconflict a > 0" by (auto simp: x_def reaction_def split: autoip_state.splits if_splits)
  have triv: "netifs s = (netifs s)(n \<mapsto> ni)" "autoips s = (autoips s)(autoip_data ni \<mapsto> a)"
    using ether_nget(3) [OF cD(1)] cD(5) by (simp_all add: map_upd_triv)
  show ?thesis
  proof (cases x)
    case Ignore
    then show ?thesis using run triv performed_refl [OF inv] by simp
  next
    case Retreat
    then show ?thesis using run restart_ok [OF st inv c up, of log] by simp
  next
    case Defend
    then show ?thesis using run handle_conflict_ok [OF st inv c up, of log] d by auto
  qed
qed

lemma network_changed_ok:
  assumes "client s n ni a"
  shows "autoip_network_changed n s = ret (if ai_state a = AUTOIP_STATE_OFF then s else aput (autoip_data ni) (probing ni a) s)"
  using start_probing_ok [OF assms] clientD [OF assms] by (simp add: autoip_network_changed_def)

lemma stop_ok:
  assumes st: "setting nc" and inv: "pbuf_inv (pb s)" and c: "client s n ni a"
  shows "\<exists>s'. autoip_stop nc n s = ret (ERR_OK, s') \<and> netifs s' = (netifs s)(n \<mapsto> if ip4_addr_islinklocal (ip_addr ni) then unconfigured ni else ni)
    \<and> autoips s' = (autoips s)(autoip_data ni \<mapsto> a\<lparr>ai_state := AUTOIP_STATE_OFF\<rparr>) \<and> performed nc log [] s s'"
proof -
  note cD = clientD [OF c]
  let ?s = "aput (autoip_data ni) (a\<lparr>ai_state := AUTOIP_STATE_OFF\<rparr>) s"
  have none: "announces n (unconfigured ni) = []" by (simp add: announces_def unconfigured_def configured_def)
  have e: "ether_netif ?s n ni" "pbuf_inv (pb ?s)" using cD(1) inv by simp_all
  obtain s1 where s1: "netif_set_addr nc n (Some IPADDR_ANY) (Some IPADDR_ANY) (Some IPADDR_ANY) ?s = ret s1"
    "netifs s1 = (netifs ?s)(n \<mapsto> unconfigured ni)" "autoips s1 = autoips ?s"
    "performed nc log (if IPADDR_ANY = ip_addr ni then [] else announces n (unconfigured ni)) ?s s1"
    using set_addr_ok [OF st e(2,1), of "Some IPADDR_ANY" "Some IPADDR_ANY" "Some IPADDR_ANY" log, unfolded addr_or_any_Some, folded unconfigured_def]
    by blast
  have "performed nc log [] s s1" using s1(4) none by (simp split: if_splits)
  moreover have "netifs s = (netifs s)(n \<mapsto> ni)" using ether_nget(3) [OF cD(1)] by (simp add: map_upd_triv)
  ultimately show ?thesis using cD s1(1-3) performed_refl [OF inv] by (simp add: autoip_stop_def)
qed

text \<open>The struct of a new client comes from the heap.\<close>

lemma calloc_ok:
  assumes inv: "pbuf_inv s"
  shows "\<exists>p h. mem_calloc 1 SIZEOF_STRUCT_AUTOIP (pheap s) = ret (p, h) \<and> pbuf_inv (s\<lparr>pheap := h\<rparr>) \<and> ram h = ram (pheap s)
    \<and> (case p of None \<Rightarrow> True | Some (a, _) \<Rightarrow> a \<noteq> 0)"
proof -
  have hi: "heap_inv (pheap s)" using inv by (simp add: pbuf_inv_def)
  obtain r h where r: "mem_malloc 12 (pheap s) = ret (r, h)" "heap_inv h" "ram h = ram (pheap s)"
    "case r of None \<Rightarrow> h = pheap s \<and> (12 = (0 :: nat) \<or> (\<forall>(x, f)\<in>free_blocks (pheap s). f < x + SIZEOF_STRUCT_MEM + request 12))
     | Some a \<Rightarrow> 0 < (12 :: nat) \<and> (\<exists>x e f. (x, f) \<in> free_blocks (pheap s) \<and> a = ram (pheap s) + x + SIZEOF_STRUCT_MEM
         \<and> x + SIZEOF_STRUCT_MEM + request 12 \<le> e \<and> e \<le> f \<and> used_blocks h = insert (x, e) (used_blocks (pheap s)))"
    using mem_malloc_spec [OF hi, of 12] by auto
  have "pbuf_inv (s\<lparr>pheap := h\<rparr>)"
  proof (cases r)
    case None
    then show ?thesis using r(4) inv by simp
  next
    case (Some a)
    then obtain x e f where "(x, f) \<in> free_blocks (pheap s)" "used_blocks h = insert (x, e) (used_blocks (pheap s))" using r(4) by auto
    from heap_live_malloc [OF r(3) this] have "heap_live (pheap s) \<subseteq> heap_live h" by auto
    then have "pbuf_owned (s\<lparr>pheap := h\<rparr>) q c \<and> pbuf_placed (s\<lparr>pheap := h\<rparr>) q" if "pbuf_owned s q c" "pbuf_placed s q" for q c
      using that r(3) by (auto simp: pbuf_owned_def pbuf_placed_def)
    then show ?thesis using inv r(2,3) by (auto simp: pbuf_inv_def)
  qed
  then show ?thesis
    using r(1,3,4) by (auto simp: mem_calloc_def SIZEOF_STRUCT_AUTOIP_def Let_def mem_size_t_def SIZEOF_STRUCT_MEM_def split: option.splits)
qed

lemma start_new_ok:
  assumes st: "setting nc" and inv: "pbuf_inv (pb s)" and ni: "ether_netif s n ni" and d: "autoip_data ni = 0" and up: "netif_is_up ni"
  shows "\<exists>e s'. autoip_start nc n s = ret (e, s') \<and> performed nc log [] s s'
    \<and> (e = ERR_MEM \<and> netifs s' = (netifs s)(n \<mapsto> unconfigured ni) \<and> autoips s' = autoips s
       \<or> e = ERR_OK \<and> (\<exists>d. d \<noteq> 0 \<and> netifs s' = (netifs s)(n \<mapsto> (unconfigured ni)\<lparr>autoip_data := d\<rparr>)
            \<and> autoips s' = (autoips s)(d \<mapsto> started ni autoip_zero)))"
proof -
  let ?ni = "unconfigured ni"
  have none: "announces n ?ni = []" by (simp add: announces_def unconfigured_def configured_def)
  obtain s1 where s1: "netif_set_addr nc n (Some IPADDR_ANY) (Some IPADDR_ANY) (Some IPADDR_ANY) s = ret s1"
    "netifs s1 = (netifs s)(n \<mapsto> ?ni)" "autoips s1 = autoips s" "performed nc log (if IPADDR_ANY = ip_addr ni then [] else announces n ?ni) s s1"
    using set_addr_ok [OF st inv ni, of "Some IPADDR_ANY" "Some IPADDR_ANY" "Some IPADDR_ANY" log, unfolded addr_or_any_Some, folded unconfigured_def]
    by blast
  have p1: "performed nc log [] s s1" using s1(4) none by (simp split: if_splits)
  obtain p h where h: "mem_calloc 1 SIZEOF_STRUCT_AUTOIP (pheap (pb s1)) = ret (p, h)" "pbuf_inv ((pb s1)\<lparr>pheap := h\<rparr>)" "ram h = ram (pheap (pb s1))"
    "case p of None \<Rightarrow> True | Some (a, _) \<Rightarrow> a \<noteq> 0"
    using calloc_ok [OF performedD(1) [OF p1]] by blast
  let ?s2 = "s1\<lparr>pb := (pb s1)\<lparr>pheap := h\<rparr>\<rparr>"
  have p2: "performed nc log [] s ?s2" using p1 h(2,3) by (simp add: performed_def)
  have g: "nget n s = ret ni" by (rule ether_nget(1) [OF ni])
  show ?thesis
  proof (cases p)
    case None
    then have "autoip_start nc n s = ret (ERR_MEM, ?s2)" using g s1(1) h(1) up d by (simp add: autoip_start_def)
    then show ?thesis using s1(2,3) p2 by auto
  next
    case (Some q)
    obtain a k where q: "q = (a, k)" by (cases q)
    have a: "a \<noteq> 0" using h(4) Some q by simp
    let ?n1 = "?ni\<lparr>autoip_data := a\<rparr>"
    let ?s3 = "nput n ?n1 (aput a autoip_zero ?s2)"
    have c: "client ?s3 n ?n1 autoip_zero"
      using ni a by (simp add: client_def ether_netif_def) (simp add: unconfigured_def configured_def)
    have g2: "nget n ?s2 = ret ?ni" using s1(2) ether_nget(2) [OF ni] by (simp add: nget_def)
    have hw: "hwaddr ?n1 = hwaddr ni" by (simp add: unconfigured_def configured_def)
    have "a = autoip_data ?n1" by simp
    note rest = start_rest_ok [OF c this]
    have eq: "probing ?n1 (autoip_zero\<lparr>llipaddr := candidate_addr ?n1 (unat (tried_llipaddr autoip_zero))\<rparr>) = started ni autoip_zero"
      unfolding candidate_addr_cong [OF hw] probing_cong [OF hw] by (simp add: started_def autoip_zero_def)
    have "autoip_start nc n s = ret (ERR_OK, aput a (started ni autoip_zero) ?s3)"
      unfolding autoip_start_def g bind_run_ret Let_def s1(1) d if_P [OF refl] h(1) prod.case Some q option.case g2
      using up a rest by (simp add: eq)
    then show ?thesis using a s1(2,3) p2 by (auto simp: performed_nput)
  qed
qed

end
