(* ===== verification/Etharp_Cache.thy ===== *)
theory Etharp_Cache
  imports Etharp_Table Autoip_Machine
begin

text \<open>
  The ARP cache as a whole. \<open>arp_ok s qs\<close> says that the table is well-formed, that the memory of packet
  buffers is, that the entry \<open>i\<close> owns the queued packet \<open>qs ! i\<close> (packets of different entries share no
  struct), and that the interfaces of the entries are there. Every operation returns from such a
  state in such a state. \<open>abs_cache\<close> is the cache the table stands for, a map from addresses on interfaces to
  Ethernet addresses.
\<close>

definition queues :: "pbuf_state \<Rightarrow> etharp_entry list \<Rightarrow> nat list list \<Rightarrow> bool" where
  "queues s t qs \<longleftrightarrow> length qs = ARP_TABLE_SIZE
     \<and> (\<forall>i<ARP_TABLE_SIZE. chain s (arp_q (t ! i)) (qs ! i) \<and> chain_len s (qs ! i) < 2 ^ 16 \<and> (\<forall>x\<in>set (qs ! i). 0 < ref_of s x))
     \<and> (\<forall>i<ARP_TABLE_SIZE. \<forall>j<ARP_TABLE_SIZE. i \<noteq> j \<longrightarrow> set (qs ! i) \<inter> set (qs ! j) = {})"

definition arp_ok :: "'w net \<Rightarrow> nat list list \<Rightarrow> bool" where
  "arp_ok s qs \<longleftrightarrow> table_ok (arp_table s) \<and> pbuf_inv (pb s) \<and> queues (pb s) (arp_table s) qs
     \<and> etharp_cached_entry s < ARP_TABLE_SIZE
     \<and> (\<forall>i<ARP_TABLE_SIZE. nonempty (arp_table s ! i) \<longrightarrow> (\<exists>ni. ether_netif s (arp_netif (arp_table s ! i)) ni))"

definition arp_inv :: "'w net \<Rightarrow> bool" where
  "arp_inv s \<longleftrightarrow> (\<exists>qs. arp_ok s qs)"

text \<open>What an operation leaves alone: the interfaces, and the structs that are not queued.\<close>

definition arp_frame :: "'w net \<Rightarrow> nat list list \<Rightarrow> 'w net \<Rightarrow> nat list list \<Rightarrow> bool" where
  "arp_frame s qs s' qs' \<longleftrightarrow> links s' = links s
     \<and> (\<forall>x. x \<notin> \<Union> (set ` set qs) \<longrightarrow> pbufs (pb s') x = pbufs (pb s) x)
     \<and> \<Union> (set ` set qs') \<subseteq> \<Union> (set ` set qs)"

subsection \<open>Changing one entry\<close>

lemma arp_update_simps [simp]:
  "arp_table (arp_update i f s) = (arp_table s)[i := f (arp_table s ! i)]"
  "pb (arp_update i f s) = pb s" "netifs (arp_update i f s) = netifs s" "netif_list (arp_update i f s) = netif_list s"
  "netif_default (arp_update i f s) = netif_default s" "next_netif_num (arp_update i f s) = next_netif_num s"
  "autoips (arp_update i f s) = autoips s" "world (arp_update i f s) = world s"
  "etharp_cached_entry (arp_update i f s) = etharp_cached_entry s"
  by (simp_all add: arp_update_def)

lemma same_key_sym: "same_key d e \<Longrightarrow> same_key e d"
  by (simp add: same_key_def)

lemma table_ok_nth: "table_ok t \<Longrightarrow> i < ARP_TABLE_SIZE \<Longrightarrow> entry_ok (t ! i)"
  by (simp add: table_ok_def list_all_length)

lemma table_ok_length [simp]: "table_ok t \<Longrightarrow> length t = ARP_TABLE_SIZE"
  by (simp add: table_ok_def)

lemma table_ok_unique: "table_ok t \<Longrightarrow> i < ARP_TABLE_SIZE \<Longrightarrow> j < ARP_TABLE_SIZE \<Longrightarrow> same_key (t ! i) (t ! j) \<Longrightarrow> i = j"
  unfolding table_ok_def by blast

lemma table_ok_update:
  assumes t: "table_ok t" and i: "i < ARP_TABLE_SIZE" and e: "entry_ok e" "\<And>j. j < ARP_TABLE_SIZE \<Longrightarrow> j \<noteq> i \<Longrightarrow> \<not> same_key e (t ! j)"
  shows "table_ok (t[i := e])"
proof -
  have "entry_ok (t[i := e] ! j)" if "j < ARP_TABLE_SIZE" for j
    using table_ok_nth [OF t that] e(1) i t that by (simp add: nth_list_update)
  moreover have "j = k" if "j < ARP_TABLE_SIZE" "k < ARP_TABLE_SIZE" "same_key (t[i := e] ! j) (t[i := e] ! k)" for j k
  proof (rule ccontr)
    assume "j \<noteq> k"
    moreover have "\<not> same_key (t ! j) (t ! k)" using table_ok_unique [OF t that(1,2)] \<open>j \<noteq> k\<close> by blast
    moreover have "\<not> same_key e (t ! k)" if "k \<noteq> i" using e(2) that \<open>k < ARP_TABLE_SIZE\<close> by blast
    moreover have "\<not> same_key (t ! j) e" if "j \<noteq> i" using e(2) that \<open>j < ARP_TABLE_SIZE\<close> same_key_sym by blast
    ultimately show False using that i table_ok_length [OF t] by (auto simp: nth_list_update split: if_splits)
  qed
  moreover have "length (t[i := e]) = ARP_TABLE_SIZE" using t by simp
  ultimately show ?thesis unfolding table_ok_def list_all_length by metis
qed

lemma queues_update:
  assumes q: "queues s t qs" and i: "i < ARP_TABLE_SIZE"
    and c: "chain s' (arp_q (t' ! i)) c" "chain_len s' c < 2 ^ 16" "\<forall>x\<in>set c. 0 < ref_of s' x"
    and other: "\<And>j. j < ARP_TABLE_SIZE \<Longrightarrow> j \<noteq> i \<Longrightarrow> arp_q (t' ! j) = arp_q (t ! j)"
      "\<And>j x. j < ARP_TABLE_SIZE \<Longrightarrow> j \<noteq> i \<Longrightarrow> x \<in> set (qs ! j) \<Longrightarrow> pbufs s' x = pbufs s x"
      "\<And>j. j < ARP_TABLE_SIZE \<Longrightarrow> j \<noteq> i \<Longrightarrow> set c \<inter> set (qs ! j) = {}"
  shows "queues s' t' (qs[i := c])"
proof -
  have l: "length qs = ARP_TABLE_SIZE" using q by (simp add: queues_def)
  have "chain s' (arp_q (t' ! j)) (qs ! j) \<and> chain_len s' (qs ! j) < 2 ^ 16 \<and> (\<forall>x\<in>set (qs ! j). 0 < ref_of s' x)"
    if j: "j < ARP_TABLE_SIZE" "j \<noteq> i" for j
  proof -
    have fr: "\<And>x. x \<in> set (qs ! j) \<Longrightarrow> pbufs s' x = pbufs s x" using other(2) [OF j] .
    have "chain_len s' (qs ! j) = chain_len s (qs ! j)" "chain s' (arp_q (t ! j)) (qs ! j) = chain s (arp_q (t ! j)) (qs ! j)"
      by (rule chain_frame, rule fr, assumption)+
    moreover have "ref_of s' x = ref_of s x" if "x \<in> set (qs ! j)" for x using fr [OF that] by (simp add: ref_of_def)
    ultimately show ?thesis using q j other(1) [OF j] by (simp add: queues_def)
  qed
  moreover have "set (qs[i := c] ! j) \<inter> set (qs[i := c] ! k) = {}" if "j < ARP_TABLE_SIZE" "k < ARP_TABLE_SIZE" "j \<noteq> k" for j k
    using that q l i other(3) [of j] other(3) [of k] by (auto simp: nth_list_update queues_def)
  ultimately show ?thesis using c l i by (auto simp: queues_def nth_list_update)
qed

lemma queues_nth: "queues s t qs \<Longrightarrow> i < ARP_TABLE_SIZE \<Longrightarrow> set (qs ! i) \<subseteq> \<Union> (set ` set qs)"
  using nth_mem [of i qs] by (metis UN_upper queues_def)

lemma queues_apart: "queues s t qs \<Longrightarrow> i < ARP_TABLE_SIZE \<Longrightarrow> j < ARP_TABLE_SIZE \<Longrightarrow> j \<noteq> i \<Longrightarrow> set (qs ! i) \<inter> set (qs ! j) = {}"
  unfolding queues_def by metis

lemma Union_update: "\<Union> (set ` set (qs[i := c])) \<subseteq> set c \<union> \<Union> (set ` set qs)"
  using set_update_subset_insert [of qs i c] by blast

text \<open>An update of an entry that leaves its queue alone.\<close>

lemma arp_ok_update:
  assumes ok: "arp_ok s qs" and i: "i < ARP_TABLE_SIZE" and q: "arp_q (f (arp_table s ! i)) = arp_q (arp_table s ! i)"
    and e: "entry_ok (f (arp_table s ! i))" "\<And>j. j < ARP_TABLE_SIZE \<Longrightarrow> j \<noteq> i \<Longrightarrow> \<not> same_key (f (arp_table s ! i)) (arp_table s ! j)"
    and ni: "nonempty (f (arp_table s ! i)) \<Longrightarrow> \<exists>ni. ether_netif s (arp_netif (f (arp_table s ! i))) ni"
  shows "arp_ok (arp_update i f s) qs"
proof -
  have t: "table_ok (arp_table s)" using ok by (simp add: arp_ok_def)
  have l: "length (arp_table s) = ARP_TABLE_SIZE" using t by simp
  have "arp_q ((arp_table s)[i := f (arp_table s ! i)] ! j) = arp_q (arp_table s ! j)" if "j < ARP_TABLE_SIZE" for j
    using q i l that by (cases "j = i") simp_all
  then have "queues (pb s) ((arp_table s)[i := f (arp_table s ! i)]) qs" using ok by (simp add: arp_ok_def queues_def)
  moreover have "table_ok ((arp_table s)[i := f (arp_table s ! i)])" by (rule table_ok_update [OF t i e])
  moreover have "\<exists>ni. ether_netif (arp_update i f s) (arp_netif (arp_table (arp_update i f s) ! j)) ni"
    if "j < ARP_TABLE_SIZE" "nonempty (arp_table (arp_update i f s) ! j)" for j
    using that ok ni i l by (auto simp: arp_ok_def ether_netif_def nth_list_update split: if_splits)
  ultimately show ?thesis using ok by (simp add: arp_ok_def)
qed

subsection \<open>Freeing an entry\<close>

lemma after_free_other:
  assumes "x \<notin> set xs"
  shows "after_free s xs x = pbufs s x"
proof -
  let ?rest = "dropWhile (\<lambda>x. ref_of s x = 1) xs"
  have "x \<notin> set (takeWhile (\<lambda>x. ref_of s x = 1) xs)" using assms set_takeWhileD by metis
  moreover have "\<not> (?rest \<noteq> [] \<and> x = hd ?rest)" using assms hd_in_set [of ?rest] set_dropWhileD by metis
  ultimately show ?thesis unfolding after_free_def Let_def by (simp only: if_False)
qed

abbreviation freed :: "etharp_entry \<Rightarrow> etharp_entry" where
  "freed e \<equiv> e\<lparr>arp_q := 0, arp_state := ETHARP_STATE_EMPTY\<rparr>"

lemma freed_ok: "entry_ok (freed e)" "\<not> same_key (freed e) d" "\<not> same_key d (freed e)"
  by (simp_all add: entry_ok_def same_key_def stable_iff)

lemma arp_okD:
  assumes "arp_ok s qs"
  shows "table_ok (arp_table s)" "pbuf_inv (pb s)" "queues (pb s) (arp_table s) qs" "length qs = ARP_TABLE_SIZE"
    "length (arp_table s) = ARP_TABLE_SIZE"
    and "i < ARP_TABLE_SIZE \<Longrightarrow> nonempty (arp_table s ! i) \<Longrightarrow> \<exists>ni. ether_netif s (arp_netif (arp_table s ! i)) ni"
    and "i < ARP_TABLE_SIZE \<Longrightarrow> chain (pb s) (arp_q (arp_table s ! i)) (qs ! i)"
    and "i < ARP_TABLE_SIZE \<Longrightarrow> chain_len (pb s) (qs ! i) < 2 ^ 16"
    and "i < ARP_TABLE_SIZE \<Longrightarrow> \<forall>x\<in>set (qs ! i). 0 < ref_of (pb s) x"
  using assms by (auto simp: arp_ok_def queues_def)

lemma free_queue_ok:
  assumes "pbuf_inv s" "chain s q xs" "q \<noteq> 0" "\<forall>x\<in>set xs. 0 < ref_of s x"
  shows "\<exists>n s'. pbuf_free q s = ret (n, s') \<and> pbuf_inv s' \<and> bytes s' = bytes s \<and> (\<forall>x. x \<notin> set xs \<longrightarrow> pbufs s' x = pbufs s x)"
  using free_loop_linked [OF _ assms(1) chain_linked [OF assms(2)] assms(4), of 0] assms(3) after_free_other
  by (fastforce simp: pbuf_free_def)

lemma free_changed_entry_ok:
  assumes ok: "arp_ok s qs" and i: "i < ARP_TABLE_SIZE" and f: "arp_q (f (arp_table s ! i)) = arp_q (arp_table s ! i)"
  shows "\<exists>s'. etharp_free_entry i (arp_update i f s) = ret s' \<and> arp_ok s' (qs[i := []])
    \<and> s' = s\<lparr>arp_table := (arp_table s)[i := freed (f (arp_table s ! i))], pb := pb s'\<rparr>
    \<and> bytes (pb s') = bytes (pb s) \<and> (\<forall>x. x \<notin> set (qs ! i) \<longrightarrow> pbufs (pb s') x = pbufs (pb s) x)"
proof -
  let ?t = "arp_table s" and ?q = "arp_q (arp_table s ! i)"
  let ?e = "f (?t ! i)"
  note okD = arp_okD [OF ok]
  have "\<exists>b. pbuf_inv b \<and> bytes b = bytes (pb s) \<and> (\<forall>x. x \<notin> set (qs ! i) \<longrightarrow> pbufs b x = pbufs (pb s) x)
    \<and> etharp_free_entry i (arp_update i f s) = ret (s\<lparr>arp_table := ?t[i := freed ?e], pb := b\<rparr>)"
  proof (cases "?q = 0")
    case True
    with f have fr: "freed ?e = ?e\<lparr>arp_state := ETHARP_STATE_EMPTY\<rparr>" by (cases ?e) simp
    show ?thesis using True f okD(2,5) i unfolding fr by (intro exI [of _ "pb s"]) (simp add: etharp_free_entry_def arp_update_def)
  next
    case False
    obtain m b where b: "pbuf_free ?q (pb s) = ret (m, b)" "pbuf_inv b" "bytes b = bytes (pb s)"
      "\<forall>x. x \<notin> set (qs ! i) \<longrightarrow> pbufs b x = pbufs (pb s) x"
      using free_queue_ok [OF okD(2) okD(7) [OF i] False okD(9) [OF i]] by blast
    then show ?thesis using False f okD(5) i by (intro exI [of _ b]) (simp add: etharp_free_entry_def on_pb_def arp_update_def)
  qed
  then obtain b where b: "pbuf_inv b" "bytes b = bytes (pb s)" "\<forall>x. x \<notin> set (qs ! i) \<longrightarrow> pbufs b x = pbufs (pb s) x"
    "etharp_free_entry i (arp_update i f s) = ret (s\<lparr>arp_table := ?t[i := freed ?e], pb := b\<rparr>)" by blast
  let ?s = "s\<lparr>arp_table := ?t[i := freed ?e], pb := b\<rparr>"
  have "table_ok (?t[i := freed ?e])" using table_ok_update [OF okD(1) i freed_ok(1)] freed_ok(2) by blast
  moreover have "queues b (?t[i := freed ?e]) (qs[i := []])"
  proof (rule queues_update [OF okD(3) i])
    show "pbufs b x = pbufs (pb s) x" if "j < ARP_TABLE_SIZE" "j \<noteq> i" "x \<in> set (qs ! j)" for j x
      using queues_apart [OF okD(3) i that(1)] that b(3) by blast
  qed (use i okD(5) in simp_all)
  moreover have "\<exists>ni. ether_netif ?s (arp_netif (arp_table ?s ! j)) ni" if "j < ARP_TABLE_SIZE" "nonempty (arp_table ?s ! j)" for j
    using okD(6) [of j] that okD(5) i by (auto simp: ether_netif_def nth_list_update split: if_splits)
  ultimately have "arp_ok ?s (qs[i := []])" using ok b(1) by (simp add: arp_ok_def)
  then show ?thesis using b by auto
qed

lemma free_entry_ok:
  assumes "arp_ok s qs" and "i < ARP_TABLE_SIZE"
  shows "\<exists>s'. etharp_free_entry i s = ret s' \<and> arp_ok s' (qs[i := []])
    \<and> s' = s\<lparr>arp_table := (arp_table s)[i := freed (arp_table s ! i)], pb := pb s'\<rparr>
    \<and> bytes (pb s') = bytes (pb s) \<and> (\<forall>x. x \<notin> set (qs ! i) \<longrightarrow> pbufs (pb s') x = pbufs (pb s) x)"
  using free_changed_entry_ok [OF assms, of "\<lambda>e. e"] by (simp add: arp_update_def)

subsection \<open>Finding an entry\<close>

text \<open>The state after an entry has been freed for a new address.\<close>

definition entry_freed :: "'w net \<Rightarrow> nat list list \<Rightarrow> nat \<Rightarrow> etharp_entry \<Rightarrow> 'w net \<Rightarrow> bool" where
  "entry_freed s qs i e s' \<longleftrightarrow> arp_ok s' (qs[i := []]) \<and> s' = s\<lparr>arp_table := (arp_table s)[i := e], pb := pb s'\<rparr>
     \<and> bytes (pb s') = bytes (pb s) \<and> (\<forall>x. x \<notin> set (qs ! i) \<longrightarrow> pbufs (pb s') x = pbufs (pb s) x)"

lemma oldest_choice:
  assumes "oldest t ARP_TABLE_SIZE P i a" "\<exists>j<ARP_TABLE_SIZE. P (t ! j)"
  shows "i < ARP_TABLE_SIZE" "P (t ! i)" "oldest t ARP_TABLE_SIZE P i (arp_ctime (t ! i))"
  using assms by (auto simp: oldest_def)

lemma oldest_none: "oldest t ARP_TABLE_SIZE P i a \<Longrightarrow> \<not> (\<exists>j<ARP_TABLE_SIZE. P (t ! j)) \<Longrightarrow> i = ARP_TABLE_SIZE"
  by (auto simp: oldest_def)

lemma find_recycle_ok:
  assumes ok: "arp_ok s qs" and c: "cand_ok (arp_table s) ARP_TABLE_SIZE c"
  shows "\<exists>i s'. find_recycle c s = ret (Inr i, s') \<and> recycle_choice (arp_table s) i \<and> entry_freed s qs i (freed (arp_table s ! i)) s'"
proof -
  let ?t = "arp_table s"
  note okD = arp_okD [OF ok]
  note cd = c [unfolded cand_ok_def]
  have entry: "\<exists>s'. etharp_free_entry i s = ret s' \<and> entry_freed s qs i (freed (?t ! i)) s'" if "i < ARP_TABLE_SIZE" for i
    using free_entry_ok [OF ok that] by (auto simp: entry_freed_def)
  show ?thesis
  proof (cases "\<exists>j<ARP_TABLE_SIZE. \<not> nonempty (?t ! j)")
    case True
    let ?i = "c_empty c"
    have i: "?i < ARP_TABLE_SIZE" "\<not> nonempty (?t ! ?i)" "\<forall>j<?i. nonempty (?t ! j)" using cd True by (auto simp: first_empty_def)
    have "arp_q (?t ! ?i) = 0" using table_ok_nth [OF okD(1) i(1)] i(2) by (simp add: entry_ok_def)
    then have e: "freed (?t ! ?i) = ?t ! ?i" "qs ! ?i = []" using i(2) okD(7) [OF i(1)] by (cases "?t ! ?i"; cases "qs ! ?i"; simp)+
    have "entry_freed s qs ?i (freed (?t ! ?i)) s" unfolding entry_freed_def e(1) using ok list_update_id [of qs ?i] e(2) by simp
    moreover have "find_recycle c s = ret (Inr ?i, s)" using i(1) by (simp add: find_recycle_def)
    moreover have "recycle_choice ?t ?i" using True i by (simp add: recycle_choice_def)
    ultimately show ?thesis by blast
  next
    case ne: False
    then have e: "c_empty c = ARP_TABLE_SIZE" using cd by (auto simp: first_empty_def)
    show ?thesis
    proof (cases "\<exists>j<ARP_TABLE_SIZE. stable (?t ! j)")
      case True
      let ?i = "c_old_stable c"
      have o: "?i < ARP_TABLE_SIZE" "stable (?t ! ?i)" "oldest ?t ARP_TABLE_SIZE stable ?i (arp_ctime (?t ! ?i))"
        using oldest_choice [of ?t stable] cd True by blast+
      have "arp_q (?t ! ?i) = 0" using table_ok_nth [OF okD(1) o(1)] o(2) by (auto simp: entry_ok_def stable_iff)
      then have "find_recycle c s = bind_run (etharp_free_entry ?i s) (\<lambda>s. ret (Inr ?i, s))" using e o(1) by (simp add: find_recycle_def)
      moreover have "recycle_choice ?t ?i" unfolding recycle_choice_def if_not_P [OF ne] if_P [OF True] using o by blast
      ultimately show ?thesis using entry [OF o(1)] by fastforce
    next
      case ns: False
      then have s: "c_old_stable c = ARP_TABLE_SIZE" using cd oldest_none by blast
      show ?thesis
      proof (cases "\<exists>j<ARP_TABLE_SIZE. pending_plain (?t ! j)")
        case True
        let ?i = "c_old_pending c"
        have o: "?i < ARP_TABLE_SIZE" "oldest ?t ARP_TABLE_SIZE pending_plain ?i (arp_ctime (?t ! ?i))"
          using oldest_choice [of ?t pending_plain] cd True by blast+
        then have "find_recycle c s = bind_run (etharp_free_entry ?i s) (\<lambda>s. ret (Inr ?i, s))" using e s by (simp add: find_recycle_def)
        moreover have "recycle_choice ?t ?i" unfolding recycle_choice_def if_not_P [OF ne] if_not_P [OF ns] if_P [OF True] using o by blast
        ultimately show ?thesis using entry [OF o(1)] by fastforce
      next
        case np: False
        then have p: "c_old_pending c = ARP_TABLE_SIZE" using cd oldest_none by blast
        let ?i = "c_old_queue c"
        have "0 < ARP_TABLE_SIZE" by (simp add: ARP_TABLE_SIZE_def)
        then have "\<exists>j<ARP_TABLE_SIZE. pending_queued (?t ! j)" using ne ns np by (metis entry_cases)
        then have o: "?i < ARP_TABLE_SIZE" "oldest ?t ARP_TABLE_SIZE pending_queued ?i (arp_ctime (?t ! ?i))"
          using oldest_choice [of ?t pending_queued] cd by blast+
        then have "find_recycle c s = bind_run (etharp_free_entry ?i s) (\<lambda>s. ret (Inr ?i, s))" using e s p by (simp add: find_recycle_def)
        moreover have "recycle_choice ?t ?i" unfolding recycle_choice_def if_not_P [OF ne] if_not_P [OF ns] if_not_P [OF np] using o by blast
        ultimately show ?thesis using entry [OF o(1)] by fastforce
      qed
    qed
  qed
qed

lemma find_upt_Some: "find P [0..<n] = Some i \<longleftrightarrow> i < n \<and> P i \<and> (\<forall>j<i. \<not> P j)"
  by (auto simp: find_Some_iff intro!: exI [of _ i])

lemma lookup_iff:
  "lookup t a n = Some i \<longleftrightarrow> i < ARP_TABLE_SIZE \<and> nonempty (t ! i) \<and> entry_matches (Some a) n (t ! i)
     \<and> (\<forall>j<i. \<not> (nonempty (t ! j) \<and> entry_matches (Some a) n (t ! j)))"
  "lookup t a n = None \<longleftrightarrow> (\<forall>j<ARP_TABLE_SIZE. \<not> (nonempty (t ! j) \<and> entry_matches (Some a) n (t ! j)))"
  by (auto simp: lookup_def find_upt_Some find_None_iff)

abbreviation fresh_entry :: "u32 \<Rightarrow> nat \<Rightarrow> etharp_entry \<Rightarrow> etharp_entry" where
  "fresh_entry a n e \<equiv> (freed e)\<lparr>arp_ipaddr := a, arp_ctime := 0, arp_netif := n\<rparr>"

lemma find_entry_ok:
  assumes ok: "arp_ok s qs"
  obtains
    (hit) i where "lookup (arp_table s) a n = Some i" "etharp_find_entry (Some a) flags n s = ret (Inr i, s)"
  | (none) "lookup (arp_table s) a n = None" "etharp_find_entry (Some a) flags n s = ret (Inl ERR_MEM, s)"
      "flags AND ETHARP_FLAG_FIND_ONLY \<noteq> 0 \<or> (\<forall>j<ARP_TABLE_SIZE. nonempty (arp_table s ! j)) \<and> flags AND ETHARP_FLAG_TRY_HARD = 0"
  | (new) i s' where "lookup (arp_table s) a n = None" "flags AND ETHARP_FLAG_FIND_ONLY = 0" "recycle_choice (arp_table s) i"
      "etharp_find_entry (Some a) flags n s = ret (Inr i, s')" "entry_freed s qs i (fresh_entry a n (arp_table s ! i)) s'"
proof -
  let ?t = "arp_table s"
  note okD = arp_okD [OF ok]
  have "\<forall>j<0. \<not> (nonempty (?t ! j) \<and> entry_matches (Some a) n (?t ! j))" by simp
  from find_sweep_spec [OF okD(5) _ _ cand_ok_none this, of ?t]
  consider (match) i where "find_sweep (Some a) n 0 ?t no_cand = ret (Inl i)" "lookup ?t a n = Some i"
    | (sweep) c where "find_sweep (Some a) n 0 ?t no_cand = ret (Inr c)" "cand_ok ?t ARP_TABLE_SIZE c" "lookup ?t a n = None"
    by (auto simp: lookup_iff)
  then show thesis
  proof cases
    case match
    then show thesis by (intro hit) (simp_all add: etharp_find_entry_def)
  next
    case sweep
    show thesis
    proof (cases "flags AND ETHARP_FLAG_FIND_ONLY \<noteq> 0 \<or> (c_empty c = ARP_TABLE_SIZE \<and> flags AND ETHARP_FLAG_TRY_HARD = 0)")
      case True
      have "\<forall>j<ARP_TABLE_SIZE. nonempty (?t ! j)" if "c_empty c = ARP_TABLE_SIZE"
        using sweep(2) that by (auto simp: cand_ok_def first_empty_def split: if_splits)
      then show thesis using True sweep by (intro none) (auto simp: etharp_find_entry_def)
    next
      case False
      obtain i s1 where s1: "find_recycle c s = ret (Inr i, s1)" "recycle_choice ?t i" "entry_freed s qs i (freed (?t ! i)) s1"
        using find_recycle_ok [OF ok sweep(2)] by blast
      have i: "i < ARP_TABLE_SIZE" using s1(2) by (simp add: recycle_choice_def)
      have t1: "s1 = s\<lparr>arp_table := ?t[i := freed (?t ! i)], pb := pb s1\<rparr>" using s1(3) by (simp add: entry_freed_def)
      have e1: "arp_table s1 = ?t[i := freed (?t ! i)]" "arp_table s1 ! i = freed (?t ! i)"
        by (subst t1, use okD(5) i in simp)+
      let ?f = "\<lambda>e. e\<lparr>arp_ipaddr := a, arp_ctime := 0, arp_netif := n\<rparr>"
      have ok1: "arp_ok s1 (qs[i := []])" using s1(3) by (simp add: entry_freed_def)
      have "arp_ok (arp_update i ?f s1) (qs[i := []])"
        by (rule arp_ok_update [OF ok1 i]) (simp_all add: e1(2) entry_ok_def same_key_def stable_iff)
      moreover have "arp_update i ?f s1 = s\<lparr>arp_table := ?t[i := fresh_entry a n (?t ! i)], pb := pb s1\<rparr>"
        using okD(5) i unfolding arp_update_def e1(2) by (subst (1 2) t1) simp
      ultimately have "entry_freed s qs i (fresh_entry a n (?t ! i)) (arp_update i ?f s1)"
        using s1(3) by (simp add: entry_freed_def)
      moreover have "etharp_find_entry (Some a) flags n s = ret (Inr i, arp_update i ?f s1)"
        using False sweep(1) s1(1) e1 okD(5) i by (simp add: etharp_find_entry_def arp_update_def)
      ultimately show thesis using sweep(3) False s1(2) by (intro new) auto
    qed
  qed
qed

subsection \<open>Learning an address\<close>

text \<open>Sending a packet and giving up a reference to it.\<close>

lemma send_and_free:
  assumes drv: "driver nc transmit" and ni: "ether_netif s n ni" and len: "length dst = 6" "length src = 6" and inv: "pbuf_inv (pb s)"
    and c: "packet (pb s) q xs" "\<forall>x\<in>set xs. 0 < ref_of (pb s) x"
  shows "\<exists>e s1 m s'. ethernet_output nc n q src dst ty s = ret (e, s1) \<and> on_pb (pbuf_free q) s1 = ret (m, s')
    \<and> s' = s\<lparr>pb := pb s', world := world s'\<rparr> \<and> pbuf_inv (pb s') \<and> (\<forall>x. x \<notin> set xs \<longrightarrow> pbufs (pb s') x = pbufs (pb s) x)"
proof -
  obtain e s1 where s1: "ethernet_output nc n q src dst ty s = ret (e, s1)" "sent q s s1" "packet (pb s1) q xs"
    using ethernet_output_sent [OF drv c(1) ni len] by blast
  have q: "q \<noteq> 0" "q \<in> set xs" using c(1) by (cases xs; auto simp: packet_def)+
  have "chain (pb s1) q xs" using s1(3) by (simp add: packet_def)
  moreover have "\<forall>x\<in>set xs. 0 < ref_of (pb s1) x" using c(2) sentD(6) [OF s1(2)] by simp
  ultimately obtain m b where b: "pbuf_free q (pb s1) = ret (m, b)" "pbuf_inv b" "\<forall>x. x \<notin> set xs \<longrightarrow> pbufs b x = pbufs (pb s1) x"
    using free_queue_ok [OF sentD(4) [OF s1(2) inv] _ q(1)] by blast
  have "s1\<lparr>pb := b\<rparr> = s\<lparr>pb := b, world := world s1\<rparr>" using s1(2) by (auto simp: sent_def)
  moreover have "pbufs b x = pbufs (pb s) x" if "x \<notin> set xs" for x using b(3) sentD(7) [OF s1(2), of x] that q(2) by auto
  ultimately show ?thesis
    using s1(1) b(1,2) by (intro exI [of _ e] exI [of _ s1] exI [of _ m] exI [of _ "s1\<lparr>pb := b\<rparr>"]) (simp add: on_pb_def)
qed

abbreviation learned :: "nat \<Rightarrow> u8 list \<Rightarrow> etharp_entry \<Rightarrow> etharp_entry" where
  "learned n mac e \<equiv> e\<lparr>arp_state := ETHARP_STATE_STABLE, arp_netif := n, arp_ethaddr := mac, arp_ctime := 0, arp_q := 0\<rparr>"

text \<open>The end of \<open>etharp_update_arp_entry\<close>, once the entry is found.\<close>

definition learn_entry :: "'w net_calls \<Rightarrow> nat \<Rightarrow> u8 list \<Rightarrow> u8 list \<Rightarrow> nat \<Rightarrow> 'w net \<Rightarrow> (err_t \<times> 'w net) run" where
  "learn_entry nc netif src ethaddr i s =
     (let s = arp_update i (\<lambda>e. e\<lparr>arp_state := ETHARP_STATE_STABLE, arp_netif := netif,
                         arp_ethaddr := take ETH_HWADDR_LEN ethaddr, arp_ctime := 0\<rparr>) s;
          p = arp_q (arp_table s ! i)
      in if p \<noteq> 0 then
           let s = arp_update i (\<lambda>e. e\<lparr>arp_q := 0\<rparr>) s
           in bind_run (ethernet_output nc netif p src ethaddr ETHTYPE_IP s) (\<lambda>(_, s).
              bind_run (on_pb (pbuf_free p) s) (\<lambda>(_, s). ret (ERR_OK, s)))
         else ret (ERR_OK, s))"

lemma learn_entry_ok:
  assumes drv: "driver nc transmit" and ok: "arp_ok s qs" and i: "i < ARP_TABLE_SIZE" and ni: "ether_netif s n ni"
    and mac: "length mac = 6" "length src = 6"
    and only: "\<And>j. j < ARP_TABLE_SIZE \<Longrightarrow> j \<noteq> i \<Longrightarrow> nonempty (arp_table s ! j) \<Longrightarrow>
      \<not> (arp_ipaddr (arp_table s ! j) = arp_ipaddr (arp_table s ! i) \<and> arp_netif (arp_table s ! j) = n)"
  shows "\<exists>s'. learn_entry nc n src mac i s = ret (ERR_OK, s') \<and> arp_ok s' (qs[i := []])
    \<and> s' = s\<lparr>arp_table := (arp_table s)[i := learned n mac (arp_table s ! i)], pb := pb s', world := world s'\<rparr>
    \<and> (\<forall>x. x \<notin> set (qs ! i) \<longrightarrow> pbufs (pb s') x = pbufs (pb s) x)"
proof -
  let ?t = "arp_table s" and ?q = "arp_q (arp_table s ! i)"
  let ?e = "learned n mac (?t ! i)"
  let ?s = "s\<lparr>arp_table := ?t[i := ?e]\<rparr>"
  note okD = arp_okD [OF ok]
  have "\<exists>s'. learn_entry nc n src mac i s = ret (ERR_OK, s') \<and> s' = ?s\<lparr>pb := pb s', world := world s'\<rparr> \<and> pbuf_inv (pb s')
    \<and> (\<forall>x. x \<notin> set (qs ! i) \<longrightarrow> pbufs (pb s') x = pbufs (pb s) x)"
  proof (cases "?q = 0")
    case True
    then have e: "?e = (?t ! i)\<lparr>arp_state := ETHARP_STATE_STABLE, arp_netif := n, arp_ethaddr := mac, arp_ctime := 0\<rparr>"
      by (cases "?t ! i") simp
    show ?thesis using True okD(2,5) i mac(1) unfolding e
      by (intro exI [of _ "s\<lparr>arp_table := _\<rparr>"]) (simp add: learn_entry_def arp_update_def ETH_HWADDR_LEN_def)
  next
    case False
    have pk: "packet (pb ?s) ?q (qs ! i)" using okD(7,8) [OF i] False by (cases "qs ! i") (auto simp: packet_def)
    have ni': "ether_netif ?s n ni" using ni by (simp add: ether_netif_def)
    have inv': "pbuf_inv (pb ?s)" and rf: "\<forall>x\<in>set (qs ! i). 0 < ref_of (pb ?s) x" using okD(2) okD(9) [OF i] by simp_all
    obtain e s1 m s' where s': "ethernet_output nc n ?q src mac ETHTYPE_IP ?s = ret (e, s1)" "on_pb (pbuf_free ?q) s1 = ret (m, s')"
      "s' = ?s\<lparr>pb := pb s', world := world s'\<rparr>" "pbuf_inv (pb s')" "\<forall>x. x \<notin> set (qs ! i) \<longrightarrow> pbufs (pb s') x = pbufs (pb ?s) x"
      using send_and_free [OF drv ni' mac(1,2) _ pk rf, of ETHTYPE_IP] inv' by blast
    then show ?thesis using False okD(5) i mac(1)
      by (intro exI [of _ s']) (simp add: learn_entry_def arp_update_def ETH_HWADDR_LEN_def Let_def)
  qed
  then obtain s' where s': "learn_entry nc n src mac i s = ret (ERR_OK, s')" "s' = ?s\<lparr>pb := pb s', world := world s'\<rparr>" "pbuf_inv (pb s')"
    "\<forall>x. x \<notin> set (qs ! i) \<longrightarrow> pbufs (pb s') x = pbufs (pb s) x" by blast
  have f: "arp_table s' = ?t[i := ?e]" "links s' = links s" "etharp_cached_entry s' = etharp_cached_entry s" by (subst s'(2), simp)+
  have "entry_ok ?e" using mac(1) by (simp add: entry_ok_def stable_iff ARP_MAXAGE_def ETH_HWADDR_LEN_def)
  moreover have "\<not> same_key ?e (?t ! j)" if "j < ARP_TABLE_SIZE" "j \<noteq> i" for j using only [OF that] by (simp add: same_key_def) metis
  ultimately have "table_ok (?t[i := ?e])" by (rule table_ok_update [OF okD(1) i])
  moreover have "queues (pb s') (?t[i := ?e]) (qs[i := []])"
  proof (rule queues_update [OF okD(3) i])
    show "pbufs (pb s') x = pbufs (pb s) x" if "j < ARP_TABLE_SIZE" "j \<noteq> i" "x \<in> set (qs ! j)" for j x
      using queues_apart [OF okD(3) i that(1)] that s'(4) by blast
  qed (use i okD(5) in simp_all)
  moreover have "\<exists>ni. ether_netif s' (arp_netif (arp_table s' ! j)) ni" if "j < ARP_TABLE_SIZE" "nonempty (arp_table s' ! j)" for j
    using okD(6) [of j] ni that okD(5) i f(2) unfolding f(1) by (auto simp: ether_netif_def nth_list_update split: if_splits)
  ultimately have "arp_ok s' (qs[i := []])" using ok s'(3) by (simp add: arp_ok_def f)
  then show ?thesis using s' by auto
qed

definition unicast :: "u32 \<Rightarrow> netif \<Rightarrow> bool" where
  "unicast a ni \<longleftrightarrow> \<not> (a = IPADDR_ANY \<or> ip4_addr_isbroadcast_u32 a ni \<or> ip4_addr_ismulticast a)"

lemma update_eq:
  assumes "ether_netif s n ni" "unicast a ni"
  shows "etharp_update_arp_entry nc n a mac flags s =
    bind_run (etharp_find_entry (Some a) flags n s) (\<lambda>(r, s).
      case r of Inl err \<Rightarrow> ret (err, s) | Inr i \<Rightarrow> learn_entry nc n (hwaddr ni) mac i s)"
  using assms unfolding etharp_update_arp_entry_def learn_entry_def Let_def
  by (simp add: nget_def ether_netif_def unicast_def)

lemma entry_matches_iff: "n \<noteq> 0 \<Longrightarrow> entry_matches (Some a) n e \<longleftrightarrow> arp_ipaddr e = a \<and> arp_netif e = n"
  by (auto simp: entry_matches_def)

lemma lookup_other:
  assumes "table_ok t" "n \<noteq> 0" "lookup t a n = Some i" "j < ARP_TABLE_SIZE" "j \<noteq> i" "nonempty (t ! j)"
  shows "\<not> (arp_ipaddr (t ! j) = a \<and> arp_netif (t ! j) = n)"
  using assms table_ok_unique [OF assms(1), of i j] by (auto simp: lookup_iff entry_matches_iff same_key_def)

lemma update_ok:
  assumes drv: "driver nc transmit" and ok: "arp_ok s qs" and ni: "ether_netif s n ni" and mac: "length mac = 6" and uni: "unicast a ni"
  obtains
    (none) "lookup (arp_table s) a n = None" "etharp_update_arp_entry nc n a mac flags s = ret (ERR_MEM, s)"
      "flags AND ETHARP_FLAG_FIND_ONLY \<noteq> 0 \<or> (\<forall>j<ARP_TABLE_SIZE. nonempty (arp_table s ! j)) \<and> flags AND ETHARP_FLAG_TRY_HARD = 0"
  | (learnt) i s' where "i < ARP_TABLE_SIZE" "etharp_update_arp_entry nc n a mac flags s = ret (ERR_OK, s')" "arp_ok s' (qs[i := []])"
      "lookup (arp_table s) a n = Some i \<or> lookup (arp_table s) a n = None \<and> flags AND ETHARP_FLAG_FIND_ONLY = 0 \<and> recycle_choice (arp_table s) i"
      "arp_table s' = (arp_table s)[i := learned n mac ((arp_table s ! i)\<lparr>arp_ipaddr := a\<rparr>)]"
      "links s' = links s" "etharp_cached_entry s' = etharp_cached_entry s"
      "\<forall>x. x \<notin> set (qs ! i) \<longrightarrow> pbufs (pb s') x = pbufs (pb s) x"
proof -
  let ?t = "arp_table s"
  note okD = arp_okD [OF ok]
  have n: "n \<noteq> 0" "length (hwaddr ni) = 6" using ni by (simp_all add: ether_netif_def ETH_HWADDR_LEN_def)
  note eq = update_eq [OF ni uni]
  from find_entry_ok [OF ok, of a n flags] show thesis
  proof cases
    case hit: (1 i)
    then have i: "i < ARP_TABLE_SIZE" "arp_ipaddr (?t ! i) = a" using n by (auto simp: lookup_iff entry_matches_iff)
    have e: "(?t ! i)\<lparr>arp_ipaddr := a\<rparr> = ?t ! i" using i(2) by (cases "?t ! i") simp
    have "\<not> (arp_ipaddr (?t ! j) = arp_ipaddr (?t ! i) \<and> arp_netif (?t ! j) = n)" if "j < ARP_TABLE_SIZE" "j \<noteq> i" "nonempty (?t ! j)" for j
      using lookup_other [OF okD(1) n(1) hit(1) that] i(2) by simp
    then obtain s' where s': "learn_entry nc n (hwaddr ni) mac i s = ret (ERR_OK, s')" "arp_ok s' (qs[i := []])"
      "s' = s\<lparr>arp_table := ?t[i := learned n mac (?t ! i)], pb := pb s', world := world s'\<rparr>"
      "\<forall>x. x \<notin> set (qs ! i) \<longrightarrow> pbufs (pb s') x = pbufs (pb s) x"
      using learn_entry_ok [OF drv ok i(1) ni mac n(2)] by blast
    have f: "arp_table s' = ?t[i := learned n mac (?t ! i)]" "links s' = links s" "etharp_cached_entry s' = etharp_cached_entry s"
      by (subst s'(3), simp)+
    show thesis by (rule learnt [OF i(1) _ s'(2)]) (use eq hit s' f e in simp_all)
  next
    case none: 2
    then show thesis using eq by (intro that(1)) simp_all
  next
    case new: (3 i s1)
    have i: "i < ARP_TABLE_SIZE" using new(3) by (simp add: recycle_choice_def)
    let ?e = "fresh_entry a n (?t ! i)"
    have s1: "arp_ok s1 (qs[i := []])" "s1 = s\<lparr>arp_table := ?t[i := ?e], pb := pb s1\<rparr>" "\<forall>x. x \<notin> set (qs ! i) \<longrightarrow> pbufs (pb s1) x = pbufs (pb s) x"
      using new(5) by (simp_all add: entry_freed_def)
    have f1: "arp_table s1 = ?t[i := ?e]" "links s1 = links s" "etharp_cached_entry s1 = etharp_cached_entry s" by (subst s1(2), simp)+
    have e1: "arp_table s1 ! i = ?e" using i okD(5) by (simp add: f1)
    have ni1: "ether_netif s1 n ni" using ni f1 by (simp add: ether_netif_def)
    have "\<not> (arp_ipaddr (arp_table s1 ! j) = arp_ipaddr (arp_table s1 ! i) \<and> arp_netif (arp_table s1 ! j) = n)"
      if "j < ARP_TABLE_SIZE" "j \<noteq> i" "nonempty (arp_table s1 ! j)" for j
      using that new(1) n(1) i okD(5) e1 unfolding f1 by (auto simp: lookup_iff entry_matches_iff)
    then obtain s' where s': "learn_entry nc n (hwaddr ni) mac i s1 = ret (ERR_OK, s')" "arp_ok s' ((qs[i := []])[i := []])"
      "s' = s1\<lparr>arp_table := (arp_table s1)[i := learned n mac (arp_table s1 ! i)], pb := pb s', world := world s'\<rparr>"
      "\<forall>x. x \<notin> set (qs[i := []] ! i) \<longrightarrow> pbufs (pb s') x = pbufs (pb s1) x"
      using learn_entry_ok [OF drv s1(1) i ni1 mac n(2)] by blast
    have f: "arp_table s' = (arp_table s1)[i := learned n mac (arp_table s1 ! i)]" "links s' = links s1" "etharp_cached_entry s' = etharp_cached_entry s1"
      by (subst s'(3), simp)+
    have l: "learned n mac (arp_table s1 ! i) = learned n mac ((?t ! i)\<lparr>arp_ipaddr := a\<rparr>)" unfolding e1 by simp
    show thesis
      by (rule learnt [OF i, of s']) (use eq new(1-4) s' s1(3) i okD(4) f f1 l in simp_all)
  qed
qed

subsection \<open>The timer\<close>

text \<open>What a second does to an entry.\<close>

definition aged :: "etharp_entry \<Rightarrow> etharp_entry" where
  "aged e =
     (case arp_state e of
        ETHARP_STATE_EMPTY \<Rightarrow> e
      | ETHARP_STATE_PENDING \<Rightarrow> if unat (arp_ctime e) + 1 < 5 then e\<lparr>arp_ctime := arp_ctime e + 1\<rparr> else freed (e\<lparr>arp_ctime := arp_ctime e + 1\<rparr>)
      | st \<Rightarrow> if unat (arp_ctime e) + 1 < 300 then
               e\<lparr>arp_ctime := arp_ctime e + 1,
                 arp_state := (if st = ETHARP_STATE_STABLE_REREQUESTING_1 then ETHARP_STATE_STABLE_REREQUESTING_2 else ETHARP_STATE_STABLE)\<rparr>
             else freed (e\<lparr>arp_ctime := arp_ctime e + 1\<rparr>))"

lemma restored_ok:
  assumes "arp_ok s qs" "restored s s'"
  shows "arp_ok s' qs"
proof -
  have p: "pbufs (pb s') = pbufs (pb s)" using assms(2) by (simp add: restored_def)
  have "queues (pb s') t qs = queues (pb s) t qs" for t
    unfolding queues_def same_pbufs(3,4) [OF p] by (simp add: ref_of_def p)
  then show ?thesis using assms by (simp add: arp_ok_def restored_def ether_netif_def)
qed

lemma ctime_limits:
  assumes "entry_ok e"
  shows "arp_state e = ETHARP_STATE_PENDING \<Longrightarrow> unat (arp_ctime e) < 5" and "stable e \<Longrightarrow> unat (arp_ctime e) < 300"
    and "nonempty e \<Longrightarrow> unat (arp_ctime e + 1) = unat (arp_ctime e) + 1"
proof -
  show p: "arp_state e = ETHARP_STATE_PENDING \<Longrightarrow> unat (arp_ctime e) < 5" and s: "stable e \<Longrightarrow> unat (arp_ctime e) < 300"
    using assms by (simp_all add: entry_ok_def ARP_MAXPENDING_def ARP_MAXAGE_def word_less_nat_alt)
  then have "nonempty e \<Longrightarrow> unat (arp_ctime e) < 300" by (cases "arp_state e = ETHARP_STATE_PENDING") (auto simp: stable_iff)
  then show "nonempty e \<Longrightarrow> unat (arp_ctime e + 1) = unat (arp_ctime e) + 1" by (simp add: word_unat)
qed

lemma aged_ok:
  assumes "entry_ok e"
  shows "entry_ok (aged e)" and "same_key (aged e) d \<Longrightarrow> same_key e d" and "nonempty (aged e) \<Longrightarrow> nonempty e \<and> arp_netif (aged e) = arp_netif e"
proof -
  show "entry_ok (aged e)"
    using assms ctime_limits [OF assms]
    by (auto simp: aged_def entry_ok_def stable_iff ARP_MAXPENDING_def ARP_MAXAGE_def word_less_nat_alt split: etharp_state.splits)
  show "same_key (aged e) d \<Longrightarrow> same_key e d"
    by (auto simp: aged_def same_key_def split: etharp_state.splits if_splits)
  show "nonempty (aged e) \<Longrightarrow> nonempty e \<and> arp_netif (aged e) = arp_netif e"
    by (auto simp: aged_def split: etharp_state.splits if_splits)
qed

text \<open>
  \<open>evolved s qs s' qs'\<close>: an operation has led from a good state to a good one, freeing queued packets at
  most; the interfaces, the cached index and the structs that were not queued are as before.
\<close>

definition evolved :: "'w net \<Rightarrow> nat list list \<Rightarrow> 'w net \<Rightarrow> nat list list \<Rightarrow> bool" where
  "evolved s qs s' qs' \<longleftrightarrow> arp_ok s' qs' \<and> (\<forall>i<ARP_TABLE_SIZE. qs' ! i = qs ! i \<or> qs' ! i = [])
     \<and> links s' = links s \<and> etharp_cached_entry s' = etharp_cached_entry s
     \<and> (\<forall>x. (\<forall>i<ARP_TABLE_SIZE. x \<notin> set (qs ! i)) \<longrightarrow> pbufs (pb s') x = pbufs (pb s) x)"

lemma evolved_refl: "arp_ok s qs \<Longrightarrow> evolved s qs s qs"
  by (simp add: evolved_def)

lemma evolved_trans:
  assumes "evolved s qs s1 qs1" "evolved s1 qs1 s2 qs2"
  shows "evolved s qs s2 qs2"
proof -
  have "\<forall>i<ARP_TABLE_SIZE. set (qs1 ! i) \<subseteq> set (qs ! i)" using assms(1) by (auto simp: evolved_def)
  then show ?thesis using assms unfolding evolved_def by (metis (no_types, lifting) subsetD)
qed

lemma evolved_one:
  assumes "arp_ok s qs" "i < ARP_TABLE_SIZE" "arp_ok s' (qs[i := []])" "links s' = links s" "etharp_cached_entry s' = etharp_cached_entry s"
    "\<forall>x. x \<notin> set (qs ! i) \<longrightarrow> pbufs (pb s') x = pbufs (pb s) x"
  shows "evolved s qs s' (qs[i := []])"
  using assms arp_okD(4) [OF assms(1)] by (auto simp: evolved_def nth_list_update)

lemma evolved_same:
  assumes "arp_ok s' qs" "links s' = links s" "etharp_cached_entry s' = etharp_cached_entry s" "pbufs (pb s') = pbufs (pb s)"
  shows "evolved s qs s' qs"
  using assms by (simp add: evolved_def)

lemma tmr_entry_ok:
  assumes drv: "driver nc transmit" and ok: "arp_ok s qs" and i: "i < ARP_TABLE_SIZE"
  shows "\<exists>s' qs'. tmr_entry nc i s = ret s' \<and> evolved s qs s' qs' \<and> arp_table s' = (arp_table s)[i := aged (arp_table s ! i)]"
proof -
  let ?t = "arp_table s"
  let ?e = "?t ! i" and ?c = "\<lambda>e. e\<lparr>arp_ctime := arp_ctime e + 1\<rparr>"
  note okD = arp_okD [OF ok]
  have e: "entry_ok ?e" by (rule table_ok_nth [OF okD(1) i])
  note lim = ctime_limits [OF e] and ag = aged_ok [OF e]
  have other: "\<not> same_key (aged ?e) (?t ! j)" if "j < ARP_TABLE_SIZE" "j \<noteq> i" for j
    using ag(2) table_ok_unique [OF okD(1) i that(1)] that(2) by blast
  show ?thesis
  proof (cases "nonempty ?e")
    case False
    then have "aged ?e = ?e" by (simp add: aged_def)
    then show ?thesis using False evolved_refl [OF ok] by (intro exI [of _ s] exI [of _ qs]) (simp add: tmr_entry_def)
  next
    case ne: True
    note c = lim(3) [OF ne]
    let ?s1 = "arp_update i ?c s"
    have t1: "arp_table ?s1 ! i = ?c ?e" using okD(5) i by simp
    show ?thesis
    proof (cases "arp_state (aged ?e) = ETHARP_STATE_EMPTY")
      case True
      then have a: "aged ?e = freed (?c ?e)" using ne by (auto simp: aged_def split: etharp_state.splits if_splits)
      have "arp_ctime (?c ?e) \<ge> ARP_MAXAGE \<or> arp_state (?c ?e) = ETHARP_STATE_PENDING \<and> arp_ctime (?c ?e) \<ge> ARP_MAXPENDING"
        using True ne c lim by (auto simp: aged_def ARP_MAXAGE_def ARP_MAXPENDING_def word_le_nat_alt stable_iff split: etharp_state.splits if_splits)
      then have "tmr_entry nc i s = etharp_free_entry i ?s1" using ne t1 by (simp add: tmr_entry_def Let_def)
      moreover obtain s' where s': "etharp_free_entry i ?s1 = ret s'" "arp_ok s' (qs[i := []])"
        "s' = s\<lparr>arp_table := ?t[i := freed (?c ?e)], pb := pb s'\<rparr>" "\<forall>x. x \<notin> set (qs ! i) \<longrightarrow> pbufs (pb s') x = pbufs (pb s) x"
        using free_changed_entry_ok [OF ok i, of ?c] by auto
      moreover have f: "arp_table s' = ?t[i := aged ?e]" "links s' = links s" "etharp_cached_entry s' = etharp_cached_entry s"
        unfolding a by (subst s'(3), simp)+
      ultimately show ?thesis using evolved_one [OF ok i s'(2)] by metis
    next
      case alive: False
      let ?s2 = "arp_update i aged s"
      have q: "arp_q (aged ?e) = arp_q ?e" using alive by (auto simp: aged_def split: etharp_state.splits if_splits)
      have ok2: "arp_ok ?s2 qs"
        by (rule arp_ok_update [of s qs i aged, OF ok i q ag(1) other]) (use ag(3) okD(6) [OF i] in auto)
      have ev2: "evolved s qs ?s2 qs" by (rule evolved_same [OF ok2]) simp_all
      have young: "\<not> (arp_ctime (?c ?e) \<ge> ARP_MAXAGE \<or> arp_state (?c ?e) = ETHARP_STATE_PENDING \<and> arp_ctime (?c ?e) \<ge> ARP_MAXPENDING)"
        using alive ne c lim by (auto simp: aged_def ARP_MAXAGE_def ARP_MAXPENDING_def word_le_nat_alt stable_iff split: etharp_state.splits if_splits)
      have upd: "arp_update i f ?s1 = ?s2" if "f (?c ?e) = aged ?e" for f using that okD(5) i by (simp add: arp_update_def)
      have same: "?s1 = ?s2" if "?c ?e = aged ?e" using that by (simp add: arp_update_def)
      note run = tmr_entry_def [of nc i s] Let_def okD(5) i
      show ?thesis
      proof (cases "arp_state ?e")
        case ETHARP_STATE_PENDING
        then have a: "?c ?e = aged ?e" using alive by (simp add: aged_def split: if_splits)
        obtain ni where ni: "ether_netif ?s2 (arp_netif ?e) ni" using okD(6) [OF i ne] by (auto simp: ether_netif_def)
        obtain r s' where s': "etharp_request nc (arp_netif ?e) (arp_ipaddr ?e) ?s2 = ret (r, s')" "restored ?s2 s'"
          using etharp_request_ok [OF drv arp_okD(2) [OF ok2] ni, of ethbroadcast "arp_ipaddr ?e"]
          by (auto simp: etharp_request_def ethbroadcast_def)
        have "tmr_entry nc i s = bind_run (etharp_request nc (arp_netif ?e) (arp_ipaddr ?e) ?s1) (\<lambda>(_, s). ret s)"
          using ETHARP_STATE_PENDING young by (simp add: run)
        then have "tmr_entry nc i s = ret s'" unfolding same [OF a] s'(1) by simp
        moreover have "evolved ?s2 qs s' qs"
          using evolved_same [OF restored_ok [OF ok2 s'(2)]] s'(2) by (simp add: restored_def)
        ultimately show ?thesis using evolved_trans [OF ev2] s'(2) by (auto simp: restored_def)
      next
        case ETHARP_STATE_STABLE
        then have "?c ?e = aged ?e" using alive by (cases ?e) (simp add: aged_def split: if_splits)
        moreover have "tmr_entry nc i s = ret ?s1" using ETHARP_STATE_STABLE young by (simp add: run)
        ultimately show ?thesis using ev2 same by auto
      next
        case ETHARP_STATE_STABLE_REREQUESTING_1
        then have "arp_update i (\<lambda>e. e\<lparr>arp_state := ETHARP_STATE_STABLE_REREQUESTING_2\<rparr>) ?s1 = ?s2"
          using alive by (intro upd) (simp add: aged_def split: if_splits)
        moreover have "tmr_entry nc i s = ret (arp_update i (\<lambda>e. e\<lparr>arp_state := ETHARP_STATE_STABLE_REREQUESTING_2\<rparr>) ?s1)"
          using ETHARP_STATE_STABLE_REREQUESTING_1 young by (simp add: run)
        ultimately show ?thesis using ev2 by auto
      next
        case ETHARP_STATE_STABLE_REREQUESTING_2
        then have "arp_update i (\<lambda>e. e\<lparr>arp_state := ETHARP_STATE_STABLE\<rparr>) ?s1 = ?s2"
          using alive by (intro upd) (simp add: aged_def split: if_splits)
        moreover have "tmr_entry nc i s = ret (arp_update i (\<lambda>e. e\<lparr>arp_state := ETHARP_STATE_STABLE\<rparr>) ?s1)"
          using ETHARP_STATE_STABLE_REREQUESTING_2 young by (simp add: run)
        ultimately show ?thesis using ev2 by auto
      qed (use ne in simp)
    qed
  qed
qed

subsection \<open>Sweeps through the table\<close>

lemma nth_fold_update:
  "distinct ks \<Longrightarrow> j < length t \<Longrightarrow> fold (\<lambda>i t. t[i := f (t ! i)]) ks t ! j = (if j \<in> set ks then f (t ! j) else t ! j)"
proof (induction ks arbitrary: t)
  case (Cons k ks)
  then have "j \<in> set ks \<Longrightarrow> j \<noteq> k" by auto
  with Cons show ?case by (cases "j = k") auto
qed simp

lemma length_fold_update [simp]: "length (fold (\<lambda>i t. t[i := f (t ! i)]) ks t) = length t"
  by (induction ks arbitrary: t) simp_all

lemma fold_update_all: "fold (\<lambda>i t. t[i := f (t ! i)]) [0..<length t] t = map f t"
  by (rule nth_equalityI) (simp_all add: nth_fold_update)

lemma sweep_ok:
  assumes step: "\<And>s qs i. arp_ok s qs \<Longrightarrow> i < ARP_TABLE_SIZE \<Longrightarrow>
      \<exists>s' qs'. op i s = ret s' \<and> evolved s qs s' qs' \<and> arp_table s' = (arp_table s)[i := f (arp_table s ! i)]"
    and ok: "arp_ok s qs"
  shows "\<exists>s' qs'. run_all op [0..<ARP_TABLE_SIZE] s = ret s' \<and> evolved s qs s' qs' \<and> arp_table s' = map f (arp_table s)"
proof -
  have "\<exists>s' qs'. run_all op ks s = ret s' \<and> evolved s qs s' qs' \<and> arp_table s' = fold (\<lambda>i t. t[i := f (t ! i)]) ks (arp_table s)"
    if "set ks \<subseteq> {..<ARP_TABLE_SIZE}" for ks
    using that ok
  proof (induction ks arbitrary: s qs)
    case Nil
    then show ?case using evolved_refl by auto
  next
    case (Cons k ks)
    obtain s1 qs1 where s1: "op k s = ret s1" "evolved s qs s1 qs1" "arp_table s1 = (arp_table s)[k := f (arp_table s ! k)]"
      using step [OF Cons.prems(2), of k] Cons.prems(1) by auto
    then obtain s2 qs2 where "run_all op ks s1 = ret s2" "evolved s1 qs1 s2 qs2" "arp_table s2 = fold (\<lambda>i t. t[i := f (t ! i)]) ks (arp_table s1)"
      using Cons.IH [of s1 qs1] Cons.prems(1) by (auto simp: evolved_def)
    then show ?case using s1 evolved_trans by (auto intro!: exI [of _ s2] exI [of _ qs2])
  qed
  from this [of "[0..<ARP_TABLE_SIZE]"] show ?thesis
    using fold_update_all [of f "arp_table s"] arp_okD(5) [OF ok] by (simp add: lessThan_atLeast0)
qed

lemma tmr_loop_run_all: "tmr_loop nc ks s = run_all (tmr_entry nc) ks s"
proof (induction ks arbitrary: s)
  case (Cons k ks)
  then have "tmr_loop nc ks = run_all (tmr_entry nc) ks" by (simp add: fun_eq_iff)
  then show ?case by simp
qed simp

lemma tmr_ok:
  assumes "driver nc transmit" "arp_ok s qs"
  shows "\<exists>s' qs'. etharp_tmr nc s = ret s' \<and> evolved s qs s' qs' \<and> arp_table s' = map aged (arp_table s)"
  unfolding etharp_tmr_def tmr_loop_run_all using sweep_ok [of "tmr_entry nc" aged, OF tmr_entry_ok [OF assms(1)] assms(2)] by blast

text \<open>What becomes of an entry when its interface goes away.\<close>

definition cleaned :: "nat \<Rightarrow> etharp_entry \<Rightarrow> etharp_entry" where
  "cleaned n e = (if nonempty e \<and> arp_netif e = n then freed e else e)"

lemma cleanup_loop_run_all:
  fixes s :: "'w net"
  shows "cleanup_loop n ks s = run_all (\<lambda>i s. if nonempty (arp_table s ! i) \<and> arp_netif (arp_table s ! i) = n then etharp_free_entry i s else ret s) ks s"
proof (induction ks arbitrary: s)
  case (Cons k ks)
  have "cleanup_loop n ks = run_all (\<lambda>i (s :: 'w net). if nonempty (arp_table s ! i) \<and> arp_netif (arp_table s ! i) = n then etharp_free_entry i s else ret s) ks"
    by (rule ext) (rule Cons.IH)
  then show ?case by simp
qed simp

lemma cleanup_entry_ok:
  assumes ok: "arp_ok s qs" and i: "i < ARP_TABLE_SIZE"
  shows "\<exists>s' qs'. (if nonempty (arp_table s ! i) \<and> arp_netif (arp_table s ! i) = n then etharp_free_entry i s else ret s) = ret s'
    \<and> evolved s qs s' qs' \<and> arp_table s' = (arp_table s)[i := cleaned n (arp_table s ! i)]"
proof (cases "nonempty (arp_table s ! i) \<and> arp_netif (arp_table s ! i) = n")
  case True
  obtain s' where s': "etharp_free_entry i s = ret s'" "arp_ok s' (qs[i := []])"
    "s' = s\<lparr>arp_table := (arp_table s)[i := freed (arp_table s ! i)], pb := pb s'\<rparr>" "\<forall>x. x \<notin> set (qs ! i) \<longrightarrow> pbufs (pb s') x = pbufs (pb s) x"
    using free_entry_ok [OF ok i] by blast
  have "arp_table s' = (arp_table s)[i := freed (arp_table s ! i)]" "links s' = links s" "etharp_cached_entry s' = etharp_cached_entry s"
    by (subst s'(3), simp)+
  with True s' evolved_one [OF ok i s'(2)] show ?thesis unfolding cleaned_def by auto
next
  case False
  then show ?thesis unfolding cleaned_def if_not_P [OF False] using evolved_refl [OF ok] by auto
qed

lemma cleanup_ok:
  assumes "arp_ok s qs"
  shows "\<exists>s' qs'. etharp_cleanup_netif n s = ret s' \<and> evolved s qs s' qs' \<and> arp_table s' = map (cleaned n) (arp_table s)"
  unfolding etharp_cleanup_netif_def cleanup_loop_run_all by (rule sweep_ok [OF cleanup_entry_ok assms])

subsection \<open>The cache as a map\<close>

lemma option_eqI: "(\<And>m. x = Some m \<longleftrightarrow> y = Some m) \<Longrightarrow> x = y"
  by (cases x; cases y) auto

definition entry_key :: "etharp_entry \<Rightarrow> u32 \<times> nat" where
  "entry_key e = (arp_ipaddr e, arp_netif e)"

definition abs_cache :: "etharp_entry list \<Rightarrow> u32 \<times> nat \<Rightarrow> u8 list option" where
  "abs_cache t k = map_option arp_ethaddr (find (\<lambda>e. stable e \<and> entry_key e = k) t)"

lemma stable_unique:
  assumes "table_ok t" "i < ARP_TABLE_SIZE" "j < ARP_TABLE_SIZE" "stable (t ! i)" "stable (t ! j)" "entry_key (t ! i) = entry_key (t ! j)"
  shows "i = j"
  using assms(4-6) by (intro table_ok_unique [OF assms(1-3)]) (auto simp: same_key_def stable_iff entry_key_def)

lemma abs_cache_iff:
  assumes "table_ok t"
  shows "abs_cache t k = Some m \<longleftrightarrow> (\<exists>i<ARP_TABLE_SIZE. stable (t ! i) \<and> entry_key (t ! i) = k \<and> arp_ethaddr (t ! i) = m)"
proof -
  note uniq = stable_unique [OF assms]
  show ?thesis
  proof
    assume "abs_cache t k = Some m"
    then show "\<exists>i<ARP_TABLE_SIZE. stable (t ! i) \<and> entry_key (t ! i) = k \<and> arp_ethaddr (t ! i) = m"
      using assms by (auto simp: abs_cache_def find_Some_iff)
  next
    assume "\<exists>i<ARP_TABLE_SIZE. stable (t ! i) \<and> entry_key (t ! i) = k \<and> arp_ethaddr (t ! i) = m"
    then obtain i where i: "i < ARP_TABLE_SIZE" "stable (t ! i)" "entry_key (t ! i) = k" "arp_ethaddr (t ! i) = m" by blast
    moreover have "\<not> (stable (t ! j) \<and> entry_key (t ! j) = k)" if "j < i" for j using uniq [of j i] that i by auto
    ultimately have "find (\<lambda>e. stable e \<and> entry_key e = k) t = Some (t ! i)"
      unfolding find_Some_iff using table_ok_length [OF assms] by (intro exI [of _ i]) auto
    then show "abs_cache t k = Some m" using i(4) by (simp add: abs_cache_def)
  qed
qed

lemma abs_cache_update:
  assumes t: "table_ok t" "table_ok (t[i := e])" and i: "i < ARP_TABLE_SIZE" and e: "stable e"
  shows "abs_cache (t[i := e]) = (if stable (t ! i) then (abs_cache t)(entry_key (t ! i) := None) else abs_cache t)(entry_key e \<mapsto> arp_ethaddr e)"
proof -
  let ?abs = "if stable (t ! i) then (abs_cache t)(entry_key (t ! i) := None) else abs_cache t"
  have l: "length t = ARP_TABLE_SIZE" using t(1) by simp
  have "abs_cache (t[i := e]) k = Some m \<longleftrightarrow> (?abs(entry_key e \<mapsto> arp_ethaddr e)) k = Some m" for k m
  proof (cases "k = entry_key e")
    case True
    have "abs_cache (t[i := e]) k = Some (arp_ethaddr e)" unfolding abs_cache_iff [OF t(2)] True using i l e by (intro exI [of _ i]) simp
    then show ?thesis using True by auto
  next
    case False
    have "abs_cache (t[i := e]) k = Some m \<longleftrightarrow> (\<exists>j<ARP_TABLE_SIZE. j \<noteq> i \<and> stable (t ! j) \<and> entry_key (t ! j) = k \<and> arp_ethaddr (t ! j) = m)"
      unfolding abs_cache_iff [OF t(2)] using False i l by (auto simp: nth_list_update)
    also have "\<dots> \<longleftrightarrow> ?abs k = Some m"
    proof (cases "stable (t ! i) \<and> entry_key (t ! i) = k")
      case True
      have "j = i" if "j < ARP_TABLE_SIZE" "stable (t ! j)" "entry_key (t ! j) = k" for j
        by (rule stable_unique [OF t(1) that(1) i that(2)]) (use that(3) True in auto)
      then have "\<not> (\<exists>j<ARP_TABLE_SIZE. j \<noteq> i \<and> stable (t ! j) \<and> entry_key (t ! j) = k \<and> arp_ethaddr (t ! j) = m)" by blast
      moreover have "?abs k = None" using True by simp
      ultimately show ?thesis by simp
    next
      case other: False
      then have "?abs k = abs_cache t k" by auto
      moreover have "(\<exists>j<ARP_TABLE_SIZE. j \<noteq> i \<and> stable (t ! j) \<and> entry_key (t ! j) = k \<and> arp_ethaddr (t ! j) = m)
        \<longleftrightarrow> abs_cache t k = Some m" unfolding abs_cache_iff [OF t(1)] using other by blast
      ultimately show ?thesis by presburger
    qed
    finally show ?thesis using False by simp
  qed
  then show ?thesis by (intro ext option_eqI)
qed

lemma find_addr_ok:
  assumes ok: "arp_ok s qs" and n: "n \<noteq> 0"
  shows "\<exists>r. etharp_find_addr n (Some a) s = ret (r, s) \<and> map_option (\<lambda>(i, mac, ip). mac) r = abs_cache (arp_table s) (a, n)"
proof -
  let ?t = "arp_table s"
  note t = arp_okD(1) [OF ok]
  have "\<exists>r. etharp_find_entry (Some a) ETHARP_FLAG_FIND_ONLY n s = ret (r, s)
    \<and> (case r of Inl _ \<Rightarrow> lookup ?t a n = None | Inr i \<Rightarrow> lookup ?t a n = Some i)"
    using find_entry_ok [OF ok, of a n ETHARP_FLAG_FIND_ONLY] by cases (auto simp: ETHARP_FLAG_FIND_ONLY_def)
  then obtain r where r: "etharp_find_entry (Some a) ETHARP_FLAG_FIND_ONLY n s = ret (r, s)"
    "case r of Inl _ \<Rightarrow> lookup ?t a n = None | Inr i \<Rightarrow> lookup ?t a n = Some i" by blast
  have run: "etharp_find_addr n (Some a) s = (case r of Inl _ \<Rightarrow> ret (None, s)
    | Inr i \<Rightarrow> if stable (?t ! i) then ret (Some (i, arp_ethaddr (?t ! i), arp_ipaddr (?t ! i)), s) else ret (None, s))"
    unfolding etharp_find_addr_def r(1) by (simp split: sum.splits)
  have none: "abs_cache ?t (a, n) = None"
    if "\<And>j. j < ARP_TABLE_SIZE \<Longrightarrow> \<not> (stable (?t ! j) \<and> entry_key (?t ! j) = (a, n))"
    using that abs_cache_iff [OF t, of "(a, n)"] by (cases "abs_cache ?t (a, n)") auto
  show ?thesis
  proof (cases r)
    case (Inl e)
    have "abs_cache ?t (a, n) = None"
      by (rule none) (use r(2) Inl n in \<open>auto simp: lookup_iff entry_matches_iff entry_key_def stable_iff\<close>)
    then show ?thesis using run Inl by auto
  next
    case (Inr i)
    then have l: "lookup ?t a n = Some i" using r(2) by simp
    then have i: "i < ARP_TABLE_SIZE" "entry_key (?t ! i) = (a, n)" using n by (auto simp: lookup_iff entry_matches_iff entry_key_def)
    show ?thesis
    proof (cases "stable (?t ! i)")
      case True
      then have "abs_cache ?t (a, n) = Some (arp_ethaddr (?t ! i))" unfolding abs_cache_iff [OF t] using i by blast
      then show ?thesis using run Inr True by auto
    next
      case False
      have "abs_cache ?t (a, n) = None"
      proof (rule none)
        fix j assume j: "j < ARP_TABLE_SIZE"
        show "\<not> (stable (?t ! j) \<and> entry_key (?t ! j) = (a, n))"
          using lookup_other [OF t n l j] False by (cases "j = i") (auto simp: stable_iff entry_key_def)
      qed
      then show ?thesis using run Inr False by auto
    qed
  qed
qed

end
