(* ===== verification/Etharp_Packets.thy ===== *)
theory Etharp_Packets
  imports Etharp_Cache
begin

text \<open>
  Packets through the ARP cache: queries, the queue of a pending entry, output and input. A packet
  that the caller hands over (\<open>ready\<close>) shares no struct with the queued ones. Every operation returns from
  a good state in a good state, whatever the packet holds.
\<close>

subsection \<open>Sending and queueing packets\<close>

text \<open>A packet of the caller, apart from the queued ones.\<close>

definition ready :: "'w net \<Rightarrow> nat list list \<Rightarrow> nat \<Rightarrow> nat list \<Rightarrow> bool" where
  "ready s qs q xs \<longleftrightarrow> packet (pb s) q xs \<and> full (pb s) xs \<and> (\<forall>x\<in>set xs. 0 < ref_of (pb s) x) \<and> ref_of (pb s) q < 255
     \<and> (\<forall>i<ARP_TABLE_SIZE. set xs \<inter> set (qs ! i) = {})"

lemma arp_ok_pb:
  assumes ok: "arp_ok s qs" and s': "arp_table s' = arp_table s" "links s' = links s" "etharp_cached_entry s' < ARP_TABLE_SIZE" "pbuf_inv (pb s')"
    and fr: "\<And>i x. i < ARP_TABLE_SIZE \<Longrightarrow> x \<in> set (qs ! i) \<Longrightarrow> pbufs (pb s') x = pbufs (pb s) x"
  shows "arp_ok s' qs"
proof -
  note okD = arp_okD [OF ok]
  have "0 < ARP_TABLE_SIZE" by (simp add: ARP_TABLE_SIZE_def)
  have "queues (pb s') (arp_table s') (qs[0 := qs ! 0])"
  proof (rule queues_update [OF okD(3) \<open>0 < ARP_TABLE_SIZE\<close>])
    have f0: "\<And>x. x \<in> set (qs ! 0) \<Longrightarrow> pbufs (pb s') x = pbufs (pb s) x" using fr \<open>0 < ARP_TABLE_SIZE\<close> by blast
    show "chain (pb s') (arp_q (arp_table s' ! 0)) (qs ! 0)"
      unfolding s'(1) using okD(7) \<open>0 < ARP_TABLE_SIZE\<close> chain_frame(2) [of "qs ! 0" "pb s'" "pb s", OF f0] by blast
    show "chain_len (pb s') (qs ! 0) < 2 ^ 16"
      using okD(8) \<open>0 < ARP_TABLE_SIZE\<close> chain_frame(1) [of "qs ! 0" "pb s'" "pb s", OF f0] by simp
    show "\<forall>x\<in>set (qs ! 0). 0 < ref_of (pb s') x" using okD(9) \<open>0 < ARP_TABLE_SIZE\<close> f0 by (simp add: ref_of_def)
    show "set (qs ! 0) \<inter> set (qs ! j) = {}" if "j < ARP_TABLE_SIZE" "j \<noteq> 0" for j
      using queues_apart [OF okD(3) \<open>0 < ARP_TABLE_SIZE\<close> that] .
  qed (use fr s'(1) in auto)
  then show ?thesis using ok s' by (simp add: arp_ok_def ether_netif_def)
qed

lemma sent_ok:
  assumes "arp_ok s qs" "ready s qs q xs" "sent q s s'"
  shows "arp_ok s' qs"
proof (rule arp_ok_pb [OF assms(1) sentD(1,3) [OF assms(3)]])
  have "q \<in> set xs" using assms(2) by (cases xs) (auto simp: ready_def packet_def)
  then show "pbufs (pb s') x = pbufs (pb s) x" if "i < ARP_TABLE_SIZE" "x \<in> set (qs ! i)" for i x
    using sentD(7) [OF assms(3)] assms(2) that by (fastforce simp: ready_def)
qed (use assms(1) sentD(2,4) [OF assms(3)] in \<open>simp_all add: arp_ok_def\<close>)

lemma copy_needed_chain:
  assumes "chain s p xs" "full s xs"
  shows "\<exists>c. copy_needed_loop s p = ret c"
  using assms
proof (induction xs arbitrary: p)
  case Nil
  then have "copy_needed_loop s p = ret False" by (simp add: copy_needed_loop.simps)
  then show ?case by blast
next
  case (Cons x xs)
  from Cons.prems(1) obtain b where b: "p = x" "x \<noteq> 0" "pget x s = ret b" "pbufs s x = Some b" "chain s (pb_next b) xs" by (rule chain_Cons_cases)
  have "pb_len b \<noteq> pb_tot_len b \<or> pb_next b = 0" using full_last [OF Cons.prems] b by simp
  then show ?case using b Cons.IH [OF b(5)] Cons.prems(2) by (subst copy_needed_loop.simps) auto
qed

text \<open>The packet \<open>p\<close> takes the place of what was queued at the entry.\<close>

lemma enqueue_ok:
  assumes ok: "arp_ok s qs" and i: "i < ARP_TABLE_SIZE" "arp_state (arp_table s ! i) = ETHARP_STATE_PENDING"
    and p: "packet (pb s) p c" "\<forall>x\<in>set c. 0 < ref_of (pb s) x" "\<forall>j<ARP_TABLE_SIZE. set c \<inter> set (qs ! j) = {}"
  shows "\<exists>s1 s'. (if arp_q (arp_table s ! i) \<noteq> 0 then
              bind_run (on_pb (pbuf_free (arp_q (arp_table s ! i))) s) (\<lambda>(_, s). ret s) else ret s) = ret s1
      \<and> s' = arp_update i (\<lambda>e. e\<lparr>arp_q := p\<rparr>) s1 \<and> arp_ok s' (qs[i := c]) \<and> links s' = links s
      \<and> etharp_cached_entry s' = etharp_cached_entry s \<and> arp_table s' = (arp_table s)[i := (arp_table s ! i)\<lparr>arp_q := p\<rparr>]
      \<and> (\<forall>x. x \<notin> set (qs ! i) \<longrightarrow> pbufs (pb s') x = pbufs (pb s) x)"
proof -
  let ?t = "arp_table s" and ?q = "arp_q (arp_table s ! i)"
  note okD = arp_okD [OF ok]
  have "\<exists>b. (if ?q \<noteq> 0 then bind_run (on_pb (pbuf_free ?q) s) (\<lambda>(_, s). ret s) else ret s) = ret (s\<lparr>pb := b\<rparr>)
    \<and> pbuf_inv b \<and> (\<forall>x. x \<notin> set (qs ! i) \<longrightarrow> pbufs b x = pbufs (pb s) x)"
  proof (cases "?q = 0")
    case True
    then show ?thesis using okD(2) by (intro exI [of _ "pb s"]) simp
  next
    case False
    then show ?thesis using free_queue_ok [OF okD(2) okD(7) [OF i(1)] False okD(9) [OF i(1)]] by (auto simp: on_pb_def)
  qed
  then obtain b where b: "(if ?q \<noteq> 0 then bind_run (on_pb (pbuf_free ?q) s) (\<lambda>(_, s). ret s) else ret s) = ret (s\<lparr>pb := b\<rparr>)"
    "pbuf_inv b" "\<forall>x. x \<notin> set (qs ! i) \<longrightarrow> pbufs b x = pbufs (pb s) x" by blast
  let ?s = "arp_update i (\<lambda>e. e\<lparr>arp_q := p\<rparr>) (s\<lparr>pb := b\<rparr>)"
  have "entry_ok ((?t ! i)\<lparr>arp_q := p\<rparr>)" using table_ok_nth [OF okD(1) i(1)] i(2) by (simp add: entry_ok_def)
  moreover have "\<not> same_key ((?t ! i)\<lparr>arp_q := p\<rparr>) (?t ! j)" if "j < ARP_TABLE_SIZE" "j \<noteq> i" for j
    using table_ok_unique [OF okD(1) i(1) that(1)] that(2) by (auto simp: same_key_def)
  ultimately have "table_ok (?t[i := (?t ! i)\<lparr>arp_q := p\<rparr>])" by (rule table_ok_update [OF okD(1) i(1)])
  moreover have "queues b (?t[i := (?t ! i)\<lparr>arp_q := p\<rparr>]) (qs[i := c])"
  proof (rule queues_update [OF okD(3) i(1)])
    have fr: "\<And>x. x \<in> set c \<Longrightarrow> pbufs b x = pbufs (pb s) x" using b(3) p(3) i(1) by blast
    have pc: "chain (pb s) p c" "chain_len (pb s) c < 2 ^ 16" using p(1) by (simp_all add: packet_def)
    show "chain b (arp_q (?t[i := (?t ! i)\<lparr>arp_q := p\<rparr>] ! i)) c" using chain_frame(2) [of c b "pb s", OF fr] pc(1) okD(5) i(1) by simp
    show "chain_len b c < 2 ^ 16" using chain_frame(1) [of c b "pb s", OF fr] pc(2) by simp
    show "\<forall>x\<in>set c. 0 < ref_of b x" using p(2) fr by (simp add: ref_of_def)
    show "pbufs b x = pbufs (pb s) x" if "j < ARP_TABLE_SIZE" "j \<noteq> i" "x \<in> set (qs ! j)" for j x
      using queues_apart [OF okD(3) i(1) that(1,2)] that(3) b(3) by blast
  qed (use p(3) in auto)
  moreover have "\<exists>ni. ether_netif ?s (arp_netif (arp_table ?s ! j)) ni" if "j < ARP_TABLE_SIZE" "nonempty (arp_table ?s ! j)" for j
    using okD(6) [of j] that okD(5) i(1) by (auto simp: ether_netif_def nth_list_update split: if_splits)
  ultimately have "arp_ok ?s (qs[i := c])" using ok b(2) by (simp add: arp_ok_def)
  then show ?thesis using b by (intro exI [of _ "s\<lparr>pb := b\<rparr>"] exI [of _ ?s]) simp
qed

lemma readyD:
  assumes "ready s qs q xs"
  shows "packet (pb s) q xs" "full (pb s) xs" "\<forall>x\<in>set xs. 0 < ref_of (pb s) x" "ref_of (pb s) q < 255" "q \<noteq> 0" "q \<in> set xs"
    "i < ARP_TABLE_SIZE \<Longrightarrow> set xs \<inter> set (qs ! i) = {}"
  using assms by (cases xs; auto simp: ready_def packet_def)+

lemma ready_frame:
  assumes rd: "ready s qs q xs" and fr: "\<And>x. x \<in> set xs \<Longrightarrow> pbufs (pb s') x = pbufs (pb s) x"
    and sub: "\<And>i. i < ARP_TABLE_SIZE \<Longrightarrow> set (qs' ! i) \<subseteq> set (qs ! i)"
  shows "ready s' qs' q xs"
proof -
  note rdD = readyD [OF rd]
  have "packet (pb s') q xs"
    using rdD(1) chain_frame(1,2) [of xs "pb s'" "pb s", OF fr] by (simp add: packet_def)
  moreover have "full (pb s') xs" using rdD(2) full_frame [of xs "pb s'" "pb s", OF fr] by blast
  moreover have "ref_of (pb s') x = ref_of (pb s) x" if "x \<in> set xs" for x using fr [OF that] by (simp add: ref_of_def)
  ultimately show ?thesis using rdD(3,4,6,7) sub unfolding ready_def by (metis Int_absorb1 Int_assoc inf_bot_left inf_commute)
qed

lemma ref_packet:
  assumes "packet s q xs" "pbufs s q = Some b"
  shows "packet (pset q (b\<lparr>pb_ref := r\<rparr>) s) q xs"
proof -
  let ?s = "pset q (b\<lparr>pb_ref := r\<rparr>) s"
  have l: "part_len ?s = part_len s" using assms(2) by (auto simp: part_len_def)
  then have cl: "chain_len ?s = chain_len s" by (intro ext) (simp add: chain_len_def)
  have "chain ?s p ys = chain s p ys" for p ys
    using assms(2) by (induction ys arbitrary: p) (auto simp: cl split: option.splits)
  then show ?thesis using assms(1) by (simp add: packet_def cl)
qed

lemma query_queue_ok:
  assumes ok: "arp_ok s qs" and i: "i < ARP_TABLE_SIZE" "arp_state (arp_table s ! i) = ETHARP_STATE_PENDING" and rd: "ready s qs q xs"
  shows "\<exists>r s' qs' p. query_queue i q s = ret (r, s') \<and> arp_ok s' qs' \<and> links s' = links s
    \<and> (r = ERR_MEM \<and> arp_table s' = arp_table s
       \<or> r = ERR_OK \<and> p \<noteq> 0 \<and> arp_table s' = (arp_table s)[i := (arp_table s ! i)\<lparr>arp_q := p\<rparr>])"
proof -
  note okD = arp_okD [OF ok] and rdD = readyD [OF rd]
  obtain c where c: "copy_needed_loop (pb s) q = ret c" using copy_needed_chain [of "pb s" q xs] rdD(1,2) by (auto simp: packet_def)
  have enq: ?thesis if s1: "(if c then on_pb (pbuf_clone PBUF_LINK PBUF_RAM q) s else on_pb (\<lambda>b. bind_run (pbuf_ref q b) (\<lambda>b. ret (q, b))) s) = ret (p, s1)"
    "p \<noteq> 0" "arp_ok s1 qs" "arp_table s1 = arp_table s" "links s1 = links s" "packet (pb s1) p ys" "\<forall>x\<in>set ys. 0 < ref_of (pb s1) x"
    "\<forall>j<ARP_TABLE_SIZE. set ys \<inter> set (qs ! j) = {}" for p s1 ys
  proof -
    have i1: "arp_state (arp_table s1 ! i) = ETHARP_STATE_PENDING" using i(2) s1(4) by simp
    obtain s2 s' where "(if arp_q (arp_table s1 ! i) \<noteq> 0 then
          bind_run (on_pb (pbuf_free (arp_q (arp_table s1 ! i))) s1) (\<lambda>(_, s). ret s) else ret s1) = ret s2"
      "s' = arp_update i (\<lambda>e. e\<lparr>arp_q := p\<rparr>) s2" "arp_ok s' (qs[i := ys])" "links s' = links s1"
      "arp_table s' = (arp_table s1)[i := (arp_table s1 ! i)\<lparr>arp_q := p\<rparr>]"
      using enqueue_ok [OF s1(3) i(1) i1 s1(6-8)] by blast
    then show ?thesis using c s1(1,2,4,5) unfolding query_queue_def by (intro exI [of _ ERR_OK] exI [of _ s']) auto
  qed
  show ?thesis
  proof (cases c)
    case True
    obtain p b where p: "pbuf_clone PBUF_LINK PBUF_RAM q (pb s) = ret (p, b)" "pbuf_inv b"
      "if p = 0 then pbufs b = pbufs (pb s) else \<exists>a. pbufs (pb s) p = None \<and>
         pbufs b = (pbufs (pb s))(p \<mapsto> new_pbuf a (chain_len (pb s) xs) (chain_len (pb s) xs) PBUF_RAM)
         \<and> (\<forall>x. x < a \<or> a + chain_len (pb s) xs \<le> x \<longrightarrow> bytes b x = bytes (pb s) x)
         \<and> (clear_of (pb s) xs a (chain_len (pb s) xs) \<longrightarrow> chain_data b [p] = chain_data (pb s) xs)"
      using clone_ok [OF okD(2) rdD(1,2), of PBUF_LINK] by blast
    have run: "(if c then on_pb (pbuf_clone PBUF_LINK PBUF_RAM q) s else on_pb (\<lambda>b. bind_run (pbuf_ref q b) (\<lambda>b. ret (q, b))) s)
        = ret (p, s\<lparr>pb := b\<rparr>)" using True p(1) by (simp add: on_pb_def)
    show ?thesis
    proof (cases "p = 0")
      case True
      have "arp_ok (s\<lparr>pb := b\<rparr>) qs" by (rule arp_ok_pb [OF ok]) (use ok p True in \<open>simp_all add: arp_ok_def\<close>)
      then show ?thesis using c run True unfolding query_queue_def by (intro exI [of _ ERR_MEM] exI [of _ "s\<lparr>pb := b\<rparr>"]) auto
    next
      case False
      then obtain a where a: "pbufs (pb s) p = None" "pbufs b = (pbufs (pb s))(p \<mapsto> new_pbuf a (chain_len (pb s) xs) (chain_len (pb s) xs) PBUF_RAM)"
        using p(3) by auto
      have apart: "p \<notin> set (qs ! j)" if "j < ARP_TABLE_SIZE" for j using okD(7) [OF that] a(1) by (auto elim: chain_member)
      have "arp_ok (s\<lparr>pb := b\<rparr>) qs"
        by (rule arp_ok_pb [OF ok]) (use ok p(2) apart a in \<open>auto simp: arp_ok_def\<close>)
      moreover have "pbufs b p = Some (new_pbuf a (chain_len (pb s) xs) (chain_len (pb s) xs) PBUF_RAM)" using a(2) by simp
      from single_packet(1) [OF this False] rdD(1) have "packet (pb (s\<lparr>pb := b\<rparr>)) p [p]" by (simp add: new_pbuf_def packet_def)
      moreover have "ref_of (pb (s\<lparr>pb := b\<rparr>)) p = 1" using a(2) by (simp add: ref_of_def new_pbuf_def)
      ultimately show ?thesis using enq [OF run False, of "[p]"] apart by auto
    qed
  next
    case False
    obtain b where b: "pbufs (pb s) q = Some b" using rdD(1,5) by (cases xs) (auto simp: packet_def split: option.splits)
    let ?b = "pset q (b\<lparr>pb_ref := pb_ref b + 1\<rparr>) (pb s)"
    have r: "pbuf_ref q (pb s) = ret ?b" "pbuf_inv ?b" using ref_ok [OF okD(2) b] rdD(4) b by (auto simp: ref_of_def)
    then have run: "(if c then on_pb (pbuf_clone PBUF_LINK PBUF_RAM q) s else on_pb (\<lambda>b. bind_run (pbuf_ref q b) (\<lambda>b. ret (q, b))) s)
        = ret (q, s\<lparr>pb := ?b\<rparr>)" using False by (simp add: on_pb_def)
    have "arp_ok (s\<lparr>pb := ?b\<rparr>) qs"
    proof (rule arp_ok_pb [OF ok])
      show "pbufs (pb (s\<lparr>pb := ?b\<rparr>)) x = pbufs (pb s) x" if "j < ARP_TABLE_SIZE" "x \<in> set (qs ! j)" for j x
        using rdD(6) rdD(7) [OF that(1)] that(2) by auto
    qed (use ok r(2) in \<open>simp_all add: arp_ok_def\<close>)
    moreover have "packet (pb (s\<lparr>pb := ?b\<rparr>)) q xs" using ref_packet [OF rdD(1) b] by simp
    moreover have "\<forall>x\<in>set xs. 0 < ref_of (pb (s\<lparr>pb := ?b\<rparr>)) x" using rdD(3) by (auto simp: ref_of_def)
    ultimately show ?thesis using enq [OF run rdD(5), of xs] rdD(7) by auto
  qed
qed

text \<open>The end of \<open>etharp_query\<close>, once the entry \<open>i\<close> is pending or stable.\<close>

definition query_rest :: "'w net_calls \<Rightarrow> nat \<Rightarrow> u32 \<Rightarrow> nat \<Rightarrow> bool \<Rightarrow> nat \<Rightarrow> 'w net \<Rightarrow> (err_t \<times> 'w net) run" where
  "query_rest nc netif ipaddr q is_new i s =
     bind_run (if is_new \<or> q = 0 then etharp_request nc netif ipaddr s else ret (ERR_MEM, s)) (\<lambda>(result, s).
        if q = 0 then ret (result, s)
        else if arp_state (arp_table s ! i) \<ge> ETHARP_STATE_STABLE then
          let s = s\<lparr>etharp_cached_entry := i\<rparr>
          in bind_run (nget netif s) (\<lambda>ni.
               ethernet_output nc netif q (hwaddr ni) (arp_ethaddr (arp_table s ! i)) ETHTYPE_IP s)
        else if arp_state (arp_table s ! i) = ETHARP_STATE_PENDING then query_queue i q s
        else ret (result, s))"

lemma query_eq:
  assumes "ether_netif s n ni" "unicast a ni"
  shows "etharp_query nc n a q s =
    bind_run (etharp_find_entry (Some a) ETHARP_FLAG_TRY_HARD n s) (\<lambda>(r, s).
      case r of Inl err \<Rightarrow> ret (err, s)
      | Inr i \<Rightarrow>
          let is_new = (arp_state (arp_table s ! i) = ETHARP_STATE_EMPTY);
              s = (if is_new then arp_update i (\<lambda>e. e\<lparr>arp_state := ETHARP_STATE_PENDING, arp_netif := n\<rparr>) s else s)
          in lwip_assert ''arp_table[i].state == PENDING or STABLE''
               (arp_state (arp_table s ! i) = ETHARP_STATE_PENDING \<or> arp_state (arp_table s ! i) \<ge> ETHARP_STATE_STABLE)
               (query_rest nc n a q is_new i s))"
  using assms unfolding etharp_query_def query_rest_def
  by (simp add: nget_def ether_netif_def unicast_def)

lemma entry_mac: "arp_ok s qs \<Longrightarrow> i < ARP_TABLE_SIZE \<Longrightarrow> stable (arp_table s ! i) \<Longrightarrow> length (arp_ethaddr (arp_table s ! i)) = 6"
  using table_ok_nth [OF arp_okD(1), of s qs i] by (simp add: entry_ok_def ETH_HWADDR_LEN_def)

lemma ether_netifD:
  "ether_netif s n ni \<Longrightarrow> n \<noteq> 0" "ether_netif s n ni \<Longrightarrow> nget n s = ret ni" "ether_netif s n ni \<Longrightarrow> length (hwaddr ni) = 6"
  "ether_netif s n ni \<Longrightarrow> links s' = links s \<Longrightarrow> ether_netif s' n ni"
  by (simp_all add: ether_netif_def nget_def ETH_HWADDR_LEN_def)

lemma query_rest_ok:
  assumes drv: "driver nc transmit" and ok: "arp_ok s qs" and ni: "ether_netif s n ni" and q: "q = 0 \<or> ready s qs q xs"
    and i: "i < ARP_TABLE_SIZE" "nonempty (arp_table s ! i)"
  shows "\<exists>r s' qs' p. query_rest nc n a q is_new i s = ret (r, s') \<and> arp_ok s' qs' \<and> links s' = links s
    \<and> arp_table s' = (arp_table s)[i := (arp_table s ! i)\<lparr>arp_q := p\<rparr>]"
proof -
  let ?t = "arp_table s"
  have id: "?t = ?t[i := (?t ! i)\<lparr>arp_q := arp_q (?t ! i)\<rparr>]" by simp
  obtain r1 s1 where s1: "(if is_new \<or> q = 0 then etharp_request nc n a s else ret (ERR_MEM, s)) = ret (r1, s1)" "restored s s1"
    using etharp_request_ok [OF drv arp_okD(2) [OF ok] ni, of ethbroadcast a] arp_okD(2) [OF ok]
    by (cases "is_new \<or> q = 0") (auto simp: etharp_request_def ethbroadcast_def restored_def)
  have ok1: "arp_ok s1 qs" by (rule restored_ok [OF ok s1(2)])
  have f1: "arp_table s1 = ?t" "links s1 = links s" "pbufs (pb s1) = pbufs (pb s)" using s1(2) by (simp_all add: restored_def)
  show ?thesis
  proof (cases "q = 0")
    case True
    then have "query_rest nc n a q is_new i s = ret (r1, s1)" using s1(1) by (simp add: query_rest_def)
    then show ?thesis using ok1 f1 id by metis
  next
    case False
    then have rd: "ready s qs q xs" using q by simp
    have rd1: "ready s1 qs q xs" by (rule ready_frame [OF rd]) (use f1(3) in auto)
    show ?thesis
    proof (cases "stable (?t ! i)")
      case True
      let ?s2 = "s1\<lparr>etharp_cached_entry := i\<rparr>"
      have ok2: "arp_ok ?s2 qs" by (rule arp_ok_pb [OF ok1]) (use i(1) arp_okD(2) [OF ok1] in auto)
      have rd2: "ready ?s2 qs q xs" by (rule ready_frame [OF rd1]) auto
      have ni2: "ether_netif ?s2 n ni" by (rule ether_netifD(4) [OF ni]) (use f1(2) in simp)
      have m: "length (arp_ethaddr (arp_table ?s2 ! i)) = 6" by (rule entry_mac [OF ok2 i(1)]) (use True f1 in simp)
      obtain e s' where s': "ethernet_output nc n q (hwaddr ni) (arp_ethaddr (arp_table ?s2 ! i)) ETHTYPE_IP ?s2 = ret (e, s')" "sent q ?s2 s'"
        using ethernet_output_sent [OF drv readyD(1) [OF rd2] ni2 m ether_netifD(3) [OF ni]] by blast
      have "query_rest nc n a q is_new i s = ret (e, s')"
        using s1(1) False True f1(1) s'(1) ether_netifD(2) [OF ni2] by (simp add: query_rest_def)
      moreover have "arp_ok s' qs" by (rule sent_ok [OF ok2 rd2 s'(2)])
      moreover have "arp_table s' = ?t" "links s' = links s" using sentD(1,3) [OF s'(2)] f1 by simp_all
      ultimately show ?thesis using id by metis
    next
      case ns: False
      then have p: "arp_state (?t ! i) = ETHARP_STATE_PENDING" using i(2) by (simp add: stable_iff)
      obtain r s' qs' p where s': "query_queue i q s1 = ret (r, s')" "arp_ok s' qs'" "links s' = links s1"
        "r = ERR_MEM \<and> arp_table s' = arp_table s1 \<or> r = ERR_OK \<and> p \<noteq> 0 \<and> arp_table s' = (arp_table s1)[i := (arp_table s1 ! i)\<lparr>arp_q := p\<rparr>]"
        using query_queue_ok [OF ok1 i(1) _ rd1] p f1(1) by auto
      have "query_rest nc n a q is_new i s = ret (r, s')" using s1(1) False p ns f1(1) s'(1) by (simp add: query_rest_def)
      then show ?thesis using s'(2-4) f1 id by metis
    qed
  qed
qed

lemma lookup_update:
  assumes t: "length t = ARP_TABLE_SIZE" and i: "i < ARP_TABLE_SIZE" "nonempty e" "arp_ipaddr e = a" "arp_netif e = n"
    and none: "\<And>j. j < i \<Longrightarrow> \<not> (nonempty (t ! j) \<and> entry_matches (Some a) n (t ! j))"
  shows "lookup (t[i := e]) a n = Some i"
  unfolding lookup_iff using assms by (auto simp: entry_matches_def)

lemma query_ok:
  assumes drv: "driver nc transmit" and ok: "arp_ok s qs" and ni: "ether_netif s n ni" and q: "q = 0 \<or> ready s qs q xs"
  shows "\<exists>r s' qs'. etharp_query nc n a q s = ret (r, s') \<and> arp_ok s' qs' \<and> links s' = links s
    \<and> (if unicast a ni then lookup (arp_table s') a n \<noteq> None else r = ERR_ARG \<and> s' = s)"
proof (cases "unicast a ni")
  case False
  then have "etharp_query nc n a q s = ret (ERR_ARG, s)"
    using ether_netifD(2) [OF ni] by (auto simp: etharp_query_def unicast_def)
  then show ?thesis using False ok by auto
next
  case uni: True
  let ?t = "arp_table s"
  note okD = arp_okD [OF ok] and n = ether_netifD(1) [OF ni] and eq = query_eq [OF ni uni, of nc q]
  have hard: "ETHARP_FLAG_TRY_HARD AND ETHARP_FLAG_FIND_ONLY = 0" "ETHARP_FLAG_TRY_HARD AND ETHARP_FLAG_TRY_HARD \<noteq> 0"
    by (simp_all add: ETHARP_FLAG_TRY_HARD_def ETHARP_FLAG_FIND_ONLY_def)
  have "\<exists>s1 qs1 i new. etharp_query nc n a q s = query_rest nc n a q new i s1 \<and> arp_ok s1 qs1 \<and> ether_netif s1 n ni \<and> links s1 = links s
    \<and> (q = 0 \<or> ready s1 qs1 q xs) \<and> i < ARP_TABLE_SIZE \<and> nonempty (arp_table s1 ! i) \<and> lookup (arp_table s1) a n = Some i"
    using find_entry_ok [OF ok, of a n ETHARP_FLAG_TRY_HARD]
  proof cases
    case (1 i)
    then have i: "i < ARP_TABLE_SIZE" "nonempty (?t ! i)" by (simp_all add: lookup_iff)
    then have "etharp_query nc n a q s = query_rest nc n a q False i s" using eq 1(2) by (simp add: stable_iff)
    then show ?thesis using ok ni q i 1(1) by blast
  next
    case 2
    then show ?thesis using hard by auto
  next
    case (3 i s1)
    have i: "i < ARP_TABLE_SIZE" using 3(3) by (simp add: recycle_choice_def)
    let ?e = "fresh_entry a n (?t ! i)" and ?f = "\<lambda>e. e\<lparr>arp_state := ETHARP_STATE_PENDING, arp_netif := n\<rparr>"
    have s1: "arp_ok s1 (qs[i := []])" "s1 = s\<lparr>arp_table := ?t[i := ?e], pb := pb s1\<rparr>" "\<forall>x. x \<notin> set (qs ! i) \<longrightarrow> pbufs (pb s1) x = pbufs (pb s) x"
      using 3(5) by (simp_all add: entry_freed_def)
    have f1: "arp_table s1 = ?t[i := ?e]" "links s1 = links s" by (subst s1(2), simp)+
    have e1: "arp_table s1 ! i = ?e" using i okD(5) by (simp add: f1)
    let ?s2 = "arp_update i ?f s1"
    have t2: "arp_table ?s2 = ?t[i := ?f ?e]" "arp_table ?s2 ! i = ?f ?e" using e1 f1(1) i okD(5) by simp_all
    have ni1: "ether_netif s1 n ni" by (rule ether_netifD(4) [OF ni f1(2)])
    have none: "\<not> (nonempty (?t ! j) \<and> arp_ipaddr (?t ! j) = a \<and> arp_netif (?t ! j) = n)" if "j < ARP_TABLE_SIZE" for j
      using 3(1) n that by (auto simp: lookup_iff entry_matches_iff)
    have ok2: "arp_ok ?s2 (qs[i := []])"
    proof (rule arp_ok_update [OF s1(1) i])
      show "entry_ok (?f (arp_table s1 ! i))" by (simp add: e1 entry_ok_def stable_iff ARP_MAXPENDING_def)
      show "\<not> same_key (?f (arp_table s1 ! i)) (arp_table s1 ! j)" if "j < ARP_TABLE_SIZE" "j \<noteq> i" for j
        using none [OF that(1)] that e1 f1(1) by (auto simp: same_key_def)
      show "\<exists>ni. ether_netif s1 (arp_netif (?f (arp_table s1 ! i))) ni" using ni1 by auto
    qed (simp add: e1)
    have "ready ?s2 (qs[i := []]) q xs" if rd: "ready s qs q xs"
    proof (rule ready_frame [OF rd])
      show "pbufs (pb ?s2) x = pbufs (pb s) x" if "x \<in> set xs" for x using s1(3) readyD(7) [OF rd i] that by auto
      show "set (qs[i := []] ! j) \<subseteq> set (qs ! j)" if "j < ARP_TABLE_SIZE" for j using okD(4) i that by (cases "j = i") simp_all
    qed
    moreover have "etharp_query nc n a q s = query_rest nc n a q True i ?s2" using eq 3(4) e1 t2 by simp
    moreover have "lookup (arp_table ?s2) a n = Some i"
      unfolding t2(1) by (rule lookup_update [OF okD(5) i]) (use none i n in \<open>auto simp: entry_matches_iff\<close>)
    moreover have "nonempty (arp_table ?s2 ! i)" using t2(2) by simp
    moreover have l2: "links ?s2 = links s" using f1(2) by simp
    moreover have "ether_netif ?s2 n ni" by (rule ether_netifD(4) [OF ni l2])
    ultimately show ?thesis using ok2 q i by blast
  qed
  then obtain s1 qs1 i new where s1: "etharp_query nc n a q s = query_rest nc n a q new i s1" "arp_ok s1 qs1" "ether_netif s1 n ni"
    "links s1 = links s" "q = 0 \<or> ready s1 qs1 q xs" "i < ARP_TABLE_SIZE" "nonempty (arp_table s1 ! i)" "lookup (arp_table s1) a n = Some i"
    by blast
  obtain r s' qs' p where s': "query_rest nc n a q new i s1 = ret (r, s')" "arp_ok s' qs'" "links s' = links s1"
    "arp_table s' = (arp_table s1)[i := (arp_table s1 ! i)\<lparr>arp_q := p\<rparr>]"
    using query_rest_ok [OF drv s1(2,3,5-7), of a new] by blast
  have "lookup (arp_table s') a n = Some i"
    unfolding s'(4) by (rule lookup_update [OF arp_okD(5) [OF s1(2)] s1(6)]) (use s1(6,8) n in \<open>auto simp: lookup_iff entry_matches_iff\<close>)
  then show ?thesis using uni s1(1,4) s' by auto
qed

text \<open>Sending through a stable entry, with a new request when the entry grows old.\<close>

lemma rerequest_ok:
  assumes ok: "arp_ok s qs" and i: "i < ARP_TABLE_SIZE" "stable (arp_table s ! i)" and st: "ETHARP_STATE_STABLE \<le> st"
  shows "arp_ok (arp_update i (\<lambda>e. e\<lparr>arp_state := st\<rparr>) s) qs"
proof (rule arp_ok_update [OF ok i(1)])
  note okD = arp_okD [OF ok]
  have st': "st \<noteq> ETHARP_STATE_EMPTY" "st \<noteq> ETHARP_STATE_PENDING" using st by (simp_all add: stable_iff)
  show "entry_ok ((arp_table s ! i)\<lparr>arp_state := st\<rparr>)"
    using table_ok_nth [OF okD(1) i(1)] i(2) st' by (simp add: entry_ok_def stable_iff)
  show "\<not> same_key ((arp_table s ! i)\<lparr>arp_state := st\<rparr>) (arp_table s ! j)" if "j < ARP_TABLE_SIZE" "j \<noteq> i" for j
    using table_ok_unique [OF okD(1) i(1) that(1)] that(2) i(2) by (auto simp: same_key_def stable_iff)
  show "\<exists>ni. ether_netif s (arp_netif ((arp_table s ! i)\<lparr>arp_state := st\<rparr>)) ni" using okD(6) [OF i(1)] i(2) by (simp add: stable_iff)
qed simp

lemma output_to_index_ok:
  assumes drv: "driver nc transmit" and ok: "arp_ok s qs" and ni: "ether_netif s n ni" and rd: "ready s qs q xs"
    and i: "i < ARP_TABLE_SIZE" "stable (arp_table s ! i)"
  shows "\<exists>e s'. etharp_output_to_arp_index nc n q i s = ret (e, s') \<and> arp_ok s' qs \<and> links s' = links s"
proof -
  let ?t = "arp_table s" and ?e = "arp_table s ! i"
  let ?pre = "if arp_state ?e = ETHARP_STATE_STABLE then
       if arp_ctime ?e \<ge> ARP_AGE_REREQUEST_USED_BROADCAST then
         bind_run (etharp_request nc n (arp_ipaddr ?e) s) (\<lambda>(err, s).
           ret (if err = ERR_OK then arp_update i (\<lambda>e. e\<lparr>arp_state := ETHARP_STATE_STABLE_REREQUESTING_1\<rparr>) s else s))
       else if arp_ctime ?e \<ge> ARP_AGE_REREQUEST_USED_UNICAST then
         bind_run (etharp_request_dst nc n (arp_ipaddr ?e) (arp_ethaddr ?e) s) (\<lambda>(err, s).
           ret (if err = ERR_OK then arp_update i (\<lambda>e. e\<lparr>arp_state := ETHARP_STATE_STABLE_REREQUESTING_1\<rparr>) s else s))
       else ret s
     else ret s"
  note okD = arp_okD [OF ok]
  have req: "\<exists>s1. bind_run (etharp_request_dst nc n (arp_ipaddr ?e) dst s) (\<lambda>(err, s).
        ret (if err = ERR_OK then arp_update i (\<lambda>e. e\<lparr>arp_state := ETHARP_STATE_STABLE_REREQUESTING_1\<rparr>) s else s)) = ret s1
      \<and> arp_ok s1 qs \<and> links s1 = links s \<and> pbufs (pb s1) = pbufs (pb s) \<and> stable (arp_table s1 ! i)" if dst: "length dst = 6" for dst
  proof -
    obtain r s1 where s1: "etharp_request_dst nc n (arp_ipaddr ?e) dst s = ret (r, s1)" "restored s s1"
      using etharp_request_ok [OF drv okD(2) ni dst] by blast
    have ok1: "arp_ok s1 qs" by (rule restored_ok [OF ok s1(2)])
    have f1: "arp_table s1 = ?t" "links s1 = links s" "pbufs (pb s1) = pbufs (pb s)" using s1(2) by (simp_all add: restored_def)
    have "arp_ok (arp_update i (\<lambda>e. e\<lparr>arp_state := ETHARP_STATE_STABLE_REREQUESTING_1\<rparr>) s1) qs"
      by (rule rerequest_ok [OF ok1 i(1)]) (use i(2) f1(1) in \<open>simp_all add: stable_iff\<close>)
    then show ?thesis using s1(1) ok1 f1 i okD(5) by (auto simp: stable_iff)
  qed
  have "\<exists>s1. ?pre = ret s1 \<and> arp_ok s1 qs \<and> links s1 = links s \<and> pbufs (pb s1) = pbufs (pb s) \<and> stable (arp_table s1 ! i)"
    using req [of ethbroadcast] req [OF entry_mac [OF ok i]] ok i by (simp add: etharp_request_def ethbroadcast_def)
  then obtain s1 where s1: "?pre = ret s1" "arp_ok s1 qs" "links s1 = links s" "pbufs (pb s1) = pbufs (pb s)" "stable (arp_table s1 ! i)" by blast
  have rd1: "ready s1 qs q xs" by (rule ready_frame [OF rd]) (use s1(4) in auto)
  have ni1: "ether_netif s1 n ni" by (rule ether_netifD(4) [OF ni s1(3)])
  obtain e s' where s': "ethernet_output nc n q (hwaddr ni) (arp_ethaddr (arp_table s1 ! i)) ETHTYPE_IP s1 = ret (e, s')" "sent q s1 s'"
    using ethernet_output_sent [OF drv readyD(1) [OF rd1] ni1 entry_mac [OF s1(2) i(1) s1(5)] ether_netifD(3) [OF ni]] by blast
  have "etharp_output_to_arp_index nc n q i s = ret (e, s')"
    unfolding etharp_output_to_arp_index_def Let_def s1(1) using i(2) s'(1) ether_netifD(2) [OF ni1] by simp
  then show ?thesis using sent_ok [OF s1(2) rd1 s'(2)] sentD(3) [OF s'(2)] s1(3) by auto
qed

lemma output_unicast_ok:
  assumes drv: "driver nc transmit" and ok: "arp_ok s qs" and ni: "ether_netif s n ni" and rd: "ready s qs q xs"
  shows "\<exists>e s' qs'. output_unicast nc n q a s = ret (e, s') \<and> arp_ok s' qs' \<and> links s' = links s"
proof -
  let ?t = "arp_table s"
  have c: "etharp_cached_entry s < ARP_TABLE_SIZE" using ok by (simp add: arp_ok_def)
  have idx: "\<exists>e s' qs'. etharp_output_to_arp_index nc n q i (s\<lparr>etharp_cached_entry := i\<rparr>) = ret (e, s') \<and> arp_ok s' qs' \<and> links s' = links s"
    if i: "i < ARP_TABLE_SIZE" "stable_match n a (?t ! i)" for i
  proof -
    let ?s = "s\<lparr>etharp_cached_entry := i\<rparr>"
    have "arp_ok ?s qs" by (rule arp_ok_pb [OF ok]) (use i arp_okD(2) [OF ok] in auto)
    moreover have "ready ?s qs q xs" by (rule ready_frame [OF rd]) auto
    moreover have "stable (arp_table ?s ! i)" using i(2) by (simp add: stable_match_def)
    ultimately show ?thesis using output_to_index_ok [OF drv _ ether_netifD(4) [OF ni] _ i(1), of ?s qs q xs] by fastforce
  qed
  show ?thesis
  proof (cases "stable_match n a (?t ! etharp_cached_entry s)")
    case True
    then show ?thesis using idx [OF c] by (simp add: output_unicast_def)
  next
    case False
    show ?thesis
    proof (cases "find (\<lambda>i. stable_match n a (?t ! i)) [0..<ARP_TABLE_SIZE]")
      case None
      then show ?thesis using False query_ok [OF drv ok ni, of q xs a] rd by (auto simp: output_unicast_def split: if_splits)
    next
      case (Some i)
      then have "i < ARP_TABLE_SIZE" "stable_match n a (?t ! i)" by (simp_all add: find_upt_Some)
      then show ?thesis using False Some idx by (simp add: output_unicast_def)
    qed
  qed
qed

lemma output_ok:
  assumes drv: "driver nc transmit" and ok: "arp_ok s qs" and ni: "ether_netif s n ni" and rd: "ready s qs q xs"
  shows "\<exists>e s' qs'. etharp_output nc n q a s = ret (e, s') \<and> arp_ok s' qs' \<and> links s' = links s"
proof -
  note n = ether_netifD [OF ni] and rdD = readyD [OF rd]
  obtain b where b: "pget q (pb s) = ret b" using rdD(1,5) by (cases xs) (auto simp: packet_def pget_def split: option.splits)
  have eth: "\<exists>e s' qs'. ethernet_output nc n q (hwaddr ni) dst ETHTYPE_IP s = ret (e, s') \<and> arp_ok s' qs' \<and> links s' = links s"
    if dst: "length dst = 6" for dst
  proof -
    obtain e s' where s': "ethernet_output nc n q (hwaddr ni) dst ETHTYPE_IP s = ret (e, s')" "sent q s s'"
      using ethernet_output_sent [OF drv rdD(1) ni dst n(3)] by blast
    then show ?thesis using sent_ok [OF ok rd s'(2)] sentD(3) [OF s'(2)] by blast
  qed
  have uni: "\<exists>e s' qs'. output_unicast nc n q d s = ret (e, s') \<and> arp_ok s' qs' \<and> links s' = links s" for d
    by (rule output_unicast_ok [OF drv ok ni rd])
  let ?m = "[0x01, 0x00, 0x5e, memory_bytes a ! 1 AND 0x7f, memory_bytes a ! 2, memory_bytes a ! 3]"
  have out: "etharp_output nc n q a s = (if ip4_addr_isbroadcast_u32 a ni then ethernet_output nc n q (hwaddr ni) ethbroadcast ETHTYPE_IP s
      else if ip4_addr_ismulticast a then ethernet_output nc n q (hwaddr ni) ?m ETHTYPE_IP s
      else if (\<not> ip4_addr_netcmp a (ip_addr ni) (netmask ni) \<and> \<not> ip4_addr_islinklocal a)
        \<and> \<not> ip4_addr_islinklocal (load32 (pb_payload b + 12) (pb s))
      then if gw ni \<noteq> IPADDR_ANY then output_unicast nc n q (gw ni) s else ret (ERR_RTE, s)
      else output_unicast nc n q a s)"
    using n(1,2) rdD(5) b by (simp add: etharp_output_def Let_def)
  have "length ethbroadcast = 6" "length ?m = 6" by (simp_all add: ethbroadcast_def)
  note e = eth [OF this(1)] eth [OF this(2)] uni [of "gw ni"] uni [of a]
  have "\<exists>e s' qs'. ret (ERR_RTE, s) = ret (e, s') \<and> arp_ok s' qs' \<and> links s' = links s" using ok by auto
  then show ?thesis unfolding out using e by simp
qed

subsection \<open>Messages from the network\<close>

text \<open>DHCP keeps what it learns from ARP messages to itself, as do the layers that AutoIP calls.\<close>

definition quiet :: "'w net_calls \<Rightarrow> bool" where
  "quiet nc \<longleftrightarrow> calm nc \<and> (\<forall>n a s. \<exists>w. dhcp_arp_reply nc n a s = ret (s\<lparr>world := w\<rparr>))"

text \<open>What AutoIP does leaves the table and all packets alone.\<close>

lemma performed_ok:
  assumes p: "performed nc log fs s s'" and k: "netifs_kin s s'" and ok: "arp_ok s qs"
  shows "arp_ok s' qs"
proof -
  have "queues (pb s') (arp_table s') qs = queues (pb s) (arp_table s) qs"
    using p chain_frame [of _ "pb s'" "pb s"] by (simp add: performed_def queues_def ref_of_def)
  moreover have "\<exists>ni. ether_netif s' n ni" if "\<exists>ni. ether_netif s n ni" for n using that ether_kin [OF k] by blast
  ultimately show ?thesis using ok p by (simp add: arp_ok_def performed_def)
qed

lemma performed_ready:
  assumes "performed nc log fs s s'" "ready s qs q xs"
  shows "ready s' qs q xs"
  by (rule ready_frame [OF assms(2)]) (use assms(1) in \<open>auto simp: performed_def\<close>)

lemma autoip_reply_ok:
  assumes drv: "driver nc transmit" and qt: "quiet nc" and ok: "arp_ok s qs" and cl: "clients_ok s" and ni: "ether_netif s n ni"
    and up: "netif_is_up ni" and rd: "ready s qs p xs"
  shows "\<exists>s' ni'. autoip_arp_reply nc n hdr s = ret s' \<and> arp_ok s' qs \<and> clients_ok s' \<and> netifs_kin s s' \<and> ether_netif s' n ni' \<and> ready s' qs p xs"
proof (cases "autoip_data ni = 0")
  case True
  then have "autoip_arp_reply nc n hdr s = ret s" using ether_nget [OF ni] by (simp add: autoip_arp_reply_def)
  then show ?thesis using ok cl ni rd by (auto simp: netifs_kin_refl)
next
  case False
  have st: "setting nc" using drv qt by (auto simp: setting_def quiet_def)
  obtain a where "autoips s (autoip_data ni) = Some a" using clients_okD(3) [OF cl ether_nget(3) [OF ni] False] by blast
  then have c: "client s n ni a" using ni False by (simp add: client_def)
  obtain s' ni' a' fs x where s': "autoip_arp_reply nc n hdr s = ret s'" "react n x ni a = (ni', a', fs)" "netifs s' = (netifs s)(n \<mapsto> ni')"
    "autoips s' = (autoips s)(autoip_data ni \<mapsto> a')" "performed nc (\<lambda>_. []) fs s s'"
    using arp_reply_ok [OF st arp_okD(2) [OF ok] c up, of hdr "\<lambda>_. []"] by blast
  have "kin ni ni'" using s'(2) by (cases x) (auto simp: unconfigured_def)
  moreover have "netif_list s' = netif_list s" using s'(5) by (simp add: performed_def)
  ultimately have ch: "clients_ok s'" "netifs_kin s s'" "client s' n ni' a'" using client_change [OF cl c _ s'(4,3)] by blast+
  then show ?thesis
    using s'(1) performed_ok [OF s'(5) ch(2) ok] performed_ready [OF s'(5) rd] clientD(1) [OF ch(3)] by blast
qed

lemma arp_ok_world [simp]: "arp_ok (s\<lparr>world := w\<rparr>) qs = arp_ok s qs"
  by (simp add: arp_ok_def ether_netif_def)

lemma ready_world [simp]: "ready (s\<lparr>world := w\<rparr>) qs q xs = ready s qs q xs"
  by (simp add: ready_def)

text \<open>The end of every path of \<open>etharp_input\<close>: the packet is freed.\<close>

lemma free_own_ok:
  assumes ok: "arp_ok s qs" and rd: "ready s qs p xs"
  shows "\<exists>s' qs'. bind_run (on_pb (pbuf_free p) s) (\<lambda>(_, s). ret s) = ret s' \<and> arp_ok s' qs' \<and> links s' = links s"
proof -
  note rdD = readyD [OF rd]
  have ch: "chain (pb s) p xs" using rdD(1) by (simp add: packet_def)
  obtain m b where b: "pbuf_free p (pb s) = ret (m, b)" "pbuf_inv b" "\<forall>x. x \<notin> set xs \<longrightarrow> pbufs b x = pbufs (pb s) x"
    using free_queue_ok [OF arp_okD(2) [OF ok] ch rdD(5,3)] by blast
  have "arp_ok (s\<lparr>pb := b\<rparr>) qs"
  proof (rule arp_ok_pb [OF ok])
    show "pbufs (pb (s\<lparr>pb := b\<rparr>)) x = pbufs (pb s) x" if "i < ARP_TABLE_SIZE" "x \<in> set (qs ! i)" for i x
      using b(3) rdD(7) [OF that(1)] that(2) by auto
  qed (use ok b(2) in \<open>simp_all add: arp_ok_def\<close>)
  then show ?thesis using b(1) by (auto simp: on_pb_def)
qed

lemma clients_links: "links s' = links s \<Longrightarrow> clients_ok s \<Longrightarrow> clients_ok s'"
  by (simp add: clients_ok_def ether_netif_def)

lemma learn_ready_ok:
  assumes drv: "driver nc transmit" and ok: "arp_ok s qs" and ni: "ether_netif s n ni" and mac: "length mac = 6" and rd: "ready s qs p xs"
  shows "\<exists>r s' qs'. etharp_update_arp_entry nc n a mac flags s = ret (r, s') \<and> arp_ok s' qs' \<and> links s' = links s \<and> ready s' qs' p xs"
proof (cases "unicast a ni")
  case False
  then have "etharp_update_arp_entry nc n a mac flags s = ret (ERR_ARG, s)"
    using ni by (auto simp: etharp_update_arp_entry_def unicast_def nget_def ether_netif_def)
  then show ?thesis using ok rd by blast
next
  case True
  from update_ok [OF drv ok ni mac True, of flags] show ?thesis
  proof cases
    case 1
    then show ?thesis using ok rd by blast
  next
    case (2 i s')
    have "ready s' (qs[i := []]) p xs"
    proof (rule ready_frame [OF rd])
      show "pbufs (pb s') x = pbufs (pb s) x" if "x \<in> set xs" for x using 2(8) readyD(7) [OF rd 2(1)] that by auto
      show "set (qs[i := []] ! j) \<subseteq> set (qs ! j)" if "j < ARP_TABLE_SIZE" for j
        using arp_okD(4) [OF ok] 2(1) that by (cases "j = i") simp_all
    qed
    then show ?thesis using 2(2,3,6) by blast
  qed
qed

text \<open>The answer to a request, or the note to DHCP, between learning and freeing.\<close>

lemma answer_ok:
  assumes drv: "driver nc transmit" and qt: "quiet nc" and ok: "arp_ok s qs" and ni: "ether_netif s n ni" and rd: "ready s qs p xs" and mac: "length mac = 6"
  shows "\<exists>s'. (if opcode = PP_HTONS ARP_REQUEST then
        if for_us then bind_run (nget n s) (\<lambda>ni.
            bind_run (etharp_raw nc n (hwaddr ni) mac (hwaddr ni) (ip_addr ni) mac sip ARP_REPLY s) (\<lambda>(_, s). ret s))
        else ret s
      else if opcode = PP_HTONS ARP_REPLY then dhcp_arp_reply nc n sip s else ret s) = ret s'
    \<and> arp_ok s' qs \<and> links s' = links s \<and> ready s' qs p xs"
proof -
  obtain r s1 where s1: "etharp_raw nc n (hwaddr ni) mac (hwaddr ni) (ip_addr ni) mac sip ARP_REPLY s = ret (r, s1)" "restored s s1"
    using etharp_raw_ok [OF drv arp_okD(2) [OF ok] ni, of "hwaddr ni" mac "hwaddr ni" mac] ether_netifD(3) [OF ni] mac by blast
  have "arp_ok s1 qs" "links s1 = links s" using restored_ok [OF ok s1(2)] s1(2) by (simp_all add: restored_def)
  moreover have "ready s1 qs p xs" by (rule ready_frame [OF rd]) (use s1(2) in \<open>auto simp: restored_def\<close>)
  moreover obtain w where "dhcp_arp_reply nc n sip s = ret (s\<lparr>world := w\<rparr>)" using qt unfolding quiet_def by blast
  ultimately show ?thesis using s1(1) ether_netifD(2) [OF ni] ok rd by auto
qed

lemma input_ok:
  assumes drv: "driver nc transmit" and qt: "quiet nc" and ok: "arp_ok s qs" and cl: "clients_ok s" and ni: "ether_netif s n ni"
    and up: "netif_is_up ni" and rd: "ready s qs p xs"
  shows "\<exists>s' qs'. etharp_input nc p n s = ret s' \<and> arp_ok s' qs' \<and> clients_ok s' \<and> netifs_kin s s'"
proof -
  note n = ether_netifD [OF ni] and rdD = readyD [OF rd]
  obtain b where b: "pget p (pb s) = ret b" using rdD(1,5) by (cases xs) (auto simp: packet_def pget_def split: option.splits)
  let ?hdr = "pb_payload b"
  obtain t mi where t: "autoip_arp_reply nc n ?hdr s = ret t" "arp_ok t qs" "clients_ok t" "netifs_kin s t" "ether_netif t n mi" "ready t qs p xs"
    using autoip_reply_ok [OF drv qt ok cl ni up rd] by blast
  let ?sip = "load32 (?hdr + 14) (pb t)" and ?us = "if ip_addr mi = IPADDR_ANY then False else load32 (?hdr + 24) (pb t) = ip_addr mi"
  obtain r s1 qs1 where s1: "etharp_update_arp_entry nc n ?sip (read_bytes (?hdr + 8) 6 (pb t))
      (if ?us then ETHARP_FLAG_TRY_HARD else ETHARP_FLAG_FIND_ONLY) t = ret (r, s1)" "arp_ok s1 qs1" "links s1 = links t" "ready s1 qs1 p xs"
    using learn_ready_ok [OF drv t(2,5) length_read_bytes t(6), of ?sip "?hdr + 8" "pb t" "if ?us then ETHARP_FLAG_TRY_HARD else ETHARP_FLAG_FIND_ONLY"]
    by blast
  have ni2: "ether_netif s1 n mi" by (rule ether_netifD(4) [OF t(5) s1(3)])
  obtain s2 where s2: "(if load16 (?hdr + 6) (pb s1) = PP_HTONS ARP_REQUEST then
        if ?us then bind_run (nget n s1) (\<lambda>ni. bind_run (etharp_raw nc n (hwaddr ni) (read_bytes (?hdr + 8) 6 (pb s1)) (hwaddr ni) (ip_addr ni)
            (read_bytes (?hdr + 8) 6 (pb s1)) ?sip ARP_REPLY s1) (\<lambda>(_, s). ret s))
        else ret s1
      else if load16 (?hdr + 6) (pb s1) = PP_HTONS ARP_REPLY then dhcp_arp_reply nc n ?sip s1 else ret s1) = ret s2"
    "arp_ok s2 qs1" "links s2 = links s1" "ready s2 qs1 p xs"
    using answer_ok [OF drv qt s1(2) ni2 s1(4) length_read_bytes, of "load16 (?hdr + 6) (pb s1)" ?us "?hdr + 8" "pb s1" ?sip] by blast
  obtain s3 qs3 where s3: "bind_run (on_pb (pbuf_free p) s2) (\<lambda>(_, s). ret s) = ret s3" "arp_ok s3 qs3" "links s3 = links s2"
    using free_own_ok [OF s2(2,4)] by blast
  obtain s4 qs4 where s4: "bind_run (on_pb (pbuf_free p) s) (\<lambda>(_, s). ret s) = ret s4" "arp_ok s4 qs4" "links s4 = links s"
    using free_own_ok [OF ok rd] by blast
  have "etharp_input nc p n s = ret s3 \<or> etharp_input nc p n s = ret s4"
    unfolding etharp_input_def Let_def b t(1) bind_run_ret ether_netifD(2) [OF t(5)] s1(1) prod.case s2(1) s3(1) s4(1) lwip_assert_def
    using n(1) by simp
  moreover have "clients_ok s3" "netifs_kin s s3" "clients_ok s4" "netifs_kin s s4"
    using clients_links [OF _ t(3), of s3] clients_links [OF s4(3) cl] t(4) s1(3) s2(3) s3(3) s4(3) by (simp_all add: netifs_kin_def option.rel_refl)
  ultimately show ?thesis using s3(2) s4(2) by blast
qed

end
