(* ===== verification/Etharp_Properties.thy ===== *)
theory Etharp_Properties
  imports Etharp_Packets
begin

text \<open>
  What ARP and Ethernet promise: the refinement of the cache, the frames that leave through the driver,
  the ageing of entries and the safety of every sequence of operations.
\<close>

subsection \<open>An example state\<close>

text \<open>
  One interface, a driver that records what it is given, an entry for 192.168.1.2, and a pending entry
  for 192.168.1.3 with the queued packet \<open>q\<close>.
\<close>

definition example_netif :: netif where
  "example_netif = \<lparr>ip_addr = 0x0101A8C0, netmask = 0x00FFFFFF, gw = 0xFE01A8C0, hwaddr = [2, 0, 0, 0, 0, 1], hwaddr_len = 6,
     netif_flags = 0x0F, netif_num = 0, mtu = 1500, autoip_data = 0\<rparr>"

definition empty_entry :: etharp_entry where
  "empty_entry = \<lparr>arp_q = 0, arp_ipaddr = 0, arp_netif = 0, arp_ethaddr = ethzero, arp_ctime = 0, arp_state = ETHARP_STATE_EMPTY\<rparr>"

definition example_table :: "nat \<Rightarrow> etharp_entry list" where
  "example_table q =
     [\<lparr>arp_q = 0, arp_ipaddr = 0x0201A8C0, arp_netif = 1, arp_ethaddr = [2, 0, 0, 0, 0, 2], arp_ctime = 7, arp_state = ETHARP_STATE_STABLE\<rparr>,
      \<lparr>arp_q = q, arp_ipaddr = 0x0301A8C0, arp_netif = 1, arp_ethaddr = ethzero, arp_ctime = 1, arp_state = ETHARP_STATE_PENDING\<rparr>]
     @ replicate 8 empty_entry"

definition example_arp :: "nat \<Rightarrow> frames net" where
  "example_arp q = \<lparr>arp_table = example_table q, etharp_cached_entry = 0, pb = example_ram_pbuf, netifs = [1 \<mapsto> example_netif], netif_list = [1], netif_default = 1, next_netif_num = 1,
     autoips = (\<lambda>_. None), world = []\<rparr>"

definition example_transmit :: "nat \<Rightarrow> u8 list \<Rightarrow> frames \<Rightarrow> err_t \<times> frames" where
  "example_transmit n bs w = (ERR_OK, w @ [(n, bs)])"

definition example_calls :: "frames net_calls" where
  "example_calls =
     \<lparr>linkoutput = (\<lambda>n p s. bind_run (pget p (pb s)) (\<lambda>b. bind_run (pbuf_copy_partial p (pb_tot_len b) 0 (pb s)) (\<lambda>bs.
        ret (ERR_OK, s\<lparr>world := world s @ [(n, bs)]\<rparr>)))),
      ip4_input = (\<lambda>p n s. ret s), ip6_input = (\<lambda>p n s. ret s), dhcp_arp_reply = (\<lambda>n a s. ret s), dhcp_network_changed = (\<lambda>n s. ret s),
      tcp_netif_ip_addr_changed = (\<lambda>a b s. ret s), udp_netif_ip_addr_changed = (\<lambda>a b s. ret s), igmp_start = (\<lambda>n s. ret s), igmp_report_groups = (\<lambda>n s. ret s),
      mld6_report_groups = (\<lambda>n s. ret s), nd6_restart_netif = (\<lambda>n s. ret s), nd6_cleanup_netif = (\<lambda>n s. ret s)\<rparr>"

lemma example_driver: "driver example_calls example_transmit"
proof -
  have "pbuf_copy_partial p (chain_len b xs) 0 b = ret (chain_data b xs)" if "packet b p xs" for p xs b
    using copy_partial_loop_chain [of b p xs 0 "chain_len b xs" "[]"] that by (cases xs) (auto simp: packet_def pbuf_copy_partial_def)
  moreover have "pget p b = ret c \<Longrightarrow> packet b p xs \<Longrightarrow> pb_tot_len c = chain_len b xs" for p c b xs
    by (cases xs) (auto simp: packet_def pget_def part_len_def split: option.splits if_splits)
  moreover have "\<exists>c. pget p b = ret c" if "packet b p xs" for p b xs
    using that by (cases xs) (auto simp: packet_def pget_def split: option.splits)
  ultimately show ?thesis unfolding driver_def example_calls_def example_transmit_def by fastforce
qed

lemma keeps_ret: "keeps_to_itself (\<lambda>s. ret s) log"
proof -
  have "ret s = ret (s\<lparr>world := world s\<rparr>)" for s :: "'a net" by simp
  then show ?thesis unfolding keeps_to_itself_def by blast
qed

lemma example_calm: "all_keep example_calls log"
  by (simp add: all_keep_def example_calls_def keeps_ret)

lemma example_quiet: "quiet example_calls"
proof -
  have "\<exists>w. s = s\<lparr>world := w\<rparr>" for s :: "frames net" by (rule exI [of _ "world s"]) simp
  then have "\<forall>n a s. \<exists>w. dhcp_arp_reply example_calls n a s = ret (s\<lparr>world := w\<rparr>)" by (simp add: example_calls_def)
  then show ?thesis by (simp add: quiet_def calm_def example_calm)
qed

lemma example_ram_inv: "pbuf_inv example_ram_pbuf"
proof -
  have "pbuf_inv example_net" by (rule example_net_inv)
  then show ?thesis
    by (auto simp: pbuf_inv_def example_ram_pbuf_def example_net_def pbuf_owned_def pbuf_placed_def example_pbuf_def PBUF_FLAG_IS_CUSTOM_def split: if_splits)
qed

lemma example_ether: "ether_netif (example_arp q) 1 example_netif"
  by (simp add: ether_netif_def example_arp_def example_netif_def ETH_HWADDR_LEN_def)

lemma example_clients: "clients_ok (example_arp q)"
  by (auto simp: clients_ok_def example_arp_def ether_netif_def example_netif_def ETH_HWADDR_LEN_def)

lemma ten_cases: "i < ARP_TABLE_SIZE \<longleftrightarrow> i = 0 \<or> i = 1 \<or> (2 \<le> i \<and> i < 10)"
  by (auto simp: ARP_TABLE_SIZE_def)

lemma example_table_nth:
  "example_table q ! 0 = \<lparr>arp_q = 0, arp_ipaddr = 0x0201A8C0, arp_netif = 1, arp_ethaddr = [2, 0, 0, 0, 0, 2], arp_ctime = 7, arp_state = ETHARP_STATE_STABLE\<rparr>"
  "example_table q ! Suc 0 = \<lparr>arp_q = q, arp_ipaddr = 0x0301A8C0, arp_netif = 1, arp_ethaddr = ethzero, arp_ctime = 1, arp_state = ETHARP_STATE_PENDING\<rparr>"
  "2 \<le> i \<Longrightarrow> i < 10 \<Longrightarrow> example_table q ! i = empty_entry"
  by (simp_all add: example_table_def nth_append nth_Cons split: nat.splits)

lemma example_table_ok: "table_ok (example_table q)"
proof -
  have "length (example_table q) = ARP_TABLE_SIZE" by (simp add: example_table_def ARP_TABLE_SIZE_def)
  moreover have "list_all entry_ok (example_table q)"
    by (simp add: example_table_def entry_ok_def empty_entry_def stable_iff ARP_MAXAGE_def ARP_MAXPENDING_def ETH_HWADDR_LEN_def list_all_iff)
  moreover have "i = j" if "i < ARP_TABLE_SIZE" "j < ARP_TABLE_SIZE" "same_key (example_table q ! i) (example_table q ! j)" for i j
    using that unfolding ten_cases by (auto simp: example_table_nth same_key_def empty_entry_def)
  ultimately show ?thesis unfolding table_ok_def by metis
qed

definition example_queues :: "nat list \<Rightarrow> nat list list" where
  "example_queues xs = [[], xs] @ replicate 8 []"

lemma example_arp_ok:
  assumes "q = 0 \<and> xs = [] \<or> q = 50 \<and> xs = [50]"
  shows "arp_ok (example_arp q) (example_queues xs)"
proof -
  have nth: "example_queues xs ! i = (if i = 1 then xs else [])" if "i < ARP_TABLE_SIZE" for i
    using that by (auto simp: example_queues_def ARP_TABLE_SIZE_def nth_append nth_Cons split: nat.splits)
  have pk: "chain example_ram_pbuf q xs" "chain_len example_ram_pbuf xs < 2 ^ 16" "\<forall>x\<in>set xs. 0 < ref_of example_ram_pbuf x"
    using assms by (auto simp: example_ram_pbuf_def example_pbuf_def part_len_def ref_of_def)
  have q: "arp_q (example_table q ! i) = (if i = 1 then q else 0)" if "i < ARP_TABLE_SIZE" for i
    using that unfolding ten_cases by (auto simp: example_table_nth empty_entry_def)
  have "queues example_ram_pbuf (example_table q) (example_queues xs)"
    unfolding queues_def using nth q pk by (auto simp: example_queues_def ARP_TABLE_SIZE_def)
  moreover have "\<exists>ni. ether_netif (example_arp q) (arp_netif (example_table q ! i)) ni"
    if "i < ARP_TABLE_SIZE" "nonempty (example_table q ! i)" for i
    using that example_ether [of q] unfolding ten_cases by (intro exI [of _ example_netif]) (auto simp: example_table_nth empty_entry_def)
  ultimately show ?thesis
    using example_table_ok example_ram_inv by (simp add: arp_ok_def example_arp_def [of q] ARP_TABLE_SIZE_def)
qed

lemma example_arp_inv: "arp_inv (example_arp 0)" "arp_inv (example_arp 50)"
  using example_arp_ok [of 0 "[]"] example_arp_ok [of 50 "[50]"] by (auto simp: arp_inv_def)

lemma example_unicast: "unicast 0x0301A8C0 example_netif" "unicast 0x0401A8C0 example_netif"
  by (simp_all add: unicast_def example_netif_def ip4_addr_isbroadcast_u32_def ip4_addr_ismulticast_def ip4_addr_netcmp_def
      IPADDR_ANY_def IPADDR_BROADCAST_def NETIF_FLAG_BROADCAST_def PP_HTONL_def)

subsection \<open>The cache\<close>

text \<open>
  the ARP table refines a map from addresses on interfaces to Ethernet addresses: in every state of
  the invariant \<open>etharp_find_addr\<close> returns, changes nothing, and answers with what the map holds.
\<close>

theorem etharp_find_addr_refines:
  assumes "arp_inv s" and "n \<noteq> 0"
  shows "\<exists>r. etharp_find_addr n (Some a) s = ret (r, s) \<and> map_option (\<lambda>(i, mac, ip). mac) r = abs_cache (arp_table s) (a, n)"
  using assms find_addr_ok unfolding arp_inv_def by blast

theorem etharp_find_addr_refines_witness:
  "\<exists>r. etharp_find_addr 1 (Some 0x0201A8C0) (example_arp 50) = ret (r, example_arp 50)
     \<and> map_option (\<lambda>(i, mac, ip). mac) r = Some [2, 0, 0, 0, 0, 2]"
proof -
  have "abs_cache (arp_table (example_arp 50)) (0x0201A8C0, 1) = Some [2, 0, 0, 0, 0, 2]"
    by (simp add: abs_cache_def example_arp_def example_table_def entry_key_def stable_iff)
  then show ?thesis using etharp_find_addr_refines [OF example_arp_inv(2), of 1 "0x0201A8C0"] by simp
qed

text \<open>
  C12: learning an address refines an update of the map. From every state of the invariant
  \<open>etharp_update_arp_entry\<close> with \<open>ETHARP_FLAG_TRY_HARD\<close> returns \<open>ERR_OK\<close> in a state of the invariant whose map has the new
  address; nothing else changes when the address was known or an entry is free, and otherwise
  exactly the entry to recycle (the oldest stable one, or if there is none the oldest pending one, without a
  queued packet if possible) is forgotten.
\<close>

theorem etharp_update_refines:
  assumes "driver nc transmit" and "arp_inv s" and "ether_netif s n ni" and "unicast a ni" and "length mac = 6"
  shows "\<exists>s'. etharp_update_arp_entry nc n a mac ETHARP_FLAG_TRY_HARD s = ret (ERR_OK, s') \<and> arp_inv s' \<and>
    (if lookup (arp_table s) a n \<noteq> None \<or> (\<exists>j<ARP_TABLE_SIZE. \<not> nonempty (arp_table s ! j))
     then abs_cache (arp_table s') = (abs_cache (arp_table s))((a, n) \<mapsto> mac)
     else \<exists>i. recycle_choice (arp_table s) i \<and> abs_cache (arp_table s') =
       (if stable (arp_table s ! i) then (abs_cache (arp_table s))(entry_key (arp_table s ! i) := None) else abs_cache (arp_table s))((a, n) \<mapsto> mac))"
proof -
  let ?t = "arp_table s"
  obtain qs where ok: "arp_ok s qs" using assms(2) by (auto simp: arp_inv_def)
  have hard: "ETHARP_FLAG_TRY_HARD AND ETHARP_FLAG_FIND_ONLY = 0" "ETHARP_FLAG_TRY_HARD AND ETHARP_FLAG_TRY_HARD \<noteq> 0"
    by (simp_all add: ETHARP_FLAG_TRY_HARD_def ETHARP_FLAG_FIND_ONLY_def)
  from update_ok [OF assms(1) ok assms(3,5,4), of ETHARP_FLAG_TRY_HARD] show ?thesis
  proof cases
    case 1
    then show ?thesis using hard by auto
  next
    case (2 i s')
    have "table_ok (arp_table s')" using 2(3) by (simp add: arp_ok_def)
    then have abs: "abs_cache (arp_table s') =
        (if stable (?t ! i) then (abs_cache ?t)(entry_key (?t ! i) := None) else abs_cache ?t)((a, n) \<mapsto> mac)"
      using abs_cache_update [OF arp_okD(1) [OF ok] _ 2(1)] 2(5) by (simp add: entry_key_def)
    have inv: "arp_inv s'" using 2(3) by (auto simp: arp_inv_def)
    show ?thesis
    proof (cases "lookup ?t a n \<noteq> None \<or> (\<exists>j<ARP_TABLE_SIZE. \<not> nonempty (?t ! j))")
      case True
      have "entry_key (?t ! i) = (a, n) \<or> \<not> stable (?t ! i)"
      proof (cases "lookup ?t a n = Some i")
        case True
        then show ?thesis using ether_netifD(1) [OF assms(3)] by (simp add: lookup_iff(1) entry_matches_iff entry_key_def)
      next
        case False
        then have "recycle_choice ?t i" "\<exists>j<ARP_TABLE_SIZE. \<not> nonempty (?t ! j)" using 2(4) True by auto
        then have "\<not> nonempty (?t ! i)" unfolding recycle_choice_def by presburger
        then show ?thesis by (simp add: stable_iff)
      qed
      then have "abs_cache (arp_table s') = (abs_cache ?t)((a, n) \<mapsto> mac)" using abs by auto
      then show ?thesis using 2(2) inv True by auto
    next
      case False
      then show ?thesis using 2(2,4) inv abs by auto
    qed
  qed
qed

theorem etharp_update_refines_witness:
  "\<exists>s'. etharp_update_arp_entry example_calls 1 0x0301A8C0 [2, 0, 0, 0, 0, 3] ETHARP_FLAG_TRY_HARD (example_arp 50) = ret (ERR_OK, s')
    \<and> abs_cache (arp_table s') (0x0301A8C0, 1) = Some [2, 0, 0, 0, 0, 3]"
  using etharp_update_refines [OF example_driver example_arp_inv(2) example_ether example_unicast(1), of "[2, 0, 0, 0, 0, 3]"]
  by (auto split: if_splits)

subsection \<open>Ageing\<close>

text \<open>How many rounds of the timer an entry has left.\<close>

definition life :: "etharp_entry \<Rightarrow> nat" where
  "life e = (case arp_state e of ETHARP_STATE_EMPTY \<Rightarrow> 0 | ETHARP_STATE_PENDING \<Rightarrow> 5 - unat (arp_ctime e) | _ \<Rightarrow> 300 - unat (arp_ctime e))"

lemma life_aged: "entry_ok e \<Longrightarrow> life (aged e) \<le> life e - 1"
  using ctime_limits [of e] by (auto simp: life_def aged_def split: etharp_state.splits)

lemma life_le: "life e \<le> 300"
  by (auto simp: life_def split: etharp_state.splits)

lemma life_0: "entry_ok e \<Longrightarrow> life e = 0 \<Longrightarrow> arp_state e = ETHARP_STATE_EMPTY"
  using ctime_limits(1,2) [of e] by (auto simp: life_def stable_iff split: etharp_state.splits)

lemma tmr_rounds:
  assumes drv: "driver nc transmit" and "arp_ok s qs"
  shows "\<exists>s' qs'. run_all (\<lambda>_. etharp_tmr nc) (replicate k ()) s = ret s' \<and> arp_ok s' qs' \<and> links s' = links s
    \<and> (\<forall>i<ARP_TABLE_SIZE. life (arp_table s' ! i) \<le> life (arp_table s ! i) - k)"
  using assms(2)
proof (induction k arbitrary: s qs)
  case 0
  then show ?case by auto
next
  case (Suc k)
  obtain s1 qs1 where s1: "etharp_tmr nc s = ret s1" "evolved s qs s1 qs1" "arp_table s1 = map aged (arp_table s)"
    using tmr_ok [OF drv Suc.prems] by blast
  then obtain s' qs' where s': "run_all (\<lambda>_. etharp_tmr nc) (replicate k ()) s1 = ret s'" "arp_ok s' qs'" "links s' = links s1"
    "\<forall>i<ARP_TABLE_SIZE. life (arp_table s' ! i) \<le> life (arp_table s1 ! i) - k"
    using Suc.IH [of s1 qs1] by (auto simp: evolved_def)
  have "life (arp_table s1 ! i) \<le> life (arp_table s ! i) - 1" if "i < ARP_TABLE_SIZE" for i
    using life_aged table_ok_nth [OF arp_okD(1) [OF Suc.prems] that] arp_okD(5) [OF Suc.prems] that by (simp add: s1(3))
  then have "\<forall>i<ARP_TABLE_SIZE. life (arp_table s' ! i) \<le> life (arp_table s ! i) - Suc k"
    using s'(4) by (metis (no_types, lifting) diff_Suc_eq_diff_pred diff_le_mono le_trans One_nat_def)
  then show ?case using s1(1,2) s' by (auto simp: evolved_def)
qed

text \<open>
  a round of the timer always returns in a state of the invariant, having aged every entry by one:
  pending entries live for five rounds, stable ones for 300, a re-requested entry becomes stable again
  after two rounds; the packet of an entry that expires is freed.
\<close>

theorem etharp_tmr_correct:
  assumes "driver nc transmit" and "arp_inv s"
  shows "\<exists>s'. etharp_tmr nc s = ret s' \<and> arp_inv s' \<and> arp_table s' = map aged (arp_table s) \<and> links s' = links s"
  using assms tmr_ok unfolding arp_inv_def evolved_def by blast

theorem etharp_tmr_correct_witness:
  "\<exists>s'. etharp_tmr example_calls (example_arp 50) = ret s' \<and> arp_ctime (arp_table s' ! 0) = 8"
  using etharp_tmr_correct [OF example_driver example_arp_inv(2)]
  by (auto simp: example_arp_def example_table_def aged_def)

text \<open>
  C29: an entry that is not refreshed goes away: 300 rounds of the timer always return and leave an empty
  table that owns no packet.
\<close>

theorem etharp_tmr_expires:
  assumes "driver nc transmit" and "arp_inv s"
  shows "\<exists>s'. run_all (\<lambda>_. etharp_tmr nc) (replicate 300 ()) s = ret s' \<and> arp_inv s'
    \<and> list_all (\<lambda>e. arp_state e = ETHARP_STATE_EMPTY \<and> arp_q e = 0) (arp_table s')"
proof -
  obtain qs where "arp_ok s qs" using assms(2) by (auto simp: arp_inv_def)
  from tmr_rounds [OF assms(1) this, of 300] obtain s' qs' where s': "run_all (\<lambda>_. etharp_tmr nc) (replicate 300 ()) s = ret s'" "arp_ok s' qs'"
    "\<forall>i<ARP_TABLE_SIZE. life (arp_table s' ! i) \<le> life (arp_table s ! i) - 300" by blast
  have "arp_state (arp_table s' ! i) = ETHARP_STATE_EMPTY \<and> arp_q (arp_table s' ! i) = 0" if "i < ARP_TABLE_SIZE" for i
  proof -
    have e: "entry_ok (arp_table s' ! i)" by (rule table_ok_nth [OF arp_okD(1) [OF s'(2)] that])
    have "life (arp_table s' ! i) = 0" using s'(3) that life_le [of "arp_table s ! i"] by (metis diff_is_0_eq le_zero_eq)
    then have "arp_state (arp_table s' ! i) = ETHARP_STATE_EMPTY" by (rule life_0 [OF e])
    then show ?thesis using e by (simp add: entry_ok_def)
  qed
  then have "list_all (\<lambda>e. arp_state e = ETHARP_STATE_EMPTY \<and> arp_q e = 0) (arp_table s')"
    unfolding list_all_length arp_okD(5) [OF s'(2)] by blast
  then show ?thesis using s' by (auto simp: arp_inv_def)
qed

theorem etharp_tmr_expires_witness:
  "\<exists>s'. run_all (\<lambda>_. etharp_tmr example_calls) (replicate 300 ()) (example_arp 50) = ret s' \<and> arp_state (arp_table s' ! 0) = ETHARP_STATE_EMPTY"
proof -
  obtain s' where s': "run_all (\<lambda>_. etharp_tmr example_calls) (replicate 300 ()) (example_arp 50) = ret s'" "arp_inv s'"
    "list_all (\<lambda>e. arp_state e = ETHARP_STATE_EMPTY \<and> arp_q e = 0) (arp_table s')"
    using etharp_tmr_expires [OF example_driver example_arp_inv(2)] by blast
  obtain qs where "arp_ok s' qs" using s'(2) by (auto simp: arp_inv_def)
  then have "0 < length (arp_table s')" by (simp add: arp_okD(5) ARP_TABLE_SIZE_def)
  then show ?thesis using s' by (auto simp: list_all_length)
qed

text \<open>
  When an interface goes away, \<open>etharp_cleanup_netif\<close> returns in a state of the invariant in which no entry
  belongs to the interface; the map loses the addresses on this interface and no others.
\<close>

lemma etharp_cleanup_netif_correct:
  assumes "arp_inv s"
  shows "\<exists>s'. etharp_cleanup_netif n s = ret s' \<and> arp_inv s' \<and> links s' = links s \<and> list_all (\<lambda>e. nonempty e \<longrightarrow> arp_netif e \<noteq> n) (arp_table s')
    \<and> abs_cache (arp_table s') = abs_cache (arp_table s) |` {k. snd k \<noteq> n}"
proof -
  obtain qs where ok: "arp_ok s qs" using assms by (auto simp: arp_inv_def)
  obtain s' qs' where s': "etharp_cleanup_netif n s = ret s'" "evolved s qs s' qs'" "arp_table s' = map (cleaned n) (arp_table s)"
    using cleanup_ok [OF ok] by blast
  have ok': "arp_ok s' qs'" using s'(2) by (simp add: evolved_def)
  note t = arp_okD(1,5) [OF ok] and t' = arp_okD(1) [OF ok']
  have "abs_cache (arp_table s') k = (abs_cache (arp_table s) |` {k. snd k \<noteq> n}) k" for k
  proof (rule option_eqI)
    fix m
    have "stable (arp_table s' ! i) \<and> entry_key (arp_table s' ! i) = k \<and> arp_ethaddr (arp_table s' ! i) = m \<longleftrightarrow>
        stable (arp_table s ! i) \<and> entry_key (arp_table s ! i) = k \<and> arp_ethaddr (arp_table s ! i) = m \<and> snd k \<noteq> n" if "i < ARP_TABLE_SIZE" for i
      using that t(2) by (auto simp: s'(3) cleaned_def entry_key_def stable_iff)
    then have "abs_cache (arp_table s') k = Some m \<longleftrightarrow>
        (\<exists>i<ARP_TABLE_SIZE. stable (arp_table s ! i) \<and> entry_key (arp_table s ! i) = k \<and> arp_ethaddr (arp_table s ! i) = m \<and> snd k \<noteq> n)"
      unfolding abs_cache_iff [OF t'] by - (rule ex_cong1, rule conj_cong [OF refl])
    also have "\<dots> \<longleftrightarrow> (abs_cache (arp_table s) |` {k. snd k \<noteq> n}) k = Some m"
      by (cases "snd k = n") (simp_all add: restrict_map_def abs_cache_iff [OF t(1)])
    finally show "abs_cache (arp_table s') k = Some m \<longleftrightarrow> (abs_cache (arp_table s) |` {k. snd k \<noteq> n}) k = Some m" .
  qed
  moreover have "list_all (\<lambda>e. nonempty e \<longrightarrow> arp_netif e \<noteq> n) (arp_table s')"
    unfolding s'(3) list.pred_map comp_def by (simp add: list_all_iff cleaned_def)
  ultimately show ?thesis using s'(1,2) ok' by (auto simp: arp_inv_def evolved_def)
qed

subsection \<open>Frames\<close>

text \<open>
  \<open>etharp_raw\<close> always returns. Unless the heap is exhausted it hands the driver exactly one frame: the
  ARP message of the arguments in an Ethernet frame to the given destination, or to all when the
  sender's address is link-local. Afterwards all packet buffers are as before, none leaks, and the
  table is untouched.
\<close>

theorem etharp_raw_correct:
  assumes "driver nc transmit" and "pbuf_inv (pb s)" and "ether_netif s n ni"
    and "length ethsrc = 6" and "length ethdst = 6" and "length hwsrc = 6" and "length hwdst = 6"
    and "ram (pheap (pb s)) + MEM_SIZE_ALIGNED \<le> 2 ^ 32"
  shows "\<exists>r s'. etharp_raw nc n ethsrc ethdst hwsrc ipsrc hwdst ipdst opcode s = ret (r, s') \<and> restored s s'
    \<and> (r = ERR_MEM \<and> world s' = world s
       \<or> r = ERR_OK \<and> world s' = snd (transmit n (frame (if ip4_addr_islinklocal ipsrc then ethbroadcast else ethdst) ethsrc ETHTYPE_ARP
           (arp_message opcode hwsrc ipsrc hwdst ipdst)) (world s)))"
  using etharp_raw_ok [OF assms(1-7), of ipsrc ipdst opcode] assms(8) by auto

theorem etharp_raw_correct_witness:
  "\<exists>r s'. etharp_raw example_calls 1 [2, 0, 0, 0, 0, 1] ethbroadcast [2, 0, 0, 0, 0, 1] 0x0101A8C0 ethzero 0x0401A8C0 ARP_REQUEST (example_arp 0) = ret (r, s')
    \<and> (r = ERR_MEM \<or> r = ERR_OK \<and> world s' = [(1, [0xff, 0xff, 0xff, 0xff, 0xff, 0xff, 2, 0, 0, 0, 0, 1, 8, 6,
         0, 1, 8, 0, 6, 4, 0, 1, 2, 0, 0, 0, 0, 1, 192, 168, 1, 1, 0, 0, 0, 0, 0, 0, 192, 168, 1, 4])])"
proof -
  have "pbuf_inv (pb (example_arp 0))" "ram (pheap (pb (example_arp 0))) + MEM_SIZE_ALIGNED \<le> 2 ^ 32"
    using example_ram_inv by (simp_all add: example_arp_def example_ram_pbuf_def example_net_def example_heap_def mem_consts)
  then show ?thesis
    using etharp_raw_correct [OF example_driver _ example_ether [of 0], of "[2, 0, 0, 0, 0, 1]" ethbroadcast "[2, 0, 0, 0, 0, 1]" ethzero
        "0x0101A8C0" "0x0401A8C0" ARP_REQUEST]
    by (fastforce simp: ethbroadcast_def ethzero_def example_transmit_def frame_def arp_message_def be16_bytes_def memory_bytes_def
        ETHTYPE_ARP_def ARP_REQUEST_def ip4_addr_islinklocal_def PP_HTONL_def example_arp_def)
qed

text \<open>A packet in front of whose data the first buffer has room for the Ethernet header.\<close>

definition headroom :: "pbuf_state \<Rightarrow> nat \<Rightarrow> nat list \<Rightarrow> bool" where
  "headroom s q xs \<longleftrightarrow> (case pbufs s q of None \<Rightarrow> False | Some b \<Rightarrow>
     pb_type_internal b AND PBUF_TYPE_FLAG_STRUCT_DATA_CONTIGUOUS \<noteq> 0 \<and> 14 + chain_len s xs < 2 ^ 16
     \<and> q + SIZEOF_STRUCT_PBUF + 14 \<le> pb_payload b \<and> pb_payload b < 2 ^ 32
     \<and> list_all (\<lambda>a. a < pb_payload b - 14 \<or> pb_payload b \<le> a) (chain_addrs s xs))"

lemma example_buffer:
  "packet example_ram_pbuf 50 [50]" "headroom example_ram_pbuf 50 [50]" "chain_data example_ram_pbuf [50] = [100, 101, 102]"
  by (simp_all add: packet_def headroom_def example_ram_pbuf_def example_net_def example_pbuf_def part_len_def part_payload_def chain_addrs_def
      PBUF_TYPE_FLAG_STRUCT_DATA_CONTIGUOUS_def SIZEOF_STRUCT_PBUF_def read_bytes_def upt_rec)

lemma ethernet_output_frame:
  assumes drv: "driver nc transmit" and c: "packet (pb s) q xs" and ni: "ether_netif s n ni" and len: "length dst = 6" "length src = 6"
    and room: "headroom (pb s) q xs"
  shows "\<exists>s'. ethernet_output nc n q src dst ty s = ret (fst (transmit n (frame dst src ty (chain_data (pb s) xs)) (world s)), s')
    \<and> sent q s s' \<and> packet (pb s') q xs \<and> world s' = snd (transmit n (frame dst src ty (chain_data (pb s) xs)) (world s))"
proof -
  obtain ys where xs: "xs = q # ys" using c by (cases xs) (auto simp: packet_def)
  from c xs have c': "packet (pb s) q (q # ys)" by simp
  obtain b where b: "pbufs (pb s) q = Some b" and t: "pb_type_internal b AND PBUF_TYPE_FLAG_STRUCT_DATA_CONTIGUOUS \<noteq> 0"
    and l: "14 + chain_len (pb s) (q # ys) < 2 ^ 16" and a: "q + SIZEOF_STRUCT_PBUF + 14 \<le> pb_payload b" "pb_payload b < 2 ^ 32"
    and clear: "\<And>x. x \<in> set (chain_addrs (pb s) (q # ys)) \<Longrightarrow> x < pb_payload b - 14 \<or> pb_payload b \<le> x"
    using room unfolding headroom_def xs by (auto simp: list_all_iff split: option.splits)
  let ?d = "pb_payload b - 14"
  let ?s0 = "pset q (b\<lparr>pb_payload := ?d, pb_len := pb_len b + 14, pb_tot_len := pb_tot_len b + 14\<rparr>) (pb s)"
  let ?t = "write_bytes (?d + 6) src (write_bytes ?d dst (write_bytes (?d + 12) (be16_bytes ty) ?s0))"
  have "0 < (14 :: nat)" by simp
  note ah = add_header_ok [OF c' b this l a t]
  note r = ethernet_output_room [where ty = ty, OF drv c' b ni len ah l]
  have d: "chain_data ?s0 (q # ys) = read_bytes ?d 14 (pb s) @ chain_data (pb s) (q # ys)"
    by (rule add_header_data(2) [OF c' b l]) (use a(1) in simp)
  have un: "\<And>x. pb_payload b \<le> x \<or> x < ?d \<Longrightarrow> bytes ?t x = bytes (pb s) x"
    using a(1) len by (auto simp: write_bytes_def)
  have "chain_data ?t (q # ys) = map (bytes ?t) (chain_addrs ?t (q # ys))" by (rule chain_data_addrs)
  also have "chain_addrs ?t (q # ys) = [?d..<?d + 14] @ chain_addrs (pb s) (q # ys)"
  proof -
    have qn: "q \<notin> set ys" using chain_distinct [of "pb s" q "q # ys"] c' by (simp add: packet_def)
    have "chain_addrs ?s0 ys = chain_addrs (pb s) ys" by (rule chain_frame(3)) (use qn in auto)
    moreover have "[?d..<?d + (14 + pb_len b)] = [?d..<?d + 14] @ [pb_payload b..<pb_payload b + pb_len b]"
      using a(1) upt_add_eq_append [of ?d "?d + 14" "pb_len b"] by (simp add: add.assoc)
    moreover have "pbufs ?t = pbufs ?s0" by simp
    from same_pbufs(6) [OF this] have "chain_addrs ?t (q # ys) = chain_addrs ?s0 (q # ys)" by simp
    ultimately show ?thesis
      by (simp only: chain_addrs_Cons) (simp add: part_len_def part_payload_def b add.commute)
  qed
  also have "map (bytes ?t) \<dots> = read_bytes ?d 14 ?t @ map (bytes (pb s)) (chain_addrs (pb s) (q # ys))"
    using clear un by (simp add: read_bytes_def) blast
  also have "read_bytes ?d 14 ?t = dst @ src @ be16_bytes ty" by (rule read_frame [OF len])
  finally have "chain_data ?t (q # ys) = frame dst src ty (chain_data (pb s) (q # ys))"
    using len by (simp add: frame_def chain_data_addrs [symmetric])
  then show ?thesis using r(1,2) r(3) xs by auto
qed

text \<open>Where a packet to \<open>a\<close> goes first: to \<open>a\<close> on the link, else to the gateway.\<close>

definition next_hop :: "netif \<Rightarrow> u32 \<Rightarrow> u32 \<Rightarrow> u32" where
  "next_hop ni src a =
     (if ip4_addr_netcmp a (ip_addr ni) (netmask ni) \<or> ip4_addr_islinklocal a \<or> ip4_addr_islinklocal src then a else gw ni)"

lemma output_hit:
  assumes ok: "arp_ok s qs" and mac: "abs_cache (arp_table s) (a, n) = Some mac"
    and young: "list_all (\<lambda>e. arp_ctime e < ARP_AGE_REREQUEST_USED_UNICAST) (arp_table s)" and ni: "ether_netif s n ni"
  shows "\<exists>c. output_unicast nc n q a s = ethernet_output nc n q (hwaddr ni) mac ETHTYPE_IP (s\<lparr>etharp_cached_entry := c\<rparr>)"
proof -
  let ?t = "arp_table s"
  note t = arp_okD(1,5) [OF ok]
  have match: "stable_match n a e \<longleftrightarrow> stable e \<and> entry_key e = (a, n)" for e by (auto simp: stable_match_def entry_key_def)
  have mac_at: "arp_ethaddr (?t ! i) = mac" if "i < ARP_TABLE_SIZE" "stable_match n a (?t ! i)" for i
    using that abs_cache_iff [OF t(1), of "(a, n)" "arp_ethaddr (?t ! i)"] mac unfolding match by fastforce
  have idx: "etharp_output_to_arp_index nc n q i (s\<lparr>etharp_cached_entry := c\<rparr>) =
      ethernet_output nc n q (hwaddr ni) mac ETHTYPE_IP (s\<lparr>etharp_cached_entry := c\<rparr>)"
    if i: "i < ARP_TABLE_SIZE" "stable_match n a (?t ! i)" for i c
  proof -
    have "arp_ctime (?t ! i) < ARP_AGE_REREQUEST_USED_UNICAST" using young i(1) t(2) by (simp add: list_all_length)
    moreover from this have "arp_ctime (?t ! i) < ARP_AGE_REREQUEST_USED_BROADCAST"
      by (simp add: ARP_AGE_REREQUEST_USED_UNICAST_def ARP_AGE_REREQUEST_USED_BROADCAST_def ARP_MAXAGE_def word_less_nat_alt)
    ultimately show ?thesis
      using i(2) mac_at [OF i] ether_netifD(2,4) [OF ni]
      by (auto simp: etharp_output_to_arp_index_def Let_def stable_match_def nget_def not_le)
  qed
  have c: "etharp_cached_entry s < ARP_TABLE_SIZE" using ok by (simp add: arp_ok_def)
  obtain j where j: "j < ARP_TABLE_SIZE" "stable_match n a (?t ! j)" using mac unfolding abs_cache_iff [OF t(1)] match by blast
  show ?thesis
  proof (cases "stable_match n a (?t ! etharp_cached_entry s)")
    case True
    then show ?thesis
      using idx [OF c True, of "etharp_cached_entry s"] by (intro exI [of _ "etharp_cached_entry s"]) (simp add: output_unicast_def)
  next
    case False
    obtain i where i: "find (\<lambda>i. stable_match n a (?t ! i)) [0..<ARP_TABLE_SIZE] = Some i"
      using j by (cases "find (\<lambda>i. stable_match n a (?t ! i)) [0..<ARP_TABLE_SIZE]") (auto simp: find_None_iff)
    then have "i < ARP_TABLE_SIZE" "stable_match n a (?t ! i)" by (simp_all add: find_upt_Some)
    then show ?thesis using idx False i by (auto simp: output_unicast_def)
  qed
qed

lemma output_delivers:
  assumes "driver nc transmit" and "arp_inv s" and "ether_netif s n ni" and "unicast a ni"
    and "packet (pb s) q xs" and "headroom (pb s) q xs" and "gw ni \<noteq> IPADDR_ANY"
    and "abs_cache (arp_table s) (next_hop ni (load32 (part_payload (pb s) q + 12) (pb s)) a, n) = Some mac"
    and "list_all (\<lambda>e. arp_ctime e < ARP_AGE_REREQUEST_USED_UNICAST) (arp_table s)"
  shows "\<exists>s'. etharp_output nc n q a s = ret (fst (transmit n (frame mac (hwaddr ni) ETHTYPE_IP (chain_data (pb s) xs)) (world s)), s')
    \<and> world s' = snd (transmit n (frame mac (hwaddr ni) ETHTYPE_IP (chain_data (pb s) xs)) (world s)) \<and> arp_table s' = arp_table s
    \<and> (\<exists>c. sent q (s\<lparr>etharp_cached_entry := c\<rparr>) s')"
proof -
  obtain qs where ok: "arp_ok s qs" using assms(2) by (auto simp: arp_inv_def)
  let ?src = "load32 (part_payload (pb s) q + 12) (pb s)"
  have q: "q \<noteq> 0" using assms(5) by (cases xs) (auto simp: packet_def)
  obtain b where b: "pget q (pb s) = ret b" "pb_payload b = part_payload (pb s) q"
    using assms(5) by (cases xs) (auto simp: packet_def pget_def part_payload_def split: option.splits)
  have "etharp_output nc n q a s = output_unicast nc n q (next_hop ni ?src a) s"
    using assms(4,7) q b ether_netifD(1,2) [OF assms(3)] by (auto simp: etharp_output_def unicast_def next_hop_def)
  then obtain c where c: "etharp_output nc n q a s = ethernet_output nc n q (hwaddr ni) mac ETHTYPE_IP (s\<lparr>etharp_cached_entry := c\<rparr>)"
    using output_hit [OF ok assms(8,9,3)] by metis
  have m: "length mac = 6"
    using assms(8) [unfolded abs_cache_iff [OF arp_okD(1) [OF ok]]] entry_mac [OF ok] by blast
  let ?s = "s\<lparr>etharp_cached_entry := c\<rparr>"
  have "packet (pb ?s) q xs" "headroom (pb ?s) q xs" "ether_netif ?s n ni" using assms(3,5,6) by (simp_all add: ether_netif_def)
  from ethernet_output_frame [OF assms(1) this(1,3) m ether_netifD(3) [OF assms(3)] this(2), of ETHTYPE_IP]
  obtain s' where s': "etharp_output nc n q a s = ret (fst (transmit n (frame mac (hwaddr ni) ETHTYPE_IP (chain_data (pb s) xs)) (world s)), s')"
    "sent q ?s s'" "world s' = snd (transmit n (frame mac (hwaddr ni) ETHTYPE_IP (chain_data (pb s) xs)) (world s))" using c by auto
  then show ?thesis using sentD(1) [OF s'(2)] by (intro exI [of _ s']) auto
qed

text \<open>
  C13: a packet to a known address is delivered. When the cache holds the Ethernet address of the next
  hop (the destination on the link, or the gateway) and no entry is old enough to be asked for
  again, \<open>etharp_output\<close> hands the driver exactly one frame: the packet's bytes behind an Ethernet header to this
  address; its result is the driver's, and the table stays as it is.
\<close>

theorem etharp_output_delivers:
  assumes "driver nc transmit" and "arp_inv s" and "ether_netif s n ni" and "unicast a ni"
    and "packet (pb s) q xs" and "headroom (pb s) q xs" and "gw ni \<noteq> IPADDR_ANY"
    and "abs_cache (arp_table s) (next_hop ni (load32 (part_payload (pb s) q + 12) (pb s)) a, n) = Some mac"
    and "list_all (\<lambda>e. arp_ctime e < ARP_AGE_REREQUEST_USED_UNICAST) (arp_table s)"
  shows "\<exists>s'. etharp_output nc n q a s = ret (fst (transmit n (frame mac (hwaddr ni) ETHTYPE_IP (chain_data (pb s) xs)) (world s)), s')
    \<and> world s' = snd (transmit n (frame mac (hwaddr ni) ETHTYPE_IP (chain_data (pb s) xs)) (world s)) \<and> arp_table s' = arp_table s"
  using output_delivers [OF assms] by blast

theorem etharp_output_delivers_witness:
  "\<exists>s'. etharp_output example_calls 1 50 0x0201A8C0 (example_arp 0) = ret (ERR_OK, s')
    \<and> world s' = [(1, [2, 0, 0, 0, 0, 2, 2, 0, 0, 0, 0, 1, 8, 0, 100, 101, 102])]"
proof -
  let ?s = "example_arp 0"
  have s: "pb ?s = example_ram_pbuf" "arp_table ?s = example_table 0" "world ?s = []" by (simp_all add: example_arp_def)
  have pk: "packet (pb ?s) 50 [50]" and hr: "headroom (pb ?s) 50 [50]" and d: "chain_data (pb ?s) [50] = [100, 101, 102]"
    unfolding s by (rule example_buffer)+
  have uni: "unicast 0x0201A8C0 example_netif"
    by (simp add: unicast_def example_netif_def ip4_addr_isbroadcast_u32_def ip4_addr_ismulticast_def ip4_addr_netcmp_def
      IPADDR_ANY_def IPADDR_BROADCAST_def NETIF_FLAG_BROADCAST_def PP_HTONL_def)
  have hop: "next_hop example_netif src 0x0201A8C0 = 0x0201A8C0" for src by (simp add: next_hop_def example_netif_def ip4_addr_netcmp_def)
  have mac: "abs_cache (arp_table ?s) (next_hop example_netif src 0x0201A8C0, 1) = Some [2, 0, 0, 0, 0, 2]" for src
    unfolding hop by (simp add: s abs_cache_def example_table_def entry_key_def stable_iff)
  have young: "list_all (\<lambda>e. arp_ctime e < ARP_AGE_REREQUEST_USED_UNICAST) (arp_table ?s)"
    by (simp add: s example_table_def empty_entry_def ARP_AGE_REREQUEST_USED_UNICAST_def ARP_MAXAGE_def list_all_iff)
  have "gw example_netif \<noteq> IPADDR_ANY" by (simp add: example_netif_def IPADDR_ANY_def)
  from etharp_output_delivers [OF example_driver example_arp_inv(1) example_ether uni pk hr this mac young]
  show ?thesis unfolding d s(3) by (auto simp: example_transmit_def frame_def be16_bytes_def ETHTYPE_IP_def example_netif_def)
qed

lemma free_head_ref:
  assumes "pbuf_inv s" "chain s q xs" "q \<noteq> 0" "\<forall>x\<in>set xs. 0 < ref_of s x"
  shows "\<exists>m s'. pbuf_free q s = ret (m, s') \<and> ref_of s' q = ref_of s q - 1"
proof -
  obtain ys where xs: "xs = q # ys" using assms(2,3) by (cases xs) auto
  obtain b where b: "pbufs s q = Some b" using assms(2) xs by (auto split: option.splits)
  obtain m s' where s': "pbuf_free q s = ret (m, s')" "pbufs s' = after_free s xs"
    using free_loop_linked [OF _ assms(1) chain_linked [OF assms(2)] assms(4), of 0] assms(3) by (auto simp: pbuf_free_def)
  have "after_free s xs q = (if ref_of s q = 1 then None else Some (b\<lparr>pb_ref := pb_ref b - 1\<rparr>))"
    using b by (simp add: after_free_def xs Let_def)
  then have "ref_of s' q = ref_of s q - 1" using s'(2) b by (simp add: ref_of_def)
  then show ?thesis using s'(1) by blast
qed

text \<open>
  C14: when the address of a pending entry becomes known, the packet that waits for it is sent: the driver is
  handed exactly one frame, the queued bytes behind an Ethernet header to the new address; afterwards the
  queue is empty and one reference to the packet is given up.
\<close>

theorem etharp_update_sends_queued:
  assumes "driver nc transmit" and "arp_inv s" and "ether_netif s n ni" and "unicast a ni" and "length mac = 6"
    and "lookup (arp_table s) a n = Some i" and "arp_q (arp_table s ! i) = q" and "q \<noteq> 0"
    and "packet (pb s) q xs" and "headroom (pb s) q xs"
  shows "\<exists>s'. etharp_update_arp_entry nc n a mac flags s = ret (ERR_OK, s') \<and> arp_inv s' \<and> arp_q (arp_table s' ! i) = 0
    \<and> world s' = snd (transmit n (frame mac (hwaddr ni) ETHTYPE_IP (chain_data (pb s) xs)) (world s))
    \<and> ref_of (pb s') q = ref_of (pb s) q - 1"
proof -
  obtain qs where ok: "arp_ok s qs" using assms(2) by (auto simp: arp_inv_def)
  have i: "i < ARP_TABLE_SIZE" using assms(6) by (simp add: lookup_iff)
  have xs: "qs ! i = xs"
    using arp_okD(7) [OF ok i] assms(7,9) by (intro chain_unique [of "pb s" q]) (simp_all add: packet_def)
  have rf: "\<forall>x\<in>set xs. 0 < ref_of (pb s) x" using arp_okD(9) [OF ok i] xs by simp
  have find: "etharp_find_entry (Some a) flags n s = ret (Inr i, s)"
    using find_entry_ok [OF ok, of a n flags] assms(6) by cases auto
  let ?s = "s\<lparr>arp_table := (arp_table s)[i := learned n mac (arp_table s ! i)]\<rparr>"
  have "packet (pb ?s) q xs" "headroom (pb ?s) q xs" "ether_netif ?s n ni" using assms(3,9,10) by (simp_all add: ether_netif_def)
  from ethernet_output_frame [OF assms(1) this(1,3) assms(5) ether_netifD(3) [OF assms(3)] this(2), of ETHTYPE_IP]
  obtain e s1 where s1: "ethernet_output nc n q (hwaddr ni) mac ETHTYPE_IP ?s = ret (e, s1)" "sent q ?s s1" "packet (pb s1) q xs"
    "world s1 = snd (transmit n (frame mac (hwaddr ni) ETHTYPE_IP (chain_data (pb s) xs)) (world s))" by auto
  have inv1: "pbuf_inv (pb s1)" using sentD(4) [OF s1(2)] arp_okD(2) [OF ok] by simp
  have rf1: "ref_of (pb s1) x = ref_of (pb s) x" for x using sentD(6) [OF s1(2)] by simp
  obtain m b where b: "pbuf_free q (pb s1) = ret (m, b)" "ref_of b q = ref_of (pb s1) q - 1"
    using free_head_ref [OF inv1 _ assms(8), of xs] s1(3) rf rf1 by (auto simp: packet_def)
  have run: "etharp_update_arp_entry nc n a mac flags s = ret (ERR_OK, s1\<lparr>pb := b\<rparr>)"
    unfolding update_eq [OF assms(3,4)] find using i arp_okD(5) [OF ok] assms(5,7,8) s1(1) b(1)
    by (simp add: learn_entry_def arp_update_def ETH_HWADDR_LEN_def on_pb_def)
  from update_ok [OF assms(1) ok assms(3,5,4), of flags] have "arp_inv (s1\<lparr>pb := b\<rparr>)"
  proof cases
    case 1
    then show ?thesis using assms(6) by simp
  next
    case (2 j s')
    then show ?thesis using run by (auto simp: arp_inv_def)
  qed
  moreover have "arp_q (arp_table s1 ! i) = 0" using sentD(1) [OF s1(2)] i arp_okD(5) [OF ok] by simp
  ultimately show ?thesis using run s1(4) b(2) rf1 by simp
qed

theorem etharp_update_sends_queued_witness:
  "\<exists>s'. etharp_update_arp_entry example_calls 1 0x0301A8C0 [2, 0, 0, 0, 0, 3] ETHARP_FLAG_FIND_ONLY (example_arp 50) = ret (ERR_OK, s')
    \<and> world s' = [(1, [2, 0, 0, 0, 0, 3, 2, 0, 0, 0, 0, 1, 8, 0, 100, 101, 102])]"
proof -
  let ?s = "example_arp 50"
  have s: "pb ?s = example_ram_pbuf" "arp_table ?s = example_table 50" "world ?s = []" by (simp_all add: example_arp_def)
  have pk: "packet (pb ?s) 50 [50]" and hr: "headroom (pb ?s) 50 [50]" and d: "chain_data (pb ?s) [50] = [100, 101, 102]"
    unfolding s by (rule example_buffer)+
  have "lookup (arp_table ?s) 0x0301A8C0 1 = Some 1" "arp_q (arp_table ?s ! 1) = 50"
    by (simp_all add: s example_table_nth lookup_iff entry_matches_iff ARP_TABLE_SIZE_def)
  from etharp_update_sends_queued [OF example_driver example_arp_inv(2) example_ether example_unicast(1) _ this _ pk hr,
      of "[2, 0, 0, 0, 0, 3]" ETHARP_FLAG_FIND_ONLY]
  show ?thesis unfolding d s(3) by (auto simp: example_transmit_def frame_def be16_bytes_def ETHTYPE_IP_def example_netif_def)
qed

subsection \<open>Sequences of operations\<close>

datatype arp_event =
    Arp_tmr
  | Arp_cleanup nat
  | Arp_request nat u32
  | Arp_query nat u32 nat
  | Arp_output nat nat u32
  | Arp_input nat nat
  | Autoip_tmr
  | Autoip_start nat
  | Autoip_stop nat
  | Autoip_changed nat

text \<open>The state is the world of the stack: what it calls, and its own state.\<close>

fun arp_step :: "arp_event \<Rightarrow> 'w net_calls \<times> 'w net \<Rightarrow> ('w net_calls \<times> 'w net) run" where
  "arp_step Arp_tmr (nc, s) = bind_run (etharp_tmr nc s) (\<lambda>s. ret (nc, s))"
| "arp_step (Arp_cleanup n) (nc, s) = bind_run (etharp_cleanup_netif n s) (\<lambda>s. ret (nc, s))"
| "arp_step (Arp_request n a) (nc, s) = bind_run (etharp_request nc n a s) (\<lambda>(_, s). ret (nc, s))"
| "arp_step (Arp_query n a q) (nc, s) = bind_run (etharp_query nc n a q s) (\<lambda>(_, s). ret (nc, s))"
| "arp_step (Arp_output n q a) (nc, s) = bind_run (etharp_output nc n q a s) (\<lambda>(_, s). ret (nc, s))"
| "arp_step (Arp_input p n) (nc, s) = bind_run (etharp_input nc p n s) (\<lambda>s. ret (nc, s))"
| "arp_step Autoip_tmr (nc, s) = bind_run (autoip_tmr nc s) (\<lambda>s. ret (nc, s))"
| "arp_step (Autoip_start n) (nc, s) = bind_run (autoip_start nc n s) (\<lambda>(_, s). ret (nc, s))"
| "arp_step (Autoip_stop n) (nc, s) = bind_run (autoip_stop nc n s) (\<lambda>(_, s). ret (nc, s))"
| "arp_step (Autoip_changed n) (nc, s) = bind_run (autoip_network_changed n s) (\<lambda>s. ret (nc, s))"

definition own_packet :: "'w net \<Rightarrow> nat \<Rightarrow> bool" where
  "own_packet s q \<longleftrightarrow> (\<exists>xs. \<forall>qs. queues (pb s) (arp_table s) qs \<longrightarrow> ready s qs q xs)"

fun arp_allowed :: "arp_event \<Rightarrow> 'w net_calls \<times> 'w net \<Rightarrow> bool" where
  "arp_allowed Arp_tmr (nc, s) \<longleftrightarrow> True"
| "arp_allowed (Arp_cleanup n) (nc, s) \<longleftrightarrow> True"
| "arp_allowed (Arp_request n a) (nc, s) \<longleftrightarrow> (\<exists>ni. ether_netif s n ni)"
| "arp_allowed (Arp_query n a q) (nc, s) \<longleftrightarrow> (\<exists>ni. ether_netif s n ni) \<and> (q = 0 \<or> own_packet s q)"
| "arp_allowed (Arp_output n q a) (nc, s) \<longleftrightarrow> (\<exists>ni. ether_netif s n ni) \<and> own_packet s q"
| "arp_allowed (Arp_input p n) (nc, s) \<longleftrightarrow> (\<exists>ni. ether_netif s n ni \<and> netif_is_up ni) \<and> own_packet s p"
| "arp_allowed Autoip_tmr (nc, s) \<longleftrightarrow> True"
| "arp_allowed (Autoip_start n) (nc, s) \<longleftrightarrow> (\<exists>ni a. client s n ni a \<and> netif_is_up ni)"
| "arp_allowed (Autoip_stop n) (nc, s) \<longleftrightarrow> (\<exists>ni a. client s n ni a)"
| "arp_allowed (Autoip_changed n) (nc, s) \<longleftrightarrow> (\<exists>ni a. client s n ni a)"

fun arp_machine_inv :: "'w net_calls \<times> 'w net \<Rightarrow> bool" where
  "arp_machine_inv (nc, s) \<longleftrightarrow> (\<exists>transmit. driver nc transmit) \<and> quiet nc \<and> arp_inv s \<and> clients_ok s"

lemma own_ready: "arp_ok s qs \<Longrightarrow> own_packet s q \<Longrightarrow> \<exists>xs. ready s qs q xs"
  by (auto simp: own_packet_def arp_ok_def)

text \<open>An operation of AutoIP on one client.\<close>

lemma autoip_op_ok:
  assumes ok: "arp_ok s qs" and cl: "clients_ok s" and c: "client s n ni a" and k: "kin ni ni'"
    and s': "netifs s' = (netifs s)(n \<mapsto> ni')" "autoips s' = (autoips s)(autoip_data ni \<mapsto> a')" "performed nc log fs s s'"
  shows "arp_ok s' qs" "clients_ok s'"
proof -
  have "netif_list s' = netif_list s" using s'(3) by (simp add: performed_def)
  note ch = client_change [OF cl c k s'(2,1) this]
  show "clients_ok s'" by (rule ch(1))
  show "arp_ok s' qs" by (rule performed_ok [OF s'(3) ch(2) ok])
qed

lemma autoip_step_law:
  assumes st: "setting nc" and ok: "arp_ok s qs" and cl: "clients_ok s"
    and e: "e \<in> {Autoip_tmr, Autoip_start n, Autoip_stop n, Autoip_changed n}" "arp_allowed e (nc, s)"
  shows "\<exists>s' qs'. arp_step e (nc, s) = ret (nc, s') \<and> arp_ok s' qs' \<and> clients_ok s'"
proof -
  let ?log = "\<lambda>_. [] :: frames"
  note inv = arp_okD(2) [OF ok]
  have op: ?thesis if "arp_step e (nc, s) = ret (nc, s')" "client s n ni a" "kin ni ni'" "netifs s' = (netifs s)(n \<mapsto> ni')"
    "autoips s' = (autoips s)(autoip_data ni \<mapsto> a')" "performed nc ?log fs s s'" for s' ni a ni' a' fs
    using that autoip_op_ok [OF ok cl that(2-6)] by blast
  from e(1) consider "e = Autoip_tmr" | "e = Autoip_start n" | "e = Autoip_stop n" | "e = Autoip_changed n" by blast
  then show ?thesis
  proof cases
    case 1
    obtain s' where s': "autoip_tmr_loop nc (netif_list s) s = ret s'" "clients_ok s'" "netifs_kin s s'"
      "performed nc ?log (concat (map (\<lambda>n. frames_of n (view s n)) (netif_list s))) s s'"
      using tmr_loop_ok [OF st inv cl subset_refl clients_okD(1) [OF cl], of ?log] by blast
    then show ?thesis using 1 performed_ok [OF s'(4,3) ok] by (auto simp: autoip_tmr_def)
  next
    case 2
    then obtain ni a where c: "client s n ni a" "netif_is_up ni" using e(2) by auto
    obtain s' where s': "autoip_start nc n s = ret (ERR_OK, s')" "netifs s' = (netifs s)(n \<mapsto> unconfigured ni)"
      "autoips s' = (autoips s)(autoip_data ni \<mapsto> started ni a)" "performed nc ?log [] s s'"
      using start_ok [OF st inv c, of ?log] by blast
    have "arp_step e (nc, s) = ret (nc, s')" using 2 s'(1) by simp
    from op [OF this c(1) _ s'(2-4)] show ?thesis by (simp add: unconfigured_def)
  next
    case 3
    then obtain ni a where c: "client s n ni a" using e(2) by auto
    let ?ni = "if ip4_addr_islinklocal (ip_addr ni) then unconfigured ni else ni"
    obtain s' where s': "autoip_stop nc n s = ret (ERR_OK, s')" "netifs s' = (netifs s)(n \<mapsto> ?ni)"
      "autoips s' = (autoips s)(autoip_data ni \<mapsto> a\<lparr>ai_state := AUTOIP_STATE_OFF\<rparr>)" "performed nc ?log [] s s'"
      using stop_ok [OF st inv c, of ?log] by blast
    have "arp_step e (nc, s) = ret (nc, s')" using 3 s'(1) by simp
    from op [OF this c _ s'(2-4)] show ?thesis by (simp add: unconfigured_def)
  next
    case 4
    then obtain ni a where c: "client s n ni a" using e(2) by auto
    let ?s = "aput (autoip_data ni) (probing ni a) s"
    have "netifs ?s = (netifs s)(n \<mapsto> ni)" using ether_nget(3) [OF clientD(1) [OF c]] by (simp add: map_upd_triv)
    from autoip_op_ok [OF ok cl c kin_refl this, of "probing ni a" nc ?log "[]"] have "arp_ok ?s qs" "clients_ok ?s"
      using performed_refl [OF inv, of nc ?log] by simp_all
    then show ?thesis using 4 network_changed_ok [OF c] ok cl by (auto split: if_splits)
  qed
qed

lemma arp_step_law:
  assumes "arp_machine_inv w" "arp_allowed e w"
  shows "\<exists>w'. arp_step e w = ret w' \<and> arp_machine_inv w'"
proof -
  obtain nc s where w: "w = (nc, s)" by (cases w)
  obtain transmit qs where drv: "driver nc transmit" and qt: "quiet nc" and ok: "arp_ok s qs" and cl: "clients_ok s"
    using assms(1) by (auto simp: w arp_inv_def)
  have fin: "\<exists>w'. ret (nc, s') = ret w' \<and> arp_machine_inv w'" if "arp_ok s' qs'" "clients_ok s'" for s' qs'
    using that drv qt by (auto simp: arp_inv_def)
  have fin': "\<exists>w'. ret (nc, s') = ret w' \<and> arp_machine_inv w'" if "arp_ok s' qs'" "links s' = links s" for s' qs'
    using fin [OF that(1)] clients_links [OF that(2) cl] by blast
  have st: "setting nc" using drv qt by (auto simp: setting_def quiet_def)
  show ?thesis
  proof (cases e)
    case Arp_tmr
    obtain s' qs' where "etharp_tmr nc s = ret s'" "arp_ok s' qs'" "links s' = links s" using tmr_ok [OF drv ok] unfolding evolved_def by blast
    then show ?thesis using Arp_tmr fin' by (simp add: w)
  next
    case (Arp_cleanup n)
    obtain s' qs' where "etharp_cleanup_netif n s = ret s'" "arp_ok s' qs'" "links s' = links s" using cleanup_ok [OF ok, of n] unfolding evolved_def by blast
    then show ?thesis using Arp_cleanup fin' by (simp add: w)
  next
    case (Arp_request n a)
    then obtain ni where ni: "ether_netif s n ni" using assms(2) by (auto simp: w)
    obtain r s' where s': "etharp_request nc n a s = ret (r, s')" "restored s s'"
      using etharp_request_ok [OF drv arp_okD(2) [OF ok] ni, of ethbroadcast a] by (auto simp: etharp_request_def ethbroadcast_def)
    have "links s' = links s" using s'(2) by (simp add: restored_def)
    then show ?thesis using Arp_request s'(1) fin' [OF restored_ok [OF ok s'(2)]] by (simp add: w)
  next
    case (Arp_query n a q)
    then obtain ni xs where q: "ether_netif s n ni" "q = 0 \<or> ready s qs q xs" using assms(2) own_ready [OF ok, of q] by (auto simp: w)
    obtain r s' qs' where "etharp_query nc n a q s = ret (r, s')" "arp_ok s' qs'" "links s' = links s" using query_ok [OF drv ok q, of a] by blast
    then show ?thesis using Arp_query fin' by (simp add: w)
  next
    case (Arp_output n q a)
    then obtain ni xs where q: "ether_netif s n ni" "ready s qs q xs" using assms(2) own_ready [OF ok, of q] by (auto simp: w)
    obtain r s' qs' where "etharp_output nc n q a s = ret (r, s')" "arp_ok s' qs'" "links s' = links s" using output_ok [OF drv ok q, of a] by blast
    then show ?thesis using Arp_output fin' by (simp add: w)
  next
    case (Arp_input p n)
    then obtain ni xs where q: "ether_netif s n ni" "netif_is_up ni" "ready s qs p xs" using assms(2) own_ready [OF ok, of p] by (auto simp: w)
    obtain s' qs' where "etharp_input nc p n s = ret s'" "arp_ok s' qs'" "clients_ok s'" using input_ok [OF drv qt ok cl q] by blast
    then show ?thesis using Arp_input fin by (simp add: w)
  next
    case Autoip_tmr
    then show ?thesis using autoip_step_law [OF st ok cl, of e] assms(2) fin by (fastforce simp: w)
  next
    case (Autoip_start n)
    then show ?thesis using autoip_step_law [OF st ok cl, of e n] assms(2) fin by (fastforce simp: w)
  next
    case (Autoip_stop n)
    then show ?thesis using autoip_step_law [OF st ok cl, of e n] assms(2) fin by (fastforce simp: w)
  next
    case (Autoip_changed n)
    then show ?thesis using autoip_step_law [OF st ok cl, of e n] assms(2) fin by (fastforce simp: w)
  qed
qed

interpretation arp: run_machine arp_step arp_machine_inv arp_allowed
  by unfold_locales (rule arp_step_law)



end
