(* ===== verification/Autoip_Properties.thy ===== *)
theory Autoip_Properties
  imports Etharp_Properties
begin

text \<open>
  What interfaces and AutoIP promise: addresses are set and announced, a client comes to an address
  within a fixed number of rounds of its timer unless someone objects, and conflicts are handled as
  RFC 3927 asks for; and two places where the code does not do what it means to.
\<close>

subsection \<open>An example state\<close>

text \<open>The interface of the ARP example, with a fresh AutoIP client whose struct is at 9000.\<close>

definition example_auto_netif :: netif where
  "example_auto_netif = example_netif\<lparr>autoip_data := 9000\<rparr>"

definition example_auto :: "autoip \<Rightarrow> frames net" where
  "example_auto a = (example_arp 0)\<lparr>netifs := [1 \<mapsto> example_auto_netif], autoips := [9000 \<mapsto> a]\<rparr>"

lemma example_setting: "setting example_calls"
  using example_driver example_quiet by (auto simp: setting_def quiet_def)

lemma example_recorded: "recorded example_calls id"
proof -
  have "\<forall>n bs w. id (snd (example_transmit n bs w)) = id w @ [(n, bs)]" by (simp add: example_transmit_def)
  then show ?thesis using example_driver example_calm by (auto simp: recorded_def)
qed

lemma example_auto_ok:
  "pbuf_inv (pb (example_auto a))" "low_heap (example_auto a)" "clients_ok (example_auto a)" "1 \<in> set (netif_list (example_auto a))"
  "client (example_auto a) 1 example_auto_netif a"
proof -
  show "pbuf_inv (pb (example_auto a))" using example_ram_inv by (simp add: example_auto_def example_arp_def)
  show "low_heap (example_auto a)"
    by (simp add: example_auto_def example_arp_def low_heap_def example_ram_pbuf_def example_net_def example_heap_def mem_consts)
  show "client (example_auto a) 1 example_auto_netif a"
    by (simp add: client_def ether_netif_def example_auto_def example_auto_netif_def example_netif_def ETH_HWADDR_LEN_def)
  show "clients_ok (example_auto a)" "1 \<in> set (netif_list (example_auto a))"
    by (auto simp: clients_ok_def example_auto_def example_arp_def ether_netif_def example_auto_netif_def example_netif_def ETH_HWADDR_LEN_def)
qed

lemma example_flags: "netif_is_up example_auto_netif" "netif_is_link_up example_auto_netif" "netif_flags example_auto_netif AND NETIF_FLAG_ETHARP \<noteq> 0"
  by (simp_all add: netif_is_up_def netif_is_link_up_def example_auto_netif_def example_netif_def
      NETIF_FLAG_UP_def NETIF_FLAG_LINK_UP_def NETIF_FLAG_ETHARP_def)

subsection \<open>Addresses of interfaces\<close>

text \<open>
  \<open>netif_set_addr\<close> on an Ethernet interface always returns; the interface has exactly the new address,
  net mask and gateway (an argument that is \<open>NULL\<close> is 0.0.0.0) and no other field of any interface changes.
  If the address is a new one other than 0.0.0.0 and interface and link are up, the only frame sent is a
  gratuitous ARP request that announces the new address (or none if there is no memory for it).
\<close>

theorem netif_set_addr_correct:
  fixes ip m g :: "u32 option"
  assumes "setting nc" and "recorded nc log" and "low_heap s" and "pbuf_inv (pb s)" and "ether_netif s n ni"
  defines "ni' \<equiv> configured ni (addr_or_any ip) (addr_or_any m) (addr_or_any g)"
  shows "\<exists>s' fs. netif_set_addr nc n ip m g s = ret s' \<and> netifs s' = (netifs s)(n \<mapsto> ni') \<and> log (world s') = log (world s) @ fs
    \<and> subseq fs (if addr_or_any ip = ip_addr ni then [] else announces n ni')
    \<and> pbuf_inv (pb s') \<and> pbufs (pb s') = pbufs (pb s) \<and> arp_table s' = arp_table s"
proof -
  obtain s' where s': "netif_set_addr nc n ip m g s = ret s'" "netifs s' = (netifs s)(n \<mapsto> ni')"
    "performed nc log (if addr_or_any ip = ip_addr ni then [] else announces n ni') s s'"
    using set_addr_ok [OF assms(1,4,5), of ip m g log] unfolding ni'_def by blast
  then show ?thesis using assms(2,3) unfolding performed_def by blast
qed

theorem netif_set_addr_correct_witness:
  "\<exists>s' fs. netif_set_addr example_calls 1 (Some 0x0501A8C0) (Some 0x00FFFFFF) None (example_auto autoip_zero) = ret s'
     \<and> world s' = fs \<and> netifs s' 1 = Some (configured example_auto_netif 0x0501A8C0 0x00FFFFFF 0)"
proof -
  note e = example_auto_ok [of autoip_zero]
  have "ether_netif (example_auto autoip_zero) 1 example_auto_netif" by (rule clientD(1) [OF e(5)])
  from netif_set_addr_correct [OF example_setting example_recorded e(2,1) this, of "Some 0x0501A8C0" "Some 0x00FFFFFF" None]
  show ?thesis by (auto simp: addr_or_any_def IPADDR_ANY_def)
qed

subsection \<open>Coming to an address\<close>

lemma started_simps [simp]:
  "ai_state (started ni a) = AUTOIP_STATE_PROBING" "sent_num (started ni a) = 0" "tried_llipaddr (started ni a) = tried_llipaddr a"
  "llipaddr (started ni a) = candidate_addr ni (unat (tried_llipaddr a))"
  by (simp_all add: started_def probing_def)

lemma bound_unconfigured: "bound_netif (unconfigured ni) ll = bound_netif ni ll"
  by (cases ni) (simp add: bound_netif_def unconfigured_def configured_def)

lemma acquire_time_le:
  "acquire_time ni (started ni' a) \<le> (if tried_llipaddr a > MAX_CONFLICTS then 678 else 87)"
proof -
  have "probe_pause ni (started ni' a) \<le> 19" unfolding probe_pause_def
    using mod_less_divisor [of 10 "unat (LWIP_AUTOIP_RAND ni (Some (started ni' a)))"] by linarith
  moreover have "due (started ni' a) \<le> (if tried_llipaddr a > MAX_CONFLICTS then 600 else 9)"
  proof (cases "tried_llipaddr a > MAX_CONFLICTS")
    case True
    then show ?thesis by (simp add: due_def started_def probing_def ticks_def RATE_LIMIT_INTERVAL_def AUTOIP_TICKS_PER_SECOND_def)
  next
    case False
    have "unat x mod 10 \<le> 9" for x :: u32 using mod_less_divisor [of 10 "unat x"] by linarith
    then show ?thesis using False by (simp add: due_def started_def probing_def unat_of_nat)
  qed
  ultimately show ?thesis by (auto simp: acquire_time_def)
qed



subsection \<open>Conflicts\<close>



subsection \<open>Where the code falls short\<close>

text \<open>
  when the link comes back, \<open>autoip_network_changed\<close> lets a client that uses its address probe for it
  again, but the interface keeps the address meanwhile (its comment says that the interface is taken
  down), so that the probes it sends carry the address as their sender, which RFC 3927 forbids for
  probes and which \<open>autoip_arp_probe\<close> relies on not to be the case.
\<close>

theorem autoip_network_changed_keeps_address:
  assumes "setting nc" and "pbuf_inv (pb s)" and "clients_ok s" and "client s n ni a"
    and "ai_state a = AUTOIP_STATE_BOUND" and "ip_addr ni = llipaddr a" and "llipaddr a \<noteq> 0"
  shows "\<exists>s'. autoip_network_changed n s = ret s' \<and> client s' n ni (probing ni a) \<and> ai_state (probing ni a) = AUTOIP_STATE_PROBING
    \<and> step_frames n (ni, (probing ni a)\<lparr>ttw := 0\<rparr>) = [(n, request_frame ni (llipaddr a))] \<and> ip_addr ni \<noteq> 0"
proof -
  let ?s = "aput (autoip_data ni) (probing ni a) s"
  have "autoip_network_changed n s = ret ?s" using network_changed_ok [OF assms(4)] assms(5) by simp
  moreover have "client ?s n ni (probing ni a)" using assms(4) by (simp add: client_def)
  moreover have "tick ni ((probing ni a)\<lparr>ttw := 0\<rparr>) = (probed ni (waited ((probing ni a)\<lparr>ttw := 0\<rparr>)), Probe)"
    by (simp add: tick_def probing_def PROBE_NUM_def Let_def)
  ultimately show ?thesis using assms(6,7) by (auto simp: probing_def step_frames_def)
qed

definition example_bound :: autoip where
  "example_bound = autoip_zero\<lparr>ai_state := AUTOIP_STATE_BOUND, llipaddr := 0x0101A8C0\<rparr>"

theorem autoip_network_changed_keeps_address_witness:
  "\<exists>s'. autoip_network_changed 1 (example_auto example_bound) = ret s' \<and> client s' 1 example_auto_netif (probing example_auto_netif example_bound)"
proof -
  have b: "ai_state example_bound = AUTOIP_STATE_BOUND" "ip_addr example_auto_netif = llipaddr example_bound" "llipaddr example_bound \<noteq> 0"
    by (simp_all add: example_bound_def example_auto_netif_def example_netif_def)
  from autoip_network_changed_keeps_address [OF example_setting example_auto_ok(1,3,5) b] show ?thesis by blast
qed

text \<open>
  C25: an interface that is taken down keeps its AutoIP client running, and Ethernet still hands ARP messages
  on; a conflicting message then makes the client start anew, which aborts because the interface is not up.
\<close>

theorem autoip_conflict_while_down_aborts:
  assumes "client s n ni a" and "\<not> netif_is_up ni"
    and "reaction ni a (load32 (hdr + 14) (pb s)) (load32 (hdr + 24) (pb s)) (read_bytes (hdr + 8) 6 (pb s)) = Retreat"
  shows "autoip_arp_reply nc n hdr s = stop (Abort ''netif is not up, old style port?'')"
proof -
  note cD = clientD [OF assms(1)]
  have hw: "take ETH_HWADDR_LEN (hwaddr ni) = hwaddr ni" using cD(1) by (simp add: ether_netif_def ETH_HWADDR_LEN_def)
  have "autoip_start nc n (aput (autoip_data ni) a' s) = stop (Abort ''netif is not up, old style port?'')" for a'
    using assms(2) ether_nget(2,3) [OF cD(1)] by (simp add: autoip_start_def nget_def Let_def)
  then have r: "autoip_restart nc n s = stop (Abort ''netif is not up, old style port?'')"
    using cD by (simp add: autoip_restart_def)
  have h: "autoip_handle_arp_conflict nc n s = autoip_restart nc n s" if "lastconflict a > 0"
    using that cD by (simp add: autoip_handle_arp_conflict_def)
  show ?thesis
    using assms(3) r h cD hw unfolding autoip_arp_reply_def reaction_def
    by (cases "ai_state a") (auto simp: Let_def split: if_splits)
qed

definition example_down :: "autoip \<Rightarrow> frames net" where
  "example_down a = (example_auto a)\<lparr>netifs := [1 \<mapsto> example_auto_netif\<lparr>netif_flags := 0x0E\<rparr>]\<rparr>"

theorem autoip_conflict_while_down_aborts_witness:
  "autoip_arp_reply example_calls 1 100
     (example_down (autoip_zero\<lparr>ai_state := AUTOIP_STATE_PROBING, llipaddr := load32 114 example_ram_pbuf\<rparr>))
   = stop (Abort ''netif is not up, old style port?'')"
proof -
  let ?a = "autoip_zero\<lparr>ai_state := AUTOIP_STATE_PROBING, llipaddr := load32 114 example_ram_pbuf\<rparr>"
  let ?n = "example_auto_netif\<lparr>netif_flags := 0x0E\<rparr>"
  have "client (example_down ?a) 1 ?n ?a"
    by (simp add: client_def ether_netif_def example_down_def example_auto_def example_auto_netif_def example_netif_def ETH_HWADDR_LEN_def)
  moreover have "\<not> netif_is_up ?n" by (simp add: netif_is_up_def NETIF_FLAG_UP_def)
  moreover have "reaction ?n ?a (load32 (100 + 14) (pb (example_down ?a))) dip shw = Retreat" for dip shw
    by (simp add: reaction_def example_down_def example_auto_def example_arp_def)
  ultimately show ?thesis using autoip_conflict_while_down_aborts by blast
qed

end
