(* ===== verification/Netif_Admin.thy ===== *)
theory Netif_Admin
  imports Etharp_Properties
begin

text \<open>
  Administration of network interfaces, the rest of \<open>core/netif.c\<close> for IPv4: adding an interface and
  giving it a number, bringing interface and link up and down, the default interface and the lookup by
  index. The fields of \<open>struct netif\<close> for IPv6, and its function pointers, are not part of the model.
\<close>

definition NETIF_NO_INDEX :: nat where "NETIF_NO_INDEX = 0"

subsection \<open>Adding an interface\<close>

text \<open>The inner loop: does an interface of the list have this number?\<close>

fun num_taken :: "nat \<Rightarrow> nat \<Rightarrow> nat \<Rightarrow> nat list \<Rightarrow> 'w net \<Rightarrow> bool run" where
  "num_taken netif num num_netifs [] s = ret False"
| "num_taken netif num num_netifs (netif2 # ns) s =
     lwip_assert ''netif already added'' (netif2 \<noteq> netif)
      (let num_netifs = num_netifs + 1 in
       lwip_assert ''too many netifs, max. supported number is 255'' (num_netifs \<le> 255)
        (bind_run (nget netif2 s) (\<lambda>ni2.
          if netif_num ni2 = num then ret True else num_taken netif num num_netifs ns s)))"

text \<open>The \<open>do\<close> loop around it looks for a number that is not taken.\<close>

partial_function (option) assign_num :: "nat \<Rightarrow> nat \<Rightarrow> 'w net \<Rightarrow> nat run" where
  "assign_num netif num s =
     (let num = (if num = 255 then 0 else num) in
      bind_run (num_taken netif num 0 (netif_list s) s) (\<lambda>taken.
        if taken then assign_num netif (U8 (num + 1)) s else ret num))"

text \<open>The driver's \<open>init\<close> is an argument, as are the addresses, which may be \<open>NULL\<close>. The result is the interface or 0.\<close>

definition netif_add ::
  "'w net_calls \<Rightarrow> (nat \<Rightarrow> 'w net \<Rightarrow> (err_t \<times> 'w net) run) option \<Rightarrow> nat \<Rightarrow> u32 option \<Rightarrow> u32 option \<Rightarrow> u32 option \<Rightarrow> 'w net \<Rightarrow> (nat \<times> 'w net) run" where
  "netif_add nc init netif ipaddr m g s =
     lwip_assert ''netif_add: invalid netif'' (netif \<noteq> 0)
      (lwip_assert ''netif_add: No init function given'' (init \<noteq> None)
       (bind_run (nget netif s) (\<lambda>ni.
          let s = nput netif (ni\<lparr>ip_addr := 0, netmask := 0, gw := 0, mtu := 0, netif_flags := 0, autoip_data := 0\<rparr>) s
          in bind_run (nd6_restart_netif nc netif s) (\<lambda>s.
             bind_run (nget netif s) (\<lambda>ni.
             let s = nput netif (ni\<lparr>netif_num := next_netif_num s\<rparr>) s
             in bind_run (netif_set_addr nc netif ipaddr m g s) (\<lambda>s.
                bind_run (the init netif s) (\<lambda>(err, s).
                  if err \<noteq> ERR_OK then ret (0, s)
                  else
                    bind_run (nget netif s) (\<lambda>ni.
                    bind_run (assign_num netif (netif_num ni) s) (\<lambda>num.
                      let s = nput netif (ni\<lparr>netif_num := num\<rparr>) s;
                          s = s\<lparr>next_netif_num := if num = 254 then 0 else num + 1\<rparr>;
                          s = s\<lparr>netif_list := netif # netif_list s\<rparr>
                      in bind_run (if netif_flags ni AND NETIF_FLAG_IGMP \<noteq> 0 then igmp_start nc netif s else ret s) (\<lambda>s.
                         ret (netif, s)))))))))))"

definition netif_add_noaddr ::
  "'w net_calls \<Rightarrow> (nat \<Rightarrow> 'w net \<Rightarrow> (err_t \<times> 'w net) run) option \<Rightarrow> nat \<Rightarrow> 'w net \<Rightarrow> (nat \<times> 'w net) run" where
  "netif_add_noaddr nc init netif s = netif_add nc init netif None None None s"

subsection \<open>Up and down\<close>

definition netif_set_default :: "nat \<Rightarrow> 'w net \<Rightarrow> 'w net" where
  "netif_set_default netif s = s\<lparr>netif_default := netif\<rparr>"

definition netif_set_up :: "'w net_calls \<Rightarrow> nat \<Rightarrow> 'w net \<Rightarrow> 'w net run" where
  "netif_set_up nc netif s =
     lwip_assert ''netif_set_up: invalid netif'' (netif \<noteq> 0)
      (bind_run (nget netif s) (\<lambda>ni.
        if netif_flags ni AND NETIF_FLAG_UP = 0 then
          let s = nput netif (ni\<lparr>netif_flags := netif_flags ni OR NETIF_FLAG_UP\<rparr>) s
          in bind_run (netif_issue_reports nc netif (NETIF_REPORT_TYPE_IPV4 OR NETIF_REPORT_TYPE_IPV6) s) (\<lambda>s.
             nd6_restart_netif nc netif s)
        else ret s))"

definition netif_set_down :: "'w net_calls \<Rightarrow> nat \<Rightarrow> 'w net \<Rightarrow> 'w net run" where
  "netif_set_down nc netif s =
     lwip_assert ''netif_set_down: invalid netif'' (netif \<noteq> 0)
      (bind_run (nget netif s) (\<lambda>ni.
        if netif_flags ni AND NETIF_FLAG_UP \<noteq> 0 then
          let s = nput netif (ni\<lparr>netif_flags := netif_flags ni AND NOT NETIF_FLAG_UP\<rparr>) s
          in bind_run (if netif_flags ni AND NOT NETIF_FLAG_UP AND NETIF_FLAG_ETHARP \<noteq> 0 then etharp_cleanup_netif netif s else ret s) (\<lambda>s.
             nd6_cleanup_netif nc netif s)
        else ret s))"

definition netif_set_link_up :: "'w net_calls \<Rightarrow> nat \<Rightarrow> 'w net \<Rightarrow> 'w net run" where
  "netif_set_link_up nc netif s =
     lwip_assert ''netif_set_link_up: invalid netif'' (netif \<noteq> 0)
      (bind_run (nget netif s) (\<lambda>ni.
        if netif_flags ni AND NETIF_FLAG_LINK_UP = 0 then
          let s = nput netif (ni\<lparr>netif_flags := netif_flags ni OR NETIF_FLAG_LINK_UP\<rparr>) s
          in bind_run (dhcp_network_changed nc netif s) (\<lambda>s.
             bind_run (autoip_network_changed netif s) (\<lambda>s.
             bind_run (netif_issue_reports nc netif (NETIF_REPORT_TYPE_IPV4 OR NETIF_REPORT_TYPE_IPV6) s) (\<lambda>s.
             nd6_restart_netif nc netif s)))
        else ret s))"

definition netif_set_link_down :: "nat \<Rightarrow> 'w net \<Rightarrow> 'w net run" where
  "netif_set_link_down netif s =
     lwip_assert ''netif_set_link_down: invalid netif'' (netif \<noteq> 0)
      (bind_run (nget netif s) (\<lambda>ni.
        if netif_flags ni AND NETIF_FLAG_LINK_UP \<noteq> 0 then
          ret (nput netif (ni\<lparr>netif_flags := netif_flags ni AND NOT NETIF_FLAG_LINK_UP\<rparr>) s)
        else ret s))"

subsection \<open>Index\<close>

definition netif_get_index :: "netif \<Rightarrow> nat" where
  "netif_get_index ni = U8 (netif_num ni + 1)"

fun get_by_index_loop :: "nat \<Rightarrow> nat list \<Rightarrow> 'w net \<Rightarrow> nat run" where
  "get_by_index_loop idx [] s = ret 0"
| "get_by_index_loop idx (n # ns) s =
     bind_run (nget n s) (\<lambda>ni. if idx = netif_get_index ni then ret n else get_by_index_loop idx ns s)"

definition netif_get_by_index :: "nat \<Rightarrow> 'w net \<Rightarrow> nat run" where
  "netif_get_by_index idx s = (if idx \<noteq> NETIF_NO_INDEX then get_by_index_loop idx (netif_list s) s else ret 0)"

subsection \<open>Numbers of interfaces\<close>

definition num_of :: "'w net \<Rightarrow> nat \<Rightarrow> nat" where
  "num_of s n = (case netifs s n of None \<Rightarrow> 0 | Some ni \<Rightarrow> netif_num ni)"

text \<open>The interfaces of the list exist and have different numbers up to 254.\<close>

definition numbered :: "'w net \<Rightarrow> bool" where
  "numbered s \<longleftrightarrow> distinct (netif_list s) \<and> 0 \<notin> set (netif_list s) \<and> (\<forall>n\<in>set (netif_list s). netifs s n \<noteq> None)
     \<and> num_of s ` set (netif_list s) \<subseteq> {..<255} \<and> inj_on (num_of s) (set (netif_list s))"

lemma num_taken_spec:
  assumes "netif \<notin> set ns" "k + length ns \<le> 255" "0 \<notin> set ns" "\<forall>n\<in>set ns. netifs s n \<noteq> None"
  shows "num_taken netif num k ns s = ret (num \<in> num_of s ` set ns)"
  using assms
proof (induction ns arbitrary: k)
  case (Cons n ns)
  then obtain ni where ni: "netifs s n = Some ni" "nget n s = ret ni" by (auto simp: nget_def)
  have "num_taken netif num (k + 1) ns s = ret (num \<in> num_of s ` set ns)" using Cons by simp
  then show ?case using Cons.prems ni by (auto simp: num_of_def [of s n])
qed simp

lemma numbered_taken:
  assumes "numbered s" "netif \<notin> set (netif_list s)"
  shows "num_taken netif num 0 (netif_list s) s = ret (num \<in> num_of s ` set (netif_list s))"
proof (rule num_taken_spec)
  have "length (netif_list s) = card (num_of s ` set (netif_list s))"
    using assms(1) by (simp add: numbered_def card_image distinct_card)
  also have "\<dots> \<le> card {..<255 :: nat}" using assms(1) by (intro card_mono) (simp_all add: numbered_def)
  finally show "0 + length (netif_list s) \<le> 255" by simp
qed (use assms in \<open>auto simp: numbered_def\<close>)

text \<open>One round of the loop: the number is free, or the next one is tried, 0 after 254.\<close>

lemma assign_step:
  assumes "numbered s" "netif \<notin> set (netif_list s)" "num < 256"
  defines "m \<equiv> if num = 255 then 0 else num"
  shows "assign_num netif num s = (if m \<in> num_of s ` set (netif_list s) then assign_num netif (m + 1) s else ret m)"
proof -
  have "m < 255" using assms(3) by (simp add: m_def)
  then show ?thesis
    by (subst assign_num.simps) (simp add: Let_def m_def [symmetric] numbered_taken [OF assms(1,2)] U8_def)
qed

text \<open>The search goes on to the next free number \<open>f\<close>, after at most 255 rounds.\<close>

lemma assign_num_ok:
  assumes s: "numbered s" "netif \<notin> set (netif_list s)" and f: "f < 255" "f \<notin> num_of s ` set (netif_list s)" and num: "num < 256"
  shows "\<exists>m. assign_num netif num s = ret m \<and> m < 255 \<and> m \<notin> num_of s ` set (netif_list s)"
  using num
proof (induction "(f + 255 - (if num = 255 then 0 else num)) mod 255" arbitrary: num rule: less_induct)
  case less
  define m where "m = (if num = 255 then 0 else num)"
  have m: "m < 255" using less.prems by (simp add: m_def)
  note step = assign_step [OF s less.prems, folded m_def]
  show ?case
  proof (cases "m \<in> num_of s ` set (netif_list s)")
    case False
    then show ?thesis using step m by auto
  next
    case True
    then have "m \<noteq> f" using f(2) by blast
    define k where "k = (if m + 1 = 255 then 0 else m + 1)"
    have "(f + 255 - k) mod 255 < (f + 255 - m) mod 255"
    proof (cases "m < f")
      case True
      then have "(f + 255 - m) mod 255 = f - m" "(f + 255 - k) mod 255 = f - (m + 1)"
        using f(1) by (simp_all add: k_def le_mod_geq)
      then show ?thesis using True by simp
    next
      case False
      then have "f < m" using \<open>m \<noteq> f\<close> by simp
      then have "(f + 255 - m) mod 255 = f + 255 - m" using m by simp
      moreover have "(f + 255 - k) mod 255 = f + 254 - m" using m \<open>f < m\<close> by (auto simp: k_def le_mod_geq)
      ultimately show ?thesis using m by simp
    qed
    from less.hyps [of "m + 1"] this show ?thesis using step True m by (simp add: k_def m_def [symmetric])
  qed
qed

text \<open>When all numbers are taken it goes on forever.\<close>

lemma assign_num_forever:
  assumes "numbered s" "netif \<notin> set (netif_list s)" "num_of s ` set (netif_list s) = {..<255}" "num < 256"
  shows "assign_num netif num s = None"
proof -
  have "False" if "assign_num netif num s = Some r" for r
    using that assms
  proof (induction netif num s r rule: assign_num.raw_induct [rotated, consumes 1, case_names body])
    case (body f netif num s r)
    note p = body.prems
    have m: "(if num = 255 then 0 else num) < 255" using p(4) by auto
    have "f netif (U8 ((if num = 255 then 0 else num) + 1)) s = Some r"
      using body.hyps p(3) m unfolding Let_def numbered_taken [OF p(1,2)] by simp
    from body.IH [OF this p(1-3)] show False by (simp add: U8_def)
  qed
  then show ?thesis by (cases "assign_num netif num s") auto
qed

subsection \<open>Adding an interface always gives it a number of its own\<close>

text \<open>The address of an interface that is not up is set without a word on the link.\<close>

lemma set_ipaddr_down:
  assumes "calm nc" "n \<noteq> 0" "netifs s n = Some ni" "netif_flags ni = 0"
  shows "\<exists>r w. netif_do_set_ipaddr nc n a s = ret (r, (nput n (ni\<lparr>ip_addr := a\<rparr>) s)\<lparr>world := w\<rparr>)"
proof (cases "a = ip_addr ni")
  case True
  then have "netif_do_set_ipaddr nc n a s = ret (False, s)" using assms(2,3) by (simp add: netif_do_set_ipaddr_def nget_def)
  moreover have "s = (nput n (ni\<lparr>ip_addr := a\<rparr>) s)\<lparr>world := world s\<rparr>" using True assms(3) by (simp add: nput_def map_upd_triv)
  ultimately show ?thesis by metis
next
  case False
  have k: "keeps_to_itself (tcp_netif_ip_addr_changed nc b c) (\<lambda>_. ())" "keeps_to_itself (udp_netif_ip_addr_changed nc b c) (\<lambda>_. ())" for b c
    using assms(1) by (simp_all add: calm_def all_keep_def)
  obtain w where w: "tcp_netif_ip_addr_changed nc (ip_addr ni) (Some a) s = ret (s\<lparr>world := w\<rparr>)" using k(1) unfolding keeps_to_itself_def by blast
  obtain v where v: "udp_netif_ip_addr_changed nc (ip_addr ni) (Some a) (s\<lparr>world := w\<rparr>) = ret (s\<lparr>world := w, world := v\<rparr>)"
    using k(2) unfolding keeps_to_itself_def by blast
  let ?s = "nput n (ni\<lparr>ip_addr := a\<rparr>) (s\<lparr>world := v\<rparr>)"
  have "netif_issue_reports nc n NETIF_REPORT_TYPE_IPV4 ?s = ret ?s"
    using assms(2,4) by (simp add: netif_issue_reports_def nget_def netif_is_link_up_def)
  then have "netif_do_set_ipaddr nc n a s = ret (True, ?s)"
    using False assms(2,3) w v by (simp add: netif_do_set_ipaddr_def netif_do_ip_addr_changed_def nget_def)
  moreover have "?s = (nput n (ni\<lparr>ip_addr := a\<rparr>) s)\<lparr>world := v\<rparr>" by (simp add: nput_def)
  ultimately show ?thesis by metis
qed

lemma set_addr_down:
  fixes ip m g :: "u32 option"
  assumes c: "calm nc" and n: "n \<noteq> 0" "netifs s n = Some ni" "netif_flags ni = 0"
  defines "ni' \<equiv> configured ni (addr_or_any ip) (addr_or_any m) (addr_or_any g)"
  shows "\<exists>w. netif_set_addr nc n ip m g s = ret ((nput n ni' s)\<lparr>world := w\<rparr>)"
proof -
  let ?a = "addr_or_any ip" and ?m = "addr_or_any m" and ?g = "addr_or_any g"
  have mask: "\<exists>r. netif_do_set_netmask n ?m t = ret (r, nput n (ti\<lparr>netmask := ?m\<rparr>) t)" if "netifs t n = Some ti" for t :: "'a net" and ti
    using that n(1) by (auto simp: netif_do_set_netmask_def nget_def nput_def map_upd_triv)
  have gate: "\<exists>r. netif_do_set_gw n ?g t = ret (r, nput n (ti\<lparr>gw := ?g\<rparr>) t)" if "netifs t n = Some ti" for t :: "'a net" and ti
    using that n(1) by (auto simp: netif_do_set_gw_def nget_def nput_def map_upd_triv)
  show ?thesis
  proof (cases "?a = IPADDR_ANY")
    case True
    obtain r w where 1: "netif_do_set_ipaddr nc n ?a s = ret (r, (nput n (ni\<lparr>ip_addr := ?a\<rparr>) s)\<lparr>world := w\<rparr>)"
      using set_ipaddr_down [OF c n] by blast
    let ?s1 = "(nput n (ni\<lparr>ip_addr := ?a\<rparr>) s)\<lparr>world := w\<rparr>"
    obtain r2 where 2: "netif_do_set_netmask n ?m ?s1 = ret (r2, nput n (ni\<lparr>ip_addr := ?a, netmask := ?m\<rparr>) ?s1)" using mask [of ?s1] by auto
    obtain r3 where "netif_do_set_gw n ?g (nput n (ni\<lparr>ip_addr := ?a, netmask := ?m\<rparr>) ?s1) = ret (r3, nput n ni' (nput n (ni\<lparr>ip_addr := ?a, netmask := ?m\<rparr>) ?s1))"
      using gate [of "nput n (ni\<lparr>ip_addr := ?a, netmask := ?m\<rparr>) ?s1"] by (auto simp: ni'_def configured_def)
    then have "netif_set_addr nc n ip m g s = ret (nput n ni' (nput n (ni\<lparr>ip_addr := ?a, netmask := ?m\<rparr>) ?s1))"
      using True 1 2 by (simp add: netif_set_addr_def)
    then show ?thesis by (intro exI [of _ w]) (simp add: nput_def)
  next
    case False
    let ?n1 = "ni\<lparr>netmask := ?m\<rparr>" and ?n2 = "ni\<lparr>netmask := ?m, gw := ?g\<rparr>"
    let ?s2 = "nput n ?n2 (nput n ?n1 s)"
    obtain r2 where 2: "netif_do_set_netmask n ?m s = ret (r2, nput n ?n1 s)" using mask [OF n(2)] by blast
    obtain r3 where 3: "netif_do_set_gw n ?g (nput n ?n1 s) = ret (r3, ?s2)" using gate [of "nput n ?n1 s"] by auto
    have n2: "netifs ?s2 n = Some ?n2" "netif_flags ?n2 = 0" using n(3) by simp_all
    obtain r w where "netif_do_set_ipaddr nc n ?a ?s2 = ret (r, (nput n (?n2\<lparr>ip_addr := ?a\<rparr>) ?s2)\<lparr>world := w\<rparr>)"
      using set_ipaddr_down [OF c n(1) n2] by blast
    moreover have "?n2\<lparr>ip_addr := ?a\<rparr> = ni'" by (cases ni) (simp add: ni'_def configured_def)
    ultimately have "netif_set_addr nc n ip m g s = ret ((nput n ni' ?s2)\<lparr>world := w\<rparr>)" using False 2 3 by (simp add: netif_set_addr_def)
    then show ?thesis by (intro exI [of _ w]) (simp add: nput_def)
  qed
qed

text \<open>A driver's \<open>init\<close> fills in the struct of its interface and may change the world.\<close>

definition driver_init :: "(nat \<Rightarrow> 'w net \<Rightarrow> (err_t \<times> 'w net) run) \<Rightarrow> bool" where
  "driver_init init \<longleftrightarrow> (\<forall>n s ni. n \<noteq> 0 \<and> netifs s n = Some ni \<longrightarrow>
     (\<exists>ni' w. init n s = ret (ERR_OK, (nput n ni' s)\<lparr>world := w\<rparr>) \<and> netif_num ni' = netif_num ni))"

definition add_calm :: "'w net_calls \<Rightarrow> bool" where
  "add_calm nc \<longleftrightarrow> calm nc \<and> (\<forall>n. keeps_to_itself (nd6_restart_netif nc n) (\<lambda>_. ()) \<and> keeps_to_itself (igmp_start nc n) (\<lambda>_. ()))"

text \<open>\<open>netif_add\<close> up to the search for a number.\<close>

lemma add_search:
  assumes nc: "add_calm nc" and init: "driver_init init" and n: "n \<noteq> 0" "netifs s n = Some ni"
  shows "\<exists>ni' w. netif_num ni' = next_netif_num s \<and> netif_add nc (Some init) n ip m g s =
    (let t = (nput n ni' s)\<lparr>world := w\<rparr> in
     bind_run (assign_num n (netif_num ni') t) (\<lambda>num.
       let t = nput n (ni'\<lparr>netif_num := num\<rparr>) t;
           t = t\<lparr>next_netif_num := if num = 254 then 0 else num + 1\<rparr>;
           t = t\<lparr>netif_list := n # netif_list t\<rparr>
       in bind_run (if netif_flags ni' AND NETIF_FLAG_IGMP \<noteq> 0 then igmp_start nc n t else ret t) (\<lambda>t. ret (n, t))))"
proof -
  have calm: "calm nc" and k: "keeps_to_itself (nd6_restart_netif nc n) (\<lambda>_. ())" using nc by (simp_all add: add_calm_def)
  let ?n0 = "ni\<lparr>ip_addr := 0, netmask := 0, gw := 0, mtu := 0, netif_flags := 0, autoip_data := 0\<rparr>"
  obtain w1 where w1: "nd6_restart_netif nc n (nput n ?n0 s) = ret ((nput n ?n0 s)\<lparr>world := w1\<rparr>)" using k unfolding keeps_to_itself_def by blast
  let ?n1 = "?n0\<lparr>netif_num := next_netif_num s\<rparr>"
  let ?s1 = "nput n ?n1 ((nput n ?n0 s)\<lparr>world := w1\<rparr>)"
  have s1: "netifs ?s1 n = Some ?n1" "netif_flags ?n1 = 0" by (simp_all add: nput_def)
  let ?n2 = "configured ?n1 (addr_or_any ip) (addr_or_any m) (addr_or_any g)"
  obtain w2 where w2: "netif_set_addr nc n ip m g ?s1 = ret ((nput n ?n2 ?s1)\<lparr>world := w2\<rparr>)"
    using set_addr_down [OF calm n(1) s1] by blast
  let ?s2 = "(nput n ?n2 ?s1)\<lparr>world := w2\<rparr>"
  have "netifs ?s2 n = Some ?n2" by simp
  then obtain n3 w3 where i: "init n ?s2 = ret (ERR_OK, (nput n n3 ?s2)\<lparr>world := w3\<rparr>)" "netif_num n3 = netif_num ?n2"
    using init n(1) unfolding driver_init_def by blast
  have e: "(nput n n3 ?s2)\<lparr>world := w3\<rparr> = (nput n n3 s)\<lparr>world := w3\<rparr>" by (simp add: nput_def)
  have g0: "nget n s = ret ni" "nget n ((nput n ?n0 s)\<lparr>world := w1\<rparr>) = ret ?n0" "nget n ((nput n n3 s)\<lparr>world := w3\<rparr>) = ret n3"
    using n by (simp_all add: nget_def)
  have nn: "next_netif_num ((nput n ?n0 s)\<lparr>world := w1\<rparr>) = next_netif_num s" by simp
  have "netif_num n3 = next_netif_num s" using i(2) by (simp add: configured_def)
  moreover have "netif_add nc (Some init) n ip m g s =
    (let t = (nput n n3 s)\<lparr>world := w3\<rparr> in
     bind_run (assign_num n (netif_num n3) t) (\<lambda>num.
       let t = nput n (n3\<lparr>netif_num := num\<rparr>) t;
           t = t\<lparr>next_netif_num := if num = 254 then 0 else num + 1\<rparr>;
           t = t\<lparr>netif_list := n # netif_list t\<rparr>
       in bind_run (if netif_flags n3 AND NETIF_FLAG_IGMP \<noteq> 0 then igmp_start nc n t else ret t) (\<lambda>t. ret (n, t))))"
    unfolding netif_add_def g0(1) bind_run_ret Let_def w1 g0(2) nn w2 option.sel i(1) prod.case e g0(3)
    using n(1) by simp
  ultimately show ?thesis by blast
qed

text \<open>The struct of an interface that is not in the list does not matter.\<close>

lemma numbered_other:
  assumes "numbered s" "n \<notin> set (netif_list s)"
  shows "numbered ((nput n ni s)\<lparr>world := w\<rparr>)" "n \<notin> set (netif_list ((nput n ni s)\<lparr>world := w\<rparr>))"
    "num_of ((nput n ni s)\<lparr>world := w\<rparr>) ` set (netif_list ((nput n ni s)\<lparr>world := w\<rparr>)) = num_of s ` set (netif_list s)"
proof -
  let ?t = "(nput n ni s)\<lparr>world := w\<rparr>"
  have same: "num_of ?t m = num_of s m" if "m \<in> set (netif_list s)" for m using that assms(2) by (auto simp: num_of_def)
  then have img: "num_of ?t ` set (netif_list s) = num_of s ` set (netif_list s)" by (simp cong: image_cong)
  then show "num_of ?t ` set (netif_list ?t) = num_of s ` set (netif_list s)" by simp
  show "numbered ?t" "n \<notin> set (netif_list ?t)"
    using assms same by (auto simp: numbered_def img inj_on_def)
qed

subsection \<open>An example\<close>

text \<open>\<open>n\<close> interfaces at the addresses from 1 on, with the numbers from 0 on, the next one after them not yet in the list.\<close>

definition example_init :: "nat \<Rightarrow> frames net \<Rightarrow> (err_t \<times> frames net) run" where
  "example_init n s = bind_run (nget n s) (\<lambda>ni.
     ret (ERR_OK, nput n (ni\<lparr>mtu := 1500, netif_flags := NETIF_FLAG_BROADCAST OR NETIF_FLAG_ETHARP OR NETIF_FLAG_IGMP\<rparr>) s))"

definition example_many :: "nat \<Rightarrow> frames net" where
  "example_many n = (example_arp 0)\<lparr>netif_list := [1..<n + 1], next_netif_num := 0,
     netifs := (\<lambda>k. if 0 < k \<and> k \<le> n + 1 then Some (example_netif\<lparr>netif_num := k - 1\<rparr>) else None)\<rparr>"

lemma example_driver_init: "n \<noteq> 0 \<Longrightarrow> netifs s n = Some ni \<Longrightarrow>
  \<exists>ni' w. example_init n s = ret (ERR_OK, (nput n ni' s)\<lparr>world := w\<rparr>) \<and> netif_num ni' = netif_num ni"
  by (intro exI [of _ "ni\<lparr>mtu := 1500, netif_flags := NETIF_FLAG_BROADCAST OR NETIF_FLAG_ETHARP OR NETIF_FLAG_IGMP\<rparr>"] exI [of _ "world s"])
     (simp add: example_init_def nget_def nput_def)

lemma example_many_ok:
  assumes "n \<le> 255"
  shows "numbered (example_many n)" "length (netif_list (example_many n)) = n" "next_netif_num (example_many n) < 256"
    "n + 1 \<notin> set (netif_list (example_many n))" "netifs (example_many n) (n + 1) = Some (example_netif\<lparr>netif_num := n\<rparr>)"
  using assms by (auto simp: numbered_def example_many_def num_of_def inj_on_def)

lemma example_init_ok: "driver_init example_init"
  using example_driver_init unfolding driver_init_def by blast

lemma example_add_calm: "add_calm example_calls"
  using example_calm by (simp add: add_calm_def calm_def) (simp add: example_calls_def keeps_ret)

subsection \<open>What adding an interface does\<close>

text \<open>
  C23: adding an interface to up to 254 others always returns: the search for a number ends. The interface
  is the first of the list, its number is below 255 and different from the numbers of all others, whose
  structs are untouched, and looking up its index finds it.
\<close>

theorem netif_add_correct:
  assumes "add_calm nc" and "driver_init init" and "numbered s" and "length (netif_list s) < 255" and "next_netif_num s < 256"
    and "n \<noteq> 0" and "n \<notin> set (netif_list s)" and "netifs s n = Some ni"
  shows "\<exists>s' ni'. netif_add nc (Some init) n ip m g s = ret (n, s') \<and> numbered s' \<and> netif_list s' = n # netif_list s
    \<and> netifs s' = (netifs s)(n \<mapsto> ni') \<and> netif_num ni' < 255 \<and> netif_get_by_index (netif_get_index ni') s' = ret n
    \<and> next_netif_num s' < 255"
proof -
  obtain n1 w where n1: "netif_num n1 = next_netif_num s" and run: "netif_add nc (Some init) n ip m g s =
    (let t = (nput n n1 s)\<lparr>world := w\<rparr> in
     bind_run (assign_num n (netif_num n1) t) (\<lambda>num.
       let t = nput n (n1\<lparr>netif_num := num\<rparr>) t;
           t = t\<lparr>next_netif_num := if num = 254 then 0 else num + 1\<rparr>;
           t = t\<lparr>netif_list := n # netif_list t\<rparr>
       in bind_run (if netif_flags n1 AND NETIF_FLAG_IGMP \<noteq> 0 then igmp_start nc n t else ret t) (\<lambda>t. ret (n, t))))"
    using add_search [OF assms(1,2,6,8)] by blast
  let ?t = "(nput n n1 s)\<lparr>world := w\<rparr>"
  note t = numbered_other [OF assms(3,7), where ni = n1 and w = w]
  have "card (num_of s ` set (netif_list s)) < card {..<255 :: nat}"
    using assms(4) card_image_le [of "set (netif_list s)" "num_of s"] card_length [of "netif_list s"] by simp
  then have "num_of s ` set (netif_list s) \<noteq> {..<255}" by auto
  then obtain f where f: "f < 255" "f \<notin> num_of s ` set (netif_list s)" using assms(3) by (auto simp: numbered_def)
  have ft: "f \<notin> num_of ?t ` set (netif_list ?t)" using f(2) t(3) by simp
  obtain k where k: "assign_num n (netif_num n1) ?t = ret k" "k < 255" "k \<notin> num_of s ` set (netif_list s)"
    using assign_num_ok [OF t(1,2) f(1) ft, of "netif_num n1"] n1 assms(5) t(3) by auto
  let ?n2 = "n1\<lparr>netif_num := k\<rparr>"
  let ?u = "(nput n ?n2 ?t)\<lparr>next_netif_num := if k = 254 then 0 else k + 1, netif_list := n # netif_list s\<rparr>"
  have "keeps_to_itself (igmp_start nc n) (\<lambda>_. ())" using assms(1) by (simp add: add_calm_def)
  then obtain v where v: "igmp_start nc n ?u = ret (?u\<lparr>world := v\<rparr>)" unfolding keeps_to_itself_def by blast
  obtain w' where r: "netif_add nc (Some init) n ip m g s = ret (n, ?u\<lparr>world := w'\<rparr>)"
  proof (cases "netif_flags n1 AND NETIF_FLAG_IGMP = 0")
    case True
    then show ?thesis using that [of w] run k(1) by (simp add: Let_def)
  next
    case False
    then show ?thesis using that [of v] run k(1) v by (simp add: Let_def)
  qed
  let ?s' = "?u\<lparr>world := w'\<rparr>"
  have same': "num_of ?s' m = num_of s m" if "m \<in> set (netif_list s)" for m using that assms(7) by (auto simp: num_of_def)
  have nk: "num_of ?s' n = k" by (simp add: num_of_def)
  have img': "num_of ?s' ` set (netif_list s) = num_of s ` set (netif_list s)" using same' by (simp cong: image_cong)
  have "numbered ?s'"
    using assms(3,6,7) k(2,3) same' nk img' unfolding numbered_def by (auto simp: inj_on_def)
  moreover have "netif_get_by_index (netif_get_index ?n2) ?s' = ret n"
    using k(2) assms(6) by (simp add: netif_get_by_index_def netif_get_index_def NETIF_NO_INDEX_def U8_def nget_def)
  ultimately show ?thesis
    using r k(2) by (intro exI [of _ ?s'] exI [of _ ?n2]) simp
qed

theorem netif_add_correct_witness:
  "\<exists>s' ni'. netif_add example_calls (Some example_init) 4 (Some 0x0901A8C0) (Some 0x00FFFFFF) None (example_many 3) = ret (4, s')
     \<and> netif_list s' = [4, 1, 2, 3] \<and> netifs s' 4 = Some ni' \<and> netif_num ni' < 255 \<and> netif_get_by_index (netif_get_index ni') s' = ret 4"
proof -
  note e = example_many_ok [of 3, simplified]
  have l: "netif_list (example_many 3) = [1, 2, 3]" by (simp add: example_many_def upt_rec)
  show ?thesis
    using netif_add_correct [OF example_add_calm example_init_ok e(1) _ e(3) _ e(4,5), of "Some 0x0901A8C0" "Some 0x00FFFFFF" None] e(2) l by fastforce
qed

text \<open>
  C26: with 255 interfaces that have all the numbers, adding another one never returns: the code means to
  stop with an assertion then, but the assertion counts the interfaces of the list only up to the one with the
  number in question, so that it allows for this case.
\<close>

theorem netif_add_full_loops:
  assumes "add_calm nc" and "driver_init init" and "numbered s" and "length (netif_list s) = 255" and "next_netif_num s < 256"
    and "n \<noteq> 0" and "n \<notin> set (netif_list s)" and "netifs s n = Some ni"
  shows "netif_add nc (Some init) n ip m g s = None"
proof -
  obtain n1 w where n1: "netif_num n1 = next_netif_num s" and run: "netif_add nc (Some init) n ip m g s =
    (let t = (nput n n1 s)\<lparr>world := w\<rparr> in
     bind_run (assign_num n (netif_num n1) t) (\<lambda>num.
       let t = nput n (n1\<lparr>netif_num := num\<rparr>) t;
           t = t\<lparr>next_netif_num := if num = 254 then 0 else num + 1\<rparr>;
           t = t\<lparr>netif_list := n # netif_list t\<rparr>
       in bind_run (if netif_flags n1 AND NETIF_FLAG_IGMP \<noteq> 0 then igmp_start nc n t else ret t) (\<lambda>t. ret (n, t))))"
    using add_search [OF assms(1,2,6,8)] by blast
  let ?t = "(nput n n1 s)\<lparr>world := w\<rparr>"
  note t = numbered_other [OF assms(3,7), where ni = n1 and w = w]
  have "card (num_of s ` set (netif_list s)) = 255"
    using assms(3,4) by (simp add: numbered_def card_image distinct_card)
  then have "num_of s ` set (netif_list s) = {..<255}"
    using assms(3) by (intro card_subset_eq) (simp_all add: numbered_def)
  then have "assign_num n (netif_num n1) ?t = None" using assign_num_forever [OF t(1,2), of "netif_num n1"] n1 assms(5) t(3) by simp
  then show ?thesis unfolding run Let_def by simp
qed

theorem netif_add_full_loops_witness:
  "netif_add example_calls (Some example_init) 256 None None None (example_many 255) = None"
  using netif_add_full_loops [OF example_add_calm example_init_ok example_many_ok(1,2,3) _ example_many_ok(4,5)] by simp

subsection \<open>Taking an interface down\<close>

lemma clear_up:
  fixes f :: u8
  shows "f AND NETIF_FLAG_UP \<noteq> 0 \<Longrightarrow> (f AND NOT NETIF_FLAG_UP) OR NETIF_FLAG_UP = f" "(f AND NOT NETIF_FLAG_UP) AND NETIF_FLAG_UP = 0"
proof -
  show "(f AND NOT NETIF_FLAG_UP) AND NETIF_FLAG_UP = 0" by (simp add: and.assoc)
  assume "f AND NETIF_FLAG_UP \<noteq> 0"
  then have "bit f 0" by (simp add: NETIF_FLAG_UP_def and_one_eq bit_0 mod_2_eq_odd split: if_splits)
  then have "bit ((f AND NOT NETIF_FLAG_UP) OR NETIF_FLAG_UP) n = bit f n" if "n < LENGTH(8)" for n
    using that by (cases "n = 0") (simp_all add: NETIF_FLAG_UP_def bit_simps bit_1_iff)
  then show "(f AND NOT NETIF_FLAG_UP) OR NETIF_FLAG_UP = f" by (rule bit_word_eqI)
qed

text \<open>
  taking an Ethernet interface down that is up returns in a state of the invariant of ARP. The interface is
  marked down and changed in nothing else, all other interfaces are as before; no ARP entry is left for the interface,
  and the ARP cache has lost the addresses on this interface and no others.
\<close>

theorem netif_set_down_correct:
  assumes "keeps_to_itself (nd6_cleanup_netif nc n) (\<lambda>_. ())" and "arp_inv s" and "ether_netif s n ni"
    and "netif_is_up ni" and "netif_flags ni AND NETIF_FLAG_ETHARP \<noteq> 0"
  shows "\<exists>s' ni'. netif_set_down nc n s = ret s' \<and> arp_inv s' \<and> netifs s' = (netifs s)(n \<mapsto> ni') \<and> \<not> netif_is_up ni'
    \<and> ni' = ni\<lparr>netif_flags := netif_flags ni'\<rparr> \<and> netif_flags ni' OR NETIF_FLAG_UP = netif_flags ni
    \<and> list_all (\<lambda>e. nonempty e \<longrightarrow> arp_netif e \<noteq> n) (arp_table s')
    \<and> abs_cache (arp_table s') = abs_cache (arp_table s) |` {k. snd k \<noteq> n}"
proof -
  let ?ni = "ni\<lparr>netif_flags := netif_flags ni AND NOT NETIF_FLAG_UP\<rparr>"
  let ?s = "nput n ?ni s"
  have up: "netif_flags ni AND NETIF_FLAG_UP \<noteq> 0" using assms(4) by (simp add: netif_is_up_def)
  have eth: "netif_flags ni AND NOT NETIF_FLAG_UP AND NETIF_FLAG_ETHARP \<noteq> 0"
  proof -
    have "netif_flags ni AND NOT NETIF_FLAG_UP AND NETIF_FLAG_ETHARP = netif_flags ni AND NETIF_FLAG_ETHARP"
      by (simp add: and.assoc NETIF_FLAG_UP_def NETIF_FLAG_ETHARP_def)
    then show ?thesis using assms(5) by simp
  qed
  note flags = clear_up(1) [OF up] clear_up(2) [of "netif_flags ni"]
  obtain qs where "arp_ok s qs" using assms(2) by (auto simp: arp_inv_def)
  moreover have "\<exists>mi. ether_netif ?s m mi" if "\<exists>mi. ether_netif s m mi" for m
    using that assms(3) by (cases "m = n") (auto simp: ether_netif_def)
  ultimately have "arp_ok ?s qs" by (simp add: arp_ok_def)
  then have inv: "arp_inv ?s" by (auto simp: arp_inv_def)
  obtain s1 where s1: "etharp_cleanup_netif n ?s = ret s1" "arp_inv s1" "links s1 = links ?s"
    "list_all (\<lambda>e. nonempty e \<longrightarrow> arp_netif e \<noteq> n) (arp_table s1)" "abs_cache (arp_table s1) = abs_cache (arp_table s) |` {k. snd k \<noteq> n}"
    using etharp_cleanup_netif_correct [OF inv, of n] by auto
  obtain w where w: "nd6_cleanup_netif nc n s1 = ret (s1\<lparr>world := w\<rparr>)" using assms(1) unfolding keeps_to_itself_def by blast
  have "netif_set_down nc n s = ret (s1\<lparr>world := w\<rparr>)"
    using ether_nget [OF assms(3)] up eth s1(1) w by (simp add: netif_set_down_def)
  moreover have "arp_inv (s1\<lparr>world := w\<rparr>)" using s1(2) by (simp add: arp_inv_def arp_ok_def ether_netif_def)
  moreover have "\<not> netif_is_up ?ni" using flags(2) by (simp add: netif_is_up_def)
  ultimately show ?thesis using s1(3-5) flags(1) by (intro exI [of _ "s1\<lparr>world := w\<rparr>"] exI [of _ ?ni]) simp
qed

theorem netif_set_down_correct_witness:
  "\<exists>s'. netif_set_down example_calls 1 (example_arp 50) = ret s' \<and> arp_inv s' \<and> abs_cache (arp_table s') (0x0201A8C0, 1) = None"
proof -
  have "keeps_to_itself (nd6_cleanup_netif example_calls 1) (\<lambda>_. ())" by (simp add: example_calls_def keeps_ret)
  moreover have "netif_is_up example_netif" "netif_flags example_netif AND NETIF_FLAG_ETHARP \<noteq> 0"
    by (simp_all add: netif_is_up_def example_netif_def NETIF_FLAG_UP_def NETIF_FLAG_ETHARP_def)
  ultimately show ?thesis
    using netif_set_down_correct [OF _ example_arp_inv(2) example_ether, of example_calls] by fastforce
qed

end
