(* ===== verification/Ip_Any.thy ===== *)
theory Ip_Any
  imports Ip_Addr
begin

text \<open>
  The macros on addresses of both versions, \<open>include/lwip/ip6_addr.h\<close>, \<open>include/lwip/ip6_zone.h\<close> and
  \<open>include/lwip/ip_addr.h\<close>. A macro that assigns an address is a function that returns it.
\<close>

subsection \<open>IPv6\<close>

definition IP6_NO_ZONE :: u8 where "IP6_NO_ZONE = 0"

definition ip6_addr_isany_val :: "ip6_addr \<Rightarrow> bool" where
  "ip6_addr_isany_val a \<longleftrightarrow> addr a ! 0 = 0 \<and> addr a ! 1 = 0 \<and> addr a ! 2 = 0 \<and> addr a ! 3 = 0"

definition ip6_addr_cmp_zoneless :: "ip6_addr \<Rightarrow> ip6_addr \<Rightarrow> bool" where
  "ip6_addr_cmp_zoneless a b \<longleftrightarrow> addr a ! 0 = addr b ! 0 \<and> addr a ! 1 = addr b ! 1 \<and> addr a ! 2 = addr b ! 2 \<and> addr a ! 3 = addr b ! 3"

definition ip6_addr_cmp :: "ip6_addr \<Rightarrow> ip6_addr \<Rightarrow> bool" where
  "ip6_addr_cmp a b \<longleftrightarrow> ip6_addr_cmp_zoneless a b \<and> zone a = zone b"

definition ip6_addr_islinklocal :: "ip6_addr \<Rightarrow> bool" where
  "ip6_addr_islinklocal a \<longleftrightarrow> addr a ! 0 AND PP_HTONL 0xffc00000 = PP_HTONL 0xfe800000"

definition ip6_addr_ismulticast :: "ip6_addr \<Rightarrow> bool" where
  "ip6_addr_ismulticast a \<longleftrightarrow> addr a ! 0 AND PP_HTONL 0xff000000 = PP_HTONL 0xff000000"

definition ip6_addr_ismulticast_iflocal :: "ip6_addr \<Rightarrow> bool" where
  "ip6_addr_ismulticast_iflocal a \<longleftrightarrow> addr a ! 0 AND PP_HTONL 0xff8f0000 = PP_HTONL 0xff010000"

definition ip6_addr_ismulticast_linklocal :: "ip6_addr \<Rightarrow> bool" where
  "ip6_addr_ismulticast_linklocal a \<longleftrightarrow> addr a ! 0 AND PP_HTONL 0xff8f0000 = PP_HTONL 0xff020000"

text \<open>\<open>ip6_addr_has_scope(a, IP6_UNKNOWN)\<close> and \<open>ip6_addr_lacks_zone(a, IP6_UNKNOWN)\<close>.\<close>

definition ip6_addr_has_scope :: "ip6_addr \<Rightarrow> bool" where
  "ip6_addr_has_scope a \<longleftrightarrow> ip6_addr_islinklocal a \<or> ip6_addr_ismulticast_iflocal a \<or> ip6_addr_ismulticast_linklocal a"

definition ip6_addr_lacks_zone :: "ip6_addr \<Rightarrow> bool" where
  "ip6_addr_lacks_zone a \<longleftrightarrow> \<not> zone a \<noteq> IP6_NO_ZONE \<and> ip6_addr_has_scope a"

definition ip6_addr_set_any :: ip6_addr where
  "ip6_addr_set_any = \<lparr>addr = [0, 0, 0, 0], zone = IP6_NO_ZONE\<rparr>"

subsection \<open>Both versions\<close>

definition IP_IS_ANY_TYPE_VAL :: "ip_addr \<Rightarrow> bool" where
  "IP_IS_ANY_TYPE_VAL a \<longleftrightarrow> ip_type a = IPADDR_TYPE_ANY"

definition ip_addr_copy_from_ip4 :: "u32 \<Rightarrow> ip_addr" where
  "ip_addr_copy_from_ip4 a = \<lparr>u_addr = \<lparr>addr = [a, 0, 0, 0], zone = IP6_NO_ZONE\<rparr>, ip_type = IPADDR_TYPE_V4\<rparr>"

text \<open>\<open>ip_addr_copy\<close> and \<open>ip_addr_set\<close> from an address that is not \<open>NULL\<close>.\<close>

definition ip_addr_copy :: "ip_addr \<Rightarrow> ip_addr" where
  "ip_addr_copy src =
     (if IP_IS_V6 src then src
      else \<lparr>u_addr = \<lparr>addr = [ip_2_ip4 src, 0, 0, 0], zone = IP6_NO_ZONE\<rparr>, ip_type = ip_type src\<rparr>)"

definition ip_addr_set_any :: "bool \<Rightarrow> ip_addr" where
  "ip_addr_set_any is_ipv6 =
     (if is_ipv6 then \<lparr>u_addr = ip6_addr_set_any, ip_type = IPADDR_TYPE_V6\<rparr> else ip_addr_copy_from_ip4 0)"

definition IP4_ADDR_ANY :: ip_addr where
  "IP4_ADDR_ANY = ip_addr_copy_from_ip4 0"

definition IP_ANY_TYPE :: ip_addr where
  "IP_ANY_TYPE = \<lparr>u_addr = ip6_addr_set_any, ip_type = IPADDR_TYPE_ANY\<rparr>"

definition ip_addr_isany :: "ip_addr \<Rightarrow> bool" where
  "ip_addr_isany a \<longleftrightarrow> (if IP_IS_V6 a then ip6_addr_isany_val (ip_2_ip6 a) else ip_2_ip4 a = 0)"

definition ip_addr_cmp :: "ip_addr \<Rightarrow> ip_addr \<Rightarrow> bool" where
  "ip_addr_cmp a b \<longleftrightarrow>
     (if ip_type a \<noteq> ip_type b then False
      else if IP_IS_V6 a then ip6_addr_cmp (ip_2_ip6 a) (ip_2_ip6 b) else ip_2_ip4 a = ip_2_ip4 b)"

definition ip_addr_isbroadcast :: "ip_addr \<Rightarrow> netif \<Rightarrow> bool" where
  "ip_addr_isbroadcast a ni \<longleftrightarrow> (if IP_IS_V6 a then False else ip4_addr_isbroadcast_u32 (ip_2_ip4 a) ni)"

definition ip_addr_ismulticast :: "ip_addr \<Rightarrow> bool" where
  "ip_addr_ismulticast a \<longleftrightarrow> (if IP_IS_V6 a then ip6_addr_ismulticast (ip_2_ip6 a) else ip4_addr_ismulticast (ip_2_ip4 a))"

subsection \<open>Laws\<close>

definition ip_wf :: "ip_addr \<Rightarrow> bool" where
  "ip_wf a \<longleftrightarrow> ip6_wf (u_addr a)"

lemma ip_wf_copies [simp]:
  "ip_wf (ip_addr_copy_from_ip4 v)" "ip_wf (ip_addr_set_any b)" "ip_wf IP4_ADDR_ANY" "ip_wf IP_ANY_TYPE" "ip_wf a \<Longrightarrow> ip_wf (ip_addr_copy a)"
  by (simp_all add: ip_wf_def ip6_wf_def ip_addr_copy_from_ip4_def ip_addr_set_any_def IP4_ADDR_ANY_def IP_ANY_TYPE_def
      ip_addr_copy_def ip6_addr_set_any_def)

lemma ip_addr_cmp_refl [simp]: "ip_addr_cmp a a"
  by (simp add: ip_addr_cmp_def ip6_addr_cmp_def ip6_addr_cmp_zoneless_def)

lemma ip_addr_cmp_sym: "ip_addr_cmp a b \<longleftrightarrow> ip_addr_cmp b a"
  by (auto simp: ip_addr_cmp_def ip6_addr_cmp_def ip6_addr_cmp_zoneless_def IP_IS_V6_def)

lemma ip_addr_cmp_trans: "ip_addr_cmp a b \<Longrightarrow> ip_addr_cmp b c \<Longrightarrow> ip_addr_cmp a c"
  by (auto simp: ip_addr_cmp_def ip6_addr_cmp_def ip6_addr_cmp_zoneless_def IP_IS_V6_def split: if_splits)

lemma ip_addr_copy_same [simp]:
  "ip_type (ip_addr_copy a) = ip_type a" "ip_2_ip4 (ip_addr_copy a) = ip_2_ip4 a"
  "ip_addr_cmp (ip_addr_copy a) b = ip_addr_cmp a b" "ip_addr_cmp b (ip_addr_copy a) = ip_addr_cmp b a"
  "ip_addr_isany (ip_addr_copy a) = ip_addr_isany a"
  by (auto simp: ip_addr_copy_def ip_addr_cmp_def ip_addr_isany_def ip_2_ip4_def IP_IS_V6_def)

lemma from_ip4_simps [simp]:
  "ip_type (ip_addr_copy_from_ip4 a) = IPADDR_TYPE_V4" "ip_2_ip4 (ip_addr_copy_from_ip4 a) = a"
  "\<not> IP_IS_V6 (ip_addr_copy_from_ip4 a)" "IP_IS_V4 (ip_addr_copy_from_ip4 a)"
  "ip_addr_isany (ip_addr_copy_from_ip4 a) \<longleftrightarrow> a = 0"
  by (simp_all add: ip_addr_copy_from_ip4_def ip_2_ip4_def IP_IS_V6_def IP_IS_V4_def IPADDR_TYPE_V4_def IPADDR_TYPE_V6_def ip_addr_isany_def)

end
