(* ===== verification/Ip4.thy ===== *)
theory Ip4
  imports Netif_Admin Ip_Any
begin

text \<open>
  The state of the Internet layer, and routing and output of IPv4, \<open>core/ipv4/ip4.c\<close>, \<open>core/ip.c\<close>.

  The record \<open>inet\<close> is what the link layer sees as its \<open>world\<close>: the global variables of IP and UDP, and the
  world \<open>outer\<close> beyond them. The record \<open>inet_calls\<close> has what is called from here: \<open>netif->output\<close>,
  fragmentation and reassembly, the protocols that are not modelled and the callbacks of applications.
\<close>

record ip_globals =
  current_netif :: nat
  current_input_netif :: nat
  current_ip4_header :: nat
  current_ip6_header :: nat
  current_ip_header_tot_len :: nat
  current_iphdr_src :: ip_addr
  current_iphdr_dest :: ip_addr

text \<open>\<open>struct udp_pcb\<close>, with the fields of \<open>IP_PCB\<close>; the list is kept apart from the structs.\<close>

record udp_pcb =
  local_ip :: ip_addr
  remote_ip :: ip_addr
  netif_idx :: nat
  so_options :: u8
  pcb_tos :: u8
  pcb_ttl :: u8
  up_flags :: u8
  local_port :: u16
  remote_port :: u16
  mcast_ip4 :: u32
  mcast_ifindex :: nat
  mcast_ttl :: u8
  recv :: nat
  recv_arg :: nat

record 'w inet =
  ip_data :: ip_globals
  ip_id :: u16
  ip4_default_multicast_netif :: nat
  udp_pcbs :: "nat list"
  udp_mem :: "nat \<Rightarrow> udp_pcb option"
  udp_port :: u16
  outer :: 'w

type_synonym 'w stack = "'w inet net"

record 'w inet_calls =
  netif_output :: "nat \<Rightarrow> nat \<Rightarrow> u32 \<Rightarrow> 'w stack \<Rightarrow> (err_t \<times> 'w stack) run"
  ip4_frag :: "nat \<Rightarrow> nat \<Rightarrow> u32 \<Rightarrow> 'w stack \<Rightarrow> (err_t \<times> 'w stack) run"
  ip4_reass :: "nat \<Rightarrow> 'w stack \<Rightarrow> (nat \<times> 'w stack) run"
  igmp_lookfor_group :: "nat \<Rightarrow> u32 \<Rightarrow> 'w stack \<Rightarrow> bool run"
  tcp_input :: "nat \<Rightarrow> nat \<Rightarrow> 'w stack \<Rightarrow> 'w stack run"
  icmp_input :: "nat \<Rightarrow> nat \<Rightarrow> 'w stack \<Rightarrow> 'w stack run"
  igmp_input :: "nat \<Rightarrow> nat \<Rightarrow> u32 \<Rightarrow> 'w stack \<Rightarrow> 'w stack run"
  icmp_dest_unreach :: "nat \<Rightarrow> nat \<Rightarrow> 'w stack \<Rightarrow> 'w stack run"
  icmp6_dest_unreach :: "nat \<Rightarrow> nat \<Rightarrow> 'w stack \<Rightarrow> 'w stack run"
  ip6_route :: "ip6_addr \<Rightarrow> ip6_addr \<Rightarrow> 'w stack \<Rightarrow> nat run"
  ip6_select_source_address :: "nat \<Rightarrow> ip6_addr \<Rightarrow> 'w stack \<Rightarrow> ip_addr option run"
  netif_get_ip6_addr_match :: "nat \<Rightarrow> ip6_addr \<Rightarrow> 'w stack \<Rightarrow> int run"
  ip6_output_if_src :: "nat \<Rightarrow> ip6_addr \<Rightarrow> ip6_addr \<Rightarrow> u8 \<Rightarrow> u8 \<Rightarrow> u8 \<Rightarrow> nat \<Rightarrow> 'w stack \<Rightarrow> (err_t \<times> 'w stack) run"
  udp_recv_fn :: "nat \<Rightarrow> nat \<Rightarrow> nat \<Rightarrow> nat \<Rightarrow> ip_addr \<Rightarrow> u16 \<Rightarrow> 'w stack \<Rightarrow> 'w stack run"

definition on_world :: "('w \<Rightarrow> 'w) \<Rightarrow> 'w net \<Rightarrow> 'w net" where
  "on_world f s = s\<lparr>world := f (world s)\<rparr>"

lemma on_world_simps [simp]:
  "world (on_world f s) = f (world s)" "pb (on_world f s) = pb s" "netifs (on_world f s) = netifs s"
  "netif_list (on_world f s) = netif_list s" "netif_default (on_world f s) = netif_default s" "autoips (on_world f s) = autoips s"
  "arp_table (on_world f s) = arp_table s" "etharp_cached_entry (on_world f s) = etharp_cached_entry s"
  "next_netif_num (on_world f s) = next_netif_num s"
  by (simp_all add: on_world_def)

definition run_pb :: "(pbuf_state \<Rightarrow> pbuf_state run) \<Rightarrow> 'w net \<Rightarrow> 'w net run" where
  "run_pb f s = bind_run (f (pb s)) (\<lambda>b. ret (s\<lparr>pb := b\<rparr>))"

definition free_pbuf :: "nat \<Rightarrow> 'w net \<Rightarrow> 'w net run" where
  "free_pbuf p s = bind_run (on_pb (pbuf_free p) s) (\<lambda>(_, s). ret s)"

subsection \<open>The header\<close>

definition IP_HLEN :: nat where "IP_HLEN = 20"
definition IP_HLEN_MAX :: nat where "IP_HLEN_MAX = 60"
definition IP_PROTO_ICMP :: u8 where "IP_PROTO_ICMP = 1"
definition IP_PROTO_IGMP :: u8 where "IP_PROTO_IGMP = 2"
definition IP_PROTO_TCP :: u8 where "IP_PROTO_TCP = 6"
definition IP_PROTO_UDP :: u8 where "IP_PROTO_UDP = 17"
definition IP_OFFMASK :: u16 where "IP_OFFMASK = 0x1fff"
definition IP_MF :: u16 where "IP_MF = 0x2000"

definition IPH_V :: "nat \<Rightarrow> 'w net \<Rightarrow> u8" where
  "IPH_V hdr s = drop_bit 4 (bytes (pb s) hdr)"

definition IPH_HL_BYTES :: "nat \<Rightarrow> 'w net \<Rightarrow> nat" where
  "IPH_HL_BYTES hdr s = U8 (unat (bytes (pb s) hdr AND 0x0f) * 4)"

definition IPH_LEN :: "nat \<Rightarrow> 'w net \<Rightarrow> u16" where
  "IPH_LEN hdr s = load16 (hdr + 2) (pb s)"

definition IPH_OFFSET :: "nat \<Rightarrow> 'w net \<Rightarrow> u16" where
  "IPH_OFFSET hdr s = load16 (hdr + 6) (pb s)"

definition IPH_PROTO :: "nat \<Rightarrow> 'w net \<Rightarrow> u8" where
  "IPH_PROTO hdr s = bytes (pb s) (hdr + 9)"

definition ip4_current_src_addr :: "'w stack \<Rightarrow> u32" where
  "ip4_current_src_addr s = ip_2_ip4 (current_iphdr_src (ip_data (world s)))"

definition ip4_current_dest_addr :: "'w stack \<Rightarrow> u32" where
  "ip4_current_dest_addr s = ip_2_ip4 (current_iphdr_dest (ip_data (world s)))"

definition ip_current_is_v6 :: "'w stack \<Rightarrow> bool" where
  "ip_current_is_v6 s \<longleftrightarrow> current_ip6_header (ip_data (world s)) \<noteq> 0"

subsection \<open>Routing\<close>

definition ip4_set_default_multicast_netif :: "nat \<Rightarrow> 'w stack \<Rightarrow> 'w stack" where
  "ip4_set_default_multicast_netif n s = on_world (\<lambda>w. w\<lparr>ip4_default_multicast_netif := n\<rparr>) s"

text \<open>Is the interface up, with a link and an address, and on the net of the destination (or its peer)?\<close>

definition route_match :: "u32 \<Rightarrow> netif \<Rightarrow> bool" where
  "route_match dest ni \<longleftrightarrow> netif_is_up ni \<and> netif_is_link_up ni \<and> ip_addr ni \<noteq> IPADDR_ANY
     \<and> (ip4_addr_netcmp dest (ip_addr ni) (netmask ni) \<or> (netif_flags ni AND NETIF_FLAG_BROADCAST = 0 \<and> dest = gw ni))"

fun route_loop :: "u32 \<Rightarrow> nat list \<Rightarrow> 'w stack \<Rightarrow> nat run" where
  "route_loop dest [] s = ret 0"
| "route_loop dest (n # ns) s = bind_run (nget n s) (\<lambda>ni. if route_match dest ni then ret n else route_loop dest ns s)"

definition ip4_route :: "u32 \<Rightarrow> 'w stack \<Rightarrow> nat run" where
  "ip4_route dest s =
     (if ip4_addr_ismulticast dest \<and> ip4_default_multicast_netif (world s) \<noteq> 0 then ret (ip4_default_multicast_netif (world s))
      else
        bind_run (route_loop dest (netif_list s) s) (\<lambda>n.
          if n \<noteq> 0 then ret n
          else if netif_default s = 0 then ret 0
          else bind_run (nget (netif_default s) s) (\<lambda>ni.
            if \<not> netif_is_up ni \<or> \<not> netif_is_link_up ni \<or> ip_addr ni = IPADDR_ANY \<or> ip4_addr_isloopback dest then ret 0
            else ret (netif_default s))))"

text \<open>There is no routing by source address here.\<close>

definition ip4_route_src :: "u32 \<Rightarrow> u32 \<Rightarrow> 'w stack \<Rightarrow> nat run" where
  "ip4_route_src src dest s = ip4_route dest s"

definition ip_route :: "'w inet_calls \<Rightarrow> ip_addr \<Rightarrow> ip_addr \<Rightarrow> 'w stack \<Rightarrow> nat run" where
  "ip_route ic src dest s =
     (if IP_IS_V6 dest then ip6_route ic (ip_2_ip6 src) (ip_2_ip6 dest) s else ip4_route_src (ip_2_ip4 src) (ip_2_ip4 dest) s)"

subsection \<open>Output\<close>

text \<open>The options in front of the data; the result is an error code and the length of the header.\<close>

definition output_options :: "nat \<Rightarrow> u8 list \<Rightarrow> nat \<Rightarrow> 'w stack \<Rightarrow> (err_t \<times> nat \<times> 'w stack) run" where
  "output_options p ip_options optlen s =
     (if optlen \<noteq> 0 then
        if optlen > IP_HLEN_MAX - IP_HLEN then ret (ERR_VAL, IP_HLEN, s)
        else
          let optlen_aligned = (optlen + 3) div 4 * 4;
              ip_hlen = U16 (IP_HLEN + optlen_aligned)
          in bind_run (on_pb (pbuf_add_header p optlen_aligned) s) (\<lambda>(r, s).
             if r \<noteq> 0 then ret (ERR_BUF, ip_hlen, s)
             else bind_run (pget p (pb s)) (\<lambda>b.
               let s = store_bytes (pb_payload b) (take optlen ip_options) s;
                   s = (if optlen < optlen_aligned then store_bytes (pb_payload b + optlen) (replicate (optlen_aligned - optlen) 0) s else s)
               in ret (ERR_OK, ip_hlen, s)))
      else ret (ERR_OK, IP_HLEN, s))"

text \<open>The fields of the header at \<open>iphdr\<close>, in the order in which they are written.\<close>

definition write_ip4_hdr :: "nat \<Rightarrow> nat \<Rightarrow> nat \<Rightarrow> u32 \<Rightarrow> u32 \<Rightarrow> u8 \<Rightarrow> u8 \<Rightarrow> u8 \<Rightarrow> 'w stack \<Rightarrow> 'w stack" where
  "write_ip4_hdr iphdr ip_hlen tot_len src dest ttl tos proto s =
     (let s = store_bytes (iphdr + 8) [ttl] s;
          s = store_bytes (iphdr + 9) [proto] s;
          s = store_bytes (iphdr + 16) (memory_bytes dest) s;
          s = store_bytes iphdr [push_bit 4 4 OR of_nat (ip_hlen div 4)] s;
          s = store_bytes (iphdr + 1) [tos] s;
          s = store_bytes (iphdr + 2) (mem16 (lwip_htons (of_nat tot_len))) s;
          s = store_bytes (iphdr + 6) (mem16 0) s;
          s = store_bytes (iphdr + 4) (mem16 (lwip_htons (ip_id (world s)))) s;
          s = on_world (\<lambda>w. w\<lparr>ip_id := ip_id w + 1\<rparr>) s;
          s = store_bytes (iphdr + 12) (memory_bytes src) s
      in store_bytes (iphdr + 10) (mem16 0) s)"

text \<open>\<open>NULL\<close> as destination means that the packet has its header already.\<close>

definition ip4_output_if_opt_src ::
  "'w inet_calls \<Rightarrow> nat \<Rightarrow> u32 option \<Rightarrow> u32 option \<Rightarrow> u8 \<Rightarrow> u8 \<Rightarrow> u8 \<Rightarrow> nat \<Rightarrow> u8 list \<Rightarrow> nat \<Rightarrow> 'w stack \<Rightarrow> (err_t \<times> 'w stack) run" where
  "ip4_output_if_opt_src ic p src dest ttl tos proto netif ip_options optlen s =
     bind_run (pget p (pb s)) (\<lambda>b.
     lwip_assert ''p->ref == 1'' (pb_ref b = 1)
      (bind_run
        (case dest of
           Some d \<Rightarrow>
             bind_run (output_options p ip_options optlen s) (\<lambda>(err, ip_hlen, s).
               if err \<noteq> ERR_OK then ret (err, d, s)
               else bind_run (on_pb (pbuf_add_header p IP_HLEN) s) (\<lambda>(r, s).
                 if r \<noteq> 0 then ret (ERR_BUF, d, s)
                 else bind_run (pget p (pb s)) (\<lambda>b.
                   lwip_assert ''check that first pbuf can hold struct ip_hdr'' (pb_len b \<ge> IP_HLEN)
                    (ret (ERR_OK, d, write_ip4_hdr (pb_payload b) ip_hlen (pb_tot_len b) (addr_or_any src) d ttl tos proto s)))))
         | None \<Rightarrow>
             if pb_len b < IP_HLEN then ret (ERR_BUF, 0, s)
             else ret (ERR_OK, load32 (pb_payload b + 16) (pb s), s)) (\<lambda>(err, d, s).
        if err \<noteq> ERR_OK then ret (err, s)
        else bind_run (nget netif s) (\<lambda>ni.
          bind_run (pget p (pb s)) (\<lambda>b.
            if mtu ni \<noteq> 0 \<and> pb_tot_len b > unat (mtu ni) then ip4_frag ic p netif d s
            else netif_output ic netif p d s)))))"

definition ip4_output_if_src ::
  "'w inet_calls \<Rightarrow> nat \<Rightarrow> u32 option \<Rightarrow> u32 option \<Rightarrow> u8 \<Rightarrow> u8 \<Rightarrow> u8 \<Rightarrow> nat \<Rightarrow> 'w stack \<Rightarrow> (err_t \<times> 'w stack) run" where
  "ip4_output_if_src ic p src dest ttl tos proto netif s = ip4_output_if_opt_src ic p src dest ttl tos proto netif [] 0 s"

definition ip4_output_if_opt ::
  "'w inet_calls \<Rightarrow> nat \<Rightarrow> u32 option \<Rightarrow> u32 option \<Rightarrow> u8 \<Rightarrow> u8 \<Rightarrow> u8 \<Rightarrow> nat \<Rightarrow> u8 list \<Rightarrow> nat \<Rightarrow> 'w stack \<Rightarrow> (err_t \<times> 'w stack) run" where
  "ip4_output_if_opt ic p src dest ttl tos proto netif ip_options optlen s =
     bind_run
       (if dest \<noteq> None \<and> addr_or_any src = IPADDR_ANY then bind_run (nget netif s) (\<lambda>ni. ret (Some (ip_addr ni))) else ret src) (\<lambda>src_used.
     ip4_output_if_opt_src ic p src_used dest ttl tos proto netif ip_options optlen s)"

definition ip4_output_if ::
  "'w inet_calls \<Rightarrow> nat \<Rightarrow> u32 option \<Rightarrow> u32 option \<Rightarrow> u8 \<Rightarrow> u8 \<Rightarrow> u8 \<Rightarrow> nat \<Rightarrow> 'w stack \<Rightarrow> (err_t \<times> 'w stack) run" where
  "ip4_output_if ic p src dest ttl tos proto netif s = ip4_output_if_opt ic p src dest ttl tos proto netif [] 0 s"

definition ip4_output :: "'w inet_calls \<Rightarrow> nat \<Rightarrow> u32 option \<Rightarrow> u32 \<Rightarrow> u8 \<Rightarrow> u8 \<Rightarrow> u8 \<Rightarrow> 'w stack \<Rightarrow> (err_t \<times> 'w stack) run" where
  "ip4_output ic p src dest ttl tos proto s =
     bind_run (pget p (pb s)) (\<lambda>b.
     lwip_assert ''p->ref == 1'' (pb_ref b = 1)
      (bind_run (ip4_route_src (addr_or_any src) dest s) (\<lambda>netif.
        if netif = 0 then ret (ERR_RTE, s)
        else ip4_output_if ic p src (Some dest) ttl tos proto netif s)))"

definition ip_output_if_src ::
  "'w inet_calls \<Rightarrow> nat \<Rightarrow> ip_addr \<Rightarrow> ip_addr \<Rightarrow> u8 \<Rightarrow> u8 \<Rightarrow> u8 \<Rightarrow> nat \<Rightarrow> 'w stack \<Rightarrow> (err_t \<times> 'w stack) run" where
  "ip_output_if_src ic p src dest ttl tos proto netif s =
     (if IP_IS_V6 dest then ip6_output_if_src ic p (ip_2_ip6 src) (ip_2_ip6 dest) ttl tos proto netif s
      else ip4_output_if_src ic p (Some (ip_2_ip4 src)) (Some (ip_2_ip4 dest)) ttl tos proto netif s)"

end
