(* ===== verification/Udp.thy ===== *)
theory Udp
  imports Ip4
begin

text \<open>
  The User Datagram Protocol, \<open>core/udp.c\<close>, for both IP versions, without UDP-Lite. The protocol control
  blocks are structs from a pool; those that are bound or connected are in the list \<open>udp_pcbs\<close>, which the
  model has as the list of their addresses in the order of the links. The receive callback is a
  number, 0 for \<open>NULL\<close>; what it does is in \<open>inet_calls\<close>.
\<close>

definition UDP_HLEN :: nat where "UDP_HLEN = 8"
definition UDP_TTL :: u8 where "UDP_TTL = 255"
definition UDP_FLAGS_CONNECTED :: u8 where "UDP_FLAGS_CONNECTED = 0x04"
definition UDP_FLAGS_MULTICAST_LOOP :: u8 where "UDP_FLAGS_MULTICAST_LOOP = 0x08"
definition PBUF_FLAG_MCASTLOOP :: u8 where "PBUF_FLAG_MCASTLOOP = 0x04"
definition UDP_LOCAL_PORT_RANGE_START :: u16 where "UDP_LOCAL_PORT_RANGE_START = 0xc000"
definition UDP_LOCAL_PORT_RANGE_END :: u16 where "UDP_LOCAL_PORT_RANGE_END = 0xffff"
definition MEMP_UDP_PCB :: nat where "MEMP_UDP_PCB = 0"
definition ICMP_DUR_PORT :: nat where "ICMP_DUR_PORT = 3"
definition ICMP6_DUR_PORT :: nat where "ICMP6_DUR_PORT = 4"

definition UDP_ENSURE_LOCAL_PORT_RANGE :: "u32 \<Rightarrow> u16" where
  "UDP_ENSURE_LOCAL_PORT_RANGE port = ucast ((port AND ucast (NOT UDP_LOCAL_PORT_RANGE_START)) + ucast UDP_LOCAL_PORT_RANGE_START)"

definition uget :: "nat \<Rightarrow> 'w stack \<Rightarrow> udp_pcb run" where
  "uget n s = (if n = 0 then stop Null_deref else case udp_mem (world s) n of None \<Rightarrow> stop Wild_pointer | Some pcb \<Rightarrow> ret pcb)"

definition uput :: "nat \<Rightarrow> udp_pcb \<Rightarrow> 'w stack \<Rightarrow> 'w stack" where
  "uput n pcb s = on_world (\<lambda>w. w\<lparr>udp_mem := (udp_mem w)(n \<mapsto> pcb)\<rparr>) s"

definition set_pcbs :: "nat list \<Rightarrow> 'w stack \<Rightarrow> 'w stack" where
  "set_pcbs ns s = on_world (\<lambda>w. w\<lparr>udp_pcbs := ns\<rparr>) s"

text \<open>\<open>LWIP_RAND()\<close> is an argument.\<close>

definition udp_init :: "u32 \<Rightarrow> 'w stack \<Rightarrow> 'w stack" where
  "udp_init rand s = on_world (\<lambda>w. w\<lparr>udp_port := UDP_ENSURE_LOCAL_PORT_RANGE rand\<rparr>) s"

subsection \<open>Ports\<close>

fun port_taken :: "u16 \<Rightarrow> nat list \<Rightarrow> 'w stack \<Rightarrow> bool run" where
  "port_taken port [] s = ret False"
| "port_taken port (n # ns) s = bind_run (uget n s) (\<lambda>pcb. if local_port pcb = port then ret True else port_taken port ns s)"

partial_function (option) new_port_loop :: "u16 \<Rightarrow> 'w stack \<Rightarrow> (u16 \<times> 'w stack) run" where
  "new_port_loop n s =
     (let was = udp_port (world s);
          s = on_world (\<lambda>w. w\<lparr>udp_port := udp_port w + 1\<rparr>) s;
          s = (if was = UDP_LOCAL_PORT_RANGE_END then on_world (\<lambda>w. w\<lparr>udp_port := UDP_LOCAL_PORT_RANGE_START\<rparr>) s else s)
      in bind_run (port_taken (udp_port (world s)) (udp_pcbs (world s)) s) (\<lambda>taken.
           if taken then
             let n = n + 1
             in if n > UDP_LOCAL_PORT_RANGE_END - UDP_LOCAL_PORT_RANGE_START then ret (0, s) else new_port_loop n s
           else ret (udp_port (world s), s)))"

definition udp_new_port :: "'w stack \<Rightarrow> (u16 \<times> 'w stack) run" where
  "udp_new_port s = new_port_loop 0 s"

subsection \<open>Binding and connecting\<close>

text \<open>\<open>ip6_addr_select_zone(dest, src)\<close>.\<close>

definition ip6_addr_select_zone :: "'w inet_calls \<Rightarrow> ip6_addr \<Rightarrow> ip6_addr \<Rightarrow> 'w stack \<Rightarrow> ip6_addr run" where
  "ip6_addr_select_zone ic dest src s =
     bind_run (ip6_route ic src dest s) (\<lambda>n.
       if n \<noteq> 0 then bind_run (nget n s) (\<lambda>ni. ret (dest\<lparr>zone := if ip6_addr_has_scope dest then of_nat (netif_get_index ni) else 0\<rparr>))
       else ret dest)"

text \<open>A zone for an IPv6 address that should have one.\<close>

definition zoned :: "'w inet_calls \<Rightarrow> ip_addr \<Rightarrow> ip6_addr \<Rightarrow> 'w stack \<Rightarrow> ip_addr run" where
  "zoned ic a src s =
     (if IP_IS_V6 a \<and> ip6_addr_lacks_zone (ip_2_ip6 a)
      then bind_run (ip6_addr_select_zone ic (ip_2_ip6 a) src s) (\<lambda>a6. ret (a\<lparr>u_addr := a6\<rparr>)) else ret a)"

fun bind_conflict :: "nat \<Rightarrow> ip_addr \<Rightarrow> u16 \<Rightarrow> nat list \<Rightarrow> 'w stack \<Rightarrow> bool run" where
  "bind_conflict pcb ipaddr port [] s = ret False"
| "bind_conflict pcb ipaddr port (n # ns) s =
     (if pcb \<noteq> n then
        bind_run (uget n s) (\<lambda>ipcb.
          if local_port ipcb = port \<and> (ip_addr_cmp (local_ip ipcb) ipaddr \<or> ip_addr_isany ipaddr \<or> ip_addr_isany (local_ip ipcb))
          then ret True else bind_conflict pcb ipaddr port ns s)
      else bind_conflict pcb ipaddr port ns s)"

definition udp_bind :: "'w inet_calls \<Rightarrow> nat \<Rightarrow> ip_addr option \<Rightarrow> u16 \<Rightarrow> 'w stack \<Rightarrow> (err_t \<times> 'w stack) run" where
  "udp_bind ic pcb ipaddr port s =
     (let ipaddr = (case ipaddr of None \<Rightarrow> IP4_ADDR_ANY | Some a \<Rightarrow> a) in
      lwip_assert ''udp_bind: invalid pcb'' (pcb \<noteq> 0)
       (let rebind = (pcb \<in> set (udp_pcbs (world s))) in
        bind_run (zoned ic ipaddr (ip_2_ip6 ipaddr) s) (\<lambda>ipaddr.
        bind_run
          (if port = 0 then
             bind_run (udp_new_port s) (\<lambda>(port, s). if port = 0 then ret (ERR_USE, port, s) else ret (ERR_OK, port, s))
           else
             bind_run (bind_conflict pcb ipaddr port (udp_pcbs (world s)) s) (\<lambda>c. if c then ret (ERR_USE, port, s) else ret (ERR_OK, port, s)))
          (\<lambda>(err, port, s).
           if err \<noteq> ERR_OK then ret (err, s)
           else bind_run (uget pcb s) (\<lambda>c.
             let s = uput pcb (c\<lparr>local_ip := ip_addr_copy ipaddr, local_port := port\<rparr>) s;
                 s = (if \<not> rebind then set_pcbs (pcb # udp_pcbs (world s)) s else s)
             in ret (ERR_OK, s))))))"

definition udp_bind_netif :: "nat \<Rightarrow> nat \<Rightarrow> 'w stack \<Rightarrow> 'w stack run" where
  "udp_bind_netif pcb netif s =
     bind_run (if netif \<noteq> 0 then bind_run (nget netif s) (\<lambda>ni. ret (netif_get_index ni)) else ret NETIF_NO_INDEX) (\<lambda>i.
     bind_run (uget pcb s) (\<lambda>c. ret (uput pcb (c\<lparr>netif_idx := i\<rparr>) s)))"

definition udp_connect :: "'w inet_calls \<Rightarrow> nat \<Rightarrow> ip_addr \<Rightarrow> u16 \<Rightarrow> 'w stack \<Rightarrow> (err_t \<times> 'w stack) run" where
  "udp_connect ic pcb ipaddr port s =
     lwip_assert ''udp_connect: invalid pcb'' (pcb \<noteq> 0)
      (bind_run (uget pcb s) (\<lambda>c.
       bind_run (if local_port c = 0 then udp_bind ic pcb (Some (local_ip c)) (local_port c) s else ret (ERR_OK, s)) (\<lambda>(err, s).
         if err \<noteq> ERR_OK then ret (err, s)
         else bind_run (uget pcb s) (\<lambda>c.
           bind_run (zoned ic (ip_addr_copy ipaddr) (ip_2_ip6 (local_ip c)) s) (\<lambda>a.
             let s = uput pcb (c\<lparr>remote_ip := a, remote_port := port, up_flags := up_flags c OR UDP_FLAGS_CONNECTED\<rparr>) s
             in if pcb \<in> set (udp_pcbs (world s)) then ret (ERR_OK, s)
                else ret (ERR_OK, set_pcbs (pcb # udp_pcbs (world s)) s))))))"

definition udp_disconnect :: "nat \<Rightarrow> 'w stack \<Rightarrow> 'w stack run" where
  "udp_disconnect pcb s =
     lwip_assert ''udp_disconnect: invalid pcb'' (pcb \<noteq> 0)
      (bind_run (uget pcb s) (\<lambda>c.
        let c = (if IP_IS_ANY_TYPE_VAL (local_ip c) then c\<lparr>remote_ip := ip_addr_copy IP_ANY_TYPE\<rparr>
                 else c\<lparr>remote_ip := ip_addr_set_any (IP_IS_V6 (remote_ip c))\<rparr>)
        in ret (uput pcb (c\<lparr>remote_port := 0, netif_idx := NETIF_NO_INDEX, up_flags := up_flags c AND NOT UDP_FLAGS_CONNECTED\<rparr>) s)))"

definition udp_recv :: "nat \<Rightarrow> nat \<Rightarrow> nat \<Rightarrow> 'w stack \<Rightarrow> 'w stack run" where
  "udp_recv pcb f arg s =
     lwip_assert ''udp_recv: invalid pcb'' (pcb \<noteq> 0)
      (bind_run (uget pcb s) (\<lambda>c. ret (uput pcb (c\<lparr>recv := f, recv_arg := arg\<rparr>) s)))"

text \<open>Unlinking a block from the list; one that is not there is left out of it.\<close>

definition udp_remove :: "nat \<Rightarrow> 'w stack \<Rightarrow> 'w stack run" where
  "udp_remove pcb s =
     lwip_assert ''udp_remove: invalid pcb'' (pcb \<noteq> 0)
      (let s = set_pcbs (remove1 pcb (udp_pcbs (world s))) s in
       bind_run (memp_free (memp_pools (pb s)) MEMP_UDP_PCB pcb (ppools (pb s))) (\<lambda>m.
       ret (on_world (\<lambda>w. w\<lparr>udp_mem := (udp_mem w)(pcb := None)\<rparr>) (s\<lparr>pb := (pb s)\<lparr>ppools := m\<rparr>\<rparr>))))"

text \<open>A block of zeros, with the time to live set.\<close>

definition fresh_pcb :: udp_pcb where
  "fresh_pcb = \<lparr>local_ip = \<lparr>u_addr = \<lparr>addr = [0, 0, 0, 0], zone = 0\<rparr>, ip_type = 0\<rparr>,
     remote_ip = \<lparr>u_addr = \<lparr>addr = [0, 0, 0, 0], zone = 0\<rparr>, ip_type = 0\<rparr>,
     netif_idx = 0, so_options = 0, pcb_tos = 0, pcb_ttl = UDP_TTL, up_flags = 0, local_port = 0, remote_port = 0,
     mcast_ip4 = 0, mcast_ifindex = 0, mcast_ttl = UDP_TTL, recv = 0, recv_arg = 0\<rparr>"

definition udp_new :: "'w stack \<Rightarrow> (nat \<times> 'w stack) run" where
  "udp_new s =
     bind_run (memp_malloc (memp_pools (pb s)) MEMP_UDP_PCB (ppools (pb s))) (\<lambda>(r, m).
       let s = s\<lparr>pb := (pb s)\<lparr>ppools := m\<rparr>\<rparr> in
       case r of None \<Rightarrow> ret (0, s) | Some pcb \<Rightarrow> ret (pcb, uput pcb fresh_pcb s))"

definition udp_new_ip_type :: "u8 \<Rightarrow> 'w stack \<Rightarrow> (nat \<times> 'w stack) run" where
  "udp_new_ip_type type s =
     bind_run (udp_new s) (\<lambda>(pcb, s).
       if pcb \<noteq> 0 then
         bind_run (uget pcb s) (\<lambda>c.
           ret (pcb, uput pcb (c\<lparr>local_ip := (local_ip c)\<lparr>ip_type := type\<rparr>, remote_ip := (remote_ip c)\<lparr>ip_type := type\<rparr>\<rparr>) s))
       else ret (pcb, s))"

text \<open>Blocks that are bound to an address that changes follow it; \<open>NULL\<close> counts as any address.\<close>

fun addr_changed_loop :: "ip_addr \<Rightarrow> ip_addr \<Rightarrow> nat list \<Rightarrow> 'w stack \<Rightarrow> 'w stack run" where
  "addr_changed_loop old new [] s = ret s"
| "addr_changed_loop old new (n # ns) s =
     bind_run (uget n s) (\<lambda>c.
       addr_changed_loop old new ns (if ip_addr_cmp (local_ip c) old then uput n (c\<lparr>local_ip := ip_addr_copy new\<rparr>) s else s))"

definition udp_netif_ip_addr_changed :: "ip_addr \<Rightarrow> ip_addr option \<Rightarrow> 'w stack \<Rightarrow> 'w stack run" where
  "udp_netif_ip_addr_changed old new s =
     (case new of
        None \<Rightarrow> ret s
      | Some a \<Rightarrow> if \<not> ip_addr_isany old \<and> \<not> ip_addr_isany a then addr_changed_loop old a (udp_pcbs (world s)) s else ret s)"

end
