(* ===== verification/Udp_Table.thy ===== *)
theory Udp_Table
  imports Udp
begin

text \<open>
  The invariant of the list of UDP blocks: blocks that are bound exclude one another, as \<open>udp_bind\<close>
  means to ensure; ports of the local range are found as long as there are any.
\<close>

subsection \<open>The invariant\<close>

definition conflict :: "udp_pcb \<Rightarrow> udp_pcb \<Rightarrow> bool" where
  "conflict c d \<longleftrightarrow> local_port c = local_port d
     \<and> (ip_addr_cmp (local_ip c) (local_ip d) \<or> ip_addr_isany (local_ip c) \<or> ip_addr_isany (local_ip d))"

definition listed :: "'w inet \<Rightarrow> bool" where
  "listed w \<longleftrightarrow> distinct (udp_pcbs w) \<and> (\<forall>n\<in>set (udp_pcbs w). n \<noteq> 0 \<and> udp_mem w n \<noteq> None)"

definition exclusive :: "'w inet \<Rightarrow> bool" where
  "exclusive w \<longleftrightarrow> (\<forall>n\<in>set (udp_pcbs w). \<forall>m\<in>set (udp_pcbs w). \<forall>c d. n \<noteq> m \<longrightarrow> udp_mem w n = Some c \<longrightarrow> udp_mem w m = Some d \<longrightarrow> \<not> conflict c d)"

text \<open>
  A block in the list has a port, any other block has none; the last port that was given out is in the range.
\<close>

definition udp_inv :: "'w inet \<Rightarrow> bool" where
  "udp_inv w \<longleftrightarrow> listed w \<and> exclusive w \<and> udp_port w \<ge> UDP_LOCAL_PORT_RANGE_START
     \<and> (\<forall>n c. udp_mem w n = Some c \<longrightarrow> n \<noteq> 0 \<and> (n \<in> set (udp_pcbs w) \<longleftrightarrow> local_port c \<noteq> 0))"

lemma conflict_sym: "conflict c d \<longleftrightarrow> conflict d c"
  by (auto simp: conflict_def ip_addr_cmp_sym)

lemma uget_ret: "n \<noteq> 0 \<Longrightarrow> udp_mem (world s) n = Some c \<Longrightarrow> uget n s = ret c"
  by (simp add: uget_def)

lemma udp_state_simps [simp]:
  "udp_mem (world (uput n c s)) = (udp_mem (world s))(n \<mapsto> c)" "udp_pcbs (world (uput n c s)) = udp_pcbs (world s)"
  "udp_port (world (uput n c s)) = udp_port (world s)" "pb (uput n c s) = pb s"
  "udp_mem (world (set_pcbs ns s)) = udp_mem (world s)" "udp_pcbs (world (set_pcbs ns s)) = ns"
  "udp_port (world (set_pcbs ns s)) = udp_port (world s)" "pb (set_pcbs ns s) = pb s"
  by (simp_all add: uput_def set_pcbs_def)

subsection \<open>Ports\<close>

definition ports :: "'w inet \<Rightarrow> u16 set" where
  "ports w = {local_port c | n c. n \<in> set (udp_pcbs w) \<and> udp_mem w n = Some c}"

lemma port_taken_spec:
  assumes "\<forall>n\<in>set ns. n \<noteq> 0 \<and> udp_mem (world s) n \<noteq> None"
  shows "port_taken port ns s = ret (\<exists>n c. n \<in> set ns \<and> udp_mem (world s) n = Some c \<and> local_port c = port)"
  using assms
proof (induction ns)
  case (Cons n ns)
  then obtain c where "n \<noteq> 0" "udp_mem (world s) n = Some c" by auto
  moreover from this have "uget n s = ret c" by (rule uget_ret)
  ultimately show ?case using Cons by (cases "local_port c = port") auto
qed simp

lemma listed_taken: "listed (world s) \<Longrightarrow> port_taken port (udp_pcbs (world s)) s = ret (port \<in> ports (world s))"
  by (subst port_taken_spec) (auto simp: listed_def ports_def)

text \<open>The ports of the range in a circle.\<close>

definition range_size :: nat where "range_size = 16384"

definition port_at :: "nat \<Rightarrow> u16" where
  "port_at i = UDP_LOCAL_PORT_RANGE_START + of_nat (i mod range_size)"

lemma unat_port_at: "unat (port_at i) = 49152 + i mod range_size"
proof -
  have "i mod range_size < 16384" by (simp add: range_size_def)
  then show ?thesis
    by (simp add: port_at_def UDP_LOCAL_PORT_RANGE_START_def unat_word_ariths unat_of_nat)
qed

lemma port_at_surj:
  assumes "p \<ge> UDP_LOCAL_PORT_RANGE_START"
  shows "\<exists>i<range_size. p = port_at i"
proof (intro exI conjI)
  have lo: "49152 \<le> unat p" using assms by (simp add: UDP_LOCAL_PORT_RANGE_START_def word_le_nat_alt)
  have hi: "unat p < 65536" using unsigned_less [of p] by simp
  show i: "unat p - 49152 < range_size" using lo hi unfolding range_size_def by linarith
  have "unat p = unat (port_at (unat p - 49152))" using lo i by (simp add: unat_port_at)
  then show "p = port_at (unat p - 49152)" by (simp only: word_unat_eq_iff)
qed

lemma port_at_range: "port_at i \<ge> UDP_LOCAL_PORT_RANGE_START" "port_at i \<noteq> 0"
proof -
  show "port_at i \<ge> UDP_LOCAL_PORT_RANGE_START"
    using unat_port_at [of i] by (simp add: word_le_nat_alt UDP_LOCAL_PORT_RANGE_START_def)
  show "port_at i \<noteq> 0"
  proof
    assume "port_at i = 0"
    then show False using unat_port_at [of i] by simp
  qed
qed

text \<open>The next port: one more, the start of the range after its end.\<close>

lemma port_at_next:
  "(if port_at i = UDP_LOCAL_PORT_RANGE_END then UDP_LOCAL_PORT_RANGE_START else port_at i + 1) = port_at (Suc i)"
proof (cases "i mod range_size = 16383")
  case True
  then have "unat (port_at i) = unat UDP_LOCAL_PORT_RANGE_END" by (simp add: unat_port_at UDP_LOCAL_PORT_RANGE_END_def)
  then have "port_at i = UDP_LOCAL_PORT_RANGE_END" by (simp only: word_unat_eq_iff)
  moreover have "Suc i mod range_size = 0" using True by (simp add: mod_Suc range_size_def)
  ultimately show ?thesis by (simp add: port_at_def [of "Suc i"])
next
  case False
  have "i mod range_size < range_size" by (simp add: range_size_def)
  then have lt: "i mod range_size < 16383" using False by (simp add: range_size_def)
  then have "Suc i mod range_size = Suc (i mod range_size)" by (simp add: mod_Suc range_size_def)
  moreover have "unat (port_at i) \<noteq> unat UDP_LOCAL_PORT_RANGE_END" using lt by (simp add: unat_port_at UDP_LOCAL_PORT_RANGE_END_def)
  then have "port_at i \<noteq> UDP_LOCAL_PORT_RANGE_END" by auto
  ultimately show ?thesis by (simp add: port_at_def [of "Suc i"]) (simp add: port_at_def)
qed

text \<open>One round of the loop.\<close>

definition at_port :: "u16 \<Rightarrow> 'w stack \<Rightarrow> 'w stack" where
  "at_port p s = on_world (\<lambda>w. w\<lparr>udp_port := p\<rparr>) s"

lemma at_port_simps [simp]:
  "udp_pcbs (world (at_port p s)) = udp_pcbs (world s)" "udp_mem (world (at_port p s)) = udp_mem (world s)"
  "udp_port (world (at_port p s)) = p" "at_port p (at_port q s) = at_port p s" "pb (at_port p s) = pb s"
  "listed (world (at_port p s)) = listed (world s)" "ports (world (at_port p s)) = ports (world s)"
  by (simp_all add: at_port_def listed_def ports_def on_world_def)

lemma new_port_step:
  assumes "listed (world s)" "udp_port (world s) = port_at i"
  defines "s1 \<equiv> at_port (port_at (Suc i)) s"
  shows "new_port_loop n s = (if port_at (Suc i) \<in> ports (world s)
     then if n + 1 > UDP_LOCAL_PORT_RANGE_END - UDP_LOCAL_PORT_RANGE_START then ret (0, s1) else new_port_loop (n + 1) s1
     else ret (port_at (Suc i), s1))"
proof -
  have step: "(if udp_port (world s) = UDP_LOCAL_PORT_RANGE_END
      then on_world (\<lambda>w. w\<lparr>udp_port := UDP_LOCAL_PORT_RANGE_START\<rparr>) (on_world (\<lambda>w. w\<lparr>udp_port := udp_port w + 1\<rparr>) s)
      else on_world (\<lambda>w. w\<lparr>udp_port := udp_port w + 1\<rparr>) s) = s1"
    using port_at_next [of i] assms(2) by (auto simp: s1_def at_port_def on_world_def split: if_splits)
  have "port_taken (udp_port (world s1)) (udp_pcbs (world s1)) s1 = ret (port_at (Suc i) \<in> ports (world s))"
    using listed_taken [of s1] assms(1) by (simp add: s1_def)
  then show ?thesis
    by (subst new_port_loop.simps) (simp add: Let_def step, simp add: s1_def)
qed

text \<open>The loop from its \<open>k\<close>-th round on.\<close>

lemma new_port_loop_ok:
  assumes "listed (world s)" "udp_port (world s) = port_at i" "k < range_size"
  shows "\<exists>r q. new_port_loop (of_nat k) s = ret (r, at_port q s) \<and> q \<ge> UDP_LOCAL_PORT_RANGE_START
    \<and> (r = q \<and> q \<notin> ports (world s) \<or> r = 0 \<and> (\<forall>j. 0 < j \<and> j \<le> range_size - k \<longrightarrow> port_at (i + j) \<in> ports (world s)))"
  using assms
proof (induction "range_size - k" arbitrary: k s i)
  case (Suc d)
  note step = new_port_step [OF Suc.prems(1,2), of "of_nat k"]
  show ?case
  proof (cases "port_at (Suc i) \<in> ports (world s)")
    case False
    then show ?thesis using step port_at_range(1) by auto
  next
    case True
    have u: "unat (of_nat k + 1 :: u16) = Suc k"
      using Suc.prems(3) by (simp add: range_size_def unat_word_ariths unat_of_nat)
    have bound: "of_nat k + 1 > UDP_LOCAL_PORT_RANGE_END - UDP_LOCAL_PORT_RANGE_START \<longleftrightarrow> Suc k = range_size"
      using Suc.prems(3) by (simp add: word_less_nat_alt u UDP_LOCAL_PORT_RANGE_END_def UDP_LOCAL_PORT_RANGE_START_def range_size_def) linarith
    let ?s = "at_port (port_at (Suc i)) s"
    show ?thesis
    proof (cases "Suc k = range_size")
      case last: True
      have "port_at (i + j) \<in> ports (world s)" if "0 < j" "j \<le> range_size - k" for j
      proof -
        have "j = 1" using that last by arith
        then show ?thesis using True by simp
      qed
      moreover have "new_port_loop (of_nat k) s = ret (0, ?s)" using step True bound last by simp
      ultimately show ?thesis using port_at_range(1) by blast
    next
      case more: False
      then have "d = range_size - Suc k" "Suc k < range_size" using Suc.hyps(2) Suc.prems(3) by simp_all
      from Suc.hyps(1) [OF this(1) _ _ this(2), of ?s "Suc i"] Suc.prems(1)
      obtain r q where r: "new_port_loop (of_nat (Suc k)) ?s = ret (r, at_port q s)" "q \<ge> UDP_LOCAL_PORT_RANGE_START"
        "r = q \<and> q \<notin> ports (world s) \<or> r = 0 \<and> (\<forall>j. 0 < j \<and> j \<le> range_size - Suc k \<longrightarrow> port_at (Suc i + j) \<in> ports (world s))"
        by auto
      have "new_port_loop (of_nat k) s = ret (r, at_port q s)" using step True bound more r(1) by (simp add: add.commute)
      moreover have "port_at (i + j) \<in> ports (world s)"
        if "\<forall>j. 0 < j \<and> j \<le> range_size - Suc k \<longrightarrow> port_at (Suc i + j) \<in> ports (world s)" "0 < j" "j \<le> range_size - k" for j
      proof (cases "j = 1")
        case True
        then show ?thesis using \<open>port_at (Suc i) \<in> ports (world s)\<close> by simp
      next
        case False
        then have "0 < j - 1" "j - 1 \<le> range_size - Suc k" "i + j = Suc i + (j - 1)" using that(2,3) by simp_all
        then show ?thesis using that(1) by metis
      qed
      ultimately show ?thesis using r(2,3) by blast
    qed
  qed
qed simp

lemma new_port_ok:
  assumes "listed (world s)" and "udp_port (world s) \<ge> UDP_LOCAL_PORT_RANGE_START"
  shows "\<exists>r q. udp_new_port s = ret (r, at_port q s) \<and> q \<ge> UDP_LOCAL_PORT_RANGE_START
    \<and> (if \<forall>p\<ge>UDP_LOCAL_PORT_RANGE_START. p \<in> ports (world s) then r = 0
       else r \<ge> UDP_LOCAL_PORT_RANGE_START \<and> r \<notin> ports (world s))"
proof -
  obtain i where i: "udp_port (world s) = port_at i" using port_at_surj [OF assms(2)] by auto
  obtain r q where r: "new_port_loop 0 s = ret (r, at_port q s)" "q \<ge> UDP_LOCAL_PORT_RANGE_START"
    "r = q \<and> q \<notin> ports (world s) \<or> r = 0 \<and> (\<forall>j. 0 < j \<and> j \<le> range_size \<longrightarrow> port_at (i + j) \<in> ports (world s))"
    using new_port_loop_ok [OF assms(1) i, of 0] by (auto simp: range_size_def)
  have all: "p \<in> ports (world s)" if tk: "\<forall>j. 0 < j \<and> j \<le> range_size \<longrightarrow> port_at (i + j) \<in> ports (world s)" and p: "p \<ge> UDP_LOCAL_PORT_RANGE_START" for p
  proof -
    obtain l where l: "l < range_size" "p = port_at l" using port_at_surj [OF p] by blast
    let ?j = "(l + range_size - Suc (i mod range_size)) mod range_size + 1"
    have im: "i mod range_size < range_size" by (simp add: range_size_def)
    have "(i + ?j) mod range_size = (i mod range_size + ((l + range_size - Suc (i mod range_size)) mod range_size + 1) mod range_size) mod range_size"
      by (simp only: mod_add_eq)
    also have "\<dots> = (i mod range_size + ((l + range_size - Suc (i mod range_size)) + 1)) mod range_size"
      by (simp only: mod_add_left_eq mod_add_right_eq)
    also have "i mod range_size + ((l + range_size - Suc (i mod range_size)) + 1) = l + range_size" using im by linarith
    also have "\<dots> mod range_size = l" using l(1) by simp
    finally have "port_at (i + ?j) = p" using l by (simp add: port_at_def)
    moreover have "0 < ?j" "?j \<le> range_size" by (simp_all add: range_size_def Suc_leI)
    ultimately show ?thesis using tk by metis
  qed
  from r(3) show ?thesis
  proof (elim disjE conjE)
    assume "r = q" "q \<notin> ports (world s)"
    then show ?thesis using r(1,2) by (auto simp: udp_new_port_def)
  next
    assume "r = 0" "\<forall>j. 0 < j \<and> j \<le> range_size \<longrightarrow> port_at (i + j) \<in> ports (world s)"
    then show ?thesis using r(1,2) all by (auto simp: udp_new_port_def)
  qed
qed

subsection \<open>What keeps the invariant\<close>

lemma udp_invD:
  assumes "udp_inv w" "udp_mem w n = Some c"
  shows "n \<noteq> 0" "n \<in> set (udp_pcbs w) \<longleftrightarrow> local_port c \<noteq> 0"
  using assms by (auto simp: udp_inv_def)

lemma udp_inv_listed: "udp_inv w \<Longrightarrow> listed w" "udp_inv w \<Longrightarrow> udp_port w \<ge> UDP_LOCAL_PORT_RANGE_START"
  by (simp_all add: udp_inv_def)

lemma exclusiveD:
  "exclusive w \<Longrightarrow> n \<in> set (udp_pcbs w) \<Longrightarrow> m \<in> set (udp_pcbs w) \<Longrightarrow> n \<noteq> m \<Longrightarrow> udp_mem w n = Some c \<Longrightarrow> udp_mem w m = Some d \<Longrightarrow> \<not> conflict c d"
  by (auto simp: exclusive_def)

text \<open>A change of a block that leaves its local end alone.\<close>

lemma inv_update:
  assumes inv: "udp_inv w" and c: "udp_mem w pcb = Some c" and same: "local_ip c' = local_ip c" "local_port c' = local_port c"
  shows "udp_inv (w\<lparr>udp_mem := (udp_mem w)(pcb \<mapsto> c')\<rparr>)"
proof -
  let ?w = "w\<lparr>udp_mem := (udp_mem w)(pcb \<mapsto> c')\<rparr>"
  have old: "\<exists>d. udp_mem w n = Some d \<and> local_ip d = local_ip e \<and> local_port d = local_port e" if "udp_mem ?w n = Some e" for n e
    using that c same by (cases "n = pcb") auto
  have ex: "exclusive ?w"
    unfolding exclusive_def
  proof (intro ballI allI impI)
    fix n m d e
    assume a: "n \<in> set (udp_pcbs ?w)" "m \<in> set (udp_pcbs ?w)" "n \<noteq> m" "udp_mem ?w n = Some d" "udp_mem ?w m = Some e"
    obtain d' e' where "udp_mem w n = Some d'" "udp_mem w m = Some e'" "conflict d' e' = conflict d e"
      using old [OF a(4)] old [OF a(5)] by (auto simp: conflict_def)
    then show "\<not> conflict d e" using exclusiveD [of w n m] inv a(1-3) by (auto simp: udp_inv_def)
  qed
  moreover have "listed ?w" using inv by (auto simp: udp_inv_def listed_def)
  moreover have "n \<noteq> 0 \<and> (n \<in> set (udp_pcbs w) \<longleftrightarrow> local_port e \<noteq> 0)" if "udp_mem ?w n = Some e" for n e
    using old [OF that] udp_invD [OF inv] by metis
  ultimately show ?thesis using inv by (simp add: udp_inv_def)
qed

text \<open>A block is put in the list with an end that conflicts with no other.\<close>

lemma inv_bound:
  assumes inv: "udp_inv w" and c: "udp_mem w pcb = Some c" and port: "local_port c' \<noteq> 0"
    and free: "\<forall>n\<in>set (udp_pcbs w). \<forall>d. n \<noteq> pcb \<longrightarrow> udp_mem w n = Some d \<longrightarrow> \<not> conflict c' d"
    and ns: "ns = (if pcb \<in> set (udp_pcbs w) then udp_pcbs w else pcb # udp_pcbs w)"
  shows "udp_inv (w\<lparr>udp_mem := (udp_mem w)(pcb \<mapsto> c'), udp_pcbs := ns\<rparr>)"
proof -
  let ?w = "w\<lparr>udp_mem := (udp_mem w)(pcb \<mapsto> c'), udp_pcbs := ns\<rparr>"
  have set: "set ns = insert pcb (set (udp_pcbs w))" "distinct ns" using ns inv by (auto simp: udp_inv_def listed_def)
  have "exclusive ?w"
    unfolding exclusive_def
  proof (intro ballI allI impI)
    fix n m d e
    assume a: "n \<in> set (udp_pcbs ?w)" "m \<in> set (udp_pcbs ?w)" "n \<noteq> m" "udp_mem ?w n = Some d" "udp_mem ?w m = Some e"
    consider "n = pcb" | "m = pcb" | "n \<noteq> pcb" "m \<noteq> pcb" by blast
    then show "\<not> conflict d e"
    proof cases
      case 1
      then show ?thesis using a free set by auto
    next
      case 2
      then show ?thesis using a free set conflict_sym by auto
    next
      case 3
      then show ?thesis using a set inv exclusiveD [of w n m d e] by (auto simp: udp_inv_def)
    qed
  qed
  moreover have "listed ?w" using inv set udp_invD(1) [OF inv c] by (auto simp: udp_inv_def listed_def)
  ultimately show ?thesis using inv set port udp_invD(1) [OF inv c] by (auto simp: udp_inv_def)
qed

lemma inv_at_port: "udp_inv w \<Longrightarrow> q \<ge> UDP_LOCAL_PORT_RANGE_START \<Longrightarrow> udp_inv (w\<lparr>udp_port := q\<rparr>)"
  by (auto simp: udp_inv_def listed_def exclusive_def)

subsection \<open>Binding\<close>

text \<open>IPv6 routing gives an interface that exists, or none.\<close>

definition routes :: "'w inet_calls \<Rightarrow> bool" where
  "routes ic \<longleftrightarrow> (\<forall>src dest s. \<exists>n. ip6_route ic src dest s = ret n \<and> (n = 0 \<or> (\<exists>ni. netifs s n = Some ni)))"

lemma zoned_ok:
  assumes "routes ic"
  shows "\<exists>a'. zoned ic a src s = ret a' \<and> ip_type a' = ip_type a \<and> (\<not> IP_IS_V6 a \<longrightarrow> a' = a)
    \<and> addr (u_addr a') = addr (u_addr a)"
proof (cases "IP_IS_V6 a \<and> ip6_addr_lacks_zone (ip_2_ip6 a)")
  case True
  obtain n where n: "ip6_route ic src (ip_2_ip6 a) s = ret n" "n = 0 \<or> (\<exists>ni. netifs s n = Some ni)"
    using assms unfolding routes_def by blast
  then have "\<exists>a6. ip6_addr_select_zone ic (ip_2_ip6 a) src s = ret a6 \<and> addr a6 = addr (ip_2_ip6 a)"
    by (cases "n = 0") (auto simp: ip6_addr_select_zone_def nget_def)
  then show ?thesis using True by (auto simp: zoned_def ip_2_ip6_def)
next
  case False
  then show ?thesis by (simp only: zoned_def) auto
qed

lemma bind_conflict_spec:
  assumes "\<forall>n\<in>set ns. n \<noteq> 0 \<and> udp_mem (world s) n \<noteq> None"
  shows "bind_conflict pcb ip port ns s =
    ret (\<exists>n\<in>set ns. n \<noteq> pcb \<and> (\<exists>d. udp_mem (world s) n = Some d \<and> conflict (c\<lparr>local_ip := ip, local_port := port\<rparr>) d))"
  using assms
proof (induction ns)
  case (Cons n ns)
  then obtain d where d: "n \<noteq> 0" "udp_mem (world s) n = Some d" by auto
  have "uget n s = ret d" using d by (rule uget_ret)
  moreover have "(local_port d = port \<and> (ip_addr_cmp (local_ip d) ip \<or> ip_addr_isany ip \<or> ip_addr_isany (local_ip d)))
      \<longleftrightarrow> conflict (c\<lparr>local_ip := ip, local_port := port\<rparr>) d"
    by (auto simp: conflict_def ip_addr_cmp_sym)
  ultimately show ?case using Cons d(2) by (cases "n = pcb") auto
qed simp

text \<open>The address and port that a block gets, and what is done to the state.\<close>

definition bound_to :: "nat \<Rightarrow> udp_pcb \<Rightarrow> 'w stack \<Rightarrow> 'w stack" where
  "bound_to pcb c s =
     on_world (\<lambda>w. w\<lparr>udp_mem := (udp_mem w)(pcb \<mapsto> c), udp_pcbs := if pcb \<in> set (udp_pcbs w) then udp_pcbs w else pcb # udp_pcbs w\<rparr>) s"

lemma bound_to_eq:
  "pcb \<notin> set (udp_pcbs (world s)) \<Longrightarrow> set_pcbs (pcb # udp_pcbs (world s)) (uput pcb c s) = bound_to pcb c s"
  "pcb \<in> set (udp_pcbs (world s)) \<Longrightarrow> uput pcb c s = bound_to pcb c s"
  by (simp_all add: bound_to_def set_pcbs_def uput_def on_world_def)

text \<open>Some block other than \<open>pcb\<close> has this end already.\<close>

definition in_use :: "'w inet \<Rightarrow> nat \<Rightarrow> udp_pcb \<Rightarrow> bool" where
  "in_use w pcb c \<longleftrightarrow> (\<exists>n\<in>set (udp_pcbs w). n \<noteq> pcb \<and> (\<exists>d. udp_mem w n = Some d \<and> conflict c d))"

lemma conflict_copy [simp]: "conflict (c\<lparr>local_ip := ip_addr_copy a, local_port := p\<rparr>) d = conflict (c\<lparr>local_ip := a, local_port := p\<rparr>) d"
  by (simp add: conflict_def)

lemma inv_bound_to:
  assumes "udp_inv (world s)" "udp_mem (world s) pcb = Some c" "local_port c' \<noteq> 0" "\<not> in_use (world s) pcb c'"
  shows "udp_inv (world (bound_to pcb c' s))"
  using inv_bound [OF assms(1-3) _ refl] assms(4) unfolding bound_to_def in_use_def on_world_simps by blast

lemma udp_bind_ok:
  fixes s :: "'w stack"
  assumes inv: "udp_inv (world s)" and r: "routes ic" and c: "udp_mem (world s) pcb = Some c" and a: "zoned ic ip (ip_2_ip6 ip) s = ret a"
  defines "c' \<equiv> \<lambda>p. c\<lparr>local_ip := ip_addr_copy a, local_port := p\<rparr>"
  shows "port \<noteq> 0 \<Longrightarrow> udp_bind ic pcb (Some ip) port s =
      ret (if in_use (world s) pcb (c' port) then (ERR_USE, s) else (ERR_OK, bound_to pcb (c' port) s))"
    and "\<exists>p q. q \<ge> UDP_LOCAL_PORT_RANGE_START \<and> udp_bind ic pcb (Some ip) 0 s =
      ret (if p = 0 then (ERR_USE, at_port q s) else (ERR_OK, bound_to pcb (c' p) (at_port q s)))
      \<and> (if \<forall>p\<ge>UDP_LOCAL_PORT_RANGE_START. p \<in> ports (world s) then p = 0 else p \<ge> UDP_LOCAL_PORT_RANGE_START \<and> p \<notin> ports (world s))"
proof -
  have n0: "pcb \<noteq> 0" and l: "listed (world s)" and rg: "udp_port (world s) \<ge> UDP_LOCAL_PORT_RANGE_START"
    using udp_invD(1) [OF inv c] udp_inv_listed [OF inv] by blast+
  have g: "uget pcb (at_port q s) = ret c" "uget pcb s = ret c" for q using n0 c by (simp_all add: uget_ret)
  show "udp_bind ic pcb (Some ip) port s = ret (if in_use (world s) pcb (c' port) then (ERR_USE, s) else (ERR_OK, bound_to pcb (c' port) s))" if "port \<noteq> 0"
  proof -
    have "bind_conflict pcb a port (udp_pcbs (world s)) s = ret (in_use (world s) pcb (c' port))"
      using bind_conflict_spec [of "udp_pcbs (world s)" s pcb a port c] l by (simp add: in_use_def c'_def listed_def)
    then show ?thesis using that n0 g bound_to_eq [of pcb s "c' port"]
      by (simp add: udp_bind_def a Let_def c'_def)
  qed
  from new_port_ok [OF l rg] obtain p q where p: "udp_new_port s = ret (p, at_port q s)" "q \<ge> UDP_LOCAL_PORT_RANGE_START"
    "if \<forall>p\<ge>UDP_LOCAL_PORT_RANGE_START. p \<in> ports (world s) then p = 0 else p \<ge> UDP_LOCAL_PORT_RANGE_START \<and> p \<notin> ports (world s)" by blast
  have "udp_bind ic pcb (Some ip) 0 s = ret (if p = 0 then (ERR_USE, at_port q s) else (ERR_OK, bound_to pcb (c' p) (at_port q s)))"
    using n0 g p(1) bound_to_eq [of pcb "at_port q s" "c' p"] by (simp add: udp_bind_def a Let_def c'_def)
  then show "\<exists>p q. q \<ge> UDP_LOCAL_PORT_RANGE_START \<and> udp_bind ic pcb (Some ip) 0 s =
      ret (if p = 0 then (ERR_USE, at_port q s) else (ERR_OK, bound_to pcb (c' p) (at_port q s)))
      \<and> (if \<forall>p\<ge>UDP_LOCAL_PORT_RANGE_START. p \<in> ports (world s) then p = 0 else p \<ge> UDP_LOCAL_PORT_RANGE_START \<and> p \<notin> ports (world s))"
    using p(2,3) by blast
qed

end
