(* ===== verification/Udp_Properties.thy ===== *)
theory Udp_Properties
  imports Udp_Table
begin

text \<open>
  What the interface of UDP promises to applications: ports are found, ends are exclusive, and every
  sequence of calls is safe; and what a change of address does to the blocks.
\<close>

subsection \<open>The other operations\<close>

lemma world_uput: "world (uput n c s) = (world s)\<lparr>udp_mem := (udp_mem (world s))(n \<mapsto> c)\<rparr>"
  by (simp add: uput_def)

lemma uput_inv:
  assumes "udp_inv (world s)" "udp_mem (world s) pcb = Some c" "local_ip c' = local_ip c" "local_port c' = local_port c"
  shows "udp_inv (world (uput pcb c' s))"
  unfolding world_uput by (rule inv_update [OF assms])

text \<open>Binding in one statement: the state is the old one, or the block is bound to a free end.\<close>

lemma bind_inv:
  assumes inv: "udp_inv (world s)" and r: "routes ic" and c: "udp_mem (world s) pcb = Some c"
  shows "\<exists>err s' c'. udp_bind ic pcb (Some ip) port s = ret (err, s') \<and> udp_inv (world s') \<and> pb s' = pb s \<and> netifs s' = netifs s
    \<and> udp_mem (world s') = (udp_mem (world s))(pcb \<mapsto> c') \<and> (err = ERR_OK \<longrightarrow> local_port c' \<noteq> 0)"
proof -
  obtain a where a: "zoned ic ip (ip_2_ip6 ip) s = ret a" using zoned_ok [OF r] by blast
  let ?c = "\<lambda>p. c\<lparr>local_ip := ip_addr_copy a, local_port := p\<rparr>"
  have id: "(udp_mem (world s))(pcb \<mapsto> c) = udp_mem (world s)" using c by (simp add: map_upd_triv)
  show ?thesis
  proof (cases "port = 0")
    case False
    have "udp_inv (world (bound_to pcb (?c port) s))" if "\<not> in_use (world s) pcb (?c port)"
      by (rule inv_bound_to [OF inv c _ that]) (simp add: False)
    then show ?thesis
      using udp_bind_ok(1) [OF inv r c a False] inv id False
      by (cases "in_use (world s) pcb (?c port)")
        (fastforce intro: exI [of _ c], fastforce intro: exI [of _ "?c port"] simp: bound_to_def on_world_def)
  next
    case True
    obtain p q where pq: "q \<ge> UDP_LOCAL_PORT_RANGE_START" "udp_bind ic pcb (Some ip) 0 s =
        ret (if p = 0 then (ERR_USE, at_port q s) else (ERR_OK, bound_to pcb (?c p) (at_port q s)))"
      and free: "if \<forall>p\<ge>UDP_LOCAL_PORT_RANGE_START. p \<in> ports (world s) then p = 0 else p \<ge> UDP_LOCAL_PORT_RANGE_START \<and> p \<notin> ports (world s)"
      using udp_bind_ok(2) [OF inv r c a] by blast
    have invq: "udp_inv (world (at_port q s))" using inv_at_port [OF inv pq(1)] by (simp add: at_port_def)
    have "udp_inv (world (bound_to pcb (?c p) (at_port q s)))" if "p \<noteq> 0"
    proof (rule inv_bound_to [OF invq])
      show "udp_mem (world (at_port q s)) pcb = Some c" using c by simp
      show "local_port (?c p) \<noteq> 0" using that by simp
      show "\<not> in_use (world (at_port q s)) pcb (?c p)"
        using free that by (auto simp: in_use_def ports_def conflict_def split: if_splits)
    qed
    then show ?thesis
      using pq(2) invq id True
      by (cases "p = 0")
        (fastforce intro: exI [of _ c] simp: at_port_def, fastforce intro: exI [of _ "?c p"] simp: bound_to_def on_world_def at_port_def)
  qed
qed

text \<open>The blocks are elements of their pool that are in use.\<close>

definition udp_memory :: "'w stack \<Rightarrow> bool" where
  "udp_memory s \<longleftrightarrow> pools_ok (memp_pools (pb s)) \<and> memp_inv (memp_pools (pb s)) (ppools (pb s)) \<and> MEMP_UDP_PCB < length (memp_pools (pb s))
     \<and> (\<forall>n c. udp_mem (world s) n = Some c \<longrightarrow> (MEMP_UDP_PCB, n) \<in> memp_live (memp_pools (pb s)) (ppools (pb s)))"

lemma new_inv:
  assumes inv: "udp_inv (world s)" and m: "udp_memory s"
  shows "\<exists>n s'. udp_new s = ret (n, s') \<and> udp_inv (world s') \<and> udp_memory s'
    \<and> (if n = 0 then world s' = world s else udp_mem (world s) n = None \<and> udp_mem (world s') = (udp_mem (world s))(n \<mapsto> fresh_pcb))"
proof -
  let ?p = "memp_pools (pb s)"
  have ok: "pools_ok ?p" "memp_inv ?p (ppools (pb s))" "MEMP_UDP_PCB < length ?p" using m by (simp_all add: udp_memory_def)
  obtain r m' where r: "memp_malloc ?p MEMP_UDP_PCB (ppools (pb s)) = ret (r, m')" "memp_inv ?p m'"
    "case r of None \<Rightarrow> m' = ppools (pb s) | Some a \<Rightarrow> free_list ?p (ppools (pb s)) MEMP_UDP_PCB = a # free_list ?p m' MEMP_UDP_PCB
        \<and> memp_live ?p m' = insert (MEMP_UDP_PCB, a) (memp_live ?p (ppools (pb s))) \<and> (MEMP_UDP_PCB, a) \<notin> memp_live ?p (ppools (pb s))"
    using memp_malloc_spec [OF ok] by (auto split: option.splits)
  let ?s = "s\<lparr>pb := (pb s)\<lparr>ppools := m'\<rparr>\<rparr>"
  show ?thesis
  proof (cases r)
    case None
    then have "?s = s" using r(3) by simp
    then show ?thesis using None r(1) inv m by (auto simp: udp_new_def)
  next
    case (Some a)
    have live: "memp_live ?p m' = insert (MEMP_UDP_PCB, a) (memp_live ?p (ppools (pb s)))" "(MEMP_UDP_PCB, a) \<notin> memp_live ?p (ppools (pb s))"
      using r(3) Some by simp_all
    have "(MEMP_UDP_PCB, a) \<in> memp_live ?p m'" using live by simp
    then have "a \<in> set (elements (?p ! MEMP_UDP_PCB))" by (simp add: memp_live_def)
    then have a0: "a \<noteq> 0" using elements_props(3) [OF ok(1,3)] by auto
    have new: "udp_mem (world s) a = None" using live(2) m by (cases "udp_mem (world s) a") (auto simp: udp_memory_def)
    then have "a \<notin> set (udp_pcbs (world s))" using inv by (auto simp: udp_inv_def listed_def)
    then have "udp_inv (world (uput a fresh_pcb ?s))"
      using inv a0 by (auto simp: udp_inv_def listed_def exclusive_def fresh_pcb_def)
    moreover have "udp_memory (uput a fresh_pcb ?s)" using m live(1) r(2) by (auto simp: udp_memory_def)
    ultimately show ?thesis using Some r(1) a0 new by (auto simp: udp_new_def)
  qed
qed

lemma remove_inv:
  assumes inv: "udp_inv (world s)" and m: "udp_memory s" and c: "udp_mem (world s) pcb = Some c"
  shows "\<exists>s'. udp_remove pcb s = ret s' \<and> udp_inv (world s') \<and> udp_memory s' \<and> udp_mem (world s') = (udp_mem (world s))(pcb := None)
    \<and> udp_pcbs (world s') = remove1 pcb (udp_pcbs (world s))"
proof -
  let ?p = "memp_pools (pb s)"
  have "(MEMP_UDP_PCB, pcb) \<in> memp_live ?p (ppools (pb s))" using m c by (simp add: udp_memory_def)
  then obtain m' where m': "memp_free ?p MEMP_UDP_PCB pcb (ppools (pb s)) = ret m'" "memp_inv ?p m'"
    "memp_live ?p m' = memp_live ?p (ppools (pb s)) - {(MEMP_UDP_PCB, pcb)}"
    using memp_free_spec [of ?p "ppools (pb s)" MEMP_UDP_PCB pcb] m by (auto simp: udp_memory_def)
  have n0: "pcb \<noteq> 0" using udp_invD(1) [OF inv c] .
  have d: "distinct (udp_pcbs (world s))" using inv by (simp add: udp_inv_def listed_def)
  let ?s = "on_world (\<lambda>w. w\<lparr>udp_mem := (udp_mem w)(pcb := None)\<rparr>)
      ((set_pcbs (remove1 pcb (udp_pcbs (world s))) s)\<lparr>pb := (pb s)\<lparr>ppools := m'\<rparr>\<rparr>)"
  have "udp_remove pcb s = ret ?s" using n0 m'(1) by (simp add: udp_remove_def Let_def)
  moreover have "udp_inv (world ?s)"
    using inv d by (auto simp: udp_inv_def listed_def exclusive_def set_pcbs_def)
  moreover have "udp_memory ?s" using m m'(2,3) by (auto simp: udp_memory_def set_pcbs_def)
  ultimately show ?thesis by (auto simp: set_pcbs_def)
qed

lemma connect_inv:
  assumes inv: "udp_inv (world s)" and r: "routes ic" and c: "udp_mem (world s) pcb = Some c"
  shows "\<exists>err s' d. udp_connect ic pcb ip port s = ret (err, s') \<and> udp_inv (world s') \<and> pb s' = pb s
    \<and> udp_mem (world s') = (udp_mem (world s))(pcb \<mapsto> d)"
proof -
  have n0: "pcb \<noteq> 0" using udp_invD(1) [OF inv c] .
  have g: "uget pcb s = ret c" using n0 c by (rule uget_ret)
  obtain err s1 c1 where s1: "(if local_port c = 0 then udp_bind ic pcb (Some (local_ip c)) (local_port c) s else ret (ERR_OK, s)) = ret (err, s1)"
    "udp_inv (world s1)" "pb s1 = pb s" "udp_mem (world s1) = (udp_mem (world s))(pcb \<mapsto> c1)" "err = ERR_OK \<longrightarrow> local_port c1 \<noteq> 0"
  proof (cases "local_port c = 0")
    case True
    then show ?thesis using that bind_inv [OF inv r c, of "local_ip c" 0] by fastforce
  next
    case False
    then show ?thesis using that [of ERR_OK s c] inv c by (simp add: map_upd_triv)
  qed
  show ?thesis
  proof (cases "err = ERR_OK")
    case False
    then show ?thesis using n0 g s1 by (auto simp: udp_connect_def)
  next
    case True
    have c1: "udp_mem (world s1) pcb = Some c1" using s1(4) by simp
    have g1: "uget pcb s1 = ret c1" using n0 c1 by (rule uget_ret)
    obtain a where a: "zoned ic (ip_addr_copy ip) (ip_2_ip6 (local_ip c1)) s1 = ret a" using zoned_ok [OF r] by blast
    let ?d = "c1\<lparr>remote_ip := a, remote_port := port, up_flags := up_flags c1 OR UDP_FLAGS_CONNECTED\<rparr>"
    have "udp_connect ic pcb ip port s = ret (ERR_OK, uput pcb ?d s1)"
      using n0 g g1 s1(1,5) a True udp_invD(2) [OF s1(2) c1] by (simp add: udp_connect_def)
    moreover have "udp_inv (world (uput pcb ?d s1))" using uput_inv [OF s1(2) c1, of ?d] by simp
    ultimately show ?thesis using s1(3,4) by (intro exI [of _ ERR_OK] exI [of _ "uput pcb ?d s1"] exI [of _ ?d]) simp
  qed
qed

subsection \<open>Sequences of calls\<close>

datatype udp_event =
    Udp_new
  | Udp_new_ip_type u8
  | Udp_bind nat ip_addr u16
  | Udp_bind_netif nat nat
  | Udp_connect nat ip_addr u16
  | Udp_disconnect nat
  | Udp_recv nat nat nat
  | Udp_remove nat

fun udp_step :: "udp_event \<Rightarrow> 'w inet_calls \<times> 'w stack \<Rightarrow> ('w inet_calls \<times> 'w stack) run" where
  "udp_step Udp_new (ic, s) = bind_run (udp_new s) (\<lambda>(_, s). ret (ic, s))"
| "udp_step (Udp_new_ip_type t) (ic, s) = bind_run (udp_new_ip_type t s) (\<lambda>(_, s). ret (ic, s))"
| "udp_step (Udp_bind pcb a p) (ic, s) = bind_run (udp_bind ic pcb (Some a) p s) (\<lambda>(_, s). ret (ic, s))"
| "udp_step (Udp_bind_netif pcb n) (ic, s) = bind_run (udp_bind_netif pcb n s) (\<lambda>s. ret (ic, s))"
| "udp_step (Udp_connect pcb a p) (ic, s) = bind_run (udp_connect ic pcb a p s) (\<lambda>(_, s). ret (ic, s))"
| "udp_step (Udp_disconnect pcb) (ic, s) = bind_run (udp_disconnect pcb s) (\<lambda>s. ret (ic, s))"
| "udp_step (Udp_recv pcb f a) (ic, s) = bind_run (udp_recv pcb f a s) (\<lambda>s. ret (ic, s))"
| "udp_step (Udp_remove pcb) (ic, s) = bind_run (udp_remove pcb s) (\<lambda>s. ret (ic, s))"

text \<open>A call is allowed on a block that was made and not removed, and for an interface that exists.\<close>

fun udp_allowed :: "udp_event \<Rightarrow> 'w inet_calls \<times> 'w stack \<Rightarrow> bool" where
  "udp_allowed Udp_new (ic, s) \<longleftrightarrow> True"
| "udp_allowed (Udp_new_ip_type t) (ic, s) \<longleftrightarrow> True"
| "udp_allowed (Udp_bind pcb a p) (ic, s) \<longleftrightarrow> udp_mem (world s) pcb \<noteq> None"
| "udp_allowed (Udp_bind_netif pcb n) (ic, s) \<longleftrightarrow> udp_mem (world s) pcb \<noteq> None \<and> (n = 0 \<or> netifs s n \<noteq> None)"
| "udp_allowed (Udp_connect pcb a p) (ic, s) \<longleftrightarrow> udp_mem (world s) pcb \<noteq> None"
| "udp_allowed (Udp_disconnect pcb) (ic, s) \<longleftrightarrow> udp_mem (world s) pcb \<noteq> None"
| "udp_allowed (Udp_recv pcb f a) (ic, s) \<longleftrightarrow> udp_mem (world s) pcb \<noteq> None"
| "udp_allowed (Udp_remove pcb) (ic, s) \<longleftrightarrow> udp_mem (world s) pcb \<noteq> None"

fun udp_machine_inv :: "'w inet_calls \<times> 'w stack \<Rightarrow> bool" where
  "udp_machine_inv (ic, s) \<longleftrightarrow> routes ic \<and> udp_inv (world s) \<and> udp_memory s"

text \<open>An operation that changes the block \<open>pcb\<close> and leaves the pools alone.\<close>

lemma memory_block:
  assumes "udp_memory s" "udp_mem (world s) pcb = Some c" "pb s' = pb s" "udp_mem (world s') = (udp_mem (world s))(pcb \<mapsto> d)"
  shows "udp_memory s'"
  using assms by (auto simp: udp_memory_def split: if_splits)

lemma udp_step_law:
  assumes "udp_machine_inv x" "udp_allowed e x"
  shows "\<exists>x'. udp_step e x = ret x' \<and> udp_machine_inv x'"
proof -
  obtain ic s where x: "x = (ic, s)" by (cases x)
  have r: "routes ic" and inv: "udp_inv (world s)" and m: "udp_memory s" using assms(1) by (simp_all add: x)
  have live: "\<exists>c. udp_mem (world s) pcb = Some c \<and> pcb \<noteq> 0 \<and> uget pcb s = ret c" if "udp_mem (world s) pcb \<noteq> None" for pcb
    using that udp_invD(1) [OF inv] uget_ret by blast
  have fin: "\<exists>x'. ret (ic, s') = ret x' \<and> udp_machine_inv x'" if "udp_inv (world s')" "udp_memory s'" for s'
    using that r by simp
  have put: "\<exists>x'. ret (ic, uput pcb d s) = ret x' \<and> udp_machine_inv x'"
    if "udp_mem (world s) pcb = Some c" "local_ip d = local_ip c" "local_port d = local_port c" for pcb c d
    using fin [OF uput_inv [OF inv that] memory_block [OF m that(1), of "uput pcb d s" d]] by simp
  obtain n s1 where s1: "udp_new s = ret (n, s1)" "udp_inv (world s1)" "udp_memory s1"
    "n \<noteq> 0 \<Longrightarrow> udp_mem (world s1) = (udp_mem (world s))(n \<mapsto> fresh_pcb)"
    using new_inv [OF inv m] by (auto split: if_splits)
  show ?thesis
  proof (cases e)
    case Udp_new
    then show ?thesis using s1(1) fin [OF s1(2,3)] by (simp add: x)
  next
    case (Udp_new_ip_type t)
    show ?thesis
    proof (cases "n = 0")
      case True
      then show ?thesis using Udp_new_ip_type s1(1) fin [OF s1(2,3)] by (simp add: x udp_new_ip_type_def)
    next
      case False
      let ?d = "fresh_pcb\<lparr>local_ip := (local_ip fresh_pcb)\<lparr>ip_type := t\<rparr>, remote_ip := (remote_ip fresh_pcb)\<lparr>ip_type := t\<rparr>\<rparr>"
      have f: "udp_mem (world s1) n = Some fresh_pcb" using s1(4) [OF False] by simp
      then have nl: "n \<notin> set (udp_pcbs (world s1))" using udp_invD(2) [OF s1(2) f] by (simp add: fresh_pcb_def)
      then have "udp_inv (world (uput n ?d s1))"
        using s1(2) False by (auto simp: udp_inv_def listed_def exclusive_def fresh_pcb_def)
      moreover have "udp_memory (uput n ?d s1)" using memory_block [OF s1(3) f, of "uput n ?d s1" ?d] by simp
      moreover have "uget n s1 = ret fresh_pcb" using False f by (rule uget_ret)
      ultimately show ?thesis using Udp_new_ip_type s1(1) False r by (simp add: x udp_new_ip_type_def)
    qed
  next
    case (Udp_bind pcb a p)
    then obtain c where c: "udp_mem (world s) pcb = Some c" using assms(2) by (auto simp: x)
    obtain err s' d where s': "udp_bind ic pcb (Some a) p s = ret (err, s')" "udp_inv (world s')" "pb s' = pb s" "udp_mem (world s') = (udp_mem (world s))(pcb \<mapsto> d)"
      using bind_inv [OF inv r c] by blast
    then show ?thesis using Udp_bind fin [OF s'(2) memory_block [OF m c s'(3,4)]] by (simp add: x)
  next
    case (Udp_bind_netif pcb n)
    then obtain c where c: "udp_mem (world s) pcb = Some c" "uget pcb s = ret c" using assms(2) live by (auto simp: x)
    obtain i where i: "(if n \<noteq> 0 then bind_run (nget n s) (\<lambda>ni. ret (netif_get_index ni)) else ret NETIF_NO_INDEX) = ret i"
      using Udp_bind_netif assms(2) by (cases "n = 0") (auto simp: x nget_def)
    have "udp_bind_netif pcb n s = ret (uput pcb (c\<lparr>netif_idx := i\<rparr>) s)" unfolding udp_bind_netif_def i using c(2) by simp
    then show ?thesis using Udp_bind_netif put [OF c(1), of "c\<lparr>netif_idx := i\<rparr>"] by (simp add: x)
  next
    case (Udp_connect pcb a p)
    then obtain c where c: "udp_mem (world s) pcb = Some c" using assms(2) by (auto simp: x)
    obtain err s' d where s': "udp_connect ic pcb a p s = ret (err, s')" "udp_inv (world s')" "pb s' = pb s" "udp_mem (world s') = (udp_mem (world s))(pcb \<mapsto> d)"
      using connect_inv [OF inv r c] by blast
    then show ?thesis using Udp_connect fin [OF s'(2) memory_block [OF m c s'(3,4)]] by (simp add: x)
  next
    case (Udp_disconnect pcb)
    then obtain c where c: "udp_mem (world s) pcb = Some c" "pcb \<noteq> 0" "uget pcb s = ret c" using assms(2) live by (auto simp: x)
    then show ?thesis using Udp_disconnect put [OF c(1)] by (simp add: x udp_disconnect_def Let_def)
  next
    case (Udp_recv pcb f a)
    then obtain c where c: "udp_mem (world s) pcb = Some c" "pcb \<noteq> 0" "uget pcb s = ret c" using assms(2) live by (auto simp: x)
    then show ?thesis using Udp_recv put [OF c(1)] by (simp add: x udp_recv_def)
  next
    case (Udp_remove pcb)
    then obtain c where c: "udp_mem (world s) pcb = Some c" using assms(2) by (auto simp: x)
    then show ?thesis using Udp_remove remove_inv [OF inv m c] fin by (auto simp: x)
  qed
qed

interpretation udp: run_machine udp_step udp_machine_inv udp_allowed
  by unfold_locales (rule udp_step_law)

subsection \<open>An example\<close>

text \<open>All blocks of the pool are taken; the ones at 10000 and 10608 are UDP blocks, which may be bound.\<close>

definition example_pcb :: "u32 \<Rightarrow> u16 \<Rightarrow> udp_pcb" where
  "example_pcb a p = fresh_pcb\<lparr>local_ip := ip_addr_copy_from_ip4 a, local_port := p, recv := 1, recv_arg := 7\<rparr>"

definition example_udp_pb :: pbuf_state where
  "example_udp_pb = example_ram_pbuf\<lparr>ppools := (ppools example_ram_pbuf)\<lparr>memp_tab := (memp_tab (ppools example_ram_pbuf))(MEMP_UDP_PCB := 0)\<rparr>\<rparr>"

definition example_ip_data :: ip_globals where
  "example_ip_data = \<lparr>current_netif = 0, current_input_netif = 0, current_ip4_header = 0, current_ip6_header = 0,
     current_ip_header_tot_len = 0, current_iphdr_src = IP4_ADDR_ANY, current_iphdr_dest = IP4_ADDR_ANY\<rparr>"

definition example_inet :: "nat list \<Rightarrow> udp_pcb \<Rightarrow> udp_pcb \<Rightarrow> frames inet" where
  "example_inet ns c d = \<lparr>ip_data = example_ip_data, ip_id = 1, ip4_default_multicast_netif = 0, udp_pcbs = ns,
     udp_mem = [10000 \<mapsto> c, 10608 \<mapsto> d], udp_port = 0xc000, outer = []\<rparr>"

definition example_stack :: "nat list \<Rightarrow> udp_pcb \<Rightarrow> udp_pcb \<Rightarrow> frames stack" where
  "example_stack ns c d = \<lparr>arp_table = example_table 0, etharp_cached_entry = 0, pb = example_udp_pb, netifs = [1 \<mapsto> example_netif],
     netif_list = [1], netif_default = 1, next_netif_num = 1, autoips = (\<lambda>_. None), world = example_inet ns c d\<rparr>"

definition example_inet_calls :: "frames inet_calls" where
  "example_inet_calls = \<lparr>netif_output = (\<lambda>n p a s. ret (ERR_OK, s)), ip4_frag = (\<lambda>p n a s. ret (ERR_OK, s)), ip4_reass = (\<lambda>p s. ret (p, s)),
     igmp_lookfor_group = (\<lambda>n a s. ret False), tcp_input = (\<lambda>p n s. ret s), icmp_input = (\<lambda>p n s. ret s), igmp_input = (\<lambda>p n a s. ret s),
     icmp_dest_unreach = (\<lambda>p c s. ret s), icmp6_dest_unreach = (\<lambda>p c s. ret s), ip6_route = (\<lambda>a b s. ret (if netifs s 1 \<noteq> None then 1 else 0)),
     ip6_select_source_address = (\<lambda>n a s. ret None), netif_get_ip6_addr_match = (\<lambda>n a s. ret (-1)),
     ip6_output_if_src = (\<lambda>p a b t u v n s. ret (ERR_RTE, s)),
     udp_recv_fn = (\<lambda>f arg pcb p a port s. ret (on_world (\<lambda>w. w\<lparr>outer := outer w @ [(pcb, [])]\<rparr>) s))\<rparr>"

lemma example_routes: "routes example_inet_calls"
  by (auto simp: routes_def example_inet_calls_def)

lemma example_pcbs_inv:
  "udp_inv (world (example_stack [10000] (example_pcb 0x0101A8C0 5000) fresh_pcb))"
  by (auto simp: udp_inv_def listed_def exclusive_def example_stack_def example_inet_def example_pcb_def fresh_pcb_def
      UDP_LOCAL_PORT_RANGE_START_def split: if_splits)

lemma example_udp_elements: "10000 \<in> set (elements (example_net_pools ! MEMP_UDP_PCB))" "10608 \<in> set (elements (example_net_pools ! MEMP_UDP_PCB))"
proof -
  have d: "example_net_pools ! MEMP_UDP_PCB = \<lparr>desc_size = 608, desc_num = 16, desc_base = 10000\<rparr>"
    by (simp add: example_net_pools_def MEMP_UDP_PCB_def)
  have "set (elements (example_net_pools ! MEMP_UDP_PCB)) = (\<lambda>i. 10000 + i * 608) ` {0..<16}"
    unfolding d by (simp add: elements_def LWIP_MEM_ALIGN_def)
  then show "10000 \<in> set (elements (example_net_pools ! MEMP_UDP_PCB))" "10608 \<in> set (elements (example_net_pools ! MEMP_UDP_PCB))"
    by (auto intro: image_eqI [of _ _ 0] image_eqI [of _ _ 1])
qed

lemma example_udp_empty: "free_list example_net_pools (ppools example_udp_pb) MEMP_UDP_PCB = []"
proof -
  have "link_walk nx n 0 = []" for nx n by (cases n) simp_all
  then show ?thesis by (simp add: free_list_def example_udp_pb_def)
qed

lemma example_udp_pools: "memp_inv example_net_pools (ppools example_udp_pb)"
proof -
  let ?i = "memp_init example_net_pools \<lparr>memp_tab = (\<lambda>_. 0), memp_next = (\<lambda>_. 0)\<rparr>"
  have m: "ppools example_udp_pb = ?i\<lparr>memp_tab := (memp_tab ?i)(MEMP_UDP_PCB := 0)\<rparr>"
    by (simp add: example_udp_pb_def example_ram_pbuf_def example_net_def)
  have "pool_inv example_net_pools (ppools example_udp_pb) t" if t: "t < length example_net_pools" for t
  proof (cases "t = MEMP_UDP_PCB")
    case True
    then show ?thesis using example_udp_empty by (simp add: pool_inv_def m)
  next
    case False
    have "pool_inv example_net_pools ?i t" using memp_init_spec(1) [OF example_net_pools_ok] t by (simp add: memp_inv_iff)
    then show ?thesis using False by (simp add: pool_inv_def free_list_def m)
  qed
  then show ?thesis by (simp add: memp_inv_iff)
qed

lemma example_udp_memory: "udp_memory (example_stack ns c d)"
proof -
  have pools: "memp_pools example_udp_pb = example_net_pools" by (simp add: example_udp_pb_def example_ram_pbuf_def example_net_def)
  have len: "MEMP_UDP_PCB < length example_net_pools" by (simp add: example_net_pools_def MEMP_UDP_PCB_def)
  have "(MEMP_UDP_PCB, n) \<in> memp_live example_net_pools (ppools example_udp_pb)" if "n = 10000 \<or> n = 10608" for n
    using that example_udp_elements example_udp_empty len by (auto simp: memp_live_def)
  then show ?thesis
    using example_net_pools_ok example_udp_pools len
    by (auto simp: udp_memory_def example_stack_def example_inet_def pools split: if_splits)
qed

subsection \<open>The properties\<close>

text \<open>
  C20: looking for a local port always ends, after at most 16384 rounds of its loop: with a port of the range
  49152 to 65535 that no bound block has, or, only when every port of the range is taken, with 0. Nothing but
  the last port that was tried changes.
\<close>

theorem udp_new_port_correct:
  assumes "listed (world s)" and "udp_port (world s) \<ge> UDP_LOCAL_PORT_RANGE_START"
  shows "\<exists>r q. udp_new_port s = ret (r, at_port q s) \<and> q \<ge> UDP_LOCAL_PORT_RANGE_START
    \<and> (if \<forall>p\<ge>UDP_LOCAL_PORT_RANGE_START. p \<in> ports (world s) then r = 0
       else r \<ge> UDP_LOCAL_PORT_RANGE_START \<and> r \<notin> ports (world s))"
  using new_port_ok [OF assms] .

theorem udp_new_port_correct_witness:
  "\<exists>r q. udp_new_port (example_stack [10000] (example_pcb 0x0101A8C0 0xc001) fresh_pcb) = ret (r, at_port q (example_stack [10000] (example_pcb 0x0101A8C0 0xc001) fresh_pcb))
     \<and> r \<ge> UDP_LOCAL_PORT_RANGE_START \<and> r \<noteq> 0xc001"
proof -
  let ?s = "example_stack [10000] (example_pcb 0x0101A8C0 0xc001) fresh_pcb"
  have p: "ports (world ?s) = {0xc001}" by (auto simp: ports_def example_stack_def example_inet_def example_pcb_def)
  have "listed (world ?s)" "udp_port (world ?s) \<ge> UDP_LOCAL_PORT_RANGE_START"
    by (simp_all add: listed_def example_stack_def example_inet_def UDP_LOCAL_PORT_RANGE_START_def)
  from udp_new_port_correct [OF this] obtain r q where r: "udp_new_port ?s = ret (r, at_port q ?s)"
    "if \<forall>p\<ge>UDP_LOCAL_PORT_RANGE_START. p \<in> ports (world ?s) then r = 0 else r \<ge> UDP_LOCAL_PORT_RANGE_START \<and> r \<notin> ports (world ?s)" by blast
  have "\<not> (\<forall>p\<ge>UDP_LOCAL_PORT_RANGE_START. p \<in> ports (world ?s))" unfolding p by (auto intro!: exI [of _ UDP_LOCAL_PORT_RANGE_START] simp: UDP_LOCAL_PORT_RANGE_START_def)
  from r(2) [unfolded if_not_P [OF this]] show ?thesis using r(1) unfolding p by auto
qed

text \<open>
  C15: \<open>udp_bind\<close> on a block that exists always returns. With a port given, it fails with \<open>ERR_USE\<close> exactly
  if another bound block has this port together with the same address or with a wildcard on either side;
  without, exactly if the ports of the local range are all taken. If it fails no block changes. If it succeeds the block is in the
  list with the address (an IPv6 address that lacks its zone gets one) and the port, and no other block changes; and in both cases
  the invariant holds again: bound blocks exclude one another.
\<close>

theorem udp_bind_correct:
  fixes s :: "'w stack" and a :: ip_addr
  assumes "udp_inv (world s)" and "routes ic" and "udp_mem (world s) pcb = Some c" and "zoned ic ip (ip_2_ip6 ip) s = ret a"
  defines "c' \<equiv> \<lambda>p. c\<lparr>local_ip := ip_addr_copy a, local_port := p\<rparr>"
  shows "\<exists>err s'. udp_bind ic pcb (Some ip) port s = ret (err, s') \<and> udp_inv (world s') \<and> exclusive (world s')
    \<and> (err = ERR_USE \<longleftrightarrow> (if port = 0 then \<forall>p\<ge>UDP_LOCAL_PORT_RANGE_START. p \<in> ports (world s) else in_use (world s) pcb (c' port)))
    \<and> (if err = ERR_USE then udp_mem (world s') = udp_mem (world s) \<and> udp_pcbs (world s') = udp_pcbs (world s)
       else err = ERR_OK \<and> set (udp_pcbs (world s')) = insert pcb (set (udp_pcbs (world s)))
         \<and> (\<exists>p. (if port = 0 then p \<ge> UDP_LOCAL_PORT_RANGE_START else p = port) \<and> udp_mem (world s') = (udp_mem (world s))(pcb \<mapsto> c' p)))"
proof -
  obtain err s' where b: "udp_bind ic pcb (Some ip) port s = ret (err, s')" "udp_inv (world s')"
    using bind_inv [OF assms(1-3)] by blast
  have ex: "exclusive (world s')" using b(2) by (simp add: udp_inv_def)
  show ?thesis
  proof (cases "port = 0")
    case False
    have r: "udp_bind ic pcb (Some ip) port s = ret (if in_use (world s) pcb (c' port) then (ERR_USE, s) else (ERR_OK, bound_to pcb (c' port) s))"
      unfolding c'_def by (rule udp_bind_ok(1) [OF assms(1-4) False])
    show ?thesis
      using r b ex False by (cases "in_use (world s) pcb (c' port)") (auto simp: bound_to_def insert_absorb)
  next
    case True
    obtain p q where r: "udp_bind ic pcb (Some ip) 0 s = ret (if p = 0 then (ERR_USE, at_port q s) else (ERR_OK, bound_to pcb (c' p) (at_port q s)))"
      and p: "if \<forall>p\<ge>UDP_LOCAL_PORT_RANGE_START. p \<in> ports (world s) then p = 0 else p \<ge> UDP_LOCAL_PORT_RANGE_START \<and> p \<notin> ports (world s)"
      using udp_bind_ok(2) [OF assms(1-4)] unfolding c'_def by blast
    show ?thesis
    proof (cases "\<forall>p\<ge>UDP_LOCAL_PORT_RANGE_START. p \<in> ports (world s)")
      case all: True
      then have "err = ERR_USE" "s' = at_port q s" using r b(1) p True by auto
      then show ?thesis using b ex True all by auto
    next
      case some: False
      have p0: "p \<noteq> 0" "p \<ge> UDP_LOCAL_PORT_RANGE_START" using p [unfolded if_not_P [OF some]] by (auto simp: UDP_LOCAL_PORT_RANGE_START_def)
      then have e: "err = ERR_OK" "s' = bound_to pcb (c' p) (at_port q s)" using r b(1) True by auto
      then have "udp_mem (world s') = (udp_mem (world s))(pcb \<mapsto> c' p)" "set (udp_pcbs (world s')) = insert pcb (set (udp_pcbs (world s)))"
        by (auto simp: bound_to_def insert_absorb)
      then show ?thesis using b ex True some e(1) p0(2) by auto
    qed
  qed
qed

theorem udp_bind_correct_witness:
  "\<exists>s'. udp_bind example_inet_calls 10608 (Some (ip_addr_copy_from_ip4 0)) 5000 (example_stack [10000] (example_pcb 0x0101A8C0 5000) fresh_pcb) = ret (ERR_USE, s')"
proof -
  let ?s = "example_stack [10000] (example_pcb 0x0101A8C0 5000) fresh_pcb" and ?a = "ip_addr_copy_from_ip4 0"
  have m: "udp_mem (world ?s) 10608 = Some fresh_pcb" by (simp add: example_stack_def example_inet_def)
  have z: "zoned example_inet_calls ?a (ip_2_ip6 ?a) ?s = ret ?a" by (simp add: zoned_def)
  have "in_use (world ?s) 10608 (fresh_pcb\<lparr>local_ip := ip_addr_copy ?a, local_port := 5000\<rparr>)"
    by (auto simp: in_use_def example_stack_def example_inet_def conflict_def example_pcb_def)
  then show ?thesis using udp_bind_correct [OF example_pcbs_inv example_routes m z, of 5000] by auto
qed

text \<open>
  C16: every sequence of calls of the interface of UDP (making, binding, connecting, disconnecting and removing
  blocks) on blocks that exist returns without failed assertion or bad pointer; afterwards the list holds exactly the
  blocks that have a port, without duplicates, all of them are live elements of the pool, and no two of them have conflicting ends.
\<close>

theorem udp_sequences_exclusive:
  assumes "routes ic" and "udp_inv (world s)" and "udp_memory s" and "all_allowed udp_step udp_allowed es (ic, s)"
  shows "\<exists>s'. run_all udp_step es (ic, s) = ret (ic, s') \<and> udp_inv (world s') \<and> udp_memory s' \<and> exclusive (world s')"
proof -
  have ic: "fst w' = fst w" if "udp_step e w = ret w'" for e and w w' :: "'a inet_calls \<times> 'a stack"
    using that by (cases w; cases e) (auto elim!: bind_run_retE)
  have "fst w' = fst w" if "run_all udp_step es w = ret w'" for es and w w' :: "'a inet_calls \<times> 'a stack"
    using that by (induction es arbitrary: w) (auto elim!: bind_run_retE dest: ic)
  moreover have "udp_machine_inv (ic, s)" using assms(1-3) by auto
  ultimately show ?thesis using udp.run_all_law [OF _ assms(4)] by (fastforce simp: udp_inv_def)
qed

theorem udp_sequences_exclusive_witness:
  "\<exists>s'. run_all udp_step [Udp_connect 10608 (ip_addr_copy_from_ip4 0x0201A8C0) 53, Udp_remove 10000, Udp_new]
     (example_inet_calls, example_stack [10000] (example_pcb 0x0101A8C0 5000) fresh_pcb) = ret (example_inet_calls, s') \<and> exclusive (world s')"
proof -
  let ?s = "example_stack [10000] (example_pcb 0x0101A8C0 5000) fresh_pcb" and ?a = "ip_addr_copy_from_ip4 0x0201A8C0"
  have m: "udp_mem (world ?s) 10608 = Some fresh_pcb" "udp_mem (world ?s) 10000 \<noteq> None" by (simp_all add: example_stack_def example_inet_def)
  obtain err s1 d where s1: "udp_connect example_inet_calls 10608 ?a 53 ?s = ret (err, s1)"
    "udp_mem (world s1) = (udp_mem (world ?s))(10608 \<mapsto> d)"
    using connect_inv [OF example_pcbs_inv example_routes m(1)] by blast
  have st: "udp_step (Udp_connect 10608 ?a 53) (example_inet_calls, ?s) = ret (example_inet_calls, s1)" using s1(1) by simp
  have "all_allowed udp_step udp_allowed [Udp_connect 10608 ?a 53, Udp_remove 10000, Udp_new] (example_inet_calls, ?s)"
    unfolding all_allowed.simps st using m s1(2) by (auto simp: ret_def split: option.splits sum.splits)
  from udp_sequences_exclusive [OF example_routes example_pcbs_inv example_udp_memory this] show ?thesis by blast
qed

subsection \<open>A change of address\<close>

definition readdressed :: "ip_addr \<Rightarrow> ip_addr \<Rightarrow> udp_pcb \<Rightarrow> udp_pcb" where
  "readdressed old new c = (if ip_addr_cmp (local_ip c) old then c\<lparr>local_ip := ip_addr_copy new\<rparr> else c)"

lemma addr_changed_loop_spec:
  assumes "\<forall>n\<in>set ns. n \<noteq> 0 \<and> udp_mem (world s) n \<noteq> None" "distinct ns"
  shows "addr_changed_loop old new ns s =
    ret (on_world (\<lambda>w. w\<lparr>udp_mem := \<lambda>n. if n \<in> set ns then map_option (readdressed old new) (udp_mem w n) else udp_mem w n\<rparr>) s)"
  using assms
proof (induction ns arbitrary: s)
  case Nil
  then show ?case by (simp add: on_world_def)
next
  case (Cons n ns)
  then obtain c where c: "n \<noteq> 0" "udp_mem (world s) n = Some c" by auto
  let ?s = "if ip_addr_cmp (local_ip c) old then uput n (c\<lparr>local_ip := ip_addr_copy new\<rparr>) s else s"
  have mem: "udp_mem (world ?s) = (udp_mem (world s))(n \<mapsto> readdressed old new c)"
    using c(2) by (auto simp: readdressed_def)
  have s: "?s = on_world (\<lambda>w. w\<lparr>udp_mem := (udp_mem w)(n \<mapsto> readdressed old new c)\<rparr>) s"
    using c(2) by (auto simp: readdressed_def uput_def on_world_def fun_upd_idem)
  have "addr_changed_loop old new ns ?s =
      ret (on_world (\<lambda>w. w\<lparr>udp_mem := \<lambda>k. if k \<in> set ns then map_option (readdressed old new) (udp_mem w k) else udp_mem w k\<rparr>) ?s)"
    by (rule Cons.IH) (use Cons.prems mem in auto)
  moreover have "uget n s = ret c" using c by (rule uget_ret)
  moreover have "on_world (\<lambda>w. w\<lparr>udp_mem := \<lambda>k. if k \<in> set ns then map_option (readdressed old new) (udp_mem w k) else udp_mem w k\<rparr>) ?s =
      on_world (\<lambda>w. w\<lparr>udp_mem := \<lambda>k. if k \<in> set (n # ns) then map_option (readdressed old new) (udp_mem w k) else udp_mem w k\<rparr>) s"
    unfolding s using Cons.prems(2) c(2) by (auto simp: on_world_def fun_eq_iff intro!: arg_cong [where f = "\<lambda>f. s\<lparr>world := (world s)\<lparr>udp_mem := f\<rparr>\<rparr>"])
  ultimately show ?case by simp
qed

lemma readdressed_conflict:
  assumes "\<not> conflict c d" "\<not> ip_addr_isany old" "\<not> ip_addr_isany new"
  shows "conflict (readdressed old new c) (readdressed old new d) \<longleftrightarrow> local_port c = local_port d
    \<and> (ip_addr_cmp (local_ip c) old \<and> ip_addr_cmp (local_ip d) new \<or> ip_addr_cmp (local_ip d) old \<and> ip_addr_cmp (local_ip c) new)"
proof -
  have "\<not> ip_addr_cmp (local_ip c) (local_ip d) \<or> local_port c \<noteq> local_port d" using assms(1) by (auto simp: conflict_def)
  moreover have "ip_addr_cmp (local_ip c) old \<Longrightarrow> ip_addr_cmp (local_ip d) old \<Longrightarrow> ip_addr_cmp (local_ip c) (local_ip d)"
    by (metis ip_addr_cmp_sym ip_addr_cmp_trans)
  ultimately show ?thesis
    using assms by (auto simp: conflict_def readdressed_def ip_addr_cmp_sym)
qed

text \<open>
  C18: when the address of an interface changes from \<open>old\<close> to \<open>new\<close>, exactly the blocks that are bound to \<open>old\<close> get the
  address \<open>new\<close>. Afterwards bound blocks still exclude one another if and only if no port is bound at both
  addresses before: the code does not check this, so two blocks can end up bound to the same address and port,
  which \<open>udp_bind\<close> refuses.
\<close>

theorem udp_addr_changed_correct:
  assumes "udp_inv (world s)" and "\<not> ip_addr_isany old" and "\<not> ip_addr_isany new"
  shows "\<exists>s'. udp_netif_ip_addr_changed old (Some new) s = ret s' \<and> udp_pcbs (world s') = udp_pcbs (world s)
    \<and> (\<forall>n. udp_mem (world s') n = (if n \<in> set (udp_pcbs (world s)) then map_option (readdressed old new) (udp_mem (world s) n) else udp_mem (world s) n))
    \<and> (exclusive (world s') \<longleftrightarrow> \<not> (\<exists>n\<in>set (udp_pcbs (world s)). \<exists>m\<in>set (udp_pcbs (world s)). \<exists>c d. n \<noteq> m
        \<and> udp_mem (world s) n = Some c \<and> udp_mem (world s) m = Some d \<and> local_port c = local_port d
        \<and> ip_addr_cmp (local_ip c) old \<and> ip_addr_cmp (local_ip d) new))"
proof -
  let ?ns = "udp_pcbs (world s)"
  let ?s = "on_world (\<lambda>w. w\<lparr>udp_mem := \<lambda>n. if n \<in> set ?ns then map_option (readdressed old new) (udp_mem w n) else udp_mem w n\<rparr>) s"
  have l: "\<forall>n\<in>set ?ns. n \<noteq> 0 \<and> udp_mem (world s) n \<noteq> None" "distinct ?ns" and ex: "exclusive (world s)"
    using assms(1) by (auto simp: udp_inv_def listed_def)
  have run: "udp_netif_ip_addr_changed old (Some new) s = ret ?s"
    using assms(2,3) addr_changed_loop_spec [OF l] by (simp add: Udp.udp_netif_ip_addr_changed_def)
  have no: "\<not> conflict c d" if "n \<in> set ?ns" "m \<in> set ?ns" "n \<noteq> m" "udp_mem (world s) n = Some c" "udp_mem (world s) m = Some d" for n m c d
    using ex that unfolding exclusive_def by blast
  have "exclusive (world ?s) \<longleftrightarrow> (\<forall>n\<in>set ?ns. \<forall>m\<in>set ?ns. \<forall>c d. n \<noteq> m \<longrightarrow> udp_mem (world s) n = Some c \<longrightarrow> udp_mem (world s) m = Some d
      \<longrightarrow> \<not> conflict (readdressed old new c) (readdressed old new d))"
    by (fastforce simp: exclusive_def)
  also have "\<dots> \<longleftrightarrow> \<not> (\<exists>n\<in>set ?ns. \<exists>m\<in>set ?ns. \<exists>c d. n \<noteq> m \<and> udp_mem (world s) n = Some c \<and> udp_mem (world s) m = Some d
      \<and> local_port c = local_port d \<and> ip_addr_cmp (local_ip c) old \<and> ip_addr_cmp (local_ip d) new)"
    using readdressed_conflict [OF no assms(2,3)] by metis
  finally show ?thesis using run by auto
qed

theorem udp_addr_changed_correct_witness:
  "\<exists>s'. udp_netif_ip_addr_changed (ip_addr_copy_from_ip4 0x0101A8C0) (Some (ip_addr_copy_from_ip4 0x0501A8C0))
     (example_stack [10000, 10608] (example_pcb 0x0101A8C0 5000) (example_pcb 0x0501A8C0 5000)) = ret s' \<and> \<not> exclusive (world s')"
proof -
  let ?s = "example_stack [10000, 10608] (example_pcb 0x0101A8C0 5000) (example_pcb 0x0501A8C0 5000)"
  have mem: "udp_mem (world ?s) 10000 = Some (example_pcb 0x0101A8C0 5000)" "udp_mem (world ?s) 10608 = Some (example_pcb 0x0501A8C0 5000)"
    "set (udp_pcbs (world ?s)) = {10000, 10608}" by (auto simp: example_stack_def example_inet_def)
  have cmp: "ip_addr_cmp (local_ip (example_pcb a p)) (ip_addr_copy_from_ip4 b) \<longleftrightarrow> a = b" "local_port (example_pcb a p) = p" for a b p
    by (auto simp: example_pcb_def ip_addr_cmp_def)
  have "udp_inv (world ?s)"
    by (auto simp: udp_inv_def listed_def exclusive_def example_stack_def example_inet_def example_pcb_def fresh_pcb_def conflict_def ip_addr_cmp_def
        UDP_LOCAL_PORT_RANGE_START_def split: if_splits)
  from udp_addr_changed_correct [OF this, of "ip_addr_copy_from_ip4 0x0101A8C0" "ip_addr_copy_from_ip4 0x0501A8C0"] mem
  show ?thesis by (auto simp: cmp)
qed

end
