(* ===== verification/Udp_Types.thy ===== *)
theory Udp_Types
  imports Udp_Properties
begin

text \<open>
  The types of the C structs that HOL types leave open: an address is four words (the array \<open>addr\<close> of
  \<open>struct ip6_addr\<close>) in every block, whatever the interface of UDP is called with.
\<close>

definition pcb_typed :: "udp_pcb \<Rightarrow> bool" where
  "pcb_typed c \<longleftrightarrow> ip_wf (local_ip c) \<and> ip_wf (remote_ip c)"

definition blocks_typed :: "'w inet \<Rightarrow> bool" where
  "blocks_typed w \<longleftrightarrow> (\<forall>n c. udp_mem w n = Some c \<longrightarrow> pcb_typed c)"

fun event_typed :: "udp_event \<Rightarrow> bool" where
  "event_typed (Udp_bind pcb a p) = ip_wf a"
| "event_typed (Udp_connect pcb a p) = ip_wf a"
| "event_typed _ = True"

lemma typed_uput: "blocks_typed (world s) \<Longrightarrow> pcb_typed c \<Longrightarrow> blocks_typed (world (uput n c s))"
  by (auto simp: blocks_typed_def)

lemma typed_set_pcbs [simp]: "blocks_typed (world (set_pcbs ns s)) = blocks_typed (world s)"
  by (simp add: blocks_typed_def)

lemma typed_uget: "blocks_typed (world s) \<Longrightarrow> uget n s = ret c \<Longrightarrow> pcb_typed c"
  by (auto simp: blocks_typed_def uget_def split: if_splits option.splits)

lemma zoned_typed:
  assumes "zoned ic a src s = ret a'" "ip_wf a"
  shows "ip_wf a'"
  using assms unfolding zoned_def ip6_addr_select_zone_def
  by (auto simp: ip_wf_def ip6_wf_def ip_2_ip6_def split: if_splits elim!: bind_run_retE)

lemma new_port_mem:
  assumes "new_port_loop n s = Some r" "r = Inr (p, s')"
  shows "udp_mem (world s') = udp_mem (world s)"
  using assms
proof (induction n s r rule: new_port_loop.raw_induct [rotated, consumes 1, case_names body])
  case (body f n s r)
  let ?s0 = "on_world (\<lambda>w. w\<lparr>udp_port := udp_port w + 1\<rparr>) s"
  define t where "t = (if udp_port (world s) = UDP_LOCAL_PORT_RANGE_END then on_world (\<lambda>w. w\<lparr>udp_port := UDP_LOCAL_PORT_RANGE_START\<rparr>) ?s0 else ?s0)"
  have t: "udp_mem (world t) = udp_mem (world s)" by (simp add: t_def)
  have "bind_run (port_taken (udp_port (world t)) (udp_pcbs (world t)) t) (\<lambda>taken.
      if taken then if n + 1 > UDP_LOCAL_PORT_RANGE_END - UDP_LOCAL_PORT_RANGE_START then ret (0, t) else f (n + 1) t
      else ret (udp_port (world t), t)) = ret (p, s')"
    using body.hyps unfolding Let_def t_def [symmetric] body.prems ret_def .
  then obtain taken where "(if taken then if n + 1 > UDP_LOCAL_PORT_RANGE_END - UDP_LOCAL_PORT_RANGE_START then ret (0, t) else f (n + 1) t
      else ret (udp_port (world t), t)) = ret (p, s')" by (rule bind_run_retE)
  then have "t = s' \<or> f (n + 1) t = Some (Inr (p, s'))" by (auto simp: ret_def split: if_splits)
  then show ?case using body.IH [OF _ refl] t by auto
qed

lemma new_port_keeps: "udp_new_port s = ret (p, s') \<Longrightarrow> udp_mem (world s') = udp_mem (world s)"
  using new_port_mem [OF _ refl] by (simp add: udp_new_port_def ret_def)

lemma bind_typed:
  assumes "udp_bind ic pcb (Some a) port s = ret (err, s')" "blocks_typed (world s)" "ip_wf a"
  shows "blocks_typed (world s')"
proof -
  obtain a' where a': "zoned ic a (ip_2_ip6 a) s = ret a'"
    and r: "bind_run (if port = 0 then bind_run (udp_new_port s) (\<lambda>(port, s). if port = 0 then ret (ERR_USE, port, s) else ret (ERR_OK, port, s))
             else bind_run (bind_conflict pcb a' port (udp_pcbs (world s)) s) (\<lambda>c. if c then ret (ERR_USE, port, s) else ret (ERR_OK, port, s)))
          (\<lambda>(err, port, t). if err \<noteq> ERR_OK then ret (err, t)
           else bind_run (uget pcb t) (\<lambda>c.
             let t = uput pcb (c\<lparr>local_ip := ip_addr_copy a', local_port := port\<rparr>) t;
                 t = (if \<not> pcb \<in> set (udp_pcbs (world s)) then set_pcbs (pcb # udp_pcbs (world t)) t else t)
             in ret (ERR_OK, t))) = ret (err, s')"
    using assms(1) by (auto simp: udp_bind_def Let_def elim!: lwip_assert_retE bind_run_retE)
  from r obtain x where x: "(if port = 0 then bind_run (udp_new_port s) (\<lambda>(port, s). if port = 0 then ret (ERR_USE, port, s) else ret (ERR_OK, port, s))
             else bind_run (bind_conflict pcb a' port (udp_pcbs (world s)) s) (\<lambda>c. if c then ret (ERR_USE, port, s) else ret (ERR_OK, port, s))) = ret x"
    and fx: "(case x of (err, port, t) \<Rightarrow> if err \<noteq> ERR_OK then ret (err, t)
           else bind_run (uget pcb t) (\<lambda>c.
             let t = uput pcb (c\<lparr>local_ip := ip_addr_copy a', local_port := port\<rparr>) t;
                 t = (if \<not> pcb \<in> set (udp_pcbs (world s)) then set_pcbs (pcb # udp_pcbs (world t)) t else t)
             in ret (ERR_OK, t))) = ret (err, s')" by (rule bind_run_retE)
  obtain e p t where xs: "x = (e, p, t)" by (cases x)
  have t: "udp_mem (world t) = udp_mem (world s)"
    using x unfolding xs by (auto split: if_splits prod.splits elim!: bind_run_retE dest: new_port_keeps)
  note f = fx [unfolded xs prod.case]
  have ty: "blocks_typed (world t)" using assms(2) t by (simp add: blocks_typed_def)
  have "ip_wf (ip_addr_copy a')" using zoned_typed [OF a' assms(3)] by simp
  then have "pcb_typed (c\<lparr>local_ip := ip_addr_copy a', local_port := p\<rparr>)" if "uget pcb t = ret c" for c
    using typed_uget [OF ty that] by (simp add: pcb_typed_def)
  then show ?thesis using f ty typed_uput [OF ty] by (auto simp: Let_def split: if_splits elim!: bind_run_retE)
qed

lemma connect_typed:
  assumes "udp_connect ic pcb a port s = ret (err, s')" "blocks_typed (world s)" "ip_wf a"
  shows "blocks_typed (world s')"
proof -
  obtain c x where c: "uget pcb s = ret c" and x: "(if local_port c = 0 then udp_bind ic pcb (Some (local_ip c)) (local_port c) s else ret (ERR_OK, s)) = ret x"
    and fx: "(case x of (err, s) \<Rightarrow> if err \<noteq> ERR_OK then ret (err, s)
         else bind_run (uget pcb s) (\<lambda>c.
           bind_run (zoned ic (ip_addr_copy a) (ip_2_ip6 (local_ip c)) s) (\<lambda>a.
             let s = uput pcb (c\<lparr>remote_ip := a, remote_port := port, up_flags := up_flags c OR UDP_FLAGS_CONNECTED\<rparr>) s
             in if pcb \<in> set (udp_pcbs (world s)) then ret (ERR_OK, s)
                else ret (ERR_OK, set_pcbs (pcb # udp_pcbs (world s)) s)))) = ret (err, s')"
    using assms(1) unfolding udp_connect_def by (elim lwip_assert_retE bind_run_retE)
  obtain e t where xs: "x = (e, t)" by (cases x)
  have "ip_wf (local_ip c)" using typed_uget [OF assms(2) c] by (simp add: pcb_typed_def)
  then have ty: "blocks_typed (world t)"
    using x assms(2) bind_typed [of ic pcb "local_ip c" 0 s e t] unfolding xs by (auto split: if_splits)
  have "pcb_typed (d\<lparr>remote_ip := a', remote_port := port, up_flags := u\<rparr>)"
    if "uget pcb t = ret d" "zoned ic (ip_addr_copy a) src t = ret a'" for d a' src u
    using typed_uget [OF ty that(1)] zoned_typed [OF that(2)] assms(3) by (simp add: pcb_typed_def)
  then show ?thesis
    using fx ty typed_uput [OF ty] unfolding xs by (auto simp: Let_def split: if_splits elim!: bind_run_retE)
qed

lemma new_typed:
  assumes "udp_new s = ret (n, s')" "blocks_typed (world s)"
  shows "blocks_typed (world s')"
proof -
  have "pcb_typed fresh_pcb" by (simp add: pcb_typed_def fresh_pcb_def ip_wf_def ip6_wf_def)
  then show ?thesis
    using assms by (auto simp: udp_new_def Let_def blocks_typed_def split: option.splits if_splits elim!: bind_run_retE)
qed

lemma step_typed:
  assumes "udp_step e (ic, s) = ret (ic', s')" "event_typed e" "blocks_typed (world s)"
  shows "blocks_typed (world s')"
proof (cases e)
  case Udp_new
  then show ?thesis using assms by (auto dest: new_typed elim!: bind_run_retE)
next
  case (Udp_new_ip_type ty)
  from assms(1) Udp_new_ip_type obtain n t where t: "udp_new s = ret (n, t)"
    and f: "(if n \<noteq> 0 then bind_run (uget n t) (\<lambda>c.
        ret (n, uput n (c\<lparr>local_ip := (local_ip c)\<lparr>ip_type := ty\<rparr>, remote_ip := (remote_ip c)\<lparr>ip_type := ty\<rparr>\<rparr>) t)) else ret (n, t)) = ret (n, s')"
    by (auto simp: udp_new_ip_type_def split: if_splits elim!: bind_run_retE)
  have bt: "blocks_typed (world t)" by (rule new_typed [OF t assms(3)])
  have "pcb_typed (c\<lparr>local_ip := (local_ip c)\<lparr>ip_type := ty\<rparr>, remote_ip := (remote_ip c)\<lparr>ip_type := ty\<rparr>\<rparr>)" if "uget n t = ret c" for c
    using typed_uget [OF bt that] by (simp add: pcb_typed_def ip_wf_def)
  then show ?thesis using f bt typed_uput [OF bt] by (auto split: if_splits elim!: bind_run_retE)
next
  case (Udp_bind pcb a p)
  then show ?thesis using assms bind_typed by (auto elim!: bind_run_retE)
next
  case (Udp_bind_netif pcb n)
  then show ?thesis using assms typed_uget [OF assms(3)] typed_uput [OF assms(3)]
    by (auto simp: udp_bind_netif_def pcb_typed_def split: if_splits elim!: bind_run_retE)
next
  case (Udp_connect pcb a p)
  then show ?thesis using assms connect_typed by (auto elim!: bind_run_retE)
next
  case (Udp_disconnect pcb)
  then show ?thesis using assms typed_uget [OF assms(3)] typed_uput [OF assms(3)]
    by (auto simp: udp_disconnect_def pcb_typed_def Let_def elim!: bind_run_retE lwip_assert_retE)
next
  case (Udp_recv pcb f a)
  then show ?thesis using assms typed_uget [OF assms(3)] typed_uput [OF assms(3)]
    by (auto simp: udp_recv_def pcb_typed_def elim!: bind_run_retE lwip_assert_retE)
next
  case (Udp_remove pcb)
  then show ?thesis using assms
    by (auto simp: udp_remove_def Let_def blocks_typed_def set_pcbs_def split: if_splits elim!: bind_run_retE lwip_assert_retE)
qed



end
