(* ===== verification/Udp_Packets.thy ===== *)
theory Udp_Packets
  imports Udp
begin

text \<open>Datagrams in and out, the rest of \<open>core/udp.c\<close>. Checksums are left to the hardware in this build.\<close>

subsection \<open>Input\<close>

definition IP_ADDR_PCB_VERSION_MATCH_EXACT :: "udp_pcb \<Rightarrow> ip_addr \<Rightarrow> bool" where
  "IP_ADDR_PCB_VERSION_MATCH_EXACT pcb a \<longleftrightarrow> ip_type (local_ip pcb) = ip_type a"

definition IP_ADDR_PCB_VERSION_MATCH :: "udp_pcb \<Rightarrow> ip_addr \<Rightarrow> bool" where
  "IP_ADDR_PCB_VERSION_MATCH pcb a \<longleftrightarrow> IP_IS_ANY_TYPE_VAL (local_ip pcb) \<or> IP_ADDR_PCB_VERSION_MATCH_EXACT pcb a"

text \<open>The block and the interface are given by what their pointers point to.\<close>

definition udp_input_local_match :: "udp_pcb \<Rightarrow> netif \<Rightarrow> bool \<Rightarrow> 'w stack \<Rightarrow> bool run" where
  "udp_input_local_match pcb inp broadcast s =
     (let dest = current_iphdr_dest (ip_data (world s)) in
      bind_run (if netif_idx pcb \<noteq> NETIF_NO_INDEX then
                  bind_run (nget (current_input_netif (ip_data (world s))) s) (\<lambda>cur. ret (netif_idx pcb \<noteq> netif_get_index cur))
                else ret False) (\<lambda>other.
        if other then ret False
        else if IP_IS_ANY_TYPE_VAL (local_ip pcb) then ret True
        else if IP_ADDR_PCB_VERSION_MATCH_EXACT pcb dest then
          if broadcast then
            ret (ip_2_ip4 (local_ip pcb) = IPADDR_ANY \<or> ip4_current_dest_addr s = IPADDR_BROADCAST
                 \<or> ip4_addr_netcmp (ip_2_ip4 (local_ip pcb)) (ip4_current_dest_addr s) (netmask inp))
          else ret (ip_addr_isany (local_ip pcb) \<or> ip_addr_cmp (local_ip pcb) dest)
        else ret False))"

text \<open>
  The search through the list: the first block that matches fully, else 0, and the best block that is
  not connected. \<open>uncon\<close> is 0 or an unconnected match from before.
\<close>

fun input_find :: "u16 \<Rightarrow> u16 \<Rightarrow> netif \<Rightarrow> bool \<Rightarrow> nat list \<Rightarrow> nat \<Rightarrow> 'w stack \<Rightarrow> (nat \<times> nat) run" where
  "input_find src dest inp broadcast [] uncon s = ret (0, uncon)"
| "input_find src dest inp broadcast (n # ns) uncon s =
     bind_run (uget n s) (\<lambda>pcb.
     bind_run (if local_port pcb = dest then udp_input_local_match pcb inp broadcast s else ret False) (\<lambda>match.
       if match then
         bind_run
           (if up_flags pcb AND UDP_FLAGS_CONNECTED = 0 then
              if uncon = 0 then ret n
              else if broadcast \<and> ip4_current_dest_addr s = IPADDR_BROADCAST then
                bind_run (uget uncon s) (\<lambda>u.
                  if \<not> IP_IS_V4 (local_ip u) \<or> ip_2_ip4 (local_ip u) \<noteq> ip_addr inp then
                    if IP_IS_V4 (local_ip pcb) \<and> ip_2_ip4 (local_ip pcb) = ip_addr inp then ret n else ret uncon
                  else ret uncon)
              else ret uncon
            else ret uncon) (\<lambda>uncon.
           if remote_port pcb = src \<and> (ip_addr_isany (remote_ip pcb) \<or> ip_addr_cmp (remote_ip pcb) (current_iphdr_src (ip_data (world s))))
           then ret (n, uncon)
           else input_find src dest inp broadcast ns uncon s)
       else input_find src dest inp broadcast ns uncon s))"

definition icmp_port_unreach :: "'w inet_calls \<Rightarrow> bool \<Rightarrow> nat \<Rightarrow> 'w stack \<Rightarrow> 'w stack run" where
  "icmp_port_unreach ic is_v6 p s =
     (if is_v6 then icmp6_dest_unreach ic p ICMP6_DUR_PORT s else icmp_dest_unreach ic p ICMP_DUR_PORT s)"

text \<open>What becomes of the datagram once the block is known (0 when there is none).\<close>

definition input_deliver :: "'w inet_calls \<Rightarrow> nat \<Rightarrow> nat \<Rightarrow> u16 \<Rightarrow> bool \<Rightarrow> bool \<Rightarrow> 'w stack \<Rightarrow> 'w stack run" where
  "input_deliver ic p pcb src broadcast for_us s =
     (if for_us then
        bind_run (on_pb (pbuf_remove_header p UDP_HLEN) s) (\<lambda>(r, s).
          if r \<noteq> 0 then stop (Abort ''pbuf_remove_header failed'')
          else if pcb \<noteq> 0 then
            bind_run (uget pcb s) (\<lambda>c.
              if recv c \<noteq> 0 then udp_recv_fn ic (recv c) (recv_arg c) pcb p (current_iphdr_src (ip_data (world s))) src s
              else free_pbuf p s)
          else
            bind_run
              (if \<not> broadcast \<and> \<not> ip_addr_ismulticast (current_iphdr_dest (ip_data (world s))) then
                 bind_run (on_pb (pbuf_header_force p (int (current_ip_header_tot_len (ip_data (world s)) + UDP_HLEN))) s) (\<lambda>(_, s).
                 icmp_port_unreach ic (ip_current_is_v6 s) p s)
               else ret s) (\<lambda>s. free_pbuf p s))
      else free_pbuf p s)"

definition udp_input :: "'w inet_calls \<Rightarrow> nat \<Rightarrow> nat \<Rightarrow> 'w stack \<Rightarrow> 'w stack run" where
  "udp_input ic p inp s =
     lwip_assert ''udp_input: invalid pbuf'' (p \<noteq> 0)
      (lwip_assert ''udp_input: invalid netif'' (inp \<noteq> 0)
       (bind_run (pget p (pb s)) (\<lambda>b.
         if pb_len b < UDP_HLEN then free_pbuf p s
         else
           let udphdr = pb_payload b; dst = current_iphdr_dest (ip_data (world s)) in
           bind_run (if IP_IS_V6 dst then ret False
                     else bind_run (nget (current_netif (ip_data (world s))) s) (\<lambda>cur. ret (ip_addr_isbroadcast dst cur))) (\<lambda>broadcast.
             let src = lwip_htons (load16 udphdr (pb s));
                 dest = lwip_htons (load16 (udphdr + 2) (pb s))
             in bind_run (nget inp s) (\<lambda>ini.
                bind_run (input_find src dest ini broadcast (udp_pcbs (world s)) 0 s) (\<lambda>(full, uncon).
                let s = (if full \<noteq> 0 \<and> hd (udp_pcbs (world s)) \<noteq> full then set_pcbs (full # remove1 full (udp_pcbs (world s))) s else s);
                    pcb = (if full = 0 then uncon else full)
                in bind_run
                     (if pcb \<noteq> 0 then ret True
                      else if ip_current_is_v6 s then
                        bind_run (netif_get_ip6_addr_match ic inp (ip_2_ip6 dst) s) (\<lambda>i. ret (i \<ge> 0))
                      else ret (ip_addr ini = ip4_current_dest_addr s)) (\<lambda>for_us.
                   input_deliver ic p pcb src broadcast for_us s)))))))"

subsection \<open>Output\<close>

text \<open>The header in front of the data, in a struct of its own when there is no room for it; 0 when there is no memory.\<close>

definition send_header :: "nat \<Rightarrow> 'w stack \<Rightarrow> (nat \<times> 'w stack) run" where
  "send_header p s =
     bind_run (on_pb (pbuf_add_header p UDP_HLEN) s) (\<lambda>(r, s).
       if r \<noteq> 0 then
         bind_run (on_pb (pbuf_alloc PBUF_IP UDP_HLEN PBUF_RAM) s) (\<lambda>(q, s).
           if q = 0 then ret (0, s)
           else bind_run (pget p (pb s)) (\<lambda>b.
             if pb_tot_len b \<noteq> 0 then bind_run (run_pb (pbuf_chain q p) s) (\<lambda>s. ret (q, s)) else ret (q, s)))
       else ret (p, s))"

definition write_udp_hdr :: "nat \<Rightarrow> u16 \<Rightarrow> u16 \<Rightarrow> nat \<Rightarrow> 'w stack \<Rightarrow> 'w stack" where
  "write_udp_hdr udphdr src_port dst_port tot_len s =
     (let s = store_bytes udphdr (mem16 (lwip_htons src_port)) s;
          s = store_bytes (udphdr + 2) (mem16 (lwip_htons dst_port)) s;
          s = store_bytes (udphdr + 6) (mem16 0) s
      in store_bytes (udphdr + 4) (mem16 (lwip_htons (of_nat tot_len))) s)"

definition udp_sendto_if_src ::
  "'w inet_calls \<Rightarrow> nat \<Rightarrow> nat \<Rightarrow> ip_addr \<Rightarrow> u16 \<Rightarrow> nat \<Rightarrow> ip_addr \<Rightarrow> 'w stack \<Rightarrow> (err_t \<times> 'w stack) run" where
  "udp_sendto_if_src ic pcb p dst_ip dst_port netif src_ip s =
     lwip_assert ''udp_sendto_if_src: invalid pcb'' (pcb \<noteq> 0)
      (lwip_assert ''udp_sendto_if_src: invalid pbuf'' (p \<noteq> 0)
       (lwip_assert ''udp_sendto_if_src: invalid netif'' (netif \<noteq> 0)
        (bind_run (uget pcb s) (\<lambda>c.
          if \<not> IP_ADDR_PCB_VERSION_MATCH c src_ip \<or> \<not> IP_ADDR_PCB_VERSION_MATCH c dst_ip then ret (ERR_VAL, s)
          else bind_run (if local_port c = 0 then udp_bind ic pcb (Some (local_ip c)) (local_port c) s else ret (ERR_OK, s)) (\<lambda>(err, s).
            if err \<noteq> ERR_OK then ret (err, s)
            else bind_run (pget p (pb s)) (\<lambda>b.
              if U16 (pb_tot_len b + UDP_HLEN) < pb_tot_len b then ret (ERR_MEM, s)
              else bind_run (send_header p s) (\<lambda>(q, s).
                if q = 0 then ret (ERR_MEM, s)
                else bind_run (pget q (pb s)) (\<lambda>b.
                  lwip_assert ''check that first pbuf can hold struct udp_hdr'' (pb_len b \<ge> UDP_HLEN)
                   (bind_run (uget pcb s) (\<lambda>c.
                     let b = (if up_flags c AND UDP_FLAGS_MULTICAST_LOOP \<noteq> 0 \<and> ip_addr_ismulticast dst_ip
                              then b\<lparr>pb_flags := pb_flags b OR PBUF_FLAG_MCASTLOOP\<rparr> else b);
                         s = s\<lparr>pb := pset q b (pb s)\<rparr>;
                         s = write_udp_hdr (pb_payload b) (local_port c) dst_port (pb_tot_len b) s;
                         ttl = (if ip_addr_ismulticast dst_ip then mcast_ttl c else pcb_ttl c)
                     in bind_run (ip_output_if_src ic q src_ip dst_ip ttl (pcb_tos c) IP_PROTO_UDP netif s) (\<lambda>(err, s).
                        if q \<noteq> p then bind_run (free_pbuf q s) (\<lambda>s. ret (err, s)) else ret (err, s))))))))))))"

definition udp_sendto_if :: "'w inet_calls \<Rightarrow> nat \<Rightarrow> nat \<Rightarrow> ip_addr \<Rightarrow> u16 \<Rightarrow> nat \<Rightarrow> 'w stack \<Rightarrow> (err_t \<times> 'w stack) run" where
  "udp_sendto_if ic pcb p dst_ip dst_port netif s =
     lwip_assert ''udp_sendto_if: invalid pcb'' (pcb \<noteq> 0)
      (lwip_assert ''udp_sendto_if: invalid pbuf'' (p \<noteq> 0)
       (lwip_assert ''udp_sendto_if: invalid netif'' (netif \<noteq> 0)
        (bind_run (uget pcb s) (\<lambda>c.
          if \<not> IP_ADDR_PCB_VERSION_MATCH c dst_ip then ret (ERR_VAL, s)
          else if IP_IS_V6 dst_ip then
            if ip6_addr_isany_val (ip_2_ip6 (local_ip c)) \<or> ip6_addr_ismulticast (ip_2_ip6 (local_ip c)) then
              bind_run (ip6_select_source_address ic netif (ip_2_ip6 dst_ip) s) (\<lambda>src.
                case src of None \<Rightarrow> ret (ERR_RTE, s) | Some src_ip \<Rightarrow> udp_sendto_if_src ic pcb p dst_ip dst_port netif src_ip s)
            else
              bind_run (netif_get_ip6_addr_match ic netif (ip_2_ip6 (local_ip c)) s) (\<lambda>i.
                if i < 0 then ret (ERR_RTE, s) else udp_sendto_if_src ic pcb p dst_ip dst_port netif (local_ip c) s)
          else
            bind_run (nget netif s) (\<lambda>ni.
              if ip_2_ip4 (local_ip c) = IPADDR_ANY \<or> ip4_addr_ismulticast (ip_2_ip4 (local_ip c))
              then udp_sendto_if_src ic pcb p dst_ip dst_port netif (ip_addr_copy_from_ip4 (ip_addr ni)) s
              else if ip_2_ip4 (local_ip c) \<noteq> ip_addr ni then ret (ERR_RTE, s)
              else udp_sendto_if_src ic pcb p dst_ip dst_port netif (local_ip c) s)))))"

text \<open>The interface for a datagram: the one the block is bound to, the one set for multicast, or by the route.\<close>

definition sendto_netif :: "'w inet_calls \<Rightarrow> udp_pcb \<Rightarrow> ip_addr \<Rightarrow> 'w stack \<Rightarrow> nat run" where
  "sendto_netif ic c dst_ip s =
     (if netif_idx c \<noteq> NETIF_NO_INDEX then netif_get_by_index (netif_idx c) s
      else
        bind_run
          (if ip_addr_ismulticast dst_ip then
             if mcast_ifindex c \<noteq> NETIF_NO_INDEX then netif_get_by_index (mcast_ifindex c) s
             else if IP_IS_V4 dst_ip \<and> mcast_ip4 c \<noteq> IPADDR_ANY \<and> mcast_ip4 c \<noteq> IPADDR_BROADCAST
             then ip4_route_src (ip_2_ip4 (local_ip c)) (mcast_ip4 c) s
             else ret 0
           else ret 0) (\<lambda>netif.
        if netif = 0 then ip_route ic (local_ip c) dst_ip s else ret netif))"

definition udp_sendto :: "'w inet_calls \<Rightarrow> nat \<Rightarrow> nat \<Rightarrow> ip_addr \<Rightarrow> u16 \<Rightarrow> 'w stack \<Rightarrow> (err_t \<times> 'w stack) run" where
  "udp_sendto ic pcb p dst_ip dst_port s =
     lwip_assert ''udp_sendto: invalid pcb'' (pcb \<noteq> 0)
      (lwip_assert ''udp_sendto: invalid pbuf'' (p \<noteq> 0)
       (bind_run (uget pcb s) (\<lambda>c.
         if \<not> IP_ADDR_PCB_VERSION_MATCH c dst_ip then ret (ERR_VAL, s)
         else bind_run (sendto_netif ic c dst_ip s) (\<lambda>netif.
           if netif = 0 then ret (ERR_RTE, s) else udp_sendto_if ic pcb p dst_ip dst_port netif s))))"

definition udp_send :: "'w inet_calls \<Rightarrow> nat \<Rightarrow> nat \<Rightarrow> 'w stack \<Rightarrow> (err_t \<times> 'w stack) run" where
  "udp_send ic pcb p s =
     lwip_assert ''udp_send: invalid pcb'' (pcb \<noteq> 0)
      (lwip_assert ''udp_send: invalid pbuf'' (p \<noteq> 0)
       (bind_run (uget pcb s) (\<lambda>c.
         if IP_IS_ANY_TYPE_VAL (remote_ip c) then ret (ERR_VAL, s)
         else udp_sendto ic pcb p (remote_ip c) (remote_port c) s)))"

end
