(* ===== verification/Ip4_Input.thy ===== *)
theory Ip4_Input
  imports Udp_Packets
begin

text \<open>
  Packets from the link layer, the input half of \<open>core/ipv4/ip4.c\<close> and \<open>ip_input\<close> of \<open>core/ip.c\<close>. There is no
  forwarding in this build, fragments are reassembled and options are accepted.
\<close>

definition ICMP_DUR_PROTO :: nat where "ICMP_DUR_PROTO = 2"
definition LWIP_IANA_PORT_DHCP_CLIENT :: u16 where "LWIP_IANA_PORT_DHCP_CLIENT = 68"

definition on_ip_data :: "(ip_globals \<Rightarrow> ip_globals) \<Rightarrow> 'w stack \<Rightarrow> 'w stack" where
  "on_ip_data f s = on_world (\<lambda>w. w\<lparr>ip_data := f (ip_data w)\<rparr>) s"

definition ip4_input_accept :: "nat \<Rightarrow> 'w stack \<Rightarrow> bool run" where
  "ip4_input_accept netif s =
     bind_run (nget netif s) (\<lambda>ni.
       if netif_is_up ni \<and> ip_addr ni \<noteq> IPADDR_ANY then
         if ip4_current_dest_addr s = ip_addr ni \<or> ip4_addr_isbroadcast_u32 (ip4_current_dest_addr s) ni then ret True
         else autoip_accept_packet netif (ip4_current_dest_addr s) s
       else ret False)"

fun accept_loop :: "nat \<Rightarrow> nat list \<Rightarrow> 'w stack \<Rightarrow> nat run" where
  "accept_loop inp [] s = ret 0"
| "accept_loop inp (n # ns) s =
     (if n = inp then accept_loop inp ns s
      else bind_run (ip4_input_accept n s) (\<lambda>ok. if ok then ret n else accept_loop inp ns s))"

text \<open>
  The interface that the packet is for, 0 if there is none, and whether its source address is to be
  checked. A packet to the port of the DHCP client is let through whatever its address.
\<close>

definition input_netif :: "'w inet_calls \<Rightarrow> nat \<Rightarrow> nat \<Rightarrow> nat \<Rightarrow> 'w stack \<Rightarrow> (nat \<times> bool) run" where
  "input_netif ic iphdr iphdr_hlen inp s =
     bind_run
       (if ip4_addr_ismulticast (ip4_current_dest_addr s) then
          bind_run (nget inp s) (\<lambda>ini.
          bind_run (if netif_flags ini AND NETIF_FLAG_IGMP \<noteq> 0 then igmp_lookfor_group ic inp (ip4_current_dest_addr s) s else ret False) (\<lambda>member.
            if member then ret (inp, \<not> (ip4_current_dest_addr s = PP_HTONL 0xE0000001 \<and> ip4_current_src_addr s = IPADDR_ANY))
            else ret (0, True)))
        else
          bind_run (ip4_input_accept inp s) (\<lambda>ok.
            if ok then ret (inp, True)
            else if \<not> ip4_addr_isloopback (ip4_current_dest_addr s) then bind_run (accept_loop inp (netif_list s) s) (\<lambda>n. ret (n, True))
            else ret (0, True))) (\<lambda>(netif, check_ip_src).
     if netif = 0 \<and> IPH_PROTO iphdr s = IP_PROTO_UDP \<and> load16 (iphdr + iphdr_hlen + 2) (pb s) = PP_HTONS LWIP_IANA_PORT_DHCP_CLIENT
     then ret (inp, False) else ret (netif, check_ip_src))"

text \<open>The protocol above; the header is stripped already.\<close>

definition input_dispatch :: "'w inet_calls \<Rightarrow> nat \<Rightarrow> nat \<Rightarrow> nat \<Rightarrow> nat \<Rightarrow> nat \<Rightarrow> 'w stack \<Rightarrow> 'w stack run" where
  "input_dispatch ic p iphdr iphdr_hlen netif inp s =
     (let proto = IPH_PROTO iphdr s in
      if proto = IP_PROTO_UDP then udp_input ic p inp s
      else if proto = IP_PROTO_TCP then tcp_input ic p inp s
      else if proto = IP_PROTO_ICMP then icmp_input ic p inp s
      else if proto = IP_PROTO_IGMP then igmp_input ic p inp (ip4_current_dest_addr s) s
      else
        bind_run (nget netif s) (\<lambda>ni.
        bind_run
          (if \<not> ip4_addr_isbroadcast_u32 (ip4_current_dest_addr s) ni \<and> \<not> ip4_addr_ismulticast (ip4_current_dest_addr s) then
             bind_run (on_pb (pbuf_header_force p (int iphdr_hlen)) s) (\<lambda>(_, s). icmp_dest_unreach ic p ICMP_DUR_PROTO s)
           else ret s) (\<lambda>s. free_pbuf p s)))"

definition drop_packet :: "nat \<Rightarrow> 'w stack \<Rightarrow> (err_t \<times> 'w stack) run" where
  "drop_packet p s = bind_run (free_pbuf p s) (\<lambda>s. ret (ERR_OK, s))"

text \<open>The packet is for \<open>netif\<close>: reassembly, the global variables, and the protocol above.\<close>

definition input_up :: "'w inet_calls \<Rightarrow> nat \<Rightarrow> nat \<Rightarrow> nat \<Rightarrow> nat \<Rightarrow> nat \<Rightarrow> 'w stack \<Rightarrow> (err_t \<times> 'w stack) run" where
  "input_up ic p iphdr iphdr_hlen netif inp s =
     bind_run
       (if IPH_OFFSET iphdr s AND PP_HTONS (IP_OFFMASK OR IP_MF) \<noteq> 0 then
          bind_run (ip4_reass ic p s) (\<lambda>(p, s).
            if p = 0 then ret (0, 0, s) else bind_run (pget p (pb s)) (\<lambda>b. ret (p, pb_payload b, s)))
        else ret (p, iphdr, s)) (\<lambda>(p, iphdr, s).
     if p = 0 then ret (ERR_OK, s)
     else
       let s = on_ip_data (\<lambda>d. d\<lparr>current_netif := netif, current_input_netif := inp, current_ip4_header := iphdr,
                              current_ip_header_tot_len := IPH_HL_BYTES iphdr s\<rparr>) s
       in bind_run (on_pb (pbuf_remove_header p iphdr_hlen) s) (\<lambda>(_, s).
          bind_run (input_dispatch ic p iphdr iphdr_hlen netif inp s) (\<lambda>s.
          let any = (\<lambda>a. a\<lparr>u_addr := (u_addr a)\<lparr>addr := (addr (u_addr a))[0 := IPADDR_ANY]\<rparr>\<rparr>)
          in ret (ERR_OK, on_ip_data (\<lambda>d. d\<lparr>current_netif := 0, current_input_netif := 0, current_ip4_header := 0,
                current_ip_header_tot_len := 0, current_iphdr_src := any (current_iphdr_src d),
                current_iphdr_dest := any (current_iphdr_dest d)\<rparr>) s))))"

definition ip4_input :: "'w inet_calls \<Rightarrow> nat \<Rightarrow> nat \<Rightarrow> 'w stack \<Rightarrow> (err_t \<times> 'w stack) run" where
  "ip4_input ic p inp s =
     bind_run (pget p (pb s)) (\<lambda>b.
       let iphdr = pb_payload b in
       if IPH_V iphdr s \<noteq> 4 then drop_packet p s
       else
         let iphdr_hlen = IPH_HL_BYTES iphdr s;
             iphdr_len = unat (lwip_htons (IPH_LEN iphdr s))
         in bind_run (if iphdr_len < pb_tot_len b then run_pb (pbuf_realloc p iphdr_len) s else ret s) (\<lambda>s.
            bind_run (pget p (pb s)) (\<lambda>b.
              if iphdr_hlen > pb_len b \<or> iphdr_len > pb_tot_len b \<or> iphdr_hlen < IP_HLEN then drop_packet p s
              else
                let s = on_ip_data (\<lambda>d. d\<lparr>current_iphdr_dest := ip_addr_copy_from_ip4 (load32 (iphdr + 16) (pb s))\<rparr>) s;
                    s = on_ip_data (\<lambda>d. d\<lparr>current_iphdr_src := ip_addr_copy_from_ip4 (load32 (iphdr + 12) (pb s))\<rparr>) s
                in bind_run (input_netif ic iphdr iphdr_hlen inp s) (\<lambda>(netif, check_ip_src).
                   bind_run (nget inp s) (\<lambda>ini.
                   if check_ip_src \<and> ip4_current_src_addr s \<noteq> IPADDR_ANY
                      \<and> (ip4_addr_isbroadcast_u32 (ip4_current_src_addr s) ini \<or> ip4_addr_ismulticast (ip4_current_src_addr s))
                   then drop_packet p s
                   else if netif = 0 then drop_packet p s
                   else input_up ic p iphdr iphdr_hlen netif inp s)))))"

text \<open>The dispatch between the versions; what IPv6 does is in the calls of the link layer.\<close>

definition ip_input :: "'w inet net_calls \<Rightarrow> 'w inet_calls \<Rightarrow> nat \<Rightarrow> nat \<Rightarrow> 'w stack \<Rightarrow> (err_t \<times> 'w stack) run" where
  "ip_input nc ic p inp s =
     (if p \<noteq> 0 then
        bind_run (pget p (pb s)) (\<lambda>b.
          if IPH_V (pb_payload b) s = 6 then bind_run (ip6_input nc p inp s) (\<lambda>s. ret (ERR_OK, s)) else ip4_input ic p inp s)
      else ret (ERR_VAL, s))"

end
