(* ===== verification/Icmp.thy ===== *)
theory Icmp
  imports Ip4_Input Inet_Chksum
begin

text \<open>
  The Internet Control Message Protocol, \<open>core/ipv4/icmp.c\<close>: answers to echo requests, and the messages that a
  destination cannot be reached or that time is exceeded. This build checks the checksum of requests in software
  and leaves the checksum of what it sends to the hardware; there is no answer to broadcasts and multicasts.
\<close>

definition ICMP_ER :: u8 where "ICMP_ER = 0"
definition ICMP_DUR :: u8 where "ICMP_DUR = 3"
definition ICMP_ECHO :: u8 where "ICMP_ECHO = 8"
definition ICMP_TE :: u8 where "ICMP_TE = 11"
definition ICMP_TTL :: u8 where "ICMP_TTL = 255"
definition ICMP_DEST_UNREACH_DATASIZE :: nat where "ICMP_DEST_UNREACH_DATASIZE = 8"
definition SIZEOF_ICMP_ECHO_HDR :: nat where "SIZEOF_ICMP_ECHO_HDR = 8"
definition PBUF_LINK_HLEN :: nat where "PBUF_LINK_HLEN = 14"

subsection \<open>Echo requests\<close>

text \<open>
  The packet for the answer: the request itself if there is room for the headers in front of it, else a copy in a
  new buffer, with the request freed; 0 for an error.
\<close>

definition echo_buffer :: "nat \<Rightarrow> nat \<Rightarrow> nat \<Rightarrow> 'w stack \<Rightarrow> (nat \<times> 'w stack) run" where
  "echo_buffer p iphdr_in hlen s =
     bind_run (on_pb (pbuf_add_header p (hlen + PBUF_LINK_HLEN)) s) (\<lambda>(e, s).
       if e \<noteq> 0 then
         bind_run (pget p (pb s)) (\<lambda>b.
           let alloc_len = U16 (pb_tot_len b + hlen) in
           if alloc_len < pb_tot_len b then ret (0, s)
           else bind_run (on_pb (pbuf_alloc PBUF_LINK alloc_len PBUF_RAM) s) (\<lambda>(r, s).
             if r = 0 then ret (0, s)
             else bind_run (pget r (pb s)) (\<lambda>rb.
               if pb_len rb < hlen + SIZEOF_ICMP_ECHO_HDR then bind_run (free_pbuf r s) (\<lambda>s. ret (0, s))
               else
                 let s = store_bytes (pb_payload rb) (read_bytes iphdr_in hlen (pb s)) s in
                 bind_run (on_pb (pbuf_remove_header r hlen) s) (\<lambda>(e, s).
                   if e \<noteq> 0 then stop (Abort ''icmp_input: moving r->payload to icmp header failed'')
                   else bind_run (on_pb (pbuf_copy r p) s) (\<lambda>(err, s).
                     if err \<noteq> ERR_OK then bind_run (free_pbuf r s) (\<lambda>s. ret (0, s))
                     else bind_run (free_pbuf p s) (\<lambda>s. ret (r, s)))))))
       else
         bind_run (on_pb (pbuf_remove_header p (hlen + PBUF_LINK_HLEN)) s) (\<lambda>(e, s).
           if e \<noteq> 0 then stop (Abort ''icmp_input: restoring original p->payload failed'') else ret (p, s)))"

text \<open>The request becomes the answer: addresses swapped, type and time to live set, and out with its own header.\<close>

definition echo_reply :: "'w inet_calls \<Rightarrow> nat \<Rightarrow> nat \<Rightarrow> nat \<Rightarrow> 'w stack \<Rightarrow> 'w stack run" where
  "echo_reply ic p inp hlen s =
     bind_run (pget p (pb s)) (\<lambda>b.
       let iecho = pb_payload b; src = ip4_current_dest_addr s in
       bind_run (on_pb (pbuf_add_header p hlen) s) (\<lambda>(e, s).
         if e \<noteq> 0 then ret s
         else bind_run (pget p (pb s)) (\<lambda>b.
           let iphdr = pb_payload b;
               s = store_bytes (iphdr + 12) (memory_bytes src) s;
               s = store_bytes (iphdr + 16) (memory_bytes (ip4_current_src_addr s)) s;
               s = store_bytes iecho [ICMP_ER] s;
               s = store_bytes (iecho + 2) (mem16 0) s;
               s = store_bytes (iphdr + 8) [ICMP_TTL] s;
               s = store_bytes (iphdr + 10) (mem16 0) s
           in bind_run (ip4_output_if ic p (Some src) None ICMP_TTL 0 IP_PROTO_ICMP inp s) (\<lambda>(_, s). ret s))))"

definition icmp_echo :: "'w inet_calls \<Rightarrow> nat \<Rightarrow> nat \<Rightarrow> nat \<Rightarrow> nat \<Rightarrow> 'w stack \<Rightarrow> 'w stack run" where
  "icmp_echo ic p inp iphdr_in hlen s =
     (if ip4_addr_ismulticast (ip4_current_dest_addr s) then free_pbuf p s
      else bind_run (nget (current_netif (ip_data (world s))) s) (\<lambda>cur.
        if ip4_addr_isbroadcast_u32 (ip4_current_dest_addr s) cur then free_pbuf p s
        else bind_run (pget p (pb s)) (\<lambda>b.
          if pb_tot_len b < SIZEOF_ICMP_ECHO_HDR then free_pbuf p s
          else bind_run (inet_chksum_pbuf p (pb s)) (\<lambda>chksum.
            if chksum \<noteq> 0 then free_pbuf p s
            else bind_run (echo_buffer p iphdr_in hlen s) (\<lambda>(r, s).
              if r = 0 then free_pbuf p s
              else bind_run (echo_reply ic r inp hlen s) (\<lambda>s. free_pbuf r s))))))"

definition icmp_input :: "'w inet_calls \<Rightarrow> nat \<Rightarrow> nat \<Rightarrow> 'w stack \<Rightarrow> 'w stack run" where
  "icmp_input ic p inp s =
     (let iphdr_in = current_ip4_header (ip_data (world s));
          hlen = IPH_HL_BYTES iphdr_in s
      in if hlen < IP_HLEN then free_pbuf p s
         else bind_run (pget p (pb s)) (\<lambda>b.
           if pb_len b < 4 then free_pbuf p s
           else if bytes (pb s) (pb_payload b) = ICMP_ECHO then icmp_echo ic p inp iphdr_in hlen s
           else free_pbuf p s))"

subsection \<open>Error messages\<close>

definition icmp_send_response :: "'w inet_calls \<Rightarrow> nat \<Rightarrow> u8 \<Rightarrow> u8 \<Rightarrow> 'w stack \<Rightarrow> 'w stack run" where
  "icmp_send_response ic p type code s =
     bind_run (on_pb (pbuf_alloc PBUF_IP (SIZEOF_ICMP_ECHO_HDR + IP_HLEN + ICMP_DEST_UNREACH_DATASIZE) PBUF_RAM) s) (\<lambda>(q, s).
       if q = 0 then ret s
       else bind_run (pget q (pb s)) (\<lambda>qb.
         lwip_assert ''check that first pbuf can hold icmp message'' (pb_len qb \<ge> SIZEOF_ICMP_ECHO_HDR + IP_HLEN + ICMP_DEST_UNREACH_DATASIZE)
          (bind_run (pget p (pb s)) (\<lambda>b.
            let icmphdr = pb_payload qb;
                s = store_bytes icmphdr [type] s;
                s = store_bytes (icmphdr + 1) [code] s;
                s = store_bytes (icmphdr + 4) (mem16 0) s;
                s = store_bytes (icmphdr + 6) (mem16 0) s;
                s = store_bytes (icmphdr + SIZEOF_ICMP_ECHO_HDR) (read_bytes (pb_payload b) (IP_HLEN + ICMP_DEST_UNREACH_DATASIZE) (pb s)) s;
                iphdr_src = load32 (pb_payload b + 12) (pb s)
            in bind_run (ip4_route iphdr_src s) (\<lambda>netif.
               bind_run
                 (if netif \<noteq> 0 then
                    let s = store_bytes (icmphdr + 2) (mem16 0) s
                    in bind_run (ip4_output_if ic q None (Some iphdr_src) ICMP_TTL 0 IP_PROTO_ICMP netif s) (\<lambda>(_, s). ret s)
                  else ret s) (\<lambda>s. free_pbuf q s))))))"

definition icmp_dest_unreach :: "'w inet_calls \<Rightarrow> nat \<Rightarrow> nat \<Rightarrow> 'w stack \<Rightarrow> 'w stack run" where
  "icmp_dest_unreach ic p t s = icmp_send_response ic p ICMP_DUR (of_nat t) s"

definition icmp_time_exceeded :: "'w inet_calls \<Rightarrow> nat \<Rightarrow> nat \<Rightarrow> 'w stack \<Rightarrow> 'w stack run" where
  "icmp_time_exceeded ic p t s = icmp_send_response ic p ICMP_TE (of_nat t) s"

end
