(* ===== verification/Header_Bytes.thy ===== *)
theory Header_Bytes
  imports Udp_Properties Ip4_Input
begin

text \<open>
  The headers of IPv4 (RFC 791, without options) and UDP (RFC 768) as bytes: what the code writes in front of the
  data of a packet, and what it reads back from there. The code leaves the checksums to the hardware and writes 0.
\<close>

definition udp_header :: "u16 \<Rightarrow> u16 \<Rightarrow> u16 \<Rightarrow> u16 \<Rightarrow> u8 list" where
  "udp_header chk src dst len = be16_bytes src @ be16_bytes dst @ be16_bytes len @ be16_bytes chk"

definition ip4_header :: "u16 \<Rightarrow> u8 \<Rightarrow> u16 \<Rightarrow> u16 \<Rightarrow> u8 \<Rightarrow> u8 \<Rightarrow> u32 \<Rightarrow> u32 \<Rightarrow> u8 list" where
  "ip4_header chk tos len ident ttl proto src dst =
     [0x45, tos] @ be16_bytes len @ be16_bytes ident @ [0, 0] @ [ttl] @ [proto] @ be16_bytes chk @ memory_bytes src @ memory_bytes dst"

lemma length_headers [simp]: "length (udp_header chk src dst len) = 8" "length (ip4_header chk tos l ident ttl proto a b) = 20"
  by (simp_all add: udp_header_def ip4_header_def)

subsection \<open>Room in front of a packet\<close>

text \<open>The first struct has \<open>k\<close> bytes in front of its data that hold no data of the packet.\<close>

definition room :: "nat \<Rightarrow> pbuf_state \<Rightarrow> nat \<Rightarrow> nat list \<Rightarrow> bool" where
  "room k s q xs \<longleftrightarrow> (case pbufs s q of None \<Rightarrow> False | Some b \<Rightarrow>
     pb_type_internal b AND PBUF_TYPE_FLAG_STRUCT_DATA_CONTIGUOUS \<noteq> 0 \<and> k + chain_len s xs < 2 ^ 16
     \<and> q + SIZEOF_STRUCT_PBUF + k \<le> pb_payload b \<and> pb_payload b < 2 ^ 32
     \<and> list_all (\<lambda>a. a < pb_payload b - k \<or> pb_payload b \<le> a) (chain_addrs s xs))"

lemma room_headroom: "room 14 = headroom"
  by (intro ext) (simp add: room_def headroom_def)

lemma roomD:
  assumes "room k s q xs" "pbufs s q = Some b"
  shows "pb_type_internal b AND PBUF_TYPE_FLAG_STRUCT_DATA_CONTIGUOUS \<noteq> 0" "k + chain_len s xs < 2 ^ 16"
    "q + SIZEOF_STRUCT_PBUF + k \<le> pb_payload b" "pb_payload b < 2 ^ 32"
    "\<And>a. a \<in> set (chain_addrs s xs) \<Longrightarrow> a < pb_payload b - k \<or> pb_payload b \<le> a"
  using assms by (auto simp: room_def list_all_iff)

text \<open>A header of \<open>n\<close> bytes in the room: the packet is the header and the data.\<close>

lemma put_header:
  assumes c: "packet s p (p # xs)" and b: "pbufs s p = Some b" and r: "room (n + k) s p (p # xs)"
    and t: "pbufs t = (pbufs s)(p \<mapsto> b\<lparr>pb_payload := pb_payload b - n, pb_len := pb_len b + n, pb_tot_len := pb_tot_len b + n\<rparr>)"
    and un: "\<forall>x. x < pb_payload b - n \<or> pb_payload b \<le> x \<longrightarrow> bytes t x = bytes s x"
  shows "packet t p (p # xs)" and "chain_data t (p # xs) = read_bytes (pb_payload b - n) n t @ chain_data s (p # xs)"
    and "room k t p (p # xs)"
proof -
  note rD = roomD [OF r b]
  let ?d = "pb_payload b - n"
  let ?b = "b\<lparr>pb_payload := ?d, pb_len := pb_len b + n, pb_tot_len := pb_tot_len b + n\<rparr>"
  have t': "pbufs t = pbufs (pset p ?b s)" using t by simp
  show "packet t p (p # xs)"
    unfolding packet_same [OF t'] by (rule add_header_data(1) [OF c b]) (use rD(2,3) in auto)
  have pn: "p \<notin> set xs" using chain_distinct [of s p "p # xs"] c by (simp add: packet_def)
  have "[?d..<?d + (n + pb_len b)] = [?d..<?d + n] @ [pb_payload b..<pb_payload b + pb_len b]"
    using rD(3) upt_add_eq_append [of ?d "?d + n" "pb_len b"] by (simp add: add.assoc)
  moreover have "chain_addrs t xs = chain_addrs s xs" "chain_len t xs = chain_len s xs"
    by (rule chain_frame(3), use pn t in auto, rule chain_frame(1), use pn t in auto)
  ultimately have addrs: "chain_addrs t (p # xs) = [?d..<?d + n] @ chain_addrs s (p # xs)"
    and len: "chain_len t (p # xs) = n + chain_len s (p # xs)"
    by (simp_all add: chain_addrs_Cons part_len_def part_payload_def t b add.commute)
  have same: "map (bytes t) (chain_addrs s (p # xs)) = map (bytes s) (chain_addrs s (p # xs))"
    using rD(5) un by (intro map_cong refl) fastforce
  show "chain_data t (p # xs) = read_bytes ?d n t @ chain_data s (p # xs)"
    unfolding chain_data_addrs addrs by (simp add: same) (simp add: read_bytes_def)
  have "a < ?d - k \<or> ?d \<le> a" if "a \<in> set (chain_addrs t (p # xs))" for a
    using that rD(5) [of a] unfolding addrs by auto
  then show "room k t p (p # xs)"
    using rD(1-4) len unfolding room_def by (auto simp: t list_all_iff)
qed

subsection \<open>Reading and writing\<close>

lemma hdr_split8: "read_bytes a 8 s = read_bytes a 2 s @ read_bytes (a + 2) 2 s @ read_bytes (a + 4) 2 s @ read_bytes (a + 6) 2 s"
  using read_bytes_append [of a 2 6 s] read_bytes_append [of "a + 2" 2 4 s] read_bytes_append [of "a + 4" 2 2 s]
  by (simp add: add.assoc del: add_2_eq_Suc')

lemma hdr_split20:
  "read_bytes a 20 s = read_bytes a 1 s @ read_bytes (a + 1) 1 s @ read_bytes (a + 2) 2 s @ read_bytes (a + 4) 2 s @ read_bytes (a + 6) 2 s
     @ read_bytes (a + 8) 1 s @ read_bytes (a + 9) 1 s @ read_bytes (a + 10) 2 s @ read_bytes (a + 12) 4 s @ read_bytes (a + 16) 4 s"
  using read_bytes_append [of a 1 19 s] read_bytes_append [of "a + 1" 1 18 s] read_bytes_append [of "a + 2" 2 16 s]
    read_bytes_append [of "a + 4" 2 14 s] read_bytes_append [of "a + 6" 2 12 s] read_bytes_append [of "a + 8" 1 11 s]
    read_bytes_append [of "a + 9" 1 10 s] read_bytes_append [of "a + 10" 2 8 s] read_bytes_append [of "a + 12" 4 4 s]
  by (simp add: add.assoc del: add_2_eq_Suc' One_nat_def)

lemma mem16_0 [simp]: "mem16 0 = [0, 0]" "length (mem16 v) = 2"
  by (simp_all add: mem16_def)

lemma be16_0: "be16_bytes 0 = [0, 0]"
  by (simp add: be16_bytes_def)

lemma bytes_store_other: "x < c \<or> c + length bs \<le> x \<Longrightarrow> bytes (pb (store_bytes c bs s)) x = bytes (pb s) x"
  by (auto simp: store_bytes_def write_bytes_def)

lemma write_udp_hdr_ok:
  "read_bytes a 8 (pb (write_udp_hdr a sp dp n s)) = udp_header 0 sp dp (of_nat n)"
  "x < a \<or> a + 8 \<le> x \<Longrightarrow> bytes (pb (write_udp_hdr a sp dp n s)) x = bytes (pb s) x"
proof -
  show "read_bytes a 8 (pb (write_udp_hdr a sp dp n s)) = udp_header 0 sp dp (of_nat n)"
    unfolding hdr_split8 udp_header_def be16_0
    by (simp add: write_udp_hdr_def Let_def mem16_htons read_write_bytes_same read_write_bytes_other store_bytes_def)
  show "bytes (pb (write_udp_hdr a sp dp n s)) x = bytes (pb s) x" if "x < a \<or> a + 8 \<le> x"
    using that by (elim disjE) (simp_all add: write_udp_hdr_def Let_def mem16_htons bytes_store_other)
qed

lemma version_hlen: "64 OR of_nat (IP_HLEN div 4) = (0x45 :: u8)"
  unfolding IP_HLEN_def by simp

lemma read_ip4_hdr:
  "read_bytes a 20 (pb (write_ip4_hdr a IP_HLEN n src dst ttl tos proto s)) = ip4_header 0 tos (of_nat n) (ip_id (world s)) ttl proto src dst"
  unfolding hdr_split20 ip4_header_def be16_0
  by (simp add: write_ip4_hdr_def Let_def mem16_htons read_write_bytes_same read_write_bytes_other store_bytes_def del: One_nat_def)
    (simp add: version_hlen)

lemma write_ip4_hdr_other:
  "x < a \<or> a + 20 \<le> x \<Longrightarrow> bytes (pb (write_ip4_hdr a h n src dst ttl tos proto s)) x = bytes (pb s) x"
  by (elim disjE) (simp_all add: write_ip4_hdr_def Let_def mem16_htons bytes_store_other)

text \<open>Stores to headers change bytes and, apart from the stores, the world.\<close>

definition stored :: "'w net \<Rightarrow> 'w \<Rightarrow> 'w net \<Rightarrow> bool" where
  "stored s w t \<longleftrightarrow> (\<exists>bts. t = s\<lparr>pb := (pb s)\<lparr>bytes := bts\<rparr>, world := w\<rparr>)"

lemma stored_intros:
  "stored s (world s) s" "stored s w t \<Longrightarrow> stored s w (store_bytes a bs t)" "stored s w t \<Longrightarrow> stored s (f w) (on_world f t)"
proof -
  show "stored s (world s) s" unfolding stored_def by (rule exI [of _ "bytes (pb s)"]) simp
  show "stored s w (store_bytes a bs t)" if "stored s w t"
    using that unfolding stored_def
    by (elim exE, intro exI [of _ "bytes (pb (store_bytes a bs t))"]) (simp add: store_bytes_def write_bytes_def)
  show "stored s (f w) (on_world f t)" if "stored s w t"
    using that unfolding stored_def by (elim exE, intro exI [of _ "bytes (pb t)"]) (simp add: on_world_def)
qed

lemma write_ip4_hdr_stored:
  fixes s :: "'w stack"
  shows "stored s ((world s)\<lparr>ip_id := ip_id (world s) + 1\<rparr>) (write_ip4_hdr a h n src dst ttl tos proto s)"
  unfolding write_ip4_hdr_def Let_def
  by (intro stored_intros(2) stored_intros(3) [of s "world s" _ "\<lambda>w. w\<lparr>ip_id := ip_id w + 1\<rparr>"] stored_intros(1))

lemma write_udp_hdr_stored: "stored s (world s) (write_udp_hdr a sp dp n s)"
  unfolding write_udp_hdr_def Let_def by (intro stored_intros(1,2))

lemma load32_memory:
  assumes "read_bytes a 4 s = memory_bytes v"
  shows "load32 a s = v"
proof -
  have "bytes s (a + i) = memory_bytes v ! i" if "i < 4" for i
    using nth_read_bytes [OF that, of a s] assms by simp
  from this [of 0] this [of 1] this [of 2] this [of 3]
  have "bytes s a = ucast v" "bytes s (a + 1) = ucast (drop_bit 8 v)" "bytes s (a + 2) = ucast (drop_bit 16 v)"
    "bytes s (a + 3) = ucast (drop_bit 24 v)" by (simp_all add: memory_bytes_def)
  then have l: "load32 a s = ucast (ucast v :: u8) OR push_bit 8 (ucast (ucast (drop_bit 8 v) :: u8))
      OR push_bit 16 (ucast (ucast (drop_bit 16 v) :: u8)) OR push_bit 24 (ucast (ucast (drop_bit 24 v) :: u8))"
    unfolding load32_def by (simp del: One_nat_def)
  show ?thesis
  proof (rule bit_word_eqI)
    fix n assume "n < LENGTH(32)"
    then consider "n < 8" | "8 \<le> n" "n < 16" | "16 \<le> n" "n < 24" | "24 \<le> n" "n < 32" by fastforce
    then show "bit (load32 a s) n = bit v n" unfolding l by cases (auto simp: bit_simps)
  qed
qed

lemma load16_be: "read_bytes a 2 s = be16_bytes v \<Longrightarrow> lwip_htons (load16 a s) = v"
  unfolding load16_def read_bytes_def be16_bytes_def lwip_htons_def PP_HTONS_def byte_masks_u16
  by (simp add: upt_rec) (auto simp: bit_eq_iff bit_simps)

subsection \<open>The fields of a header\<close>

lemma ip4_header_fields:
  assumes "read_bytes a 20 s = ip4_header chk tos len ident ttl proto src dst"
  shows "bytes s a = 0x45" "lwip_htons (load16 (a + 2) s) = len" "load16 (a + 6) s = 0" "bytes s (a + 9) = proto"
    "load32 (a + 12) s = src" "load32 (a + 16) s = dst"
proof -
  have part: "read_bytes (a + k) m s = take m (drop k (ip4_header chk tos len ident ttl proto src dst))" if "k + m \<le> 20" for k m
    unfolding assms [symmetric] by (rule read_bytes_part [OF that])
  have nth: "bytes s (a + k) = ip4_header chk tos len ident ttl proto src dst ! k" if "k < 20" for k
    using nth_read_bytes [OF that, of a s] unfolding assms by simp
  show "bytes s a = 0x45" "bytes s (a + 9) = proto"
    using nth [of 0] nth [of 9] by (simp_all add: ip4_header_def be16_bytes_def)
  show "lwip_htons (load16 (a + 2) s) = len"
    by (rule load16_be) (subst part, simp_all add: ip4_header_def be16_bytes_def)
  show "load16 (a + 6) s = 0"
    using nth [of 6] nth [of 7] by (simp add: load16_def ip4_header_def be16_bytes_def add.assoc del: One_nat_def)
  show "load32 (a + 12) s = src"
    by (rule load32_memory) (subst part, simp_all add: ip4_header_def be16_bytes_def)
  show "load32 (a + 16) s = dst"
    by (rule load32_memory) (subst part, simp_all add: ip4_header_def be16_bytes_def)
qed

lemma udp_header_fields:
  assumes "read_bytes a 8 s = udp_header chk sp dp len"
  shows "lwip_htons (load16 a s) = sp" "lwip_htons (load16 (a + 2) s) = dp"
proof -
  have part: "read_bytes (a + k) m s = take m (drop k (udp_header chk sp dp len))" if "k + m \<le> 8" for k m
    unfolding assms [symmetric] by (rule read_bytes_part [OF that])
  show "lwip_htons (load16 a s) = sp"
    by (rule load16_be) (use part [of 0 2] in \<open>simp add: udp_header_def be16_bytes_def\<close>)
  show "lwip_htons (load16 (a + 2) s) = dp"
    by (rule load16_be) (subst part, simp_all add: udp_header_def be16_bytes_def)
qed

end
