(* ===== verification/Udp_Send.thy ===== *)
theory Udp_Send
  imports Header_Bytes
begin

text \<open>
  Routes, and a datagram on its way from the application through UDP, IPv4, ARP and Ethernet to the driver.
\<close>

subsection \<open>Routing\<close>

text \<open>The list of interfaces and the default ones are good pointers.\<close>

definition known_netifs :: "'w stack \<Rightarrow> bool" where
  "known_netifs s \<longleftrightarrow> (\<forall>n\<in>insert (netif_default s) (set (netif_list s)) - {0}. netifs s n \<noteq> None) \<and> 0 \<notin> set (netif_list s)"

text \<open>An interface that packets to \<open>dest\<close> reach directly.\<close>

definition on_link :: "u32 \<Rightarrow> 'w stack \<Rightarrow> nat \<Rightarrow> bool" where
  "on_link dest s n \<longleftrightarrow> (case netifs s n of None \<Rightarrow> False | Some ni \<Rightarrow> route_match dest ni)"

lemma route_loop_spec:
  assumes "\<forall>n\<in>set ns. n \<noteq> 0 \<and> netifs s n \<noteq> None"
  shows "route_loop dest ns s = ret (case find (on_link dest s) ns of None \<Rightarrow> 0 | Some n \<Rightarrow> n)"
  using assms by (induction ns) (auto simp: nget_def on_link_def)

definition usable :: "netif \<Rightarrow> bool" where
  "usable ni \<longleftrightarrow> netif_is_up ni \<and> netif_is_link_up ni \<and> ip_addr ni \<noteq> IPADDR_ANY"

lemma ip4_route_spec:
  assumes "known_netifs s"
  shows "ip4_route dest s = ret
    (if ip4_addr_ismulticast dest \<and> ip4_default_multicast_netif (world s) \<noteq> 0 then ip4_default_multicast_netif (world s)
     else case find (on_link dest s) (netif_list s) of
       Some n \<Rightarrow> n
     | None \<Rightarrow> if (case netifs s (netif_default s) of None \<Rightarrow> False | Some ni \<Rightarrow> usable ni) \<and> \<not> ip4_addr_isloopback dest
               then netif_default s else 0)"
proof -
  have l: "\<forall>n\<in>set (netif_list s). n \<noteq> 0 \<and> netifs s n \<noteq> None"
    using assms by (metis Diff_iff insertI2 known_netifs_def singletonD)
  have n0: "n \<noteq> 0" if "find (on_link dest s) (netif_list s) = Some n" for n
    using that l by (auto simp: find_Some_iff)
  have d: "netif_default s \<noteq> 0 \<Longrightarrow> \<exists>ni. netifs s (netif_default s) = Some ni" using assms by (auto simp: known_netifs_def)
  show ?thesis
    unfolding ip4_route_def route_loop_spec [OF l] using n0 d
    by (cases "netif_default s = 0") (auto simp: nget_def usable_def split: option.splits)
qed

subsection \<open>Down to the driver\<close>

text \<open>The state from which a packet leaves: the ARP cache knows the next hop, and no entry is old.\<close>

definition reachable_hop :: "'w net \<Rightarrow> nat \<Rightarrow> netif \<Rightarrow> u32 \<Rightarrow> u32 \<Rightarrow> u8 list \<Rightarrow> bool" where
  "reachable_hop s n ni src dst mac \<longleftrightarrow> ether_netif s n ni \<and> unicast dst ni \<and> gw ni \<noteq> IPADDR_ANY
     \<and> abs_cache (arp_table s) (next_hop ni src dst, n) = Some mac
     \<and> list_all (\<lambda>e. arp_ctime e < ARP_AGE_REREQUEST_USED_UNICAST) (arp_table s)"

lemma ip4_out_frame:
  fixes s :: "'w stack" and ttl tos proto :: u8
  assumes drv: "driver nc transmit" and out: "netif_output ic = etharp_output nc" and inv: "arp_ok s qs"
    and own: "\<forall>i<ARP_TABLE_SIZE. q \<notin> set (qs ! i)"
    and c: "packet (pb s) q (q # xs)" and b: "pbufs (pb s) q = Some b" "pb_ref b = 1" and r: "room 34 (pb s) q (q # xs)"
    and hop: "reachable_hop s n ni src dst mac" and mtu: "mtu ni = 0 \<or> 20 + chain_len (pb s) (q # xs) \<le> unat (mtu ni)"
  defines "T \<equiv> transmit n (frame mac (hwaddr ni) ETHTYPE_IP
      (ip4_header 0 tos (of_nat (20 + chain_len (pb s) (q # xs))) (ip_id (world s)) ttl proto src dst @ chain_data (pb s) (q # xs)))
      ((world s)\<lparr>ip_id := ip_id (world s) + 1\<rparr>)"
  shows "\<exists>s'. ip4_output_if_src ic q (Some src) (Some dst) ttl tos proto n s = ret (fst T, s') \<and> world s' = snd T \<and> arp_table s' = arp_table s"
proof -
  note rD = roomD [OF r b(1)]
  let ?d = "pb_payload b - 20" and ?b = "b\<lparr>pb_payload := pb_payload b - 20, pb_len := pb_len b + 20, pb_tot_len := pb_tot_len b + 20\<rparr>"
  let ?s1 = "s\<lparr>pb := pset q ?b (pb s)\<rparr>"
  define t where "t = write_ip4_hdr ?d IP_HLEN (pb_tot_len b + 20) src dst ttl tos proto ?s1"
  have q0: "q \<noteq> 0" and tot: "pb_tot_len b = chain_len (pb s) (q # xs)" using c b by (auto simp: packet_def part_len_def)
  have st: "stored ?s1 ((world s)\<lparr>ip_id := ip_id (world s) + 1\<rparr>) t"
    using write_ip4_hdr_stored [of ?s1 ?d IP_HLEN] unfolding t_def by simp
  then have fields: "pbufs (pb t) = (pbufs (pb s))(q \<mapsto> ?b)" "arp_table t = arp_table s" "links t = links s"
    "etharp_cached_entry t = etharp_cached_entry s" "world t = (world s)\<lparr>ip_id := ip_id (world s) + 1\<rparr>" "pbuf_inv (pb t) = pbuf_inv (pset q ?b (pb s))"
    by (auto simp: stored_def)
  have un: "\<forall>x. x < ?d \<or> pb_payload b \<le> x \<longrightarrow> bytes (pb t) x = bytes (pb s) x"
    unfolding t_def using rD(3) by (auto simp: write_ip4_hdr_other)
  have "room (20 + 14) (pb s) q (q # xs)" using r by simp
  note put = put_header [OF c b(1) this fields(1) un]
  have "read_bytes ?d 20 (pb t) = ip4_header 0 tos (of_nat (20 + chain_len (pb s) (q # xs))) (ip_id (world s)) ttl proto src dst"
    unfolding t_def read_ip4_hdr by (simp only: tot) (simp add: add.commute)
  note hdr = this
  note data = put(2) [unfolded hdr]
  have src: "load32 (part_payload (pb t) q + 12) (pb t) = src" using ip4_header_fields(5) [OF hdr] by (simp add: part_payload_def fields(1))
  have "pbuf_inv (pb t)" unfolding fields(6)
    by (rule pbuf_inv_pset [OF arp_okD(2) [OF inv] b(1)]) simp_all
  then have "arp_ok t qs"
    by (intro arp_ok_pb [OF inv fields(2,3)]) (use fields(1,4) own inv in \<open>auto simp: arp_ok_def\<close>)
  then have inv': "arp_inv t" by (auto simp: arp_inv_def)
  have e: "ether_netif t n ni" using hop fields(3) by (simp add: reachable_hop_def ether_netif_def)
  have "headroom (pb t) q (q # xs)" using put(3) by (simp add: room_headroom)
  note del = output_delivers [OF drv inv' e _ put(1) this, of dst mac, unfolded src]
  have T: "transmit n (frame mac (hwaddr ni) ETHTYPE_IP (chain_data (pb t) (q # xs))) (world t) = T"
    unfolding T_def data fields(5) ..
  obtain s' where s': "etharp_output nc n q dst t = ret (fst T, s')" "world s' = snd T" "arp_table s' = arp_table s"
    using del [unfolded T fields(2)] hop unfolding reachable_hop_def by blast
  define b' s1 where bs: "b' = ?b" "s1 = ?s1"
  have "pbuf_add_header q IP_HLEN (pb s) = ret (0, pset q ?b (pb s))"
    unfolding IP_HLEN_def by (rule add_header_ok [OF c b(1) _ _ _ rD(4,1)]) (use rD(2,3) in auto)
  then have ah: "on_pb (pbuf_add_header q IP_HLEN) s = ret (0, s1)" by (simp add: on_pb_def bs)
  have g: "pget q (pb s) = ret b" "pget q (pb s1) = ret b'" "pget q (pb t) = ret b'" "nget n t = ret ni"
    using q0 b fields(1) ether_netifD(1,2) [OF e] by (simp_all add: pget_def nget_def bs)
  have w: "write_ip4_hdr (pb_payload b') IP_HLEN (pb_tot_len b') src dst ttl tos proto s1 = t" by (simp add: t_def bs)
  have len: "pb_len b' \<ge> IP_HLEN" "\<not> (mtu ni \<noteq> 0 \<and> pb_tot_len b' > unat (mtu ni))"
    using mtu tot by (auto simp: bs IP_HLEN_def)
  have "ip4_output_if_src ic q (Some src) (Some dst) ttl tos proto n s = etharp_output nc n q dst t"
    unfolding ip4_output_if_src_def ip4_output_if_opt_src_def output_options_def using b(2) ah g w len out by auto
  then show ?thesis using s' by auto
qed

lemma udp_out_frame:
  fixes s :: "'w stack" and port :: u16
  assumes drv: "driver nc transmit" and out: "netif_output ic = etharp_output nc" and inv: "arp_ok s qs"
    and own: "\<forall>i<ARP_TABLE_SIZE. q \<notin> set (qs ! i)"
    and c: "packet (pb s) q (q # xs)" and b: "pbufs (pb s) q = Some b" "pb_ref b = 1" and r: "room 42 (pb s) q (q # xs)"
    and hop: "reachable_hop s n ni (ip_2_ip4 src) (ip_2_ip4 dst) mac" and mtu: "mtu ni = 0 \<or> 28 + chain_len (pb s) (q # xs) \<le> unat (mtu ni)"
    and d: "pcb \<noteq> 0" "udp_mem (world s) pcb = Some d" "local_port d \<noteq> 0"
    and v4: "IP_ADDR_PCB_VERSION_MATCH d src" "IP_ADDR_PCB_VERSION_MATCH d dst" "\<not> IP_IS_V6 dst"
  defines "l \<equiv> chain_len (pb s) (q # xs)"
  defines "T \<equiv> transmit n (frame mac (hwaddr ni) ETHTYPE_IP
      (ip4_header 0 (pcb_tos d) (of_nat (28 + l)) (ip_id (world s)) (pcb_ttl d) IP_PROTO_UDP (ip_2_ip4 src) (ip_2_ip4 dst)
       @ udp_header 0 (local_port d) port (of_nat (8 + l)) @ chain_data (pb s) (q # xs)))
      ((world s)\<lparr>ip_id := ip_id (world s) + 1\<rparr>)"
  shows "\<exists>s'. udp_sendto_if_src ic pcb q dst port n src s = ret (fst T, s') \<and> world s' = snd T \<and> arp_table s' = arp_table s"
proof -
  note rD = roomD [OF r b(1)]
  let ?d = "pb_payload b - 8" and ?b = "b\<lparr>pb_payload := pb_payload b - 8, pb_len := pb_len b + 8, pb_tot_len := pb_tot_len b + 8\<rparr>"
  let ?s1 = "s\<lparr>pb := pset q ?b (pb s)\<rparr>"
  define t where "t = write_udp_hdr ?d (local_port d) port (pb_tot_len b + 8) ?s1"
  have q0: "q \<noteq> 0" and tot: "pb_tot_len b = l" using c b by (auto simp: packet_def part_len_def l_def)
  have lim: "pb_tot_len b + 8 < 2 ^ 16" using rD(2) tot by (simp add: l_def)
  have st: "stored ?s1 (world s) t" using write_udp_hdr_stored [of ?s1 ?d] unfolding t_def by simp
  then have fields: "pbufs (pb t) = (pbufs (pb s))(q \<mapsto> ?b)" "arp_table t = arp_table s" "links t = links s"
    "etharp_cached_entry t = etharp_cached_entry s" "world t = world s" "pbuf_inv (pb t) = pbuf_inv (pset q ?b (pb s))"
    by (auto simp: stored_def)
  have un: "\<forall>x. x < ?d \<or> pb_payload b \<le> x \<longrightarrow> bytes (pb t) x = bytes (pb s) x"
    unfolding t_def using rD(3) by (auto simp: write_udp_hdr_ok(2))
  have "room (8 + 34) (pb s) q (q # xs)" using r by simp
  note put = put_header [OF c b(1) this fields(1) un]
  have hdr: "read_bytes ?d 8 (pb t) = udp_header 0 (local_port d) port (of_nat (8 + l))"
    unfolding t_def write_udp_hdr_ok(1) tot by (simp add: add.commute)
  have "pbuf_inv (pb t)" unfolding fields(6)
    by (rule pbuf_inv_pset [OF arp_okD(2) [OF inv] b(1)]) simp_all
  then have inv': "arp_ok t qs"
    by (intro arp_ok_pb [OF inv fields(2,3)]) (use fields(1,4) own inv in \<open>auto simp: arp_ok_def\<close>)
  have "l + 8 = chain_len (pb t) (q # xs)"
    using put(1) fields(1) tot by (auto simp: packet_def part_len_def)
  then have len: "chain_len (pb t) (q # xs) = 8 + l" by simp
  have hop': "reachable_hop t n ni (ip_2_ip4 src) (ip_2_ip4 dst) mac"
    using hop fields(2,3) by (simp add: reachable_hop_def ether_netif_def)
  have bt: "pbufs (pb t) q = Some ?b" "pb_ref ?b = 1" using fields(1) b(2) by simp_all
  have "mtu ni = 0 \<or> 20 + chain_len (pb t) (q # xs) \<le> unat (mtu ni)" using mtu unfolding len l_def by simp
  note ip = ip4_out_frame [OF drv out inv' own put(1) bt put(3) hop' this, where tos = "pcb_tos d" and ttl = "pcb_ttl d" and proto = IP_PROTO_UDP]
  have "20 + chain_len (pb t) (q # xs) = 28 + l" unfolding len by simp
  then have T: "transmit n (frame mac (hwaddr ni) ETHTYPE_IP
      (ip4_header 0 (pcb_tos d) (of_nat (20 + chain_len (pb t) (q # xs))) (ip_id (world t)) (pcb_ttl d) IP_PROTO_UDP (ip_2_ip4 src) (ip_2_ip4 dst) @ chain_data (pb t) (q # xs)))
      ((world t)\<lparr>ip_id := ip_id (world t) + 1\<rparr>) = T"
    unfolding T_def put(2) hdr fields(5) by simp
  from ip
  obtain s' where s': "ip4_output_if_src ic q (Some (ip_2_ip4 src)) (Some (ip_2_ip4 dst)) (pcb_ttl d) (pcb_tos d) IP_PROTO_UDP n t = ret (fst T, s')"
    "world s' = snd T" "arp_table s' = arp_table s"
    unfolding T fields(2) by blast
  define b' s1 where bs: "b' = ?b" "s1 = ?s1"
  have "pbuf_add_header q UDP_HLEN (pb s) = ret (0, pset q ?b (pb s))"
    unfolding UDP_HLEN_def by (rule add_header_ok [OF c b(1) _ _ _ rD(4,1)]) (use rD(2,3) in auto)
  then have sh: "send_header q s = ret (q, s1)" by (simp add: send_header_def on_pb_def bs)
  have g: "uget pcb s = ret d" "uget pcb s1 = ret d" "pget q (pb s) = ret b" "pget q (pb s1) = ret b'"
    using d(1,2) q0 b by (simp_all add: uget_def pget_def bs)
  have "s1\<lparr>pb := pset q b' (pb s1)\<rparr> = s1" by (simp add: bs pset_def)
  then have w: "write_udp_hdr (pb_payload b') (local_port d) port (pb_tot_len b') (s1\<lparr>pb := pset q b' (pb s1)\<rparr>) = t" by (simp add: t_def bs)
  have n0: "n \<noteq> 0" and uni: "\<not> ip_addr_ismulticast dst"
    using hop v4(3) by (simp_all add: reachable_hop_def ether_netif_def unicast_def ip_addr_ismulticast_def)
  have "\<not> U16 (pb_tot_len b + UDP_HLEN) < pb_tot_len b" "pb_len b' \<ge> UDP_HLEN" using lim by (simp_all add: UDP_HLEN_def bs)
  then have "udp_sendto_if_src ic pcb q dst port n src s =
      bind_run (ip4_output_if_src ic q (Some (ip_2_ip4 src)) (Some (ip_2_ip4 dst)) (pcb_ttl d) (pcb_tos d) IP_PROTO_UDP n t) ret"
    using d(1,3) q0 n0 v4 g sh uni w by (simp add: udp_sendto_if_src_def Let_def ip_output_if_src_def)
  then show ?thesis using s' by auto
qed

end
