(* ===== verification/Frame_Input.thy ===== *)
theory Frame_Input
  imports Header_Bytes
begin

text \<open>
  A frame on its way up: Ethernet and IPv4 take their headers off, cut the padding off, and hand the rest to
  the protocol above.
\<close>

subsection \<open>Removing a header\<close>

definition shortened :: "nat \<Rightarrow> pbuf \<Rightarrow> pbuf" where
  "shortened n b = b\<lparr>pb_payload := pb_payload b + n, pb_len := pb_len b - n, pb_tot_len := pb_tot_len b - n\<rparr>"

lemma remove_header_ok:
  assumes c: "packet s p (p # xs)" and b: "pbufs s p = Some b" and n: "0 < n" "n \<le> pb_len b"
  shows "pbuf_remove_header p n s = ret (0, pset p (shortened n b) s)" and "packet (pset p (shortened n b) s) p (p # xs)"
    and "chain_data (pset p (shortened n b) s) (p # xs) = drop n (chain_data s (p # xs))"
proof -
  let ?s = "pset p (shortened n b) s"
  have pb: "p \<noteq> 0" "pb_tot_len b = pb_len b + chain_len s xs" "pb_tot_len b < 2 ^ 16" using c b by (auto simp: packet_def part_len_def)
  have "U16 (pb_tot_len b + (2 ^ 16 - n)) = pb_tot_len b - n"
  proof -
    have "pb_tot_len b + (2 ^ 16 - n) = (pb_tot_len b - n) + 2 ^ 16" using n pb by simp
    then show ?thesis using pb(3) by (simp only: U16_def mod_add_self2) simp
  qed
  moreover have "U16 (pb_len b - n) = pb_len b - n" "U16 n = n" using n pb by simp_all
  ultimately show "pbuf_remove_header p n s = ret (0, ?s)"
    using pb n b by (simp add: pbuf_remove_header_def pget_def shortened_def)
  have pn: "p \<notin> set xs" using chain_distinct [of s p "p # xs"] c by (simp add: packet_def)
  then have fr: "pbufs ?s x = pbufs s x" if "x \<in> set xs" for x using that by auto
  have l: "chain_len ?s xs = chain_len s xs" "chain_addrs ?s xs = chain_addrs s xs" "chain ?s q xs = chain s q xs" for q
    using chain_frame [of xs ?s s, OF fr] by blast+
  show "packet ?s p (p # xs)"
    using c b pb n l by (auto simp: packet_def part_len_def shortened_def)
  have "drop n [pb_payload b..<pb_payload b + pb_len b] = [pb_payload b + n..<pb_payload b + pb_len b]" by (simp add: drop_upt)
  moreover have "pb_payload b + n + (pb_len b - n) = pb_payload b + pb_len b" using n by simp
  ultimately have "chain_addrs ?s (p # xs) = drop n (chain_addrs s (p # xs))"
    using n l(2) by (simp add: chain_addrs_Cons part_len_def part_payload_def b shortened_def)
  then show "chain_data ?s (p # xs) = drop n (chain_data s (p # xs))"
    unfolding chain_data_addrs by (simp add: drop_map)
qed

text \<open>The header is in the first struct.\<close>

lemma head_bytes:
  assumes "pbufs s p = Some b" "n \<le> pb_len b"
  shows "read_bytes (pb_payload b) n s = take n (chain_data s (p # xs))"
proof -
  have "take n (read_bytes (pb_payload b) (pb_len b) s) = read_bytes (pb_payload b) n s"
    using read_bytes_part [of 0 n "pb_len b" "pb_payload b" s] assms(2) by simp
  then show ?thesis using assms by (simp add: part_len_def part_payload_def)
qed

subsection \<open>Padding\<close>

text \<open>Short frames are padded; a packet in one buffer that is not from the heap can be cut without more ado.\<close>

definition one_buffer :: "pbuf \<Rightarrow> nat list \<Rightarrow> bool" where
  "one_buffer b xs \<longleftrightarrow> xs = [] \<and> (pbuf_get_allocsrc b \<noteq> PBUF_TYPE_ALLOC_SRC_MASK_STD_HEAP \<or> pb_flags b AND PBUF_FLAG_IS_CUSTOM \<noteq> 0)"

lemma realloc_one:
  assumes c: "packet s p [p]" and b: "pbufs s p = Some b" "one_buffer b []" and n: "n < pb_tot_len b"
  shows "pbuf_realloc p n s = ret (pset p (b\<lparr>pb_len := n, pb_tot_len := n\<rparr>) s)"
proof -
  have pb: "p \<noteq> 0" "pb_tot_len b = pb_len b" "pb_next b = 0" using c b(1) by (auto simp: packet_def)
  have g: "pget p s = ret b" using pb(1) b(1) by (simp add: pget_def)
  have w: "realloc_walk k p n s = ret (p, n, s)" for k using g n pb(2) by (subst realloc_walk.simps) simp
  have heap: "\<not> (pbuf_get_allocsrc b = PBUF_TYPE_ALLOC_SRC_MASK_STD_HEAP \<and> n \<noteq> pb_len b \<and> pb_flags b AND PBUF_FLAG_IS_CUSTOM = 0)"
    using b(2) by (auto simp: one_buffer_def)
  have g': "pget p (pset p (b\<lparr>pb_len := n, pb_tot_len := n\<rparr>) s) = ret (b\<lparr>pb_len := n, pb_tot_len := n\<rparr>)" using pb(1) by (simp add: pget_def)
  have idem: "pset p (b\<lparr>pb_len := n, pb_tot_len := n, pb_next := 0\<rparr>) (pset p (b\<lparr>pb_len := n, pb_tot_len := n\<rparr>) s) = pset p (b\<lparr>pb_len := n, pb_tot_len := n\<rparr>) s"
    using pb(3) by (cases b) (simp add: pset_def)
  show ?thesis unfolding pbuf_realloc_def using pb g w heap n g' idem by (auto simp: Let_def)
qed

text \<open>The packet is cut to its first \<open>n\<close> bytes.\<close>

definition cut_to :: "nat \<Rightarrow> u8 list \<Rightarrow> pbuf \<Rightarrow> pbuf" where
  "cut_to n pad b = (if pad = [] then b else b\<lparr>pb_len := n, pb_tot_len := n\<rparr>)"

lemma cut_padding:
  fixes s :: "'w stack"
  assumes c: "packet (pb s) p (p # xs)" and b: "pbufs (pb s) p = Some b" and data: "chain_data (pb s) (p # xs) = front @ pad"
    and pad: "pad = [] \<or> one_buffer b xs"
  defines "b' \<equiv> cut_to (length front) pad b"
  shows "(if length front < pb_tot_len b then run_pb (pbuf_realloc p (length front)) s else ret s) = ret (s\<lparr>pb := pset p b' (pb s)\<rparr>)"
    and "packet (pset p b' (pb s)) p (p # xs)" and "chain_data (pset p b' (pb s)) (p # xs) = front" and "pb_tot_len b' = length front"
proof -
  have tot: "pb_tot_len b = length front + length pad"
    using c b length_chain_data [of "pb s" "p # xs"] unfolding data by (simp add: packet_def part_len_def)
  have id: "pset p b (pb s) = pb s" using b by (simp add: pset_def map_upd_triv)
  show "pb_tot_len b' = length front" using tot by (simp add: b'_def cut_to_def)
  have one: "xs = [] \<and> one_buffer b []" if "pad \<noteq> []" using pad that by (simp add: one_buffer_def)
  have single: "pb_len b = pb_tot_len b" if "pad \<noteq> []" using one [OF that] c b by (auto simp: packet_def)
  show "(if length front < pb_tot_len b then run_pb (pbuf_realloc p (length front)) s else ret s) = ret (s\<lparr>pb := pset p b' (pb s)\<rparr>)"
  proof (cases "pad = []")
    case False
    then have "pbuf_realloc p (length front) (pb s) = ret (pset p b' (pb s))"
      using realloc_one [of "pb s" p b "length front"] one c b tot by (simp add: b'_def cut_to_def)
    then show ?thesis using False tot by (simp add: run_pb_def)
  qed (simp add: tot b'_def cut_to_def id)
  show "packet (pset p b' (pb s)) p (p # xs)"
    using c id one b tot by (cases "pad = []") (auto simp: b'_def cut_to_def packet_def part_len_def)
  show "chain_data (pset p b' (pb s)) (p # xs) = front"
  proof (cases "pad = []")
    case False
    have "read_bytes (pb_payload b) (length front) (pb s) = take (length front) (chain_data (pb s) (p # xs))"
      by (rule head_bytes [OF b]) (use single [OF False] tot in simp)
    then show ?thesis using one [OF False] False unfolding data by (simp add: b'_def cut_to_def part_len_def part_payload_def)
  qed (use data in \<open>simp add: b'_def cut_to_def id\<close>)
qed

subsection \<open>IPv4\<close>

text \<open>What IPv4 does after the protocol above has returned.\<close>

definition leave_ip :: "'w stack \<Rightarrow> 'w stack" where
  "leave_ip s =
     (let any = (\<lambda>a. a\<lparr>u_addr := (u_addr a)\<lparr>addr := (addr (u_addr a))[0 := IPADDR_ANY]\<rparr>\<rparr>) in
      on_ip_data (\<lambda>d. d\<lparr>current_netif := 0, current_input_netif := 0, current_ip4_header := 0, current_ip_header_tot_len := 0,
        current_iphdr_src := any (current_iphdr_src d), current_iphdr_dest := any (current_iphdr_dest d)\<rparr>) s)"

lemma on_ip_data_simps [simp]:
  "world (on_ip_data f s) = (world s)\<lparr>ip_data := f (ip_data (world s))\<rparr>" "pb (on_ip_data f s) = pb s" "netifs (on_ip_data f s) = netifs s"
  "nget n (on_ip_data f s) = nget n s" "netif_list (on_ip_data f s) = netif_list s" "netif_default (on_ip_data f s) = netif_default s"
  "next_netif_num (on_ip_data f s) = next_netif_num s" "autoips (on_ip_data f s) = autoips s"
  by (simp_all add: on_ip_data_def nget_def)

lemma version_fields:
  assumes "bytes (pb s) a = 0x45"
  shows "IPH_V a s = 4" "IPH_HL_BYTES a s = 20"
proof -
  have "drop_bit 4 (0x45 :: u8) = 4" by (simp add: drop_bit_eq_div)
  then show "IPH_V a s = 4" by (simp add: IPH_V_def assms)
  show "IPH_HL_BYTES a s = 20" by (simp add: IPH_HL_BYTES_def assms U8_def)
qed

text \<open>The interface is up and has the address of the packet, and the sender is a host or none.\<close>

definition for_host :: "'w stack \<Rightarrow> nat \<Rightarrow> netif \<Rightarrow> u32 \<Rightarrow> u32 \<Rightarrow> bool" where
  "for_host s n ni src dst \<longleftrightarrow> n \<noteq> 0 \<and> netifs s n = Some ni \<and> netif_is_up ni \<and> ip_addr ni = dst \<and> unicast dst ni
     \<and> (src = IPADDR_ANY \<or> \<not> (ip4_addr_isbroadcast_u32 src ni \<or> ip4_addr_ismulticast src))"

text \<open>The state in which the protocol above is called.\<close>

definition arrived :: "nat \<Rightarrow> nat \<Rightarrow> u32 \<Rightarrow> u32 \<Rightarrow> nat \<Rightarrow> pbuf \<Rightarrow> 'w stack \<Rightarrow> 'w stack" where
  "arrived p h src dst n b s = s\<lparr>pb := pset p b (pb s), world := (world s)\<lparr>ip_data := (ip_data (world s))\<lparr>
     current_iphdr_dest := ip_addr_copy_from_ip4 dst, current_iphdr_src := ip_addr_copy_from_ip4 src,
     current_netif := n, current_input_netif := n, current_ip4_header := h, current_ip_header_tot_len := 20\<rparr>\<rparr>\<rparr>"

lemma ip4_input_dispatch:
  fixes s :: "'w stack"
  assumes p: "packet (pb s) p (p # xs)" "pbufs (pb s) p = Some b" "20 \<le> pb_len b"
    and data: "chain_data (pb s) (p # xs) = ip4_header chk tos (of_nat (20 + length body)) ident ttl proto src dst @ body @ pad"
    and pad: "pad = [] \<or> one_buffer b xs" and n: "for_host s n ni src dst"
  defines "b' \<equiv> shortened 20 (cut_to (20 + length body) pad b)"
  shows "Ip4_Input.ip4_input ic p n s = bind_run (input_dispatch ic p (pb_payload b) 20 n n (arrived p (pb_payload b) src dst n b' s)) (\<lambda>s. ret (ERR_OK, leave_ip s))"
    and "packet (pset p b' (pb s)) p (p # xs)" and "chain_data (pset p b' (pb s)) (p # xs) = body"
    and "read_bytes (pb_payload b) 20 (pb s) = ip4_header chk tos (of_nat (20 + length body)) ident ttl proto src dst"
proof -
  let ?h = "pb_payload b" and ?hdr = "ip4_header chk tos (of_nat (20 + length body)) ident ttl proto src dst"
  define b0 where "b0 = cut_to (20 + length body) pad b"
  define s0 where "s0 = s\<lparr>pb := pset p b0 (pb s)\<rparr>"
  have nD: "n \<noteq> 0" "nget n s0 = ret ni" "netif_is_up ni" "ip_addr ni = dst" "dst \<noteq> IPADDR_ANY"
    "\<not> ip4_addr_isbroadcast_u32 dst ni" "\<not> ip4_addr_ismulticast dst"
    "\<not> (src \<noteq> IPADDR_ANY \<and> (ip4_addr_isbroadcast_u32 src ni \<or> ip4_addr_ismulticast src))"
    using n by (auto simp: for_host_def unicast_def nget_def s0_def)
  have "read_bytes ?h 20 (pb s) = take 20 (chain_data (pb s) (p # xs))" by (rule head_bytes [OF p(2,3)])
  then show hdr: "read_bytes ?h 20 (pb s) = ?hdr" unfolding data by simp
  note f = ip4_header_fields [OF hdr] and v = version_fields [OF ip4_header_fields(1) [OF hdr]]
  have p0: "p \<noteq> 0" "pget p (pb s) = ret b" "pget p (pb s0) = ret b0" using p(1,2) by (auto simp: packet_def pget_def s0_def)
  have lf: "length (?hdr @ body) = 20 + length body" by simp
  note cut = cut_padding [OF p(1,2) _ pad, of "?hdr @ body", unfolded lf, folded b0_def, folded s0_def]
  have cd: "chain_data (pb s) (p # xs) = (?hdr @ body) @ pad" using data by simp
  note cut = cut [OF cd]
  have lim: "20 + length body < 2 ^ 16"
    using p(1) length_chain_data [of "pb s" "p # xs"] unfolding data by (simp add: packet_def)
  have len: "unat (lwip_htons (IPH_LEN ?h s)) = 20 + length body"
    unfolding IPH_LEN_def f(2) using lim by (simp only: unat_of_nat) simp
  have b0: "pbufs (pb s0) p = Some b0" "20 \<le> pb_len b0" "pb_payload b0 = ?h"
    using p(3) by (auto simp: s0_def b0_def cut_to_def)
  have pk0: "packet (pb s0) p (p # xs)" "chain_data (pb s0) (p # xs) = ?hdr @ body" using cut(2,3) by (simp_all add: s0_def)
  have bts: "bytes (pb s0) = bytes (pb s)" by (simp add: s0_def)
  define s1 where "s1 = on_ip_data (\<lambda>d. d\<lparr>current_iphdr_src := ip_addr_copy_from_ip4 src\<rparr>) (on_ip_data (\<lambda>d. d\<lparr>current_iphdr_dest := ip_addr_copy_from_ip4 dst\<rparr>) s0)"
  have cur: "ip4_current_dest_addr s1 = dst" "ip4_current_src_addr s1 = src" "nget n s1 = ret ni" "pb s1 = pb s0"
    using nD(2) by (simp_all add: s1_def ip4_current_dest_addr_def ip4_current_src_addr_def)
  have "ip4_input_accept n s1 = ret True" using nD cur by (simp add: ip4_input_accept_def)
  then have nif: "input_netif ic ?h 20 n s1 = ret (n, True)" using cur nD by (simp add: input_netif_def)
  have l: "load32 (?h + 16) (pb s0) = dst" "load32 (?h + 12) (pb s0) = src" using f(5,6) by (simp_all add: load32_def bts)
  have "\<not> (20 > pb_len b0 \<or> 20 + length body > pb_tot_len b0 \<or> 20 < IP_HLEN)"
    using b0(2) cut(4) by (simp add: IP_HLEN_def)
  then have in1: "Ip4_Input.ip4_input ic p n s = input_up ic p ?h 20 n n s1"
    using p0 v len nif cur nD cut(1) unfolding Ip4_Input.ip4_input_def
    by (simp add: Let_def l s1_def [symmetric] IP_HLEN_def) blast
  define s2 where "s2 = on_ip_data (\<lambda>d. d\<lparr>current_netif := n, current_input_netif := n, current_ip4_header := ?h, current_ip_header_tot_len := 20\<rparr>) s1"
  note rm = remove_header_ok [OF pk0(1) b0(1), of 20]
  have two: "pset p (shortened 20 b0) (pb s0) = pset p b' (pb s)" by (simp add: s0_def b'_def b0_def pset_def)
  have s3: "s2\<lparr>pb := pset p b' (pb s)\<rparr> = arrived p ?h src dst n b' s"
    by (simp add: s2_def s1_def s0_def arrived_def on_ip_data_def on_world_def)
  have on: "on_pb (pbuf_remove_header p 20) s2 = ret (0, arrived p ?h src dst n b' s)"
    using rm(1) b0(2) two s3 by (simp add: on_pb_def s2_def s1_def)
  have off: "IPH_OFFSET ?h s1 = 0" "IPH_HL_BYTES ?h s1 = 20"
    using f(3) v(2) by (simp_all add: IPH_OFFSET_def IPH_HL_BYTES_def load16_def cur(4) bts)
  show "Ip4_Input.ip4_input ic p n s = bind_run (input_dispatch ic p ?h 20 n n (arrived p ?h src dst n b' s)) (\<lambda>s. ret (ERR_OK, leave_ip s))"
    unfolding in1 using p0(1) off on unfolding input_up_def leave_ip_def by (simp add: Let_def s2_def [symmetric])
  show "packet (pset p b' (pb s)) p (p # xs)" "chain_data (pset p b' (pb s)) (p # xs) = body"
    using rm(2,3) b0(2) unfolding two pk0(2) by simp_all
qed

subsection \<open>Ethernet\<close>

text \<open>The link layer hands the packets of IPv4 to the input function of IPv4, and ignores its result.\<close>

definition ip4_above :: "'w inet net_calls \<Rightarrow> 'w inet_calls \<Rightarrow> bool" where
  "ip4_above nc ic \<longleftrightarrow> (\<forall>p n s. Net_State.ip4_input nc p n s = bind_run (Ip4_Input.ip4_input ic p n s) (\<lambda>(_, s). ret s))"

lemma packet_flags:
  assumes "packet s p xs" "pbufs s p = Some b"
  shows "packet (pset p (b\<lparr>pb_if_idx := i, pb_flags := f\<rparr>) s) p xs" "chain_data (pset p (b\<lparr>pb_if_idx := i, pb_flags := f\<rparr>) s) = chain_data s"
proof -
  let ?s = "pset p (b\<lparr>pb_if_idx := i, pb_flags := f\<rparr>) s"
  have l: "part_len ?s = part_len s" "part_payload ?s = part_payload s" using assms(2) by (auto simp: part_len_def part_payload_def)
  then have cl: "chain_len ?s = chain_len s" by (intro ext) (simp add: chain_len_def)
  have "chain ?s q ys = chain s q ys" for q ys
    using assms(2) by (induction ys arbitrary: q) (auto simp: cl split: option.splits)
  then show "packet ?s p xs" using assms(1) by (simp add: packet_def cl)
  show "chain_data ?s = chain_data s" by (intro ext) (simp add: chain_data_def l)
qed

lemma dest_flags_custom: "(x OR dest_flags d) AND PBUF_FLAG_IS_CUSTOM = x AND PBUF_FLAG_IS_CUSTOM"
proof -
  have "dest_flags d AND PBUF_FLAG_IS_CUSTOM = 0"
    by (simp add: dest_flags_def PBUF_FLAG_IS_CUSTOM_def PBUF_FLAG_LLMCAST_def PBUF_FLAG_LLBCAST_def)
  then show ?thesis by (simp add: bit.conj_disj_distrib2)
qed

lemma frame_dispatch:
  fixes s :: "'w stack"
  assumes p: "packet (pb s) p (p # xs)" "pbufs (pb s) p = Some b" "34 \<le> pb_len b"
    and data: "chain_data (pb s) (p # xs) = frame mac hw ETHTYPE_IP
        (ip4_header chk tos (of_nat (20 + length body)) ident ttl proto src dst @ body @ pad)" "length mac = 6" "length hw = 6"
    and pad: "pad = [] \<or> one_buffer b xs" and n: "for_host s n ni src dst" "netif_flags ni AND NETIF_FLAG_ETHARP \<noteq> 0" and up: "ip4_above nc ic"
  shows "\<exists>i f l t. let h = pb_payload b + 14; b' = b\<lparr>pb_payload := h + 20, pb_len := l, pb_tot_len := t, pb_flags := f, pb_if_idx := i\<rparr>;
        s' = arrived p h src dst n b' s
      in ethernet_input nc p n s = bind_run (input_dispatch ic p h 20 n n s') (\<lambda>s. ret (ERR_OK, leave_ip s))
        \<and> packet (pb s') p (p # xs) \<and> chain_data (pb s') (p # xs) = body
        \<and> read_bytes h 20 (pb s) = ip4_header chk tos (of_nat (20 + length body)) ident ttl proto src dst
        \<and> l = (if pad = [] then pb_len b - 34 else length body) \<and> f AND PBUF_FLAG_IS_CUSTOM = pb_flags b AND PBUF_FLAG_IS_CUSTOM"
proof -
  let ?h = "pb_payload b"
  define b1 where "b1 = b\<lparr>pb_if_idx := (if pb_if_idx b = 0 then U8 (netif_num ni + 1) else pb_if_idx b),
      pb_flags := pb_flags b OR dest_flags (read_bytes ?h 6 (pb s))\<rparr>"
  define s1 where "s1 = s\<lparr>pb := pset p b1 (pb s)\<rparr>"
  have "read_bytes ?h 14 (pb s) = take 14 (chain_data (pb s) (p # xs))" by (rule head_bytes [OF p(2)]) (use p(3) in simp)
  then have "read_bytes ?h 14 (pb s) = mac @ hw @ be16_bytes ETHTYPE_IP" unfolding data(1) using data(2,3) by (simp add: frame_def)
  then have "read_bytes (?h + 12) 2 (pb s) = be16_bytes ETHTYPE_IP" using read_bytes_part [of 12 2 14 ?h "pb s"] data(2,3) by simp
  from load16_be [OF this] have type: "load16 (?h + 12) (pb s) = PP_HTONS ETHTYPE_IP"
    by (metis PP_HTONS_lwip lwip_htons_htons)
  have p0: "p \<noteq> 0" "pget p (pb s) = ret b" using p(1,2) by (auto simp: packet_def pget_def)
  have nn: "nget n s = ret ni" using n(1) by (simp add: for_host_def nget_def)
  have b1: "pb_payload b1 = ?h" "pb_len b1 = pb_len b" by (simp_all add: b1_def)
  have pk: "packet (pb s1) p (p # xs)" "chain_data (pb s1) = chain_data (pb s)" "pbufs (pb s1) p = Some b1"
    unfolding s1_def b1_def using packet_flags [OF p(1,2)] by simp_all
  note rm = remove_header_ok [OF pk(1,3), of 14]
  define b2 where "b2 = shortened 14 b1"
  define s2 where "s2 = s1\<lparr>pb := pset p b2 (pb s1)\<rparr>"
  have on: "on_pb (pbuf_remove_header p SIZEOF_ETH_HDR) s1 = ret (0, s2)"
    using rm(1) p(3) b1 by (simp add: on_pb_def s2_def b2_def SIZEOF_ETH_HDR_def)
  have eth: "ethernet_input nc p n s = bind_run (Ip4_Input.ip4_input ic p n s2) (\<lambda>(_, s). ret (ERR_OK, s))"
    using p0 nn p(3) type n(2) on [unfolded s1_def b1_def] up unfolding ethernet_input_def ip4_above_def
    by (cases "pb_if_idx b = 0") (simp_all add: Let_def SIZEOF_ETH_HDR_def bind_run_assoc split_def)
  let ?b = "shortened 20 (cut_to (20 + length body) pad b2)"
  have flags: "pb_flags b1 AND PBUF_FLAG_IS_CUSTOM = pb_flags b AND PBUF_FLAG_IS_CUSTOM"
    by (simp add: b1_def dest_flags_custom)
  have pk2: "packet (pb s2) p (p # xs)" "pbufs (pb s2) p = Some b2" "20 \<le> pb_len b2"
    "chain_data (pb s2) (p # xs) = ip4_header chk tos (of_nat (20 + length body)) ident ttl proto src dst @ body @ pad"
    using rm(2,3) p(3) b1 data(2,3) unfolding s2_def b2_def pk(2) data(1) by (simp_all add: shortened_def frame_def del: chain_data_simps)
  have pad2: "pad = [] \<or> one_buffer b2 xs" and n2: "for_host s2 n ni src dst"
    using pad n(1) flags by (auto simp: one_buffer_def b2_def shortened_def pbuf_get_allocsrc_def b1_def for_host_def s2_def s1_def)
  note ip = ip4_input_dispatch [OF pk2 pad2 n2]
  have arr: "arrived p (pb_payload b2) src dst n ?b s2 = arrived p (?h + 14) src dst n ?b s"
    by (simp add: arrived_def s2_def s1_def b2_def shortened_def b1 pset_def)
  have b': "?b = b\<lparr>pb_payload := ?h + 14 + 20, pb_len := pb_len ?b, pb_tot_len := pb_tot_len ?b, pb_flags := pb_flags ?b, pb_if_idx := pb_if_idx ?b\<rparr>"
    by (cases b) (simp add: b2_def b1_def shortened_def cut_to_def)
  have ps: "pset p ?b (pb s2) = pset p ?b (pb s)" by (simp add: s2_def s1_def pset_def)
  have bts: "read_bytes (?h + 14) 20 (pb s2) = read_bytes (?h + 14) 20 (pb s)" by (simp add: s2_def s1_def)
  have "pb_len ?b = (if pad = [] then pb_len b - 34 else length body)" using b1 by (simp add: shortened_def cut_to_def b2_def)
  moreover have "pb_flags ?b AND PBUF_FLAG_IS_CUSTOM = pb_flags b AND PBUF_FLAG_IS_CUSTOM" using flags by (simp add: shortened_def cut_to_def b2_def)
  moreover have "ethernet_input nc p n s = bind_run (input_dispatch ic p (?h + 14) 20 n n (arrived p (?h + 14) src dst n ?b s)) (\<lambda>s. ret (ERR_OK, leave_ip s))"
    unfolding eth ip(1) arr using b1 by (simp add: bind_run_assoc b2_def shortened_def)
  moreover have "packet (pb (arrived p (?h + 14) src dst n ?b s)) p (p # xs)" "chain_data (pb (arrived p (?h + 14) src dst n ?b s)) (p # xs) = body"
    using ip(2,3) unfolding ps by (simp_all add: arrived_def)
  moreover have "read_bytes (?h + 14) 20 (pb s) = ip4_header chk tos (of_nat (20 + length body)) ident ttl proto src dst"
    using ip(4) b1 unfolding bts [symmetric] by (simp add: b2_def shortened_def)
  ultimately show ?thesis unfolding Let_def
    by (intro exI [of _ "pb_if_idx ?b"] exI [of _ "pb_flags ?b"] exI [of _ "pb_len ?b"] exI [of _ "pb_tot_len ?b"], unfold b' [symmetric]) blast
qed

end
