(* ===== verification/Udp_Receive.thy ===== *)
theory Udp_Receive
  imports Frame_Input
begin

text \<open>
  Datagrams on their way from IPv4 to the receive function of the block that they are for. Bound blocks exclude one
  another, so there is at most one block for a datagram to a single host, wherever it is in the list.
\<close>

subsection \<open>The block for a datagram\<close>

text \<open>Does the local end of the block cover the address \<open>dst\<close> of this host, and its remote end the sender?\<close>

definition covers :: "udp_pcb \<Rightarrow> u32 \<Rightarrow> bool" where
  "covers c dst \<longleftrightarrow> IP_IS_ANY_TYPE_VAL (local_ip c)
     \<or> ip_type (local_ip c) = IPADDR_TYPE_V4 \<and> (ip_2_ip4 (local_ip c) = 0 \<or> ip_2_ip4 (local_ip c) = dst)"

definition from_peer :: "udp_pcb \<Rightarrow> u32 \<Rightarrow> u16 \<Rightarrow> bool" where
  "from_peer c src sp \<longleftrightarrow> remote_port c = sp \<and> (ip_addr_isany (remote_ip c) \<or> ip_addr_cmp (remote_ip c) (ip_addr_copy_from_ip4 src))"

definition connected :: "udp_pcb \<Rightarrow> bool" where
  "connected c \<longleftrightarrow> up_flags c AND UDP_FLAGS_CONNECTED \<noteq> 0"

text \<open>A block for both versions has no address, and a block that is tied to an interface takes part only there.\<close>

definition open_ends :: "'w inet \<Rightarrow> bool" where
  "open_ends w \<longleftrightarrow> (\<forall>n\<in>set (udp_pcbs w). \<forall>c. udp_mem w n = Some c \<longrightarrow>
     netif_idx c = NETIF_NO_INDEX \<and> (IP_IS_ANY_TYPE_VAL (local_ip c) \<longrightarrow> ip_addr_isany (local_ip c)))"

lemma covers_conflict:
  assumes "covers c dst" "covers d dst" "local_port c = local_port d"
    and "IP_IS_ANY_TYPE_VAL (local_ip c) \<longrightarrow> ip_addr_isany (local_ip c)" "IP_IS_ANY_TYPE_VAL (local_ip d) \<longrightarrow> ip_addr_isany (local_ip d)"
  shows "conflict c d"
  using assms by (auto simp: covers_def conflict_def ip_addr_isany_def ip_addr_cmp_def IP_IS_V6_def IPADDR_TYPE_V4_def IPADDR_TYPE_V6_def)

lemma local_match_spec:
  assumes "netif_idx c = NETIF_NO_INDEX" "current_iphdr_dest (ip_data (world s)) = ip_addr_copy_from_ip4 dst"
  shows "udp_input_local_match c ini False s = ret (covers c dst)"
  using assms by (auto simp: udp_input_local_match_def covers_def IP_ADDR_PCB_VERSION_MATCH_EXACT_def ip_addr_isany_def ip_addr_cmp_def
      IP_IS_V6_def IPADDR_TYPE_V4_def IPADDR_TYPE_V6_def Let_def)

lemma input_find_none:
  assumes "\<forall>n\<in>set ns. n \<noteq> 0 \<and> (\<exists>c. udp_mem (world s) n = Some c \<and> netif_idx c = NETIF_NO_INDEX \<and> (local_port c = dp \<longrightarrow> \<not> covers c dst))"
    and "current_iphdr_dest (ip_data (world s)) = ip_addr_copy_from_ip4 dst"
  shows "input_find sp dp ini False ns u s = ret (0, u)"
  using assms(1)
proof (induction ns)
  case (Cons n ns)
  then obtain c where c: "uget n s = ret c" "netif_idx c = NETIF_NO_INDEX" "local_port c = dp \<longrightarrow> \<not> covers c dst" by (auto simp: uget_ret)
  then show ?case using Cons local_match_spec [OF c(2) assms(2)] by (cases "local_port c = dp") simp_all
qed simp

lemma input_find_one:
  assumes ns: "\<forall>n\<in>set ns. n \<noteq> 0 \<and> (\<exists>c. udp_mem (world s) n = Some c \<and> netif_idx c = NETIF_NO_INDEX \<and> (n \<noteq> m \<longrightarrow> local_port c = dp \<longrightarrow> \<not> covers c dst))"
    and m: "m \<in> set ns" "distinct ns" "udp_mem (world s) m = Some c" "local_port c = dp" "covers c dst"
    and w: "current_iphdr_dest (ip_data (world s)) = ip_addr_copy_from_ip4 dst" "current_iphdr_src (ip_data (world s)) = ip_addr_copy_from_ip4 src"
  shows "input_find sp dp ini False ns 0 s = ret (if from_peer c src sp then m else 0, if connected c then 0 else m)"
  using ns m(1,2)
proof (induction ns)
  case (Cons n ns)
  then obtain d where d: "n \<noteq> 0" "udp_mem (world s) n = Some d" "netif_idx d = NETIF_NO_INDEX" "n \<noteq> m \<longrightarrow> local_port d = dp \<longrightarrow> \<not> covers d dst" by auto
  have g: "uget n s = ret d" using d(1,2) by (rule uget_ret)
  note lm = local_match_spec [OF d(3) w(1)]
  show ?case
  proof (cases "n = m")
    case True
    have "\<forall>k\<in>set ns. k \<noteq> 0 \<and> (\<exists>c. udp_mem (world s) k = Some c \<and> netif_idx c = NETIF_NO_INDEX \<and> (local_port c = dp \<longrightarrow> \<not> covers c dst))"
      using Cons.prems True by fastforce
    from input_find_none [OF this w(1)] show ?thesis
      using True g lm d(2) m(3-5) w(2) by (auto simp: from_peer_def connected_def)
  next
    case False
    then have "m \<in> set ns" "distinct ns" using Cons.prems by auto
    then have "input_find sp dp ini False ns 0 s = ret (if from_peer c src sp then m else 0, if connected c then 0 else m)"
      using Cons by auto
    then show ?thesis using False g lm d(4) by (cases "local_port d = dp") simp_all
  qed
qed simp

subsection \<open>Delivery\<close>

text \<open>The block that a datagram to \<open>dst\<close> and \<open>dp\<close> goes to, and the function that it is handed to.\<close>

definition receiver :: "'w inet \<Rightarrow> nat \<Rightarrow> udp_pcb \<Rightarrow> u32 \<Rightarrow> u16 \<Rightarrow> u32 \<Rightarrow> u16 \<Rightarrow> bool" where
  "receiver w m c src sp dst dp \<longleftrightarrow> m \<in> set (udp_pcbs w) \<and> udp_mem w m = Some c \<and> local_port c = dp \<and> covers c dst
     \<and> (from_peer c src sp \<or> \<not> connected c) \<and> recv c \<noteq> 0"

lemma udp_input_ok:
  fixes s :: "'w stack"
  assumes inv: "udp_inv (world s)" and op: "open_ends (world s)" and rc: "receiver (world s) m c src sp dst dp"
    and p: "packet (pb s) p (p # xs)" "pbufs (pb s) p = Some b" "8 \<le> pb_len b" "take 8 (chain_data (pb s) (p # xs)) = udp_header chk sp dp len"
    and w: "current_iphdr_dest (ip_data (world s)) = ip_addr_copy_from_ip4 dst" "current_iphdr_src (ip_data (world s)) = ip_addr_copy_from_ip4 src"
    and n: "n \<noteq> 0" "netifs s n = Some ni" "current_netif (ip_data (world s)) = n" "\<not> ip4_addr_isbroadcast_u32 dst ni"
  shows "\<exists>s'. udp_input ic p n s = udp_recv_fn ic (recv c) (recv_arg c) m p (ip_addr_copy_from_ip4 src) sp s'
    \<and> packet (pb s') p (p # xs) \<and> chain_data (pb s') (p # xs) = drop 8 (chain_data (pb s) (p # xs))
    \<and> udp_mem (world s') = udp_mem (world s) \<and> set (udp_pcbs (world s')) = set (udp_pcbs (world s)) \<and> links s' = links s"
proof -
  let ?ns = "udp_pcbs (world s)"
  have l: "distinct ?ns" "\<forall>k\<in>set ?ns. k \<noteq> 0 \<and> udp_mem (world s) k \<noteq> None" using inv by (auto simp: udp_inv_def listed_def)
  have rcD: "m \<in> set ?ns" "udp_mem (world s) m = Some c" "local_port c = dp" "covers c dst" "from_peer c src sp \<or> \<not> connected c" "recv c \<noteq> 0"
    using rc by (simp_all add: receiver_def)
  have others: "\<not> covers d dst" if "k \<in> set ?ns" "k \<noteq> m" "udp_mem (world s) k = Some d" "local_port d = dp" for k d
  proof
    assume "covers d dst"
    moreover have "\<not> conflict c d" using inv that rcD(1,2) unfolding udp_inv_def exclusive_def by metis
    ultimately show False using covers_conflict [OF rcD(4)] that rcD op by (auto simp: open_ends_def)
  qed
  have one: "\<forall>k\<in>set ?ns. k \<noteq> 0 \<and> (\<exists>d. udp_mem (world s) k = Some d \<and> netif_idx d = NETIF_NO_INDEX \<and> (k \<noteq> m \<longrightarrow> local_port d = dp \<longrightarrow> \<not> covers d dst))"
  proof
    fix k assume k: "k \<in> set ?ns"
    then obtain d where d: "k \<noteq> 0" "udp_mem (world s) k = Some d" using l(2) by blast
    then show "k \<noteq> 0 \<and> (\<exists>d. udp_mem (world s) k = Some d \<and> netif_idx d = NETIF_NO_INDEX \<and> (k \<noteq> m \<longrightarrow> local_port d = dp \<longrightarrow> \<not> covers d dst))"
      using op others k by (auto simp: open_ends_def)
  qed
  have m0: "m \<noteq> 0" using l(2) rcD(1) by blast
  have find: "input_find sp dp ni False ?ns 0 s = ret (if from_peer c src sp then m else 0, if connected c then 0 else m)"
    by (rule input_find_one [OF one rcD(1) l(1) rcD(2-4) w])
  define full where "full = (if from_peer c src sp then m else 0)"
  define t where "t = (if 0 < full \<and> hd ?ns \<noteq> full then set_pcbs (full # remove1 full ?ns) s else s)"
  have t: "pb t = pb s" "udp_mem (world t) = udp_mem (world s)" "set (udp_pcbs (world t)) = set ?ns" "links t = links s" "ip_data (world t) = ip_data (world s)"
    using rcD(1) l(1) by (auto simp: t_def full_def set_pcbs_def on_world_def)
  have pcb: "(if full = 0 then if connected c then 0 else m else full) = m" using rcD(5) m0 by (auto simp: full_def)
  have hdr: "read_bytes (pb_payload b) 8 (pb s) = udp_header chk sp dp len" using head_bytes [OF p(2,3)] p(4) by metis
  note ports = udp_header_fields [OF hdr]
  have p0: "p \<noteq> 0" "pget p (pb s) = ret b" using p(1,2) by (auto simp: packet_def pget_def)
  have nn: "nget n s = ret ni" using n(1,2) by (simp add: nget_def)
  have "udp_input ic p n s = input_deliver ic p m sp False True t"
    using p0 n nn p(3) w(1) find m0 pcb unfolding udp_input_def
    by (simp add: UDP_HLEN_def Let_def ip_addr_isbroadcast_def ports full_def [symmetric] t_def [symmetric] del: add_2_eq_Suc')
  moreover note rm = remove_header_ok [OF p(1,2), of 8]
  let ?s = "t\<lparr>pb := pset p (shortened 8 b) (pb t)\<rparr>"
  have "uget m ?s = ret c" using m0 rcD(2) t(2) by (simp add: uget_def)
  then have "input_deliver ic p m sp False True t = udp_recv_fn ic (recv c) (recv_arg c) m p (ip_addr_copy_from_ip4 src) sp ?s"
    using rm(1) p(3) t(1,5) m0 rcD(6) w(2) by (simp add: input_deliver_def on_pb_def UDP_HLEN_def)
  ultimately show ?thesis
    using rm(2,3) p(3) t by (intro exI [of _ ?s]) simp
qed

lemma ip_data_irrelevant [simp]:
  "udp_inv (w\<lparr>ip_data := d\<rparr>) = udp_inv w" "open_ends (w\<lparr>ip_data := d\<rparr>) = open_ends w"
  "receiver (w\<lparr>ip_data := d\<rparr>) m c src sp dst dp = receiver w m c src sp dst dp"
  by (simp_all add: udp_inv_def listed_def exclusive_def open_ends_def receiver_def)

lemma frame_to_udp:
  fixes s :: "'w stack"
  assumes inv: "udp_inv (world s)" and op: "open_ends (world s)" and rc: "receiver (world s) m c src sp dst dp"
    and p: "packet (pb s) p (p # xs)" "pbufs (pb s) p = Some b" "42 \<le> pb_len b"
    and data: "chain_data (pb s) (p # xs) = frame mac hw ETHTYPE_IP
        (ip4_header c1 tos (of_nat (28 + length d)) ident ttl IP_PROTO_UDP src dst @ udp_header c2 sp dp len @ d @ pad)" "length mac = 6" "length hw = 6"
    and pad: "pad = [] \<or> one_buffer b xs" and n: "for_host s n ni src dst" "netif_flags ni AND NETIF_FLAG_ETHARP \<noteq> 0" and up: "ip4_above nc ic"
  shows "\<exists>s'. ethernet_input nc p n s = bind_run (udp_recv_fn ic (recv c) (recv_arg c) m p (ip_addr_copy_from_ip4 src) sp s') (\<lambda>s. ret (ERR_OK, leave_ip s))
    \<and> packet (pb s') p (p # xs) \<and> chain_data (pb s') (p # xs) = d
    \<and> udp_mem (world s') = udp_mem (world s) \<and> set (udp_pcbs (world s')) = set (udp_pcbs (world s)) \<and> links s' = links s"
proof -
  let ?body = "udp_header c2 sp dp len @ d"
  have "34 \<le> pb_len b" using p(3) by simp
  moreover have "chain_data (pb s) (p # xs) = frame mac hw ETHTYPE_IP (ip4_header c1 tos (of_nat (20 + length ?body)) ident ttl IP_PROTO_UDP src dst @ ?body @ pad)"
    using data(1) by (simp add: add.assoc)
  ultimately obtain i f l t b' s1 where b': "b' = b\<lparr>pb_payload := pb_payload b + 14 + 20, pb_len := l, pb_tot_len := t, pb_flags := f, pb_if_idx := i\<rparr>"
    and s1: "s1 = arrived p (pb_payload b + 14) src dst n b' s"
    and run: "ethernet_input nc p n s = bind_run (input_dispatch ic p (pb_payload b + 14) 20 n n s1) (\<lambda>s. ret (ERR_OK, leave_ip s))"
    and pk: "packet (pb s1) p (p # xs)" "chain_data (pb s1) (p # xs) = ?body"
    and hdr: "read_bytes (pb_payload b + 14) 20 (pb s) = ip4_header c1 tos (of_nat (20 + length ?body)) ident ttl IP_PROTO_UDP src dst"
    and l: "l = (if pad = [] then pb_len b - 34 else length ?body)"
    using frame_dispatch [OF p(1,2) _ _ data(2,3) pad n up, of c1 tos ?body ident ttl IP_PROTO_UDP] unfolding Let_def by blast
  have w1: "world s1 = (world s)\<lparr>ip_data := (ip_data (world s))\<lparr>current_iphdr_dest := ip_addr_copy_from_ip4 dst, current_iphdr_src := ip_addr_copy_from_ip4 src,
      current_netif := n, current_input_netif := n, current_ip4_header := pb_payload b + 14, current_ip_header_tot_len := 20\<rparr>\<rparr>"
    and k1: "links s1 = links s" and b1: "pbufs (pb s1) p = Some b'" by (simp_all add: s1 arrived_def)
  have proto: "IPH_PROTO (pb_payload b + 14) s1 = IP_PROTO_UDP"
    using ip4_header_fields(4) [OF hdr] by (simp add: IPH_PROTO_def s1 arrived_def)
  have "\<exists>s'. udp_input ic p n s1 = udp_recv_fn ic (recv c) (recv_arg c) m p (ip_addr_copy_from_ip4 src) sp s'
      \<and> packet (pb s') p (p # xs) \<and> chain_data (pb s') (p # xs) = drop 8 (chain_data (pb s1) (p # xs))
      \<and> udp_mem (world s') = udp_mem (world s1) \<and> set (udp_pcbs (world s')) = set (udp_pcbs (world s1)) \<and> links s' = links s1"
    by (rule udp_input_ok [where dst = dst and dp = dp and len = len and chk = c2 and b = b'])
      (use inv op rc pk b1 n(1) k1 p(3) l in \<open>auto simp: w1 for_host_def unicast_def b' simp del: chain_data_simps\<close>)
  then show ?thesis unfolding run w1 pk(2) using proto k1 by (fastforce simp: input_dispatch_def Let_def)
qed

end
