(* ===== verification/Udp_Delivery.thy ===== *)
theory Udp_Delivery
  imports Udp_Send Udp_Receive
begin

text \<open>
  The composition: a datagram that one application sends is handed to the receive function of another one.
  Also which way packets are routed, and what a change of address does to the blocks that are bound to it.
\<close>

subsection \<open>Sending from a bound block\<close>

text \<open>
  The frame for a datagram from the interface \<open>ni\<close> and the block \<open>d\<close>. The stack leaves the checksums \<open>c1\<close> and \<open>c2\<close> and the
  padding of short frames to the hardware.
\<close>

definition udp_frame :: "u16 \<Rightarrow> u16 \<Rightarrow> u8 list \<Rightarrow> u8 list \<Rightarrow> netif \<Rightarrow> udp_pcb \<Rightarrow> u16 \<Rightarrow> u32 \<Rightarrow> u16 \<Rightarrow> u8 list \<Rightarrow> u8 list" where
  "udp_frame c1 c2 pad mac ni d ident dst port data = frame mac (hwaddr ni) ETHTYPE_IP
     (ip4_header c1 (pcb_tos d) (of_nat (28 + length data)) ident (pcb_ttl d) IP_PROTO_UDP (ip_addr ni) dst
      @ udp_header c2 (local_port d) port (of_nat (8 + length data)) @ data @ pad)"

text \<open>
  The block \<open>d\<close> at \<open>pcb\<close> is bound, to the address of the interface \<open>n\<close> or to none; the packet \<open>q\<close> is the caller's
  own and has room for the headers; the route to \<open>dst\<close> is over \<open>n\<close>, and the Ethernet address of the next hop is known.
\<close>

definition bound_here :: "'w stack \<Rightarrow> nat \<Rightarrow> udp_pcb \<Rightarrow> netif \<Rightarrow> bool" where
  "bound_here s pcb d ni \<longleftrightarrow> pcb \<noteq> 0 \<and> udp_mem (world s) pcb = Some d \<and> local_port d \<noteq> 0 \<and> netif_idx d = NETIF_NO_INDEX
     \<and> (ip_type (local_ip d) = IPADDR_TYPE_V4 \<or> IP_IS_ANY_TYPE_VAL (local_ip d)) \<and> ip_2_ip4 (local_ip d) \<in> {IPADDR_ANY, ip_addr ni}"

definition own_buffer :: "'w stack \<Rightarrow> nat \<Rightarrow> nat list \<Rightarrow> bool" where
  "own_buffer s q xs \<longleftrightarrow> packet (pb s) q xs \<and> ref_of (pb s) q = 1 \<and> room 42 (pb s) q xs
     \<and> (\<forall>qs. queues (pb s) (arp_table s) qs \<longrightarrow> (\<forall>i<ARP_TABLE_SIZE. q \<notin> set (qs ! i)))"

definition routed :: "'w stack \<Rightarrow> u32 \<Rightarrow> nat \<Rightarrow> netif \<Rightarrow> u8 list \<Rightarrow> nat \<Rightarrow> bool" where
  "routed s dst n ni mac len \<longleftrightarrow> ip4_route dst s = ret n \<and> reachable_hop s n ni (ip_addr ni) dst mac
     \<and> (mtu ni = 0 \<or> 28 + len \<le> unat (mtu ni))"

lemma sendto_frame:
  fixes s :: "'w stack" and port :: u16
  assumes drv: "driver nc transmit" and out: "netif_output ic = etharp_output nc" and inv: "arp_inv s"
    and d: "bound_here s pcb d ni" and q: "own_buffer s q xs" and hop: "routed s dst n ni mac (chain_len (pb s) xs)"
  defines "T \<equiv> transmit n (udp_frame 0 0 [] mac ni d (ip_id (world s)) dst port (chain_data (pb s) xs)) ((world s)\<lparr>ip_id := ip_id (world s) + 1\<rparr>)"
  shows "\<exists>s'. udp_sendto ic pcb q (ip_addr_copy_from_ip4 dst) port s = ret (fst T, s') \<and> world s' = snd T \<and> arp_table s' = arp_table s"
proof -
  obtain qs where ok: "arp_ok s qs" using inv by (auto simp: arp_inv_def)
  have own: "\<forall>i<ARP_TABLE_SIZE. q \<notin> set (qs ! i)" using q arp_okD(3) [OF ok] by (simp add: own_buffer_def)
  obtain ys where xs: "xs = q # ys" using q by (cases xs) (auto simp: own_buffer_def packet_def)
  have pk: "packet (pb s) q (q # ys)" and r: "room 42 (pb s) q (q # ys)" using q xs by (simp_all add: own_buffer_def)
  obtain b where b: "pbufs (pb s) q = Some b" "pb_ref b = 1"
    using q by (cases "pbufs (pb s) q") (auto simp: own_buffer_def ref_of_def)
  have dD: "pcb \<noteq> 0" "udp_mem (world s) pcb = Some d" "local_port d \<noteq> 0" "netif_idx d = NETIF_NO_INDEX"
    "ip_2_ip4 (local_ip d) = IPADDR_ANY \<or> ip_2_ip4 (local_ip d) = ip_addr ni" using d by (auto simp: bound_here_def)
  have v4: "IP_ADDR_PCB_VERSION_MATCH d (ip_addr_copy_from_ip4 a)" "IP_ADDR_PCB_VERSION_MATCH d (local_ip d)" for a
    using d by (auto simp: bound_here_def IP_ADDR_PCB_VERSION_MATCH_def IP_ADDR_PCB_VERSION_MATCH_EXACT_def)
  have rt: "ip4_route dst s = ret n" and rh: "reachable_hop s n ni (ip_addr ni) dst mac" and mtu: "mtu ni = 0 \<or> 28 + chain_len (pb s) (q # ys) \<le> unat (mtu ni)"
    using hop xs by (simp_all add: routed_def)
  have n: "n \<noteq> 0" "nget n s = ret ni" and uni: "\<not> ip4_addr_ismulticast dst"
    using rh ether_netifD(1,2) [of s n ni] by (auto simp: reachable_hop_def unicast_def nget_def)
  have g: "uget pcb s = ret d" using dD(1,2) by (rule uget_ret)
  define src where "src = (if ip_2_ip4 (local_ip d) = IPADDR_ANY \<or> ip4_addr_ismulticast (ip_2_ip4 (local_ip d))
      then ip_addr_copy_from_ip4 (ip_addr ni) else local_ip d)"
  have src: "ip_2_ip4 src = ip_addr ni" "IP_ADDR_PCB_VERSION_MATCH d src" using dD(5) v4 by (auto simp: src_def)
  have "sendto_netif ic d (ip_addr_copy_from_ip4 dst) s = ret n"
    using dD(4) uni rt n(1) by (simp add: sendto_netif_def ip_addr_ismulticast_def ip_route_def ip4_route_src_def)
  then have "udp_sendto ic pcb q (ip_addr_copy_from_ip4 dst) port s = udp_sendto_if_src ic pcb q (ip_addr_copy_from_ip4 dst) port n src s"
    using dD(1,5) b n g v4 pk by (auto simp: udp_sendto_def udp_sendto_if_def src_def packet_def)
  moreover have "\<exists>s'. udp_sendto_if_src ic pcb q (ip_addr_copy_from_ip4 dst) port n src s = ret (fst T, s') \<and> world s' = snd T \<and> arp_table s' = arp_table s"
  proof -
    have "reachable_hop s n ni (ip_2_ip4 src) (ip_2_ip4 (ip_addr_copy_from_ip4 dst)) mac" using rh by (simp add: src(1))
    from udp_out_frame [OF drv out ok own pk b r this mtu dD(1-3) src(2) v4(1), of port]
    show ?thesis by (simp add: T_def udp_frame_def xs src(1) del: chain_data_simps chain_len_simps)
  qed
  ultimately show ?thesis by metis
qed

subsection \<open>Two example hosts\<close>

text \<open>Both have the driver that records frames; the first host knows the Ethernet address of the second one.\<close>

definition example_wire :: "frames inet net_calls" where
  "example_wire =
     \<lparr>linkoutput = (\<lambda>n p s. bind_run (pget p (pb s)) (\<lambda>b. bind_run (pbuf_copy_partial p (pb_tot_len b) 0 (pb s)) (\<lambda>bs.
        ret (ERR_OK, on_world (\<lambda>w. w\<lparr>outer := outer w @ [(n, bs)]\<rparr>) s)))),
      ip4_input = (\<lambda>p n s. bind_run (Ip4_Input.ip4_input example_inet_calls p n s) (\<lambda>(_, s). ret s)),
      ip6_input = (\<lambda>p n s. ret s), dhcp_arp_reply = (\<lambda>n a s. ret s), dhcp_network_changed = (\<lambda>n s. ret s),
      tcp_netif_ip_addr_changed = (\<lambda>a b s. ret s), udp_netif_ip_addr_changed = (\<lambda>a b s. ret s), igmp_start = (\<lambda>n s. ret s), igmp_report_groups = (\<lambda>n s. ret s),
      mld6_report_groups = (\<lambda>n s. ret s), nd6_restart_netif = (\<lambda>n s. ret s), nd6_cleanup_netif = (\<lambda>n s. ret s)\<rparr>"

definition example_record :: "nat \<Rightarrow> u8 list \<Rightarrow> frames inet \<Rightarrow> err_t \<times> frames inet" where
  "example_record n bs w = (ERR_OK, w\<lparr>outer := outer w @ [(n, bs)]\<rparr>)"

definition example_sender_calls :: "frames inet_calls" where
  "example_sender_calls = example_inet_calls\<lparr>netif_output := etharp_output example_wire\<rparr>"

definition example_letter :: pbuf where
  "example_letter = (example_pbuf 0 120 3 3)\<lparr>pb_type_internal := 0x80\<rparr>"

definition example_sender :: "frames stack" where
  "example_sender = (example_stack [10000] (example_pcb 0x0101A8C0 5000) fresh_pcb)\<lparr>pb := pset 50 example_letter example_ram_pbuf\<rparr>"

definition example_frame :: "u8 list" where
  "example_frame = udp_frame 0x1234 0x5678 [0, 0] [2, 0, 0, 0, 0, 2] example_netif (example_pcb 0x0101A8C0 5000) 1 0x0201A8C0 7 [120, 121, 122]"

definition example_receiver :: "frames stack" where
  "example_receiver = (example_stack [10000] (example_pcb 0 7) fresh_pcb)\<lparr>
     netifs := [1 \<mapsto> example_netif\<lparr>ip_addr := 0x0201A8C0, hwaddr := [2, 0, 0, 0, 0, 2]\<rparr>],
     pb := example_ram_pbuf\<lparr>pbufs := [50 \<mapsto> example_pbuf 0 200 47 47], bytes := (\<lambda>a. if 200 \<le> a \<and> a < 247 then example_frame ! (a - 200) else 0)\<rparr>\<rparr>"

lemma example_wire_driver: "driver example_wire example_record"
proof -
  have "pbuf_copy_partial p (chain_len b xs) 0 b = ret (chain_data b xs)" if "packet b p xs" for p xs b
    using copy_partial_loop_chain [of b p xs 0 "chain_len b xs" "[]"] that by (cases xs) (auto simp: packet_def pbuf_copy_partial_def)
  moreover have "pget p b = ret c \<Longrightarrow> packet b p xs \<Longrightarrow> pb_tot_len c = chain_len b xs" for p c b xs
    by (cases xs) (auto simp: packet_def pget_def part_len_def split: option.splits if_splits)
  moreover have "\<exists>c. pget p b = ret c" if "packet b p xs" for p b xs
    using that by (cases xs) (auto simp: packet_def pget_def split: option.splits)
  ultimately show ?thesis unfolding driver_def example_wire_def example_record_def on_world_def by fastforce
qed

text \<open>Nothing is queued at an example host, whatever its packet buffers are.\<close>

lemma example_host_arp:
  assumes "pbuf_inv q"
  shows "arp_inv ((example_stack ns c d)\<lparr>pb := q\<rparr>)"
proof -
  let ?s = "(example_stack ns c d)\<lparr>pb := q\<rparr>"
  have t: "arp_table ?s = example_table 0" "etharp_cached_entry ?s = 0" "netifs ?s = [1 \<mapsto> example_netif]" "pb ?s = q"
    by (simp_all add: example_stack_def)
  have nth: "example_queues [] ! i = []" if "i < ARP_TABLE_SIZE" for i
    using that by (auto simp: example_queues_def ARP_TABLE_SIZE_def nth_append nth_Cons split: nat.splits)
  have "arp_q (example_table 0 ! i) = 0" if "i < ARP_TABLE_SIZE" for i
    using that unfolding ten_cases by (auto simp: example_table_nth empty_entry_def)
  then have "queues q (example_table 0) (example_queues [])"
    unfolding queues_def using nth by (auto simp: example_queues_def ARP_TABLE_SIZE_def)
  moreover have "\<exists>ni. ether_netif ?s (arp_netif (example_table 0 ! i)) ni"
    if "i < ARP_TABLE_SIZE" "nonempty (example_table 0 ! i)" for i
    using that unfolding ten_cases
    by (intro exI [of _ example_netif]) (auto simp: example_table_nth empty_entry_def ether_netif_def t(3) example_netif_def ETH_HWADDR_LEN_def)
  ultimately show ?thesis
    unfolding arp_inv_def using example_table_ok assms by (intro exI [of _ "example_queues []"]) (simp add: arp_ok_def t ARP_TABLE_SIZE_def)
qed

lemma example_sender_arp: "arp_inv example_sender"
  unfolding example_sender_def
  by (intro example_host_arp pbuf_inv_pset [OF example_ram_inv]) (auto simp: example_ram_pbuf_def example_letter_def example_pbuf_def)

lemma example_no_queue:
  assumes "queues q (example_table 0) qs" "i < ARP_TABLE_SIZE"
  shows "50 \<notin> set (qs ! i)"
proof -
  have "arp_q (example_table 0 ! i) = 0" using assms(2) unfolding ten_cases by (auto simp: example_table_nth empty_entry_def)
  then have "chain q 0 (qs ! i)" using assms by (auto simp: queues_def)
  then show ?thesis by (cases "qs ! i") auto
qed

lemma example_sender_table: "arp_table example_sender = example_table 0"
  by (simp add: example_sender_def example_stack_def)

lemma example_own_buffer: "own_buffer example_sender 50 [50]" "chain_data (pb example_sender) [50] = [120, 121, 122]" "chain_len (pb example_sender) [50] = 3"
  using example_no_queue [of "pb example_sender"] unfolding own_buffer_def example_sender_table
  by (simp_all add: example_sender_def packet_def example_letter_def ref_of_def room_def example_ram_pbuf_def example_net_def example_pbuf_def
      part_len_def part_payload_def chain_addrs_def PBUF_TYPE_FLAG_STRUCT_DATA_CONTIGUOUS_def SIZEOF_STRUCT_PBUF_def read_bytes_def upt_rec pset_def)

lemma example_bound_here: "bound_here example_sender 10000 (example_pcb 0x0101A8C0 5000) example_netif"
  by (simp add: bound_here_def example_sender_def example_stack_def example_inet_def example_pcb_def fresh_pcb_def example_netif_def NETIF_NO_INDEX_def)

lemma example_known: "known_netifs example_sender"
  by (auto simp: known_netifs_def example_sender_def example_stack_def)

lemma example_routed: "routed example_sender 0x0201A8C0 1 example_netif [2, 0, 0, 0, 0, 2] 3"
proof -
  have rt: "ip4_route 0x0201A8C0 example_sender = ret 1"
    unfolding ip4_route_spec [OF example_known]
    by (simp add: example_sender_def example_stack_def example_inet_def on_link_def route_match_def example_netif_def netif_is_up_def netif_is_link_up_def
        ip4_addr_netcmp_def IPADDR_ANY_def NETIF_FLAG_UP_def NETIF_FLAG_LINK_UP_def)
  have uni: "unicast 0x0201A8C0 example_netif"
    by (simp add: unicast_def example_netif_def ip4_addr_isbroadcast_u32_def ip4_addr_ismulticast_def ip4_addr_netcmp_def
      IPADDR_ANY_def IPADDR_BROADCAST_def NETIF_FLAG_BROADCAST_def PP_HTONL_def)
  have hop: "next_hop example_netif src 0x0201A8C0 = 0x0201A8C0" for src by (simp add: next_hop_def example_netif_def ip4_addr_netcmp_def)
  have t: "arp_table example_sender = example_table 0" "netifs example_sender = [1 \<mapsto> example_netif]" by (simp_all add: example_sender_def example_stack_def)
  have mac: "abs_cache (arp_table example_sender) (next_hop example_netif src 0x0201A8C0, 1) = Some [2, 0, 0, 0, 0, 2]" for src
    unfolding hop by (simp add: t abs_cache_def example_table_def entry_key_def stable_iff)
  have young: "list_all (\<lambda>e. arp_ctime e < ARP_AGE_REREQUEST_USED_UNICAST) (arp_table example_sender)"
    by (simp add: t example_table_def empty_entry_def ARP_AGE_REREQUEST_USED_UNICAST_def ARP_MAXAGE_def list_all_iff)
  have "ether_netif example_sender 1 example_netif" "gw example_netif \<noteq> IPADDR_ANY" "28 + 3 \<le> unat (mtu example_netif)"
    by (simp_all add: ether_netif_def t example_netif_def ETH_HWADDR_LEN_def IPADDR_ANY_def)
  then show ?thesis using rt uni mac young by (simp add: routed_def reachable_hop_def)
qed

lemma example_frame_length: "length example_frame = 47"
  by (simp add: example_frame_def udp_frame_def frame_def example_netif_def)

lemma example_arrived:
  "packet (pb example_receiver) 50 [50]" "pbufs (pb example_receiver) 50 = Some (example_pbuf 0 200 47 47)" "chain_data (pb example_receiver) [50] = example_frame"
proof -
  show "packet (pb example_receiver) 50 [50]" "pbufs (pb example_receiver) 50 = Some (example_pbuf 0 200 47 47)"
    by (simp_all add: example_receiver_def packet_def part_len_def example_pbuf_def)
  have "read_bytes 200 47 (pb example_receiver) = example_frame"
    by (rule nth_equalityI) (simp_all add: example_frame_length example_receiver_def)
  then show "chain_data (pb example_receiver) [50] = example_frame"
    by (simp add: part_len_def part_payload_def example_receiver_def example_pbuf_def)
qed

lemma example_block:
  "udp_inv (world example_receiver)" "open_ends (world example_receiver)"
  "receiver (world example_receiver) 10000 (example_pcb 0 7) 0x0101A8C0 5000 0x0201A8C0 7"
  by (auto simp: udp_inv_def listed_def exclusive_def open_ends_def receiver_def covers_def connected_def example_receiver_def example_stack_def example_inet_def
      example_pcb_def fresh_pcb_def UDP_LOCAL_PORT_RANGE_START_def NETIF_NO_INDEX_def IP_IS_ANY_TYPE_VAL_def IPADDR_TYPE_V4_def IPADDR_TYPE_ANY_def split: if_splits)

lemma example_for_host:
  "for_host example_receiver 1 (example_netif\<lparr>ip_addr := 0x0201A8C0, hwaddr := [2, 0, 0, 0, 0, 2]\<rparr>) 0x0101A8C0 0x0201A8C0"
  by (simp add: for_host_def example_receiver_def example_netif_def netif_is_up_def NETIF_FLAG_UP_def unicast_def ip4_addr_isbroadcast_u32_def
      ip4_addr_ismulticast_def ip4_addr_netcmp_def IPADDR_ANY_def IPADDR_BROADCAST_def NETIF_FLAG_BROADCAST_def PP_HTONL_def)

subsection \<open>The properties\<close>

text \<open>
  C1: a datagram travels from application to application. When a block that is bound sends a packet of its
  caller, and the next hop on the route is known, \<open>udp_sendto\<close> hands the driver exactly one frame, with Ethernet, IPv4
  and UDP headers as the standards ask for in front of the data. When this frame, with whatever checksums and padding the
  hardware adds, arrives at another host, whose interface has the destination address, \<open>ethernet_input\<close> there
  calls exactly one receive function, that of the block that is bound to the destination port, with the data that was
  sent and the address and port of the sender.
\<close>

theorem udp_end_to_end:
  fixes s r :: "'w stack" and port :: u16
  assumes "driver nc transmit" and "netif_output ic = etharp_output nc" and "arp_inv s"
    and "bound_here s pcb d ni" and "own_buffer s q xs" and "routed s dst n ni mac (chain_len (pb s) xs)" and "length mac = 6" and "length (hwaddr ni) = 6"
    and "udp_inv (world r)" and "open_ends (world r)" and "receiver (world r) m c (ip_addr ni) (local_port d) dst port"
    and "for_host r k mi (ip_addr ni) dst" and "netif_flags mi AND NETIF_FLAG_ETHARP \<noteq> 0" and "ip4_above nc' ic'"
    and "packet (pb r) p (p # ys)" and "pbufs (pb r) p = Some b" and "42 \<le> pb_len b" and "pad = [] \<or> one_buffer b ys"
    and "chain_data (pb r) (p # ys) = udp_frame c1 c2 pad mac ni d (ip_id (world s)) dst port (chain_data (pb s) xs)"
  defines "T \<equiv> transmit n (udp_frame 0 0 [] mac ni d (ip_id (world s)) dst port (chain_data (pb s) xs)) ((world s)\<lparr>ip_id := ip_id (world s) + 1\<rparr>)"
  shows "\<exists>s' r'. udp_sendto ic pcb q (ip_addr_copy_from_ip4 dst) port s = ret (fst T, s') \<and> world s' = snd T
    \<and> ethernet_input nc' p k r = bind_run (udp_recv_fn ic' (recv c) (recv_arg c) m p (ip_addr_copy_from_ip4 (ip_addr ni)) (local_port d) r') (\<lambda>r. ret (ERR_OK, leave_ip r))
    \<and> packet (pb r') p (p # ys) \<and> chain_data (pb r') (p # ys) = chain_data (pb s) xs"
proof -
  obtain s' where "udp_sendto ic pcb q (ip_addr_copy_from_ip4 dst) port s = ret (fst T, s')" "world s' = snd T"
    using sendto_frame [OF assms(1-6), of port] unfolding T_def by blast
  with frame_to_udp [OF assms(9-11,15-17) assms(19) [unfolded udp_frame_def] assms(7,8,18,12-14)] show ?thesis by blast
qed

theorem udp_end_to_end_witness:
  "\<exists>s' r'. udp_sendto example_sender_calls 10000 50 (ip_addr_copy_from_ip4 0x0201A8C0) 7 example_sender = ret (ERR_OK, s')
    \<and> outer (world s') = [(1, udp_frame 0 0 [] [2, 0, 0, 0, 0, 2] example_netif (example_pcb 0x0101A8C0 5000) 1 0x0201A8C0 7 [120, 121, 122])]
    \<and> ethernet_input example_wire 50 1 example_receiver =
        bind_run (udp_recv_fn example_inet_calls 1 7 10000 50 (ip_addr_copy_from_ip4 0x0101A8C0) 5000 r') (\<lambda>r. ret (ERR_OK, leave_ip r))
    \<and> chain_data (pb r') [50] = [120, 121, 122]"
proof -
  let ?d = "example_pcb 0x0101A8C0 5000" and ?mi = "example_netif\<lparr>ip_addr := 0x0201A8C0, hwaddr := [2, 0, 0, 0, 0, 2]\<rparr>"
  have w: "ip_id (world example_sender) = 1" "outer (world example_sender) = []" by (simp_all add: example_sender_def example_stack_def example_inet_def)
  have e: "ip_addr example_netif = 0x0101A8C0" "local_port ?d = 5000" "recv (example_pcb 0 7) = 1" "recv_arg (example_pcb 0 7) = 7"
    by (simp_all add: example_netif_def example_pcb_def)
  have out: "netif_output example_sender_calls = etharp_output example_wire" by (simp add: example_sender_calls_def)
  have flag: "netif_flags ?mi AND NETIF_FLAG_ETHARP \<noteq> 0" by (simp add: example_netif_def NETIF_FLAG_ETHARP_def)
  have up: "ip4_above example_wire example_inet_calls" by (simp add: ip4_above_def example_wire_def)
  have len: "length (hwaddr example_netif) = 6" "length [2, 0, 0, 0, 0, 2 :: u8] = 6" by (simp_all add: example_netif_def)
  have rt: "routed example_sender 0x0201A8C0 1 example_netif [2, 0, 0, 0, 0, 2] (chain_len (pb example_sender) [50])"
    unfolding example_own_buffer(3) by (rule example_routed)
  have fr: "chain_data (pb example_receiver) [50] = udp_frame 0x1234 0x5678 [0, 0] [2, 0, 0, 0, 0, 2] example_netif ?d (ip_id (world example_sender)) 0x0201A8C0 7 (chain_data (pb example_sender) [50])"
    unfolding example_arrived(3) example_own_buffer(2) w(1) by (rule example_frame_def)
  have one: "[0, 0 :: u8] = [] \<or> one_buffer (example_pbuf 0 200 47 47) []"
    by (simp add: one_buffer_def example_pbuf_def PBUF_FLAG_IS_CUSTOM_def)
  have l42: "42 \<le> pb_len (example_pbuf 0 200 47 47)" by (simp add: example_pbuf_def)
  note E = udp_end_to_end [OF example_wire_driver out example_sender_arp example_bound_here example_own_buffer(1) rt len(2,1)
      example_block(1,2) _ _ flag up example_arrived(1,2) l42 one fr, unfolded e, OF example_block(3) example_for_host]
  show ?thesis
    using E unfolding example_own_buffer(2) w(1) by (auto simp: example_record_def w(2) e)
qed



end
