(* ===== verification/Icmp_Properties.thy ===== *)
theory Icmp_Properties
  imports Icmp Udp_Delivery
begin

text \<open>
  What becomes of an ICMP message that arrives in a frame: a valid echo request is answered by exactly one frame with
  the same data, everything else is dropped, and the packet is freed in any case.
\<close>

subsection \<open>The answer as bytes\<close>

text \<open>An echo request has type 8, a header of 8 bytes and a correct checksum; the answer has type 0, and its
  checksum is left to the hardware.\<close>

definition valid_echo :: "u8 list \<Rightarrow> bool" where
  "valid_echo msg \<longleftrightarrow> 8 \<le> length msg \<and> hd msg = 8 \<and> internet_checksum msg = 0"

definition echo_answer :: "u8 list \<Rightarrow> u8 list" where
  "echo_answer msg = [0, msg ! 1, 0, 0] @ drop 4 msg"

text \<open>The stores of \<open>echo_reply\<close>.\<close>

definition answer_stores :: "nat \<Rightarrow> u32 \<Rightarrow> u32 \<Rightarrow> 'w net \<Rightarrow> 'w net" where
  "answer_stores h src dst s =
     store_bytes (h + 10) (mem16 0) (store_bytes (h + 8) [ICMP_TTL] (store_bytes (h + 22) (mem16 0) (store_bytes (h + 20) [ICMP_ER]
      (store_bytes (h + 16) (memory_bytes dst) (store_bytes (h + 12) (memory_bytes src) s)))))"

lemma answer_stored: "stored s (world s) (answer_stores h src dst s)"
  unfolding answer_stores_def by (intro stored_intros(1,2))

lemma answer_other: "x < h \<or> h + 24 \<le> x \<Longrightarrow> bytes (pb (answer_stores h src dst s)) x = bytes (pb s) x"
  by (elim disjE) (simp_all add: answer_stores_def bytes_store_other)

lemma answer_header:
  assumes "read_bytes h 20 (pb s) = ip4_header chk tos len ident ttl proto a b"
  shows "read_bytes h 20 (pb (answer_stores h src dst s)) = ip4_header 0 tos len ident ICMP_TTL proto src dst"
proof -
  have part: "read_bytes (h + k) m (pb s) = take m (drop k (ip4_header chk tos len ident ttl proto a b))" if "k + m \<le> 20" for k m
    unfolding assms [symmetric] by (rule read_bytes_part [OF that])
  have old: "read_bytes h 1 (pb s) = [0x45]" "read_bytes (h + 1) 1 (pb s) = [tos]" "read_bytes (h + 2) 2 (pb s) = be16_bytes len"
    "read_bytes (h + 4) 2 (pb s) = be16_bytes ident" "read_bytes (h + 6) 2 (pb s) = [0, 0]" "read_bytes (h + 9) 1 (pb s) = [proto]"
    using part [of 0 1] part [of 1 1] part [of 2 2] part [of 4 2] part [of 6 2] part [of 9 1] by (simp_all add: ip4_header_def be16_bytes_def)
  show ?thesis
    unfolding hdr_split20 ip4_header_def be16_0
    by (simp add: answer_stores_def read_write_bytes_same read_write_bytes_other store_bytes_def old del: One_nat_def add_2_eq_Suc')
qed

lemma answer_icmp: "read_bytes (h + 20) 4 (pb (answer_stores h src dst s)) = [0, bytes (pb s) (h + 21), 0, 0]"
proof -
  have "read_bytes (h + 20) 4 t = read_bytes (h + 20) 1 t @ read_bytes (h + 21) 1 t @ read_bytes (h + 22) 2 t" for t
    using read_bytes_append [of "h + 20" 1 3 t] read_bytes_append [of "h + 21" 1 2 t] by (simp add: add.assoc del: add_2_eq_Suc' One_nat_def)
  moreover have "read_bytes (h + 21) 1 (pb s) = [bytes (pb s) (h + 21)]" by (rule nth_equalityI) simp_all
  ultimately show ?thesis
    by (simp add: answer_stores_def ICMP_ER_def read_write_bytes_same read_write_bytes_other store_bytes_def del: One_nat_def)
qed

subsection \<open>Memory\<close>

lemma pbuf_inv_flags:
  assumes "pbuf_inv s" "pbufs s p = Some b0" "pb_flags b AND PBUF_FLAG_IS_CUSTOM = pb_flags b0 AND PBUF_FLAG_IS_CUSTOM" "pb_type_internal b = pb_type_internal b0"
  shows "pbuf_inv (pset p b s)"
proof -
  have "pbuf_owned s p b \<longleftrightarrow> pbuf_owned s p b0" using assms(3,4) by (simp add: pbuf_owned_def pbuf_get_allocsrc_def)
  then show ?thesis using assms(1,2) by (auto simp: pbuf_inv_def)
qed

lemma packet_linked: "packet s p xs \<Longrightarrow> linked s p xs"
  unfolding packet_def using chain_linked by blast

lemma free_own:
  fixes s :: "'w net"
  assumes "pbuf_inv (pb s)" "linked (pb s) p xs" "xs \<noteq> []" "\<forall>x\<in>set xs. ref_of (pb s) x = 1"
  shows "\<exists>t. free_pbuf p s = ret (s\<lparr>pb := t\<rparr>) \<and> pbuf_inv t \<and> pbufs t = (\<lambda>x. if x \<in> set xs then None else pbufs (pb s) x)"
  using free_all_ok [OF assms] by (auto simp: free_pbuf_def on_pb_def)

subsection \<open>The answer leaves\<close>

text \<open>The message is in a chain whose first struct has the whole header of IPv4, at \<open>h\<close>, in front of its data.\<close>

lemma answer_chain:
  fixes s :: "'w stack"
  assumes c: "packet (pb s) p (p # xs)" and b: "pbufs (pb s) p = Some b" and h: "pb_payload b = h + 20" and l: "4 \<le> pb_len b"
    and r: "room 34 (pb s) p (p # xs)" and clear: "\<forall>a\<in>set (chain_addrs (pb s) xs). a < h \<or> h + 24 \<le> a"
    and hdr: "read_bytes h 20 (pb s) = ip4_header chk tos len ident ttl proto src dst"
  defines "b' \<equiv> b\<lparr>pb_payload := h, pb_len := pb_len b + 20, pb_tot_len := pb_tot_len b + 20\<rparr>"
  defines "t \<equiv> answer_stores h dst src (s\<lparr>pb := pset p b' (pb s)\<rparr>)"
  shows "packet (pb t) p (p # xs)" and "headroom (pb t) p (p # xs)"
    and "chain_data (pb t) (p # xs) = ip4_header 0 tos len ident ICMP_TTL proto dst src @ echo_answer (chain_data (pb s) (p # xs))"
proof -
  define u where "u = (pb s)\<lparr>bytes := bytes (pb t)\<rparr>"
  have st: "stored (s\<lparr>pb := pset p b' (pb s)\<rparr>) (world s) t" using answer_stored [of "s\<lparr>pb := pset p b' (pb s)\<rparr>"] unfolding t_def by simp
  have tu: "pbufs (pb t) = (pbufs u)(p \<mapsto> b\<lparr>pb_payload := pb_payload b - 20, pb_len := pb_len b + 20, pb_tot_len := pb_tot_len b + 20\<rparr>)"
    using st h by (auto simp: stored_def u_def b'_def)
  have same: "pbufs u = pbufs (pb s)" by (simp add: u_def)
  have u: "packet u p (p # xs)" "pbufs u p = Some b" "chain_addrs u = chain_addrs (pb s)" "chain_len u = chain_len (pb s)"
    using c b packet_same [OF same] same_pbufs [OF same] by (simp_all add: same)
  have "room 34 u p (p # xs)" using r unfolding room_def same u(3,4) .
  then have "room (20 + 14) u p (p # xs)" by simp
  note put = put_header [OF u(1,2) this tu]
  have un: "\<forall>x. x < pb_payload b - 20 \<or> pb_payload b \<le> x \<longrightarrow> bytes (pb t) x = bytes u x" by (simp add: u_def)
  show "packet (pb t) p (p # xs)" "headroom (pb t) p (p # xs)" using put(1,3) [OF un] by (simp_all add: room_headroom)
  have oth: "bytes (pb t) x = bytes (pb s) x" if "x < h \<or> h + 24 \<le> x" for x
    unfolding t_def answer_other [OF that] by simp
  have as: "chain_addrs (pb s) (p # xs) = [h + 20..<h + 24] @ [h + 24..<h + 20 + pb_len b] @ chain_addrs (pb s) xs"
  proof -
    have "[h + 20..<h + 20 + pb_len b] = [h + 20..<h + 24] @ [h + 24..<h + 20 + pb_len b]"
      using l upt_add_eq_append [of "h + 20" "h + 24" "pb_len b - 4"] by (simp add: ac_simps)
    then show ?thesis by (simp add: chain_addrs_Cons part_len_def part_payload_def b h)
  qed
  then have d4: "drop 4 (chain_data (pb s) (p # xs)) = map (bytes (pb s)) ([h + 24..<h + 20 + pb_len b] @ chain_addrs (pb s) xs)"
    unfolding chain_data_addrs by simp
  have one: "chain_data (pb s) (p # xs) ! 1 = bytes (pb s) (h + 21)" unfolding chain_data_addrs as by (simp add: nth_append add.commute)
  have "map (bytes (pb t)) ([h + 24..<h + 20 + pb_len b] @ chain_addrs (pb s) xs) = drop 4 (chain_data (pb s) (p # xs))"
    unfolding d4 using oth clear by (intro map_cong refl) auto
  moreover have "map (bytes (pb t)) [h + 20..<h + 24] = [0, bytes (pb s) (h + 21), 0, 0]"
    using answer_icmp [of h dst src "s\<lparr>pb := pset p b' (pb s)\<rparr>"] unfolding t_def by (simp add: read_bytes_def add.commute)
  ultimately have "chain_data u (p # xs) = echo_answer (chain_data (pb s) (p # xs))"
    unfolding chain_data_addrs [of u] u(3) as by (simp add: u_def echo_answer_def one del: chain_data_simps One_nat_def)
  moreover have "read_bytes h 20 (pb t) = ip4_header 0 tos len ident ICMP_TTL proto dst src"
    unfolding t_def by (rule answer_header [where a = src and b = dst]) (use hdr in simp)
  ultimately show "chain_data (pb t) (p # xs) = ip4_header 0 tos len ident ICMP_TTL proto dst src @ echo_answer (chain_data (pb s) (p # xs))"
    using put(2) [OF un] by (simp add: h del: chain_data_simps)
qed

lemma echo_buffer_in_place:
  assumes c: "packet (pb s) p (p # xs)" and b: "pbufs (pb s) p = Some b" and r: "room 34 (pb s) p (p # xs)"
  shows "echo_buffer p i 20 s = ret (p, s)"
proof -
  note rD = roomD [OF r b]
  let ?t = "pset p (b\<lparr>pb_payload := pb_payload b - 34, pb_len := pb_len b + 34, pb_tot_len := pb_tot_len b + 34\<rparr>) (pb s)"
  have p: "p \<noteq> 0" "pb_tot_len b = chain_len (pb s) (p # xs)" "pb_len b \<le> pb_tot_len b" using c b by (auto simp: packet_def part_len_def)
  have "pbuf_add_header p 34 (pb s) = ret (0, ?t)" by (rule add_header_ok [OF c b _ _ _ rD(4,1)]) (use rD(2,3) in auto)
  moreover have "pbuf_remove_header p 34 ?t = ret (0, pb s)"
    by (rule header_roundtrip_state [OF b p(1)]) (use rD(2,3) p(2,3) in auto)
  ultimately show ?thesis by (simp add: echo_buffer_def on_pb_def PBUF_LINK_HLEN_def)
qed

lemma echo_reply_ok:
  fixes s :: "'w stack"
  assumes drv: "driver nc transmit" and out: "netif_output ic = etharp_output nc" and inv: "arp_ok s qs" and own: "\<forall>i<ARP_TABLE_SIZE. p \<notin> set (qs ! i)"
    and c: "packet (pb s) p (p # xs)" and b: "pbufs (pb s) p = Some b" "pb_ref b = 1" and h: "pb_payload b = h + 20" and l: "4 \<le> pb_len b"
    and r: "room 34 (pb s) p (p # xs)" and clear: "\<forall>a\<in>set (chain_addrs (pb s) xs). a < h \<or> h + 24 \<le> a"
    and hdr: "read_bytes h 20 (pb s) = ip4_header chk tos len ident ttl proto src dst"
    and hop: "reachable_hop s n ni dst src mac" and mtu: "mtu ni = 0 \<or> 20 + chain_len (pb s) (p # xs) \<le> unat (mtu ni)"
    and cur: "ip4_current_dest_addr s = dst" "ip4_current_src_addr s = src"
  defines "T \<equiv> transmit n (frame mac (hwaddr ni) ETHTYPE_IP (ip4_header 0 tos len ident ICMP_TTL proto dst src @ echo_answer (chain_data (pb s) (p # xs)))) (world s)"
  shows "\<exists>s'. echo_reply ic p n 20 s = ret s' \<and> world s' = snd T \<and> arp_table s' = arp_table s \<and> pbuf_inv (pb s') \<and> linked (pb s') p (p # xs)
    \<and> ref_of (pb s') = ref_of (pb s) \<and> (\<forall>x. x \<noteq> p \<longrightarrow> pbufs (pb s') x = pbufs (pb s) x)"
proof -
  note rD = roomD [OF r b(1)]
  define b' where "b' = b\<lparr>pb_payload := h, pb_len := pb_len b + 20, pb_tot_len := pb_tot_len b + 20\<rparr>"
  define s1 where "s1 = s\<lparr>pb := pset p b' (pb s)\<rparr>"
  define t where "t = answer_stores h dst src s1"
  note ch = answer_chain [OF c b(1) h l r clear hdr, folded b'_def, folded s1_def, folded t_def]
  have p0: "p \<noteq> 0" and tot: "pb_tot_len b = chain_len (pb s) (p # xs)" using c b by (auto simp: packet_def part_len_def)
  have "stored s1 (world s) t" using answer_stored [of s1] unfolding t_def by (simp add: s1_def)
  then have fields: "pbufs (pb t) = (pbufs (pb s))(p \<mapsto> b')" "arp_table t = arp_table s" "links t = links s"
    "etharp_cached_entry t = etharp_cached_entry s" "world t = world s" "pbuf_inv (pb t) = pbuf_inv (pset p b' (pb s))"
    by (auto simp: stored_def s1_def)
  have "pbuf_inv (pset p b' (pb s))" by (rule pbuf_inv_pset [OF arp_okD(2) [OF inv] b(1)]) (simp_all add: b'_def)
  then have pt: "pbuf_inv (pb t)" unfolding fields(6) .
  then have "arp_ok t qs"
    by (intro arp_ok_pb [OF inv fields(2,3)]) (use fields(1,4) own inv in \<open>auto simp: arp_ok_def\<close>)
  then have inv': "arp_inv t" by (auto simp: arp_inv_def)
  have e: "ether_netif t n ni" using hop fields(3) by (simp add: reachable_hop_def ether_netif_def)
  have hdr': "read_bytes h 20 (pb t) = ip4_header 0 tos len ident ICMP_TTL proto dst src"
    unfolding t_def by (rule answer_header [where a = src and b = dst]) (use hdr in \<open>simp add: s1_def\<close>)
  have src: "load32 (part_payload (pb t) p + 12) (pb t) = dst" "load32 (h + 16) (pb t) = src"
    using ip4_header_fields(5,6) [OF hdr'] by (simp_all add: part_payload_def fields(1) b'_def)
  note del = output_delivers [OF drv inv' e _ ch(1,2), of src mac, unfolded src(1) ch(3) fields(2,5)]
  obtain s' d where s': "etharp_output nc n p src t = ret (fst T, s')" "world s' = snd T" "arp_table s' = arp_table s" "sent p (t\<lparr>etharp_cached_entry := d\<rparr>) s'"
    using del [folded T_def] hop unfolding reachable_hop_def by blast
  have "pbuf_add_header p 20 (pb s) = ret (0, pset p b' (pb s))"
    using add_header_ok [OF c b(1), of 20] rD(1-4) by (simp add: b'_def h)
  then have ah: "on_pb (pbuf_add_header p 20) s = ret (0, s1)" by (simp add: on_pb_def s1_def)
  have g: "pget p (pb s) = ret b" "pget p (pb s1) = ret b'" "pget p (pb t) = ret b'" "nget n t = ret ni"
    using p0 b fields(1) ether_netifD(1,2) [OF e] by (simp_all add: pget_def nget_def s1_def)
  have b': "pb_payload b' = h" "pb_ref b' = 1" "\<not> pb_len b' < IP_HLEN" "\<not> (mtu ni \<noteq> 0 \<and> pb_tot_len b' > unat (mtu ni))"
    using mtu tot b(2) by (auto simp: b'_def IP_HLEN_def)
  have "ip4_output_if ic p (Some dst) None ICMP_TTL 0 IP_PROTO_ICMP n t = etharp_output nc n p src t"
    unfolding ip4_output_if_def ip4_output_if_opt_def ip4_output_if_opt_src_def using g b' out src(2) by auto
  moreover have "ip4_current_src_addr (store_bytes x bs s1) = src" for x bs
    using cur(2) by (simp add: s1_def store_bytes_def ip4_current_src_addr_def)
  ultimately have "echo_reply ic p n 20 s = ret s'"
    using g ah b'(1) s'(1) cur h unfolding echo_reply_def t_def answer_stores_def by (simp add: Let_def add.commute)
  moreover note sD = sentD [OF s'(4)]
  have "linked (pb s') p (p # xs)" unfolding sD(5) using packet_linked [OF ch(1)] by simp
  moreover have "ref_of (pb s') = ref_of (pb s)" using b by (intro ext) (simp add: sD(6), simp add: ref_of_def fields(1) b'_def)
  moreover have "pbuf_inv (pb s')" using sD(4) pt by simp
  moreover have "\<forall>x. x \<noteq> p \<longrightarrow> pbufs (pb s') x = pbufs (pb s) x" using sD(7) by (simp add: fields(1))
  ultimately show ?thesis using s'(2,3) by (intro exI [of _ s'] conjI)
qed

subsection \<open>Messages that arrive\<close>

text \<open>The packet as IPv4 hands it over: the state and the globals of \<open>ip4_input\<close>.\<close>

lemma icmp_input_cases:
  fixes s :: "'w stack"
  assumes c: "packet (pb s) p (p # xs)" and b: "pbufs (pb s) p = Some b" and l: "8 \<le> chain_len (pb s) (p # xs) \<longrightarrow> 8 \<le> pb_len b"
    and hdr: "current_ip4_header (ip_data (world s)) = h" "bytes (pb s) h = 0x45"
    and cur: "ip4_current_dest_addr s = dst" "current_netif (ip_data (world s)) = n" "nget n s = ret ni" "unicast dst ni"
  shows "Icmp.icmp_input ic p n s =
    (if valid_echo (chain_data (pb s) (p # xs))
     then bind_run (echo_buffer p h 20 s) (\<lambda>(r, s). if r = 0 then free_pbuf p s else bind_run (echo_reply ic r n 20 s) (\<lambda>s. free_pbuf r s))
     else free_pbuf p s)"
proof -
  let ?d = "chain_data (pb s) (p # xs)"
  have p: "p \<noteq> 0" "pget p (pb s) = ret b" "pb_tot_len b = chain_len (pb s) (p # xs)" "pb_len b \<le> chain_len (pb s) (p # xs)"
    using c b by (auto simp: packet_def pget_def part_len_def)
  have len: "length ?d = chain_len (pb s) (p # xs)" by (rule length_chain_data)
  have hd: "hd ?d = bytes (pb s) (pb_payload b)" if "0 < pb_len b"
    using that b by (simp add: part_len_def part_payload_def hd_append hd_map read_bytes_def upt_conv_Cons)
  have u: "\<not> ip4_addr_ismulticast dst" "\<not> ip4_addr_isbroadcast_u32 dst ni" using cur(4) by (simp_all add: unicast_def)
  have echo: "icmp_echo ic p n h 20 s = (if 8 \<le> chain_len (pb s) (p # xs) \<and> internet_checksum ?d = 0
     then bind_run (echo_buffer p h 20 s) (\<lambda>(r, s). if r = 0 then free_pbuf p s else bind_run (echo_reply ic r n 20 s) (\<lambda>s. free_pbuf r s))
     else free_pbuf p s)"
    using p cur u inet_chksum_pbuf_spec [OF c] unfolding icmp_echo_def SIZEOF_ICMP_ECHO_HDR_def by (simp add: split_def)
  have "Icmp.icmp_input ic p n s = (if 4 \<le> pb_len b \<and> bytes (pb s) (pb_payload b) = 8 then icmp_echo ic p n h 20 s else free_pbuf p s)"
    using p(2) hdr(1) version_fields(2) [OF hdr(2)] unfolding Icmp.icmp_input_def ICMP_ECHO_def by (simp add: Let_def IP_HLEN_def)
  then show ?thesis
    using hd l p(4) unfolding echo valid_echo_def len by (cases "4 \<le> pb_len b") auto
qed

lemma icmp_message:
  fixes s :: "'w stack"
  assumes drv: "driver nc transmit" and out: "netif_output ic = etharp_output nc" and inv: "arp_ok s qs" and own: "\<forall>i<ARP_TABLE_SIZE. p \<notin> set (qs ! i)"
    and c: "packet (pb s) p (p # xs)" and ref: "\<forall>x\<in>set (p # xs). ref_of (pb s) x = 1"
    and b: "pbufs (pb s) p = Some b" "pb_payload b = h + 20" and l: "8 \<le> chain_len (pb s) (p # xs) \<longrightarrow> 8 \<le> pb_len b"
    and r: "room 34 (pb s) p (p # xs)" and clear: "\<forall>a\<in>set (chain_addrs (pb s) xs). a < h \<or> h + 24 \<le> a"
    and hdr: "read_bytes h 20 (pb s) = ip4_header chk tos len ident ttl IP_PROTO_ICMP src dst"
    and cur: "ip4_current_dest_addr s = dst" "ip4_current_src_addr s = src" "current_netif (ip_data (world s)) = n"
      "current_ip4_header (ip_data (world s)) = h" "nget n s = ret ni" "unicast dst ni"
    and hop: "reachable_hop s n ni dst src mac" and mtu: "mtu ni = 0 \<or> 20 + chain_len (pb s) (p # xs) \<le> unat (mtu ni)"
  shows "\<exists>t. Icmp.icmp_input ic p n s = ret t \<and> arp_table t = arp_table s \<and> pbuf_inv (pb t)
    \<and> pbufs (pb t) = (\<lambda>x. if x \<in> set (p # xs) then None else pbufs (pb s) x)
    \<and> world t = (if valid_echo (chain_data (pb s) (p # xs))
        then snd (transmit n (frame mac (hwaddr ni) ETHTYPE_IP
          (ip4_header 0 tos len ident ICMP_TTL IP_PROTO_ICMP dst src @ echo_answer (chain_data (pb s) (p # xs)))) (world s))
        else world s)"
proof -
  note cs = icmp_input_cases [OF c b(1) l cur(4) ip4_header_fields(1) [OF hdr] cur(1,3,5,6), of ic]
  show ?thesis
  proof (cases "valid_echo (chain_data (pb s) (p # xs))")
    case True
    then have l4: "4 \<le> pb_len b" using l by (simp add: valid_echo_def del: chain_data_simps chain_len_simps)
    have "pb_ref b = 1" using ref b(1) by (auto simp: ref_of_def)
    from echo_reply_ok [OF drv out inv own c b(1) this b(2) l4 r clear hdr hop mtu cur(1,2)]
    obtain t where t: "echo_reply ic p n 20 s = ret t" "arp_table t = arp_table s" "pbuf_inv (pb t)" "linked (pb t) p (p # xs)"
      "ref_of (pb t) = ref_of (pb s)" "\<forall>x. x \<noteq> p \<longrightarrow> pbufs (pb t) x = pbufs (pb s) x"
      "world t = snd (transmit n (frame mac (hwaddr ni) ETHTYPE_IP
          (ip4_header 0 tos len ident ICMP_TTL IP_PROTO_ICMP dst src @ echo_answer (chain_data (pb s) (p # xs)))) (world s))" by blast
    obtain u where "free_pbuf p t = ret (t\<lparr>pb := u\<rparr>)" "pbuf_inv u" "pbufs u = (\<lambda>x. if x \<in> set (p # xs) then None else pbufs (pb t) x)"
      using free_own [OF t(3,4)] ref unfolding t(5) by auto
    moreover have "p \<noteq> 0" using c by (simp add: packet_def)
    ultimately show ?thesis
      using t(1,2,6,7) True unfolding cs echo_buffer_in_place [OF c b(1) r]
      by (intro exI [of _ "t\<lparr>pb := u\<rparr>"]) (auto simp del: chain_data_simps)
  next
    case False
    obtain u where "free_pbuf p s = ret (s\<lparr>pb := u\<rparr>)" "pbuf_inv u" "pbufs u = (\<lambda>x. if x \<in> set (p # xs) then None else pbufs (pb s) x)"
      using free_own [OF arp_okD(2) [OF inv] packet_linked [OF c] _ ref] by auto
    then show ?thesis
      using False unfolding cs by (intro exI [of _ "s\<lparr>pb := u\<rparr>"]) (simp del: chain_data_simps)
  qed
qed

text \<open>
  A packet as a driver hands it over: its own references, no two bytes in the same place, and a first struct that has its data behind
  it and holds the headers of the link and of IPv4, and of ICMP if there are more structs.
\<close>

definition received :: "'w stack \<Rightarrow> nat \<Rightarrow> nat list \<Rightarrow> bool" where
  "received s p xs \<longleftrightarrow> packet (pb s) p xs \<and> (\<forall>x\<in>set xs. ref_of (pb s) x = 1) \<and> distinct (chain_addrs (pb s) xs)
     \<and> (case pbufs (pb s) p of None \<Rightarrow> False | Some b \<Rightarrow>
          pb_type_internal b AND PBUF_TYPE_FLAG_STRUCT_DATA_CONTIGUOUS \<noteq> 0 \<and> p + SIZEOF_STRUCT_PBUF \<le> pb_payload b \<and> pb_payload b + 34 < 2 ^ 32
          \<and> 34 \<le> pb_len b \<and> (tl xs = [] \<or> 42 \<le> pb_len b))
     \<and> (\<forall>qs. queues (pb s) (arp_table s) qs \<longrightarrow> (\<forall>i<ARP_TABLE_SIZE. p \<notin> set (qs ! i)))"

lemma receivedD:
  assumes "received s p (p # xs)" "pbufs (pb s) p = Some b"
  shows "packet (pb s) p (p # xs)" "\<forall>x\<in>set (p # xs). ref_of (pb s) x = 1" "distinct (chain_addrs (pb s) (p # xs))"
    "pb_type_internal b AND PBUF_TYPE_FLAG_STRUCT_DATA_CONTIGUOUS \<noteq> 0" "p + SIZEOF_STRUCT_PBUF \<le> pb_payload b" "pb_payload b + 34 < 2 ^ 32"
    "34 \<le> pb_len b" "xs = [] \<or> 42 \<le> pb_len b" "arp_ok s qs \<Longrightarrow> \<forall>i<ARP_TABLE_SIZE. p \<notin> set (qs ! i)" "pb_ref b = 1"
  using assms arp_okD(3) [of s qs] by (auto simp: received_def ref_of_def)

text \<open>The room that the headers leave in front of the message.\<close>

lemma received_room:
  assumes r: "received s p (p # xs)" and b: "pbufs (pb s) p = Some b" and t: "pbufs t = (pbufs (pb s))(p \<mapsto> b')" "packet t p (p # xs)"
    and b': "pb_payload b' = pb_payload b + 34" "pb_type_internal b' = pb_type_internal b" and len: "34 + chain_len t (p # xs) < 2 ^ 16" "pb_len b' + 34 \<le> pb_len b"
  shows "room 34 t p (p # xs)" "\<forall>a\<in>set (chain_addrs t xs). a < pb_payload b \<or> pb_payload b + pb_len b \<le> a"
proof -
  note rD = receivedD [OF r b]
  have pn: "p \<notin> set xs" using linked_distinct [OF packet_linked [OF t(2)]] by simp
  have same: "chain_addrs t xs = chain_addrs (pb s) xs" by (rule chain_frame(3)) (use pn t(1) in auto)
  have "a \<notin> set [pb_payload b..<pb_payload b + pb_len b]" if "a \<in> set (chain_addrs (pb s) xs)" for a
    using rD(3) that by (auto simp: chain_addrs_Cons part_len_def part_payload_def b)
  then show clear: "\<forall>a\<in>set (chain_addrs t xs). a < pb_payload b \<or> pb_payload b + pb_len b \<le> a"
    unfolding same by (metis atLeastLessThan_iff not_le set_upt)
  have "set (chain_addrs t (p # xs)) = {pb_payload b + 34..<pb_payload b + 34 + pb_len b'} \<union> set (chain_addrs t xs)"
    by (simp add: chain_addrs_Cons part_len_def part_payload_def t(1) b')
  then have "a < pb_payload b' - 34 \<or> pb_payload b' \<le> a" if "a \<in> set (chain_addrs t (p # xs))" for a
    using that clear len(2) b'(1) by fastforce
  then show "room 34 t p (p # xs)"
    using rD(4-6) len(1) b' unfolding room_def list_all_iff by (simp add: t(1) del: chain_len_simps)
qed

subsection \<open>A ping\<close>

text \<open>The example host is asked by its neighbour, with two bytes of data, the identifier 1 and the sequence number 1.\<close>

definition example_ping :: "u8 list" where
  "example_ping = [8, 0, 0x96, 0x9B, 0, 1, 0, 1, 0x61, 0x62]"

definition example_ping_frame :: "u8 list" where
  "example_ping_frame = frame [2, 0, 0, 0, 0, 1] [2, 0, 0, 0, 0, 2] ETHTYPE_IP
     (ip4_header 0x1234 0 (of_nat (20 + length example_ping)) 77 64 IP_PROTO_ICMP 0x0201A8C0 0x0101A8C0 @ example_ping @ [0, 0])"

definition example_ping_pbuf :: pbuf where
  "example_ping_pbuf = (example_pbuf 0 200 46 46)\<lparr>pb_type_internal := 0x80\<rparr>"

definition example_pinged :: "frames stack" where
  "example_pinged = (example_stack [10000] fresh_pcb fresh_pcb)\<lparr>pb :=
     pset 50 example_ping_pbuf (example_ram_pbuf\<lparr>bytes := (\<lambda>a. if 200 \<le> a \<and> a < 246 then example_ping_frame ! (a - 200) else 0)\<rparr>)\<rparr>"

definition example_icmp_calls :: "frames inet_calls" where
  "example_icmp_calls = example_inet_calls\<lparr>icmp_input := Icmp.icmp_input example_sender_calls\<rparr>"

definition example_ping_wire :: "frames inet net_calls" where
  "example_ping_wire = example_wire\<lparr>ip4_input := (\<lambda>p n s. bind_run (Ip4_Input.ip4_input example_icmp_calls p n s) (\<lambda>(_, s). ret s))\<rparr>"

lemma example_ping_valid: "valid_echo example_ping"
  by (simp add: valid_echo_def example_ping_def internet_checksum_def ones_sum_def)

lemma example_pinged_fields:
  "arp_table example_pinged = example_table 0" "netifs example_pinged = [1 \<mapsto> example_netif]" "pbufs (pb example_pinged) 50 = Some example_ping_pbuf"
  "world example_pinged = example_inet [10000] fresh_pcb fresh_pcb"
  by (simp_all add: example_pinged_def example_stack_def)

lemma example_pinged_arp: "arp_inv example_pinged"
  unfolding example_pinged_def
  by (intro example_host_arp pbuf_inv_pset [where ?b0.0 = "(example_pbuf 0 100 3 3)\<lparr>pb_type_internal := 0x80\<rparr>"])
    (simp_all add: example_ram_inv, simp_all add: example_ram_pbuf_def example_ping_pbuf_def example_pbuf_def)

lemma example_ping_chain: "packet (pb example_pinged) 50 [50]" "chain_data (pb example_pinged) [50] = example_ping_frame"
proof -
  show "packet (pb example_pinged) 50 [50]"
    by (simp add: packet_def example_pinged_fields part_len_def example_ping_pbuf_def example_pbuf_def)
  have "length example_ping_frame = 46" by (simp add: example_ping_frame_def example_ping_def frame_def)
  then have "read_bytes 200 46 (pb example_pinged) = example_ping_frame"
    by (intro nth_equalityI) (simp_all add: example_pinged_def)
  then show "chain_data (pb example_pinged) [50] = example_ping_frame"
    by (simp add: part_len_def part_payload_def example_pinged_fields example_ping_pbuf_def example_pbuf_def)
qed

lemma example_ping_received: "received example_pinged 50 [50]"
  using example_ping_chain(1) example_no_queue unfolding received_def example_pinged_fields(1,3)
  by (auto simp: example_pinged_fields example_ping_pbuf_def example_pbuf_def ref_of_def chain_addrs_def part_payload_def part_len_def
      PBUF_TYPE_FLAG_STRUCT_DATA_CONTIGUOUS_def SIZEOF_STRUCT_PBUF_def simp del: chain_data_simps)

lemma example_ping_host: "for_host example_pinged 1 example_netif 0x0201A8C0 0x0101A8C0"
  by (simp add: for_host_def example_pinged_fields example_netif_def netif_is_up_def NETIF_FLAG_UP_def unicast_def ip4_addr_isbroadcast_u32_def
      ip4_addr_ismulticast_def ip4_addr_netcmp_def IPADDR_ANY_def IPADDR_BROADCAST_def NETIF_FLAG_BROADCAST_def PP_HTONL_def)

lemma example_ping_hop: "reachable_hop example_pinged 1 example_netif 0x0101A8C0 0x0201A8C0 [2, 0, 0, 0, 0, 2]"
proof -
  have "reachable_hop example_sender 1 example_netif 0x0101A8C0 0x0201A8C0 [2, 0, 0, 0, 0, 2]"
    using example_routed by (simp add: routed_def example_netif_def)
  then show ?thesis by (simp add: reachable_hop_def ether_netif_def example_pinged_fields example_sender_def example_stack_def)
qed

subsection \<open>The property\<close>

text \<open>
  C2: pings are answered. An ICMP message to this host that arrives in a frame, in one struct or
  several, possibly padded, is dropped unless it is an echo request with a correct checksum. Such a request is answered, if the next hop to its
  sender is known, by exactly one frame: IPv4 addresses swapped, time to live renewed, type 0, and the identifier,
  the sequence number and the data as they were. In any case \<open>ethernet_input\<close> returns, the whole packet is freed, the memory of packet
  buffers is in order and the ARP table is as before.
\<close>

theorem ping_answered:
  fixes r :: "'w stack"
  assumes "driver nc' transmit" and "netif_output ic' = etharp_output nc'" and "ip4_above nc ic" and "inet_calls.icmp_input ic = Icmp.icmp_input ic'"
    and "arp_inv r" and "received r p (p # xs)" and "pbufs (pb r) p = Some b"
    and "for_host r n ni src dst" and "netif_flags ni AND NETIF_FLAG_ETHARP \<noteq> 0"
    and "reachable_hop r n ni dst src mac" and "mtu ni = 0 \<or> 20 + length msg \<le> unat (mtu ni)"
    and "chain_data (pb r) (p # xs) = frame hw hw' ETHTYPE_IP
        (ip4_header chk tos (of_nat (20 + length msg)) ident ttl IP_PROTO_ICMP src dst @ msg @ pad)" and "length hw = 6" and "length hw' = 6"
    and "pad = [] \<or> one_buffer b xs"
  defines "w \<equiv> world (arrived p (pb_payload b + 14) src dst n b r)"
  defines "w' \<equiv> (if valid_echo msg
      then snd (transmit n (frame mac (hwaddr ni) ETHTYPE_IP
        (ip4_header 0 tos (of_nat (20 + length msg)) ident ICMP_TTL IP_PROTO_ICMP dst src @ echo_answer msg)) w)
      else w)"
  shows "\<exists>r'. ethernet_input nc p n r = ret (ERR_OK, leave_ip r') \<and> world r' = w' \<and> arp_table r' = arp_table r
    \<and> pbuf_inv (pb r') \<and> pbufs (pb r') = (\<lambda>x. if x \<in> set (p # xs) then None else pbufs (pb r) x)"
proof -
  note rD = receivedD [OF assms(6,7)]
  obtain qs where ok: "arp_ok r qs" using assms(5) by (auto simp: arp_inv_def)
  obtain i f l tl b' s where b': "b' = b\<lparr>pb_payload := pb_payload b + 14 + 20, pb_len := l, pb_tot_len := tl, pb_flags := f, pb_if_idx := i\<rparr>"
    and s: "s = arrived p (pb_payload b + 14) src dst n b' r"
    and run: "ethernet_input nc p n r = bind_run (input_dispatch ic p (pb_payload b + 14) 20 n n s) (\<lambda>s. ret (ERR_OK, leave_ip s))"
    and pk: "packet (pb s) p (p # xs)" "chain_data (pb s) (p # xs) = msg"
    and hdr: "read_bytes (pb_payload b + 14) 20 (pb r) = ip4_header chk tos (of_nat (20 + length msg)) ident ttl IP_PROTO_ICMP src dst"
    and l: "l = (if pad = [] then pb_len b - 34 else length msg)" and f: "f AND PBUF_FLAG_IS_CUSTOM = pb_flags b AND PBUF_FLAG_IS_CUSTOM"
    using frame_dispatch [OF rD(1) assms(7) rD(7) assms(12-15,8,9,3)] unfolding Let_def by blast
  let ?h = "pb_payload b + 14"
  have ps: "pb s = pset p b' (pb r)" "arp_table s = arp_table r" "links s = links r" "etharp_cached_entry s = etharp_cached_entry r" "world s = w"
    by (simp_all add: s arrived_def w_def)
  have bs: "pbufs (pb s) p = Some b'" "pb_ref b' = 1" "pb_payload b' = ?h + 20" "pb_len b' = l" using rD(10) by (simp_all add: ps(1) b')
  have inv: "pbuf_inv (pb s)" unfolding ps(1) by (rule pbuf_inv_flags [OF arp_okD(2) [OF ok] assms(7)]) (simp_all add: b' f)
  have ok': "arp_ok s qs"
    by (rule arp_ok_pb [OF ok ps(2,3) _ inv]) (use ps rD(9) [OF ok] ok in \<open>auto simp: arp_ok_def\<close>)
  have tot: "chain_len (pb s) (p # xs) = length msg" "chain_len (pb r) (p # xs) = 34 + length msg + length pad"
    using length_chain_data [of "pb s" "p # xs"] length_chain_data [of "pb r" "p # xs"] assms(13,14) unfolding pk(2) assms(12) by (simp_all add: frame_def)
  have one: "pb_len b = 34 + length msg + length pad" if "xs = []" using tot(2) that assms(7) by (simp add: part_len_def)
  have len: "34 + chain_len (pb s) (p # xs) < 2 ^ 16" "pb_len b' + 34 \<le> pb_len b" "8 \<le> chain_len (pb s) (p # xs) \<longrightarrow> 8 \<le> pb_len b'"
  proof -
    show "34 + chain_len (pb s) (p # xs) < 2 ^ 16" using rD(1) tot unfolding packet_def by linarith
    show "pb_len b' + 34 \<le> pb_len b" using one assms(15) rD(7) by (auto simp: bs(4) l one_buffer_def)
    show "8 \<le> chain_len (pb s) (p # xs) \<longrightarrow> 8 \<le> pb_len b'" using one rD(8) unfolding tot(1) bs(4) l by auto
  qed
  have room: "room 34 (pb s) p (p # xs)" "\<forall>a\<in>set (chain_addrs (pb s) xs). a < ?h \<or> ?h + 24 \<le> a"
    using received_room [OF assms(6,7) _ pk(1) _ _ len(1,2)] rD(8) by (fastforce simp: ps(1) b')+
  have hdr': "read_bytes ?h 20 (pb s) = ip4_header chk tos (of_nat (20 + length msg)) ident ttl IP_PROTO_ICMP src dst" using hdr by (simp add: ps(1))
  note hf = ip4_header_fields(1,4) [OF hdr']
  have cur: "ip4_current_dest_addr s = dst" "ip4_current_src_addr s = src" "current_netif (ip_data (world s)) = n"
      "current_ip4_header (ip_data (world s)) = ?h" "nget n s = ret ni" "unicast dst ni"
    using assms(8) by (simp_all add: s arrived_def ip4_current_dest_addr_def ip4_current_src_addr_def nget_def for_host_def)
  have dis: "input_dispatch ic p ?h 20 n n s = Icmp.icmp_input ic' p n s"
    using hf(2) assms(4) by (simp add: input_dispatch_def IPH_PROTO_def IP_PROTO_ICMP_def IP_PROTO_UDP_def IP_PROTO_TCP_def)
  have ref: "\<forall>x\<in>set (p # xs). ref_of (pb s) x = 1" using rD(2) bs by (auto simp: ref_of_def ps(1))
  have hop: "reachable_hop s n ni dst src mac" using assms(10) ps(2,3) by (simp add: reachable_hop_def ether_netif_def)
  have mtu: "mtu ni = 0 \<or> 20 + chain_len (pb s) (p # xs) \<le> unat (mtu ni)" using assms(11) tot(1) by simp
  from icmp_message [OF assms(1,2) ok' rD(9) [OF ok] pk(1) ref bs(1,3) len(3) room hdr' cur hop mtu]
  show ?thesis
    unfolding pk(2) ps(2,5) w'_def run dis by (auto simp: ps(1) fun_eq_iff)
qed

theorem ping_answered_witness:
  "\<exists>r'. ethernet_input example_ping_wire 50 1 example_pinged = ret (ERR_OK, leave_ip r')
    \<and> outer (world r') = [(1, frame [2, 0, 0, 0, 0, 2] [2, 0, 0, 0, 0, 1] ETHTYPE_IP
        (ip4_header 0 0 30 77 255 IP_PROTO_ICMP 0x0101A8C0 0x0201A8C0 @ [0, 0, 0, 0, 0, 1, 0, 1, 0x61, 0x62]))]
    \<and> pbufs (pb r') = Map.empty"
proof -
  have out: "netif_output example_sender_calls = etharp_output example_wire" by (simp add: example_sender_calls_def)
  have up: "ip4_above example_ping_wire example_icmp_calls" "inet_calls.icmp_input example_icmp_calls = Icmp.icmp_input example_sender_calls"
    by (simp_all add: ip4_above_def example_ping_wire_def example_icmp_calls_def)
  have flag: "netif_flags example_netif AND NETIF_FLAG_ETHARP \<noteq> 0" "mtu example_netif = 0 \<or> 20 + length example_ping \<le> unat (mtu example_netif)"
    by (simp_all add: example_netif_def NETIF_FLAG_ETHARP_def example_ping_def)
  have one: "[0, 0 :: u8] = [] \<or> one_buffer example_ping_pbuf []"
    by (simp add: one_buffer_def example_ping_pbuf_def example_pbuf_def PBUF_FLAG_IS_CUSTOM_def)
  have len: "length [2, 0, 0, 0, 0, 1 :: u8] = 6" "length [2, 0, 0, 0, 0, 2 :: u8] = 6" by simp_all
  note P = ping_answered [OF example_wire_driver out up example_pinged_arp example_ping_received example_pinged_fields(3) example_ping_host flag(1)
      example_ping_hop flag(2) example_ping_chain(2) [unfolded example_ping_frame_def] len one]
  have hw: "hwaddr example_netif = [2, 0, 0, 0, 0, 1]" by (simp add: example_netif_def)
  have ans: "echo_answer example_ping = [0, 0, 0, 0, 0, 1, 0, 1, 0x61, 0x62]" "length example_ping = 10" by (simp_all add: echo_answer_def example_ping_def)
  have w: "outer (world (arrived 50 a src dst n b example_pinged)) = []" for a src dst n b
    by (simp add: arrived_def example_pinged_fields example_inet_def)
  have none: "(\<lambda>x. if x \<in> set [50] then None else pbufs (pb example_pinged) x) = Map.empty"
    by (simp add: fun_eq_iff example_pinged_def example_ram_pbuf_def)
  from P obtain r' where "ethernet_input example_ping_wire 50 1 example_pinged = ret (ERR_OK, leave_ip r')" "pbufs (pb r') = Map.empty"
    "outer (world r') = [(1, frame [2, 0, 0, 0, 0, 2] [2, 0, 0, 0, 0, 1] ETHTYPE_IP
        (ip4_header 0 0 30 77 255 IP_PROTO_ICMP 0x0101A8C0 0x0201A8C0 @ [0, 0, 0, 0, 0, 1, 0, 1, 0x61, 0x62]))]"
    unfolding none ans hw using example_ping_valid by (auto simp: example_record_def w ICMP_TTL_def)
  then show ?thesis by (intro exI [of _ r'] conjI)
qed

end
