(* ===== verification/Igmp.thy ===== *)
theory Igmp
  imports Ip4_Input Inet_Chksum
begin

text \<open>
  Internet Group Management Protocol, version 2, \<open>core/ipv4/igmp.c\<close>: the groups that each interface is a member of.

  The groups are structs from a pool, linked by \<open>group_next\<close>; the head of the list of an interface is in its client data,
  \<open>netif_igmp_data\<close>. The record \<open>igmp\<close> with this state is what IP sees as its \<open>outer\<close> world, so the layers compose.
  The filter function of a driver and the random numbers of the port are in \<open>igmp_calls\<close>.
\<close>

datatype group_states = IGMP_GROUP_NON_MEMBER | IGMP_GROUP_DELAYING_MEMBER | IGMP_GROUP_IDLE_MEMBER

record igmp_group =
  group_next :: nat
  group_address :: u32
  last_reporter_flag :: bool
  group_state :: group_states
  group_timer :: u16
  group_use :: u8

record 'v igmp =
  allsystems :: u32
  allrouters :: u32
  igmp_mem :: "nat \<Rightarrow> igmp_group option"
  netif_igmp_data :: "nat \<Rightarrow> nat"
  beyond :: 'v

type_synonym 'v mcast = "'v igmp stack"

datatype netif_mac_filter_action = NETIF_DEL_MAC_FILTER | NETIF_ADD_MAC_FILTER

text \<open>\<open>None\<close> for an interface without a filter function. \<open>LWIP_RAND()\<close> works on what is beyond the stack.\<close>

record 'v igmp_calls =
  igmp_mac_filter :: "nat \<Rightarrow> (u32 \<Rightarrow> netif_mac_filter_action \<Rightarrow> 'v mcast \<Rightarrow> 'v mcast run) option"
  LWIP_RAND :: "'v \<Rightarrow> u32 \<times> 'v"

definition IGMP_TTL :: u8 where "IGMP_TTL = 1"
definition IGMP_MINLEN :: nat where "IGMP_MINLEN = 8"
definition ROUTER_ALERT :: u16 where "ROUTER_ALERT = 0x9404"
definition ROUTER_ALERTLEN :: nat where "ROUTER_ALERTLEN = 4"
definition IGMP_MEMB_QUERY :: u8 where "IGMP_MEMB_QUERY = 0x11"
definition IGMP_V2_MEMB_REPORT :: u8 where "IGMP_V2_MEMB_REPORT = 0x16"
definition IGMP_LEAVE_GROUP :: u8 where "IGMP_LEAVE_GROUP = 0x17"
definition IGMP_V1_DELAYING_MEMBER_TMR :: u8 where "IGMP_V1_DELAYING_MEMBER_TMR = 10"
definition IGMP_JOIN_DELAYING_MEMBER_TMR :: u8 where "IGMP_JOIN_DELAYING_MEMBER_TMR = 5"
definition MEMP_IGMP_GROUP :: nat where "MEMP_IGMP_GROUP = 6"
definition SIZEOF_IGMP_MSG :: nat where "SIZEOF_IGMP_MSG = 8"

definition on_igmp :: "('v igmp \<Rightarrow> 'v igmp) \<Rightarrow> 'v mcast \<Rightarrow> 'v mcast" where
  "on_igmp f s = on_world (\<lambda>w. w\<lparr>outer := f (outer w)\<rparr>) s"

abbreviation igmp_of :: "'v mcast \<Rightarrow> 'v igmp" where
  "igmp_of s \<equiv> outer (world s)"

definition gget :: "nat \<Rightarrow> 'v mcast \<Rightarrow> igmp_group run" where
  "gget g s = (if g = 0 then stop Null_deref else case igmp_mem (igmp_of s) g of None \<Rightarrow> stop Wild_pointer | Some gr \<Rightarrow> ret gr)"

definition gput :: "nat \<Rightarrow> igmp_group \<Rightarrow> 'v mcast \<Rightarrow> 'v mcast" where
  "gput g gr s = on_igmp (\<lambda>w. w\<lparr>igmp_mem := (igmp_mem w)(g \<mapsto> gr)\<rparr>) s"

definition set_igmp_data :: "nat \<Rightarrow> nat \<Rightarrow> 'v mcast \<Rightarrow> 'v mcast" where
  "set_igmp_data netif g s = on_igmp (\<lambda>w. w\<lparr>netif_igmp_data := (netif_igmp_data w)(netif := g)\<rparr>) s"

text \<open>The filter of the interface, if it has one.\<close>

definition mac_filter :: "'v igmp_calls \<Rightarrow> nat \<Rightarrow> u32 \<Rightarrow> netif_mac_filter_action \<Rightarrow> 'v mcast \<Rightarrow> 'v mcast run" where
  "mac_filter ig netif gaddr action s = (case igmp_mac_filter ig netif of None \<Rightarrow> ret s | Some f \<Rightarrow> f gaddr action s)"

definition free_group :: "nat \<Rightarrow> 'v mcast \<Rightarrow> 'v mcast run" where
  "free_group g s =
     bind_run (memp_free (memp_pools (pb s)) MEMP_IGMP_GROUP g (ppools (pb s))) (\<lambda>m.
       ret (on_igmp (\<lambda>w. w\<lparr>igmp_mem := (igmp_mem w)(g := None)\<rparr>) (s\<lparr>pb := (pb s)\<lparr>ppools := m\<rparr>\<rparr>)))"

definition igmp_init :: "'v mcast \<Rightarrow> 'v mcast" where
  "igmp_init s = on_igmp (\<lambda>w. w\<lparr>allsystems := PP_HTONL 0xe0000001, allrouters := PP_HTONL 0xe0000002\<rparr>) s"

subsection \<open>Messages\<close>

definition igmp_ip_output_if :: "'v igmp inet_calls \<Rightarrow> nat \<Rightarrow> u32 \<Rightarrow> u32 \<Rightarrow> nat \<Rightarrow> 'v mcast \<Rightarrow> (err_t \<times> 'v mcast) run" where
  "igmp_ip_output_if ic p src dest netif s =
     (let ra = mem16 (PP_HTONS ROUTER_ALERT) @ mem16 0
      in ip4_output_if_opt ic p (Some src) (Some dest) IGMP_TTL 0 IP_PROTO_IGMP netif ra ROUTER_ALERTLEN s)"

definition igmp_send :: "'v igmp inet_calls \<Rightarrow> nat \<Rightarrow> nat \<Rightarrow> u8 \<Rightarrow> 'v mcast \<Rightarrow> 'v mcast run" where
  "igmp_send ic netif grp type s =
     bind_run (on_pb (pbuf_alloc PBUF_TRANSPORT IGMP_MINLEN PBUF_RAM) s) (\<lambda>(p, s).
       if p \<noteq> 0 then
         bind_run (pget p (pb s)) (\<lambda>b.
         lwip_assert ''igmp_send: check that first pbuf can hold struct igmp_msg'' (pb_len b \<ge> SIZEOF_IGMP_MSG)
          (bind_run (nget netif s) (\<lambda>ni.
           bind_run
             (if type = IGMP_V2_MEMB_REPORT \<or> type = IGMP_LEAVE_GROUP then
                bind_run (gget grp s) (\<lambda>g.
                  let igmp = pb_payload b;
                      src = ip_addr ni;
                      dest = (if type = IGMP_V2_MEMB_REPORT then group_address g else allrouters (igmp_of s));
                      s = store_bytes (igmp + 4) (memory_bytes (group_address g)) s;
                      s = (if type = IGMP_V2_MEMB_REPORT then gput grp (g\<lparr>last_reporter_flag := True\<rparr>) s else s);
                      s = store_bytes igmp [type] s;
                      s = store_bytes (igmp + 1) [0] s;
                      s = store_bytes (igmp + 2) (mem16 0) s;
                      s = store_bytes (igmp + 2) (mem16 (inet_chksum igmp IGMP_MINLEN (pb s))) s
                  in bind_run (igmp_ip_output_if ic p src dest netif s) (\<lambda>(_, s). ret s))
              else ret s) (\<lambda>s. free_pbuf p s))))
       else ret s)"

subsection \<open>The timer of a group\<close>

definition igmp_start_timer :: "'v igmp_calls \<Rightarrow> nat \<Rightarrow> u8 \<Rightarrow> 'v mcast \<Rightarrow> 'v mcast run" where
  "igmp_start_timer ig grp max_time s =
     (let (t, s) = (if max_time > 2
            then let (r, v) = LWIP_RAND ig (beyond (igmp_of s))
                 in (ucast (r mod ucast max_time), on_igmp (\<lambda>w. w\<lparr>beyond := v\<rparr>) s)
            else (1 :: u16, s))
      in bind_run (gget grp s) (\<lambda>g. ret (gput grp (g\<lparr>group_timer := if t = 0 then 1 else t\<rparr>) s)))"

definition igmp_delaying_member :: "'v igmp_calls \<Rightarrow> nat \<Rightarrow> u8 \<Rightarrow> 'v mcast \<Rightarrow> 'v mcast run" where
  "igmp_delaying_member ig grp maxresp s =
     bind_run (gget grp s) (\<lambda>g.
       if group_state g = IGMP_GROUP_IDLE_MEMBER
          \<or> group_state g = IGMP_GROUP_DELAYING_MEMBER \<and> (group_timer g = 0 \<or> ucast maxresp < group_timer g)
       then bind_run (igmp_start_timer ig grp maxresp s) (\<lambda>s.
            bind_run (gget grp s) (\<lambda>g. ret (gput grp (g\<lparr>group_state := IGMP_GROUP_DELAYING_MEMBER\<rparr>) s)))
       else ret s)"

definition igmp_timeout :: "'v igmp inet_calls \<Rightarrow> nat \<Rightarrow> nat \<Rightarrow> 'v mcast \<Rightarrow> 'v mcast run" where
  "igmp_timeout ic netif grp s =
     bind_run (gget grp s) (\<lambda>g.
       if group_state g = IGMP_GROUP_DELAYING_MEMBER \<and> group_address g \<noteq> allsystems (igmp_of s)
       then igmp_send ic netif grp IGMP_V2_MEMB_REPORT (gput grp (g\<lparr>group_state := IGMP_GROUP_IDLE_MEMBER\<rparr>) s)
       else ret s)"

partial_function (option) tmr_groups :: "'v igmp inet_calls \<Rightarrow> nat \<Rightarrow> nat \<Rightarrow> 'v mcast \<Rightarrow> 'v mcast run" where
  "tmr_groups ic netif grp s =
     (if grp = 0 then ret s
      else bind_run (gget grp s) (\<lambda>g.
        bind_run
          (if group_timer g > 0 then
             let s = gput grp (g\<lparr>group_timer := group_timer g - 1\<rparr>) s
             in if group_timer g - 1 = 0 then igmp_timeout ic netif grp s else ret s
           else ret s) (\<lambda>s.
        bind_run (gget grp s) (\<lambda>g. tmr_groups ic netif (group_next g) s))))"

fun tmr_netifs :: "'v igmp inet_calls \<Rightarrow> nat list \<Rightarrow> 'v mcast \<Rightarrow> 'v mcast run" where
  "tmr_netifs ic [] s = ret s"
| "tmr_netifs ic (n # ns) s = bind_run (tmr_groups ic n (netif_igmp_data (igmp_of s) n) s) (\<lambda>s. tmr_netifs ic ns s)"

definition igmp_tmr :: "'v igmp inet_calls \<Rightarrow> 'v mcast \<Rightarrow> 'v mcast run" where
  "igmp_tmr ic s = tmr_netifs ic (netif_list s) s"

text \<open>The loop of \<open>igmp_report_groups\<close> and of a general query, over the groups from \<open>grp\<close> on.\<close>

partial_function (option) delay_groups :: "'v igmp_calls \<Rightarrow> nat \<Rightarrow> u8 \<Rightarrow> 'v mcast \<Rightarrow> 'v mcast run" where
  "delay_groups ig grp maxresp s =
     (if grp = 0 then ret s
      else bind_run (igmp_delaying_member ig grp maxresp s) (\<lambda>s.
        bind_run (gget grp s) (\<lambda>g. delay_groups ig (group_next g) maxresp s)))"

text \<open>The first group is skipped, it is always the one of all systems.\<close>

definition skip_first :: "nat \<Rightarrow> 'v mcast \<Rightarrow> nat run" where
  "skip_first grp s = (if grp \<noteq> 0 then bind_run (gget grp s) (\<lambda>g. ret (group_next g)) else ret grp)"

definition igmp_report_groups :: "'v igmp_calls \<Rightarrow> nat \<Rightarrow> 'v mcast \<Rightarrow> 'v mcast run" where
  "igmp_report_groups ig netif s =
     bind_run (skip_first (netif_igmp_data (igmp_of s) netif) s) (\<lambda>grp. delay_groups ig grp IGMP_JOIN_DELAYING_MEMBER_TMR s)"

subsection \<open>The list of groups\<close>

partial_function (option) lookfor_loop :: "u32 \<Rightarrow> nat \<Rightarrow> 'v mcast \<Rightarrow> nat run" where
  "lookfor_loop gaddr grp s =
     (if grp = 0 then ret 0
      else bind_run (gget grp s) (\<lambda>g. if group_address g = gaddr then ret grp else lookfor_loop gaddr (group_next g) s))"

definition igmp_lookfor_group :: "nat \<Rightarrow> u32 \<Rightarrow> 'v mcast \<Rightarrow> nat run" where
  "igmp_lookfor_group ifp gaddr s = lookfor_loop gaddr (netif_igmp_data (igmp_of s) ifp) s"

definition new_group :: "u32 \<Rightarrow> nat \<Rightarrow> igmp_group" where
  "new_group gaddr next = \<lparr>group_next = next, group_address = gaddr, last_reporter_flag = False, group_state = IGMP_GROUP_NON_MEMBER,
     group_timer = 0, group_use = 0\<rparr>"

definition igmp_lookup_group :: "nat \<Rightarrow> u32 \<Rightarrow> 'v mcast \<Rightarrow> (nat \<times> 'v mcast) run" where
  "igmp_lookup_group ifp gaddr s =
     (let list_head = netif_igmp_data (igmp_of s) ifp in
      bind_run (igmp_lookfor_group ifp gaddr s) (\<lambda>grp.
        if grp \<noteq> 0 then ret (grp, s)
        else bind_run (memp_malloc (memp_pools (pb s)) MEMP_IGMP_GROUP (ppools (pb s))) (\<lambda>(r, m).
          let s = s\<lparr>pb := (pb s)\<lparr>ppools := m\<rparr>\<rparr> in
          case r of
            None \<Rightarrow> ret (0, s)
          | Some grp \<Rightarrow>
              if list_head = 0 then
                lwip_assert ''igmp_lookup_group: first group must be allsystems'' (gaddr = allsystems (igmp_of s))
                 (ret (grp, set_igmp_data ifp grp (gput grp (new_group gaddr 0) s)))
              else
                lwip_assert ''igmp_lookup_group: all except first group must not be allsystems'' (gaddr \<noteq> allsystems (igmp_of s))
                 (bind_run (gget list_head s) (\<lambda>h.
                   let s = gput grp (new_group gaddr (group_next h)) s
                   in ret (grp, gput list_head (h\<lparr>group_next := grp\<rparr>) s))))))"

partial_function (option) remove_loop :: "nat \<Rightarrow> nat \<Rightarrow> 'v mcast \<Rightarrow> (err_t \<times> 'v mcast) run" where
  "remove_loop grp tmp_group s =
     (if tmp_group = 0 then ret (ERR_ARG, s)
      else bind_run (gget tmp_group s) (\<lambda>t.
        if group_next t = grp then
          bind_run (gget grp s) (\<lambda>g. ret (ERR_OK, gput tmp_group (t\<lparr>group_next := group_next g\<rparr>) s))
        else remove_loop grp (group_next t) s))"

definition igmp_remove_group :: "nat \<Rightarrow> nat \<Rightarrow> 'v mcast \<Rightarrow> (err_t \<times> 'v mcast) run" where
  "igmp_remove_group netif grp s = remove_loop grp (netif_igmp_data (igmp_of s) netif) s"

definition igmp_start :: "'v igmp_calls \<Rightarrow> nat \<Rightarrow> 'v mcast \<Rightarrow> (err_t \<times> 'v mcast) run" where
  "igmp_start ig netif s =
     bind_run (igmp_lookup_group netif (allsystems (igmp_of s)) s) (\<lambda>(grp, s).
       if grp \<noteq> 0 then
         bind_run (gget grp s) (\<lambda>g.
           let s = gput grp (g\<lparr>group_state := IGMP_GROUP_IDLE_MEMBER, group_use := group_use g + 1\<rparr>) s
           in bind_run (mac_filter ig netif (allsystems (igmp_of s)) NETIF_ADD_MAC_FILTER s) (\<lambda>s. ret (ERR_OK, s)))
       else ret (ERR_MEM, s))"

partial_function (option) stop_loop :: "'v igmp_calls \<Rightarrow> nat \<Rightarrow> nat \<Rightarrow> 'v mcast \<Rightarrow> 'v mcast run" where
  "stop_loop ig netif grp s =
     (if grp = 0 then ret s
      else bind_run (gget grp s) (\<lambda>g.
        let next = group_next g in
        bind_run (mac_filter ig netif (group_address g) NETIF_DEL_MAC_FILTER s) (\<lambda>s.
        bind_run (free_group grp s) (\<lambda>s. stop_loop ig netif next s))))"

definition igmp_stop :: "'v igmp_calls \<Rightarrow> nat \<Rightarrow> 'v mcast \<Rightarrow> (err_t \<times> 'v mcast) run" where
  "igmp_stop ig netif s =
     (let grp = netif_igmp_data (igmp_of s) netif;
          s = set_igmp_data netif 0 s
      in bind_run (stop_loop ig netif grp s) (\<lambda>s. ret (ERR_OK, s)))"

subsection \<open>Joining and leaving\<close>

definition igmp_joingroup_netif :: "'v igmp inet_calls \<Rightarrow> 'v igmp_calls \<Rightarrow> nat \<Rightarrow> u32 \<Rightarrow> 'v mcast \<Rightarrow> (err_t \<times> 'v mcast) run" where
  "igmp_joingroup_netif ic ig netif groupaddr s =
     lwip_assert ''igmp_joingroup_netif: attempt to join non-multicast address'' (ip4_addr_ismulticast groupaddr)
      (lwip_assert ''igmp_joingroup_netif: attempt to join allsystems address'' (groupaddr \<noteq> allsystems (igmp_of s))
       (bind_run (nget netif s) (\<lambda>ni.
        lwip_assert ''igmp_joingroup_netif: attempt to join on non-IGMP netif'' (netif_flags ni AND NETIF_FLAG_IGMP \<noteq> 0)
         (bind_run (igmp_lookup_group netif groupaddr s) (\<lambda>(grp, s).
           if grp \<noteq> 0 then
             bind_run (gget grp s) (\<lambda>g.
             bind_run
               (if group_state g \<noteq> IGMP_GROUP_NON_MEMBER then ret s
                else
                  bind_run (if group_use g = 0 then mac_filter ig netif groupaddr NETIF_ADD_MAC_FILTER s else ret s) (\<lambda>s.
                  bind_run (igmp_send ic netif grp IGMP_V2_MEMB_REPORT s) (\<lambda>s.
                  bind_run (igmp_start_timer ig grp IGMP_JOIN_DELAYING_MEMBER_TMR s) (\<lambda>s.
                  bind_run (gget grp s) (\<lambda>g. ret (gput grp (g\<lparr>group_state := IGMP_GROUP_DELAYING_MEMBER\<rparr>) s)))))) (\<lambda>s.
             bind_run (gget grp s) (\<lambda>g. ret (ERR_OK, gput grp (g\<lparr>group_use := group_use g + 1\<rparr>) s))))
           else ret (ERR_MEM, s))))))"

definition igmp_leavegroup_netif :: "'v igmp inet_calls \<Rightarrow> 'v igmp_calls \<Rightarrow> nat \<Rightarrow> u32 \<Rightarrow> 'v mcast \<Rightarrow> (err_t \<times> 'v mcast) run" where
  "igmp_leavegroup_netif ic ig netif groupaddr s =
     lwip_assert ''igmp_leavegroup_netif: attempt to leave non-multicast address'' (ip4_addr_ismulticast groupaddr)
      (lwip_assert ''igmp_leavegroup_netif: attempt to leave allsystems address'' (groupaddr \<noteq> allsystems (igmp_of s))
       (bind_run (nget netif s) (\<lambda>ni.
        lwip_assert ''igmp_leavegroup_netif: attempt to leave on non-IGMP netif'' (netif_flags ni AND NETIF_FLAG_IGMP \<noteq> 0)
         (bind_run (igmp_lookfor_group netif groupaddr s) (\<lambda>grp.
           if grp \<noteq> 0 then
             bind_run (gget grp s) (\<lambda>g.
               if group_use g \<le> 1 then
                 bind_run (igmp_remove_group netif grp s) (\<lambda>(_, s).
                 bind_run (gget grp s) (\<lambda>g.
                 bind_run (if last_reporter_flag g then igmp_send ic netif grp IGMP_LEAVE_GROUP s else ret s) (\<lambda>s.
                 bind_run (mac_filter ig netif groupaddr NETIF_DEL_MAC_FILTER s) (\<lambda>s.
                 bind_run (free_group grp s) (\<lambda>s. ret (ERR_OK, s))))))
               else ret (ERR_OK, gput grp (g\<lparr>group_use := group_use g - 1\<rparr>) s))
           else ret (ERR_VAL, s))))))"

text \<open>On all interfaces with the address, or on all of them.\<close>

definition igmp_selected :: "u32 \<Rightarrow> netif \<Rightarrow> bool" where
  "igmp_selected ifaddr ni \<longleftrightarrow> netif_flags ni AND NETIF_FLAG_IGMP \<noteq> 0 \<and> (ifaddr = IPADDR_ANY \<or> ip_addr ni = ifaddr)"

fun join_netifs :: "'v igmp inet_calls \<Rightarrow> 'v igmp_calls \<Rightarrow> u32 \<Rightarrow> u32 \<Rightarrow> nat list \<Rightarrow> err_t \<Rightarrow> 'v mcast \<Rightarrow> (err_t \<times> 'v mcast) run" where
  "join_netifs ic ig ifaddr groupaddr [] err s = ret (err, s)"
| "join_netifs ic ig ifaddr groupaddr (n # ns) err s =
     bind_run (nget n s) (\<lambda>ni.
       if igmp_selected ifaddr ni then
         bind_run (igmp_joingroup_netif ic ig n groupaddr s) (\<lambda>(err, s).
           if err \<noteq> ERR_OK then ret (err, s) else join_netifs ic ig ifaddr groupaddr ns err s)
       else join_netifs ic ig ifaddr groupaddr ns err s)"

definition igmp_joingroup :: "'v igmp inet_calls \<Rightarrow> 'v igmp_calls \<Rightarrow> u32 \<Rightarrow> u32 \<Rightarrow> 'v mcast \<Rightarrow> (err_t \<times> 'v mcast) run" where
  "igmp_joingroup ic ig ifaddr groupaddr s =
     lwip_assert ''igmp_joingroup: attempt to join non-multicast address'' (ip4_addr_ismulticast groupaddr)
      (lwip_assert ''igmp_joingroup: attempt to join allsystems address'' (groupaddr \<noteq> allsystems (igmp_of s))
       (join_netifs ic ig ifaddr groupaddr (netif_list s) ERR_VAL s))"

fun leave_netifs :: "'v igmp inet_calls \<Rightarrow> 'v igmp_calls \<Rightarrow> u32 \<Rightarrow> u32 \<Rightarrow> nat list \<Rightarrow> err_t \<Rightarrow> 'v mcast \<Rightarrow> (err_t \<times> 'v mcast) run" where
  "leave_netifs ic ig ifaddr groupaddr [] err s = ret (err, s)"
| "leave_netifs ic ig ifaddr groupaddr (n # ns) err s =
     bind_run (nget n s) (\<lambda>ni.
       if igmp_selected ifaddr ni then
         bind_run (igmp_leavegroup_netif ic ig n groupaddr s) (\<lambda>(res, s).
           leave_netifs ic ig ifaddr groupaddr ns (if err \<noteq> ERR_OK then res else err) s)
       else leave_netifs ic ig ifaddr groupaddr ns err s)"

definition igmp_leavegroup :: "'v igmp inet_calls \<Rightarrow> 'v igmp_calls \<Rightarrow> u32 \<Rightarrow> u32 \<Rightarrow> 'v mcast \<Rightarrow> (err_t \<times> 'v mcast) run" where
  "igmp_leavegroup ic ig ifaddr groupaddr s =
     lwip_assert ''igmp_leavegroup: attempt to leave non-multicast address'' (ip4_addr_ismulticast groupaddr)
      (lwip_assert ''igmp_leavegroup: attempt to leave allsystems address'' (groupaddr \<noteq> allsystems (igmp_of s))
       (leave_netifs ic ig ifaddr groupaddr (netif_list s) ERR_VAL s))"

subsection \<open>Queries and reports\<close>

text \<open>A query in the message at \<open>igmp\<close> to the address \<open>dest\<close>, for which the group \<open>grp\<close> was found.\<close>

definition igmp_query :: "'v igmp_calls \<Rightarrow> nat \<Rightarrow> nat \<Rightarrow> u32 \<Rightarrow> nat \<Rightarrow> 'v mcast \<Rightarrow> 'v mcast run" where
  "igmp_query ig igmp inp dest grp s =
     (let gaddr = load32 (igmp + 4) (pb s); all = allsystems (igmp_of s) in
      if dest = all \<and> gaddr = IPADDR_ANY then
        let s = (if bytes (pb s) (igmp + 1) = 0 then store_bytes (igmp + 1) [IGMP_V1_DELAYING_MEMBER_TMR] s else s)
        in bind_run (skip_first (netif_igmp_data (igmp_of s) inp) s) (\<lambda>groupref. delay_groups ig groupref (bytes (pb s) (igmp + 1)) s)
      else if gaddr \<noteq> IPADDR_ANY then
        bind_run (if dest = all then igmp_lookfor_group inp gaddr s else ret grp) (\<lambda>grp.
          if grp \<noteq> 0 then igmp_delaying_member ig grp (bytes (pb s) (igmp + 1)) s else ret s)
      else ret s)"

definition igmp_report :: "nat \<Rightarrow> 'v mcast \<Rightarrow> 'v mcast run" where
  "igmp_report grp s =
     bind_run (gget grp s) (\<lambda>g.
       if group_state g = IGMP_GROUP_DELAYING_MEMBER
       then ret (gput grp (g\<lparr>group_timer := 0, group_state := IGMP_GROUP_IDLE_MEMBER, last_reporter_flag := False\<rparr>) s)
       else ret s)"

definition igmp_input :: "'v igmp_calls \<Rightarrow> nat \<Rightarrow> nat \<Rightarrow> u32 \<Rightarrow> 'v mcast \<Rightarrow> 'v mcast run" where
  "igmp_input ig p inp dest s =
     bind_run (pget p (pb s)) (\<lambda>b.
       if pb_len b < IGMP_MINLEN then free_pbuf p s
       else
         let igmp = pb_payload b in
         if inet_chksum igmp (pb_len b) (pb s) \<noteq> 0 then free_pbuf p s
         else bind_run (igmp_lookfor_group inp dest s) (\<lambda>grp.
           if grp = 0 then free_pbuf p s
           else bind_run
             (if bytes (pb s) igmp = IGMP_MEMB_QUERY then igmp_query ig igmp inp dest grp s
              else if bytes (pb s) igmp = IGMP_V2_MEMB_REPORT then igmp_report grp s
              else ret s) (\<lambda>s. free_pbuf p s)))"

end
