(* ===== verification/Pbuf_Pools.thy ===== *)
theory Pbuf_Pools
  imports Etharp_Send
begin

text \<open>
  Packet buffers beside other users of the pools: freeing packets leaves the elements of other pools alone, and taking or giving back
  elements of other pools leaves the packet buffers alone.
\<close>

definition other_pool :: "nat \<Rightarrow> bool" where
  "other_pool t \<longleftrightarrow> t \<noteq> MEMP_PBUF \<and> t \<noteq> MEMP_PBUF_POOL"

definition others_kept :: "pbuf_state \<Rightarrow> pbuf_state \<Rightarrow> bool" where
  "others_kept s s' \<longleftrightarrow> memp_pools s' = memp_pools s
     \<and> (\<forall>t a. other_pool t \<longrightarrow> ((t, a) \<in> memp_live (memp_pools s') (ppools s') \<longleftrightarrow> (t, a) \<in> memp_live (memp_pools s) (ppools s)))"

lemma others_kept_refl: "memp_pools s' = memp_pools s \<Longrightarrow> ppools s' = ppools s \<Longrightarrow> others_kept s s'"
  by (simp add: others_kept_def)

lemma others_kept_trans: "others_kept s t \<Longrightarrow> others_kept t u \<Longrightarrow> others_kept s u"
  by (auto simp: others_kept_def)

lemma dealloc_others:
  assumes inv: "pbuf_inv s" "pbufs s p = Some b0" "pb_flags b = pb_flags b0" "pb_type_internal b = pb_type_internal b0"
    and run: "pbuf_dealloc p b s = ret s'"
  shows "others_kept s s'"
proof -
  have own: "pbuf_owned s p b" using inv(1,2) pbuf_owned_cong [OF inv(3,4)] by (auto simp: pbuf_inv_def)
  have ok: "pools_ok (memp_pools s)" "memp_inv (memp_pools s) (ppools s)" using inv(1) by (auto simp: pbuf_inv_def memory_ok_def)
  have pool: "others_kept s s'" if l: "(t, p) \<in> memp_live (memp_pools s) (ppools s)" "\<not> other_pool t"
    and "bind_run (memp_free (memp_pools s) t p (ppools s)) (\<lambda>m. ret (s\<lparr>pbufs := (pbufs s)(p := None), ppools := m\<rparr>)) = ret s'" for t
  proof -
    obtain m where m: "memp_free (memp_pools s) t p (ppools s) = ret m" "memp_live (memp_pools s) m = memp_live (memp_pools s) (ppools s) - {(t, p)}"
      using memp_free_spec [OF ok l(1)] by blast
    then have "s' = s\<lparr>pbufs := (pbufs s)(p := None), ppools := m\<rparr>" using that(3) by simp
    then show ?thesis using m(2) that(2) by (auto simp: others_kept_def)
  qed
  have heap: "others_kept s s'" if r: "bind_run (mem_free p (pheap s)) (\<lambda>h. ret (s\<lparr>pbufs := (pbufs s)(p := None), pheap := h\<rparr>)) = ret s'"
  proof -
    obtain h where "s' = s\<lparr>pbufs := (pbufs s)(p := None), pheap := h\<rparr>" using bind_run_retE [OF r] by auto
    then show ?thesis by (simp add: others_kept_def)
  qed
  consider "pb_flags b AND PBUF_FLAG_IS_CUSTOM \<noteq> 0"
    | "pb_flags b AND PBUF_FLAG_IS_CUSTOM = 0" "pbuf_get_allocsrc b = PBUF_TYPE_ALLOC_SRC_MASK_STD_MEMP_PBUF_POOL"
    | "pb_flags b AND PBUF_FLAG_IS_CUSTOM = 0" "pbuf_get_allocsrc b \<noteq> PBUF_TYPE_ALLOC_SRC_MASK_STD_MEMP_PBUF_POOL"
        "pbuf_get_allocsrc b = PBUF_TYPE_ALLOC_SRC_MASK_STD_MEMP_PBUF"
    | "pb_flags b AND PBUF_FLAG_IS_CUSTOM = 0" "pbuf_get_allocsrc b = PBUF_TYPE_ALLOC_SRC_MASK_STD_HEAP"
        "pbuf_get_allocsrc b \<noteq> PBUF_TYPE_ALLOC_SRC_MASK_STD_MEMP_PBUF_POOL" "pbuf_get_allocsrc b \<noteq> PBUF_TYPE_ALLOC_SRC_MASK_STD_MEMP_PBUF"
    using own by (auto simp: pbuf_owned_def split: if_splits)
  then show ?thesis
  proof cases
    case 1
    then show ?thesis using own run by (auto simp: pbuf_owned_def pbuf_dealloc_def others_kept_def)
  next
    case 2
    then show ?thesis using own run by (intro pool [of MEMP_PBUF_POOL]) (simp_all add: pbuf_owned_def pbuf_dealloc_def other_pool_def)
  next
    case 3
    then show ?thesis using own run by (intro pool [of MEMP_PBUF]) (simp_all add: pbuf_owned_def pbuf_dealloc_def other_pool_def)
  next
    case 4
    then show ?thesis using run by (intro heap) (simp add: pbuf_dealloc_def)
  qed
qed

lemma free_loop_others:
  assumes "pbuf_inv s" "linked s p xs" "\<forall>x\<in>set xs. 0 < ref_of s x" "pbuf_free_loop p n s = ret (m, s')"
  shows "others_kept s s'"
  using assms
proof (induction xs arbitrary: p s n)
  case Nil
  then have "s' = s" by (subst (asm) pbuf_free_loop.simps) auto
  then show ?case by (simp add: others_kept_refl)
next
  case (Cons x xs)
  from Cons.prems(2) obtain b where b: "p = x" "x \<noteq> 0" "pget x s = ret b" "pbufs s x = Some b" "linked s (pb_next b) xs"
    by (auto simp: pget_ret_iff split: option.splits)
  have x: "x \<notin> set xs" using linked_distinct [OF Cons.prems(2)] by simp
  let ?b = "b\<lparr>pb_ref := pb_ref b - 1\<rparr>"
  let ?s = "pset x ?b s"
  have inv: "pbuf_inv ?s" by (rule pbuf_inv_pset [OF Cons.prems(1) b(4)]) simp_all
  have pos: "0 < pb_ref b" using Cons.prems(3) b(4) by (simp add: ref_of_def)
  have keep: "others_kept s ?s" by (simp add: others_kept_refl)
  show ?case
  proof (cases "pb_ref b = 1")
    case False
    then have "s' = ?s" using b(1-3) pos Cons.prems(4) by (subst (asm) pbuf_free_loop.simps) (auto simp: Let_def)
    then show ?thesis using keep by simp
  next
    case True
    obtain s1 where s1: "pbuf_dealloc x ?b ?s = ret s1" "pbuf_inv s1" "pbufs s1 = (pbufs ?s)(x := None)"
      using dealloc_ok [OF inv, of x ?b ?b] by auto
    have fr: "pbufs s1 y = pbufs s y" if "y \<in> set xs" for y using that x s1(3) by auto
    have "pbuf_free_loop (pb_next b) (U8 (n + 1)) s1 = ret (m, s')"
      using Cons.prems(4) b(1-3) True s1(1) by (subst (asm) pbuf_free_loop.simps) (simp add: Let_def)
    then have "others_kept s1 s'"
      using Cons.IH [OF s1(2)] b(5) linked_frame [of xs s1 s] fr Cons.prems(3) by (auto simp: ref_of_def)
    moreover have "others_kept ?s s1" by (rule dealloc_others [OF inv _ _ _ s1(1), of ?b]) simp_all
    ultimately show ?thesis using keep others_kept_trans by blast
  qed
qed

lemma free_others:
  assumes "pbuf_inv s" "linked s p xs" "\<forall>x\<in>set xs. 0 < ref_of s x" "pbuf_free p s = ret (m, s')"
  shows "others_kept s s'"
  using free_loop_others [OF assms(1-3)] assms(4) by (auto simp: pbuf_free_def split: if_splits)

lemma alloc_ram_others:
  assumes "pbuf_alloc layer len PBUF_RAM s = ret (p, s')"
  shows "others_kept s s'"
  using assms
  by (intro others_kept_refl)
    (auto simp: pbuf_alloc_def Let_def lwip_assert_def init_new_pbuf split: if_splits option.splits elim!: bind_run_retE)

lemma sent_others: "sent p s s' \<Longrightarrow> others_kept (pb s) (pb s')"
  by (auto simp: sent_def others_kept_def)

text \<open>The other direction.\<close>

lemma pbuf_inv_other_pool:
  assumes "pbuf_inv s" "memp_inv (memp_pools s) m" "other_pool t"
    and live: "\<And>u a. u \<noteq> t \<Longrightarrow> (u, a) \<in> memp_live (memp_pools s) m \<longleftrightarrow> (u, a) \<in> memp_live (memp_pools s) (ppools s)"
  shows "pbuf_inv (s\<lparr>ppools := m\<rparr>)"
proof -
  have "MEMP_PBUF \<noteq> t" "MEMP_PBUF_POOL \<noteq> t" using assms(3) by (auto simp: other_pool_def)
  then have "pbuf_owned (s\<lparr>ppools := m\<rparr>) = pbuf_owned s" "pbuf_placed (s\<lparr>ppools := m\<rparr>) = pbuf_placed s"
    by (auto simp: fun_eq_iff pbuf_owned_def pbuf_placed_def live)
  then show ?thesis using assms(1,2) by (simp add: pbuf_inv_def)
qed

end
