(* ===== verification/Igmp_Groups.thy ===== *)
theory Igmp_Groups
  imports Igmp Pbuf_Pools
begin

text \<open>
  The lists of groups of IGMP: what the pointers mean, the invariant of the lists, and what the operations do to them.
\<close>

subsection \<open>State\<close>

lemma on_igmp_simps [simp]:
  "outer (world (on_igmp f s)) = f (outer (world s))" "pb (on_igmp f s) = pb s" "netifs (on_igmp f s) = netifs s"
  "netif_list (on_igmp f s) = netif_list s" "arp_table (on_igmp f s) = arp_table s" "nget n (on_igmp f s) = nget n s"
  "on_igmp f (on_igmp g s) = on_igmp (\<lambda>w. f (g w)) s"
  by (simp_all add: on_igmp_def nget_def on_world_def)

lemma gput_simps [simp]:
  "igmp_of (gput g gr s) = (igmp_of s)\<lparr>igmp_mem := (igmp_mem (igmp_of s))(g \<mapsto> gr)\<rparr>" "pb (gput g gr s) = pb s"
  "netifs (gput g gr s) = netifs s" "netif_list (gput g gr s) = netif_list s" "nget n (gput g gr s) = nget n s"
  by (simp_all add: gput_def)

lemma gget_ret: "g \<noteq> 0 \<Longrightarrow> igmp_mem (igmp_of s) g = Some gr \<Longrightarrow> gget g s = ret gr"
  by (simp add: gget_def)

lemma gget_gput [simp]: "g \<noteq> 0 \<Longrightarrow> gget g (gput h gr s) = (if g = h then ret gr else gget g s)"
  by (simp add: gget_def)

subsection \<open>Lists\<close>

fun glist :: "'v igmp \<Rightarrow> nat \<Rightarrow> nat list \<Rightarrow> bool" where
  "glist w g [] \<longleftrightarrow> g = 0"
| "glist w g (x # xs) \<longleftrightarrow> g = x \<and> x \<noteq> 0 \<and> (case igmp_mem w x of None \<Rightarrow> False | Some gr \<Rightarrow> glist w (group_next gr) xs)"

definition addr_of :: "'v igmp \<Rightarrow> nat \<Rightarrow> u32" where
  "addr_of w g = (case igmp_mem w g of None \<Rightarrow> 0 | Some gr \<Rightarrow> group_address gr)"

lemma glist_cong:
  assumes "\<And>x. x \<in> set xs \<Longrightarrow> map_option group_next (igmp_mem w' x) = map_option group_next (igmp_mem w x)"
  shows "glist w' g xs = glist w g xs"
  using assms by (induction xs arbitrary: g) (auto split: option.splits, (metis option.distinct(1) option.simps(8,9) option.inject)+)

lemma lookfor_spec:
  assumes "glist (igmp_of s) g xs"
  shows "lookfor_loop a g s = ret (case find (\<lambda>x. addr_of (igmp_of s) x = a) xs of None \<Rightarrow> 0 | Some x \<Rightarrow> x)"
  using assms
proof (induction xs arbitrary: g)
  case Nil
  then show ?case by (simp add: lookfor_loop.simps)
next
  case (Cons x xs)
  then obtain gr where gr: "g = x" "x \<noteq> 0" "igmp_mem (igmp_of s) x = Some gr" "glist (igmp_of s) (group_next gr) xs"
    by (auto split: option.splits)
  then show ?case using Cons.IH [OF gr(4)] gget_ret [OF gr(2,3)] by (subst lookfor_loop.simps) (simp add: addr_of_def)
qed

subsection \<open>The invariant\<close>

text \<open>A group that the host is a member of: its timer runs exactly while a report is delayed.\<close>

definition group_ok :: "u32 \<Rightarrow> igmp_group \<Rightarrow> bool" where
  "group_ok all g \<longleftrightarrow> ip4_addr_ismulticast (group_address g) \<and> group_address g \<noteq> all \<and> group_state g \<noteq> IGMP_GROUP_NON_MEMBER
     \<and> (group_state g = IGMP_GROUP_DELAYING_MEMBER \<longleftrightarrow> group_timer g \<noteq> 0)"

text \<open>\<open>L n\<close> is the list of the interface \<open>n\<close>: lists share no structs, and no address is twice in a list.\<close>

definition igmp_lists :: "'v igmp \<Rightarrow> (nat \<Rightarrow> nat list) \<Rightarrow> bool" where
  "igmp_lists w L \<longleftrightarrow> (\<forall>n. glist w (netif_igmp_data w n) (L n) \<and> distinct (map (addr_of w) (L n)))
     \<and> (\<forall>n m. n \<noteq> m \<longrightarrow> set (L n) \<inter> set (L m) = {})"

text \<open>The first group of a list is that of all systems, the others are groups that somebody joined.\<close>

definition members_ok :: "'v igmp \<Rightarrow> (nat \<Rightarrow> nat list) \<Rightarrow> bool" where
  "members_ok w L \<longleftrightarrow> (\<forall>n. L n \<noteq> [] \<longrightarrow> addr_of w (hd (L n)) = allsystems w
     \<and> (\<forall>g\<in>set (tl (L n)). \<forall>gr. igmp_mem w g = Some gr \<longrightarrow> group_ok (allsystems w) gr))"

definition igmp_ok :: "'v igmp \<Rightarrow> (nat \<Rightarrow> nat list) \<Rightarrow> bool" where
  "igmp_ok w L \<longleftrightarrow> igmp_lists w L \<and> members_ok w L \<and> dom (igmp_mem w) = (\<Union>n. set (L n))"

text \<open>The structs are elements of their pool.\<close>

definition igmp_memory :: "'v mcast \<Rightarrow> bool" where
  "igmp_memory s \<longleftrightarrow> pbuf_inv (pb s)
     \<and> (\<forall>g\<in>dom (igmp_mem (igmp_of s)). (MEMP_IGMP_GROUP, g) \<in> memp_live (memp_pools (pb s)) (ppools (pb s)))"

lemma glistD:
  assumes "glist w g xs" "x \<in> set xs"
  shows "x \<noteq> 0" "\<exists>gr. igmp_mem w x = Some gr"
  using assms by (induction xs arbitrary: g) (auto split: option.splits)

lemma igmp_listsD:
  assumes "igmp_lists w L"
  shows "glist w (netif_igmp_data w n) (L n)" "distinct (L n)" "distinct (map (addr_of w) (L n))"
    "x \<in> set (L n) \<Longrightarrow> x \<in> set (L m) \<Longrightarrow> n = m"
  using assms distinct_map [of "addr_of w" "L n"] by (auto simp: igmp_lists_def)

lemma listed_ret:
  assumes "igmp_lists (igmp_of s) L" "g \<in> set (L n)"
  obtains gr where "g \<noteq> 0" "igmp_mem (igmp_of s) g = Some gr" "gget g s = ret gr"
  using glistD [OF igmp_listsD(1) [OF assms(1)] assms(2)] gget_ret by metis

lemma beyond_irrelevant [simp]:
  "glist (w\<lparr>beyond := v\<rparr>) g xs = glist w g xs" "addr_of (w\<lparr>beyond := v\<rparr>) = addr_of w" "igmp_lists (w\<lparr>beyond := v\<rparr>) L = igmp_lists w L"
  "members_ok (w\<lparr>beyond := v\<rparr>) L = members_ok w L" "igmp_ok (w\<lparr>beyond := v\<rparr>) L = igmp_ok w L"
proof -
  show g: "glist (w\<lparr>beyond := v\<rparr>) g xs = glist w g xs" for g xs by (rule glist_cong) simp
  show a: "addr_of (w\<lparr>beyond := v\<rparr>) = addr_of w" by (simp add: fun_eq_iff addr_of_def)
  show l: "igmp_lists (w\<lparr>beyond := v\<rparr>) L = igmp_lists w L" by (simp add: igmp_lists_def g a)
  show m: "members_ok (w\<lparr>beyond := v\<rparr>) L = members_ok w L" by (simp add: members_ok_def a)
  show "igmp_ok (w\<lparr>beyond := v\<rparr>) L = igmp_ok w L" by (simp add: igmp_ok_def l m)
qed

text \<open>A change of a group that keeps its link and its address.\<close>

lemma lists_update:
  assumes "igmp_lists w L" "igmp_mem w g = Some gr" "group_next gr' = group_next gr" "group_address gr' = group_address gr"
  shows "igmp_lists (w\<lparr>igmp_mem := (igmp_mem w)(g \<mapsto> gr')\<rparr>) L" "addr_of (w\<lparr>igmp_mem := (igmp_mem w)(g \<mapsto> gr')\<rparr>) = addr_of w"
proof -
  let ?w = "w\<lparr>igmp_mem := (igmp_mem w)(g \<mapsto> gr')\<rparr>"
  show a: "addr_of ?w = addr_of w" using assms(2,4) by (simp add: fun_eq_iff addr_of_def)
  have "glist ?w h xs = glist w h xs" for h xs by (rule glist_cong) (use assms(2,3) in simp)
  then show "igmp_lists ?w L" using assms(1) by (simp add: igmp_lists_def a)
qed

lemma igmp_ok_update:
  assumes "igmp_ok w L" "igmp_mem w g = Some gr" "group_next gr' = group_next gr" "group_address gr' = group_address gr"
    and "\<And>n. g \<in> set (tl (L n)) \<Longrightarrow> group_ok (allsystems w) gr'"
  shows "igmp_ok (w\<lparr>igmp_mem := (igmp_mem w)(g \<mapsto> gr')\<rparr>) L"
proof -
  note l = lists_update [OF _ assms(2-4), of L]
  show ?thesis
    using assms(1,5) l assms(2) unfolding igmp_ok_def members_ok_def by (auto simp: insert_absorb domI)
qed

subsection \<open>Finding and making groups\<close>

lemma lookfor_ok:
  assumes "igmp_lists (igmp_of s) L"
  shows "igmp_lookfor_group n a s = ret (case find (\<lambda>x. addr_of (igmp_of s) x = a) (L n) of None \<Rightarrow> 0 | Some x \<Rightarrow> x)"
  unfolding igmp_lookfor_group_def by (rule lookfor_spec [OF igmp_listsD(1) [OF assms]])

text \<open>The list with a new group: behind the first one, which is that of all systems.\<close>

fun add_group :: "nat \<Rightarrow> nat list \<Rightarrow> nat list" where
  "add_group g [] = [g]"
| "add_group g (h # gs) = h # g # gs"

text \<open>The invariant with one group in the making.\<close>

definition igmp_but :: "nat \<Rightarrow> 'v igmp \<Rightarrow> (nat \<Rightarrow> nat list) \<Rightarrow> bool" where
  "igmp_but g w L \<longleftrightarrow> igmp_lists w L \<and> dom (igmp_mem w) = (\<Union>n. set (L n))
     \<and> (\<forall>n. L n \<noteq> [] \<longrightarrow> addr_of w (hd (L n)) = allsystems w
       \<and> (\<forall>x\<in>set (tl (L n)). x \<noteq> g \<longrightarrow> (\<forall>gr. igmp_mem w x = Some gr \<longrightarrow> group_ok (allsystems w) gr)))"

lemma but_beyond [simp]: "igmp_but g (w\<lparr>beyond := v\<rparr>) L = igmp_but g w L"
  by (simp add: igmp_but_def)

lemma ok_but: "igmp_ok w L \<Longrightarrow> igmp_but g w L"
  by (auto simp: igmp_ok_def igmp_but_def members_ok_def)

lemma but_ok:
  assumes "igmp_but g w L" "igmp_mem w g = Some gr" "\<forall>n. g \<in> set (tl (L n)) \<longrightarrow> group_ok (allsystems w) gr"
  shows "igmp_ok w L"
proof -
  have "group_ok (allsystems w) r" if "L n \<noteq> []" "x \<in> set (tl (L n))" "igmp_mem w x = Some r" for n x r
    using assms that by (cases "x = g") (auto simp: igmp_but_def)
  then show ?thesis using assms(1) by (auto simp: igmp_ok_def igmp_but_def members_ok_def)
qed

lemma but_update:
  assumes "igmp_but g w L" "igmp_mem w g = Some gr" "group_next gr' = group_next gr" "group_address gr' = group_address gr"
  shows "igmp_but g (w\<lparr>igmp_mem := (igmp_mem w)(g \<mapsto> gr')\<rparr>) L"
  using assms(1) lists_update [OF _ assms(2-4), of L] assms(2) unfolding igmp_but_def by (auto simp: insert_absorb domI)

lemma UN_lists:
  fixes L :: "nat \<Rightarrow> nat list"
  shows "(\<Union>k. set ((L(n := xs)) k)) = set xs \<union> (\<Union>k\<in>- {n}. set (L k))" "(\<Union>k. set (L k)) = set (L n) \<union> (\<Union>k\<in>- {n}. set (L k))"
  by (auto split: if_splits)

lemma insert_group:
  assumes ok: "igmp_ok w L" and new: "igmp_mem w g = None" "g \<noteq> 0" and a: "a \<notin> addr_of w ` set (L n)" and ln: "L n = h # gs" and h: "igmp_mem w h = Some hr"
  shows "igmp_but g (w\<lparr>igmp_mem := (igmp_mem w)(g \<mapsto> new_group a (group_next hr), h \<mapsto> hr\<lparr>group_next := g\<rparr>)\<rparr>) (L(n := h # g # gs))"
proof -
  let ?w = "w\<lparr>igmp_mem := (igmp_mem w)(g \<mapsto> new_group a (group_next hr), h \<mapsto> hr\<lparr>group_next := g\<rparr>)\<rparr>" and ?L = "L(n := h # g # gs)"
  have l: "igmp_lists w L" and m: "members_ok w L" and d: "dom (igmp_mem w) = (\<Union>n. set (L n))" using ok by (simp_all add: igmp_ok_def)
  note lD = igmp_listsD [OF l]
  have gL: "g \<notin> set (L k)" for k using d new(1) by auto
  have gh: "g \<noteq> h" using h new(1) by auto
  have hk: "h \<notin> set (L k)" if "k \<noteq> n" for k using lD(4) [of h n k] that ln by auto
  have ad: "addr_of ?w = (addr_of w)(g := a)" using gh h by (auto simp: fun_eq_iff addr_of_def new_group_def)
  have gs: "glist w (group_next hr) gs" "h \<notin> set gs" "netif_igmp_data w n = h" "h \<noteq> 0"
    using lD(1,2) [of n] ln h by auto
  have "glist ?w k xs = glist w k xs" if "g \<notin> set xs" "h \<notin> set xs" for k xs by (rule glist_cong) (use that in auto)
  then have gl: "glist ?w (netif_igmp_data w k) (?L k)" for k
    using lD(1) [of k] gs gh gL [of k] gL [of n] hk [of k] new(2) ln by (cases "k = n") (auto simp: new_group_def)
  have dist: "distinct (map (addr_of ?w) (?L k))" for k
  proof (cases "k = n")
    case True
    have e: "map ((addr_of w)(g := a)) gs = map (addr_of w) gs" using gL [of n] ln by (auto simp: map_eq_conv)
    show ?thesis unfolding ad True fun_upd_same list.map e using lD(3) [of n] ln a gh by auto
  next
    case False
    have "map ((addr_of w)(g := a)) (L k) = map (addr_of w) (L k)" using gL [of k] by (auto simp: map_eq_conv)
    then show ?thesis unfolding ad using lD(3) [of k] False by (simp del: map_eq_conv)
  qed
  have dis: "set (?L k) \<inter> set (?L j) = {}" if "k \<noteq> j" for k j
    using lD(4) gL ln that by (auto split: if_splits) (metis list.set_intros)+
  have "dom (igmp_mem ?w) = (\<Union>k. set (?L k))" using d ln unfolding UN_lists(1) UN_lists(2) [of L n] by auto
  moreover have "?L k \<noteq> [] \<longrightarrow> addr_of ?w (hd (?L k)) = allsystems w \<and> (\<forall>x\<in>set (tl (?L k)). x \<noteq> g \<longrightarrow> (\<forall>r. igmp_mem ?w x = Some r \<longrightarrow> group_ok (allsystems w) r))" for k
  proof (cases "k = n")
    case True
    then show ?thesis unfolding ad using m ln gh gs(2) by (auto simp: members_ok_def dest: spec [of _ n])
  next
    case False
    then have "hd (L k) \<noteq> g" if "L k \<noteq> []" using that gL [of k] hd_in_set by metis
    then show ?thesis unfolding ad using m False hk [of k] gL [of k] by (auto simp: members_ok_def dest: list.set_sel(2))
  qed
  ultimately show ?thesis unfolding igmp_but_def igmp_lists_def using gl dist dis by auto
qed

lemma insert_first:
  assumes ok: "igmp_ok w L" and new: "igmp_mem w g = None" "g \<noteq> 0" and ln: "L n = []"
  shows "igmp_but g (w\<lparr>igmp_mem := (igmp_mem w)(g \<mapsto> new_group (allsystems w) 0), netif_igmp_data := (netif_igmp_data w)(n := g)\<rparr>) (L(n := [g]))"
proof -
  let ?w = "w\<lparr>igmp_mem := (igmp_mem w)(g \<mapsto> new_group (allsystems w) 0), netif_igmp_data := (netif_igmp_data w)(n := g)\<rparr>"
  have l: "igmp_lists w L" and m: "members_ok w L" and d: "dom (igmp_mem w) = (\<Union>n. set (L n))" using ok by (simp_all add: igmp_ok_def)
  note lD = igmp_listsD [OF l]
  have gL: "g \<notin> set (L k)" for k using d new(1) by auto
  have ad: "addr_of ?w = (addr_of w)(g := allsystems w)" by (auto simp: fun_eq_iff addr_of_def new_group_def)
  have same: "map ((addr_of w)(g := v)) (L k) = map (addr_of w) (L k)" for k v using gL [of k] by (auto simp: map_eq_conv)
  have "glist ?w k xs = glist w k xs" if "g \<notin> set xs" for k xs by (rule glist_cong) (use that in auto)
  then have "glist ?w (netif_igmp_data ?w k) ((L(n := [g])) k) \<and> distinct (map (addr_of ?w) ((L(n := [g])) k))" for k
    unfolding ad using lD(1,3) [of k] gL [of k] new(2) same [of "allsystems w" k] by (cases "k = n") (simp_all add: new_group_def del: map_eq_conv)
  moreover have "set ((L(n := [g])) k) \<inter> set ((L(n := [g])) j) = {}" if "k \<noteq> j" for k j
    using lD(4) gL that by (auto split: if_splits)
  moreover have "dom (igmp_mem ?w) = (\<Union>k. set ((L(n := [g])) k))" using d ln unfolding UN_lists(1) UN_lists(2) [of L n] by auto
  moreover have "hd (L k) \<noteq> g" if "L k \<noteq> []" for k using that gL [of k] hd_in_set by metis
  ultimately show ?thesis
    using m unfolding igmp_but_def igmp_lists_def ad by (auto simp: members_ok_def dest: list.set_sel(2))
qed

text \<open>A state with another pool and other groups.\<close>

definition regrouped :: "memp_state \<Rightarrow> 'v igmp \<Rightarrow> 'v mcast \<Rightarrow> 'v mcast" where
  "regrouped m w s = s\<lparr>pb := (pb s)\<lparr>ppools := m\<rparr>, world := (world s)\<lparr>outer := w\<rparr>\<rparr>"

lemma regrouped_simps [simp]:
  "igmp_of (regrouped m w s) = w" "pb (regrouped m w s) = (pb s)\<lparr>ppools := m\<rparr>" "netifs (regrouped m w s) = netifs s"
  "netif_list (regrouped m w s) = netif_list s" "arp_table (regrouped m w s) = arp_table s"
  by (simp_all add: regrouped_def)

lemma igmp_memoryD:
  assumes "igmp_memory s"
  shows "pbuf_inv (pb s)" "pools_ok (memp_pools (pb s))" "memp_inv (memp_pools (pb s)) (ppools (pb s))" "MEMP_IGMP_GROUP < length (memp_pools (pb s))"
    "g \<in> dom (igmp_mem (igmp_of s)) \<Longrightarrow> (MEMP_IGMP_GROUP, g) \<in> memp_live (memp_pools (pb s)) (ppools (pb s))"
  using assms by (auto simp: igmp_memory_def pbuf_inv_def memory_ok_def MEMP_IGMP_GROUP_def MEMP_PBUF_POOL_def)

lemma other_pool_igmp [simp]: "other_pool MEMP_IGMP_GROUP"
  by (simp add: other_pool_def MEMP_IGMP_GROUP_def MEMP_PBUF_POOL_def MEMP_PBUF_def)

lemma malloc_group:
  assumes mem: "igmp_memory s"
  obtains "memp_malloc (memp_pools (pb s)) MEMP_IGMP_GROUP (ppools (pb s)) = ret (None, ppools (pb s))"
  | g m where "memp_malloc (memp_pools (pb s)) MEMP_IGMP_GROUP (ppools (pb s)) = ret (Some g, m)" "g \<noteq> 0" "g \<notin> dom (igmp_mem (igmp_of s))"
      "\<And>w. dom (igmp_mem w) = insert g (dom (igmp_mem (igmp_of s))) \<Longrightarrow> igmp_memory (regrouped m w s)"
proof -
  note D = igmp_memoryD [OF mem]
  let ?p = "memp_pools (pb s)"
  obtain r m where r: "memp_malloc ?p MEMP_IGMP_GROUP (ppools (pb s)) = ret (r, m)" "memp_inv ?p m"
    "case r of None \<Rightarrow> m = ppools (pb s) | Some a \<Rightarrow> memp_live ?p m = insert (MEMP_IGMP_GROUP, a) (memp_live ?p (ppools (pb s)))
        \<and> (MEMP_IGMP_GROUP, a) \<notin> memp_live ?p (ppools (pb s))"
    using memp_malloc_spec [OF D(2-4)] by (auto split: option.splits)
  show thesis
  proof (cases r)
    case None
    then show thesis using r that(1) by simp
  next
    case (Some g)
    then have live: "memp_live ?p m = insert (MEMP_IGMP_GROUP, g) (memp_live ?p (ppools (pb s)))" "(MEMP_IGMP_GROUP, g) \<notin> memp_live ?p (ppools (pb s))"
      using r(3) by simp_all
    have "g \<in> set (elements (?p ! MEMP_IGMP_GROUP))" using live(1) by (auto simp: memp_live_def)
    then have "g \<noteq> 0" using elements_props(3) [OF D(2,4)] by auto
    moreover have "g \<notin> dom (igmp_mem (igmp_of s))" using live(2) D(5) by blast
    moreover have "igmp_memory (regrouped m w s)" if "dom (igmp_mem w) = insert g (dom (igmp_mem (igmp_of s)))" for w
      using pbuf_inv_other_pool [OF D(1) r(2), of MEMP_IGMP_GROUP] live(1) D(5) that unfolding igmp_memory_def by auto
    ultimately show thesis using that(2) [of g m] r(1) Some by blast
  qed
qed

text \<open>Up to the links, the other groups are as they were.\<close>

definition same_groups :: "nat set \<Rightarrow> 'v igmp \<Rightarrow> 'v igmp \<Rightarrow> bool" where
  "same_groups X w w' \<longleftrightarrow> allsystems w' = allsystems w \<and> allrouters w' = allrouters w
     \<and> (\<forall>x. x \<notin> X \<longrightarrow> map_option (\<lambda>r. r\<lparr>group_next := 0\<rparr>) (igmp_mem w' x) = map_option (\<lambda>r. r\<lparr>group_next := 0\<rparr>) (igmp_mem w x))"

lemma lookup_ok:
  fixes s :: "'v mcast"
  assumes ok: "igmp_ok (igmp_of s) L" and mem: "igmp_memory s" and first: "L n = [] \<longrightarrow> a = allsystems (igmp_of s)"
  obtains
    (found) g where "igmp_lookup_group n a s = ret (g, s)" "g \<in> set (L n)" "addr_of (igmp_of s) g = a" "g \<noteq> 0"
  | (full) "igmp_lookup_group n a s = ret (0, s)" "a \<notin> addr_of (igmp_of s) ` set (L n)"
  | (new) g m w k where "igmp_lookup_group n a s = ret (g, regrouped m w s)" "a \<notin> addr_of (igmp_of s) ` set (L n)"
      "igmp_memory (regrouped m w s)" "igmp_but g w (L(n := add_group g (L n)))" "igmp_mem w g = Some (new_group a k)" "g \<noteq> 0"
      "g \<notin> dom (igmp_mem (igmp_of s))" "same_groups {g} (igmp_of s) w" "beyond w = beyond (igmp_of s)"
proof -
  let ?w = "igmp_of s" and ?f = "find (\<lambda>x. addr_of (igmp_of s) x = a) (L n)"
  have l: "igmp_lists ?w L" and d: "dom (igmp_mem ?w) = (\<Union>n. set (L n))" using ok by (simp_all add: igmp_ok_def)
  note lf = lookfor_ok [OF l, of n a] and hd = igmp_listsD(1) [OF l, of n]
  show thesis
  proof (cases ?f)
    case (Some g)
    then have g: "g \<in> set (L n)" "addr_of ?w g = a" by (auto simp: find_Some_iff)
    then have "g \<noteq> 0" using glistD [OF hd] by blast
    then show thesis using found [of g] g lf Some by (simp add: igmp_lookup_group_def Let_def)
  next
    case None
    then have a: "a \<notin> addr_of ?w ` set (L n)" by (auto simp: find_None_iff)
    from malloc_group [OF mem] show thesis
    proof cases
      case 1
      then show thesis using full a lf None by (simp add: igmp_lookup_group_def Let_def)
    next
      case (2 g m)
      have new: "igmp_mem ?w g = None" using 2(3) by auto
      show thesis
      proof (cases "L n")
        case Nil
        let ?v = "?w\<lparr>igmp_mem := (igmp_mem ?w)(g \<mapsto> new_group (allsystems ?w) 0), netif_igmp_data := (netif_igmp_data ?w)(n := g)\<rparr>"
        have st: "set_igmp_data n g (gput g (new_group a 0) (s\<lparr>pb := (pb s)\<lparr>ppools := m\<rparr>\<rparr>)) = regrouped m ?v s"
          using first Nil by (simp add: regrouped_def set_igmp_data_def gput_def on_igmp_def on_world_def)
        have "igmp_lookup_group n a s = ret (g, regrouped m ?v s)"
          using lf None 2(1) hd Nil first st by (simp add: igmp_lookup_group_def Let_def)
        moreover have "igmp_memory (regrouped m ?v s)" by (rule 2(4)) (simp add: insert_commute)
        ultimately show thesis
          using a insert_first [OF ok new 2(2) Nil] Nil first 2 that(3) [of g m ?v 0] by (simp add: same_groups_def)
      next
        case (Cons h gs)
        then obtain hr where h: "h \<noteq> 0" "igmp_mem ?w h = Some hr" "netif_igmp_data ?w n = h" using hd by (auto split: option.splits)
        have na: "a \<noteq> allsystems ?w" using a ok Cons by (auto simp: igmp_ok_def members_ok_def dest: spec [of _ n])
        let ?v = "?w\<lparr>igmp_mem := (igmp_mem ?w)(g \<mapsto> new_group a (group_next hr), h \<mapsto> hr\<lparr>group_next := g\<rparr>)\<rparr>"
        have gh: "g \<noteq> h" using h(2) new by auto
        have st: "gput h (hr\<lparr>group_next := g\<rparr>) (gput g (new_group a (group_next hr)) (s\<lparr>pb := (pb s)\<lparr>ppools := m\<rparr>\<rparr>)) = regrouped m ?v s"
          by (simp add: regrouped_def gput_def on_igmp_def on_world_def)
        have "igmp_lookup_group n a s = ret (g, regrouped m ?v s)"
          using lf None 2(1) h na st by (simp add: igmp_lookup_group_def Let_def gget_def)
        moreover have "igmp_memory (regrouped m ?v s)" by (rule 2(4)) (use h(2) in auto)
        moreover have "igmp_but g ?v (L(n := add_group g (L n)))" using insert_group [OF ok new 2(2) a Cons h(2)] Cons by simp
        ultimately show thesis using that(3) [of g m ?v "group_next hr"] a gh h(2) 2 by (auto simp: same_groups_def)
      qed
    qed
  qed
qed

subsection \<open>Removing groups\<close>

lemma free_group_ok:
  assumes mem: "igmp_memory s" and g: "g \<in> dom (igmp_mem (igmp_of s))"
  shows "\<exists>m. free_group g s = ret (regrouped m ((igmp_of s)\<lparr>igmp_mem := (igmp_mem (igmp_of s))(g := None)\<rparr>) s)
    \<and> igmp_memory (regrouped m ((igmp_of s)\<lparr>igmp_mem := (igmp_mem (igmp_of s))(g := None)\<rparr>) s)"
proof -
  note D = igmp_memoryD [OF mem]
  let ?p = "memp_pools (pb s)"
  obtain m where m: "memp_free ?p MEMP_IGMP_GROUP g (ppools (pb s)) = ret m" "memp_inv ?p m"
    "memp_live ?p m = memp_live ?p (ppools (pb s)) - {(MEMP_IGMP_GROUP, g)}"
    using memp_free_spec [OF D(2,3) D(5) [OF g]] by blast
  have "pbuf_inv ((pb s)\<lparr>ppools := m\<rparr>)" by (rule pbuf_inv_other_pool [OF D(1) m(2), of MEMP_IGMP_GROUP]) (auto simp: m(3))
  then show ?thesis
    using m(1,3) D(5) by (intro exI [of _ m]) (auto simp: free_group_def regrouped_def on_igmp_def on_world_def igmp_memory_def)
qed

lemma remove_spec:
  assumes "glist (igmp_of s) x (xs @ g # post)" "xs \<noteq> []" "g \<notin> set xs" "igmp_mem (igmp_of s) g = Some gr" "igmp_mem (igmp_of s) (last xs) = Some yr"
  shows "remove_loop g x s = ret (ERR_OK, gput (last xs) (yr\<lparr>group_next := group_next gr\<rparr>) s)"
  using assms
proof (induction xs arbitrary: x)
  case (Cons y xs)
  then obtain r where r: "x = y" "y \<noteq> 0" "igmp_mem (igmp_of s) y = Some r" "glist (igmp_of s) (group_next r) (xs @ g # post)"
    by (auto split: option.splits)
  have gg: "gget y s = ret r" by (rule gget_ret [OF r(2,3)])
  show ?case
  proof (cases xs)
    case Nil
    then have "group_next r = g" "g \<noteq> 0" using r(4) by auto
    then show ?thesis using Nil r gg Cons.prems(4,5) by (subst remove_loop.simps) (simp add: gget_def)
  next
    case (Cons z zs)
    then have "group_next r = z" using r(4) by auto
    then show ?thesis using Cons r gg Cons.IH [OF r(4)] Cons.prems by (subst remove_loop.simps) auto
  qed
qed simp

lemma unlink_glist:
  assumes "glist w x (xs @ g # post)" "xs \<noteq> []" "distinct (xs @ g # post)" "igmp_mem w g = Some gr" "igmp_mem w (last xs) = Some yr"
  shows "glist (w\<lparr>igmp_mem := (igmp_mem w)(last xs \<mapsto> yr\<lparr>group_next := group_next gr\<rparr>, g := None)\<rparr>) x (xs @ post)"
  using assms
proof (induction xs arbitrary: x)
  case (Cons y xs)
  then obtain r where r: "x = y" "y \<noteq> 0" "igmp_mem w y = Some r" "glist w (group_next r) (xs @ g # post)"
    by (auto split: option.splits)
  show ?case
  proof (cases "xs = []")
    case True
    let ?w = "w\<lparr>igmp_mem := (igmp_mem w)(y \<mapsto> yr\<lparr>group_next := group_next gr\<rparr>, g := None)\<rparr>"
    have "glist w (group_next gr) post" using True r(4) Cons.prems(4) by auto
    moreover have "glist ?w k post = glist w k post" for k by (rule glist_cong) (use Cons.prems(3) True in auto)
    ultimately show ?thesis using True r(1,2) Cons.prems(3) by (auto simp: fun_upd_def)
  next
    case False
    then have "last xs \<in> set xs" by simp
    then have "y \<noteq> last xs" "y \<noteq> g" using Cons.prems(3) by auto
    then show ?thesis using False r Cons.IH [OF r(4) False] Cons.prems(3-5) by auto
  qed
qed simp

lemma members_okD: "members_ok w L \<Longrightarrow> x \<in> set (tl (L k)) \<Longrightarrow> igmp_mem w x = Some r \<Longrightarrow> group_ok (allsystems w) r"
  by (cases "L k") (auto simp: members_ok_def dest: spec [of _ k])

text \<open>The group is unlinked and its struct is free.\<close>

lemma delete_group:
  assumes ok: "igmp_ok w L" and ln: "L n = xs @ g # post" and xs: "xs \<noteq> []" and g: "igmp_mem w g = Some gr" and y: "igmp_mem w (last xs) = Some yr"
  shows "igmp_ok (w\<lparr>igmp_mem := (igmp_mem w)(last xs \<mapsto> yr\<lparr>group_next := group_next gr\<rparr>, g := None)\<rparr>) (L(n := xs @ post))"
proof -
  define v where "v = w\<lparr>igmp_mem := (igmp_mem w)(last xs \<mapsto> yr\<lparr>group_next := group_next gr\<rparr>, g := None)\<rparr>"
  define M where "M = L(n := xs @ post)"
  have l: "igmp_lists w L" and m: "members_ok w L" and d: "dom (igmp_mem w) = (\<Union>n. set (L n))" using ok by (simp_all add: igmp_ok_def)
  note lD = igmp_listsD [OF l]
  have v: "netif_igmp_data v = netif_igmp_data w" "allsystems v = allsystems w" by (simp_all add: v_def)
  have mem: "igmp_mem v x = (if x = g then None else if x = last xs then Some (yr\<lparr>group_next := group_next gr\<rparr>) else igmp_mem w x)" for x by (simp add: v_def)
  have yL: "last xs \<in> set xs" using xs by simp
  have dn: "distinct (xs @ g # post)" using lD(2) [of n] ln by simp
  have Lk: "g \<in> set (L n)" "last xs \<in> set (L n)" using ln yL by auto
  then have gk: "g \<notin> set (L k)" "last xs \<notin> set (L k)" if "k \<noteq> n" for k using lD(4) that by blast+
  have M: "M n = xs @ post" "\<And>k. k \<noteq> n \<Longrightarrow> M k = L k" by (simp_all add: M_def)
  have sub: "set (M k) \<subseteq> set (L k)" "g \<notin> set (M k)" for k using M ln gk(1) [of k] dn by (cases "k = n", auto)+
  have ad: "addr_of v x = addr_of w x" if "x \<noteq> g" for x using that y by (simp add: addr_of_def mem)
  have gl: "glist v (netif_igmp_data w k) (M k)" for k
  proof (cases "k = n")
    case True
    show ?thesis unfolding True M(1) v_def by (rule unlink_glist [OF _ xs dn g y]) (use lD(1) [of n] ln in simp)
  next
    case False
    have "glist v j (L k) = glist w j (L k)" for j by (rule glist_cong) (use gk [OF False] in \<open>auto simp: mem\<close>)
    then show ?thesis using lD(1) [of k] M(2) [OF False] by simp
  qed
  have dist: "distinct (map (addr_of v) (M k))" for k
  proof -
    have "map (addr_of v) (M k) = map (addr_of w) (M k)" by (rule map_cong [OF refl], rule ad) (use sub(2) in auto)
    moreover have "distinct (map (addr_of w) (M k))" using lD(3) [of k] lD(3) [of n] ln M by (cases "k = n") auto
    ultimately show ?thesis by metis
  qed
  have dis: "set (M k) \<inter> set (M j) = {}" if "k \<noteq> j" for k j using sub(1) [of k] sub(1) [of j] lD(4) that by blast
  have "g \<notin> (\<Union>k\<in>- {n}. set (L k))" using gk(1) by auto
  then have dom: "dom (igmp_mem v) = (\<Union>k. set (M k))"
    using d ln dn yL unfolding M_def UN_lists(1) UN_lists(2) [of L n] v_def by auto
  have mok: "addr_of v (hd (M k)) = allsystems v \<and> (\<forall>x\<in>set (tl (M k)). \<forall>r. igmp_mem v x = Some r \<longrightarrow> group_ok (allsystems v) r)" if ne: "M k \<noteq> []" for k
  proof -
    have k: "hd (M k) = hd (L k)" "L k \<noteq> []" "set (tl (M k)) \<subseteq> set (tl (L k))" using ne ln xs M by (cases "k = n", auto)+
    have "hd (M k) \<noteq> g" using ne sub(2) [of k] hd_in_set by metis
    then have "addr_of v (hd (M k)) = allsystems w" using m k(2) unfolding k(1) by (simp add: ad members_ok_def)
    moreover have "group_ok (allsystems w) r" if "x \<in> set (tl (M k))" "igmp_mem v x = Some r" for x r
    proof (cases "x = last xs")
      case True
      then have "group_ok (allsystems w) yr" using members_okD [OF m] that(1) y k(3) by blast
      then show ?thesis using that(2) True by (auto simp: mem group_ok_def split: if_splits)
    next
      case False
      then show ?thesis using members_okD [OF m] that k(3) by (metis mem option.distinct(1) subsetD)
    qed
    ultimately show ?thesis by (simp add: v(2))
  qed
  show ?thesis
    unfolding v_def [symmetric] M_def [symmetric] igmp_ok_def igmp_lists_def members_ok_def v(1) using gl dist dis dom mok by blast
qed

end
