(* ===== verification/Igmp_Send.thy ===== *)
theory Igmp_Send
  imports Igmp_Groups Header_Bytes
begin

text \<open>
  The messages of IGMP (RFC 2236) as bytes, from \<open>igmp_send\<close> down to the driver: a header of IPv4 with the
  router alert option (RFC 2113), to the Ethernet address of the group.
\<close>

definition igmp_message :: "u8 \<Rightarrow> u32 \<Rightarrow> u8 list" where
  "igmp_message type a = [type, 0] @ mem16 (internet_checksum ([type, 0, 0, 0] @ memory_bytes a)) @ memory_bytes a"

definition alert_header :: "u16 \<Rightarrow> u16 \<Rightarrow> u32 \<Rightarrow> u32 \<Rightarrow> u8 list" where
  "alert_header len ident src dst =
     [0x46, 0] @ be16_bytes len @ be16_bytes ident @ [0, 0] @ [IGMP_TTL] @ [IP_PROTO_IGMP] @ [0, 0] @ memory_bytes src @ memory_bytes dst @ [0x94, 0x04, 0, 0]"

definition mcast_mac :: "u32 \<Rightarrow> netif \<Rightarrow> u8 list" where
  "mcast_mac a ni = (if ip4_addr_isbroadcast_u32 a ni then ethbroadcast
     else [0x01, 0x00, 0x5e, memory_bytes a ! 1 AND 0x7f, memory_bytes a ! 2, memory_bytes a ! 3])"

lemma length_mcast_mac [simp]: "length (mcast_mac a ni) = 6" "length (igmp_message type a) = 8"
  by (simp_all add: mcast_mac_def ethbroadcast_def igmp_message_def)

subsection \<open>Through IPv4\<close>

lemma sent_stored:
  assumes "t = s\<lparr>pb := (pb s)\<lparr>pbufs := (pbufs (pb s))(p \<mapsto> b\<lparr>pb_payload := a, pb_len := l, pb_tot_len := k\<rparr>), bytes := bts\<rparr>, world := w\<rparr>"
    and "pbufs (pb s) p = Some b" and "sent p t s'"
  shows "sent p s s'"
proof -
  from assms(3) obtain b' a' l' k' bts' w' where "pbufs (pb t) p = Some b'"
    and s': "s' = t\<lparr>pb := (pb t)\<lparr>pbufs := (pbufs (pb t))(p \<mapsto> b'\<lparr>pb_payload := a', pb_len := l', pb_tot_len := k'\<rparr>), bytes := bts'\<rparr>, world := w'\<rparr>"
    by (auto simp: sent_def)
  then have "b' = b\<lparr>pb_payload := a, pb_len := l, pb_tot_len := k\<rparr>" using assms(1) by simp
  then show ?thesis
    unfolding sent_def s' assms(1)
    by (intro exI [of _ b] exI [of _ a'] exI [of _ l'] exI [of _ k'] exI [of _ bts'] exI [of _ w']) (simp add: assms(2))
qed

lemma read_alert_hdr:
  "read_bytes a 20 (pb (write_ip4_hdr a 24 n src dst IGMP_TTL 0 IP_PROTO_IGMP s)) = take 20 (alert_header (of_nat n) (ip_id (world s)) src dst)"
proof -
  have "take 20 (alert_header (of_nat n) (ip_id (world s)) src dst) = [0x46, 0] @ be16_bytes (of_nat n) @ be16_bytes (ip_id (world s)) @ [0, 0]
      @ [IGMP_TTL] @ [IP_PROTO_IGMP] @ [0, 0] @ memory_bytes src @ memory_bytes dst"
    by (simp add: alert_header_def)
  then show ?thesis
    unfolding hdr_split20
    by (simp add: write_ip4_hdr_def Let_def mem16_htons read_write_bytes_same read_write_bytes_other store_bytes_def del: One_nat_def)
      simp
qed

lemma alert_bytes: "mem16 (PP_HTONS ROUTER_ALERT) @ mem16 0 = [0x94, 0x04, 0, 0]"
proof -
  have "(37892 :: u8) = 4" by (simp add: word_eq_iff_unsigned)
  then show ?thesis by (simp add: ROUTER_ALERT_def PP_HTONS_lwip mem16_htons be16_bytes_def)
qed

lemma etharp_output_mcast:
  assumes "ip4_addr_ismulticast a" "ether_netif s n ni" "q \<noteq> 0"
  shows "etharp_output nc n q a s = ethernet_output nc n q (hwaddr ni) (mcast_mac a ni) ETHTYPE_IP s"
  using assms by (simp add: etharp_output_def mcast_mac_def ether_netif_def nget_def Let_def)

lemma alert_out:
  fixes s :: "'v mcast"
  assumes drv: "driver nc transmit" and out: "netif_output ic = etharp_output nc"
    and c: "packet (pb s) p (p # xs)" and b: "pbufs (pb s) p = Some b" "pb_ref b = 1" and r: "room 38 (pb s) p (p # xs)"
    and ni: "ether_netif s n ni" and mtu: "mtu ni = 0 \<or> 24 + chain_len (pb s) (p # xs) \<le> unat (mtu ni)" and mc: "ip4_addr_ismulticast dst"
  defines "T \<equiv> transmit n (frame (mcast_mac dst ni) (hwaddr ni) ETHTYPE_IP
      (alert_header (of_nat (24 + chain_len (pb s) (p # xs))) (ip_id (world s)) (ip_addr ni) dst @ chain_data (pb s) (p # xs)))
      ((world s)\<lparr>ip_id := ip_id (world s) + 1\<rparr>)"
  shows "\<exists>s'. igmp_ip_output_if ic p (ip_addr ni) dst n s = ret (fst T, s') \<and> world s' = snd T \<and> sent p s s'"
proof -
  note rD = roomD [OF r b(1)]
  define b4 where "b4 = b\<lparr>pb_payload := pb_payload b - 4, pb_len := pb_len b + 4, pb_tot_len := pb_tot_len b + 4\<rparr>"
  define s4 where "s4 = store_bytes (pb_payload b - 4) [0x94, 0x04, 0, 0] (s\<lparr>pb := pset p b4 (pb s)\<rparr>)"
  define b24 where "b24 = b4\<lparr>pb_payload := pb_payload b4 - 20, pb_len := pb_len b4 + 20, pb_tot_len := pb_tot_len b4 + 20\<rparr>"
  define t where "t = write_ip4_hdr (pb_payload b4 - 20) 24 (pb_tot_len b4 + 20) (ip_addr ni) dst IGMP_TTL 0 IP_PROTO_IGMP (s4\<lparr>pb := pset p b24 (pb s4)\<rparr>)"
  have p0: "p \<noteq> 0" and tot: "pb_tot_len b = chain_len (pb s) (p # xs)" using c b by (auto simp: packet_def part_len_def)
  have s4: "pbufs (pb s4) = (pbufs (pb s))(p \<mapsto> b4)" "world s4 = world s" "netifs s4 = netifs s" by (simp_all add: s4_def store_bytes_def)
  have "room (4 + 34) (pb s) p (p # xs)" using r by simp
  note put4 = put_header [OF c b(1) this, of "pb s4", folded b4_def, OF s4(1)]
  have un4: "\<forall>x. x < pb_payload b - 4 \<or> pb_payload b \<le> x \<longrightarrow> bytes (pb s4) x = bytes (pb s) x"
  proof (intro allI impI)
    fix x assume x: "x < pb_payload b - 4 \<or> pb_payload b \<le> x"
    then have "x < pb_payload b - 4 \<or> pb_payload b - 4 + length [0x94, 0x04, 0, 0 :: u8] \<le> x" using rD(3) by auto
    then show "bytes (pb s4) x = bytes (pb s) x" unfolding s4_def by (simp only: bytes_store_other) simp
  qed
  have ra: "read_bytes (pb_payload b - 4) 4 (pb s4) = [0x94, 0x04, 0, 0]" by (simp add: s4_def read_write_bytes_same)
  have st: "stored (s4\<lparr>pb := pset p b24 (pb s4)\<rparr>) ((world s)\<lparr>ip_id := ip_id (world s) + 1\<rparr>) t"
    using write_ip4_hdr_stored [of "s4\<lparr>pb := pset p b24 (pb s4)\<rparr>"] unfolding t_def by (simp add: s4(2))
  then have tf: "pbufs (pb t) = (pbufs (pb s4))(p \<mapsto> b24)" "world t = (world s)\<lparr>ip_id := ip_id (world s) + 1\<rparr>" "netifs t = netifs s"
    by (auto simp: stored_def s4(3))
  have b4: "pbufs (pb s4) p = Some b4" by (simp add: s4(1))
  have "room (20 + 14) (pb s4) p (p # xs)" using put4(3) [OF un4] by simp
  note put = put_header [OF put4(1) [OF un4] b4 this, of "pb t", folded b24_def, OF tf(1)]
  have r4: "20 \<le> pb_payload b4" using rD(3) by (simp add: b4_def)
  have un: "\<forall>x. x < pb_payload b4 - 20 \<or> pb_payload b4 \<le> x \<longrightarrow> bytes (pb t) x = bytes (pb s4) x"
    unfolding t_def using r4 by (auto simp: write_ip4_hdr_other)
  have len: "pb_tot_len b4 + 20 = 24 + chain_len (pb s) (p # xs)" by (simp add: b4_def tot)
  have hdr: "read_bytes (pb_payload b4 - 20) 20 (pb t) = take 20 (alert_header (of_nat (24 + chain_len (pb s) (p # xs))) (ip_id (world s)) (ip_addr ni) dst)"
    unfolding t_def len read_alert_hdr by (simp add: s4(2))
  have data: "chain_data (pb t) (p # xs) = alert_header (of_nat (24 + chain_len (pb s) (p # xs))) (ip_id (world s)) (ip_addr ni) dst @ chain_data (pb s) (p # xs)"
    unfolding put(2) [OF un] hdr put4(2) [OF un4] ra by (simp add: alert_header_def)
  have e: "ether_netif t n ni" using ni tf(3) by (simp add: ether_netif_def)
  have hw: "length (hwaddr ni) = 6" using ni by (simp add: ether_netif_def ETH_HWADDR_LEN_def)
  have hr: "headroom (pb t) p (p # xs)" using put(3) [OF un] by (simp add: room_headroom)
  have T: "transmit n (frame (mcast_mac dst ni) (hwaddr ni) ETHTYPE_IP (chain_data (pb t) (p # xs))) (world t) = T" unfolding T_def data tf(2) ..
  obtain s' where s': "etharp_output nc n p dst t = ret (fst T, s')" "sent p t s'" "world s' = snd T"
    using ethernet_output_frame [OF drv put(1) [OF un] e length_mcast_mac(1) hw hr, of dst ni ETHTYPE_IP] etharp_output_mcast [OF mc e p0, of nc]
    unfolding T by metis
  have ah4: "on_pb (pbuf_add_header p 4) s = ret (0, s\<lparr>pb := pset p b4 (pb s)\<rparr>)"
    using add_header_ok [OF c b(1), of 4] rD(1-4) by (simp add: on_pb_def b4_def)
  have ah20: "on_pb (pbuf_add_header p IP_HLEN) s4 = ret (0, s4\<lparr>pb := pset p b24 (pb s4)\<rparr>)"
    using add_header_ok [OF put4(1) [OF un4] b4, of 20] roomD [OF put4(3) [OF un4] b4] by (simp add: on_pb_def b24_def IP_HLEN_def)
  have g: "pget p (pb s) = ret b" "pget p (pb s4) = ret b4" "pget p (pb t) = ret b24" "nget n t = ret ni" "nget n s = ret ni"
    using p0 b b4 tf(1) ether_netifD(1,2) [OF e] ether_netifD(1,2) [OF ni] by (simp_all add: pget_def nget_def)
  have g': "pget p (pb (s\<lparr>pb := pset p b4 (pb s)\<rparr>)) = ret b4" "pget p (pb (s4\<lparr>pb := pset p b24 (pb s4)\<rparr>)) = ret b24" using p0 by (simp_all add: pget_def)
  have opt: "output_options p (mem16 (PP_HTONS ROUTER_ALERT) @ mem16 0) ROUTER_ALERTLEN s = ret (ERR_OK, 24, s4)"
    using ah4 g'(1) unfolding alert_bytes by (simp add: output_options_def ROUTER_ALERTLEN_def IP_HLEN_MAX_def IP_HLEN_def s4_def b4_def)
  have w: "write_ip4_hdr (pb_payload b24) 24 (pb_tot_len b24) (ip_addr ni) dst IGMP_TTL 0 IP_PROTO_IGMP (s4\<lparr>pb := pset p b24 (pb s4)\<rparr>) = t"
    by (simp add: t_def b24_def)
  have l: "pb_len b24 \<ge> IP_HLEN" "\<not> (mtu ni \<noteq> 0 \<and> pb_tot_len b24 > unat (mtu ni))" using mtu len by (auto simp: b24_def IP_HLEN_def)
  have "igmp_ip_output_if ic p (ip_addr ni) dst n s = etharp_output nc n p dst t"
    unfolding igmp_ip_output_if_def Let_def ip4_output_if_opt_def ip4_output_if_opt_src_def
    using b(2) g g' opt ah20 w l out by (auto simp: addr_or_any_def)
  moreover have "sent p s s'"
  proof -
    obtain bts where "t = s\<lparr>pb := (pb s)\<lparr>pbufs := (pbufs (pb s))(p \<mapsto> b24), bytes := bts\<rparr>, world := (world s)\<lparr>ip_id := ip_id (world s) + 1\<rparr>\<rparr>"
      using st by (auto simp: stored_def s4_def store_bytes_def write_bytes_def pset_def)
    moreover have "b24 = b\<lparr>pb_payload := pb_payload b - 4 - 20, pb_len := pb_len b + 4 + 20, pb_tot_len := pb_tot_len b + 4 + 20\<rparr>"
      by (simp add: b24_def b4_def)
    ultimately show ?thesis using sent_stored [OF _ b(1) s'(2)] by metis
  qed
  ultimately show ?thesis using s' by auto
qed

subsection \<open>A message of our own\<close>

definition igmp_frame :: "u8 \<Rightarrow> u32 \<Rightarrow> u32 \<Rightarrow> netif \<Rightarrow> u16 \<Rightarrow> u8 list" where
  "igmp_frame type a dst ni ident = frame (mcast_mac dst ni) (hwaddr ni) ETHTYPE_IP (alert_header 32 ident (ip_addr ni) dst @ igmp_message type a)"

text \<open>The stores of \<open>igmp_send\<close> at \<open>a\<close>.\<close>

definition message_stores :: "nat \<Rightarrow> u8 \<Rightarrow> u32 \<Rightarrow> 'v mcast \<Rightarrow> 'v mcast" where
  "message_stores a type ga s =
     (let s = store_bytes (a + 2) (mem16 0) (store_bytes (a + 1) [0] (store_bytes a [type] (store_bytes (a + 4) (memory_bytes ga) s)))
      in store_bytes (a + 2) (mem16 (inet_chksum a IGMP_MINLEN (pb s))) s)"

lemma message_bytes: "read_bytes a 8 (pb (message_stores a type ga s)) = igmp_message type ga"
proof -
  let ?t = "store_bytes (a + 2) (mem16 0) (store_bytes (a + 1) [0] (store_bytes a [type] (store_bytes (a + 4) (memory_bytes ga) s)))"
  have split: "read_bytes a 8 u = read_bytes a 1 u @ read_bytes (a + 1) 1 u @ read_bytes (a + 2) 2 u @ read_bytes (a + 4) 4 u" for u
    using read_bytes_append [of a 1 7 u] read_bytes_append [of "a + 1" 1 6 u] read_bytes_append [of "a + 2" 2 4 u]
    by (simp add: add.assoc del: add_2_eq_Suc' One_nat_def)
  have rd: "read_bytes a 8 (pb ?t) = [type, 0, 0, 0] @ memory_bytes ga"
    unfolding split by (simp add: read_write_bytes_same read_write_bytes_other store_bytes_def del: One_nat_def)
  have "inet_chksum a 8 (pb ?t) = internet_checksum ([type, 0, 0, 0] @ memory_bytes ga)"
  proof -
    have "of_nat (unat (LWIP_CHKSUM a 8 (pb ?t))) = LWIP_CHKSUM a 8 (pb ?t)" by simp
    moreover have "unat (LWIP_CHKSUM a 8 (pb ?t)) = ones_sum (word_sum (read_bytes a 8 (pb ?t)))" by (rule LWIP_CHKSUM_spec) simp
    ultimately show ?thesis using rd unfolding inet_chksum_def internet_checksum_def by metis
  qed
  then show ?thesis
    unfolding split message_stores_def Let_def IGMP_MINLEN_def igmp_message_def
    by (simp add: read_write_bytes_same read_write_bytes_other store_bytes_def del: One_nat_def)
qed

lemma message_stored: "stored s (world s) (message_stores a type ga s)"
  unfolding message_stores_def Let_def by (intro stored_intros(1,2))

lemma gput_store: "gput g r (store_bytes a bs s) = store_bytes a bs (gput g r s)"
  by (simp add: gput_def on_igmp_def on_world_def store_bytes_def)

lemma gput_pb: "gput g r (s\<lparr>pb := t\<rparr>) = s\<lparr>pb := t, world := world (gput g r s)\<rparr>"
  by (simp add: gput_def on_igmp_def on_world_def)

lemma igmp_send_ok:
  fixes s :: "'v mcast"
  assumes drv: "driver nc transmit" and out: "netif_output ic = etharp_output nc" and inv: "pbuf_inv (pb s)" and lim: "ram (pheap (pb s)) + MEM_SIZE_ALIGNED \<le> 2 ^ 32"
    and ni: "ether_netif s n ni" and mtu: "mtu ni = 0 \<or> 32 \<le> unat (mtu ni)" and g: "g \<noteq> 0" "igmp_mem (igmp_of s) g = Some gr"
    and type: "type = IGMP_V2_MEMB_REPORT \<or> type = IGMP_LEAVE_GROUP"
  defines "dst \<equiv> if type = IGMP_V2_MEMB_REPORT then group_address gr else allrouters (igmp_of s)"
  assumes mc: "ip4_addr_ismulticast dst"
  defines "w \<equiv> if type = IGMP_V2_MEMB_REPORT then world (gput g (gr\<lparr>last_reporter_flag := True\<rparr>) s) else world s"
  shows "\<exists>s'. igmp_send ic n g type s = ret s' \<and> restored s s' \<and> others_kept (pb s) (pb s')
    \<and> (\<exists>p t. pbuf_alloc PBUF_TRANSPORT IGMP_MINLEN PBUF_RAM (pb s) = ret (p, t)
         \<and> world s' = (if p = 0 then world s else snd (transmit n (igmp_frame type (group_address gr) dst ni (ip_id (world s))) (w\<lparr>ip_id := ip_id (world s) + 1\<rparr>))))"
proof -
  obtain p t where t: "pbuf_alloc PBUF_TRANSPORT 8 PBUF_RAM (pb s) = ret (p, t)" "pbuf_inv t" "ram (pheap t) = ram (pheap (pb s))"
    "if p = 0 then pbufs t = pbufs (pb s)
       else \<exists>payload e. pbufs (pb s) p = None \<and> pbufs t = (pbufs (pb s))(p \<mapsto> new_pbuf payload 8 8 PBUF_RAM)
         \<and> p + SIZEOF_STRUCT_PBUF + layer_offset PBUF_TRANSPORT \<le> payload \<and> payload mod 4 = 0
         \<and> (p - SIZEOF_STRUCT_MEM - ram (pheap (pb s)), e) \<in> used_blocks (pheap t) \<and> payload + 8 \<le> ram (pheap (pb s)) + e"
    using alloc_ram_ok [OF inv, of 8 PBUF_TRANSPORT] by auto
  note al = alloc_ram_others [OF t(1)]
  show ?thesis
  proof (cases "p = 0")
    case True
    then have "igmp_send ic n g type s = ret (s\<lparr>pb := t\<rparr>)" using t(1) by (simp add: igmp_send_def on_pb_def IGMP_MINLEN_def)
    then show ?thesis using True t al by (auto simp: restored_def IGMP_MINLEN_def)
  next
    case False
    then obtain a e where a: "pbufs (pb s) p = None" "pbufs t = (pbufs (pb s))(p \<mapsto> new_pbuf a 8 8 PBUF_RAM)" "p + SIZEOF_STRUCT_PBUF + 74 \<le> a"
      "(p - SIZEOF_STRUCT_MEM - ram (pheap (pb s)), e) \<in> used_blocks (pheap t)" "a + 8 \<le> ram (pheap (pb s)) + e"
      using t(4) by auto
    have a32: "a < 2 ^ 32" using used_block_end [OF _ a(4)] a(5) t(2) lim by (simp add: pbuf_inv_def)
    let ?b = "new_pbuf a 8 8 PBUF_RAM"
    define s1 where "s1 = (s\<lparr>pb := t\<rparr>)\<lparr>world := w\<rparr>"
    define s2 where "s2 = message_stores a type (group_address gr) s1"
    have st: "stored s1 w s2" using message_stored [of s1] unfolding s2_def by (simp add: s1_def)
    then have s2: "pbufs (pb s2) = pbufs t" "world s2 = w" "netifs s2 = netifs s" "pbuf_inv (pb s2)" "restored (s\<lparr>pb := t\<rparr>) s2" "others_kept t (pb s2)"
      using t(2) by (auto simp: stored_def s1_def restored_def others_kept_def)
    have bp: "pbufs (pb s2) p = Some ?b" "pb_ref ?b = 1" by (simp_all add: s2(1) a(2) new_pbuf_def)
    note pk = single_packet [OF bp(1) False, unfolded new_pbuf_def, simplified]
    have data: "chain_data (pb s2) [p] = igmp_message type (group_address gr)" using pk(4) message_bytes [of a type _ s1] by (simp add: s2_def)
    have room: "room 38 (pb s2) p [p]"
      using a(3) a32 by (simp add: room_def bp(1) pk(3) new_pbuf_def PBUF_TYPE_FLAG_STRUCT_DATA_CONTIGUOUS_def chain_addrs_def part_payload_def part_len_def list_all_iff)
    have ni2: "ether_netif s2 n ni" using ni s2(3) by (simp add: ether_netif_def)
    have len: "24 + chain_len (pb s2) [p] = 32" using pk(3) by simp
    have mtu': "mtu ni = 0 \<or> 24 + chain_len (pb s2) [p] \<le> unat (mtu ni)" using mtu by (simp add: pk(3))
    have idw: "ip_id w = ip_id (world s)" by (simp add: w_def gput_def on_igmp_def)
    define T where "T = transmit n (igmp_frame type (group_address gr) dst ni (ip_id (world s))) (w\<lparr>ip_id := ip_id (world s) + 1\<rparr>)"
    obtain s3 where s3: "igmp_ip_output_if ic p (ip_addr ni) dst n s2 = ret (fst T, s3)" "world s3 = snd T" "sent p s2 s3"
      using alert_out [OF drv out pk(1) bp room ni2 mtu' mc] unfolding data s2(2) idw len of_nat_numeral T_def igmp_frame_def by auto
    note sD = sentD [OF s3(3)]
    have l3: "pbuf_inv (pb s3)" "linked (pb s3) p [p]" "ref_of (pb s3) p = 1"
      unfolding sD(5,6) using sD(4) s2(4) pk(2) bp by (simp_all add: ref_of_def)
    obtain m u where u: "pbuf_free p (pb s3) = ret (m, u)" "pbuf_inv u" "pbufs u = (\<lambda>x. if x \<in> set [p] then None else pbufs (pb s3) x)"
      "ram (pheap u) = ram (pheap (pb s3))"
      using free_all_ok [OF l3(1,2)] l3(3) by auto
    have keep: "others_kept (pb s3) u" using free_others [OF l3(1,2) _ u(1)] l3(3) by simp
    have run: "pget p t = ret ?b" "nget n (s\<lparr>pb := t\<rparr>) = ret ni" "gget g (s\<lparr>pb := t\<rparr>) = ret gr"
      using False a(2) ether_netifD(1,2) [OF ni] g by (simp_all add: pget_def nget_def gget_def)
    have "igmp_send ic n g type s = bind_run (igmp_ip_output_if ic p (ip_addr ni) dst n s2) (\<lambda>(_, s). free_pbuf p s)"
    proof (cases "type = IGMP_V2_MEMB_REPORT")
      case True
      then have "s1 = gput g (gr\<lparr>last_reporter_flag := True\<rparr>) (s\<lparr>pb := t\<rparr>)" by (simp add: s1_def w_def gput_pb)
      then show ?thesis using t(1) False run True
        by (simp add: igmp_send_def on_pb_def [of "pbuf_alloc PBUF_TRANSPORT _ _"] IGMP_MINLEN_def SIZEOF_IGMP_MSG_def new_pbuf_def
            s2_def message_stores_def dst_def gput_store bind_run_assoc split_def Let_def)
    next
      case False
      then show ?thesis using t(1) \<open>p \<noteq> 0\<close> run type
        by (simp add: igmp_send_def on_pb_def [of "pbuf_alloc PBUF_TRANSPORT _ _"] IGMP_MINLEN_def SIZEOF_IGMP_MSG_def new_pbuf_def
            s1_def s2_def message_stores_def dst_def w_def bind_run_assoc split_def Let_def)
    qed
    then have "igmp_send ic n g type s = ret (s3\<lparr>pb := u\<rparr>)" using s3(1) u(1) by (simp add: free_pbuf_def on_pb_def)
    moreover have "restored s (s3\<lparr>pb := u\<rparr>)"
      using u(2-4) sD s2(1,5) a(1,2) t(3) by (auto simp: restored_def fun_eq_iff)
    moreover have "others_kept (pb s) u"
      using al s2(6) sent_others [OF s3(3)] keep others_kept_trans by blast
    ultimately show ?thesis using s3(2) t(1) False unfolding T_def by (intro exI [of _ "s3\<lparr>pb := u\<rparr>"]) (auto simp: IGMP_MINLEN_def)
  qed
qed

end
