(* ===== verification/Igmp_Machine.thy ===== *)
theory Igmp_Machine
  imports Igmp_Send
begin

text \<open>
  What the operations of IGMP do to the groups: timers are started, stopped and counted down, reports are sent, and
  everything else stays as it was.
\<close>

subsection \<open>Changes of the groups\<close>

text \<open>The group at \<open>y\<close> changes as \<open>R y\<close> says; the lists stay.\<close>

definition changed_by :: "(nat \<Rightarrow> igmp_group \<Rightarrow> igmp_group \<Rightarrow> bool) \<Rightarrow> 'v igmp \<Rightarrow> 'v igmp \<Rightarrow> bool" where
  "changed_by R w w' \<longleftrightarrow> allsystems w' = allsystems w \<and> allrouters w' = allrouters w \<and> netif_igmp_data w' = netif_igmp_data w
     \<and> (\<forall>y. rel_option (R y) (igmp_mem w y) (igmp_mem w' y))"

definition kept :: "u32 \<Rightarrow> igmp_group \<Rightarrow> igmp_group \<Rightarrow> bool" where
  "kept all g g' \<longleftrightarrow> group_next g' = group_next g \<and> group_address g' = group_address g \<and> group_use g' = group_use g
     \<and> (group_ok all g \<longrightarrow> group_ok all g')"

lemma changed_by_mono: "changed_by R w w' \<Longrightarrow> (\<And>y g g'. R y g g' \<Longrightarrow> Q y g g') \<Longrightarrow> changed_by Q w w'"
  by (auto simp: changed_by_def intro: option.rel_mono_strong)

lemma changed_by_trans:
  assumes "changed_by R w v" "changed_by Q v u" "\<And>y g g' g''. R y g g' \<Longrightarrow> Q y g' g'' \<Longrightarrow> P y g g''"
  shows "changed_by P w u"
proof -
  have "rel_option (P y) (igmp_mem w y) (igmp_mem u y)" for y
    using assms(1,2) unfolding changed_by_def by (cases "igmp_mem v y") (auto simp: option_rel_Some2 dest!: spec [of _ y] intro: assms(3) elim!: option.rel_cases)
  then show ?thesis using assms(1,2) by (simp add: changed_by_def)
qed

lemma changed_by_refl: "(\<And>y g. R y g g) \<Longrightarrow> changed_by R w w"
  by (simp add: changed_by_def option.rel_refl)

lemma changed_by_glist:
  assumes "changed_by R w w'" "\<And>y g g'. R y g g' \<Longrightarrow> group_next g' = group_next g"
  shows "glist w' x xs = glist w x xs"
proof (rule glist_cong)
  fix y
  show "map_option group_next (igmp_mem w' y) = map_option group_next (igmp_mem w y)"
    using assms unfolding changed_by_def by (cases "igmp_mem w y"; cases "igmp_mem w' y") (auto dest!: spec [of _ y])
qed

lemma changed_by_addr:
  assumes "changed_by R w w'" "\<And>y g g'. R y g g' \<Longrightarrow> group_address g' = group_address g"
  shows "addr_of w' = addr_of w"
proof
  fix y
  show "addr_of w' y = addr_of w y"
    using assms unfolding changed_by_def addr_of_def by (cases "igmp_mem w y"; cases "igmp_mem w' y") (auto dest!: spec [of _ y])
qed

lemma changed_by_at:
  assumes "changed_by R w w'"
  shows "igmp_mem w y = None \<Longrightarrow> igmp_mem w' y = None" "igmp_mem w y = Some g \<Longrightarrow> \<exists>g'. igmp_mem w' y = Some g' \<and> R y g g'"
proof -
  have r: "rel_option (R y) (igmp_mem w y) (igmp_mem w' y)" using assms by (simp add: changed_by_def)
  show "igmp_mem w' y = None" if "igmp_mem w y = None" using r that by simp
  show "\<exists>g'. igmp_mem w' y = Some g' \<and> R y g g'" if "igmp_mem w y = Some g" using r that by (simp add: option_rel_Some1)
qed

lemma changed_by_dom:
  assumes "changed_by R w w'"
  shows "dom (igmp_mem w') = dom (igmp_mem w)"
proof (rule set_eqI)
  fix y
  show "y \<in> dom (igmp_mem w') \<longleftrightarrow> y \<in> dom (igmp_mem w)"
    using changed_by_at [OF assms, of y] by (cases "igmp_mem w y") auto
qed

lemma changed_by_ok:
  assumes ev: "changed_by (\<lambda>_. kept (allsystems w)) w w'" and ok: "igmp_ok w L"
  shows "igmp_ok w' L"
proof -
  have ad: "addr_of w' = addr_of w" and gl: "glist w' x xs = glist w x xs" for x xs
    using changed_by_addr [OF ev] changed_by_glist [OF ev] by (auto simp: kept_def)
  have f: "allsystems w' = allsystems w" "netif_igmp_data w' = netif_igmp_data w" using ev by (simp_all add: changed_by_def)
  have mem: "group_ok (allsystems w) gr'" if g: "g \<in> set (tl (L n))" "igmp_mem w' g = Some gr'" for n g gr'
  proof -
    have "rel_option (kept (allsystems w)) (igmp_mem w g) (igmp_mem w' g)" using ev by (simp add: changed_by_def)
    then obtain gr where "igmp_mem w g = Some gr" "kept (allsystems w) gr gr'" using g(2) by (cases "igmp_mem w g") auto
    then show ?thesis using ok g(1) members_okD [of w L g n gr] by (auto simp: igmp_ok_def kept_def)
  qed
  have "igmp_lists w' L" using ok unfolding igmp_ok_def igmp_lists_def ad gl f by simp
  moreover have "members_ok w' L" using ok mem unfolding igmp_ok_def members_ok_def ad f by simp
  ultimately show ?thesis using ok changed_by_dom [OF ev] by (simp add: igmp_ok_def)
qed

subsection \<open>Starting timers\<close>

text \<open>A query with the response time \<open>m\<close>: the timer runs, and not for longer than asked for.\<close>

definition delayed :: "u8 \<Rightarrow> igmp_group \<Rightarrow> igmp_group \<Rightarrow> bool" where
  "delayed m g g' \<longleftrightarrow>
     (if group_state g = IGMP_GROUP_IDLE_MEMBER \<or> group_state g = IGMP_GROUP_DELAYING_MEMBER \<and> (group_timer g = 0 \<or> ucast m < group_timer g)
      then \<exists>t. g' = g\<lparr>group_timer := t, group_state := IGMP_GROUP_DELAYING_MEMBER\<rparr> \<and> t \<noteq> 0 \<and> unat t \<le> max 1 (unat m - 1)
      else g' = g)"

lemma delayed_kept: "delayed m g g' \<Longrightarrow> kept all g g'"
  by (auto simp: delayed_def kept_def group_ok_def split: if_splits)

lemma start_timer_ok:
  assumes "g \<noteq> 0" "igmp_mem (igmp_of s) g = Some gr"
  shows "\<exists>t v. igmp_start_timer ig g m s = ret (on_igmp (\<lambda>w. w\<lparr>igmp_mem := (igmp_mem w)(g \<mapsto> gr\<lparr>group_timer := t\<rparr>), beyond := v\<rparr>) s)
    \<and> t \<noteq> 0 \<and> unat t \<le> max 1 (unat m - 1)"
proof (cases "2 < m")
  case True
  obtain r v where r: "LWIP_RAND ig (beyond (igmp_of s)) = (r, v)" by fastforce
  let ?t = "ucast (r mod ucast m) :: u16"
  have m: "2 < unat m" using True by (simp add: word_less_nat_alt)
  have "unat (ucast m :: u32) = unat m" 
    using unat_bound_u8 [of m] by (simp only: unsigned_ucast_eq) (simp add: take_bit_nat_eq_self del: unat_bound_u8)
  then have "unat (r mod ucast m) < unat m" using m by (simp add: unat_mod_distrib)
  moreover from this have "unat (r mod ucast m) < 256" using unat_bound_u8 [of m] by linarith
  ultimately have t: "unat ?t = unat (r mod ucast m)" "unat (r mod ucast m) < unat m"
    by (simp_all only: unsigned_ucast_eq) (simp_all add: take_bit_nat_eq_self del: unat_bound_u8 unat_bound_u32)
  have "igmp_start_timer ig g m s = ret (on_igmp (\<lambda>w. w\<lparr>igmp_mem := (igmp_mem w)(g \<mapsto> gr\<lparr>group_timer := if ?t = 0 then 1 else ?t\<rparr>), beyond := v\<rparr>) s)"
    using assms True r by (simp add: igmp_start_timer_def gget_def gput_def Let_def on_igmp_def on_world_def)
  moreover have "(if ?t = 0 then 1 else ?t) \<noteq> 0" "unat (if ?t = 0 then 1 else ?t) \<le> max 1 (unat m - 1)"
    using t by auto
  ultimately show ?thesis by blast
next
  case False
  have "igmp_start_timer ig g m s = ret (on_igmp (\<lambda>w. w\<lparr>igmp_mem := (igmp_mem w)(g \<mapsto> gr\<lparr>group_timer := 1\<rparr>), beyond := beyond (igmp_of s)\<rparr>) s)"
    using assms False by (simp add: igmp_start_timer_def gget_def gput_def on_igmp_def on_world_def)
  then show ?thesis by (intro exI [of _ 1] exI [of _ "beyond (igmp_of s)"]) simp
qed

lemma on_igmp_id: "on_igmp (\<lambda>_. igmp_of s) s = s"
  by (simp add: on_igmp_def on_world_def)

lemma delaying_ok:
  assumes g: "g \<noteq> 0" "igmp_mem (igmp_of s) g = Some gr"
  shows "\<exists>w'. igmp_delaying_member ig g m s = ret (on_igmp (\<lambda>_. w') s) \<and> changed_by (\<lambda>y a b. if y = g then delayed m a b else b = a) (igmp_of s) w'"
proof (cases "group_state gr = IGMP_GROUP_IDLE_MEMBER \<or> group_state gr = IGMP_GROUP_DELAYING_MEMBER \<and> (group_timer gr = 0 \<or> ucast m < group_timer gr)")
  case True
  obtain t v where t: "igmp_start_timer ig g m s = ret (on_igmp (\<lambda>w. w\<lparr>igmp_mem := (igmp_mem w)(g \<mapsto> gr\<lparr>group_timer := t\<rparr>), beyond := v\<rparr>) s)"
    "t \<noteq> 0" "unat t \<le> max 1 (unat m - 1)" using start_timer_ok [OF g] by blast
  let ?g = "gr\<lparr>group_timer := t, group_state := IGMP_GROUP_DELAYING_MEMBER\<rparr>"
  let ?w = "(igmp_of s)\<lparr>igmp_mem := (igmp_mem (igmp_of s))(g \<mapsto> ?g), beyond := v\<rparr>"
  have "igmp_delaying_member ig g m s = ret (on_igmp (\<lambda>_. ?w) s)"
    using True g t(1) by (simp add: igmp_delaying_member_def gget_def gput_def on_igmp_def on_world_def)
  moreover have "delayed m gr ?g" using True t(2,3) by (auto simp: delayed_def)
  then have "changed_by (\<lambda>y a b. if y = g then delayed m a b else b = a) (igmp_of s) ?w" using g(2) by (simp add: changed_by_def option.rel_refl)
  ultimately show ?thesis by blast
next
  case False
  then have "igmp_delaying_member ig g m s = ret (on_igmp (\<lambda>_. igmp_of s) s)"
    unfolding on_igmp_id using g by (auto simp: igmp_delaying_member_def gget_def)
  moreover have "delayed m gr gr" using False unfolding delayed_def by auto
  then have "changed_by (\<lambda>y a b. if y = g then delayed m a b else b = a) (igmp_of s) (igmp_of s)"
    using g(2) by (auto simp: changed_by_def rel_option_iff split: option.splits)
  ultimately show ?thesis by blast
qed

lemma delay_groups_ok:
  fixes s :: "'v mcast"
  assumes "glist (igmp_of s) x xs" "distinct xs"
  shows "\<exists>w'. delay_groups ig x m s = ret (on_igmp (\<lambda>_. w') s) \<and> changed_by (\<lambda>y a b. if y \<in> set xs then delayed m a b else b = a) (igmp_of s) w'"
  using assms
proof (induction xs arbitrary: x s)
  case Nil
  then have "delay_groups ig x m s = ret (on_igmp (\<lambda>_. igmp_of s) s)" unfolding on_igmp_id by (simp add: delay_groups.simps)
  then show ?case by (intro exI [of _ "igmp_of s"]) (simp add: changed_by_refl)
next
  case (Cons y xs)
  then obtain gr where gr: "x = y" "y \<noteq> 0" "igmp_mem (igmp_of s) y = Some gr" "glist (igmp_of s) (group_next gr) xs" by (auto split: option.splits)
  obtain w1 where w1: "igmp_delaying_member ig y m s = ret (on_igmp (\<lambda>_. w1) s)" "changed_by (\<lambda>z a b. if z = y then delayed m a b else b = a) (igmp_of s) w1"
    using delaying_ok [OF gr(2,3)] by blast
  obtain gr1 where gr1: "igmp_mem w1 y = Some gr1" "delayed m gr gr1" using changed_by_at(2) [OF w1(2) gr(3)] by auto
  have nx: "group_next gr1 = group_next gr" using delayed_kept [OF gr1(2)] by (simp add: kept_def)
  have "glist w1 (group_next gr) xs"
    unfolding changed_by_glist [OF w1(2)] using gr(4) delayed_kept by (subst changed_by_glist [OF w1(2)]) (auto simp: kept_def split: if_splits)
  then obtain w2 where w2: "delay_groups ig (group_next gr) m (on_igmp (\<lambda>_. w1) s) = ret (on_igmp (\<lambda>_. w2) (on_igmp (\<lambda>_. w1) s))"
    "changed_by (\<lambda>z a b. if z \<in> set xs then delayed m a b else b = a) w1 w2"
    using Cons.IH [of "on_igmp (\<lambda>_. w1) s" "group_next gr"] Cons.prems(2) by auto
  have "delay_groups ig x m s = ret (on_igmp (\<lambda>_. w2) s)"
    using gr(1,2) w1(1) gr1(1) nx w2(1) by (subst delay_groups.simps) (simp add: gget_def)
  moreover have "changed_by (\<lambda>z a b. if z \<in> set (y # xs) then delayed m a b else b = a) (igmp_of s) w2"
    by (rule changed_by_trans [OF w1(2) w2(2)]) (use Cons.prems(2) in \<open>auto split: if_splits\<close>)
  ultimately show ?case by blast
qed

subsection \<open>Sending\<close>

text \<open>The driver and the filters work on what is beyond the stack.\<close>

definition outside :: "(nat \<Rightarrow> u8 list \<Rightarrow> 'v igmp inet \<Rightarrow> err_t \<times> 'v igmp inet) \<Rightarrow> bool" where
  "outside transmit \<longleftrightarrow> (\<forall>n f w. \<exists>v. snd (transmit n f w) = w\<lparr>outer := (outer w)\<lparr>beyond := v\<rparr>\<rparr>)"

definition filters_ok :: "'v igmp_calls \<Rightarrow> bool" where
  "filters_ok ig \<longleftrightarrow> (\<forall>n f a act s. igmp_mac_filter ig n = Some f \<longrightarrow> (\<exists>v. f a act s = ret (on_igmp (\<lambda>w. w\<lparr>beyond := v\<rparr>) s)))"

text \<open>What messages of our own leave behind.\<close>

definition undisturbed :: "'v mcast \<Rightarrow> 'v mcast \<Rightarrow> bool" where
  "undisturbed s s' \<longleftrightarrow> restored s s' \<and> others_kept (pb s) (pb s')"

lemma quiet_trans: "undisturbed s t \<Longrightarrow> undisturbed t u \<Longrightarrow> undisturbed s u"
  using restored_trans others_kept_trans by (auto simp: undisturbed_def)

lemma quiet_igmp: "pbuf_inv (pb s) \<Longrightarrow> undisturbed s (on_igmp f s)"
  by (simp add: undisturbed_def restored_def others_kept_def on_igmp_def)

lemma quiet_gput: "pbuf_inv (pb s) \<Longrightarrow> undisturbed s (gput g gr s)"
  by (simp add: gput_def quiet_igmp)

text \<open>An interface that messages can leave through.\<close>

definition igmp_netif :: "'v mcast \<Rightarrow> nat \<Rightarrow> bool" where
  "igmp_netif s n \<longleftrightarrow> (\<exists>ni. ether_netif s n ni \<and> (mtu ni = 0 \<or> 32 \<le> unat (mtu ni)))"

definition sendable :: "'v mcast \<Rightarrow> bool" where
  "sendable s \<longleftrightarrow> pbuf_inv (pb s) \<and> ram (pheap (pb s)) + MEM_SIZE_ALIGNED \<le> 2 ^ 32"

lemma quietD:
  assumes "undisturbed s s'"
  shows "sendable s \<Longrightarrow> sendable s'" "igmp_netif s' n = igmp_netif s n" "netif_list s' = netif_list s" "netifs s' = netifs s" "pbufs (pb s') = pbufs (pb s)"
    "igmp_memory s \<Longrightarrow> dom (igmp_mem (igmp_of s')) \<subseteq> dom (igmp_mem (igmp_of s)) \<Longrightarrow> igmp_memory s'"
proof -
  show "sendable s \<Longrightarrow> sendable s'" "igmp_netif s' n = igmp_netif s n" "netif_list s' = netif_list s" "netifs s' = netifs s" "pbufs (pb s') = pbufs (pb s)"
    using assms by (auto simp: undisturbed_def restored_def sendable_def igmp_netif_def ether_netif_def)
  have "memp_pools (pb s') = memp_pools (pb s)" "pbuf_inv (pb s')"
    "(MEMP_IGMP_GROUP, a) \<in> memp_live (memp_pools (pb s')) (ppools (pb s')) \<longleftrightarrow> (MEMP_IGMP_GROUP, a) \<in> memp_live (memp_pools (pb s)) (ppools (pb s))" for a
    using assms other_pool_igmp unfolding undisturbed_def restored_def others_kept_def by blast+
  then show "igmp_memory s \<Longrightarrow> dom (igmp_mem (igmp_of s')) \<subseteq> dom (igmp_mem (igmp_of s)) \<Longrightarrow> igmp_memory s'"
    unfolding igmp_memory_def by blast
qed

text \<open>A message changes nothing but the flag of the last reporter.\<close>

definition flagged :: "nat \<Rightarrow> nat \<Rightarrow> igmp_group \<Rightarrow> igmp_group \<Rightarrow> bool" where
  "flagged g y a b \<longleftrightarrow> (if y = g then b = a\<lparr>last_reporter_flag := last_reporter_flag b\<rparr> else b = a)"

lemma send_quiet:
  fixes s :: "'v mcast"
  assumes io: "driver nc transmit" "outside transmit" "netif_output ic = etharp_output nc" and snd: "sendable s" and n: "igmp_netif s n"
    and g: "g \<noteq> 0" "igmp_mem (igmp_of s) g = Some gr" and ty: "type = IGMP_V2_MEMB_REPORT \<or> type = IGMP_LEAVE_GROUP"
    and mc: "ip4_addr_ismulticast (if type = IGMP_V2_MEMB_REPORT then group_address gr else allrouters (igmp_of s))"
  shows "\<exists>s'. igmp_send ic n g type s = ret s' \<and> undisturbed s s' \<and> changed_by (flagged g) (igmp_of s) (igmp_of s')"
proof -
  obtain ni where ni: "ether_netif s n ni" "mtu ni = 0 \<or> 32 \<le> unat (mtu ni)" using n by (auto simp: igmp_netif_def)
  let ?dst = "if type = IGMP_V2_MEMB_REPORT then group_address gr else allrouters (igmp_of s)"
  let ?w = "if type = IGMP_V2_MEMB_REPORT then world (gput g (gr\<lparr>last_reporter_flag := True\<rparr>) s) else world s"
  obtain s' where s': "igmp_send ic n g type s = ret s'" "restored s s'" "others_kept (pb s) (pb s')"
    "world s' = world s \<or> world s' = snd (transmit n (igmp_frame type (group_address gr) ?dst ni (ip_id (world s))) (?w\<lparr>ip_id := ip_id (world s) + 1\<rparr>))"
    using igmp_send_ok [OF io(1,3) _ _ ni g ty mc] snd unfolding sendable_def by metis
  obtain v where v: "snd (transmit n (igmp_frame type (group_address gr) ?dst ni (ip_id (world s))) (?w\<lparr>ip_id := ip_id (world s) + 1\<rparr>))
      = (?w\<lparr>ip_id := ip_id (world s) + 1\<rparr>)\<lparr>outer := (outer (?w\<lparr>ip_id := ip_id (world s) + 1\<rparr>))\<lparr>beyond := v\<rparr>\<rparr>"
    using io(2) unfolding outside_def by blast
  have fl: "flagged g y a a" for y a by (cases a) (simp add: flagged_def)
  have "igmp_of s' = igmp_of s \<or> igmp_of s' = (outer ?w)\<lparr>beyond := v\<rparr>" using s'(4) unfolding v by auto
  moreover have "changed_by (flagged g) (igmp_of s) ((outer ?w)\<lparr>beyond := v\<rparr>)"
    using g(2) fl by (auto simp: changed_by_def option.rel_refl flagged_def)
  ultimately have "changed_by (flagged g) (igmp_of s) (igmp_of s')" using changed_by_refl [of "flagged g"] fl by metis
  then show ?thesis using s' by (auto simp: undisturbed_def)
qed

lemma filter_quiet:
  assumes "filters_ok ig"
  shows "\<exists>v. mac_filter ig n a act s = ret (on_igmp (\<lambda>w. w\<lparr>beyond := v\<rparr>) s)"
proof (cases "igmp_mac_filter ig n")
  case None
  have "on_igmp (\<lambda>w. w\<lparr>beyond := beyond (igmp_of s)\<rparr>) s = s" by (simp add: on_igmp_def on_world_def)
  then show ?thesis using None by (intro exI [of _ "beyond (igmp_of s)"]) (simp add: mac_filter_def)
next
  case (Some f)
  then show ?thesis using assms by (auto simp: filters_ok_def mac_filter_def)
qed

subsection \<open>Time\<close>

text \<open>A round of the timer: a group whose time is over is reported and idle then.\<close>

definition ticked :: "u32 \<Rightarrow> igmp_group \<Rightarrow> igmp_group \<Rightarrow> bool" where
  "ticked all g g' \<longleftrightarrow> g' =
     (if group_timer g = 1 \<and> group_state g = IGMP_GROUP_DELAYING_MEMBER \<and> group_address g \<noteq> all
      then g\<lparr>group_timer := 0, group_state := IGMP_GROUP_IDLE_MEMBER, last_reporter_flag := last_reporter_flag g'\<rparr>
      else g\<lparr>group_timer := if group_timer g = 0 then 0 else group_timer g - 1\<rparr>)"

lemma ticked_kept:
  assumes "ticked all g g'"
  shows "kept all g g'"
proof (cases "group_timer g = 1 \<and> group_state g = IGMP_GROUP_DELAYING_MEMBER \<and> group_address g \<noteq> all")
  case True
  then have "g' = g\<lparr>group_timer := 0, group_state := IGMP_GROUP_IDLE_MEMBER, last_reporter_flag := last_reporter_flag g'\<rparr>" using assms by (simp add: ticked_def)
  then have "group_next g' = group_next g" "group_address g' = group_address g" "group_use g' = group_use g" "group_timer g' = 0" "group_state g' = IGMP_GROUP_IDLE_MEMBER"
    by (metis igmp_group.select_convs igmp_group.surjective igmp_group.update_convs)+
  then show ?thesis by (auto simp: kept_def group_ok_def)
next
  case False
  then have "g' = g\<lparr>group_timer := if group_timer g = 0 then 0 else group_timer g - 1\<rparr>" using assms unfolding ticked_def if_not_P [OF False] by blast
  then show ?thesis using False by (auto simp: kept_def group_ok_def)
qed

text \<open>A group whose address is that of all systems or a multicast address, as they all are.\<close>

definition addressed :: "'v igmp \<Rightarrow> nat \<Rightarrow> bool" where
  "addressed w y \<longleftrightarrow> addr_of w y = allsystems w \<or> ip4_addr_ismulticast (addr_of w y)"

lemma tick_one:
  fixes s :: "'v mcast"
  assumes io: "driver nc transmit" "outside transmit" "netif_output ic = etharp_output nc" and snd: "sendable s" and n: "igmp_netif s n"
    and g: "g \<noteq> 0" "igmp_mem (igmp_of s) g = Some gr" "addressed (igmp_of s) g"
  defines "s1 \<equiv> gput g (gr\<lparr>group_timer := group_timer gr - 1\<rparr>) s"
  shows "\<exists>s'. (if group_timer gr > 0 then if group_timer gr - 1 = 0 then igmp_timeout ic n g s1 else ret s1 else ret s) = ret s'
    \<and> undisturbed s s' \<and> changed_by (\<lambda>y a b. if y = g then ticked (allsystems (igmp_of s)) a b else b = a) (igmp_of s) (igmp_of s')"
proof -
  let ?all = "allsystems (igmp_of s)"
  let ?R = "\<lambda>y a b. if y = g then ticked ?all a b else b = a"
  have inv: "pbuf_inv (pb s)" using snd by (simp add: sendable_def)
  have q1: "undisturbed s s1" unfolding s1_def by (rule quiet_gput [OF inv])
  have ev: "changed_by ?R (igmp_of s) (igmp_of (gput g b s))" if "ticked ?all gr b" for b
    using that g(2) by (simp add: changed_by_def option.rel_refl)
  have z: "group_timer gr - 1 = 0 \<longleftrightarrow> group_timer gr = 1" by simp
  consider (off) "group_timer gr = 0" | (due) "group_timer gr = 1" "group_state gr = IGMP_GROUP_DELAYING_MEMBER" "group_address gr \<noteq> ?all"
    | (other) "group_timer gr \<noteq> 0" "\<not> (group_timer gr = 1 \<and> group_state gr = IGMP_GROUP_DELAYING_MEMBER \<and> group_address gr \<noteq> ?all)" by blast
  then show ?thesis
  proof cases
    case off
    have "ticked ?all gr gr" using off by (simp add: ticked_def)
    then have "changed_by ?R (igmp_of s) (igmp_of s)" using g(2) by (auto simp: changed_by_def rel_option_iff split: option.splits)
    then show ?thesis using off inv by (intro exI [of _ s]) (simp add: undisturbed_def restored_refl others_kept_refl)
  next
    case due
    let ?g = "gr\<lparr>group_timer := 0, group_state := IGMP_GROUP_IDLE_MEMBER\<rparr>"
    let ?s = "gput g ?g s"
    have mc: "ip4_addr_ismulticast (group_address ?g)" using g(2,3) due(3) by (simp add: addressed_def addr_of_def)
    have run: "igmp_timeout ic n g s1 = igmp_send ic n g IGMP_V2_MEMB_REPORT ?s"
      using due g by (simp add: igmp_timeout_def s1_def gput_def on_igmp_def on_world_def gget_def)
    have q: "undisturbed s ?s" by (rule quiet_gput [OF inv])
    obtain s' where s': "igmp_send ic n g IGMP_V2_MEMB_REPORT ?s = ret s'" "undisturbed ?s s'" "changed_by (flagged g) (igmp_of ?s) (igmp_of s')"
      using send_quiet [OF io, of ?s n g ?g IGMP_V2_MEMB_REPORT] quietD(1,2) [OF q] snd n g(1) mc by auto
    have "changed_by (\<lambda>y a b. if y = g then a = gr \<and> b = ?g else b = a) (igmp_of s) (igmp_of ?s)"
      using g(2) by (simp add: changed_by_def option.rel_refl)
    then have "changed_by ?R (igmp_of s) (igmp_of s')"
      by (rule changed_by_trans [OF _ s'(3)]) (use due in \<open>auto simp: flagged_def ticked_def split: if_splits\<close>)
    then show ?thesis using s' run due quiet_trans [OF q] by (intro exI [of _ s']) simp
  next
    case other
    let ?g = "gr\<lparr>group_timer := group_timer gr - 1\<rparr>"
    have "ticked ?all gr ?g" using other by (auto simp: ticked_def)
    then have "changed_by ?R (igmp_of s) (igmp_of s1)" unfolding s1_def by (rule ev)
    moreover have "igmp_timeout ic n g s1 = ret s1" if "group_timer gr = 1"
      using that other g by (auto simp: igmp_timeout_def s1_def gget_def)
    moreover have "group_timer gr > 0" using other(1) by (simp add: word_gt_0)
    ultimately show ?thesis using q1 by (intro exI [of _ s1]) (simp add: z)
  qed
qed

lemma tmr_groups_ok:
  fixes s :: "'v mcast"
  assumes io: "driver nc transmit" "outside transmit" "netif_output ic = etharp_output nc"
    and "sendable s" "igmp_netif s n" "glist (igmp_of s) x xs" "distinct xs" "\<forall>y\<in>set xs. addressed (igmp_of s) y"
  shows "\<exists>s'. tmr_groups ic n x s = ret s' \<and> undisturbed s s'
    \<and> changed_by (\<lambda>y a b. if y \<in> set xs then ticked (allsystems (igmp_of s)) a b else b = a) (igmp_of s) (igmp_of s')"
  using assms(4-)
proof (induction xs arbitrary: x s)
  case Nil
  then have "tmr_groups ic n x s = ret s" by (simp add: tmr_groups.simps)
  then show ?case using Nil.prems(1) by (intro exI [of _ s]) (simp add: changed_by_refl undisturbed_def restored_refl others_kept_refl sendable_def)
next
  case (Cons g xs)
  then obtain gr where gr: "x = g" "g \<noteq> 0" "igmp_mem (igmp_of s) g = Some gr" "glist (igmp_of s) (group_next gr) xs" by (auto split: option.splits)
  let ?all = "allsystems (igmp_of s)"
  obtain s1 where s1: "(if group_timer gr > 0 then if group_timer gr - 1 = 0 then igmp_timeout ic n g (gput g (gr\<lparr>group_timer := group_timer gr - 1\<rparr>) s)
        else ret (gput g (gr\<lparr>group_timer := group_timer gr - 1\<rparr>) s) else ret s) = ret s1" "undisturbed s s1"
    "changed_by (\<lambda>y a b. if y = g then ticked ?all a b else b = a) (igmp_of s) (igmp_of s1)"
    using tick_one [OF io Cons.prems(1,2) gr(2,3)] Cons.prems(5) by auto
  obtain gr1 where gr1: "igmp_mem (igmp_of s1) g = Some gr1" "ticked ?all gr gr1" using changed_by_at(2) [OF s1(3) gr(3)] by auto
  have k: "group_next b = group_next a" "group_address b = group_address a" if "if y = g then ticked ?all a b else b = a" for y a b
    using that ticked_kept [of ?all a b] by (auto simp: kept_def split: if_splits)
  have "glist (igmp_of s1) (group_next gr) xs" using gr(4) changed_by_glist [OF s1(3) k(1)] by simp
  moreover have "\<forall>y\<in>set xs. addressed (igmp_of s1) y"
    using Cons.prems(5) changed_by_addr [OF s1(3) k(2)] s1(3) by (simp add: addressed_def changed_by_def)
  ultimately obtain s2 where s2: "tmr_groups ic n (group_next gr) s1 = ret s2" "undisturbed s1 s2"
    "changed_by (\<lambda>y a b. if y \<in> set xs then ticked (allsystems (igmp_of s1)) a b else b = a) (igmp_of s1) (igmp_of s2)"
    using Cons.IH [of s1 "group_next gr"] quietD(1,2) [OF s1(2)] Cons.prems(1,2,4) by auto
  have all: "allsystems (igmp_of s1) = ?all" using s1(3) by (simp add: changed_by_def)
  have "tmr_groups ic n x s = bind_run (if group_timer gr > 0 then if group_timer gr - 1 = 0 then igmp_timeout ic n g (gput g (gr\<lparr>group_timer := group_timer gr - 1\<rparr>) s)
        else ret (gput g (gr\<lparr>group_timer := group_timer gr - 1\<rparr>) s) else ret s) (\<lambda>s. bind_run (gget g s) (\<lambda>g. tmr_groups ic n (group_next g) s))"
    using gr(1,2) gget_ret [OF gr(2,3)] by (subst tmr_groups.simps) (simp add: Let_def)
  then have "tmr_groups ic n x s = ret s2"
    unfolding s1(1) using gget_ret [OF gr(2) gr1(1)] ticked_kept [OF gr1(2)] s2(1) by (simp add: kept_def)
  moreover have "changed_by (\<lambda>y a b. if y \<in> set (g # xs) then ticked ?all a b else b = a) (igmp_of s) (igmp_of s2)"
    by (rule changed_by_trans [OF s1(3) s2(3)]) (use Cons.prems(4) all in \<open>auto split: if_splits\<close>)
  ultimately show ?case using quiet_trans [OF s1(2) s2(2)] by blast
qed

end
