(* ===== verification/Igmp_Run.thy ===== *)
theory Igmp_Run
  imports Igmp_Machine
begin

text \<open>
  The operations of IGMP on whole states: each of them returns, keeps the invariant \<open>igmp_state\<close>, and changes the memberships of the
  interfaces as an abstract table of use counters says.
\<close>

subsection \<open>Memberships\<close>

definition use_of :: "'v igmp \<Rightarrow> nat \<Rightarrow> u8" where
  "use_of w g = (case igmp_mem w g of None \<Rightarrow> 0 | Some gr \<Rightarrow> group_use gr)"

text \<open>The addresses of a list of groups, each with the number of its users.\<close>

definition memberships :: "'v igmp \<Rightarrow> nat list \<Rightarrow> u32 \<rightharpoonup> u8" where
  "memberships w gs = map_of (map (\<lambda>g. (addr_of w g, use_of w g)) gs)"

lemma memberships_cong:
  assumes "\<And>g. g \<in> set gs \<Longrightarrow> addr_of w' g = addr_of w g \<and> use_of w' g = use_of w g"
  shows "memberships w' gs = memberships w gs"
proof -
  have "map (\<lambda>g. (addr_of w' g, use_of w' g)) gs = map (\<lambda>g. (addr_of w g, use_of w g)) gs"
    using assms by simp
  then show ?thesis unfolding memberships_def by (rule arg_cong)
qed

lemma memberships_beyond [simp]: "memberships (w\<lparr>beyond := v\<rparr>) gs = memberships w gs"
  by (rule memberships_cong) (simp add: use_of_def)

lemma memberships_None: "memberships w gs a = None \<longleftrightarrow> a \<notin> addr_of w ` set gs"
  by (auto simp: memberships_def map_of_eq_None_iff image_image)

lemma memberships_Some:
  assumes "distinct (map (addr_of w) gs)" "g \<in> set gs"
  shows "memberships w gs (addr_of w g) = Some (use_of w g)"
  unfolding memberships_def using assms by (intro map_of_is_SomeI) (auto simp: comp_def)

lemma memberships_upd:
  assumes "distinct (map (addr_of w) gs)" "g \<in> set gs" "addr_of w' = addr_of w" "\<And>x. x \<in> set gs \<Longrightarrow> x \<noteq> g \<Longrightarrow> use_of w' x = use_of w x"
  shows "memberships w' gs = (memberships w gs)(addr_of w g \<mapsto> use_of w' g)"
proof
  fix a
  have d: "distinct (map (addr_of w') gs)" using assms(1,3) by simp
  show "memberships w' gs a = ((memberships w gs)(addr_of w g \<mapsto> use_of w' g)) a"
  proof (cases "a \<in> addr_of w ` set gs")
    case True
    then obtain x where x: "x \<in> set gs" "a = addr_of w x" by blast
    have "x = g" if "addr_of w x = addr_of w g" using that assms(1,2) x(1) by (auto simp: distinct_map inj_on_def)
    then show ?thesis using memberships_Some [OF d x(1)] memberships_Some [OF assms(1) x(1)] x assms(3,4) by auto
  next
    case False
    then have "memberships w' gs a = None" "memberships w gs a = None" using assms(3) by (simp_all add: memberships_None)
    moreover have "a \<noteq> addr_of w g" using False assms(2) by blast
    ultimately show ?thesis by simp
  qed
qed

lemma memberships_add:
  assumes "g \<notin> set gs" "a \<notin> addr_of w ` set gs" "addr_of v g = a" "\<And>x. x \<in> set gs \<Longrightarrow> addr_of v x = addr_of w x \<and> use_of v x = use_of w x"
  shows "memberships v (add_group g gs) = (memberships w gs)(a \<mapsto> use_of v g)"
proof (cases gs)
  case Nil
  then show ?thesis using assms(3) by (simp add: memberships_def)
next
  case (Cons h hs)
  have "memberships v hs = memberships w hs" by (rule memberships_cong) (use assms(4) Cons in auto)
  moreover have "addr_of w h \<noteq> a" using assms(2) Cons by auto
  ultimately show ?thesis using Cons assms(3) assms(4) [of h] by (simp add: memberships_def fun_upd_twist)
qed

lemma memberships_remove:
  assumes "distinct (map (addr_of w) (xs @ g # post))" "\<And>x. x \<noteq> g \<Longrightarrow> addr_of v x = addr_of w x \<and> use_of v x = use_of w x" "g \<notin> set (xs @ post)"
  shows "memberships v (xs @ post) = (memberships w (xs @ g # post))(addr_of w g := None)"
proof -
  have "memberships v (xs @ post) = memberships w (xs @ post)" by (rule memberships_cong, rule assms(2)) (use assms(3) in auto)
  moreover have "memberships w xs (addr_of w g) = None" "memberships w post (addr_of w g) = None"
    using assms(1) by (auto simp: memberships_None)
  ultimately show ?thesis by (auto simp: memberships_def map_add_def fun_eq_iff split: option.splits)
qed

subsection \<open>The invariant\<close>

definition igmp_state :: "'v mcast \<Rightarrow> (nat \<Rightarrow> nat list) \<Rightarrow> bool" where
  "igmp_state s L \<longleftrightarrow> igmp_ok (igmp_of s) L \<and> igmp_memory s \<and> sendable s \<and> ip4_addr_ismulticast (allrouters (igmp_of s))
     \<and> (\<forall>n. L n \<noteq> [] \<longrightarrow> igmp_netif s n)"

lemma igmp_stateD:
  assumes "igmp_state s L"
  shows "igmp_ok (igmp_of s) L" "igmp_lists (igmp_of s) L" "members_ok (igmp_of s) L" "igmp_memory s" "sendable s" "pbuf_inv (pb s)"
    "ip4_addr_ismulticast (allrouters (igmp_of s))" "L n \<noteq> [] \<Longrightarrow> igmp_netif s n"
  using assms by (auto simp: igmp_state_def igmp_ok_def sendable_def)

text \<open>The table of all interfaces.\<close>

definition table_of :: "'v mcast \<Rightarrow> (nat \<Rightarrow> nat list) \<Rightarrow> nat \<Rightarrow> u32 \<rightharpoonup> u8" where
  "table_of s L n = memberships (igmp_of s) (L n)"

lemma restored_state:
  assumes "restored s s'"
  shows "igmp_netif s' n = igmp_netif s n" "sendable s \<Longrightarrow> sendable s'"
  using assms by (auto simp: restored_def igmp_netif_def ether_netif_def sendable_def)

lemma state_step:
  assumes st: "igmp_state s L" and r: "restored s s'" and ok: "igmp_ok (igmp_of s') L'" and mem: "igmp_memory s'"
    and all: "allrouters (igmp_of s') = allrouters (igmp_of s)" and ne: "\<And>k. L' k \<noteq> [] \<Longrightarrow> L k \<noteq> [] \<or> igmp_netif s k"
  shows "igmp_state s' L'"
  using igmp_stateD [OF st] restored_state [OF r] ok mem all ne unfolding igmp_state_def by metis

text \<open>A step that only changes groups.\<close>

lemma evolved_step:
  assumes st: "igmp_state s L" and q: "undisturbed s s'" and ev: "changed_by R (igmp_of s) (igmp_of s')"
    and k: "\<And>y a b. R y a b \<Longrightarrow> kept (allsystems (igmp_of s)) a b"
  shows "igmp_state s' L" "table_of s' L = table_of s L"
proof -
  have ev': "changed_by (\<lambda>_. kept (allsystems (igmp_of s))) (igmp_of s) (igmp_of s')" by (rule changed_by_mono [OF ev k])
  show "igmp_state s' L"
    using state_step [OF st _ changed_by_ok [OF ev'] quietD(6) [OF q]] igmp_stateD [OF st] q changed_by_dom [OF ev] ev
    by (auto simp: undisturbed_def changed_by_def)
  have "addr_of (igmp_of s') = addr_of (igmp_of s)" by (rule changed_by_addr [OF ev']) (simp add: kept_def)
  moreover have "use_of (igmp_of s') y = use_of (igmp_of s) y" for y
    using changed_by_at [OF ev', of y] by (cases "igmp_mem (igmp_of s) y") (auto simp: use_of_def kept_def)
  ultimately show "table_of s' L = table_of s L" unfolding table_of_def by (intro ext memberships_cong) simp
qed

lemma beyond_quiet:
  assumes "pbuf_inv (pb s)"
  shows "undisturbed s (on_igmp (\<lambda>w. w\<lparr>beyond := v\<rparr>) s)" "changed_by (\<lambda>_ a b. b = a) (igmp_of s) (igmp_of (on_igmp (\<lambda>w. w\<lparr>beyond := v\<rparr>) s))"
  using assms by (simp_all add: quiet_igmp changed_by_def option.rel_refl)

text \<open>Only the group in the making changes.\<close>

lemma but_evolved:
  assumes ev: "changed_by (\<lambda>y a b. if y = g then group_next b = group_next a \<and> group_address b = group_address a else b = a) w w'" and but: "igmp_but g w L"
  shows "igmp_but g w' L"
proof -
  have k: "group_next b = group_next a" "group_address b = group_address a" if "if y = g then group_next b = group_next a \<and> group_address b = group_address a else b = a" for y and a b :: igmp_group
    using that by (auto split: if_splits)
  have ad: "addr_of w' = addr_of w" and gl: "glist w' x xs = glist w x xs" for x xs
    using changed_by_addr [OF ev k(2)] changed_by_glist [OF ev k(1)] by auto
  have f: "allsystems w' = allsystems w" "netif_igmp_data w' = netif_igmp_data w" using ev by (simp_all add: changed_by_def)
  have m: "igmp_mem w' x = igmp_mem w x" if "x \<noteq> g" for x
    using changed_by_at [OF ev, of x] that by (cases "igmp_mem w x") auto
  show ?thesis using but changed_by_dom [OF ev] unfolding igmp_but_def igmp_lists_def ad gl f by (simp add: m)
qed

lemma tl_group:
  assumes "members_ok w L" "g \<in> set (L n)" "addr_of w g \<noteq> allsystems w"
  shows "g \<in> set (tl (L n))"
  using assms by (cases "L n") (auto simp: members_ok_def dest: spec [of _ n])

lemma same_groupsD:
  assumes "same_groups {g} w v" "x \<noteq> g"
  shows "addr_of v x = addr_of w x" "use_of v x = use_of w x"
proof -
  have "map_option (\<lambda>r. r\<lparr>group_next := 0\<rparr>) (igmp_mem v x) = map_option (\<lambda>r. r\<lparr>group_next := 0\<rparr>) (igmp_mem w x)" using assms by (simp add: same_groups_def)
  then have "map_option group_address (igmp_mem v x) = map_option group_address (igmp_mem w x) \<and> map_option group_use (igmp_mem v x) = map_option group_use (igmp_mem w x)"
    by (cases "igmp_mem v x"; cases "igmp_mem w x") (auto dest: arg_cong [of _ _ group_address] arg_cong [of _ _ group_use])
  then show "addr_of v x = addr_of w x" "use_of v x = use_of w x"
    by (cases "igmp_mem v x"; cases "igmp_mem w x"; simp add: addr_of_def use_of_def)+
qed

lemma regrouped_restored: "igmp_memory (regrouped m w s) \<Longrightarrow> restored s (regrouped m w s)"
  by (auto simp: restored_def regrouped_def igmp_memory_def)

subsection \<open>Joining\<close>

text \<open>What a join does to the table: it counts one more user, or there is no memory for a new group.\<close>

definition join_spec :: "nat \<Rightarrow> u32 \<Rightarrow> err_t \<Rightarrow> (nat \<Rightarrow> u32 \<rightharpoonup> u8) \<Rightarrow> (nat \<Rightarrow> u32 \<rightharpoonup> u8) \<Rightarrow> bool" where
  "join_spec n a r M M' \<longleftrightarrow>
     r = ERR_OK \<and> M' = M(n := (M n)(a \<mapsto> (case M n a of None \<Rightarrow> 1 | Some u \<Rightarrow> u + 1))) \<or> r = ERR_MEM \<and> M n a = None \<and> M' = M"

text \<open>One more user of a group of the list.\<close>

lemma count_user:
  fixes s :: "'v mcast"
  assumes st: "igmp_state s L" and g: "g \<in> set (L n)" "igmp_mem (igmp_of s) g = Some gr"
    and gr': "group_next gr' = group_next gr" "group_address gr' = group_address gr" "\<And>k. g \<in> set (tl (L k)) \<Longrightarrow> group_ok (allsystems (igmp_of s)) gr'"
  shows "igmp_state (gput g gr' s) L" "table_of (gput g gr' s) L = (table_of s L)(n := (table_of s L n)(group_address gr \<mapsto> group_use gr'))" "restored s (gput g gr' s)"
proof -
  note D = igmp_stateD [OF st]
  have q: "undisturbed s (gput g gr' s)" by (rule quiet_gput [OF D(6)])
  then show r: "restored s (gput g gr' s)" by (simp add: undisturbed_def)
  show "igmp_state (gput g gr' s) L"
  proof (rule state_step [OF st r])
    show "igmp_ok (igmp_of (gput g gr' s)) L" unfolding gput_simps by (rule igmp_ok_update [OF D(1) g(2) gr'])
    show "igmp_memory (gput g gr' s)" by (rule quietD(6) [OF q D(4)]) (use g(2) in auto)
  qed simp_all
  have ad: "addr_of (igmp_of (gput g gr' s)) = addr_of (igmp_of s)" using lists_update(2) [OF D(2) g(2) gr'(1,2)] by simp
  have us: "use_of (igmp_of (gput g gr' s)) x = (if x = g then group_use gr' else use_of (igmp_of s) x)" for x by (simp add: use_of_def)
  have "memberships (igmp_of (gput g gr' s)) (L k) = memberships (igmp_of s) (L k)" if "k \<noteq> n" for k
    by (rule memberships_cong) (use ad us igmp_listsD(4) [OF D(2) g(1)] that in auto)
  moreover have "memberships (igmp_of (gput g gr' s)) (L n) = (memberships (igmp_of s) (L n))(group_address gr \<mapsto> group_use gr')"
    using memberships_upd [OF igmp_listsD(3) [OF D(2)] g(1) ad] us g(2) by (simp add: addr_of_def)
  ultimately show "table_of (gput g gr' s) L = (table_of s L)(n := (table_of s L n)(group_address gr \<mapsto> group_use gr'))"
    by (auto simp: table_of_def fun_eq_iff)
qed

text \<open>A new group, as soon as it is complete.\<close>

lemma new_user:
  fixes s :: "'v mcast"
  assumes st: "igmp_state s L" and n: "igmp_netif s n" and a: "a \<notin> addr_of (igmp_of s) ` set (L n)" and mem: "igmp_memory (regrouped m w s)"
    and but: "igmp_but g w (L(n := add_group g (L n)))" and g: "igmp_mem w g = Some (new_group a k)" "g \<notin> dom (igmp_mem (igmp_of s))"
    and same: "same_groups {g} (igmp_of s) w" and q: "undisturbed (regrouped m w s) s'"
    and ev: "changed_by (\<lambda>y a b. if y = g then group_next b = group_next a \<and> group_address b = group_address a else b = a) w (igmp_of s')"
    and g': "igmp_mem (igmp_of s') g = Some gr'" "L n \<noteq> [] \<longrightarrow> group_ok (allsystems (igmp_of s)) gr'" "group_use gr' = 1"
  shows "igmp_state s' (L(n := add_group g (L n)))" "table_of s' (L(n := add_group g (L n))) = (table_of s L)(n := (table_of s L n)(a \<mapsto> 1))" "restored s s'"
proof -
  let ?L = "L(n := add_group g (L n))"
  note D = igmp_stateD [OF st]
  have all: "allsystems (igmp_of s') = allsystems (igmp_of s)" "allrouters (igmp_of s') = allrouters (igmp_of s)"
    using ev same by (simp_all add: changed_by_def same_groups_def)
  have gL: "g \<notin> set (L j)" for j using g(2) D(1) by (auto simp: igmp_ok_def)
  show r: "restored s s'" using restored_trans [OF regrouped_restored [OF mem]] q by (simp add: undisturbed_def)
  have in_tl: "j = n \<and> L n \<noteq> []" if l: "g \<in> set (tl (?L j))" for j
  proof (cases "j = n")
    case True
    then show ?thesis using l by (cases "L n") auto
  next
    case False
    then show ?thesis using l gL [of j] by (cases "L j") auto
  qed
  show "igmp_state s' ?L"
  proof (rule state_step [OF st r])
    have "\<forall>j. g \<in> set (tl (?L j)) \<longrightarrow> group_ok (allsystems (igmp_of s')) gr'" unfolding all(1) using in_tl g'(2) by blast
    then show "igmp_ok (igmp_of s') ?L" by (rule but_ok [OF but_evolved [OF ev but] g'(1)])
    show "igmp_memory s'" using quietD(6) [OF q mem] changed_by_dom [OF ev] by simp
    show "L j \<noteq> [] \<or> igmp_netif s j" if "?L j \<noteq> []" for j using that n by (cases "j = n") simp_all
  qed (fact all(2))
  have m: "igmp_mem (igmp_of s') x = igmp_mem w x" if "x \<noteq> g" for x
    using changed_by_at [OF ev, of x] that by (cases "igmp_mem w x") auto
  have x: "addr_of (igmp_of s') x = addr_of (igmp_of s) x" "use_of (igmp_of s') x = use_of (igmp_of s) x" if "x \<noteq> g" for x
    using same_groupsD [OF same that] m [OF that] by (simp_all add: addr_of_def use_of_def)
  have "group_address gr' = a" using changed_by_at(2) [OF ev g(1)] g'(1) by (auto simp: new_group_def)
  then have new: "addr_of (igmp_of s') g = a" "use_of (igmp_of s') g = 1" using g' by (simp_all add: addr_of_def use_of_def)
  have "memberships (igmp_of s') (L j) = memberships (igmp_of s) (L j)" for j
    by (rule memberships_cong) (metis x gL)
  moreover have "memberships (igmp_of s') (add_group g (L n)) = (memberships (igmp_of s) (L n))(a \<mapsto> use_of (igmp_of s') g)"
    by (rule memberships_add [OF gL a new(1)]) (metis x gL)
  ultimately show "table_of s' ?L = (table_of s L)(n := (table_of s L n)(a \<mapsto> 1))" by (auto simp: table_of_def new(2))
qed

lemma new_complete: "igmp_mem (igmp_of s) g = Some gr \<Longrightarrow> group_next b = group_next gr \<Longrightarrow> group_address b = group_address gr
    \<Longrightarrow> changed_by (\<lambda>y a b. if y = g then group_next b = group_next a \<and> group_address b = group_address a else b = a) (igmp_of s) ((igmp_of s)\<lparr>igmp_mem := (igmp_mem (igmp_of s))(g \<mapsto> b), beyond := v\<rparr>)"
  by (simp add: changed_by_def option.rel_refl)

lemma igmp_start_ok:
  fixes s :: "'v mcast"
  assumes flt: "filters_ok ig" and st: "igmp_state s L" and n: "igmp_netif s n"
  shows "\<exists>r s' L'. igmp_start ig n s = ret (r, s') \<and> igmp_state s' L' \<and> restored s s' \<and> join_spec n (allsystems (igmp_of s)) r (table_of s L) (table_of s' L')
    \<and> (\<forall>k. L' k = [] \<longleftrightarrow> L k = [] \<and> (k = n \<longrightarrow> r = ERR_MEM)) \<and> allsystems (igmp_of s') = allsystems (igmp_of s)"
proof -
  note D = igmp_stateD [OF st]
  let ?all = "allsystems (igmp_of s)"
  have first: "L n = [] \<longrightarrow> ?all = ?all" by simp
  show ?thesis
  proof (cases rule: lookup_ok [OF D(1,4) first, case_names found full new])
    case (found g)
    obtain gr where gr: "igmp_mem (igmp_of s) g = Some gr" "gget g s = ret gr" using listed_ret [OF D(2) found(2)] by metis
    let ?g = "gr\<lparr>group_state := IGMP_GROUP_IDLE_MEMBER, group_use := group_use gr + 1\<rparr>"
    have a: "group_address gr = ?all" using found(3) gr(1) by (simp add: addr_of_def)
    have "False" if "g \<in> set (tl (L k))" for k
      using members_okD [OF D(3) that gr(1)] a by (simp add: group_ok_def)
    then have cu: "igmp_state (gput g ?g s) L" "table_of (gput g ?g s) L = (table_of s L)(n := (table_of s L n)(?all \<mapsto> group_use gr + 1))" "restored s (gput g ?g s)"
      using count_user [OF st found(2) gr(1), of ?g] a by auto
    obtain v where v: "mac_filter ig n ?all NETIF_ADD_MAC_FILTER (gput g ?g s) = ret (on_igmp (\<lambda>w. w\<lparr>beyond := v\<rparr>) (gput g ?g s))"
      using filter_quiet [OF flt] by blast
    note ev = evolved_step [OF cu(1) beyond_quiet [OF igmp_stateD(6) [OF cu(1)]], of v]
    have m: "table_of s L n ?all = Some (group_use gr)"
      using memberships_Some [OF igmp_listsD(3) [OF D(2)] found(2)] gr(1) a by (simp add: table_of_def addr_of_def use_of_def)
    have "igmp_start ig n s = ret (ERR_OK, on_igmp (\<lambda>w. w\<lparr>beyond := v\<rparr>) (gput g ?g s))"
      using found(1,4) gr(2) v by (simp add: igmp_start_def)
    moreover have "restored s (on_igmp (\<lambda>w. w\<lparr>beyond := v\<rparr>) (gput g ?g s))"
      using restored_trans [OF cu(3)] beyond_quiet(1) [OF igmp_stateD(6) [OF cu(1)]] by (simp add: undisturbed_def)
    moreover have "L n \<noteq> []" using found(2) by auto
    ultimately show ?thesis
      using ev cu(2) m by (intro exI [of _ ERR_OK] exI [of _ "on_igmp (\<lambda>w. w\<lparr>beyond := v\<rparr>) (gput g ?g s)"] exI [of _ L]) (auto simp: join_spec_def kept_def)
  next
    case full
    then have "igmp_start ig n s = ret (ERR_MEM, s)" by (simp add: igmp_start_def)
    moreover have "table_of s L n ?all = None" using full(2) by (simp add: table_of_def memberships_None)
    moreover have "L n = []" using full(2) D(3) by (cases "L n") (auto simp: members_ok_def dest: spec [of _ n])
    ultimately show ?thesis using st D(6) by (intro exI [of _ ERR_MEM] exI [of _ s] exI [of _ L]) (auto simp: join_spec_def restored_refl)
  next
    case (new g m w k)
    define t where "t = regrouped m w s"
    let ?g = "(new_group ?all k)\<lparr>group_state := IGMP_GROUP_IDLE_MEMBER, group_use := 1\<rparr>"
    have tg: "igmp_mem (igmp_of t) g = Some (new_group ?all k)" "gget g t = ret (new_group ?all k)" using new(5,6) by (simp_all add: t_def gget_def)
    have tall: "allsystems (igmp_of t) = ?all" using new(8) by (simp add: t_def same_groups_def)
    obtain v where v: "mac_filter ig n ?all NETIF_ADD_MAC_FILTER (gput g ?g t) = ret (on_igmp (\<lambda>w. w\<lparr>beyond := v\<rparr>) (gput g ?g t))"
      using filter_quiet [OF flt] by blast
    define s' where "s' = on_igmp (\<lambda>w. w\<lparr>beyond := v\<rparr>) (gput g ?g t)"
    have inv: "pbuf_inv (pb t)" using new(3) by (simp add: t_def igmp_memory_def)
    have q: "undisturbed t s'" using quiet_trans [OF quiet_gput [OF inv] beyond_quiet(1)] inv by (simp add: s'_def)
    have e: "changed_by (\<lambda>y a b. if y = g then group_next b = group_next a \<and> group_address b = group_address a else b = a) w (igmp_of s')"
      using new_complete [OF tg(1), of ?g v] by (simp add: s'_def t_def)
    have a: "?all \<notin> addr_of (igmp_of s) ` set (L n)" by (fact new(2))
    then have ne: "L n = []" using D(3) by (cases "L n") (auto simp: members_ok_def dest: spec [of _ n])
    have mg: "igmp_mem (igmp_of s') g = Some ?g" by (simp add: s'_def)
    note nu = new_user [OF st n a new(3,4,5,7,8) q [unfolded t_def] e mg]
    have "igmp_start ig n s = ret (ERR_OK, s')"
      using new(1,6) tg(2) v tall unfolding t_def [symmetric] s'_def by (simp add: igmp_start_def new_group_def)
    moreover have "table_of s L n ?all = None" using a by (simp add: table_of_def memberships_None)
    moreover have "add_group g (L n) \<noteq> []" by (cases "L n") simp_all
    ultimately show ?thesis
      using nu ne tall by (intro exI [of _ ERR_OK] exI [of _ s'] exI [of _ "L(n := add_group g (L n))"]) (auto simp: join_spec_def s'_def)
  qed
qed

lemma flagged_same:
  assumes "flagged g y a b"
  shows "group_next b = group_next a" "group_address b = group_address a" "group_use b = group_use a" "group_timer b = group_timer a" "group_state b = group_state a"
    "y \<noteq> g \<Longrightarrow> b = a"
proof -
  have "b = a\<lparr>last_reporter_flag := last_reporter_flag b\<rparr>" using assms by (cases a) (auto simp: flagged_def split: if_splits)
  then show "group_next b = group_next a" "group_address b = group_address a" "group_use b = group_use a" "group_timer b = group_timer a" "group_state b = group_state a"
    by (metis igmp_group.select_convs igmp_group.surjective igmp_group.update_convs)+
  show "y \<noteq> g \<Longrightarrow> b = a" using assms by (simp add: flagged_def)
qed

lemma igmp_join_ok:
  fixes s :: "'v mcast"
  assumes io: "driver nc transmit" "outside transmit" "netif_output ic = etharp_output nc" and flt: "filters_ok ig"
    and st: "igmp_state s L" and n: "L n \<noteq> []" and a: "ip4_addr_ismulticast a" "a \<noteq> allsystems (igmp_of s)"
    and ni: "nget n s = ret ni" "netif_flags ni AND NETIF_FLAG_IGMP \<noteq> 0"
  shows "\<exists>r s' L'. igmp_joingroup_netif ic ig n a s = ret (r, s') \<and> igmp_state s' L' \<and> restored s s' \<and> join_spec n a r (table_of s L) (table_of s' L')
    \<and> (\<forall>k. L' k = [] \<longleftrightarrow> L k = []) \<and> allsystems (igmp_of s') = allsystems (igmp_of s)"
proof -
  note D = igmp_stateD [OF st]
  have first: "L n = [] \<longrightarrow> a = allsystems (igmp_of s)" using n by simp
  show ?thesis
  proof (cases rule: lookup_ok [OF D(1,4) first, case_names found full new])
    case (found g)
    obtain gr where gr: "igmp_mem (igmp_of s) g = Some gr" "gget g s = ret gr" using listed_ret [OF D(2) found(2)] by metis
    let ?g = "gr\<lparr>group_use := group_use gr + 1\<rparr>"
    have ad: "group_address gr = a" using found(3) gr(1) by (simp add: addr_of_def)
    have gok: "group_ok (allsystems (igmp_of s)) gr"
      using members_okD [OF D(3) tl_group [OF D(3) found(2)] gr(1)] found(3) a(2) by simp
    note cu = count_user [OF st found(2) gr(1), of ?g]
    have m: "table_of s L n a = Some (group_use gr)"
      using memberships_Some [OF igmp_listsD(3) [OF D(2)] found(2)] gr(1) ad by (simp add: table_of_def addr_of_def use_of_def)
    have "igmp_joingroup_netif ic ig n a s = ret (ERR_OK, gput g ?g s)"
      using found(1,4) gr(2) gok a ni by (simp add: igmp_joingroup_netif_def group_ok_def lwip_assert_def)
    then show ?thesis
      using cu gok m ad by (intro exI [of _ ERR_OK] exI [of _ "gput g ?g s"] exI [of _ L]) (auto simp: join_spec_def group_ok_def)
  next
    case full
    then have "igmp_joingroup_netif ic ig n a s = ret (ERR_MEM, s)" using a ni by (simp add: igmp_joingroup_netif_def lwip_assert_def)
    moreover have "table_of s L n a = None" using full(2) by (simp add: table_of_def memberships_None)
    ultimately show ?thesis using st D(6) by (intro exI [of _ ERR_MEM] exI [of _ s] exI [of _ L]) (auto simp: join_spec_def restored_refl)
  next
    case (new g m w k)
    let ?R = "\<lambda>y a b. if y = g then group_next b = group_next a \<and> group_address b = group_address a else b = a"
    define t where "t = regrouped m w s"
    have tg: "igmp_mem (igmp_of t) g = Some (new_group a k)" "gget g t = ret (new_group a k)" using new(5,6) by (simp_all add: t_def gget_def)
    have tall: "allsystems (igmp_of t) = allsystems (igmp_of s)" using new(8) by (simp add: t_def same_groups_def)
    have tr: "restored s t" unfolding t_def by (rule regrouped_restored [OF new(3)])
    have inv: "pbuf_inv (pb t)" using new(3) by (simp add: t_def igmp_memory_def)
    obtain v where v: "mac_filter ig n a NETIF_ADD_MAC_FILTER t = ret (on_igmp (\<lambda>w. w\<lparr>beyond := v\<rparr>) t)" using filter_quiet [OF flt] by blast
    define t1 where "t1 = on_igmp (\<lambda>w. w\<lparr>beyond := v\<rparr>) t"
    have q1: "undisturbed t t1" "changed_by (\<lambda>_ a b. b = a) (igmp_of t) (igmp_of t1)" using beyond_quiet [OF inv] by (simp_all add: t1_def)
    have t1: "sendable t1" "igmp_netif t1 n" "igmp_mem (igmp_of t1) g = Some (new_group a k)"
      using quietD(1,2) [OF q1(1)] restored_state [OF tr] D(5) D(8) [OF n] tg(1) by (simp_all add: t1_def)
    obtain t2 where t2: "igmp_send ic n g IGMP_V2_MEMB_REPORT t1 = ret t2" "undisturbed t1 t2" "changed_by (flagged g) (igmp_of t1) (igmp_of t2)"
      using send_quiet [OF io t1(1,2) new(6) t1(3), of IGMP_V2_MEMB_REPORT] a(1) by (auto simp: new_group_def)
    obtain g2 where g2: "igmp_mem (igmp_of t2) g = Some g2" "flagged g g (new_group a k) g2" using changed_by_at(2) [OF t2(3) t1(3)] by blast
    have g2f: "group_next g2 = k" "group_address g2 = a" "group_use g2 = 0" using flagged_same(1-3) [OF g2(2)] by (simp_all add: new_group_def)
    obtain x v' where x: "igmp_start_timer ig g IGMP_JOIN_DELAYING_MEMBER_TMR t2
        = ret (on_igmp (\<lambda>w. w\<lparr>igmp_mem := (igmp_mem w)(g \<mapsto> g2\<lparr>group_timer := x\<rparr>), beyond := v'\<rparr>) t2)" "x \<noteq> 0"
      using start_timer_ok [OF new(6) g2(1)] by blast
    let ?g = "g2\<lparr>group_timer := x, group_state := IGMP_GROUP_DELAYING_MEMBER, group_use := 1\<rparr>"
    define s' where "s' = on_igmp (\<lambda>w. w\<lparr>beyond := v', igmp_mem := (igmp_mem w)(g \<mapsto> ?g)\<rparr>) t2"
    have run: "igmp_joingroup_netif ic ig n a s = ret (ERR_OK, s')"
      using new(1,6) a ni tg(2) v t2(1) x(1) g2f(3) unfolding t_def [symmetric] t1_def s'_def
      by (simp add: igmp_joingroup_netif_def lwip_assert_def new_group_def gget_def gput_def)
    have inv2: "pbuf_inv (pb t2)" using t2(2) by (simp add: undisturbed_def restored_def)
    have q: "undisturbed t s'" using quiet_trans [OF quiet_trans [OF q1(1) t2(2)] quiet_igmp [OF inv2]] by (simp add: s'_def)
    have e1: "changed_by (flagged g) (igmp_of t) (igmp_of t2)" by (rule changed_by_trans [OF q1(2) t2(3)]) simp
    have e2: "changed_by ?R (igmp_of t2) (igmp_of s')" using g2(1) by (simp add: s'_def changed_by_def option.rel_refl)
    have fr: "?R y a c" if "flagged g y a b" "?R y b c" for y a b c using that flagged_same [OF that(1)] by (auto split: if_splits)
    have e: "changed_by ?R w (igmp_of s')" using changed_by_trans [OF e1 e2 fr] by (simp add: t_def)
    have gok: "L n \<noteq> [] \<longrightarrow> group_ok (allsystems (igmp_of s)) ?g" using a x(2) g2f(2) by (simp add: group_ok_def)
    have mg: "igmp_mem (igmp_of s') g = Some ?g" by (simp add: s'_def)
    note nu = new_user [OF st D(8) [OF n] new(2,3,4,5,7,8) q [unfolded t_def] e mg gok]
    have "table_of s L n a = None" using new(2) by (simp add: table_of_def memberships_None)
    moreover have "add_group g (L n) \<noteq> []" by (cases "L n") simp_all
    moreover have "allsystems (igmp_of s') = allsystems (igmp_of s)" using e tall by (simp add: changed_by_def t_def)
    ultimately show ?thesis
      using run nu n by (intro exI [of _ ERR_OK] exI [of _ s'] exI [of _ "L(n := add_group g (L n))"]) (auto simp: join_spec_def)
  qed
qed

subsection \<open>Leaving\<close>

definition leave_spec :: "nat \<Rightarrow> u32 \<Rightarrow> err_t \<Rightarrow> (nat \<Rightarrow> u32 \<rightharpoonup> u8) \<Rightarrow> (nat \<Rightarrow> u32 \<rightharpoonup> u8) \<Rightarrow> bool" where
  "leave_spec n a r M M' \<longleftrightarrow> (case M n a of
       None \<Rightarrow> r = ERR_VAL \<and> M' = M
     | Some u \<Rightarrow> r = ERR_OK \<and> M' = M(n := (M n)(a := if u \<le> 1 then None else Some (u - 1))))"

lemma list_split:
  assumes "g \<in> set (tl gs)"
  obtains xs post where "gs = xs @ g # post" "xs \<noteq> []"
proof -
  obtain h ts where g: "gs = h # ts" "g \<in> set ts" using assms by (cases gs) auto
  then obtain ys post where "ts = ys @ g # post" by (meson split_list)
  then show thesis using g that [of "h # ys" post] by simp
qed

text \<open>The message that says goodbye, if the host was the last to report.\<close>

lemma goodbye:
  fixes s :: "'v mcast"
  assumes io: "driver nc transmit" "outside transmit" "netif_output ic = etharp_output nc" and flt: "filters_ok ig"
    and s: "sendable s" "igmp_netif s n" "ip4_addr_ismulticast (allrouters (igmp_of s))" and g: "g \<noteq> 0" "igmp_mem (igmp_of s) g = Some gr"
  shows "\<exists>s'. bind_run (if last_reporter_flag gr then igmp_send ic n g IGMP_LEAVE_GROUP s else ret s) (\<lambda>s. mac_filter ig n a NETIF_DEL_MAC_FILTER s) = ret s'
    \<and> undisturbed s s' \<and> changed_by (flagged g) (igmp_of s) (igmp_of s')"
proof -
  have inv: "pbuf_inv (pb s)" using s(1) by (simp add: sendable_def)
  have fl: "flagged g y b b" for y b by (cases b) (simp add: flagged_def)
  obtain t where t: "(if last_reporter_flag gr then igmp_send ic n g IGMP_LEAVE_GROUP s else ret s) = ret t" "undisturbed s t" "changed_by (flagged g) (igmp_of s) (igmp_of t)"
  proof (cases "last_reporter_flag gr")
    case True
    then show thesis
      using that send_quiet [OF io s(1,2) g, of IGMP_LEAVE_GROUP] s(3) by (auto simp: IGMP_LEAVE_GROUP_def IGMP_V2_MEMB_REPORT_def)
  next
    case False
    then show thesis using that [of s] inv fl by (simp add: undisturbed_def restored_refl others_kept_refl changed_by_refl)
  qed
  obtain v where v: "mac_filter ig n a NETIF_DEL_MAC_FILTER t = ret (on_igmp (\<lambda>w. w\<lparr>beyond := v\<rparr>) t)" using filter_quiet [OF flt] by blast
  have "pbuf_inv (pb t)" using t(2) by (simp add: undisturbed_def restored_def)
  note b = beyond_quiet [OF this, of v]
  have "changed_by (flagged g) (igmp_of s) (igmp_of (on_igmp (\<lambda>w. w\<lparr>beyond := v\<rparr>) t))" by (rule changed_by_trans [OF t(3) b(2)]) simp
  then show ?thesis using t(1) v quiet_trans [OF t(2) b(1)] by auto
qed

lemma flagged_without:
  assumes "changed_by (flagged g) w w'"
  shows "w'\<lparr>igmp_mem := (igmp_mem w')(g := None)\<rparr> = w\<lparr>igmp_mem := (igmp_mem w)(g := None), beyond := beyond w'\<rparr>"
proof -
  have "igmp_mem w' x = igmp_mem w x" if "x \<noteq> g" for x
    using changed_by_at [OF assms, of x] that flagged_same(6) by (cases "igmp_mem w x") fastforce+
  then have "(igmp_mem w')(g := None) = (igmp_mem w)(g := None)" by (simp add: fun_eq_iff)
  then show ?thesis using assms by (cases w; cases w') (simp add: changed_by_def)
qed

lemma leave_last:
  fixes s :: "'v mcast"
  assumes io: "driver nc transmit" "outside transmit" "netif_output ic = etharp_output nc" and flt: "filters_ok ig" and st: "igmp_state s L"
    and g: "igmp_mem (igmp_of s) g = Some gr" and ln: "L n = xs @ g # post" "xs \<noteq> []"
  shows "\<exists>s'. bind_run (igmp_remove_group n g s) (\<lambda>(_, s). bind_run (gget g s) (\<lambda>g'.
      bind_run (if last_reporter_flag g' then igmp_send ic n g IGMP_LEAVE_GROUP s else ret s) (\<lambda>s.
      bind_run (mac_filter ig n a NETIF_DEL_MAC_FILTER s) (\<lambda>s. bind_run (free_group g s) (\<lambda>s. ret (ERR_OK, s)))))) = ret (ERR_OK, s')
    \<and> igmp_state s' (L(n := xs @ post)) \<and> restored s s' \<and> table_of s' (L(n := xs @ post)) = (table_of s L)(n := (table_of s L n)(group_address gr := None))
    \<and> allsystems (igmp_of s') = allsystems (igmp_of s)"
proof -
  note D = igmp_stateD [OF st] and lD = igmp_listsD [OF D(2), of n]
  have dn: "distinct (xs @ g # post)" using lD(2) ln(1) by simp
  have g0: "g \<noteq> 0" using glistD(1) [OF lD(1)] ln(1) by simp
  have "last xs \<in> set (L n)" using ln by simp
  then obtain yr where y: "igmp_mem (igmp_of s) (last xs) = Some yr" using glistD(2) [OF lD(1)] by blast
  have gy: "g \<noteq> last xs" using dn ln(2) by auto
  define t where "t = gput (last xs) (yr\<lparr>group_next := group_next gr\<rparr>) s"
  have rem: "igmp_remove_group n g s = ret (ERR_OK, t)"
    unfolding igmp_remove_group_def t_def by (rule remove_spec [OF _ ln(2) _ g y]) (use lD(1) ln(1) dn in auto)
  have tg: "igmp_mem (igmp_of t) g = Some gr" "gget g t = ret gr" using g gy g0 by (simp_all add: t_def gget_def)
  have qt: "undisturbed s t" unfolding t_def by (rule quiet_gput [OF D(6)])
  have dt: "dom (igmp_mem (igmp_of t)) = dom (igmp_mem (igmp_of s))" using y by (auto simp: t_def)
  have ts: "sendable t" "igmp_netif t n" "ip4_addr_ismulticast (allrouters (igmp_of t))"
    using quietD(1,2) [OF qt] D(5,7) D(8) [of n] ln by (simp_all add: t_def)
  obtain u where u: "bind_run (if last_reporter_flag gr then igmp_send ic n g IGMP_LEAVE_GROUP t else ret t) (\<lambda>s. mac_filter ig n a NETIF_DEL_MAC_FILTER s) = ret u"
    "undisturbed t u" "changed_by (flagged g) (igmp_of t) (igmp_of u)" using goodbye [OF io flt ts g0 tg(1)] by blast
  have q: "undisturbed s u" by (rule quiet_trans [OF qt u(2)])
  have mu: "igmp_memory u" by (rule quietD(6) [OF q D(4)]) (use changed_by_dom [OF u(3)] dt in simp)
  obtain m where m: "free_group g u = ret (regrouped m ((igmp_of u)\<lparr>igmp_mem := (igmp_mem (igmp_of u))(g := None)\<rparr>) u)"
    "igmp_memory (regrouped m ((igmp_of u)\<lparr>igmp_mem := (igmp_mem (igmp_of u))(g := None)\<rparr>) u)"
    using free_group_ok [OF mu, of g] changed_by_dom [OF u(3)] tg(1) by auto
  define s' where "s' = regrouped m ((igmp_of u)\<lparr>igmp_mem := (igmp_mem (igmp_of u))(g := None)\<rparr>) u"
  let ?w = "(igmp_of s)\<lparr>igmp_mem := (igmp_mem (igmp_of s))(last xs \<mapsto> yr\<lparr>group_next := group_next gr\<rparr>, g := None)\<rparr>"
  have w: "igmp_of s' = ?w\<lparr>beyond := beyond (igmp_of u)\<rparr>" unfolding s'_def regrouped_simps flagged_without [OF u(3)] by (simp add: t_def)
  have r: "restored s s'" using restored_trans [OF _ regrouped_restored [OF m(2)]] q by (simp add: undisturbed_def s'_def)
  have "igmp_ok (igmp_of s') (L(n := xs @ post))" unfolding w beyond_irrelevant by (rule delete_group [OF D(1) ln g y])
  then have st': "igmp_state s' (L(n := xs @ post))"
    by (rule state_step [OF st r]) (use m(2) ln w in \<open>auto simp: s'_def [symmetric] split: if_splits\<close>)
  have x: "addr_of (igmp_of s') x = addr_of (igmp_of s) x \<and> use_of (igmp_of s') x = use_of (igmp_of s) x" if "x \<noteq> g" for x
    unfolding w using that y by (simp add: addr_of_def use_of_def)
  have "memberships (igmp_of s') (L k) = memberships (igmp_of s) (L k)" if "k \<noteq> n" for k
    by (rule memberships_cong, rule x) (use igmp_listsD(4) [OF D(2), of g n k] ln(1) that in auto)
  moreover have "memberships (igmp_of s') (xs @ post) = (memberships (igmp_of s) (xs @ g # post))(addr_of (igmp_of s) g := None)"
    by (rule memberships_remove [OF _ x]) (use lD(3) ln(1) dn in auto)
  ultimately have "table_of s' (L(n := xs @ post)) = (table_of s L)(n := (table_of s L n)(group_address gr := None))"
    using g ln(1) by (auto simp: table_of_def fun_eq_iff addr_of_def)
  moreover have "bind_run (gget g t) (\<lambda>g'. bind_run (if last_reporter_flag g' then igmp_send ic n g IGMP_LEAVE_GROUP t else ret t) (\<lambda>s.
      bind_run (mac_filter ig n a NETIF_DEL_MAC_FILTER s) (\<lambda>s. bind_run (free_group g s) (\<lambda>s. ret (ERR_OK, s))))) = ret (ERR_OK, s')"
    using tg(2) u(1) m(1) by (simp add: s'_def bind_run_assoc [symmetric])
  ultimately show ?thesis using rem st' r w by (intro exI [of _ s']) simp
qed

lemma igmp_leave_ok:
  fixes s :: "'v mcast"
  assumes io: "driver nc transmit" "outside transmit" "netif_output ic = etharp_output nc" and flt: "filters_ok ig"
    and st: "igmp_state s L" and a: "ip4_addr_ismulticast a" "a \<noteq> allsystems (igmp_of s)"
    and ni: "nget n s = ret ni" "netif_flags ni AND NETIF_FLAG_IGMP \<noteq> 0"
  shows "\<exists>r s' L'. igmp_leavegroup_netif ic ig n a s = ret (r, s') \<and> igmp_state s' L' \<and> restored s s' \<and> leave_spec n a r (table_of s L) (table_of s' L')
    \<and> (\<forall>k. L' k = [] \<longleftrightarrow> L k = []) \<and> allsystems (igmp_of s') = allsystems (igmp_of s)"
proof -
  note D = igmp_stateD [OF st]
  note lf = lookfor_ok [OF D(2), of n a]
  show ?thesis
  proof (cases "find (\<lambda>x. addr_of (igmp_of s) x = a) (L n)")
    case None
    then have "table_of s L n a = None" by (auto simp: table_of_def memberships_None find_None_iff)
    moreover have "igmp_leavegroup_netif ic ig n a s = ret (ERR_VAL, s)" using None lf a ni by (simp add: igmp_leavegroup_netif_def lwip_assert_def)
    ultimately show ?thesis using st D(6) by (intro exI [of _ ERR_VAL] exI [of _ s] exI [of _ L]) (simp add: leave_spec_def restored_refl)
  next
    case (Some g)
    then have g: "g \<in> set (L n)" "addr_of (igmp_of s) g = a" by (auto simp: find_Some_iff)
    obtain gr where gr: "g \<noteq> 0" "igmp_mem (igmp_of s) g = Some gr" "gget g s = ret gr" using listed_ret [OF D(2) g(1)] by metis
    have ad: "group_address gr = a" using g(2) gr(2) by (simp add: addr_of_def)
    have m: "table_of s L n a = Some (group_use gr)"
      using memberships_Some [OF igmp_listsD(3) [OF D(2)] g(1)] gr(2) ad by (simp add: table_of_def addr_of_def use_of_def)
    have tl: "g \<in> set (tl (L n))" using tl_group [OF D(3) g(1)] g(2) a(2) by simp
    show ?thesis
    proof (cases "group_use gr \<le> 1")
      case True
      obtain xs post where ln: "L n = xs @ g # post" "xs \<noteq> []" using list_split [OF tl] by metis
      have "igmp_leavegroup_netif ic ig n a s = bind_run (igmp_remove_group n g s) (\<lambda>(_, s). bind_run (gget g s) (\<lambda>g'.
          bind_run (if last_reporter_flag g' then igmp_send ic n g IGMP_LEAVE_GROUP s else ret s) (\<lambda>s.
          bind_run (mac_filter ig n a NETIF_DEL_MAC_FILTER s) (\<lambda>s. bind_run (free_group g s) (\<lambda>s. ret (ERR_OK, s))))))"
        using Some lf a ni gr True by (simp add: igmp_leavegroup_netif_def lwip_assert_def)
      then show ?thesis
        using leave_last [OF io flt st gr(2) ln, of a] m True ad ln
        by (elim exE) (rule exI [of _ ERR_OK], rule exI, rule exI [of _ "L(n := xs @ post)"], auto simp: leave_spec_def)
    next
      case False
      let ?g = "gr\<lparr>group_use := group_use gr - 1\<rparr>"
      have "group_ok (allsystems (igmp_of s)) gr" by (rule members_okD [OF D(3) tl gr(2)])
      then have cu: "igmp_state (gput g ?g s) L" "table_of (gput g ?g s) L = (table_of s L)(n := (table_of s L n)(a \<mapsto> group_use gr - 1))" "restored s (gput g ?g s)"
        using count_user [OF st g(1) gr(2), of ?g] ad by (auto simp: group_ok_def)
      have "igmp_leavegroup_netif ic ig n a s = ret (ERR_OK, gput g ?g s)"
        using Some lf a ni gr False by (simp add: igmp_leavegroup_netif_def lwip_assert_def)
      then show ?thesis using cu m False by (intro exI [of _ ERR_OK] exI [of _ "gput g ?g s"] exI [of _ L]) (simp add: leave_spec_def)
    qed
  qed
qed

subsection \<open>Stopping\<close>

text \<open>The groups of a list go back to their pool.\<close>

lemma stop_loop_ok:
  fixes s :: "'v mcast"
  assumes flt: "filters_ok ig" and "igmp_memory s" "glist (igmp_of s) x xs" "distinct xs"
  shows "\<exists>s' v. stop_loop ig n x s = ret s' \<and> igmp_memory s' \<and> restored s s'
    \<and> igmp_of s' = (igmp_of s)\<lparr>igmp_mem := (\<lambda>g. if g \<in> set xs then None else igmp_mem (igmp_of s) g), beyond := v\<rparr>"
  using assms(2-)
proof (induction xs arbitrary: x s)
  case Nil
  then have "stop_loop ig n x s = ret s" by (simp add: stop_loop.simps)
  then show ?case using Nil.prems(1) by (intro exI [of _ s] exI [of _ "beyond (igmp_of s)"]) (simp add: restored_refl igmp_memory_def)
next
  case (Cons g xs)
  then obtain gr where gr: "x = g" "g \<noteq> 0" "igmp_mem (igmp_of s) g = Some gr" "glist (igmp_of s) (group_next gr) xs" by (auto split: option.splits)
  obtain v where v: "mac_filter ig n (group_address gr) NETIF_DEL_MAC_FILTER s = ret (on_igmp (\<lambda>w. w\<lparr>beyond := v\<rparr>) s)" using filter_quiet [OF flt] by blast
  define t where "t = on_igmp (\<lambda>w. w\<lparr>beyond := v\<rparr>) s"
  have inv: "pbuf_inv (pb s)" using Cons.prems(1) by (simp add: igmp_memory_def)
  have q: "undisturbed s t" unfolding t_def by (rule quiet_igmp [OF inv])
  have mt: "igmp_memory t" by (rule quietD(6) [OF q Cons.prems(1)]) (simp add: t_def)
  obtain m where m: "free_group g t = ret (regrouped m ((igmp_of t)\<lparr>igmp_mem := (igmp_mem (igmp_of t))(g := None)\<rparr>) t)"
    "igmp_memory (regrouped m ((igmp_of t)\<lparr>igmp_mem := (igmp_mem (igmp_of t))(g := None)\<rparr>) t)"
    using free_group_ok [OF mt, of g] gr(3) by (auto simp: t_def)
  define u where "u = regrouped m ((igmp_of t)\<lparr>igmp_mem := (igmp_mem (igmp_of t))(g := None)\<rparr>) t"
  have ru: "restored s u" using restored_trans [OF _ regrouped_restored [OF m(2)]] q by (simp add: u_def undisturbed_def)
  have wu: "igmp_of u = (igmp_of s)\<lparr>igmp_mem := (igmp_mem (igmp_of s))(g := None), beyond := v\<rparr>" by (simp add: u_def t_def)
  have gx: "g \<notin> set xs" using Cons.prems(3) by simp
  have "glist (igmp_of u) (group_next gr) xs = glist (igmp_of s) (group_next gr) xs" unfolding wu by (rule glist_cong) (use gx in auto)
  then obtain s' v' where s': "stop_loop ig n (group_next gr) u = ret s'" "igmp_memory s'" "restored u s'"
    "igmp_of s' = (igmp_of u)\<lparr>igmp_mem := (\<lambda>y. if y \<in> set xs then None else igmp_mem (igmp_of u) y), beyond := v'\<rparr>"
    using Cons.IH [of u "group_next gr"] m(2) gr(4) Cons.prems(3) unfolding u_def [symmetric] by auto
  have "stop_loop ig n x s = ret s'"
    using gr(1,2) gget_ret [OF gr(2,3)] v m(1) s'(1) unfolding t_def [symmetric] u_def [symmetric]
    by (subst stop_loop.simps) (simp add: t_def)
  moreover have "igmp_of s' = (igmp_of s)\<lparr>igmp_mem := (\<lambda>y. if y \<in> set (g # xs) then None else igmp_mem (igmp_of s) y), beyond := v'\<rparr>"
    unfolding s'(4) wu by (simp add: fun_eq_iff)
  ultimately show ?case using s'(2) restored_trans [OF ru s'(3)] by blast
qed

lemma drop_list:
  assumes ok: "igmp_ok w L"
  shows "igmp_ok (w\<lparr>netif_igmp_data := (netif_igmp_data w)(n := 0), igmp_mem := (\<lambda>g. if g \<in> set (L n) then None else igmp_mem w g)\<rparr>) (L(n := []))"
    (is "igmp_ok ?w ?L")
proof -
  have l: "igmp_lists w L" and m: "members_ok w L" and d: "dom (igmp_mem w) = (\<Union>n. set (L n))" using ok by (simp_all add: igmp_ok_def)
  note lD = igmp_listsD [OF l]
  have nk: "g \<notin> set (L n)" if "k \<noteq> n" "g \<in> set (L k)" for k g using lD(4) that by blast
  have ad: "addr_of ?w g = addr_of w g" if "g \<notin> set (L n)" for g using that by (simp add: addr_of_def)
  have gl: "glist ?w x (L k) = glist w x (L k)" if "k \<noteq> n" for k x by (rule glist_cong) (use nk [OF that] in auto)
  have mp: "map (addr_of ?w) (L k) = map (addr_of w) (L k)" if "k \<noteq> n" for k using ad nk [OF that] by auto
  have "distinct (map (addr_of ?w) (L k))" if "k \<noteq> n" for k unfolding mp [OF that] by (rule lD(3))
  then have "igmp_lists ?w ?L" unfolding igmp_lists_def using l gl by (auto simp: igmp_lists_def)
  moreover have "members_ok ?w ?L"
    unfolding members_ok_def
  proof (intro allI impI)
    fix k assume k: "?L k \<noteq> []"
    then have kn: "k \<noteq> n" "L k \<noteq> []" by (auto split: if_splits)
    have "hd (L k) \<notin> set (L n)" using nk [OF kn(1)] kn(2) by simp
    then show "addr_of ?w (hd (?L k)) = allsystems ?w \<and> (\<forall>g\<in>set (tl (?L k)). \<forall>gr. igmp_mem ?w g = Some gr \<longrightarrow> group_ok (allsystems ?w) gr)"
      using m kn ad [of "hd (L k)"] members_okD [OF m] by (auto simp: members_ok_def)
  qed
  moreover have "dom (igmp_mem ?w) = (\<Union>k. set (?L k))"
  proof -
    have "dom (igmp_mem ?w) = dom (igmp_mem w) - set (L n)" by (auto split: if_splits)
    also have "\<dots> = (\<Union>k\<in>- {n}. set (L k))" using nk unfolding d UN_lists(2) [of L n] by auto
    finally show ?thesis unfolding UN_lists(1) by simp
  qed
  ultimately show ?thesis by (simp add: igmp_ok_def)
qed

lemma igmp_stop_ok:
  fixes s :: "'v mcast"
  assumes flt: "filters_ok ig" and st: "igmp_state s L"
  shows "\<exists>s'. igmp_stop ig n s = ret (ERR_OK, s') \<and> igmp_state s' (L(n := [])) \<and> restored s s'
    \<and> table_of s' (L(n := [])) = (table_of s L)(n := Map.empty) \<and> allsystems (igmp_of s') = allsystems (igmp_of s)"
proof -
  note D = igmp_stateD [OF st] and lD = igmp_listsD [OF igmp_stateD(2) [OF st], of n]
  define t where "t = set_igmp_data n 0 s"
  have q: "undisturbed s t" unfolding t_def set_igmp_data_def by (rule quiet_igmp [OF D(6)])
  have wt: "igmp_of t = (igmp_of s)\<lparr>netif_igmp_data := (netif_igmp_data (igmp_of s))(n := 0)\<rparr>" by (simp add: t_def set_igmp_data_def)
  have mt: "igmp_memory t" by (rule quietD(6) [OF q D(4)]) (simp add: wt)
  have "glist (igmp_of t) (netif_igmp_data (igmp_of s) n) (L n) = glist (igmp_of s) (netif_igmp_data (igmp_of s) n) (L n)"
    unfolding wt by (rule glist_cong) simp
  then obtain s' v where s': "stop_loop ig n (netif_igmp_data (igmp_of s) n) t = ret s'" "igmp_memory s'" "restored t s'"
    "igmp_of s' = (igmp_of t)\<lparr>igmp_mem := (\<lambda>g. if g \<in> set (L n) then None else igmp_mem (igmp_of t) g), beyond := v\<rparr>"
    using stop_loop_ok [OF flt mt _ lD(2), of "netif_igmp_data (igmp_of s) n" n] lD(1) by auto
  have w: "igmp_of s' = (igmp_of s)\<lparr>netif_igmp_data := (netif_igmp_data (igmp_of s))(n := 0), igmp_mem := (\<lambda>g. if g \<in> set (L n) then None else igmp_mem (igmp_of s) g)\<rparr>\<lparr>beyond := v\<rparr>"
    unfolding s'(4) wt by (simp cong: if_cong)
  have r: "restored s s'" using restored_trans [OF _ s'(3)] q by (simp add: undisturbed_def)
  have ok: "igmp_ok (igmp_of s') (L(n := []))" unfolding w beyond_irrelevant by (rule drop_list [OF D(1)])
  have "igmp_state s' (L(n := []))" by (rule state_step [OF st r ok s'(2)]) (auto simp: w split: if_splits)
  moreover have "memberships (igmp_of s') (L k) = memberships (igmp_of s) (L k)" if "k \<noteq> n" for k
    by (rule memberships_cong) (use igmp_listsD(4) [OF D(2)] that in \<open>auto simp: w addr_of_def use_of_def\<close>)
  then have "table_of s' (L(n := [])) = (table_of s L)(n := Map.empty)" by (auto simp: table_of_def fun_eq_iff memberships_def)
  moreover have "igmp_stop ig n s = ret (ERR_OK, s')" using s'(1) by (simp add: igmp_stop_def t_def)
  ultimately show ?thesis using r w by (intro exI [of _ s']) simp
qed

end
