(* ===== verification/Igmp_Timers.thy ===== *)
theory Igmp_Timers
  imports Igmp_Run
begin

text \<open>
  The rest of IGMP on whole states: the round of the timer over all interfaces, queries and reports of others, and the operations
  that work on several interfaces.
\<close>

subsection \<open>The timer\<close>

lemma state_addressed:
  assumes "igmp_state s L" "g \<in> set (L n)"
  shows "addressed (igmp_of s) g"
proof -
  note D = igmp_stateD [OF assms(1)]
  obtain gr where gr: "igmp_mem (igmp_of s) g = Some gr" using listed_ret [OF D(2) assms(2)] by metis
  show ?thesis
  proof (cases "addr_of (igmp_of s) g = allsystems (igmp_of s)")
    case False
    then show ?thesis using members_okD [OF D(3) tl_group [OF D(3) assms(2)] gr] gr by (simp add: addressed_def group_ok_def addr_of_def)
  qed (simp add: addressed_def)
qed

text \<open>What a round does to the groups of the interfaces in \<open>ns\<close>.\<close>

definition round_of :: "u32 \<Rightarrow> nat list \<Rightarrow> (nat \<Rightarrow> nat list) \<Rightarrow> nat \<Rightarrow> igmp_group \<Rightarrow> igmp_group \<Rightarrow> bool" where
  "round_of all ns L y a b \<longleftrightarrow> (if \<exists>n\<in>set ns. y \<in> set (L n) then ticked all a b else b = a)"

lemma kept_refl: "kept all a a"
  by (simp add: kept_def)

lemma tmr_netifs_ok:
  fixes s :: "'v mcast"
  assumes io: "driver nc transmit" "outside transmit" "netif_output ic = etharp_output nc" and "igmp_state s L" "distinct ns"
  shows "\<exists>s'. tmr_netifs ic ns s = ret s' \<and> undisturbed s s' \<and> changed_by (round_of (allsystems (igmp_of s)) ns L) (igmp_of s) (igmp_of s')"
  using assms(4-)
proof (induction ns arbitrary: s)
  case Nil
  then show ?case using igmp_stateD(6) [OF Nil.prems(1)]
    by (intro exI [of _ s]) (simp add: undisturbed_def restored_refl others_kept_refl changed_by_refl round_of_def)
next
  case (Cons n ns)
  let ?all = "allsystems (igmp_of s)"
  note D = igmp_stateD [OF Cons.prems(1)] and lD = igmp_listsD [OF igmp_stateD(2) [OF Cons.prems(1)]]
  have "\<exists>t. tmr_groups ic n (netif_igmp_data (igmp_of s) n) s = ret t \<and> undisturbed s t
      \<and> changed_by (\<lambda>y a b. if y \<in> set (L n) then ticked ?all a b else b = a) (igmp_of s) (igmp_of t)"
  proof (cases "L n = []")
    case True
    then have "netif_igmp_data (igmp_of s) n = 0" using lD(1) [of n] by simp
    then have "tmr_groups ic n (netif_igmp_data (igmp_of s) n) s = ret s" by (subst tmr_groups.simps) simp
    then show ?thesis using True D(6) by (intro exI [of _ s]) (simp add: undisturbed_def restored_refl others_kept_refl changed_by_refl)
  next
    case False
    have "\<forall>y\<in>set (L n). addressed (igmp_of s) y" using state_addressed [OF Cons.prems(1)] by blast
    then show ?thesis by (rule tmr_groups_ok [OF io D(5) D(8) [OF False] lD(1,2)])
  qed
  then obtain t where t: "tmr_groups ic n (netif_igmp_data (igmp_of s) n) s = ret t" "undisturbed s t"
    "changed_by (\<lambda>y a b. if y \<in> set (L n) then ticked ?all a b else b = a) (igmp_of s) (igmp_of t)" by blast
  have tk: "kept ?all a b" if "if y \<in> set (L n) then ticked ?all a b else b = a" for y a b
    using that ticked_kept [of ?all a b] kept_refl [of ?all a] by (simp split: if_splits)
  have t': "igmp_state t L" by (rule evolved_step(1) [OF Cons.prems(1) t(2,3)]) (rule tk)
  obtain s' where s': "tmr_netifs ic ns t = ret s'" "undisturbed t s'" "changed_by (round_of (allsystems (igmp_of t)) ns L) (igmp_of t) (igmp_of s')"
    using Cons.IH [OF t'] Cons.prems(2) unfolding distinct.simps by blast
  have all: "allsystems (igmp_of t) = ?all" using t(3) by (simp add: changed_by_def)
  have rd: "round_of ?all (n # ns) L y a c" if "if y \<in> set (L n) then ticked ?all a b else b = a" "round_of (allsystems (igmp_of t)) ns L y b c" for y a b c
  proof (cases "y \<in> set (L n)")
    case True
    have "\<not> (\<exists>k\<in>set ns. y \<in> set (L k))"
    proof
      assume "\<exists>k\<in>set ns. y \<in> set (L k)"
      then obtain k where "k \<in> set ns" "y \<in> set (L k)" by blast
      moreover from this(2) have "n = k" by (rule lD(4) [OF True])
      ultimately show False using Cons.prems(2) by simp
    qed
    then show ?thesis using True that by (simp add: round_of_def)
  next
    case False
    then have "b = a" using that(1) by simp
    then show ?thesis using False that(2) unfolding round_of_def all by (simp split: if_splits)
  qed
  have "changed_by (round_of ?all (n # ns) L) (igmp_of s) (igmp_of s')" by (rule changed_by_trans [OF t(3) s'(3)]) (rule rd)
  then show ?case using t(1) s'(1) quiet_trans [OF t(2) s'(2)] by (intro exI [of _ s']) simp
qed

lemma round_kept: "round_of all ns L y a b \<Longrightarrow> kept all a b"
  using ticked_kept kept_refl by (auto simp: round_of_def split: if_splits)

subsection \<open>Queries\<close>

lemma skip_ok:
  assumes "igmp_lists (igmp_of s) L"
  shows "\<exists>x. skip_first (netif_igmp_data (igmp_of s) n) s = ret x \<and> glist (igmp_of s) x (tl (L n))"
proof (cases "L n")
  case Nil
  then show ?thesis using igmp_listsD(1) [OF assms, of n] by (simp add: skip_first_def)
next
  case (Cons h gs)
  then obtain hr where "netif_igmp_data (igmp_of s) n = h" "h \<noteq> 0" "igmp_mem (igmp_of s) h = Some hr" "glist (igmp_of s) (group_next hr) gs"
    using igmp_listsD(1) [OF assms, of n] by (auto split: option.splits)
  then show ?thesis using Cons by (simp add: skip_first_def gget_def)
qed

text \<open>A query with the response time \<open>m\<close> for the groups in \<open>X\<close>.\<close>

definition asked :: "u8 \<Rightarrow> nat set \<Rightarrow> nat \<Rightarrow> igmp_group \<Rightarrow> igmp_group \<Rightarrow> bool" where
  "asked m X y a b \<longleftrightarrow> (if y \<in> X then delayed m a b else b = a)"

lemma asked_kept: "asked m X y a b \<Longrightarrow> kept all a b"
  using delayed_kept kept_refl by (auto simp: asked_def split: if_splits)

lemma evolved_asked_none: "changed_by (asked m {}) w w"
  by (rule changed_by_refl) (simp add: asked_def)

lemma delay_quiet:
  assumes st: "igmp_state s L" and n: "skip_first (netif_igmp_data (igmp_of s) n) s = ret x" "glist (igmp_of s) x (tl (L n))"
  shows "\<exists>s'. delay_groups ig x m s = ret s' \<and> undisturbed s s' \<and> changed_by (asked m (set (tl (L n)))) (igmp_of s) (igmp_of s')"
proof -
  note D = igmp_stateD [OF st]
  have "distinct (tl (L n))" using igmp_listsD(2) [OF D(2)] by (rule distinct_tl)
  then obtain w' where w': "delay_groups ig x m s = ret (on_igmp (\<lambda>_. w') s)" "changed_by (asked m (set (tl (L n)))) (igmp_of s) w'"
    using delay_groups_ok [OF n(2)] unfolding asked_def by blast
  then show ?thesis using quiet_igmp [OF D(6)] by (intro exI [of _ "on_igmp (\<lambda>_. w') s"]) simp
qed

lemma report_groups_ok:
  assumes st: "igmp_state s L"
  shows "\<exists>s'. igmp_report_groups ig n s = ret s' \<and> undisturbed s s' \<and> changed_by (asked IGMP_JOIN_DELAYING_MEMBER_TMR (set (tl (L n)))) (igmp_of s) (igmp_of s')"
proof -
  obtain x where x: "skip_first (netif_igmp_data (igmp_of s) n) s = ret x" "glist (igmp_of s) x (tl (L n))" using skip_ok [OF igmp_stateD(2) [OF st]] by blast
  then show ?thesis using delay_quiet [OF st x] by (simp add: igmp_report_groups_def)
qed

text \<open>What a query asks for, with \<open>m\<close> and \<open>ga\<close> the time and the group of the message: the response time, and the groups of the list that it is about.\<close>

definition query_time :: "u32 \<Rightarrow> u32 \<Rightarrow> u32 \<Rightarrow> u8 \<Rightarrow> u8" where
  "query_time all dest ga m = (if dest = all \<and> ga = IPADDR_ANY \<and> m = 0 then IGMP_V1_DELAYING_MEMBER_TMR else m)"

definition query_groups :: "'v igmp \<Rightarrow> nat list \<Rightarrow> u32 \<Rightarrow> u32 \<Rightarrow> nat set" where
  "query_groups w gs dest ga =
     (if ga = IPADDR_ANY then if dest = allsystems w then set (tl gs) else {}
      else {g \<in> set gs. addr_of w g = (if dest = allsystems w then ga else dest)})"

lemma delaying_quiet:
  assumes st: "igmp_state s L" and g: "g \<in> set (L n)"
  shows "\<exists>s'. igmp_delaying_member ig g m s = ret s' \<and> undisturbed s s' \<and> changed_by (asked m {g}) (igmp_of s) (igmp_of s')"
proof -
  note D = igmp_stateD [OF st]
  obtain gr where gr: "g \<noteq> 0" "igmp_mem (igmp_of s) g = Some gr" using listed_ret [OF D(2) g] by metis
  obtain w' where "igmp_delaying_member ig g m s = ret (on_igmp (\<lambda>_. w') s)" "changed_by (asked m {g}) (igmp_of s) w'"
    using delaying_ok [OF gr, of ig m] unfolding asked_def singleton_iff by blast
  then show ?thesis using quiet_igmp [OF D(6)] by (intro exI [of _ "on_igmp (\<lambda>_. w') s"]) simp
qed

lemma store_quiet:
  assumes "igmp_state s L"
  shows "undisturbed s (store_bytes a bs s)" "igmp_state (store_bytes a bs s) L" "igmp_of (store_bytes a bs s) = igmp_of s"
proof -
  have "stored s (world s) (store_bytes a bs s)" by (intro stored_intros)
  then show q: "undisturbed s (store_bytes a bs s)" using igmp_stateD(6) [OF assms] by (auto simp: stored_def undisturbed_def restored_def others_kept_def)
  show w: "igmp_of (store_bytes a bs s) = igmp_of s" by (simp add: store_bytes_def)
  show "igmp_state (store_bytes a bs s) L" by (rule evolved_step(1) [OF assms q, of "\<lambda>_ a b. b = a"]) (simp_all add: w changed_by_refl kept_refl)
qed

lemma one_group:
  assumes "igmp_lists w L" "find (\<lambda>x. addr_of w x = a) (L n) = r"
  shows "{g \<in> set (L n). addr_of w g = a} = (case r of None \<Rightarrow> {} | Some g \<Rightarrow> {g})"
proof (cases r)
  case None
  then show ?thesis using assms(2) by (auto simp: find_None_iff)
next
  case (Some g)
  then have g: "g \<in> set (L n)" "addr_of w g = a" using assms(2) by (auto simp: find_Some_iff)
  have "inj_on (addr_of w) (set (L n))" using igmp_listsD(3) [OF assms(1), of n] by (simp add: distinct_map)
  then have "x = g" if "x \<in> set (L n)" "addr_of w x = a" for x using that g by (metis inj_onD)
  then have "{h \<in> set (L n). addr_of w h = a} = {g}" using g by blast
  then show ?thesis using Some by simp
qed

lemma igmp_query_ok:
  fixes s :: "'v mcast" and a :: nat
  assumes st: "igmp_state s L" and g: "g \<in> set (L n)" "addr_of (igmp_of s) g = dest"
  defines "m \<equiv> bytes (pb s) (a + 1)" and "ga \<equiv> load32 (a + 4) (pb s)" and "all \<equiv> allsystems (igmp_of s)"
  shows "\<exists>s'. igmp_query ig a n dest g s = ret s' \<and> undisturbed s s'
    \<and> changed_by (asked (query_time all dest ga m) (query_groups (igmp_of s) (L n) dest ga)) (igmp_of s) (igmp_of s')"
proof -
  note D = igmp_stateD [OF st]
  have g0: "g \<noteq> 0" using listed_ret [OF D(2) g(1)] by metis
  consider (general) "dest = all" "ga = IPADDR_ANY" | (none) "dest \<noteq> all" "ga = IPADDR_ANY" | (one) "ga \<noteq> IPADDR_ANY" by blast
  then show ?thesis
  proof cases
    case general
    define t where "t = (if m = 0 then store_bytes (a + 1) [IGMP_V1_DELAYING_MEMBER_TMR] s else s)"
    have t: "igmp_state t L" "undisturbed s t" "igmp_of t = igmp_of s"
      using store_quiet [OF st] st D(6) by (simp_all add: t_def undisturbed_def restored_refl others_kept_refl)
    have tm: "bytes (pb t) (a + 1) = query_time all dest ga m"
      using general by (simp add: t_def m_def query_time_def store_bytes_def write_bytes_def)
    obtain x where x: "skip_first (netif_igmp_data (igmp_of t) n) t = ret x" "glist (igmp_of t) x (tl (L n))" using skip_ok [OF igmp_stateD(2) [OF t(1)]] by blast
    obtain s' where s': "delay_groups ig x (bytes (pb t) (a + 1)) t = ret s'" "undisturbed t s'" "changed_by (asked (bytes (pb t) (a + 1)) (set (tl (L n)))) (igmp_of t) (igmp_of s')"
      using delay_quiet [OF t(1) x] by blast
    have ev: "changed_by (asked (query_time all dest ga m) (set (tl (L n)))) (igmp_of s) (igmp_of s')" using s'(3) unfolding tm t(3) .
    have "igmp_query ig a n dest g s = ret s'"
      using general x(1) s'(1) unfolding igmp_query_def Let_def t_def m_def ga_def all_def by simp
    moreover have "query_groups (igmp_of s) (L n) dest ga = set (tl (L n))" using general by (simp add: query_groups_def all_def)
    ultimately show ?thesis using ev quiet_trans [OF t(2) s'(2)] by auto
  next
    case none
    then have "igmp_query ig a n dest g s = ret s" "query_groups (igmp_of s) (L n) dest ga = {}"
      unfolding igmp_query_def Let_def ga_def all_def query_groups_def by simp_all
    then show ?thesis using D(6) evolved_asked_none by (intro exI [of _ s]) (simp add: undisturbed_def restored_refl others_kept_refl)
  next
    case one
    let ?f = "find (\<lambda>x. addr_of (igmp_of s) x = (if dest = all then ga else dest)) (L n)"
    have X: "query_groups (igmp_of s) (L n) dest ga = (case ?f of None \<Rightarrow> {} | Some g \<Rightarrow> {g})"
      using one one_group [OF D(2) refl] by (simp add: query_groups_def all_def)
    have tm: "query_time all dest ga m = m" using one by (simp add: query_time_def)
    have sel: "?f = Some g" if d: "dest \<noteq> all"
    proof -
      have "g \<in> (case find (\<lambda>x. addr_of (igmp_of s) x = dest) (L n) of None \<Rightarrow> {} | Some h \<Rightarrow> {h})"
        unfolding one_group [OF D(2) refl, symmetric] using g by simp
      then show ?thesis using d by (simp split: option.splits)
    qed
    have run: "igmp_query ig a n dest g s = (case ?f of None \<Rightarrow> ret s | Some h \<Rightarrow> igmp_delaying_member ig h m s)"
    proof (cases "dest = all")
      case True
      have "h \<noteq> 0" if "?f = Some h" for h using that listed_ret [OF D(2), of h n] by (auto simp: find_Some_iff)
      then show ?thesis using True one lookfor_ok [OF D(2), of n ga] unfolding igmp_query_def Let_def ga_def all_def m_def by (auto split: option.splits)
    next
      case False
      then show ?thesis using sel one g0 unfolding igmp_query_def Let_def ga_def all_def m_def by simp
    qed
    show ?thesis
    proof (cases ?f)
      case None
      then show ?thesis using run X D(6) evolved_asked_none by (intro exI [of _ s]) (simp add: undisturbed_def restored_refl others_kept_refl)
    next
      case (Some h)
      then have "h \<in> set (L n)" by (auto simp: find_Some_iff)
      then show ?thesis using run X Some delaying_quiet [OF st] by (simp add: tm)
    qed
  qed
qed

subsection \<open>Packets\<close>

text \<open>A packet is consumed: nothing but its buffers is gone.\<close>

lemma free_state:
  fixes s :: "'v mcast"
  assumes st: "igmp_state s L" and p: "linked (pb s) p xs" "xs \<noteq> []" "\<forall>x\<in>set xs. ref_of (pb s) x = 1"
  shows "\<exists>s'. free_pbuf p s = ret s' \<and> igmp_state s' L \<and> igmp_of s' = igmp_of s
    \<and> pbufs (pb s') = (\<lambda>x. if x \<in> set xs then None else pbufs (pb s) x) \<and> netifs s' = netifs s \<and> netif_list s' = netif_list s"
proof -
  note D = igmp_stateD [OF st]
  obtain m u where u: "pbuf_free p (pb s) = ret (m, u)" "pbuf_inv u" "ram (pheap u) = ram (pheap (pb s))"
    "pbufs u = (\<lambda>x. if x \<in> set xs then None else pbufs (pb s) x)" using free_all_ok [OF D(6) p] by blast
  have ok: "others_kept (pb s) u" using free_others [OF D(6) p(1) _ u(1)] p(3) by simp
  have "free_pbuf p s = ret (s\<lparr>pb := u\<rparr>)" using u(1) by (simp add: free_pbuf_def on_pb_def)
  moreover have "(MEMP_IGMP_GROUP, g) \<in> memp_live (memp_pools u) (ppools u) \<longleftrightarrow> (MEMP_IGMP_GROUP, g) \<in> memp_live (memp_pools (pb s)) (ppools (pb s))" for g
    using ok other_pool_igmp unfolding others_kept_def by blast
  then have "igmp_memory (s\<lparr>pb := u\<rparr>)" using D(4) u(2) by (simp add: igmp_memory_def)
  then have "igmp_state (s\<lparr>pb := u\<rparr>) L"
    using D u(2,3) unfolding igmp_state_def sendable_def igmp_netif_def ether_netif_def by simp
  ultimately show ?thesis using u(4) by (intro exI [of _ "s\<lparr>pb := u\<rparr>"]) simp
qed

text \<open>The report of another host makes ours superfluous.\<close>

definition reported :: "nat \<Rightarrow> nat \<Rightarrow> igmp_group \<Rightarrow> igmp_group \<Rightarrow> bool" where
  "reported g y a b \<longleftrightarrow> b = (if y = g \<and> group_state a = IGMP_GROUP_DELAYING_MEMBER
     then a\<lparr>group_timer := 0, group_state := IGMP_GROUP_IDLE_MEMBER, last_reporter_flag := False\<rparr> else a)"

lemma reported_kept: "reported g y a b \<Longrightarrow> kept all a b"
  by (auto simp: reported_def kept_def group_ok_def split: if_splits)

lemma report_ok:
  assumes st: "igmp_state s L" and g: "g \<in> set (L n)"
  shows "\<exists>s'. igmp_report g s = ret s' \<and> undisturbed s s' \<and> changed_by (reported g) (igmp_of s) (igmp_of s')"
proof -
  note D = igmp_stateD [OF st]
  obtain gr where gr: "igmp_mem (igmp_of s) g = Some gr" "gget g s = ret gr" using listed_ret [OF D(2) g] by metis
  show ?thesis
  proof (cases "group_state gr = IGMP_GROUP_DELAYING_MEMBER")
    case True
    let ?g = "gr\<lparr>group_timer := 0, group_state := IGMP_GROUP_IDLE_MEMBER, last_reporter_flag := False\<rparr>"
    have "changed_by (reported g) (igmp_of s) (igmp_of (gput g ?g s))" using gr(1) True by (simp add: changed_by_def reported_def option.rel_refl)
    then show ?thesis using True gr(2) quiet_gput [OF D(6), of g ?g] by (intro exI [of _ "gput g ?g s"]) (simp add: igmp_report_def)
  next
    case False
    have "rel_option (reported g y) (igmp_mem (igmp_of s) y) (igmp_mem (igmp_of s) y)" for y
      using False gr(1) by (cases "igmp_mem (igmp_of s) y") (auto simp: reported_def)
    then show ?thesis using False gr(2) D(6) by (intro exI [of _ s]) (simp add: igmp_report_def changed_by_def undisturbed_def restored_refl others_kept_refl)
  qed
qed

text \<open>What a message of the bytes at \<open>a\<close> does to the groups, if it gets that far.\<close>

definition message_effect :: "nat \<Rightarrow> nat \<Rightarrow> u32 \<Rightarrow> nat list \<Rightarrow> 'v mcast \<Rightarrow> nat \<Rightarrow> igmp_group \<Rightarrow> igmp_group \<Rightarrow> bool" where
  "message_effect a len dest gs s =
     (let w = igmp_of s; type = bytes (pb s) a; m = bytes (pb s) (a + 1); ga = load32 (a + 4) (pb s) in
      if len < IGMP_MINLEN \<or> inet_chksum a len (pb s) \<noteq> 0 then (\<lambda>_ x y. y = x)
      else case find (\<lambda>x. addr_of w x = dest) gs of
        None \<Rightarrow> (\<lambda>_ x y. y = x)
      | Some g \<Rightarrow>
          if type = IGMP_MEMB_QUERY then asked (query_time (allsystems w) dest ga m) (query_groups w gs dest ga)
          else if type = IGMP_V2_MEMB_REPORT then reported g
          else (\<lambda>_ x y. y = x))"

lemma heard_kept: "message_effect a len dest gs s y x x' \<Longrightarrow> kept all x x'"
  unfolding message_effect_def Let_def using asked_kept reported_kept kept_refl by (auto split: if_splits option.splits)

lemma igmp_input_ok:
  fixes s :: "'v mcast"
  assumes st: "igmp_state s L" and p: "linked (pb s) p xs" "xs \<noteq> []" "\<forall>x\<in>set xs. ref_of (pb s) x = 1" and b: "pbufs (pb s) p = Some b"
  shows "\<exists>s'. igmp_input ig p n dest s = ret s' \<and> igmp_state s' L \<and> changed_by (message_effect (pb_payload b) (pb_len b) dest (L n) s) (igmp_of s) (igmp_of s')
    \<and> pbufs (pb s') = (\<lambda>x. if x \<in> set xs then None else pbufs (pb s) x) \<and> netifs s' = netifs s \<and> netif_list s' = netif_list s"
proof -
  note D = igmp_stateD [OF st]
  let ?a = "pb_payload b" and ?R = "message_effect (pb_payload b) (pb_len b) dest (L n) s"
  let ?f = "find (\<lambda>x. addr_of (igmp_of s) x = dest) (L n)"
  have "p \<noteq> 0" using p(1,2) by (cases xs) auto
  then have pg: "pget p (pb s) = ret b" using b by (simp add: pget_def)
  have "\<exists>t. igmp_input ig p n dest s = free_pbuf p t \<and> undisturbed s t \<and> changed_by ?R (igmp_of s) (igmp_of t)"
  proof (cases "pb_len b < IGMP_MINLEN \<or> inet_chksum ?a (pb_len b) (pb s) \<noteq> 0 \<or> ?f = None")
    case True
    then have "igmp_input ig p n dest s = free_pbuf p s" using pg lookfor_ok [OF D(2), of n dest] by (auto simp: igmp_input_def Let_def)
    moreover have "?R = (\<lambda>_ x y. y = x)" using True unfolding message_effect_def Let_def by auto
    ultimately show ?thesis using D(6) by (intro exI [of _ s]) (simp add: changed_by_refl undisturbed_def restored_refl others_kept_refl)
  next
    case False
    then obtain g where g: "?f = Some g" "\<not> pb_len b < IGMP_MINLEN" "inet_chksum ?a (pb_len b) (pb s) = 0" by auto
    then have gL: "g \<in> set (L n)" "addr_of (igmp_of s) g = dest" by (auto simp: find_Some_iff)
    have g0: "g \<noteq> 0" using listed_ret [OF D(2) gL(1)] by metis
    let ?run = "if bytes (pb s) ?a = IGMP_MEMB_QUERY then igmp_query ig ?a n dest g s else if bytes (pb s) ?a = IGMP_V2_MEMB_REPORT then igmp_report g s else ret s"
    have run: "igmp_input ig p n dest s = bind_run ?run (\<lambda>s. free_pbuf p s)"
      using pg g g0 lookfor_ok [OF D(2), of n dest] by (simp add: igmp_input_def Let_def)
    consider "bytes (pb s) ?a = IGMP_MEMB_QUERY" | "bytes (pb s) ?a \<noteq> IGMP_MEMB_QUERY" "bytes (pb s) ?a = IGMP_V2_MEMB_REPORT"
      | "bytes (pb s) ?a \<noteq> IGMP_MEMB_QUERY" "bytes (pb s) ?a \<noteq> IGMP_V2_MEMB_REPORT" by blast
    then have "\<exists>t. ?run = ret t \<and> undisturbed s t \<and> changed_by ?R (igmp_of s) (igmp_of t)"
    proof cases
      case 1
      then show ?thesis using igmp_query_ok [OF st gL, of ig ?a] g unfolding message_effect_def Let_def by simp
    next
      case 2
      then show ?thesis using report_ok [OF st gL(1)] g unfolding message_effect_def Let_def by simp
    next
      case 3
      then show ?thesis using g D(6) unfolding message_effect_def Let_def by (intro exI [of _ s]) (simp add: changed_by_refl undisturbed_def restored_refl others_kept_refl)
    qed
    then show ?thesis using run by auto
  qed
  then obtain t where t: "igmp_input ig p n dest s = free_pbuf p t" "undisturbed s t" "changed_by ?R (igmp_of s) (igmp_of t)" by blast
  have t': "igmp_state t L" by (rule evolved_step(1) [OF st t(2,3)]) (rule heard_kept)
  have "pbufs (pb t) = pbufs (pb s)" by (rule quietD(5) [OF t(2)])
  then have l: "linked (pb t) p xs" "\<forall>x\<in>set xs. ref_of (pb t) x = 1" using p linked_frame [of xs "pb t" "pb s"] by (simp_all add: ref_of_def)
  obtain s' where "free_pbuf p t = ret s'" "igmp_state s' L" "igmp_of s' = igmp_of t"
    "pbufs (pb s') = (\<lambda>x. if x \<in> set xs then None else pbufs (pb s) x)" "netifs s' = netifs s" "netif_list s' = netif_list s"
    using free_state [OF t' l(1) p(2) l(2)] unfolding quietD(3-5) [OF t(2)] by blast
  then show ?thesis using t(1,3) by (intro exI [of _ s']) simp
qed

subsection \<open>All interfaces\<close>

text \<open>The interfaces that an address selects.\<close>

definition selected :: "u32 \<Rightarrow> 'v mcast \<Rightarrow> nat \<Rightarrow> bool" where
  "selected ifaddr s n \<longleftrightarrow> (case netifs s n of None \<Rightarrow> False | Some ni \<Rightarrow> igmp_selected ifaddr ni)"

fun joins_spec :: "u32 \<Rightarrow> nat list \<Rightarrow> err_t \<Rightarrow> err_t \<Rightarrow> (nat \<Rightarrow> u32 \<rightharpoonup> u8) \<Rightarrow> (nat \<Rightarrow> u32 \<rightharpoonup> u8) \<Rightarrow> bool" where
  "joins_spec a [] e r M M' \<longleftrightarrow> r = e \<and> M' = M"
| "joins_spec a (n # ns) e r M M' \<longleftrightarrow> (\<exists>r1 M1. join_spec n a r1 M M1 \<and> (if r1 \<noteq> ERR_OK then r = r1 \<and> M' = M1 else joins_spec a ns r1 r M1 M'))"

fun leaves_spec :: "u32 \<Rightarrow> nat list \<Rightarrow> err_t \<Rightarrow> err_t \<Rightarrow> (nat \<Rightarrow> u32 \<rightharpoonup> u8) \<Rightarrow> (nat \<Rightarrow> u32 \<rightharpoonup> u8) \<Rightarrow> bool" where
  "leaves_spec a [] e r M M' \<longleftrightarrow> r = e \<and> M' = M"
| "leaves_spec a (n # ns) e r M M' \<longleftrightarrow> (\<exists>r1 M1. leave_spec n a r1 M M1 \<and> leaves_spec a ns (if e \<noteq> ERR_OK then r1 else e) r M1 M')"

text \<open>The interfaces exist, and those for IGMP have been started.\<close>

definition all_started :: "'v mcast \<Rightarrow> (nat \<Rightarrow> nat list) \<Rightarrow> nat list \<Rightarrow> bool" where
  "all_started s L ns \<longleftrightarrow> (\<forall>n\<in>set ns. \<exists>ni. n \<noteq> 0 \<and> netifs s n = Some ni \<and> (netif_flags ni AND NETIF_FLAG_IGMP \<noteq> 0 \<longrightarrow> L n \<noteq> []))"

lemma started_step:
  assumes "all_started s L ns" "restored s s'" "\<forall>k. L' k = [] \<longleftrightarrow> L k = []"
  shows "all_started s' L' ns" "selected ifaddr s' = selected ifaddr s"
  using assms by (auto simp: all_started_def restored_def selected_def fun_eq_iff)

lemma join_netifs_ok:
  fixes s :: "'v mcast"
  assumes io: "driver nc transmit" "outside transmit" "netif_output ic = etharp_output nc" and flt: "filters_ok ig" and a: "ip4_addr_ismulticast a"
    and "igmp_state s L" "a \<noteq> allsystems (igmp_of s)" "all_started s L ns"
  shows "\<exists>r s' L'. join_netifs ic ig ifaddr a ns e s = ret (r, s') \<and> igmp_state s' L' \<and> restored s s'
    \<and> joins_spec a (filter (selected ifaddr s) ns) e r (table_of s L) (table_of s' L')
    \<and> (\<forall>k. L' k = [] \<longleftrightarrow> L k = []) \<and> allsystems (igmp_of s') = allsystems (igmp_of s)"
  using assms(6-)
proof (induction ns arbitrary: s L e)
  case Nil
  then show ?case using igmp_stateD(6) [OF Nil.prems(1)] by (intro exI [of _ e] exI [of _ s] exI [of _ L]) (simp add: restored_refl)
next
  case (Cons n ns)
  obtain ni where ni: "n \<noteq> 0" "netifs s n = Some ni" "netif_flags ni AND NETIF_FLAG_IGMP \<noteq> 0 \<longrightarrow> L n \<noteq> []" using Cons.prems(3) by (auto simp: all_started_def)
  have ng: "nget n s = ret ni" using ni(1,2) by (simp add: nget_def)
  have ns: "all_started s L ns" using Cons.prems(3) by (simp add: all_started_def)
  show ?case
  proof (cases "igmp_selected ifaddr ni")
    case False
    then show ?thesis using ng ni(2) Cons.IH [OF Cons.prems(1,2) ns] by (simp add: selected_def)
  next
    case True
    then have fl: "netif_flags ni AND NETIF_FLAG_IGMP \<noteq> 0" by (simp add: igmp_selected_def)
    obtain r1 s1 L1 where s1: "igmp_joingroup_netif ic ig n a s = ret (r1, s1)" "igmp_state s1 L1" "restored s s1"
      "join_spec n a r1 (table_of s L) (table_of s1 L1)" "\<forall>k. L1 k = [] \<longleftrightarrow> L k = []" "allsystems (igmp_of s1) = allsystems (igmp_of s)"
      using igmp_join_ok [OF io flt Cons.prems(1) _ a Cons.prems(2) ng fl] ni(3) fl by blast
    have sel: "filter (selected ifaddr s) (n # ns) = n # filter (selected ifaddr s) ns" using True ni(2) by (simp add: selected_def)
    show ?thesis
    proof (cases "r1 = ERR_OK")
      case False
      then have "join_netifs ic ig ifaddr a (n # ns) e s = ret (r1, s1)" using ng True s1(1) by simp
      moreover have "joins_spec a (filter (selected ifaddr s) (n # ns)) e r1 (table_of s L) (table_of s1 L1)" unfolding sel using False s1(4) by auto
      ultimately show ?thesis using s1 by blast
    next
      case True': True
      have "a \<noteq> allsystems (igmp_of s1)" using s1(6) Cons.prems(2) by simp
      then obtain r s' L' where s': "join_netifs ic ig ifaddr a ns r1 s1 = ret (r, s')" "igmp_state s' L'" "restored s1 s'"
        "joins_spec a (filter (selected ifaddr s) ns) r1 r (table_of s1 L1) (table_of s' L')" "\<forall>k. L' k = [] \<longleftrightarrow> L1 k = []" "allsystems (igmp_of s') = allsystems (igmp_of s1)"
        using Cons.IH [OF s1(2) _ started_step(1) [OF ns s1(3,5)]] unfolding started_step(2) [OF ns s1(3,5)] by blast
      have "join_netifs ic ig ifaddr a (n # ns) e s = ret (r, s')" using ng True s1(1) s'(1) True' by simp
      moreover have "joins_spec a (filter (selected ifaddr s) (n # ns)) e r (table_of s L) (table_of s' L')"
        unfolding sel joins_spec.simps using True' s1(4) s'(4) by auto
      ultimately show ?thesis using s'(2,5,6) s1(5,6) restored_trans [OF s1(3) s'(3)] by metis
    qed
  qed
qed

lemma leave_netifs_ok:
  fixes s :: "'v mcast"
  assumes io: "driver nc transmit" "outside transmit" "netif_output ic = etharp_output nc" and flt: "filters_ok ig" and a: "ip4_addr_ismulticast a"
    and "igmp_state s L" "a \<noteq> allsystems (igmp_of s)" "\<forall>n\<in>set ns. n \<noteq> 0 \<and> netifs s n \<noteq> None"
  shows "\<exists>r s' L'. leave_netifs ic ig ifaddr a ns e s = ret (r, s') \<and> igmp_state s' L' \<and> restored s s'
    \<and> leaves_spec a (filter (selected ifaddr s) ns) e r (table_of s L) (table_of s' L')
    \<and> (\<forall>k. L' k = [] \<longleftrightarrow> L k = []) \<and> allsystems (igmp_of s') = allsystems (igmp_of s)"
  using assms(6-)
proof (induction ns arbitrary: s L e)
  case Nil
  then show ?case using igmp_stateD(6) [OF Nil.prems(1)] by (intro exI [of _ e] exI [of _ s] exI [of _ L]) (simp add: restored_refl)
next
  case (Cons n ns)
  obtain ni where ni: "n \<noteq> 0" "netifs s n = Some ni" using Cons.prems(3) by auto
  have ng: "nget n s = ret ni" using ni by (simp add: nget_def)
  have ns: "\<forall>n\<in>set ns. n \<noteq> 0 \<and> netifs s n \<noteq> None" using Cons.prems(3) by simp
  show ?case
  proof (cases "igmp_selected ifaddr ni")
    case False
    then show ?thesis using ng ni(2) Cons.IH [OF Cons.prems(1,2) ns] by (simp add: selected_def)
  next
    case True
    then have fl: "netif_flags ni AND NETIF_FLAG_IGMP \<noteq> 0" by (simp add: igmp_selected_def)
    obtain r1 s1 L1 where s1: "igmp_leavegroup_netif ic ig n a s = ret (r1, s1)" "igmp_state s1 L1" "restored s s1"
      "leave_spec n a r1 (table_of s L) (table_of s1 L1)" "\<forall>k. L1 k = [] \<longleftrightarrow> L k = []" "allsystems (igmp_of s1) = allsystems (igmp_of s)"
      using igmp_leave_ok [OF io flt Cons.prems(1) a Cons.prems(2) ng fl] by blast
    have sel: "filter (selected ifaddr s) (n # ns) = n # filter (selected ifaddr s) ns" using True ni(2) by (simp add: selected_def)
    have n1: "netifs s1 = netifs s" using s1(3) by (simp add: restored_def)
    then have sel1: "selected ifaddr s1 = selected ifaddr s" by (simp add: selected_def fun_eq_iff)
    have "a \<noteq> allsystems (igmp_of s1)" "\<forall>n\<in>set ns. n \<noteq> 0 \<and> netifs s1 n \<noteq> None" using s1(6) Cons.prems(2) ns n1 by simp_all
    then obtain r s' L' where s': "leave_netifs ic ig ifaddr a ns (if e \<noteq> ERR_OK then r1 else e) s1 = ret (r, s')" "igmp_state s' L'" "restored s1 s'"
      "leaves_spec a (filter (selected ifaddr s) ns) (if e \<noteq> ERR_OK then r1 else e) r (table_of s1 L1) (table_of s' L')"
      "\<forall>k. L' k = [] \<longleftrightarrow> L1 k = []" "allsystems (igmp_of s') = allsystems (igmp_of s1)"
      using Cons.IH [OF s1(2)] unfolding sel1 by blast
    have "leave_netifs ic ig ifaddr a (n # ns) e s = ret (r, s')" using ng True s1(1) s'(1) by simp
    moreover have "leaves_spec a (filter (selected ifaddr s) (n # ns)) e r (table_of s L) (table_of s' L')"
      unfolding sel leaves_spec.simps using s1(4) s'(4) by blast
    ultimately show ?thesis using s'(2,5,6) s1(5,6) restored_trans [OF s1(3) s'(3)] by metis
  qed
qed

end
