(* ===== verification/Igmp_Properties.thy ===== *)
theory Igmp_Properties
  imports Igmp_Timers Icmp_Properties
begin

text \<open>
  The properties of IGMP: the machine of all its operations and the example host that the witnesses use, then the theorems.
\<close>

subsection \<open>The machine\<close>

text \<open>The calls of the application, the timer, the driver and IP, in any order.\<close>

datatype igmp_event =
    Igmp_start nat
  | Igmp_stop nat
  | Igmp_joingroup u32 u32
  | Igmp_joingroup_netif nat u32
  | Igmp_leavegroup u32 u32
  | Igmp_leavegroup_netif nat u32
  | Igmp_report_groups nat
  | Igmp_tmr
  | Igmp_input nat nat u32

fun igmp_call :: "'v igmp inet_calls \<Rightarrow> 'v igmp_calls \<Rightarrow> igmp_event \<Rightarrow> 'v mcast \<Rightarrow> (err_t \<times> 'v mcast) run" where
  "igmp_call ic ig (Igmp_start n) s = Igmp.igmp_start ig n s"
| "igmp_call ic ig (Igmp_stop n) s = igmp_stop ig n s"
| "igmp_call ic ig (Igmp_joingroup ifaddr a) s = igmp_joingroup ic ig ifaddr a s"
| "igmp_call ic ig (Igmp_joingroup_netif n a) s = igmp_joingroup_netif ic ig n a s"
| "igmp_call ic ig (Igmp_leavegroup ifaddr a) s = igmp_leavegroup ic ig ifaddr a s"
| "igmp_call ic ig (Igmp_leavegroup_netif n a) s = igmp_leavegroup_netif ic ig n a s"
| "igmp_call ic ig (Igmp_report_groups n) s = bind_run (Igmp.igmp_report_groups ig n s) (\<lambda>s. ret (ERR_OK, s))"
| "igmp_call ic ig Igmp_tmr s = bind_run (igmp_tmr ic s) (\<lambda>s. ret (ERR_OK, s))"
| "igmp_call ic ig (Igmp_input p n dest) s = bind_run (Igmp.igmp_input ig p n dest s) (\<lambda>s. ret (ERR_OK, s))"

text \<open>An interface for IGMP that \<open>igmp_start\<close> was called for with success.\<close>

definition running :: "'v mcast \<Rightarrow> nat \<Rightarrow> bool" where
  "running s n \<longleftrightarrow> n \<noteq> 0 \<and> netif_igmp_data (igmp_of s) n \<noteq> 0 \<and> (case netifs s n of None \<Rightarrow> False | Some ni \<Rightarrow> netif_flags ni AND NETIF_FLAG_IGMP \<noteq> 0)"

definition present :: "'v mcast \<Rightarrow> nat \<Rightarrow> (netif \<Rightarrow> bool) \<Rightarrow> bool" where
  "present s n P \<longleftrightarrow> n \<noteq> 0 \<and> (case netifs s n of None \<Rightarrow> False | Some ni \<Rightarrow> P ni)"

definition group_arg :: "'v mcast \<Rightarrow> u32 \<Rightarrow> bool" where
  "group_arg s a \<longleftrightarrow> ip4_addr_ismulticast a \<and> a \<noteq> allsystems (igmp_of s)"

fun igmp_allowed :: "igmp_event \<Rightarrow> 'v mcast \<Rightarrow> bool" where
  "igmp_allowed (Igmp_start n) s \<longleftrightarrow> igmp_netif s n"
| "igmp_allowed (Igmp_stop n) s \<longleftrightarrow> True"
| "igmp_allowed (Igmp_joingroup ifaddr a) s \<longleftrightarrow> group_arg s a
     \<and> (\<forall>n\<in>set (netif_list s). present s n (\<lambda>ni. netif_flags ni AND NETIF_FLAG_IGMP \<noteq> 0 \<longrightarrow> netif_igmp_data (igmp_of s) n \<noteq> 0))"
| "igmp_allowed (Igmp_joingroup_netif n a) s \<longleftrightarrow> group_arg s a \<and> running s n"
| "igmp_allowed (Igmp_leavegroup ifaddr a) s \<longleftrightarrow> group_arg s a \<and> (\<forall>n\<in>set (netif_list s). present s n (\<lambda>_. True))"
| "igmp_allowed (Igmp_leavegroup_netif n a) s \<longleftrightarrow> group_arg s a \<and> present s n (\<lambda>ni. netif_flags ni AND NETIF_FLAG_IGMP \<noteq> 0)"
| "igmp_allowed (Igmp_report_groups n) s \<longleftrightarrow> True"
| "igmp_allowed Igmp_tmr s \<longleftrightarrow> distinct (netif_list s)"
| "igmp_allowed (Igmp_input p n dest) s \<longleftrightarrow> (\<exists>xs. xs \<noteq> [] \<and> linked (pb s) p xs \<and> (\<forall>x\<in>set xs. ref_of (pb s) x = 1))"

text \<open>What the calls mean for the table of memberships.\<close>

fun table_step :: "igmp_event \<Rightarrow> 'v mcast \<Rightarrow> err_t \<Rightarrow> (nat \<Rightarrow> u32 \<rightharpoonup> u8) \<Rightarrow> (nat \<Rightarrow> u32 \<rightharpoonup> u8) \<Rightarrow> bool" where
  "table_step (Igmp_start n) s r M M' \<longleftrightarrow> join_spec n (allsystems (igmp_of s)) r M M'"
| "table_step (Igmp_stop n) s r M M' \<longleftrightarrow> r = ERR_OK \<and> M' = M(n := Map.empty)"
| "table_step (Igmp_joingroup ifaddr a) s r M M' \<longleftrightarrow> joins_spec a (filter (selected ifaddr s) (netif_list s)) ERR_VAL r M M'"
| "table_step (Igmp_joingroup_netif n a) s r M M' \<longleftrightarrow> join_spec n a r M M'"
| "table_step (Igmp_leavegroup ifaddr a) s r M M' \<longleftrightarrow> leaves_spec a (filter (selected ifaddr s) (netif_list s)) ERR_VAL r M M'"
| "table_step (Igmp_leavegroup_netif n a) s r M M' \<longleftrightarrow> leave_spec n a r M M'"
| "table_step (Igmp_report_groups n) s r M M' \<longleftrightarrow> r = ERR_OK \<and> M' = M"
| "table_step Igmp_tmr s r M M' \<longleftrightarrow> r = ERR_OK \<and> M' = M"
| "table_step (Igmp_input p n dest) s r M M' \<longleftrightarrow> r = ERR_OK \<and> M' = M"

text \<open>The driver sends whole frames and, as the filters, leaves the stack alone; ARP is the output function of the interfaces.\<close>

definition igmp_env :: "'v igmp inet net_calls \<Rightarrow> 'v igmp inet_calls \<Rightarrow> 'v igmp_calls \<Rightarrow> bool" where
  "igmp_env nc ic ig \<longleftrightarrow> (\<exists>transmit. driver nc transmit \<and> outside transmit) \<and> netif_output ic = etharp_output nc \<and> filters_ok ig"

lemma head_iff: "igmp_state s L \<Longrightarrow> netif_igmp_data (igmp_of s) n = 0 \<longleftrightarrow> L n = []"
  using igmp_listsD(1) [OF igmp_stateD(2), of s L n] by (cases "L n") (auto split: option.splits)

lemma presentE:
  assumes "present s n P"
  obtains ni where "n \<noteq> 0" "netifs s n = Some ni" "nget n s = ret ni" "P ni"
  using assms by (auto simp: present_def nget_def split: option.splits)

text \<open>What no call changes.\<close>

definition steady :: "'v mcast \<Rightarrow> 'v mcast \<Rightarrow> bool" where
  "steady s s' \<longleftrightarrow> netifs s' = netifs s \<and> netif_list s' = netif_list s \<and> allsystems (igmp_of s') = allsystems (igmp_of s)"

lemma restored_steady: "restored s s' \<Longrightarrow> allsystems (igmp_of s') = allsystems (igmp_of s) \<Longrightarrow> steady s s'"
  by (simp add: steady_def restored_def)

text \<open>A call that changes groups only.\<close>

lemma evolved_call:
  assumes "igmp_state s L" "undisturbed s s'" "changed_by R (igmp_of s) (igmp_of s')" "\<And>y a b. R y a b \<Longrightarrow> kept (allsystems (igmp_of s)) a b"
  shows "igmp_state s' L \<and> table_of s' L = table_of s L \<and> steady s s'"
proof -
  have "steady s s'" using assms(2,3) by (intro restored_steady) (simp_all add: undisturbed_def changed_by_def)
  then show ?thesis using evolved_step [OF assms(1-3)] assms(4) by blast
qed

lemma input_call:
  fixes s :: "'v mcast"
  assumes st: "igmp_state s L" and p: "linked (pb s) p xs" "xs \<noteq> []" "\<forall>x\<in>set xs. ref_of (pb s) x = 1"
  shows "\<exists>s'. Igmp.igmp_input ig p n dest s = ret s' \<and> igmp_state s' L \<and> table_of s' L = table_of s L \<and> steady s s'"
proof -
  obtain b where b: "pbufs (pb s) p = Some b" using p(1,2) by (cases xs) (auto split: option.splits)
  let ?R = "message_effect (pb_payload b) (pb_len b) dest (L n) s"
  obtain s' where s': "Igmp.igmp_input ig p n dest s = ret s'" "igmp_state s' L" "changed_by ?R (igmp_of s) (igmp_of s')"
    "netifs s' = netifs s" "netif_list s' = netif_list s" using igmp_input_ok [OF st p b] by blast
  have ev: "changed_by (\<lambda>_. kept (allsystems (igmp_of s))) (igmp_of s) (igmp_of s')" by (rule changed_by_mono [OF s'(3)]) (rule heard_kept)
  have "addr_of (igmp_of s') = addr_of (igmp_of s)" by (rule changed_by_addr [OF ev]) (simp add: kept_def)
  moreover have "use_of (igmp_of s') y = use_of (igmp_of s) y" for y
    using changed_by_at [OF ev, of y] by (cases "igmp_mem (igmp_of s) y") (auto simp: use_of_def kept_def)
  ultimately have "table_of s' L = table_of s L" unfolding table_of_def by (intro ext memberships_cong) simp
  then show ?thesis using s' by (auto simp: changed_by_def steady_def)
qed

lemma call_ok:
  fixes s :: "'v mcast"
  assumes env: "igmp_env nc ic ig" and st: "igmp_state s L" and al: "igmp_allowed e s"
  shows "\<exists>r s' L'. igmp_call ic ig e s = ret (r, s') \<and> igmp_state s' L' \<and> table_step e s r (table_of s L) (table_of s' L')
    \<and> steady s s'"
proof -
  obtain transmit where io: "driver nc transmit" "outside transmit" "netif_output ic = etharp_output nc" and flt: "filters_ok ig"
    using env by (auto simp: igmp_env_def)
  note D = igmp_stateD [OF st]
  have fin: "\<exists>r s' L'. ret (ERR_OK, t) = ret (r, s') \<and> igmp_state s' L' \<and> r = ERR_OK \<and> table_of s' L' = table_of s L \<and> steady s s'"
    if "igmp_state t L \<and> table_of t L = table_of s L \<and> steady s t" for t
    using that by (intro exI [of _ ERR_OK] exI [of _ t] exI [of _ L]) simp
  show ?thesis
  proof (cases e)
    case (Igmp_start n)
    then show ?thesis using igmp_start_ok [OF flt st, of n] al restored_steady by fastforce
  next
    case (Igmp_stop n)
    then show ?thesis using igmp_stop_ok [OF flt st, of n] restored_steady by fastforce
  next
    case (Igmp_joingroup ifaddr a)
    then have a: "ip4_addr_ismulticast a" "a \<noteq> allsystems (igmp_of s)" using al by (simp_all add: group_arg_def)
    have "all_started s L (netif_list s)" unfolding all_started_def
      using al head_iff [OF st] by (fastforce simp: Igmp_joingroup elim!: presentE)
    then show ?thesis
      using join_netifs_ok [OF io flt a(1) st a(2), of "netif_list s" ifaddr ERR_VAL] a restored_steady
      by (fastforce simp: Igmp_joingroup igmp_joingroup_def lwip_assert_def)
  next
    case (Igmp_joingroup_netif n a)
    then have a: "ip4_addr_ismulticast a" "a \<noteq> allsystems (igmp_of s)" "running s n" using al by (simp_all add: group_arg_def)
    then obtain ni where "nget n s = ret ni" "netif_flags ni AND NETIF_FLAG_IGMP \<noteq> 0" "L n \<noteq> []"
      using head_iff [OF st] by (auto simp: running_def nget_def split: option.splits)
    then show ?thesis using igmp_join_ok [OF io flt st _ a(1,2)] restored_steady unfolding Igmp_joingroup_netif igmp_call.simps table_step.simps by blast
  next
    case (Igmp_leavegroup ifaddr a)
    then have a: "ip4_addr_ismulticast a" "a \<noteq> allsystems (igmp_of s)" using al by (simp_all add: group_arg_def)
    have "\<forall>n\<in>set (netif_list s). n \<noteq> 0 \<and> netifs s n \<noteq> None" using al by (fastforce simp: Igmp_leavegroup elim!: presentE)
    then show ?thesis
      using leave_netifs_ok [OF io flt a(1) st a(2), of "netif_list s" ifaddr ERR_VAL] a restored_steady
      by (fastforce simp: Igmp_leavegroup igmp_leavegroup_def lwip_assert_def)
  next
    case (Igmp_leavegroup_netif n a)
    then have a: "ip4_addr_ismulticast a" "a \<noteq> allsystems (igmp_of s)" "present s n (\<lambda>ni. netif_flags ni AND NETIF_FLAG_IGMP \<noteq> 0)"
      using al by (simp_all add: group_arg_def)
    from a(3) obtain ni where "nget n s = ret ni" "netif_flags ni AND NETIF_FLAG_IGMP \<noteq> 0" by (rule presentE)
    then show ?thesis using igmp_leave_ok [OF io flt st a(1,2)] restored_steady unfolding Igmp_leavegroup_netif igmp_call.simps table_step.simps by blast
  next
    case (Igmp_report_groups n)
    obtain t where t: "Igmp.igmp_report_groups ig n s = ret t" "undisturbed s t" "changed_by (asked IGMP_JOIN_DELAYING_MEMBER_TMR (set (tl (L n)))) (igmp_of s) (igmp_of t)"
      using report_groups_ok [OF st] by blast
    then show ?thesis using fin [OF evolved_call [OF st t(2,3) asked_kept]] by (simp add: Igmp_report_groups)
  next
    case Igmp_tmr
    then have "distinct (netif_list s)" using al by simp
    then obtain t where t: "igmp_tmr ic s = ret t" "undisturbed s t" "changed_by (round_of (allsystems (igmp_of s)) (netif_list s) L) (igmp_of s) (igmp_of t)"
      using tmr_netifs_ok [OF io st] unfolding igmp_tmr_def by blast
    then show ?thesis using fin [OF evolved_call [OF st t(2,3) round_kept]] by (simp add: Igmp_tmr)
  next
    case (Igmp_input p n dest)
    then obtain xs where xs: "linked (pb s) p xs" "xs \<noteq> []" "\<forall>x\<in>set xs. ref_of (pb s) x = 1" using al by auto
    obtain t where t: "Igmp.igmp_input ig p n dest s = ret t" "igmp_state t L \<and> table_of t L = table_of s L \<and> steady s t"
      using input_call [OF st xs] by blast
    show ?thesis using fin [OF t(2)] t(1) by (simp add: Igmp_input)
  qed
qed

fun igmp_step :: "igmp_event \<Rightarrow> 'v igmp inet net_calls \<times> 'v igmp inet_calls \<times> 'v igmp_calls \<times> 'v mcast
    \<Rightarrow> ('v igmp inet net_calls \<times> 'v igmp inet_calls \<times> 'v igmp_calls \<times> 'v mcast) run" where
  "igmp_step e (nc, ic, ig, s) = bind_run (igmp_call ic ig e s) (\<lambda>(_, s). ret (nc, ic, ig, s))"

fun igmp_step_allowed :: "igmp_event \<Rightarrow> 'v igmp inet net_calls \<times> 'v igmp inet_calls \<times> 'v igmp_calls \<times> 'v mcast \<Rightarrow> bool" where
  "igmp_step_allowed e (nc, ic, ig, s) \<longleftrightarrow> igmp_allowed e s"

fun igmp_machine_inv :: "'v igmp inet net_calls \<times> 'v igmp inet_calls \<times> 'v igmp_calls \<times> 'v mcast \<Rightarrow> bool" where
  "igmp_machine_inv (nc, ic, ig, s) \<longleftrightarrow> igmp_env nc ic ig \<and> (\<exists>L. igmp_state s L)"

lemma igmp_step_law:
  assumes "igmp_machine_inv x" "igmp_step_allowed e x"
  shows "\<exists>x'. igmp_step e x = ret x' \<and> igmp_machine_inv x'"
proof -
  obtain nc ic ig s where x: "x = (nc, ic, ig, s)" by (cases x)
  obtain L where L: "igmp_env nc ic ig" "igmp_state s L" using assms(1) by (auto simp: x)
  obtain r s' L' where "igmp_call ic ig e s = ret (r, s')" "igmp_state s' L'" using call_ok [OF L, of e] assms(2) by (auto simp: x)
  then show ?thesis using L(1) by (auto simp: x)
qed

interpretation igmp: run_machine igmp_step igmp_machine_inv igmp_step_allowed
  by unfold_locales (rule igmp_step_law)

text \<open>Calls that stay allowed whatever the other calls do.\<close>

lemma always_allowed:
  assumes env: "igmp_env nc ic ig" and "igmp_state s L" "\<forall>e\<in>set es. \<forall>s'. steady s s' \<longrightarrow> igmp_allowed e s'"
  shows "all_allowed igmp_step igmp_step_allowed es (nc, ic, ig, s)"
  using assms(2-)
proof (induction es arbitrary: s L)
  case (Cons e es)
  have al: "igmp_allowed e s" using Cons.prems(2) by (simp add: steady_def)
  obtain r s' L' where s': "igmp_call ic ig e s = ret (r, s')" "igmp_state s' L'" "steady s s'" using call_ok [OF env Cons.prems(1) al] by blast
  have "\<forall>e\<in>set es. \<forall>t. steady s' t \<longrightarrow> igmp_allowed e t" using Cons.prems(2) s'(3) by (simp add: steady_def)
  then have "all_allowed igmp_step igmp_step_allowed es (nc, ic, ig, s')" by (rule Cons.IH [OF s'(2)])
  moreover have "igmp_step e (nc, ic, ig, s) = Some (Inr (nc, ic, ig, s'))" using s'(1) by (simp add: ret_def [symmetric])
  ultimately show ?case using al by (simp del: igmp_step.simps)
qed simp

subsection \<open>An example host\<close>

text \<open>
  The interface has joined 224.0.0.251, with \<open>g\<close> the state of that group; all elements of the pool of groups are taken. The packet at 50 is a
  general query with a response time of 100 tenths of a second.
\<close>

definition example_allsystems :: igmp_group where
  "example_allsystems = \<lparr>group_next = 70608, group_address = PP_HTONL 0xe0000001, last_reporter_flag = False, group_state = IGMP_GROUP_IDLE_MEMBER,
     group_timer = 0, group_use = 1\<rparr>"

definition example_group :: "u8 \<Rightarrow> igmp_group" where
  "example_group use = \<lparr>group_next = 0, group_address = PP_HTONL 0xe00000fb, last_reporter_flag = True, group_state = IGMP_GROUP_IDLE_MEMBER,
     group_timer = 0, group_use = use\<rparr>"

definition example_query_bytes :: "u8 list" where
  "example_query_bytes = [0x11, 100, 0xEE, 0x9B, 0, 0, 0, 0]"

definition example_igmp_pb :: pbuf_state where
  "example_igmp_pb = (pset 50 ((example_pbuf 0 200 8 8)\<lparr>pb_type_internal := 0x80\<rparr>)
       (example_ram_pbuf\<lparr>ppools := (ppools example_ram_pbuf)\<lparr>memp_tab := (memp_tab (ppools example_ram_pbuf))(MEMP_IGMP_GROUP := 0)\<rparr>\<rparr>))
     \<lparr>bytes := (\<lambda>a. if 200 \<le> a \<and> a < 208 then example_query_bytes ! (a - 200) else 0)\<rparr>"

definition example_member :: "u8 \<Rightarrow> frames igmp" where
  "example_member use = \<lparr>allsystems = PP_HTONL 0xe0000001, allrouters = PP_HTONL 0xe0000002,
     igmp_mem = [70000 \<mapsto> example_allsystems, 70608 \<mapsto> example_group use], netif_igmp_data = (\<lambda>_. 0)(1 := 70000), beyond = []\<rparr>"

definition example_igmp_netif :: netif where
  "example_igmp_netif = example_netif\<lparr>netif_flags := 0x2F\<rparr>"

definition example_mcast :: "u8 \<Rightarrow> frames mcast" where
  "example_mcast use = \<lparr>arp_table = example_table 0, etharp_cached_entry = 0, pb = example_igmp_pb, netifs = [1 \<mapsto> example_igmp_netif],
     netif_list = [1], netif_default = 1, next_netif_num = 1, autoips = (\<lambda>_. None),
     world = \<lparr>ip_data = example_ip_data, ip_id = 1, ip4_default_multicast_netif = 0, udp_pcbs = [], udp_mem = Map.empty, udp_port = 0xc000,
       outer = example_member use\<rparr>\<rparr>"

text \<open>The host before its interface was started.\<close>

definition example_unstarted :: "frames mcast" where
  "example_unstarted = on_igmp (\<lambda>w. w\<lparr>netif_igmp_data := (\<lambda>_. 0)\<rparr>) (example_mcast 1)"

definition example_groups :: "nat \<Rightarrow> nat list" where
  "example_groups = (\<lambda>_. [])(1 := [70000, 70608])"

definition example_mcast_wire :: "frames igmp inet net_calls" where
  "example_mcast_wire =
     \<lparr>linkoutput = (\<lambda>n p s. bind_run (pget p (pb s)) (\<lambda>b. bind_run (pbuf_copy_partial p (pb_tot_len b) 0 (pb s)) (\<lambda>bs.
        ret (ERR_OK, on_igmp (\<lambda>w. w\<lparr>beyond := beyond w @ [(n, bs)]\<rparr>) s)))),
      ip4_input = (\<lambda>p n s. ret s), ip6_input = (\<lambda>p n s. ret s), dhcp_arp_reply = (\<lambda>n a s. ret s), dhcp_network_changed = (\<lambda>n s. ret s),
      tcp_netif_ip_addr_changed = (\<lambda>a b s. ret s), udp_netif_ip_addr_changed = (\<lambda>a b s. ret s), igmp_start = (\<lambda>n s. ret s), igmp_report_groups = (\<lambda>n s. ret s),
      mld6_report_groups = (\<lambda>n s. ret s), nd6_restart_netif = (\<lambda>n s. ret s), nd6_cleanup_netif = (\<lambda>n s. ret s)\<rparr>"

definition example_mcast_record :: "nat \<Rightarrow> u8 list \<Rightarrow> frames igmp inet \<Rightarrow> err_t \<times> frames igmp inet" where
  "example_mcast_record n bs w = (ERR_OK, w\<lparr>outer := (outer w)\<lparr>beyond := beyond (outer w) @ [(n, bs)]\<rparr>\<rparr>)"

definition example_mcast_calls :: "frames igmp inet_calls" where
  "example_mcast_calls = \<lparr>netif_output = etharp_output example_mcast_wire, ip4_frag = (\<lambda>p n a s. ret (ERR_OK, s)), ip4_reass = (\<lambda>p s. ret (p, s)),
     igmp_lookfor_group = (\<lambda>n a s. bind_run (Igmp.igmp_lookfor_group n a s) (\<lambda>g. ret (g \<noteq> 0))), tcp_input = (\<lambda>p n s. ret s), icmp_input = (\<lambda>p n s. ret s),
     igmp_input = (\<lambda>p n a s. ret s), icmp_dest_unreach = (\<lambda>p c s. ret s), icmp6_dest_unreach = (\<lambda>p c s. ret s), ip6_route = (\<lambda>a b s. ret 0),
     ip6_select_source_address = (\<lambda>n a s. ret None), netif_get_ip6_addr_match = (\<lambda>n a s. ret (-1)),
     ip6_output_if_src = (\<lambda>p a b t u v n s. ret (ERR_RTE, s)), udp_recv_fn = (\<lambda>f arg pcb p a port s. ret s)\<rparr>"

definition example_igmp_calls :: "frames igmp_calls" where
  "example_igmp_calls = \<lparr>igmp_mac_filter = (\<lambda>n. None), LWIP_RAND = (\<lambda>v. (77, v))\<rparr>"

lemma example_mcast_driver: "driver example_mcast_wire example_mcast_record" "outside example_mcast_record"
proof -
  have "pbuf_copy_partial p (chain_len b xs) 0 b = ret (chain_data b xs)" if "packet b p xs" for p xs b
    using copy_partial_loop_chain [of b p xs 0 "chain_len b xs" "[]"] that by (cases xs) (auto simp: packet_def pbuf_copy_partial_def)
  moreover have "pget p b = ret c \<Longrightarrow> packet b p xs \<Longrightarrow> pb_tot_len c = chain_len b xs" for p c b xs
    by (cases xs) (auto simp: packet_def pget_def part_len_def split: option.splits if_splits)
  moreover have "\<exists>c. pget p b = ret c" if "packet b p xs" for p b xs
    using that by (cases xs) (auto simp: packet_def pget_def split: option.splits)
  ultimately show "driver example_mcast_wire example_mcast_record"
    unfolding driver_def example_mcast_wire_def example_mcast_record_def on_igmp_def on_world_def by fastforce
  show "outside example_mcast_record" by (auto simp: outside_def example_mcast_record_def)
qed

lemma example_igmp_env: "igmp_env example_mcast_wire example_mcast_calls example_igmp_calls"
  using example_mcast_driver by (auto simp: igmp_env_def example_mcast_calls_def filters_ok_def example_igmp_calls_def)

lemma example_igmp_pools:
  "memp_inv example_net_pools (ppools example_igmp_pb)"
  "t \<noteq> MEMP_IGMP_GROUP \<Longrightarrow> (t, a) \<in> memp_live example_net_pools (ppools example_igmp_pb) \<longleftrightarrow> (t, a) \<in> memp_live example_net_pools (ppools example_ram_pbuf)"
  "g = 70000 \<or> g = 70608 \<Longrightarrow> (MEMP_IGMP_GROUP, g) \<in> memp_live example_net_pools (ppools example_igmp_pb)"
proof -
  let ?i = "memp_init example_net_pools \<lparr>memp_tab = (\<lambda>_. 0), memp_next = (\<lambda>_. 0)\<rparr>"
  have r: "ppools example_ram_pbuf = ?i" by (simp add: example_ram_pbuf_def example_net_def)
  have m: "ppools example_igmp_pb = ?i\<lparr>memp_tab := (memp_tab ?i)(MEMP_IGMP_GROUP := 0)\<rparr>" by (simp add: example_igmp_pb_def r)
  have e: "free_list example_net_pools (ppools example_igmp_pb) MEMP_IGMP_GROUP = []"
  proof -
    have "link_walk nx n 0 = []" for nx n by (cases n) simp_all
    then show ?thesis by (simp add: free_list_def m)
  qed
  have o: "free_list example_net_pools (ppools example_igmp_pb) t = free_list example_net_pools ?i t" if "t \<noteq> MEMP_IGMP_GROUP" for t
    using that by (simp add: free_list_def m)
  have "pool_inv example_net_pools (ppools example_igmp_pb) t" if t: "t < length example_net_pools" for t
  proof (cases "t = MEMP_IGMP_GROUP")
    case True
    then show ?thesis using e by (simp add: pool_inv_def m)
  next
    case False
    have "pool_inv example_net_pools ?i t" using memp_init_spec(1) [OF example_net_pools_ok] t by (simp add: memp_inv_iff)
    then show ?thesis using False by (simp add: pool_inv_def free_list_def m)
  qed
  then show "memp_inv example_net_pools (ppools example_igmp_pb)" by (simp add: memp_inv_iff)
  show "(t, a) \<in> memp_live example_net_pools (ppools example_igmp_pb) \<longleftrightarrow> (t, a) \<in> memp_live example_net_pools (ppools example_ram_pbuf)" if "t \<noteq> MEMP_IGMP_GROUP"
    using o [OF that] by (simp add: memp_live_def r)
  have d: "example_net_pools ! MEMP_IGMP_GROUP = \<lparr>desc_size = 608, desc_num = 16, desc_base = 70000\<rparr>" "MEMP_IGMP_GROUP < length example_net_pools"
    by (simp_all add: example_net_pools_def MEMP_IGMP_GROUP_def)
  have "set (elements (example_net_pools ! MEMP_IGMP_GROUP)) = (\<lambda>i. 70000 + i * 608) ` {0..<16}"
    unfolding d by (simp add: elements_def LWIP_MEM_ALIGN_def)
  then have "g \<in> set (elements (example_net_pools ! MEMP_IGMP_GROUP))" if "g = 70000 \<or> g = 70608"
    using that by (auto intro: image_eqI [of _ _ 0] image_eqI [of _ _ 1])
  then show "(MEMP_IGMP_GROUP, g) \<in> memp_live example_net_pools (ppools example_igmp_pb)" if "g = 70000 \<or> g = 70608"
    using that e d(2) by (auto simp: memp_live_def)
qed

lemma example_igmp_inv: "pbuf_inv example_igmp_pb"
proof -
  have p: "memp_pools example_ram_pbuf = example_net_pools" by (simp add: example_ram_pbuf_def example_net_def)
  have "pbuf_inv (example_ram_pbuf\<lparr>ppools := ppools example_igmp_pb\<rparr>)"
    by (rule pbuf_inv_other_pool [OF example_ram_inv, of _ MEMP_IGMP_GROUP]) (simp_all add: p example_igmp_pools)
  moreover have "ppools example_igmp_pb = (ppools example_ram_pbuf)\<lparr>memp_tab := (memp_tab (ppools example_ram_pbuf))(MEMP_IGMP_GROUP := 0)\<rparr>"
    by (simp add: example_igmp_pb_def)
  ultimately show ?thesis
    unfolding example_igmp_pb_def pbuf_inv_bytes
    by (intro pbuf_inv_pset [where ?b0.0 = "(example_pbuf 0 100 3 3)\<lparr>pb_type_internal := 0x80\<rparr>"]) (simp_all, simp_all add: example_ram_pbuf_def example_pbuf_def)
qed

lemma example_igmp_state: "igmp_state (example_mcast use) example_groups"
proof -
  let ?s = "example_mcast use"
  have w: "igmp_of ?s = example_member use" "pb ?s = example_igmp_pb" by (simp_all add: example_mcast_def)
  have mp: "memp_pools example_igmp_pb = example_net_pools" by (simp add: example_igmp_pb_def example_ram_pbuf_def example_net_def)
  have ad: "addr_of (example_member use) 70000 = PP_HTONL 0xe0000001" "addr_of (example_member use) 70608 = PP_HTONL 0xe00000fb"
    by (simp_all add: addr_of_def example_member_def example_allsystems_def example_group_def)
  have l: "igmp_lists (example_member use) example_groups"
    using ad by (auto simp: igmp_lists_def example_groups_def example_member_def example_allsystems_def example_group_def PP_HTONL_def)
  have m: "members_ok (example_member use) example_groups"
    using ad by (auto simp: members_ok_def example_groups_def example_member_def example_group_def group_ok_def ip4_addr_ismulticast_def PP_HTONL_def split: if_splits)
  have "dom (igmp_mem (example_member use)) = (\<Union>n. set (example_groups n))"
    unfolding example_groups_def UN_lists(1) by (auto simp: example_member_def split: if_splits)
  then have "igmp_ok (example_member use) example_groups" using l m by (simp add: igmp_ok_def)
  moreover have "igmp_memory ?s"
    unfolding igmp_memory_def w mp using example_igmp_inv example_igmp_pools(3) by (auto simp: example_member_def split: if_splits)
  moreover have "sendable ?s"
    unfolding sendable_def w using example_igmp_inv
    by (simp add: example_igmp_pb_def example_ram_pbuf_def example_net_def example_heap_def mem_consts)
  moreover have "ip4_addr_ismulticast (allrouters (example_member use))" by (simp add: example_member_def ip4_addr_ismulticast_def PP_HTONL_def)
  moreover have "igmp_netif ?s n" if "example_groups n \<noteq> []" for n
    using that by (auto simp: example_groups_def igmp_netif_def ether_netif_def example_mcast_def example_igmp_netif_def example_netif_def ETH_HWADDR_LEN_def split: if_splits)
  ultimately show ?thesis unfolding igmp_state_def w by simp
qed

subsection \<open>The properties\<close>

text \<open>
  C9: IGMP is safe under every sequence of its operations. From a state of the invariant, any sequence of interfaces started and
  stopped, groups joined and left on one or on all interfaces, requests to report the groups, rounds of the timer and messages received
  (whatever bytes they hold) returns: no assertion fails, no dangling pointer is followed, no group is freed twice or lost. The caller only has to
  keep to the interface: groups are multicast addresses other than 224.0.0.1, they are joined on interfaces for IGMP that
  were started with success, and messages are packets of their own. Afterwards the lists of groups are again the memory that
  is taken from the pool, and a timer runs exactly for the groups whose report is due.
\<close>

theorem igmp_sequences_safe:
  assumes "igmp_env nc ic ig" and "igmp_state s L" and "all_allowed igmp_step igmp_step_allowed es (nc, ic, ig, s)"
  shows "\<exists>s' L'. run_all igmp_step es (nc, ic, ig, s) = ret (nc, ic, ig, s') \<and> igmp_state s' L'"
proof -
  have same: "fst w' = fst w \<and> fst (snd w') = fst (snd w) \<and> fst (snd (snd w')) = fst (snd (snd w))" if "igmp_step e w = ret w'"
    for e and w w' :: "'a igmp inet net_calls \<times> 'a igmp inet_calls \<times> 'a igmp_calls \<times> 'a mcast"
    using that by (cases w) (auto elim!: bind_run_retE)
  have all: "fst w' = fst w \<and> fst (snd w') = fst (snd w) \<and> fst (snd (snd w')) = fst (snd (snd w))" if "run_all igmp_step es w = ret w'"
    for es and w w' :: "'a igmp inet net_calls \<times> 'a igmp inet_calls \<times> 'a igmp_calls \<times> 'a mcast"
    using that
  proof (induction es arbitrary: w)
    case (Cons e es)
    then obtain v where "igmp_step e w = ret v" "run_all igmp_step es v = ret w'" by (auto elim!: bind_run_retE)
    then show ?case using Cons.IH [of v] same [of e w v] by simp
  qed simp
  have "igmp_machine_inv (nc, ic, ig, s)" using assms(1,2) by auto
  then obtain w where w: "run_all igmp_step es (nc, ic, ig, s) = ret w" "igmp_machine_inv w" using igmp.run_all_law [OF _ assms(3)] by blast
  obtain s' where "w = (nc, ic, ig, s')" using all [OF w(1)] by (cases w) auto
  then show ?thesis using w by auto
qed

theorem igmp_sequences_safe_witness:
  "\<exists>s' L'. run_all igmp_step [Igmp_start 1, Igmp_tmr, Igmp_leavegroup_netif 1 (PP_HTONL 0xe00000fb), Igmp_report_groups 1, Igmp_leavegroup 0 (PP_HTONL 0xe00000fb), Igmp_stop 1, Igmp_tmr]
     (example_mcast_wire, example_mcast_calls, example_igmp_calls, example_mcast 2) = ret (example_mcast_wire, example_mcast_calls, example_igmp_calls, s') \<and> igmp_state s' L'"
  (is "\<exists>s' L'. run_all igmp_step ?es _ = _ \<and> _")
proof -
  have "all_allowed igmp_step igmp_step_allowed ?es (example_mcast_wire, example_mcast_calls, example_igmp_calls, example_mcast 2)"
    by (rule always_allowed [OF example_igmp_env example_igmp_state])
      (auto simp: steady_def example_mcast_def igmp_netif_def ether_netif_def group_arg_def present_def example_member_def
        example_igmp_netif_def example_netif_def ETH_HWADDR_LEN_def NETIF_FLAG_IGMP_def ip4_addr_ismulticast_def PP_HTONL_def)
  then show ?thesis by (rule igmp_sequences_safe [OF example_igmp_env example_igmp_state])
qed

text \<open>
  C7: IGMP implements a table of use counters. Every call that keeps to the interface returns, and the lists of groups before and after it stand for
  tables that are related as the call means: a join counts one more user (from 1, modulo 256) or fails with \<open>ERR_MEM\<close> and changes
  nothing, a leave counts one less, removes the group with its last user, and fails with \<open>ERR_VAL\<close> for a group that was not joined; on all
  selected interfaces, a join stops at the first failure and a leave does not. Time, queries and reports never change the table.
\<close>

theorem igmp_refines_table:
  fixes s :: "'v mcast"
  assumes "igmp_env nc ic ig" and "igmp_state s L" and "igmp_allowed e s"
  shows "\<exists>r s' L'. igmp_call ic ig e s = ret (r, s') \<and> igmp_state s' L' \<and> table_step e s r (table_of s L) (table_of s' L')
    \<and> netifs s' = netifs s \<and> netif_list s' = netif_list s"
  using call_ok [OF assms] by (auto simp: steady_def)

theorem igmp_refines_table_witness:
  "\<exists>s' L'. igmp_joingroup_netif example_mcast_calls example_igmp_calls 1 (PP_HTONL 0xe00000fb) (example_mcast 2) = ret (ERR_OK, s')
     \<and> table_of s' L' 1 (PP_HTONL 0xe00000fb) = Some 3 \<and> table_of s' L' 1 (PP_HTONL 0xe0000001) = Some 1"
proof -
  let ?a = "PP_HTONL 0xe00000fb"
  have al: "igmp_allowed (Igmp_joingroup_netif 1 ?a) (example_mcast 2)"
    by (simp add: group_arg_def running_def example_mcast_def example_member_def example_igmp_netif_def NETIF_FLAG_IGMP_def ip4_addr_ismulticast_def PP_HTONL_def)
  have t: "table_of (example_mcast 2) example_groups 1 = [PP_HTONL 0xe0000001 \<mapsto> 1, ?a \<mapsto> 2]"
    by (simp add: table_of_def memberships_def example_mcast_def example_groups_def example_member_def addr_of_def use_of_def example_allsystems_def example_group_def
        PP_HTONL_def fun_eq_iff)
  have n: "PP_HTONL 0xe0000001 \<noteq> ?a" by (simp add: PP_HTONL_def)
  from igmp_refines_table [OF example_igmp_env example_igmp_state al]
  obtain r s' L' where "igmp_joingroup_netif example_mcast_calls example_igmp_calls 1 ?a (example_mcast 2) = ret (r, s')"
    "join_spec 1 ?a r (table_of (example_mcast 2) example_groups) (table_of s' L')" by auto
  then show ?thesis using t n by (intro exI [of _ s'] exI [of _ L']) (auto simp: join_spec_def)
qed

text \<open>
  C27: the counter of the users of a group has 8 bits and wraps. After 255 joins another one succeeds and sets it to 0, and then the first leave
  removes the group from the interface although 255 users have not left it.
\<close>

theorem igmp_use_count_wraps:
  fixes s :: "'v mcast"
  assumes "igmp_env nc ic ig" and "igmp_state s L" and "running s n" and "group_arg s a" and "table_of s L n a = Some 255"
  shows "\<exists>s1 L1 s2 L2. igmp_joingroup_netif ic ig n a s = ret (ERR_OK, s1) \<and> igmp_state s1 L1 \<and> table_of s1 L1 n a = Some 0
    \<and> igmp_leavegroup_netif ic ig n a s1 = ret (ERR_OK, s2) \<and> igmp_state s2 L2 \<and> table_of s2 L2 n a = None"
proof -
  have "igmp_allowed (Igmp_joingroup_netif n a) s" using assms(3,4) by simp
  from call_ok [OF assms(1,2) this] obtain r s1 L1 where s1: "igmp_joingroup_netif ic ig n a s = ret (r, s1)" "igmp_state s1 L1"
    "join_spec n a r (table_of s L) (table_of s1 L1)" "steady s s1" by auto
  then have t: "r = ERR_OK" "table_of s1 L1 n a = Some 0" using assms(5) by (auto simp: join_spec_def)
  have "igmp_allowed (Igmp_leavegroup_netif n a) s1"
    using assms(3,4) s1(4) by (auto simp: running_def group_arg_def present_def steady_def split: option.splits)
  from call_ok [OF assms(1) s1(2) this] obtain q s2 L2 where "igmp_leavegroup_netif ic ig n a s1 = ret (q, s2)" "igmp_state s2 L2"
    "leave_spec n a q (table_of s1 L1) (table_of s2 L2)" by auto
  then show ?thesis using s1 t by (intro exI [of _ s1] exI [of _ L1] exI [of _ s2] exI [of _ L2]) (simp add: leave_spec_def)
qed

theorem igmp_use_count_wraps_witness:
  "\<exists>s1 s2 L2. igmp_joingroup_netif example_mcast_calls example_igmp_calls 1 (PP_HTONL 0xe00000fb) (example_mcast 255) = ret (ERR_OK, s1)
     \<and> igmp_leavegroup_netif example_mcast_calls example_igmp_calls 1 (PP_HTONL 0xe00000fb) s1 = ret (ERR_OK, s2) \<and> table_of s2 L2 1 (PP_HTONL 0xe00000fb) = None"
proof -
  have "running (example_mcast 255) 1" "group_arg (example_mcast 255) (PP_HTONL 0xe00000fb)"
    by (simp_all add: group_arg_def running_def example_mcast_def example_member_def example_igmp_netif_def NETIF_FLAG_IGMP_def ip4_addr_ismulticast_def PP_HTONL_def)
  moreover have "table_of (example_mcast 255) example_groups 1 (PP_HTONL 0xe00000fb) = Some 255"
    by (simp add: table_of_def memberships_def example_mcast_def example_groups_def example_member_def addr_of_def use_of_def example_allsystems_def example_group_def PP_HTONL_def)
  ultimately show ?thesis using igmp_use_count_wraps [OF example_igmp_env example_igmp_state] by blast
qed

text \<open>
  C10: when the delay of a group is over, its membership is reported. The group is idle then, and exactly one frame leaves the interface: an IGMP
  version 2 report of the group to the group itself, with a valid checksum, a TTL of 1 and the router alert option, in an Ethernet frame to the multicast
  address that belongs to the group; the host is remembered as the last reporter. Nothing is sent only if there is no memory for the
  message. All packet buffers are as before.
\<close>

theorem igmp_timeout_reports:
  fixes s :: "'v mcast"
  assumes "driver nc transmit" and "netif_output ic = etharp_output nc" and "pbuf_inv (pb s)" and "ram (pheap (pb s)) + MEM_SIZE_ALIGNED \<le> 2 ^ 32"
    and "ether_netif s n ni" and "mtu ni = 0 \<or> 32 \<le> unat (mtu ni)" and "g \<noteq> 0" and "igmp_mem (igmp_of s) g = Some gr"
    and "group_state gr = IGMP_GROUP_DELAYING_MEMBER" and "group_address gr \<noteq> allsystems (igmp_of s)" and "ip4_addr_ismulticast (group_address gr)"
  defines "idle \<equiv> gr\<lparr>group_state := IGMP_GROUP_IDLE_MEMBER\<rparr>"
  shows "\<exists>s' p t. igmp_timeout ic n g s = ret s' \<and> restored s s' \<and> pbuf_alloc PBUF_TRANSPORT IGMP_MINLEN PBUF_RAM (pb s) = ret (p, t)
    \<and> world s' = (if p = 0 then world (gput g idle s)
        else snd (transmit n (frame (mcast_mac (group_address gr) ni) (hwaddr ni) ETHTYPE_IP
               (alert_header 32 (ip_id (world s)) (ip_addr ni) (group_address gr) @ igmp_message IGMP_V2_MEMB_REPORT (group_address gr)))
             ((world (gput g (idle\<lparr>last_reporter_flag := True\<rparr>) s))\<lparr>ip_id := ip_id (world s) + 1\<rparr>)))"
proof -
  let ?s = "gput g idle s"
  have run: "igmp_timeout ic n g s = igmp_send ic n g IGMP_V2_MEMB_REPORT ?s"
    using assms(7-10) by (simp add: igmp_timeout_def gget_def idle_def)
  have r: "restored s ?s" using quiet_gput [OF assms(3)] by (simp add: undisturbed_def)
  have e: "ether_netif ?s n ni" using assms(5) by (simp add: ether_netif_def)
  have g: "igmp_mem (igmp_of ?s) g = Some idle" "group_address idle = group_address gr" by (simp_all add: idle_def)
  have w: "world (gput g (idle\<lparr>last_reporter_flag := True\<rparr>) ?s) = world (gput g (idle\<lparr>last_reporter_flag := True\<rparr>) s)" "ip_id (world ?s) = ip_id (world s)"
    by (simp_all add: gput_def on_igmp_def on_world_def)
  show ?thesis
    using igmp_send_ok [OF assms(1,2) _ _ e assms(6,7) g(1), of IGMP_V2_MEMB_REPORT] assms(3,4,11) restored_trans [OF r]
    unfolding run igmp_frame_def by (fastforce simp: w g(2))
qed

theorem igmp_timeout_reports_witness:
  "\<exists>s' p t. igmp_timeout example_mcast_calls 1 70608 (gput 70608 ((example_group 1)\<lparr>group_state := IGMP_GROUP_DELAYING_MEMBER\<rparr>) (example_mcast 1)) = ret s'
     \<and> pbuf_alloc PBUF_TRANSPORT IGMP_MINLEN PBUF_RAM example_igmp_pb = ret (p, t)
     \<and> (p \<noteq> 0 \<longrightarrow> beyond (igmp_of s') = [(1, [1, 0, 0x5e, 0, 0, 0xfb, 2, 0, 0, 0, 0, 1, 8, 0,
          0x46, 0, 0, 32, 0, 1, 0, 0, 1, 2, 0, 0, 192, 168, 1, 1, 224, 0, 0, 251, 0x94, 4, 0, 0, 0x16, 0, 0x09, 0x04, 224, 0, 0, 251])])"
proof -
  let ?g = "(example_group 1)\<lparr>group_state := IGMP_GROUP_DELAYING_MEMBER\<rparr>"
  let ?s = "gput 70608 ?g (example_mcast 1)"
  have d: "driver example_mcast_wire example_mcast_record" "netif_output example_mcast_calls = etharp_output example_mcast_wire"
    using example_mcast_driver by (simp_all add: example_mcast_calls_def)
  have s: "pbuf_inv (pb ?s)" "ram (pheap (pb ?s)) + MEM_SIZE_ALIGNED \<le> 2 ^ 32" "pb ?s = example_igmp_pb"
    using igmp_stateD(5,6) [OF example_igmp_state [of 1]] by (simp_all add: sendable_def example_mcast_def)
  have e: "ether_netif ?s 1 example_igmp_netif" "mtu example_igmp_netif = 0 \<or> 32 \<le> unat (mtu example_igmp_netif)"
    by (simp_all add: ether_netif_def example_mcast_def example_igmp_netif_def example_netif_def ETH_HWADDR_LEN_def)
  have g: "(70608 :: nat) \<noteq> 0" "igmp_mem (igmp_of ?s) 70608 = Some ?g" "group_state ?g = IGMP_GROUP_DELAYING_MEMBER"
    "group_address ?g \<noteq> allsystems (igmp_of ?s)" "ip4_addr_ismulticast (group_address ?g)"
    by (simp_all add: example_group_def example_mcast_def example_member_def ip4_addr_ismulticast_def PP_HTONL_def)
  have f: "frame (mcast_mac (group_address ?g) example_igmp_netif) (hwaddr example_igmp_netif) ETHTYPE_IP
      (alert_header 32 (ip_id (world ?s)) (ip_addr example_igmp_netif) (group_address ?g) @ igmp_message IGMP_V2_MEMB_REPORT (group_address ?g))
    = [1, 0, 0x5e, 0, 0, 0xfb, 2, 0, 0, 0, 0, 1, 8, 0,
          0x46, 0, 0, 32, 0, 1, 0, 0, 1, 2, 0, 0, 192, 168, 1, 1, 224, 0, 0, 251, 0x94, 4, 0, 0, 0x16, 0, 0x09, 0x04, 224, 0, 0, 251]"
    by (simp add: frame_def mcast_mac_def alert_header_def igmp_message_def be16_bytes_def memory_bytes_def example_group_def example_mcast_def example_igmp_netif_def example_netif_def
        PP_HTONL_def ETHTYPE_IP_def IGMP_TTL_def IP_PROTO_IGMP_def IGMP_V2_MEMB_REPORT_def ip4_addr_isbroadcast_u32_def gput_def on_igmp_def on_world_def
        internet_checksum_def ones_sum_def mem16_def IPADDR_ANY_def ip4_addr_netcmp_def)
  from igmp_timeout_reports [OF d s(1,2) e g] show ?thesis
    unfolding f s(3) example_mcast_record_def by (elim exE conjE) (intro exI conjI impI, assumption+, simp add: example_mcast_def gput_def on_igmp_def on_world_def example_member_def)
qed

text \<open>Rounds of the timer.\<close>

fun igmp_rounds :: "nat \<Rightarrow> 'v igmp inet_calls \<Rightarrow> 'v mcast \<Rightarrow> 'v mcast run" where
  "igmp_rounds 0 ic s = ret s"
| "igmp_rounds (Suc k) ic s = bind_run (igmp_tmr ic s) (\<lambda>s. igmp_rounds k ic s)"

text \<open>The groups in \<open>X\<close> have at most \<open>k\<close> rounds left.\<close>

definition due_in :: "nat \<Rightarrow> nat set \<Rightarrow> 'v igmp \<Rightarrow> bool" where
  "due_in k X w \<longleftrightarrow> (\<forall>g\<in>X. case igmp_mem w g of None \<Rightarrow> False | Some gr \<Rightarrow> unat (group_timer gr) \<le> k)"

lemma ticked_timer:
  assumes "ticked all a b"
  shows "unat (group_timer b) = unat (group_timer a) - 1"
proof (cases "group_timer a = 1 \<and> group_state a = IGMP_GROUP_DELAYING_MEMBER \<and> group_address a \<noteq> all")
  case True
  then have "b = a\<lparr>group_timer := 0, group_state := IGMP_GROUP_IDLE_MEMBER, last_reporter_flag := last_reporter_flag b\<rparr>" using assms by (simp add: ticked_def)
  then have "group_timer b = 0" by (metis igmp_group.select_convs(5) igmp_group.surjective igmp_group.update_convs(3-5))
  then show ?thesis using True by simp
next
  case False
  then have "b = a\<lparr>group_timer := if group_timer a = 0 then 0 else group_timer a - 1\<rparr>" using assms unfolding ticked_def if_not_P [OF False] by blast
  then show ?thesis by (auto simp: unat_minus_one)
qed

lemma rounds_ok:
  fixes s :: "'v mcast"
  assumes env: "igmp_env nc ic ig" and "igmp_state s L" "distinct (netif_list s)" "n \<in> set (netif_list s)" "X \<subseteq> set (L n)" "due_in k X (igmp_of s)"
  shows "\<exists>s'. igmp_rounds k ic s = ret s' \<and> igmp_state s' L \<and> table_of s' L = table_of s L \<and> due_in 0 X (igmp_of s')"
  using assms(2-)
proof (induction k arbitrary: s)
  case 0
  then show ?case by auto
next
  case (Suc k)
  obtain transmit where io: "driver nc transmit" "outside transmit" "netif_output ic = etharp_output nc" using env by (auto simp: igmp_env_def)
  obtain t where t: "igmp_tmr ic s = ret t" "undisturbed s t" "changed_by (round_of (allsystems (igmp_of s)) (netif_list s) L) (igmp_of s) (igmp_of t)"
    using tmr_netifs_ok [OF io Suc.prems(1,2)] unfolding igmp_tmr_def by blast
  have st: "igmp_state t L \<and> table_of t L = table_of s L \<and> steady s t" by (rule evolved_call [OF Suc.prems(1) t(2,3)]) (rule round_kept)
  have "due_in k X (igmp_of t)"
    unfolding due_in_def
  proof
    fix g assume g: "g \<in> X"
    then obtain gr where gr: "igmp_mem (igmp_of s) g = Some gr" "unat (group_timer gr) \<le> Suc k" using Suc.prems(5) by (auto simp: due_in_def split: option.splits)
    obtain gr' where gr': "igmp_mem (igmp_of t) g = Some gr'" "round_of (allsystems (igmp_of s)) (netif_list s) L g gr gr'"
      using changed_by_at(2) [OF t(3) gr(1)] by blast
    have "\<exists>n\<in>set (netif_list s). g \<in> set (L n)" using Suc.prems(3,4) g by blast
    then have "ticked (allsystems (igmp_of s)) gr gr'" using gr'(2) by (simp add: round_of_def)
    then show "case igmp_mem (igmp_of t) g of None \<Rightarrow> False | Some gr \<Rightarrow> unat (group_timer gr) \<le> k" using ticked_timer gr(2) gr'(1) by fastforce
  qed
  then obtain s' where "igmp_rounds k ic t = ret s'" "igmp_state s' L" "table_of s' L = table_of t L" "due_in 0 X (igmp_of s')"
    using Suc.IH [of t] Suc.prems(2-4) st by (auto simp: steady_def)
  then show ?case using t(1) st by auto
qed



text \<open>
  C28: an interface whose \<open>igmp_start\<close> ran out of memory, which \<open>netif_add\<close> does not notice, is a trap: as soon as there is memory again, the first attempt
  to join a group there fails an assertion and stops the system, because the first group of an interface has to be that of all systems.
\<close>

theorem igmp_join_after_failed_start_aborts:
  fixes s :: "'v mcast"
  assumes "netif_igmp_data (igmp_of s) n = 0" and "memp_malloc (memp_pools (pb s)) MEMP_IGMP_GROUP (ppools (pb s)) = ret (None, ppools (pb s))"
    and "memp_malloc (memp_pools (pb s)) MEMP_IGMP_GROUP m = ret (Some g, m')" and "g \<noteq> 0"
    and "group_arg s a" and "nget n s = ret ni" and "netif_flags ni AND NETIF_FLAG_IGMP \<noteq> 0"
  shows "Igmp.igmp_start ig n s = ret (ERR_MEM, s)
    \<and> igmp_joingroup_netif ic ig n a (s\<lparr>pb := (pb s)\<lparr>ppools := m\<rparr>\<rparr>) = stop (Abort ''igmp_lookup_group: first group must be allsystems'')"
proof -
  have l: "Igmp.igmp_lookfor_group n x t = ret 0" if "igmp_of t = igmp_of s" for x and t :: "'v mcast"
    unfolding igmp_lookfor_group_def that using assms(1) by (subst lookfor_loop.simps) simp
  have ng: "nget n (s\<lparr>pb := (pb s)\<lparr>ppools := m\<rparr>\<rparr>) = ret ni" unfolding assms(6) [symmetric] by (simp add: nget_def)
  have "Igmp.igmp_start ig n s = ret (ERR_MEM, s)"
    using assms(1,2) l [of s] by (simp add: Igmp.igmp_start_def igmp_lookup_group_def Let_def)
  moreover have "igmp_joingroup_netif ic ig n a (s\<lparr>pb := (pb s)\<lparr>ppools := m\<rparr>\<rparr>) = stop (Abort ''igmp_lookup_group: first group must be allsystems'')"
    using assms(1,3-5,7) l ng by (simp add: igmp_joingroup_netif_def group_arg_def lwip_assert_def igmp_lookup_group_def Let_def)
  ultimately show ?thesis by simp
qed

theorem igmp_join_after_failed_start_aborts_witness:
  "Igmp.igmp_start example_igmp_calls 1 example_unstarted = ret (ERR_MEM, example_unstarted)
   \<and> igmp_joingroup_netif example_mcast_calls example_igmp_calls 1 (PP_HTONL 0xe00000fb)
       (example_unstarted\<lparr>pb := (pb example_unstarted)\<lparr>ppools := \<lparr>memp_tab = (\<lambda>_. 70000), memp_next = (\<lambda>_. 0)\<rparr>\<rparr>\<rparr>)
     = stop (Abort ''igmp_lookup_group: first group must be allsystems'')"
proof -
  have mp: "memp_pools example_igmp_pb = example_net_pools" "ppools (pb example_unstarted) = ppools example_igmp_pb" "memp_pools (pb example_unstarted) = example_net_pools"
    by (simp_all add: example_igmp_pb_def example_ram_pbuf_def example_net_def example_unstarted_def example_mcast_def)
  have len: "MEMP_IGMP_GROUP < length example_net_pools" "memp_tab (ppools example_igmp_pb) MEMP_IGMP_GROUP = 0"
    by (simp_all add: example_net_pools_def MEMP_IGMP_GROUP_def, simp add: example_igmp_pb_def MEMP_IGMP_GROUP_def)
  have n: "netif_igmp_data (igmp_of example_unstarted) 1 = 0" by (simp add: example_unstarted_def)
  have m: "memp_malloc (memp_pools (pb example_unstarted)) MEMP_IGMP_GROUP (ppools (pb example_unstarted)) = ret (None, ppools (pb example_unstarted))"
    "memp_malloc (memp_pools (pb example_unstarted)) MEMP_IGMP_GROUP \<lparr>memp_tab = (\<lambda>_. 70000), memp_next = (\<lambda>_. 0)\<rparr>
       = ret (Some 70000, \<lparr>memp_tab = (\<lambda>_. 70000)(MEMP_IGMP_GROUP := 0), memp_next = (\<lambda>_. 0)\<rparr>)"
    unfolding mp using len by (simp_all add: memp_malloc_def do_memp_malloc_pool_def lwip_assert_def)
  have a: "(70000 :: nat) \<noteq> 0" "group_arg example_unstarted (PP_HTONL 0xe00000fb)" "nget 1 example_unstarted = ret example_igmp_netif"
    "netif_flags example_igmp_netif AND NETIF_FLAG_IGMP \<noteq> 0"
    by (simp_all add: group_arg_def example_unstarted_def example_mcast_def example_member_def nget_def example_igmp_netif_def NETIF_FLAG_IGMP_def
        ip4_addr_ismulticast_def PP_HTONL_def)
  show ?thesis by (rule igmp_join_after_failed_start_aborts [OF n m a])
qed

end
