(* ===== verification/Spec2Isabelle.thy ===== *)
theory Spec2Isabelle
  imports Timeouts Inet_Chksum Autoip_Properties Netif_Admin Udp_Types Icmp_Properties Igmp_Properties
begin

text \<open>
  A verification library for the core of the lwIP 2.1.1 stack that EmIL builds on, the C code under
  \<open>src/lwip/lwip-2.1.1/src\<close>. File names below are relative to that directory.

  \<^bold>\<open>The build that is modelled.\<close> The configuration is \<open>src/lwip/lwip_config/lwipopts.h\<close> with the
  defaults of \<open>include/lwip/opt.h\<close>: no operating system (\<open>NO_SYS\<close>), IPv4 and IPv6, ARP, DHCP, AutoIP,
  IGMP and DNS, a heap of 3200 bytes aligned to 4, no statistics, no checksums in software but
  the check of incoming ICMP messages, a little endian 32 bit target. Code that this configuration compiles out has no counterpart here.
  \<open>LWIP_ASSERT\<close> and \<open>LWIP_ERROR\<close> call \<open>abort()\<close> when they fail (\<open>lwip_config/arch/cc.h\<close>), so every
  assertion of the source is a branch of the model, with its message.

  \<^bold>\<open>How code becomes definitions.\<close> Structs are records, enumerations datatypes, pointers addresses of
  type \<open>nat\<close> (0 is \<open>NULL\<close>), and the state that functions share is a record that is passed through. A C
  function whose result is a value of type \<open>'a run\<close> may not return (\<open>None\<close>), may stop with a \<open>fault\<close>
  (a failed assertion, a bad pointer) or may return (\<open>ret\<close>). Loops over linked structures are
  \<^theory_text>\<open>partial_function (option)\<close>: there is no fuel anywhere, and the theorems show that the loops end.
  Loops over counters and arrays are structural recursions. Machine integers are words where the
  code relies on their width (times, checksums, addresses, the age of ARP entries), and \<open>nat\<close> with the
  wrap-around written out (\<open>U8\<close>, \<open>U16\<close>, \<open>size_t_minus\<close>) for the lengths of packet buffers and the heap.

  \<^bold>\<open>The parts, from the bottom up.\<close>
  \<^item> \<open>Lwip_Prelude\<close>: machine types, runs and their lemmas, the locale \<open>run_machine\<close> of components whose
    operations keep an invariant under every sequence of operations.
  \<^item> \<open>Allocator\<close>: the locales of allocators, what a client of the heap and of the pools may rely on.
  \<^item> \<open>Def\<close> (\<open>core/def.c\<close>): byte order, \<open>lwip_strnstr\<close>, \<open>lwip_stricmp\<close>, \<open>lwip_itoa\<close>. Round trips and equivalence
    with reference definitions.
  \<^item> \<open>Ip4_Addr\<close> (\<open>core/ipv4/ip4_addr.c\<close>): broadcast test, net masks, text conversion, the interface record;
    \<open>Ip_Addr\<close> the address types of both versions.
  \<^item> \<open>Mem\<close> (\<open>core/mem.c\<close>): the heap as an array of bytes with its doubly linked list of blocks. The
    invariant \<open>heap_inv\<close> ties the links to a partition into blocks; \<open>mem_malloc\<close>, \<open>mem_free\<close>, \<open>mem_trim\<close>
    keep it, never merge wrongly and never leave two free blocks side by side.
  \<^item> \<open>Memp\<close> (\<open>core/memp.c\<close>): the pools, free lists threaded through their elements.
  \<^item> \<open>Timeouts\<close> (\<open>core/timeouts.c\<close>): the sorted list of timeouts and the cyclic timers, with times that
    wrap around. Handlers are functions on the state; the clock is an argument.
  \<^item> \<open>Pbuf\<close> (\<open>core/pbuf.c\<close>): packet buffers as structs in memory, chained by \<open>next\<close>; \<open>Pbuf_Chain\<close> relates a
    chain to the list of its structs and to the bytes it carries (a reference view of packets as
    lists of bytes), \<open>Pbuf_Memory\<close> holds the memory invariant \<open>pbuf_inv\<close> (heap, pools and structs agree)
    and allocation, deallocation, headers; \<open>Pbuf_Copy\<close> copies between chains.
  \<^item> \<open>Inet_Sum\<close>, \<open>Inet_Chksum\<close> (\<open>core/inet_chksum.c\<close>): ones complement sums, the three checksum loops, the
    pseudo headers.
  \<^item> \<open>Net_State\<close>: what the link layer shares. The state \<open>net\<close> has the ARP table, the packet buffers, the
    interfaces, the AutoIP clients and the outside \<open>world\<close>; the record \<open>net_calls\<close> has what is called from
    there: the driver and the layers that are not modelled.
  \<^item> \<open>Ethernet\<close> (\<open>netif/ethernet.c\<close>), \<open>Etharp_Out\<close> and \<open>Etharp\<close> (\<open>core/ipv4/etharp.c\<close>): frames and address
    resolution, split because interfaces and AutoIP send ARP messages and ARP calls AutoIP.
    \<open>Etharp_Send\<close> says what leaves through a driver, \<open>Etharp_Table\<close> has the invariant of the table,
    \<open>Etharp_Cache\<close> the invariant \<open>arp_inv\<close> (every queued packet is a chain of its own) and the abstraction
    \<open>abs_cache\<close> of the table to a finite map, \<open>Etharp_Packets\<close> queries, output and input,
    \<open>Etharp_Properties\<close> the properties.
  \<^item> \<open>Netif\<close> (\<open>core/netif.c\<close>, addresses and reports) and \<open>Netif_Admin\<close> (adding, up and down, index): network
    interfaces, their IPv4 part.
  \<^item> \<open>Autoip\<close> (\<open>core/ipv4/autoip.c\<close>): the client that chooses an address of its own. \<open>Autoip_Machine\<close>
    describes the code by one step function on interface and client, \<open>Autoip_Properties\<close> has the
    properties.
  \<^item> \<open>Ip_Any\<close> (the macros of \<open>include/lwip/ip_addr.h\<close>, \<open>ip6_addr.h\<close>, \<open>ip6_zone.h\<close>) and \<open>Ip4\<close> (\<open>core/ipv4/ip4.c\<close>: routes and output).
    The state \<open>inet\<close> of IP and UDP is the \<open>world\<close> of the link layer, so the two layers compose; the record
    \<open>inet_calls\<close> has what is called from there: \<open>netif->output\<close>, fragmentation, ICMP, IGMP, TCP, IPv6, the receive
    functions of applications.
  \<^item> \<open>Udp\<close> (\<open>core/udp.c\<close>: control blocks and ports), \<open>Udp_Packets\<close> (datagrams in and out), \<open>Ip4_Input\<close> (the input half of
    \<open>ip4.c\<close> and \<open>ip_input\<close> of \<open>core/ip.c\<close>). \<open>Udp_Table\<close> has the invariant \<open>udp_inv\<close> of the list of blocks,
    \<open>Udp_Properties\<close> and \<open>Udp_Types\<close> the properties of the interface of UDP.
  \<^item> \<open>Icmp\<close> (\<open>core/ipv4/icmp.c\<close>): answers to echo requests, error messages. \<open>Icmp_Properties\<close> follows a ping
    from the frame to the answer.
  \<^item> \<open>Igmp\<close> (\<open>core/ipv4/igmp.c\<close>): memberships in multicast groups. The lists of groups are the \<open>outer\<close> world of IP, so that the layers
    compose again. \<open>Igmp_Groups\<close> has the meaning of the links and the invariant of the lists, \<open>Pbuf_Pools\<close> keeps packet buffers and
    other users of the pools apart, \<open>Igmp_Send\<close> follows a report down to the driver, \<open>Igmp_Machine\<close> has the timers, \<open>Igmp_Run\<close>
    the invariant \<open>igmp_state\<close> of the whole and the table of memberships it stands for with starting, stopping, joining and
    leaving, \<open>Igmp_Timers\<close> rounds of the timer, queries, reports and several interfaces, \<open>Igmp_Properties\<close> the machine of all operations and the properties.
  \<^item> \<open>Header_Bytes\<close>: the headers of IPv4 and UDP as bytes. \<open>Frame_Input\<close> follows a frame up to the protocol above IPv4.
    \<open>Udp_Send\<close> follows a datagram down to the driver,
    \<open>Udp_Receive\<close> up from a frame to the application, and \<open>Udp_Delivery\<close> puts both together.

  \<^bold>\<open>What the theorems show.\<close> Memory: allocation and deallocation are exact and keep the invariants of
  heap, pools and packet buffers, errors (double free, exhausted memory) are reported as the code
  means to, freeing everything restores one free block. Data: packets are the bytes they should be
  after every operation, however they are split into structs; checksums, addresses and strings agree
  with reference definitions and round trips hold. Time: due timers run, none is missed, order is
  kept across the wrap-around of the clock. Network: the ARP table refines a cache, a packet to a
  known neighbour leaves as exactly one frame, a packet to an unknown one is queued and sent when
  the answer comes, entries expire, and every sequence of operations is free of failed assertions
  and memory errors. An AutoIP client gets its address after a bounded number of timer rounds and answers
  conflicts; an interface that is added gets a number of its own. UDP: bound blocks exclude one
  another under every sequence of calls, a free port is found when there is one, and a datagram is
  delivered from one application to another, from \<open>udp_sendto\<close> through IPv4, ARP and Ethernet to the
  receive function at the other host, with the same bytes. Pings are answered, other ICMP messages dropped. IGMP: the lists of
  groups implement a table of use counters under every sequence of calls, a query is answered within its response time, and a report leaves as the
  right frame. Some theorems state that the code does not do what it means to.

  \<^bold>\<open>Interfaces.\<close> The locales of \<open>Allocator\<close> are interpreted on the heap and the pools; the locale \<open>run_machine\<close>
  on the machines of ARP with AutoIP, of UDP and of IGMP. The laws of what is not modelled (a driver and its multicast filter, the handlers of timers, the
  IPv6 routes) are named hypotheses of the theorems, and each witness satisfies them with concrete functions.

  \<^bold>\<open>Not modelled.\<close> TCP, IPv4 fragmentation and reassembly, IPv6, DHCP, DNS and MLD (not reached); they
  are parameters where modelled code calls them. The socket and sequential APIs (not compiled without an operating
  system); \<open>pbuf_free_ooseq\<close> (it walks TCP connections); the C++ code of EmIL around the stack, applications and vendored libraries.
\<close>

end
